(* ===== verification/Prelude.thy ===== *)
theory Prelude
  imports
    Main
    "HOL-Library.Sublist"
    "HOL-Library.Word"
    "HOL-Library.Char_ord"
    "HOL-Library.List_Lexorder"
    "HOL-Library.Product_Lexorder"
    "HOL-Library.Monad_Syntax"
    "HOL-Library.AList"
begin

text \<open>
  Shared vocabulary of the development: the part of Rust's standard library the modelled
  code uses on bytes, \<open>&str\<close> and \<open>HashMap\<close>, and the generic lemmas on lists that the
  component theories share.

  A Rust \<open>String\<close> or \<open>&str\<close> is the list of its UTF-8 bytes. HOL's type \<open>char\<close> has
  exactly 256 values, so \<open>string\<close> (a \<open>char list\<close>) is a byte string and offsets and
  lengths are the byte offsets and byte lengths the Rust code computes with.
\<close>

named_theorems text_simps \<open>splitting and searching of byte strings\<close>
named_theorems range_simps \<open>arithmetic of half-open byte ranges\<close>

type_synonym byte = char
type_synonym str = string

abbreviation code :: "char \<Rightarrow> nat" where
  "code c \<equiv> of_char c"


section \<open>Bytes\<close>

definition byte_between :: "nat \<Rightarrow> nat \<Rightarrow> byte \<Rightarrow> bool" where
  "byte_between lo hi b \<longleftrightarrow> lo \<le> code b \<and> code b \<le> hi"

definition is_ascii :: "byte \<Rightarrow> bool" where
  "is_ascii b \<longleftrightarrow> code b < 128"

definition is_ascii_uppercase :: "byte \<Rightarrow> bool" where
  "is_ascii_uppercase b = byte_between 65 90 b"

definition is_ascii_lowercase :: "byte \<Rightarrow> bool" where
  "is_ascii_lowercase b = byte_between 97 122 b"

definition is_ascii_digit :: "byte \<Rightarrow> bool" where
  "is_ascii_digit b = byte_between 48 57 b"

definition is_ascii_alphabetic :: "byte \<Rightarrow> bool" where
  "is_ascii_alphabetic b \<longleftrightarrow> is_ascii_uppercase b \<or> is_ascii_lowercase b"

definition is_ascii_alphanumeric :: "byte \<Rightarrow> bool" where
  "is_ascii_alphanumeric b \<longleftrightarrow> is_ascii_alphabetic b \<or> is_ascii_digit b"

definition is_ascii_hexdigit :: "byte \<Rightarrow> bool" where
  "is_ascii_hexdigit b \<longleftrightarrow> is_ascii_digit b \<or> byte_between 65 70 b \<or> byte_between 97 102 b"

text \<open>Rust's \<open>u8::is_ascii_whitespace\<close>: space, tab, line feed, form feed, carriage return.\<close>

definition is_ascii_whitespace :: "byte \<Rightarrow> bool" where
  "is_ascii_whitespace b \<longleftrightarrow> code b \<in> {9, 10, 12, 13, 32}"

definition to_ascii_uppercase :: "byte \<Rightarrow> byte" where
  "to_ascii_uppercase b = (if is_ascii_lowercase b then char_of (code b - 32) else b)"

definition to_ascii_lowercase :: "byte \<Rightarrow> byte" where
  "to_ascii_lowercase b = (if is_ascii_uppercase b then char_of (code b + 32) else b)"

lemmas ascii_class_defs =
  byte_between_def is_ascii_def is_ascii_uppercase_def is_ascii_lowercase_def
  is_ascii_digit_def is_ascii_alphabetic_def is_ascii_alphanumeric_def
  is_ascii_hexdigit_def is_ascii_whitespace_def

lemma code_less_256 [simp]: "code c < 256"
  by (cases c) (simp add: of_char_Char of_bool_def)

lemma code_eq_iff: "code c = code d \<longleftrightarrow> c = d"
  by simp

lemma code_char_of: "n < 256 \<Longrightarrow> code (char_of n) = n"
  by simp


section \<open>Searching and splitting\<close>

text \<open>\<open>str::find\<close> and \<open>str::rfind\<close>: the first and the last offset where the pattern matches.\<close>

fun str_find :: "'a list \<Rightarrow> 'a list \<Rightarrow> nat option" where
  "str_find pat [] = (if pat = [] then Some 0 else None)"
| "str_find pat (x # xs) =
     (if prefix pat (x # xs) then Some 0 else map_option Suc (str_find pat xs))"

fun str_rfind :: "'a list \<Rightarrow> 'a list \<Rightarrow> nat option" where
  "str_rfind pat [] = (if pat = [] then Some 0 else None)"
| "str_rfind pat (x # xs) =
     (case str_rfind pat xs of
        Some i \<Rightarrow> Some (Suc i)
      | None \<Rightarrow> if prefix pat (x # xs) then Some 0 else None)"

definition str_contains :: "'a list \<Rightarrow> 'a list \<Rightarrow> bool" where
  "str_contains s pat \<longleftrightarrow> str_find pat s \<noteq> None"

definition strip_prefix :: "'a list \<Rightarrow> 'a list \<Rightarrow> 'a list option" where
  "strip_prefix pat s = (if prefix pat s then Some (drop (length pat) s) else None)"

definition strip_suffix :: "'a list \<Rightarrow> 'a list \<Rightarrow> 'a list option" where
  "strip_suffix pat s =
     (if suffix pat s then Some (take (length s - length pat) s) else None)"

definition split_once :: "'a list \<Rightarrow> 'a list \<Rightarrow> ('a list \<times> 'a list) option" where
  "split_once pat s =
     map_option (\<lambda>i. (take i s, drop (i + length pat) s)) (str_find pat s)"

definition rsplit_once :: "'a list \<Rightarrow> 'a list \<Rightarrow> ('a list \<times> 'a list) option" where
  "rsplit_once pat s =
     map_option (\<lambda>i. (take i s, drop (i + length pat) s)) (str_rfind pat s)"

text \<open>\<open>str::split\<close> on one separator byte: always at least one piece.\<close>

fun split_on :: "'a \<Rightarrow> 'a list \<Rightarrow> 'a list list" where
  "split_on sep [] = [[]]"
| "split_on sep (x # xs) =
     (if x = sep then [] # split_on sep xs
      else (case split_on sep xs of [] \<Rightarrow> [[x]] | p # ps \<Rightarrow> (x # p) # ps))"

text \<open>\<open>str::trim_matches\<close> with a predicate on bytes, \<open>str::lines\<close> and \<open>slice::windows\<close>.\<close>

definition trim_matches :: "('a \<Rightarrow> bool) \<Rightarrow> 'a list \<Rightarrow> 'a list" where
  "trim_matches P s = rev (dropWhile P (rev (dropWhile P s)))"

definition strip_cr :: "str \<Rightarrow> str" where
  "strip_cr s = (if s \<noteq> [] \<and> code (last s) = 13 then butlast s else s)"

definition str_lines :: "str \<Rightarrow> str list" where
  "str_lines s =
     (let pieces = split_on (CHR 0x0A) s
      in map strip_cr (if last pieces = [] then butlast pieces else pieces))"

fun windows :: "nat \<Rightarrow> 'a list \<Rightarrow> 'a list list" where
  "windows n [] = []"
| "windows n (x # xs) = (if n \<le> length (x # xs) then take n (x # xs) # windows n xs else [])"

text \<open>\<open>to_ascii_lowercase\<close> and \<open>eq_ignore_ascii_case\<close> of strings.\<close>

definition ascii_lower :: "str \<Rightarrow> str" where
  "ascii_lower s = map to_ascii_lowercase s"

definition eq_ignore_ascii_case :: "str \<Rightarrow> str \<Rightarrow> bool" where
  "eq_ignore_ascii_case a b \<longleftrightarrow> ascii_lower a = ascii_lower b"

definition sublist_at :: "'a list \<Rightarrow> nat \<Rightarrow> 'a list \<Rightarrow> bool" where
  "sublist_at pat i s \<longleftrightarrow> i \<le> length s \<and> prefix pat (drop i s)"

lemma sublist_at_bound: "sublist_at pat i s \<Longrightarrow> i + length pat \<le> length s"
  unfolding sublist_at_def using prefix_length_le by fastforce

lemma sublist_at_Cons_Suc [simp]: "sublist_at pat (Suc i) (x # xs) = sublist_at pat i xs"
  by (simp add: sublist_at_def)

lemma sublist_at_0 [simp]: "sublist_at pat 0 s = prefix pat s"
  by (simp add: sublist_at_def)

lemma sublist_at_take:
  "sublist_at pat i s \<longleftrightarrow> i + length pat \<le> length s \<and> take (length pat) (drop i s) = pat"
proof
  assume "sublist_at pat i s"
  then show "i + length pat \<le> length s \<and> take (length pat) (drop i s) = pat"
    using sublist_at_bound [of pat i s] by (auto simp: sublist_at_def prefix_def)
next
  assume "i + length pat \<le> length s \<and> take (length pat) (drop i s) = pat"
  then show "sublist_at pat i s"
    by (metis add_leD1 sublist_at_def take_is_prefix)
qed

lemma str_find_Some:
  "str_find pat s = Some i \<Longrightarrow> sublist_at pat i s \<and> (\<forall>j<i. \<not> sublist_at pat j s)"
proof (induction s arbitrary: i)
  case Nil
  then show ?case by (auto split: if_splits)
next
  case (Cons x xs)
  show ?case
  proof (cases "prefix pat (x # xs)")
    case True
    with Cons.prems show ?thesis by simp
  next
    case False
    with Cons.prems obtain k where k: "str_find pat xs = Some k" "i = Suc k" by auto
    from Cons.IH [OF k(1)] show ?thesis
      using False k(2) by (auto simp: less_Suc_eq_0_disj)
  qed
qed

lemma str_find_None: "str_find pat s = None \<longleftrightarrow> (\<forall>j. \<not> sublist_at pat j s)"
proof (induction s)
  case Nil
  then show ?case by (auto simp: sublist_at_def)
next
  case (Cons x xs)
  have "(\<forall>j. \<not> sublist_at pat j (x # xs)) \<longleftrightarrow>
      \<not> prefix pat (x # xs) \<and> (\<forall>j. \<not> sublist_at pat j xs)"
    by (metis not0_implies_Suc sublist_at_0 sublist_at_Cons_Suc)
  then show ?case using Cons.IH by auto
qed

lemma str_find_eqI:
  assumes "sublist_at pat i s" and "\<And>j. j < i \<Longrightarrow> \<not> sublist_at pat j s"
  shows "str_find pat s = Some i"
proof (cases "str_find pat s")
  case None
  with assms(1) show ?thesis by (simp add: str_find_None)
next
  case (Some k)
  with str_find_Some [OF Some] assms show ?thesis
    by (metis linorder_neqE_nat)
qed

lemma str_contains_iff: "str_contains s pat \<longleftrightarrow> (\<exists>i. sublist_at pat i s)"
  by (auto simp: str_contains_def str_find_None)

lemma str_rfind_Some:
  "str_rfind pat s = Some i \<Longrightarrow> sublist_at pat i s \<and> (\<forall>j>i. \<not> sublist_at pat j s)"
proof (induction s arbitrary: i)
  case Nil
  then show ?case by (auto simp: sublist_at_def split: if_splits)
next
  case (Cons x xs)
  show ?case
  proof (cases "str_rfind pat xs")
    case None
    have no: "\<not> sublist_at pat j xs" for j
      using None
    proof (induction xs arbitrary: j)
      case Nil
      then show ?case by (auto simp: sublist_at_def split: if_splits)
    next
      case (Cons y ys)
      then show ?case by (cases j) (auto split: option.splits if_splits)
    qed
    from None Cons.prems have "prefix pat (x # xs)" "i = 0" by (auto split: if_splits)
    then show ?thesis using no by (auto simp: gr0_conv_Suc)
  next
    case (Some k)
    with Cons.prems have "i = Suc k" by simp
    with Cons.IH [OF Some] show ?thesis by (auto simp: Suc_less_eq2)
  qed
qed

lemma str_rfind_None: "str_rfind pat s = None \<longleftrightarrow> (\<forall>j. \<not> sublist_at pat j s)"
proof (induction s)
  case Nil
  then show ?case by (auto simp: sublist_at_def)
next
  case (Cons x xs)
  have "(\<forall>j. \<not> sublist_at pat j (x # xs)) \<longleftrightarrow>
      \<not> prefix pat (x # xs) \<and> (\<forall>j. \<not> sublist_at pat j xs)"
    by (metis not0_implies_Suc sublist_at_0 sublist_at_Cons_Suc)
  then show ?case using Cons.IH by (auto split: option.splits)
qed

lemma str_rfind_eqI:
  assumes "sublist_at pat i s" and "\<And>j. j > i \<Longrightarrow> \<not> sublist_at pat j s"
  shows "str_rfind pat s = Some i"
proof (cases "str_rfind pat s")
  case None
  with assms(1) show ?thesis by (simp add: str_rfind_None)
next
  case (Some k)
  with str_rfind_Some [OF Some] assms show ?thesis
    by (metis linorder_neqE_nat)
qed

lemma strip_prefix_append [simp, text_simps]: "strip_prefix pat (pat @ s) = Some s"
  by (simp add: strip_prefix_def)

lemma strip_suffix_append [simp, text_simps]: "strip_suffix pat (s @ pat) = Some s"
  by (simp add: strip_suffix_def suffix_def)

lemma strip_prefix_Some: "strip_prefix pat s = Some r \<longleftrightarrow> s = pat @ r"
  by (auto simp: strip_prefix_def prefix_def)

lemma strip_suffix_Some: "strip_suffix pat s = Some r \<longleftrightarrow> s = r @ pat"
  by (auto simp: strip_suffix_def suffix_def)

lemma rsplit_once_Some:
  assumes "rsplit_once pat s = Some (a, b)"
  shows "s = a @ pat @ b"
proof -
  obtain i where i: "str_rfind pat s = Some i" "a = take i s" "b = drop (i + length pat) s"
    using assms by (auto simp: rsplit_once_def)
  then have "take (length pat) (drop i s) = pat"
    using str_rfind_Some sublist_at_take by blast
  then show ?thesis
    using i by (metis add.commute append_take_drop_id drop_drop)
qed

lemma split_once_Some:
  assumes "split_once pat s = Some (a, b)"
  shows "s = a @ pat @ b"
proof -
  obtain i where i: "str_find pat s = Some i" "a = take i s" "b = drop (i + length pat) s"
    using assms by (auto simp: split_once_def)
  then have "take (length pat) (drop i s) = pat"
    using str_find_Some sublist_at_take by blast
  then show ?thesis
    using i by (metis add.commute append_take_drop_id drop_drop)
qed

lemma rsplit_once_single:
  assumes "c \<notin> set b"
  shows "rsplit_once [c] (a @ c # b) = Some (a, b)"
proof -
  have no: "\<not> sublist_at [c] k b" for k
    using assms by (auto simp: sublist_at_def prefix_def dest: in_set_dropD)
      (metis in_set_dropD list.set_intros(1))
  have "str_rfind [c] (a @ c # b) = Some (length a)"
  proof (rule str_rfind_eqI)
    show "sublist_at [c] (length a) (a @ c # b)" by (simp add: sublist_at_def)
    fix j assume "length a < j"
    then obtain k where "j = Suc (length a + k)" using less_imp_Suc_add by blast
    with no [of k] show "\<not> sublist_at [c] j (a @ c # b)"
      by (auto simp: sublist_at_def)
  qed
  then show ?thesis by (simp add: rsplit_once_def)
qed

lemma rsplit_once_None:
  "rsplit_once pat s = None \<longleftrightarrow> (\<forall>j. \<not> sublist_at pat j s)"
  by (simp add: rsplit_once_def str_rfind_None)

lemma sublist_at_imp_set: "sublist_at pat i s \<Longrightarrow> set pat \<subseteq> set s"
  by (metis prefix_def set_append set_drop_subset sublist_at_def subset_trans sup_ge1)



text \<open>Splitting: at the first separator, and all pieces back together.\<close>

lemma split_once_first:
  assumes "c \<notin> set a"
  shows "split_once (c # pat) (a @ (c # pat) @ b) = Some (a, b)"
proof -
  have "str_find (c # pat) (a @ (c # pat) @ b) = Some (length a)"
  proof (rule str_find_eqI)
    show "sublist_at (c # pat) (length a) (a @ (c # pat) @ b)" by (simp add: sublist_at_def)
    fix j assume j: "j < length a"
    then have "drop j (a @ (c # pat) @ b) = a ! j # drop (Suc j) (a @ (c # pat) @ b)"
      by (simp add: Cons_nth_drop_Suc [symmetric])
    moreover have "a ! j \<noteq> c" using assms j nth_mem by blast
    ultimately show "\<not> sublist_at (c # pat) j (a @ (c # pat) @ b)"
      using j by (simp add: sublist_at_def)
  qed
  then show ?thesis by (simp add: split_once_def)
qed

lemma split_on_none: "c \<notin> set a \<Longrightarrow> split_on c a = [a]"
  by (induction a) auto

lemma split_on_first: "c \<notin> set a \<Longrightarrow> split_on c (a @ c # b) = a # split_on c b"
  by (induction a) auto

lemma split_on_not_Nil: "split_on c s \<noteq> []"
  by (induction s) (auto split: list.splits)

lemma concat_split_on: "set (concat (split_on c s)) = set s - {c}"
proof (induction s)
  case (Cons x s)
  obtain p ps where "split_on c s = p # ps" using split_on_not_Nil [of c s] by (cases "split_on c s") auto
  with Cons.IH show ?case by auto
qed simp

lemma split_on_list_ex:
  assumes "\<not> P c"
  shows "list_ex (list_ex P) (split_on c s) \<longleftrightarrow> list_ex P s"
proof -
  have "list_ex (list_ex P) xs \<longleftrightarrow> (\<exists>x \<in> set (concat xs). P x)" for xs
    by (auto simp: list_ex_iff)
  then show ?thesis using concat_split_on [of c s] assms by (auto simp: list_ex_iff)
qed


fun join_on :: "'a \<Rightarrow> 'a list list \<Rightarrow> 'a list" where
  "join_on c [] = []"
| "join_on c [p] = p"
| "join_on c (p # ps) = p @ c # join_on c ps"

lemma join_on_Cons: "ps \<noteq> [] \<Longrightarrow> join_on c (p # ps) = p @ c # join_on c ps"
  by (cases ps) auto

lemma join_split_on: "join_on c (split_on c s) = s"
proof (induction s)
  case (Cons x s)
  obtain p ps where "split_on c s = p # ps" using split_on_not_Nil [of c s] by (cases "split_on c s") auto
  with Cons.IH show ?case by (cases ps) (auto simp: join_on_Cons)
qed simp

lemma strip_cr_prefix: "\<exists>t. s = strip_cr s @ t"
  by (auto simp: strip_cr_def) (metis append_butlast_last_id)


section \<open>Ordered maps\<close>

text \<open>
  A \<open>BTreeMap\<close> is the list of its entries in the order of their keys;
  \<open>entry(k).and_modify(f).or_insert(d)\<close> is \<open>bt_upsert k f d\<close>.
\<close>

fun bt_upsert :: "'k::linorder \<Rightarrow> ('v \<Rightarrow> 'v) \<Rightarrow> 'v \<Rightarrow> ('k \<times> 'v) list \<Rightarrow> ('k \<times> 'v) list" where
  "bt_upsert k f d [] = [(k, d)]"
| "bt_upsert k f d ((k', v) # m) =
     (if k < k' then (k, d) # (k', v) # m
      else if k = k' then (k', f v) # m
      else (k', v) # bt_upsert k f d m)"

definition bt_ok :: "('k::linorder \<times> 'v) list \<Rightarrow> bool" where
  "bt_ok m \<longleftrightarrow> sorted_wrt (<) (map fst m)"

lemma bt_ok_Nil [simp]: "bt_ok []"
  by (simp add: bt_ok_def)

lemma bt_upsert_keys: "set (map fst (bt_upsert k f d m)) = insert k (set (map fst m))"
  by (induction k f d m rule: bt_upsert.induct) (simp_all add: insert_commute)

lemma bt_upsert_values:
  "set (map snd (bt_upsert k f d m)) \<subseteq> insert d (set (map snd m) \<union> f ` set (map snd m))"
  by (induction k f d m rule: bt_upsert.induct) auto

lemma bt_upsert_ok: "bt_ok m \<Longrightarrow> bt_ok (bt_upsert k f d m)"
  unfolding bt_ok_def
proof (induction m)
  case (Cons e m)
  then show ?case
    using bt_upsert_keys [of k f d m] by (cases e) (auto simp del: set_map)
qed simp

lemma bt_upsert_lookup:
  "bt_ok m \<Longrightarrow> map_of (bt_upsert k f d m) =
     (map_of m)(k \<mapsto> (case map_of m k of None \<Rightarrow> d | Some v \<Rightarrow> f v))"
proof (induction m)
  case (Cons e m)
  obtain k' v where e: "e = (k', v)" by force
  from Cons.prems have ok: "bt_ok m" and lt: "\<forall>x \<in> fst ` set m. k' < x"
    by (auto simp: bt_ok_def e)
  have "map_of m k = None" if "k \<le> k'"
    using lt that by (fastforce simp: map_of_eq_None_iff)
  then show ?case
    using Cons.IH [OF ok] by (auto simp: e fun_eq_iff)
qed (auto simp: fun_eq_iff)

lemma bt_lookup: "bt_ok m \<Longrightarrow> (k, v) \<in> set m \<longleftrightarrow> map_of m k = Some v"
  unfolding bt_ok_def by (simp add: map_of_eq_Some_iff strict_sorted_iff)

end
