(* ===== verification/Utf8.thy ===== *)
theory Utf8
  imports Prelude
begin

text \<open>
  The parts of \<open>str\<close> and \<open>u32\<close> of Rust's standard library that look inside UTF-8:
  validity (\<open>String::from_utf8\<close>), the characters of a string (\<open>str::chars\<close>), character
  boundaries and checked slicing, Unicode trimming, and decimal numbers
  (\<open>u32::to_string\<close>, \<open>str::parse::<u32>\<close>).
\<close>


section \<open>Well-formed UTF-8\<close>

definition is_continuation :: "byte \<Rightarrow> bool" where
  "is_continuation b = byte_between 128 191 b"

text \<open>
  The length of the well-formed UTF-8 sequence a byte string starts with (Unicode table 3-7):
  overlong forms, surrogates and values above U+10FFFF are refused.
\<close>

fun utf8_next :: "str \<Rightarrow> nat option" where
  "utf8_next [] = None"
| "utf8_next (a # s) =
     (if code a < 128 then Some 1
      else if byte_between 194 223 a then
        (case s of b # _ \<Rightarrow> if is_continuation b then Some 2 else None | _ \<Rightarrow> None)
      else if byte_between 224 239 a then
        (case s of
           b # c # _ \<Rightarrow>
             if byte_between (if code a = 224 then 160 else 128)
                  (if code a = 237 then 159 else 191) b \<and> is_continuation c
             then Some 3 else None
         | _ \<Rightarrow> None)
      else if byte_between 240 244 a then
        (case s of
           b # c # d # _ \<Rightarrow>
             if byte_between (if code a = 240 then 144 else 128)
                  (if code a = 244 then 143 else 191) b \<and> is_continuation c \<and> is_continuation d
             then Some 4 else None
         | _ \<Rightarrow> None)
      else None)"

lemma utf8_next_bounds: "utf8_next s = Some n \<Longrightarrow> 0 < n \<and> n \<le> length s \<and> n \<le> 4"
  by (cases s) (auto split: if_splits list.splits)

lemma utf8_next_append:
  "utf8_next s = Some n \<Longrightarrow> utf8_next (s @ t) = Some n"
  by (cases s) (auto split: if_splits list.splits)

lemma utf8_next_take: "utf8_next s = Some n \<Longrightarrow> utf8_next (take n s) = Some n"
  by (cases s) (auto split: if_splits list.splits simp: numeral_2_eq_2 numeral_3_eq_3 eval_nat_numeral)

lemma utf8_next_ascii [simp]: "is_ascii a \<Longrightarrow> utf8_next (a # s) = Some 1"
  by (simp add: is_ascii_def)

declare utf8_next.simps [simp del]

lemma utf8_next_pos [simp]: "utf8_next s \<noteq> Some 0"
  using utf8_next_bounds by blast

function utf8_valid :: "str \<Rightarrow> bool" where
  "utf8_valid s =
     (s = [] \<or> (case utf8_next s of None \<Rightarrow> False | Some n \<Rightarrow> utf8_valid (drop n s)))"
  by pat_completeness auto
termination
  by (relation "measure length") (use utf8_next_bounds in \<open>fastforce\<close>)+

declare utf8_valid.simps [simp del]

lemma utf8_valid_Nil [simp]: "utf8_valid []"
  by (simp add: utf8_valid.simps)

text \<open>\<open>str::chars\<close>, each character as its encoded bytes (a stray byte stands for itself).\<close>

function utf8_chars :: "str \<Rightarrow> str list" where
  "utf8_chars s =
     (if s = [] then []
      else let n = (case utf8_next s of None \<Rightarrow> 1 | Some n \<Rightarrow> n)
           in take n s # utf8_chars (drop n s))"
  by pat_completeness auto
termination
  by (relation "measure length")
    (auto split: option.splits dest: utf8_next_bounds simp: neq_Nil_conv)

declare utf8_chars.simps [simp del]

lemma utf8_chars_Nil [simp]: "utf8_chars [] = []"
  by (simp add: utf8_chars.simps)

lemma concat_utf8_chars [simp]: "concat (utf8_chars s) = s"
proof (induction s rule: utf8_chars.induct)
  case (1 s)
  then show ?case by (subst utf8_chars.simps) (auto simp: Let_def)
qed

abbreviation all_ascii :: "str \<Rightarrow> bool" where
  "all_ascii s \<equiv> list_all is_ascii s"

lemma utf8_valid_ascii_Cons [simp]: "is_ascii a \<Longrightarrow> utf8_valid (a # s) = utf8_valid s"
  by (subst utf8_valid.simps) simp

lemma utf8_chars_ascii_Cons [simp]: "is_ascii a \<Longrightarrow> utf8_chars (a # s) = [a] # utf8_chars s"
  by (subst utf8_chars.simps) simp

lemma utf8_valid_ascii: "all_ascii s \<Longrightarrow> utf8_valid s"
  by (induction s) auto

lemma utf8_chars_ascii: "all_ascii s \<Longrightarrow> utf8_chars s = map (\<lambda>c. [c]) s"
  by (induction s) auto

lemma utf8_valid_append: "utf8_valid s \<Longrightarrow> utf8_valid (s @ t) = utf8_valid t"
proof (induction s rule: utf8_valid.induct)
  case (1 s)
  show ?case
  proof (cases "s = []")
    case False
    with "1.prems" obtain n where n: "utf8_next s = Some n" "utf8_valid (drop n s)"
      by (subst (asm) utf8_valid.simps) (auto split: option.splits)
    have "utf8_valid (s @ t) = utf8_valid (drop n (s @ t))"
      using False n utf8_next_append [OF n(1), of t] by (subst utf8_valid.simps) auto
    also have "\<dots> = utf8_valid (drop n s @ t)"
      using utf8_next_bounds [OF n(1)] by simp
    also have "\<dots> = utf8_valid t"
      using "1.IH" [OF n] .
    finally show ?thesis .
  qed simp
qed


section \<open>Character boundaries and slices\<close>

text \<open>\<open>str::is_char_boundary\<close>.\<close>

definition is_char_boundary :: "str \<Rightarrow> nat \<Rightarrow> bool" where
  "is_char_boundary s i \<longleftrightarrow>
     i = 0 \<or> i = length s \<or> (i < length s \<and> \<not> is_continuation (s ! i))"

text \<open>\<open>&s[a..b]\<close>: \<open>None\<close> is the panic on bad bounds or on a cut character.\<close>

definition str_slice :: "str \<Rightarrow> nat \<Rightarrow> nat \<Rightarrow> str option" where
  "str_slice s a b =
     (if a \<le> b \<and> b \<le> length s \<and> is_char_boundary s a \<and> is_char_boundary s b
      then Some (take (b - a) (drop a s)) else None)"

text \<open>\<open>s.get(a..b)\<close> and the slice without its checks.\<close>

definition subtext :: "str \<Rightarrow> nat \<Rightarrow> nat \<Rightarrow> str" where
  "subtext s a b = take (b - a) (drop a s)"

lemma str_slice_Some:
  "str_slice s a b = Some t \<longleftrightarrow>
     a \<le> b \<and> b \<le> length s \<and> is_char_boundary s a \<and> is_char_boundary s b \<and> t = subtext s a b"
  by (auto simp: str_slice_def subtext_def)

lemma length_subtext [simp]: "length (subtext s a b) = min (b - a) (length s - a)"
  by (simp add: subtext_def)

lemma subtext_same [simp]: "subtext s a a = []"
  by (simp add: subtext_def)

lemma subtext_append:
  "a \<le> b \<Longrightarrow> b \<le> c \<Longrightarrow> subtext s a b @ subtext s b c = subtext s a c"
proof -
  assume le: "a \<le> b" "b \<le> c"
  have "take (c - a) (drop a s) = take (b - a) (drop a s) @ take (c - b) (drop (b - a) (drop a s))"
    using le take_add [of "b - a" "c - b" "drop a s"] by simp
  then show ?thesis
    using le by (simp add: subtext_def)
qed

lemma subtext_full [simp]: "subtext s 0 (length s) = s"
  by (simp add: subtext_def)

lemma subtext_to_end: "a \<le> length s \<Longrightarrow> subtext s a (length s) = drop a s"
  by (simp add: subtext_def)

lemma is_char_boundary_0 [simp]: "is_char_boundary s 0"
  and is_char_boundary_length [simp]: "is_char_boundary s (length s)"
  by (simp_all add: is_char_boundary_def)

lemma is_char_boundary_ascii:
  "all_ascii s \<Longrightarrow> i \<le> length s \<Longrightarrow> is_char_boundary s i"
  by (cases "i < length s")
    (auto simp: is_char_boundary_def is_continuation_def byte_between_def is_ascii_def
      list_all_length linorder_not_le)

lemma utf8_next_bytes:
  assumes "utf8_next s = Some n"
  shows "\<not> is_continuation (hd s)" and "0 < i \<Longrightarrow> i < n \<Longrightarrow> is_continuation (s ! i)"
    and "is_ascii (hd s) \<longleftrightarrow> n = 1"
  using assms
  by (cases s; auto simp: utf8_next.simps is_continuation_def byte_between_def is_ascii_def
      less_Suc_eq nth_Cons' numeral_2_eq_2 numeral_3_eq_3 split: if_splits list.splits)+

lemma utf8_valid_step:
  assumes "utf8_valid s" and "s \<noteq> []"
  obtains n where "utf8_next s = Some n" and "utf8_valid (drop n s)"
  using assms by (subst (asm) utf8_valid.simps) (auto split: option.splits)

text \<open>In a valid string an ASCII byte is a character of its own.\<close>

lemma utf8_boundary_after_ascii:
  assumes "utf8_valid s" and "i < length s" and "is_ascii (s ! i)"
  shows "is_char_boundary s i" and "is_char_boundary s (Suc i)"
proof -
  have "is_char_boundary s (Suc i)"
    using assms
  proof (induction s arbitrary: i rule: utf8_valid.induct)
    case (1 s)
    then have "s \<noteq> []" by auto
    with "1.prems"(1) obtain n where n: "utf8_next s = Some n" "utf8_valid (drop n s)"
      by (rule utf8_valid_step)
    note b = utf8_next_bounds [OF n(1)]
    show ?case
    proof (cases "i < n")
      case True
      have "i = 0"
        using utf8_next_bytes(2) [OF n(1), of i] True "1.prems"(3)
        by (cases i) (auto simp: is_continuation_def byte_between_def is_ascii_def)
      with \<open>s \<noteq> []\<close> "1.prems"(3) have "n = 1"
        using utf8_next_bytes(3) [OF n(1)] by (simp add: hd_conv_nth)
      show ?thesis
      proof (cases "length s = 1")
        case False
        with b \<open>s \<noteq> []\<close> have "drop 1 s \<noteq> []" by (cases s) auto
        with n(2) \<open>n = 1\<close> obtain k where "utf8_next (drop 1 s) = Some k"
          by (metis utf8_valid_step)
        from utf8_next_bytes(1) [OF this] \<open>drop 1 s \<noteq> []\<close> \<open>i = 0\<close> show ?thesis
          by (simp add: is_char_boundary_def hd_drop_conv_nth)
      qed (simp add: is_char_boundary_def \<open>i = 0\<close>)
    next
      case False
      then have "is_char_boundary (drop n s) (Suc (i - n))"
        using "1.IH" [OF n, of "i - n"] n(2) "1.prems" by simp
      then show ?thesis
        using False "1.prems"(2) b by (auto simp: is_char_boundary_def)
    qed
  qed
  then show "is_char_boundary s (Suc i)" .
  show "is_char_boundary s i"
    using assms(2,3)
    by (auto simp: is_char_boundary_def is_continuation_def byte_between_def is_ascii_def)
qed

text \<open>A valid string splits into valid strings at a character boundary.\<close>

lemma utf8_valid_split:
  assumes "utf8_valid s" and "is_char_boundary s i" and "i \<le> length s"
  shows "utf8_valid (take i s)" and "utf8_valid (drop i s)"
proof -
  have "utf8_valid (take i s) \<and> utf8_valid (drop i s)"
    using assms
  proof (induction s arbitrary: i rule: utf8_valid.induct)
    case (1 s)
    show ?case
    proof (cases "i = 0 \<or> s = []")
      case True
      with "1.prems" show ?thesis by auto
    next
      case False
      then obtain n where n: "utf8_next s = Some n" "utf8_valid (drop n s)"
        using "1.prems"(1) utf8_valid_step by blast
      note b = utf8_next_bounds [OF n(1)]
      have "n \<le> i"
      proof (rule ccontr)
        assume "\<not> n \<le> i"
        then have "is_continuation (s ! i)" using False utf8_next_bytes(2) [OF n(1), of i] by simp
        moreover have "i < length s" using \<open>\<not> n \<le> i\<close> b by simp
        ultimately show False using "1.prems"(2) False by (simp add: is_char_boundary_def)
      qed
      have "is_char_boundary (drop n s) (i - n)"
        using "1.prems"(2,3) \<open>n \<le> i\<close> b by (auto simp: is_char_boundary_def)
      from "1.IH" [OF n this] have ih: "utf8_valid (take (i - n) (drop n s))"
          "utf8_valid (drop i s)"
        using "1.prems"(3) \<open>n \<le> i\<close> by simp_all
      have "take n (take i s) = take n s" using \<open>n \<le> i\<close> by (simp add: min_absorb1)
      moreover have "utf8_next (take n s) = Some n"
        using n(1) by (rule utf8_next_take)
      ultimately have "utf8_next (take i s) = Some n"
        using utf8_next_append [of "take n s" n "take (i - n) (drop n s)"] \<open>n \<le> i\<close>
        by (metis le_add_diff_inverse take_add)
      then have "utf8_valid (take i s)"
        using ih(1) b by (subst utf8_valid.simps) (simp add: drop_take)
      with ih(2) show ?thesis by simp
    qed
  qed
  then show "utf8_valid (take i s)" and "utf8_valid (drop i s)" by auto
qed

lemma is_char_boundary_drop:
  "is_char_boundary s (i + j) \<Longrightarrow> i + j \<le> length s \<Longrightarrow> is_char_boundary (drop i s) j"
  by (auto simp: is_char_boundary_def)

lemma utf8_valid_subtext:
  assumes "utf8_valid s" and "is_char_boundary s a" and "is_char_boundary s b"
    and "a \<le> b" and "b \<le> length s"
  shows "utf8_valid (subtext s a b)"
proof -
  have "utf8_valid (drop a s)" using utf8_valid_split(2) [OF assms(1,2)] assms(4,5) by simp
  moreover have "is_char_boundary (drop a s) (b - a)"
    using is_char_boundary_drop [of s a "b - a"] assms by simp
  ultimately show ?thesis
    unfolding subtext_def using utf8_valid_split(1) assms(4,5) by simp
qed


section \<open>Unicode white space and trimming\<close>

text \<open>The encodings of the characters with the property White_Space (\<open>char::is_whitespace\<close>).\<close>

definition is_whitespace_char :: "str \<Rightarrow> bool" where
  "is_whitespace_char ch =
     (case ch of
        [a] \<Rightarrow> byte_between 9 13 a \<or> code a = 32
      | [a, b] \<Rightarrow> code a = 194 \<and> (code b = 133 \<or> code b = 160)
      | [a, b, c] \<Rightarrow>
          (if code a = 225 then code b = 154 \<and> code c = 128
           else if code a = 226 then
             (code b = 128 \<and>
                (byte_between 128 138 c \<or> code c = 168 \<or> code c = 169 \<or> code c = 175)) \<or>
             (code b = 129 \<and> code c = 159)
           else code a = 227 \<and> code b = 128 \<and> code c = 128)
      | _ \<Rightarrow> False)"

definition trim_start :: "str \<Rightarrow> str" where
  "trim_start s = concat (dropWhile is_whitespace_char (utf8_chars s))"

definition trim_end :: "str \<Rightarrow> str" where
  "trim_end s = concat (rev (dropWhile is_whitespace_char (rev (utf8_chars s))))"

definition trim :: "str \<Rightarrow> str" where
  "trim s =
     concat (rev (dropWhile is_whitespace_char
       (rev (dropWhile is_whitespace_char (utf8_chars s)))))"

lemma dropWhile_rev_id:
  assumes "xs \<noteq> [] \<Longrightarrow> \<not> P (hd xs)" and "xs \<noteq> [] \<Longrightarrow> \<not> P (last xs)"
  shows "rev (dropWhile P (rev (dropWhile P xs))) = xs"
  using assms
  by (metis dropWhile_eq_self_iff hd_rev rev_is_Nil_conv rev_rev_ident)

lemma trim_id:
  assumes "s \<noteq> [] \<Longrightarrow> \<not> is_whitespace_char (hd (utf8_chars s))"
    and "s \<noteq> [] \<Longrightarrow> \<not> is_whitespace_char (last (utf8_chars s))"
  shows "trim s = s"
proof -
  have "utf8_chars s \<noteq> [] \<Longrightarrow> s \<noteq> []" by auto
  then have "rev (dropWhile is_whitespace_char
      (rev (dropWhile is_whitespace_char (utf8_chars s)))) = utf8_chars s"
    using assms by (intro dropWhile_rev_id) auto
  then show ?thesis by (simp add: trim_def)
qed

lemma is_whitespace_char_single:
  "is_whitespace_char [c] \<longleftrightarrow> code c \<in> {9, 10, 11, 12, 13, 32}"
  by (auto simp: is_whitespace_char_def byte_between_def)

lemma trim_ascii_id:
  assumes "all_ascii s" and "\<And>c. c \<in> set s \<Longrightarrow> code c \<notin> {9, 10, 11, 12, 13, 32}"
  shows "trim s = s"
  using assms
  by (intro trim_id) (auto simp: utf8_chars_ascii hd_map last_map is_whitespace_char_single
      dest: hd_in_set last_in_set)


section \<open>Decimal numbers\<close>

fun show_nat :: "nat \<Rightarrow> str" where
  "show_nat n =
     (if n < 10 then [char_of (48 + n)] else show_nat (n div 10) @ [char_of (48 + n mod 10)])"

declare show_nat.simps [simp del]

fun read_digits :: "nat \<Rightarrow> str \<Rightarrow> nat option" where
  "read_digits acc [] = Some acc"
| "read_digits acc (c # s) =
     (if is_ascii_digit c then read_digits (acc * 10 + (code c - 48)) s else None)"

text \<open>
  \<open>str::parse::<u32>\<close>: one optional \<open>+\<close>, at least one digit, and a value that fits in
  32 bits.
\<close>

definition parse_u32_std :: "str \<Rightarrow> 32 word option" where
  "parse_u32_std s =
     (let d = (case s of c # r \<Rightarrow> if c = CHR ''+'' then r else s | [] \<Rightarrow> [])
      in if d = [] then None
         else (case read_digits 0 d of
                 None \<Rightarrow> None
               | Some n \<Rightarrow> if n < 2 ^ 32 then Some (word_of_nat n) else None))"

lemma digit_char:
  assumes "n < 10"
  shows "is_ascii_digit (char_of (48 + n))" and "code (char_of (48 + n) :: char) = 48 + n"
  using assms by (simp_all add: is_ascii_digit_def byte_between_def)

lemma read_digits_append:
  "read_digits acc (s @ t) = Option.bind (read_digits acc s) (\<lambda>a. read_digits a t)"
  by (induction acc s rule: read_digits.induct) auto

lemma read_digits_show_nat: "read_digits 0 (show_nat n) = Some n"
proof (induction n rule: show_nat.induct)
  case (1 n)
  show ?case
  proof (cases "n < 10")
    case True
    then show ?thesis
      using digit_char [of n] by (subst show_nat.simps) simp
  next
    case False
    with "1.IH" show ?thesis
      using digit_char [of "n mod 10"]
      by (subst show_nat.simps) (simp add: read_digits_append)
  qed
qed

lemma show_nat_digits: "c \<in> set (show_nat n) \<Longrightarrow> is_ascii_digit c"
proof (induction n rule: show_nat.induct)
  case (1 n)
  then show ?case
    using digit_char(1) [of n] digit_char(1) [of "n mod 10"]
    by (subst (asm) show_nat.simps) (auto split: if_splits)
qed

lemma show_nat_not_Nil [simp]: "show_nat n \<noteq> []"
  by (subst show_nat.simps) simp

lemma parse_u32_std_show:
  assumes "n < 2 ^ 32"
  shows "parse_u32_std (show_nat n) = Some (word_of_nat n)"
proof -
  have "CHR ''+'' \<notin> set (show_nat n)"
    using show_nat_digits [of "CHR ''+''" n] by (auto simp: ascii_class_defs)
  then have "(case show_nat n of c # r \<Rightarrow> if c = CHR ''+'' then r else show_nat n | [] \<Rightarrow> [])
      = show_nat n"
    by (cases "show_nat n") auto
  then show ?thesis
    using assms by (simp add: parse_u32_std_def read_digits_show_nat)
qed



section \<open>Occurrences of valid strings\<close>

lemma utf8_valid_hd: "utf8_valid s \<Longrightarrow> s \<noteq> [] \<Longrightarrow> \<not> is_continuation (hd s)"
  using utf8_valid_step utf8_next_bytes(1) by metis

lemma utf8_valid_boundary:
  assumes "utf8_valid (drop i s)" and "i \<le> length s"
  shows "is_char_boundary s i"
  using utf8_valid_hd [OF assms(1)] assms(2)
  by (cases "i < length s") (auto simp: is_char_boundary_def hd_drop_conv_nth)

text \<open>UTF-8 is self-synchronizing: an occurrence of a valid string lies on boundaries.\<close>

lemma utf8_occurrence:
  assumes "utf8_valid s" and "utf8_valid v" and "v \<noteq> []" and "sublist_at v i s"
  shows "is_char_boundary s i" and "is_char_boundary s (i + length v)"
    and "i + length v \<le> length s"
proof -
  show le: "i + length v \<le> length s" by (rule sublist_at_bound [OF assms(4)])
  obtain t where t: "drop i s = v @ t" using assms(4) by (auto simp: sublist_at_def prefix_def)
  have "s ! i = hd v"
    using t assms(3) le by (metis hd_append2 hd_drop_conv_nth le_add1 le_neq_implies_less
        length_0_conv less_add_same_cancel1 order.strict_trans2 length_greater_0_conv)
  moreover have "i < length s" using le assms(3) by (cases v) auto
  ultimately show b: "is_char_boundary s i"
    using utf8_valid_hd [OF assms(2,3)] by (simp add: is_char_boundary_def)
  have "utf8_valid (v @ t)"
    using utf8_valid_split(2) [OF assms(1) b] le t by simp
  then have "utf8_valid t" using utf8_valid_append [OF assms(2)] by simp
  moreover have "t = drop (i + length v) s"
    using t by (metis add.commute append_eq_conv_conj drop_drop)
  ultimately show "is_char_boundary s (i + length v)"
    using utf8_valid_boundary le by simp
qed

lemma utf8_first_char:
  assumes "utf8_valid s" and "s \<noteq> []"
  obtains n where "utf8_next s = Some n" and "hd (utf8_chars s) = take n s" and "0 < n"
    and "n \<le> length s" and "utf8_valid (drop n s)"
    and "\<And>i. 0 < i \<Longrightarrow> i < n \<Longrightarrow> is_continuation (s ! i)"
proof -
  from assms obtain n where n: "utf8_next s = Some n" "utf8_valid (drop n s)"
    by (rule utf8_valid_step)
  moreover have "hd (utf8_chars s) = take n s"
    using n(1) assms(2) by (subst utf8_chars.simps) (simp add: Let_def)
  ultimately show thesis
    using that utf8_next_bounds utf8_next_bytes(2) [OF n(1)] by blast
qed

lemma utf8_chars_append:
  assumes "utf8_valid s"
  shows "utf8_chars (s @ t) = utf8_chars s @ utf8_chars t"
  using assms
proof (induction s rule: utf8_valid.induct)
  case (1 s)
  show ?case
  proof (cases "s = []")
    case False
    with "1.prems" obtain n where n: "utf8_next s = Some n" "utf8_valid (drop n s)"
      by (rule utf8_valid_step)
    note b = utf8_next_bounds [OF n(1)]
    have "utf8_chars (s @ t) = take n s # utf8_chars (drop n s @ t)"
      using False utf8_next_append [OF n(1), of t] b
      by (subst utf8_chars.simps) (simp add: Let_def)
    also have "\<dots> = (take n s # utf8_chars (drop n s)) @ utf8_chars t"
      using "1.IH" [OF n] by simp
    also have "take n s # utf8_chars (drop n s) = utf8_chars s"
      using False n(1) by (subst (2) utf8_chars.simps) (simp add: Let_def)
    finally show ?thesis by simp
  qed simp
qed

lemma dropWhile_append_length:
  "length (concat (dropWhile P ys)) \<le> length (concat (dropWhile P (xs @ ys)))"
proof (induction xs)
  case (Cons x xs)
  have "length (concat (dropWhile P ys)) \<le> length (concat ys)"
    by (metis concat_append dropWhile_append1 le_add2 length_append takeWhile_dropWhile_id)
  then show ?case using Cons by simp
qed simp

text \<open>A prefix does not trim to more than the whole.\<close>

lemma length_trim_prefix:
  assumes "utf8_valid v"
  shows "length (trim v) \<le> length (trim (v @ t))"
proof -
  let ?d = "dropWhile is_whitespace_char (utf8_chars v)"
  have chars: "utf8_chars (v @ t) = utf8_chars v @ utf8_chars t"
    by (rule utf8_chars_append [OF assms])
  have len: "length (concat (rev xs)) = length (concat xs)" for xs :: "str list"
    by (simp add: length_concat rev_map [symmetric])
  show ?thesis
  proof (cases "\<forall>c \<in> set (utf8_chars v). is_whitespace_char c")
    case True
    then have "?d = []" by simp
    then show ?thesis unfolding trim_def len by (simp only: dropWhile.simps rev.simps) simp
  next
    case False
    then have "dropWhile is_whitespace_char (utf8_chars v @ utf8_chars t) = ?d @ utf8_chars t"
      by (auto intro: dropWhile_append1)
    then show ?thesis
      unfolding trim_def chars len
      using dropWhile_append_length [of is_whitespace_char "rev ?d" "rev (utf8_chars t)"] by simp
  qed
qed

end
