(* ===== verification/Model.thy ===== *)
theory Model
  imports Utf8
begin

text \<open>
  The shared data model, \<open>crates/pentect-core/src/model.rs\<close>: byte ranges, regions and
  their context, detector identities, and spans with the total order \<open>cmp_strength\<close> that
  decides which of two overlapping findings wins.
\<close>


section \<open>Labels\<close>

abbreviation "lbl_LIKELY_SECRET \<equiv> ''LIKELY_SECRET''"
abbreviation "lbl_SECRET \<equiv> ''SECRET''"
abbreviation "lbl_PII \<equiv> ''PII''"
abbreviation "lbl_IDENTIFIER \<equiv> ''IDENTIFIER''"
abbreviation "lbl_ENDPOINT \<equiv> ''ENDPOINT''"
abbreviation "lbl_SENSITIVE \<equiv> ''SENSITIVE''"
abbreviation "lbl_KEYED_SECRET \<equiv> ''KEYED_SECRET''"
abbreviation "lbl_OTP \<equiv> ''OTP''"
abbreviation "lbl_PRIVATE_KEY \<equiv> ''PRIVATE_KEY''"
abbreviation "lbl_URL_CREDENTIAL \<equiv> ''URL_CREDENTIAL''"
abbreviation "lbl_CMD_PASSWORD \<equiv> ''CMD_PASSWORD''"
abbreviation "lbl_UUID \<equiv> ''UUID''"

text \<open>The table the macro \<open>define_canonical_labels\<close> expands: each label with its description.\<close>

definition canonical_labels :: "(str \<times> str) list" where
  "canonical_labels =
    [(lbl_LIKELY_SECRET, ''high-entropy value that may be a secret''),
     (''OPAQUE_BLOB'', ''encoded or encrypted-looking data''),
     (lbl_SECRET, ''value associated with a sensitive name''),
     (lbl_PII, ''personally identifying information''),
     (lbl_IDENTIFIER, ''potentially sensitive identifier''),
     (lbl_ENDPOINT, ''potentially sensitive service endpoint''),
     (lbl_SENSITIVE, ''sensitive value of an unspecified type''),
     (lbl_KEYED_SECRET, ''value associated with a sensitive key''),
     (lbl_OTP, ''one-time password or verification code''),
     (''BIP39_MNEMONIC'', ''cryptocurrency wallet recovery phrase''),
     (lbl_PRIVATE_KEY, ''private cryptographic key''),
     (''INTERNAL_ENDPOINT'', ''internal service host or authority''),
     (''RESOURCE_ID'', ''internal resource identifier''),
     (lbl_URL_CREDENTIAL, ''credential embedded in a URL''),
     (lbl_CMD_PASSWORD, ''password supplied to a command''),
     (lbl_UUID, ''UUID or GUID in an identifier field''),
     (''AWS_S3_BUCKET'', ''Amazon S3 bucket name''),
     (''FIREBASE_PROJECT_ID'', ''Firebase project or database identifier''),
     (''URL_QUERY_VALUE'', ''sensitive URL query value''),
     (''URL_FRAGMENT'', ''sensitive URL fragment''),
     (''IMAGE_GPS_METADATA'', ''GPS location stored in image metadata'')]"

definition labels_ALL :: "str list" where
  "labels_ALL = map fst canonical_labels"

definition labels_is_canonical :: "str \<Rightarrow> bool" where
  "labels_is_canonical value \<longleftrightarrow> List.member labels_ALL value"

definition labels_description :: "str \<Rightarrow> str option" where
  "labels_description value = map_of canonical_labels value"


section \<open>Byte ranges\<close>

record byte_range =
  rstart :: nat
  rend :: nat

definition range_new :: "nat \<Rightarrow> nat \<Rightarrow> byte_range" where
  "range_new s e = \<lparr>rstart = s, rend = e\<rparr>"

text \<open>\<open>saturating_sub\<close> is subtraction of natural numbers.\<close>

definition range_len :: "byte_range \<Rightarrow> nat" where
  "range_len r = rend r - rstart r"

definition range_is_empty :: "byte_range \<Rightarrow> bool" where
  "range_is_empty r \<longleftrightarrow> rend r \<le> rstart r"

definition range_overlaps :: "byte_range \<Rightarrow> byte_range \<Rightarrow> bool" where
  "range_overlaps r q \<longleftrightarrow> rstart r < rend q \<and> rstart q < rend r"

definition range_contains :: "byte_range \<Rightarrow> byte_range \<Rightarrow> bool" where
  "range_contains r q \<longleftrightarrow> rstart r \<le> rstart q \<and> rend q \<le> rend r"

lemmas range_defs [range_simps] =
  range_new_def range_len_def range_is_empty_def range_overlaps_def range_contains_def

text \<open>The bytes of a range: the abstraction the interval lemmas are stated in.\<close>

definition bytes_of :: "byte_range \<Rightarrow> nat set" where
  "bytes_of r = {rstart r..<rend r}"

lemma bytes_of_empty: "range_is_empty r \<longleftrightarrow> bytes_of r = {}"
  by (auto simp: range_is_empty_def bytes_of_def)

lemma range_overlaps_bytes:
  assumes "\<not> range_is_empty r" and "\<not> range_is_empty q"
  shows "range_overlaps r q \<longleftrightarrow> bytes_of r \<inter> bytes_of q \<noteq> {}"
proof
  assume "range_overlaps r q"
  then have "max (rstart r) (rstart q) \<in> bytes_of r \<inter> bytes_of q"
    using assms by (auto simp: range_defs bytes_of_def)
  then show "bytes_of r \<inter> bytes_of q \<noteq> {}" by blast
next
  assume "bytes_of r \<inter> bytes_of q \<noteq> {}"
  then show "range_overlaps r q" by (auto simp: range_defs bytes_of_def)
qed

lemma range_overlaps_sym: "range_overlaps r q = range_overlaps q r"
  by (auto simp: range_overlaps_def)

lemma range_contains_bytes:
  "\<not> range_is_empty q \<Longrightarrow> range_contains r q \<longleftrightarrow> bytes_of q \<subseteq> bytes_of r"
  by (auto simp: range_defs bytes_of_def)


section \<open>Inputs, regions and the intermediate representation\<close>

datatype kind =
  KText | KJson | KNdjson | KToolResult | KEnv | KHar | KCurl | KMarkdown | KOther str

record input =
  input_kind :: kind
  input_data :: str

definition input_text :: "str \<Rightarrow> input" where
  "input_text s = \<lparr>input_kind = KText, input_data = s\<rparr>"

datatype category = Secret | Identifier | Endpoint | Pii | OtherCategory

fun category_priority :: "category \<Rightarrow> nat" where
  "category_priority Secret = 4"
| "category_priority Pii = 3"
| "category_priority Identifier = 2"
| "category_priority Endpoint = 1"
| "category_priority OtherCategory = 0"

datatype confidence = Low | Medium | High

text \<open>The derived \<open>Ord\<close>: \<open>Low < Medium < High\<close>.\<close>

fun confidence_rank :: "confidence \<Rightarrow> nat" where
  "confidence_rank Low = 0"
| "confidence_rank Medium = 1"
| "confidence_rank High = 2"

lemma confidence_rank_inj: "confidence_rank a = confidence_rank b \<longleftrightarrow> a = b"
  by (cases a; cases b) auto

instantiation confidence :: linorder
begin

definition less_eq_confidence :: "confidence \<Rightarrow> confidence \<Rightarrow> bool" where
  "less_eq_confidence a b \<longleftrightarrow> confidence_rank a \<le> confidence_rank b"

definition less_confidence :: "confidence \<Rightarrow> confidence \<Rightarrow> bool" where
  "less_confidence a b \<longleftrightarrow> confidence_rank a < confidence_rank b"

instance
  by standard
    (auto simp: less_eq_confidence_def less_confidence_def confidence_rank_inj)

end

datatype region_kind = PlainText | JsonKey | JsonValue | Header | Cookie | Url | Body

record context_rec =
  ctx_path :: "str option"
  ctx_key :: "str option"
  ctx_hints :: "str list"
  ctx_kind :: region_kind
  ctx_format :: kind

record region =
  region_span :: byte_range
  region_ctx :: context_rec

record ir =
  ir_raw :: str
  ir_regions :: "region list"
  ir_protected :: "byte_range list"


section \<open>Detectors and spans\<close>

datatype detector_id =
  Explicit | Plugin | CredSweeper | Alcatraz | Rule | KeyValue | Pem | Decode
| Structural | DecodeOpaque | Sweep | PentectTempParser

text \<open>Declaration order is the specificity rank of the derived \<open>Ord\<close>.\<close>

fun detector_rank :: "detector_id \<Rightarrow> nat" where
  "detector_rank Explicit = 0"
| "detector_rank Plugin = 1"
| "detector_rank CredSweeper = 2"
| "detector_rank Alcatraz = 3"
| "detector_rank Rule = 4"
| "detector_rank KeyValue = 5"
| "detector_rank Pem = 6"
| "detector_rank Decode = 7"
| "detector_rank Structural = 8"
| "detector_rank DecodeOpaque = 9"
| "detector_rank Sweep = 10"
| "detector_rank PentectTempParser = 11"

lemma detector_rank_inj: "detector_rank a = detector_rank b \<longleftrightarrow> a = b"
  by (cases a; cases b) auto

instantiation detector_id :: linorder
begin

definition less_eq_detector_id :: "detector_id \<Rightarrow> detector_id \<Rightarrow> bool" where
  "less_eq_detector_id a b \<longleftrightarrow> detector_rank a \<le> detector_rank b"

definition less_detector_id :: "detector_id \<Rightarrow> detector_id \<Rightarrow> bool" where
  "less_detector_id a b \<longleftrightarrow> detector_rank a < detector_rank b"

instance
  by standard
    (auto simp: less_eq_detector_id_def less_detector_id_def detector_rank_inj)

end

fun detector_as_str :: "detector_id \<Rightarrow> str" where
  "detector_as_str Explicit = ''explicit''"
| "detector_as_str Plugin = ''plugin''"
| "detector_as_str CredSweeper = ''credsweeper''"
| "detector_as_str Alcatraz = ''alcatraz''"
| "detector_as_str Rule = ''rule''"
| "detector_as_str KeyValue = ''key_value''"
| "detector_as_str Decode = ''decode''"
| "detector_as_str DecodeOpaque = ''decode_opaque''"
| "detector_as_str Pem = ''pem''"
| "detector_as_str Structural = ''structural''"
| "detector_as_str Sweep = ''sweep''"
| "detector_as_str PentectTempParser = ''pentect_temp_parser''"

record span =
  sp_range :: byte_range
  sp_category :: category
  sp_label :: str
  sp_confidence :: confidence
  sp_source :: detector_id

text \<open>\<open>core::cmp::Ordering\<close> with \<open>cmp\<close>, \<open>then\<close> and \<open>reverse\<close>.\<close>

datatype ordering = Less | Equal | Greater

definition cmp :: "'a::linorder \<Rightarrow> 'a \<Rightarrow> ordering" where
  "cmp a b = (if a < b then Less else if a = b then Equal else Greater)"

fun ordering_then :: "ordering \<Rightarrow> ordering \<Rightarrow> ordering" where
  "ordering_then Equal o2 = o2"
| "ordering_then o1 _ = o1"

fun ordering_reverse :: "ordering \<Rightarrow> ordering" where
  "ordering_reverse Less = Greater"
| "ordering_reverse Equal = Equal"
| "ordering_reverse Greater = Less"

definition cmp_strength :: "span \<Rightarrow> span \<Rightarrow> ordering" where
  "cmp_strength s q =
     ordering_then (cmp (sp_confidence s) (sp_confidence q))
    (ordering_then (cmp (range_len (sp_range s)) (range_len (sp_range q)))
    (ordering_then (cmp (category_priority (sp_category s)) (category_priority (sp_category q)))
    (ordering_then (cmp (sp_source q) (sp_source s))
    (ordering_then (cmp (rstart (sp_range q)) (rstart (sp_range s)))
      (cmp (rend (sp_range q)) (rend (sp_range s)))))))"

text \<open>
  The key \<open>cmp_strength\<close> compares, as one tuple under the lexicographic order: the last
  three comparisons are reversed, which the negated integers express.
\<close>

definition strength_key :: "span \<Rightarrow> nat \<times> nat \<times> nat \<times> int \<times> int \<times> int" where
  "strength_key s =
     (confidence_rank (sp_confidence s), range_len (sp_range s),
      category_priority (sp_category s), - int (detector_rank (sp_source s)),
      - int (rstart (sp_range s)), - int (rend (sp_range s)))"

lemma cmp_confidence: "cmp a b = cmp (confidence_rank a) (confidence_rank b)"
  by (simp add: cmp_def less_confidence_def confidence_rank_inj)

lemma cmp_detector: "cmp a b = cmp (- int (detector_rank b)) (- int (detector_rank a))"
  by (auto simp: cmp_def less_detector_id_def detector_rank_inj)

lemma cmp_flip: "cmp a b = cmp (- int b) (- int a)"
  by (auto simp: cmp_def)

lemma cmp_pair: "cmp (a, b) (c, d) = ordering_then (cmp a c) (cmp b d)"
  by (auto simp: cmp_def)

lemma cmp_strength_key: "cmp_strength s q = cmp (strength_key s) (strength_key q)"
  unfolding cmp_strength_def strength_key_def cmp_pair
  by (simp only: cmp_confidence cmp_detector cmp_flip [of "rstart (sp_range q)"]
      cmp_flip [of "rend (sp_range q)"])

lemma cmp_reverse: "cmp b a = ordering_reverse (cmp a b)"
  by (auto simp: cmp_def)

lemma cmp_Greater: "cmp a b = Greater \<longleftrightarrow> b < a"
  by (auto simp: cmp_def)

lemma cmp_Equal: "cmp a b = Equal \<longleftrightarrow> a = b"
  by (auto simp: cmp_def)

lemma cmp_Less: "cmp a b = Less \<longleftrightarrow> a < b"
  by (auto simp: cmp_def)

lemma category_priority_inj: "category_priority a = category_priority b \<longleftrightarrow> a = b"
  by (cases a; cases b) auto

lemma strength_key_eq:
  "strength_key s = strength_key q \<longleftrightarrow>
     sp_range s = sp_range q \<and> sp_category s = sp_category q \<and>
     sp_confidence s = sp_confidence q \<and> sp_source s = sp_source q"
  by (auto simp: strength_key_def confidence_rank_inj detector_rank_inj category_priority_inj
      range_len_def intro: byte_range.equality)

text \<open>
  \<open>cmp_strength\<close> is a total preorder on findings: comparing the other way round gives
  the reverse answer, \<open>Greater\<close> is transitive, and two findings tie exactly when they differ
  at most in their label.
\<close>

theorem cmp_strength_total_preorder:
  "cmp_strength q s = ordering_reverse (cmp_strength s q) \<and>
   (cmp_strength s q = Greater \<and> cmp_strength q t = Greater \<longrightarrow> cmp_strength s t = Greater) \<and>
   (cmp_strength s q = Equal \<longleftrightarrow> q = s\<lparr>sp_label := sp_label q\<rparr>)"
proof -
  have "cmp_strength s q = Equal \<longleftrightarrow> q = s\<lparr>sp_label := sp_label q\<rparr>"
    by (cases s, cases q) (auto simp: cmp_strength_key cmp_Equal strength_key_eq)
  then show ?thesis
    using less_trans [of "strength_key t" "strength_key q" "strength_key s"]
    by (simp add: cmp_strength_key cmp_Greater cmp_reverse [of "strength_key q" "strength_key s"])
qed

definition example_finding :: "confidence \<Rightarrow> span" where
  "example_finding c =
     \<lparr>sp_range = range_new 0 8, sp_category = Secret, sp_label = lbl_SECRET,
      sp_confidence = c, sp_source = Rule\<rparr>"

lemma cmp_strength_total_preorder_witness:
  "cmp_strength (example_finding High) (example_finding Low) = Greater"
proof -
  have "cmp_strength (example_finding High) (example_finding Medium) = Greater"
    "cmp_strength (example_finding Medium) (example_finding Low) = Greater"
    by code_simp+
  then show ?thesis using cmp_strength_total_preorder by blast
qed

end
