(* ===== verification/Placeholder.thy ===== *)
theory Placeholder
  imports Model
begin

unbundle bit_operations_syntax

text \<open>
  Placeholder handles, \<open>crates/pentect-core/src/placeholder.rs\<close>: the keyed identity hash,
  the rendering of \<open><<LABEL_hash>>\<close> handles, and the two parsers. HMAC-SHA256 comes from a
  crate outside the repository, so it is the parameter \<open>hmac\<close> (key, then message, to the
  bytes of the tag) of every definition that hashes.
\<close>

type_synonym hmac_fun = "str \<Rightarrow> str \<Rightarrow> str"


section \<open>Identity hashes\<close>

definition HASH_HEX_WIDTH :: nat where
  "HASH_HEX_WIDTH = 16"

definition hex_digit_char :: "nat \<Rightarrow> char" where
  "hex_digit_char n = ''0123456789abcdef'' ! n"

definition encode_hash :: "str \<Rightarrow> str" where
  "encode_hash out =
     concat (map (\<lambda>b. [hex_digit_char (drop_bit 4 (code b)), hex_digit_char (code b AND 15)])
       (take (HASH_HEX_WIDTH div 2) out))"

definition encode_full_hash :: "str \<Rightarrow> str" where
  "encode_full_hash out =
     concat (map (\<lambda>b. [hex_digit_char (drop_bit 4 (code b)), hex_digit_char (code b AND 15)])
       out)"

definition hasher_hash :: "hmac_fun \<Rightarrow> str \<Rightarrow> str \<Rightarrow> str" where
  "hasher_hash hmac key value = encode_hash (hmac key value)"

definition hasher_full_hash :: "hmac_fun \<Rightarrow> str \<Rightarrow> str \<Rightarrow> str" where
  "hasher_full_hash hmac key value = encode_full_hash (hmac key value)"

definition identity_hash :: "hmac_fun \<Rightarrow> str \<Rightarrow> str \<Rightarrow> str" where
  "identity_hash hmac key value = hasher_hash hmac key value"

definition matches_identity_hash :: "hmac_fun \<Rightarrow> str \<Rightarrow> str \<Rightarrow> str \<Rightarrow> bool" where
  "matches_identity_hash hmac key hash value =
     (if length hash = HASH_HEX_WIDTH then hasher_hash hmac key value = hash
      else if length hash = 64 then hasher_full_hash hmac key value = hash
      else False)"


section \<open>Rendering\<close>

datatype length_hint = ExactChars "32 word" | AtLeastChars "32 word" | LegacyLen "32 word"

fun length_hint_chars :: "length_hint \<Rightarrow> 32 word" where
  "length_hint_chars (ExactChars n) = n"
| "length_hint_chars (AtLeastChars n) = n"
| "length_hint_chars (LegacyLen n) = n"

fun length_hint_short :: "length_hint \<Rightarrow> str" where
  "length_hint_short (ExactChars n) = show_nat (unat n)"
| "length_hint_short (AtLeastChars n) = show_nat (unat n) @ ''+''"
| "length_hint_short (LegacyLen n) = show_nat (unat n)"

record placeholder_parts =
  pp_handle :: str
  pp_label :: str
  pp_hash :: str
  pp_length_hint :: "length_hint option"

definition render_placeholder :: "str \<Rightarrow> str \<Rightarrow> 32 word option \<Rightarrow> str" where
  "render_placeholder label hash char_len =
     (case char_len of
        Some n \<Rightarrow>
          ''<<'' @ label @ ''_'' @ hash @ ''_length_'' @ show_nat (unat n) @ ''_chars>>''
      | None \<Rightarrow> ''<<'' @ label @ ''_'' @ hash @ ''>>'')"


section \<open>Parsing\<close>

definition parse_u32 :: "str \<Rightarrow> str + 32 word" where
  "parse_u32 value =
     (case parse_u32_std value of
        Some n \<Rightarrow> Inr n
      | None \<Rightarrow> Inl ''placeholder length hint is malformed'')"

definition split_length_hint :: "str \<Rightarrow> str + (str \<times> length_hint option)" where
  "split_length_hint inner =
     (case rsplit_once ''_length_at_least_'' inner of
        Some (pre, suf) \<Rightarrow>
          (case strip_suffix ''_chars'' suf of
             None \<Rightarrow> Inl ''placeholder length hint is malformed''
           | Some raw_n \<Rightarrow>
               (case parse_u32 raw_n of
                  Inl e \<Rightarrow> Inl e
                | Inr n \<Rightarrow> Inr (pre, Some (AtLeastChars n))))
      | None \<Rightarrow>
     (case rsplit_once ''_length_'' inner of
        Some (pre, suf) \<Rightarrow>
          (case strip_suffix ''_chars'' suf of
             None \<Rightarrow> Inl ''placeholder length hint is malformed''
           | Some raw_n \<Rightarrow>
               (case parse_u32 raw_n of
                  Inl e \<Rightarrow> Inl e
                | Inr n \<Rightarrow> Inr (pre, Some (ExactChars n))))
      | None \<Rightarrow>
     (case rsplit_once ''_len'' inner of
        Some (pre, raw_n) \<Rightarrow>
          if raw_n \<noteq> [] \<and> list_all is_ascii_digit raw_n then
            (case parse_u32 raw_n of
               Inl e \<Rightarrow> Inl e
             | Inr n \<Rightarrow> Inr (pre, Some (LegacyLen n)))
          else Inr (inner, None)
      | None \<Rightarrow> Inr (inner, None))))"

definition is_label_char :: "byte \<Rightarrow> bool" where
  "is_label_char ch \<longleftrightarrow> is_ascii_uppercase ch \<or> is_ascii_digit ch \<or> ch = CHR ''_''"

definition validate_label :: "str \<Rightarrow> str + unit" where
  "validate_label label =
     (case label of
        [] \<Rightarrow> Inl ''placeholder label is empty''
      | first # rest \<Rightarrow>
          if \<not> is_ascii_uppercase first then Inl ''placeholder label must start with A-Z''
          else if \<not> list_all is_label_char rest
          then Inl ''placeholder label must use A-Z, 0-9, and underscore''
          else Inr ())"

definition is_lower_hex :: "byte \<Rightarrow> bool" where
  "is_lower_hex b \<longleftrightarrow> is_ascii_digit b \<or> byte_between 97 102 b"

definition validate_hash :: "str \<Rightarrow> str + unit" where
  "validate_hash hash =
     (if \<not> (length hash = HASH_HEX_WIDTH \<or> length hash = 64) \<or>
         \<not> list_all is_ascii_hexdigit hash
      then Inl ''placeholder hash must be 16 or 64 lowercase hex chars''
      else if \<not> list_all is_lower_hex hash
      then Inl ''placeholder hash must be 16 or 64 lowercase hex chars''
      else Inr ())"

text \<open>\<open>raw.strip_prefix("<<").and_then(|v| v.strip_suffix(">>"))\<close>.\<close>

definition unwrap_handle :: "str \<Rightarrow> str option" where
  "unwrap_handle raw = Option.bind (strip_prefix ''<<'' raw) (strip_suffix ''>>'')"

definition parse_placeholder :: "str \<Rightarrow> str + placeholder_parts" where
  "parse_placeholder value =
     (let raw = trim value in
      if raw = [] then Inl ''placeholder is empty''
      else
        let unwrapped = (case unwrap_handle raw of Some v \<Rightarrow> v | None \<Rightarrow> raw);
            inner = (case strip_prefix ''PENTECT_'' unwrapped of
                       Some v \<Rightarrow> v | None \<Rightarrow> unwrapped)
        in case split_length_hint inner of
             Inl e \<Rightarrow> Inl e
           | Inr (core, hint) \<Rightarrow>
               (case rsplit_once ''_'' core of
                  None \<Rightarrow> Inl ''placeholder must look like <<LABEL_hash>>''
                | Some (label, hash) \<Rightarrow>
                    (case validate_label label of
                       Inl e \<Rightarrow> Inl e
                     | Inr _ \<Rightarrow>
                         (case validate_hash hash of
                            Inl e \<Rightarrow> Inl e
                          | Inr _ \<Rightarrow>
                              Inr \<lparr>pp_handle = ''<<'' @ inner @ ''>>'', pp_label = label,
                                   pp_hash = hash, pp_length_hint = hint\<rparr>))))"

definition is_canonical_placeholder :: "str \<Rightarrow> bool" where
  "is_canonical_placeholder value =
     (case unwrap_handle value of
        None \<Rightarrow> False
      | Some inner \<Rightarrow>
          (case split_length_hint inner of
             Inl _ \<Rightarrow> False
           | Inr (core, _) \<Rightarrow>
               (case rsplit_once ''_'' core of
                  None \<Rightarrow> False
                | Some (label, hash) \<Rightarrow>
                    validate_label label = Inr () \<and> validate_hash hash = Inr ())))"


section \<open>Well-formed labels and hashes\<close>

abbreviation label_ok :: "str \<Rightarrow> bool" where
  "label_ok label \<equiv> validate_label label = Inr ()"

abbreviation hash_ok :: "str \<Rightarrow> bool" where
  "hash_ok hash \<equiv> validate_hash hash = Inr ()"

lemma label_ok_iff:
  "label_ok label \<longleftrightarrow>
     label \<noteq> [] \<and> is_ascii_uppercase (hd label) \<and> list_all is_label_char label"
  by (auto simp: validate_label_def is_label_char_def split: list.splits)

lemma hash_ok_iff:
  "hash_ok hash \<longleftrightarrow> (length hash = 16 \<or> length hash = 64) \<and> list_all is_lower_hex hash"
  by (auto simp: validate_hash_def HASH_HEX_WIDTH_def is_lower_hex_def is_ascii_hexdigit_def
      list_all_iff)

lemma label_ok_cases: "validate_label label = Inr u \<longleftrightarrow> label_ok label"
  and hash_ok_cases: "validate_hash hash = Inr u' \<longleftrightarrow> hash_ok hash"
  by (cases u; simp) (cases u'; simp)

lemma hex_digit_char_lower: "n < 16 \<Longrightarrow> is_lower_hex (hex_digit_char n)"
proof -
  have "list_all (\<lambda>n. is_lower_hex (hex_digit_char n)) [0..<16]" by code_simp
  then show "n < 16 \<Longrightarrow> is_lower_hex (hex_digit_char n)" by (simp add: list_all_iff)
qed

lemma nibble_bounds: "drop_bit 4 (code b) < 16" "code b AND 15 < (16 :: nat)"
proof -
  have "code b < 256" by simp
  then show "drop_bit 4 (code b) < 16"
    by (simp add: drop_bit_eq_div del: code_less_256)
  have "code b AND 15 = take_bit 4 (code b)"
    by (simp add: take_bit_eq_mask mask_eq_exp_minus_1)
  also have "\<dots> < 2 ^ 4" by (rule take_bit_nat_less_exp)
  finally show "code b AND 15 < (16 :: nat)" by simp
qed

lemma encode_full_hash_lower: "list_all is_lower_hex (encode_full_hash out)"
  using hex_digit_char_lower nibble_bounds
  by (auto simp: encode_full_hash_def list_all_iff)

lemma encode_hash_take: "encode_hash out = encode_full_hash (take 8 out)"
  by (simp add: encode_hash_def encode_full_hash_def HASH_HEX_WIDTH_def)

lemma length_encode_full_hash: "length (encode_full_hash out) = 2 * length out"
  by (induction out) (simp_all add: encode_full_hash_def)

lemma hash_ok_full: "length (hmac key v) = 32 \<Longrightarrow> hash_ok (hasher_full_hash hmac key v)"
  by (simp add: hash_ok_iff hasher_full_hash_def length_encode_full_hash encode_full_hash_lower)

lemma hash_ok_short: "length (hmac key v) = 32 \<Longrightarrow> hash_ok (hasher_hash hmac key v)"
  by (simp add: hash_ok_iff hasher_hash_def encode_hash_take length_encode_full_hash
      encode_full_hash_lower)

text \<open>The letters a rendered handle can hold.\<close>

definition handle_char :: "byte \<Rightarrow> bool" where
  "handle_char b \<longleftrightarrow> is_ascii_alphanumeric b \<or> b = CHR ''_'' \<or> b = CHR ''+''"

lemma is_label_char_handle: "is_label_char b \<Longrightarrow> handle_char b"
  by (auto simp: is_label_char_def handle_char_def is_ascii_alphanumeric_def is_ascii_alphabetic_def)

lemma is_lower_hex_handle: "is_lower_hex b \<Longrightarrow> handle_char b"
  by (auto simp: is_lower_hex_def handle_char_def ascii_class_defs)

lemma digit_handle: "is_ascii_digit b \<Longrightarrow> handle_char b"
  by (simp add: handle_char_def is_ascii_alphanumeric_def)

lemma is_label_char_code: "is_label_char b \<longleftrightarrow>
    (65 \<le> code b \<and> code b \<le> 90) \<or> (48 \<le> code b \<and> code b \<le> 57) \<or> code b = 95"
proof -
  have "b = CHR ''_'' \<longleftrightarrow> code b = 95"
    unfolding code_eq_iff [symmetric] by simp
  then show ?thesis by (auto simp: is_label_char_def ascii_class_defs)
qed


lemma char_lit_eq: "b = c \<longleftrightarrow> code b = code c"
  by simp

lemma handle_char_code: "handle_char b \<longleftrightarrow>
    (65 \<le> code b \<and> code b \<le> 90) \<or> (97 \<le> code b \<and> code b \<le> 122) \<or>
    (48 \<le> code b \<and> code b \<le> 57) \<or> code b = 95 \<or> code b = 43"
  unfolding handle_char_def char_lit_eq [of b] by (auto simp: ascii_class_defs)

lemma is_lower_hex_code: "is_lower_hex b \<longleftrightarrow>
    (48 \<le> code b \<and> code b \<le> 57) \<or> (97 \<le> code b \<and> code b \<le> 102)"
  by (auto simp: is_lower_hex_def ascii_class_defs)

lemma not_in_class: "list_all P s \<Longrightarrow> \<not> P c \<Longrightarrow> c \<notin> set s"
  by (auto simp: list_all_iff)


section \<open>Round trip\<close>

lemma no_occurrence:
  "c \<in> set pat \<Longrightarrow> c \<notin> set s \<Longrightarrow> \<not> sublist_at pat j s"
  using sublist_at_imp_set by fastforce

lemma no_occurrence_Cons:
  "\<not> prefix pat (x # s) \<Longrightarrow> (\<And>j. \<not> sublist_at pat j s) \<Longrightarrow> \<not> sublist_at pat j (x # s)"
  by (cases j) auto

lemma sublist_at_count: "sublist_at pat i s \<Longrightarrow> count_list pat c \<le> count_list s c"
  by (metis append_take_drop_id count_list_append le_add1 le_add2 order_trans prefix_def
      sublist_at_def)

lemma rsplit_once_append:
  assumes "pat \<noteq> []" and "\<And>j. \<not> sublist_at pat j (tl pat @ b)"
  shows "rsplit_once pat (a @ pat @ b) = Some (a, b)"
proof -
  obtain p ps where p: "pat = p # ps" using assms(1) by (cases pat) auto
  have "str_rfind pat (a @ pat @ b) = Some (length a)"
  proof (rule str_rfind_eqI)
    show "sublist_at pat (length a) (a @ pat @ b)" by (simp add: sublist_at_def)
    fix j assume "length a < j"
    then obtain k where "j = Suc (length a + k)" using less_imp_Suc_add by blast
    with assms(2) [of k] show "\<not> sublist_at pat j (a @ pat @ b)"
      by (auto simp: sublist_at_def p)
  qed
  then show ?thesis by (simp add: rsplit_once_def)
qed

lemma core_chars:
  assumes "label_ok label" and "hash_ok hash"
  shows "list_all (\<lambda>b. is_label_char b \<or> is_lower_hex b) (label @ ''_'' @ hash)"
  using assms by (auto simp: label_ok_iff hash_ok_iff list_all_iff is_label_char_def)

lemma split_length_hint_None:
  assumes "label_ok label" and "hash_ok hash"
  shows "split_length_hint (label @ ''_'' @ hash) = Inr (label @ ''_'' @ hash, None)"
proof -
  have "CHR ''l'' \<notin> set (label @ ''_'' @ hash)"
    using core_chars [OF assms]
    by (rule not_in_class) (simp add: is_label_char_code is_lower_hex_code)
  then have "rsplit_once pat (label @ ''_'' @ hash) = None" if "CHR ''l'' \<in> set pat" for pat
    using that no_occurrence [of "CHR ''l''" pat] by (simp add: rsplit_once_None)
  then show ?thesis by (simp add: split_length_hint_def)
qed

lemma show_nat_class: "list_all is_ascii_digit (show_nat n)"
  using show_nat_digits by (auto simp: list_all_iff)

lemma show_nat_not_in: "\<not> is_ascii_digit c \<Longrightarrow> c \<notin> set (show_nat n)"
  using show_nat_digits by blast

lemma count_show_nat: "\<not> is_ascii_digit c \<Longrightarrow> count_list (show_nat n) c = 0"
  using show_nat_not_in by simp

lemma split_length_hint_Some:
  fixes n :: "32 word"
  assumes "label_ok label" and "hash_ok hash"
  defines "core \<equiv> label @ ''_'' @ hash" and "d \<equiv> show_nat (unat n)"
  shows "split_length_hint (core @ ''_length_'' @ d @ ''_chars'') = Inr (core, Some (ExactChars n))"
proof -
  have t: "CHR ''t'' \<notin> set core"
    using core_chars [OF assms(1,2)] unfolding core_def
    by (rule not_in_class) (simp add: is_label_char_code is_lower_hex_code)
  have nd: "\<not> is_ascii_digit (CHR ''t'')" "\<not> is_ascii_digit (CHR ''n'')"
    by (simp_all add: ascii_class_defs)
  have "count_list (core @ ''_length_'' @ d @ ''_chars'') (CHR ''t'') = 1"
    using t count_show_nat [OF nd(1)] by (simp add: d_def count_list_append)
  then have "\<not> sublist_at ''_length_at_least_'' j (core @ ''_length_'' @ d @ ''_chars'')" for j
    using sublist_at_count [of "''_length_at_least_''" j _ "CHR ''t''"] by fastforce
  then have 1: "rsplit_once ''_length_at_least_'' (core @ ''_length_'' @ d @ ''_chars'') = None"
    by (simp add: rsplit_once_None)
  have n: "CHR ''n'' \<notin> set (''gth_'' @ d @ ''_chars'')"
    using show_nat_not_in [OF nd(2)] by (simp add: d_def)
  have no: "\<not> sublist_at ''_length_'' j (tl ''_length_'' @ d @ ''_chars'')" for j
    unfolding list.sel append.simps
    by (intro no_occurrence_Cons no_occurrence [OF _ n, unfolded append.simps]) simp_all
  have 2: "rsplit_once ''_length_'' (core @ ''_length_'' @ d @ ''_chars'')
      = Some (core, d @ ''_chars'')"
    by (intro rsplit_once_append no) simp
  have 3: "strip_suffix ''_chars'' (d @ ''_chars'') = Some d"
    by (rule strip_suffix_append)
  have "unat n < 2 ^ 32" using unsigned_less [of n] by simp
  then have 4: "parse_u32 d = Inr n"
    by (simp add: parse_u32_def d_def parse_u32_std_show)
  show ?thesis
    unfolding split_length_hint_def 1 2 option.case prod.case 3 4 sum.case ..
qed

lemma split_core:
  assumes "label_ok label" and "hash_ok hash"
  shows "rsplit_once ''_'' (label @ ''_'' @ hash) = Some (label, hash)"
proof -
  have "CHR ''_'' \<notin> set hash"
    using assms(2) unfolding hash_ok_iff
    by (intro not_in_class [of is_lower_hex]) (simp_all add: is_lower_hex_code)
  then show ?thesis using rsplit_once_single [of "CHR ''_''" hash label] by simp
qed

definition handle_inner :: "str \<Rightarrow> str \<Rightarrow> 32 word option \<Rightarrow> str" where
  "handle_inner label hash n =
     (case n of None \<Rightarrow> label @ ''_'' @ hash
      | Some k \<Rightarrow> (label @ ''_'' @ hash) @ ''_length_'' @ show_nat (unat k) @ ''_chars'')"

lemma render_inner: "render_placeholder label hash n = ''<<'' @ handle_inner label hash n @ ''>>''"
  by (cases n) (simp_all add: render_placeholder_def handle_inner_def)

lemma split_handle_inner:
  assumes "label_ok label" and "hash_ok hash"
  shows "split_length_hint (handle_inner label hash n)
    = Inr (label @ ''_'' @ hash, map_option ExactChars n)"
  using split_length_hint_None [OF assms] split_length_hint_Some [OF assms]
  by (cases n) (simp_all add: handle_inner_def)

lemma unwrap_handle_wrapped: "unwrap_handle (''<<'' @ s @ ''>>'') = Some s"
  unfolding unwrap_handle_def strip_prefix_append Option.bind.bind_lunit strip_suffix_append ..

lemma handle_inner_chars:
  assumes "label_ok label" and "hash_ok hash"
  shows "list_all handle_char (handle_inner label hash n)"
proof -
  have "list_all handle_char (label @ ''_'' @ hash)"
    using core_chars [OF assms] is_label_char_handle is_lower_hex_handle
    by (auto simp: list_all_iff)
  moreover have "list_all handle_char (show_nat k)" for k
    using show_nat_class digit_handle by (auto simp: list_all_iff)
  ultimately show ?thesis
    by (auto simp: handle_inner_def handle_char_code split: option.splits)
qed


lemma trim_handle:
  assumes "list_all handle_char s"
  shows "trim (''<<'' @ s @ ''>>'') = ''<<'' @ s @ ''>>''"
proof (rule trim_ascii_id)
  show "all_ascii (''<<'' @ s @ ''>>'')"
    using assms by (auto simp: list_all_iff handle_char_code is_ascii_def)
next
  fix c assume "c \<in> set (''<<'' @ s @ ''>>'')"
  then consider "c = CHR ''<''" | "c = CHR ''>''" | "handle_char c"
    using assms by (auto simp: list_all_iff)
  then show "code c \<notin> {9, 10, 11, 12, 13, 32}"
    by cases (auto simp: handle_char_code)
qed

lemma prefix_PENTECT:
  assumes "prefix ''PENTECT_'' (label @ ''_'' @ t)"
  shows "prefix ''PENTECT_'' (label @ ''_'')"
proof -
  obtain z where z: "''PENTECT_'' @ z = label @ CHR ''_'' # t"
    using assms by (auto simp: prefix_def)
  have "length (takeWhile (\<lambda>c. c \<noteq> CHR ''_'') (label @ CHR ''_'' # t)) \<le> length label"
    by (induction label) auto
  then have "length ''PENTECT_'' \<le> length (label @ ''_'')"
    unfolding z [symmetric] by simp
  then show ?thesis
    using prefix_length_prefix [OF assms, of "label @ ''_''"] by (auto simp: prefix_def)
qed

lemma strip_prefix_None: "strip_prefix pat s = None \<longleftrightarrow> \<not> prefix pat s"
  by (simp add: strip_prefix_def)

lemma hex_digit_char_inj: "m < 16 \<Longrightarrow> n < 16 \<Longrightarrow> hex_digit_char m = hex_digit_char n \<longleftrightarrow> m = n"
proof -
  have "distinct ''0123456789abcdef''" "length ''0123456789abcdef'' = 16" by code_simp+
  then show "m < 16 \<Longrightarrow> n < 16 \<Longrightarrow> hex_digit_char m = hex_digit_char n \<longleftrightarrow> m = n"
    unfolding hex_digit_char_def by (simp only: nth_eq_iff_index_eq)
qed

lemma nibbles_inj:
  assumes "drop_bit 4 (code a) = drop_bit 4 (code b)" and "code a AND 15 = code b AND (15 :: nat)"
  shows "a = b"
proof -
  have low: "code c mod 16 = code c AND 15" for c :: char
  proof -
    have "code c AND 15 = take_bit 4 (code c)"
      by (simp add: take_bit_eq_mask mask_eq_exp_minus_1)
    then show ?thesis by (simp add: take_bit_eq_mod)
  qed
  have "code a div 16 = code b div 16" using assms(1) by (simp add: drop_bit_eq_div)
  moreover have "code a mod 16 = code b mod 16" using assms(2) unfolding low .
  ultimately have "code a = code b" by (metis mult_div_mod_eq)
  then show ?thesis by simp
qed

lemma encode_full_hash_inj: "encode_full_hash x = encode_full_hash y \<longleftrightarrow> x = y"
proof
  show "encode_full_hash x = encode_full_hash y \<Longrightarrow> x = y"
  proof (induction x arbitrary: y)
    case Nil
    then show ?case by (cases y) (simp_all add: encode_full_hash_def)
  next
    case (Cons a x)
    then obtain b y' where y: "y = b # y'"
      by (cases y) (simp_all add: encode_full_hash_def)
    with Cons.prems have "encode_full_hash x = encode_full_hash y'" "a = b"
      using nibble_bounds [of a] nibble_bounds [of b]
      by (auto simp: encode_full_hash_def hex_digit_char_inj intro: nibbles_inj)
    with Cons.IH y show ?case by simp
  qed
qed simp

lemma underscore_not_hex: "list_all is_lower_hex h \<Longrightarrow> CHR ''_'' \<notin> set h"
  by (auto simp: list_all_iff is_lower_hex_code)

lemma split_last_underscore:
  assumes "a @ CHR ''_'' # x = b @ CHR ''_'' # y" and "CHR ''_'' \<notin> set x" and "CHR ''_'' \<notin> set y"
  shows "a = b" and "x = y"
proof -
  have "Some (a, x) = Some (b, y)"
    unfolding rsplit_once_single [OF assms(2), of a, symmetric]
      rsplit_once_single [OF assms(3), of b, symmetric] assms(1) ..
  then show "a = b" and "x = y" by simp_all
qed

text \<open>Whatever the labels, a handle determines its label, its hash and its length.\<close>

lemma render_placeholder_inj:
  assumes "render_placeholder l1 h1 n1 = render_placeholder l2 h2 n2"
    and "list_all is_lower_hex h1" and "list_all is_lower_hex h2"
  shows "l1 = l2 \<and> h1 = h2 \<and> n1 = n2"
proof -
  note no = assms(2,3) [THEN underscore_not_hex]
  have chars: "CHR ''_'' \<notin> set ''chars''" "\<not> list_all is_lower_hex ''chars''" by code_simp+
  have inner: "handle_inner l1 h1 n1 = handle_inner l2 h2 n2"
    using assms(1) by (simp add: render_inner)
  have core: "l1 = l2 \<and> h1 = h2" if "l1 @ ''_'' @ h1 = l2 @ ''_'' @ h2"
  proof -
    have "l1 @ CHR ''_'' # h1 = l2 @ CHR ''_'' # h2" using that by simp
    from split_last_underscore [OF this no] show ?thesis by simp
  qed
  have split: "handle_inner l h (Some k) =
      (l @ ''_'' @ h @ ''_length'' @ ''_'' @ show_nat (unat k)) @ CHR ''_'' # ''chars''" for l h k
    by (simp add: handle_inner_def)
  show ?thesis
  proof (cases n1; cases n2)
    fix k1 k2 assume n: "n1 = Some k1" "n2 = Some k2"
    have "l1 @ ''_'' @ h1 @ ''_length'' @ ''_'' @ show_nat (unat k1) =
        l2 @ ''_'' @ h2 @ ''_length'' @ ''_'' @ show_nat (unat k2)"
      using inner unfolding n split by (rule split_last_underscore(1)) (rule chars)+
    then have "(l1 @ ''_'' @ h1 @ ''_length'') @ CHR ''_'' # show_nat (unat k1) =
        (l2 @ ''_'' @ h2 @ ''_length'') @ CHR ''_'' # show_nat (unat k2)" by simp
    note eqs = split_last_underscore [OF this]
    have us: "CHR ''_'' \<notin> set (show_nat k)" for k
      by (rule show_nat_not_in) code_simp
    from eqs [OF us us] have "l1 @ ''_'' @ h1 = l2 @ ''_'' @ h2"
      "show_nat (unat k1) = show_nat (unat k2)" by auto
    then show ?thesis
      using core read_digits_show_nat n by (metis option.inject word_unat_eq_iff)
  next
    fix k assume n: "n1 = None" "n2 = Some k"
    have "l1 @ CHR ''_'' # h1 = (l2 @ ''_'' @ h2 @ ''_length'' @ ''_'' @ show_nat (unat k))
        @ CHR ''_'' # ''chars''"
      using inner unfolding n split by (simp add: handle_inner_def)
    from split_last_underscore(2) [OF this no(1) chars(1)] show ?thesis using assms(2) chars(2) by simp
  next
    fix k assume n: "n1 = Some k" "n2 = None"
    have "l2 @ CHR ''_'' # h2 = (l1 @ ''_'' @ h1 @ ''_length'' @ ''_'' @ show_nat (unat k))
        @ CHR ''_'' # ''chars''"
      using inner unfolding n split by (simp add: handle_inner_def)
    from split_last_underscore(2) [OF this no(2) chars(1)] show ?thesis using assms(3) chars(2) by simp
  next
    assume "n1 = None" "n2 = None"
    with inner core show ?thesis by (simp add: handle_inner_def)
  qed
qed

text \<open>
  C40. A rendered handle parses back: for a valid label and hash, \<open>parse_placeholder\<close> accepts
  what \<open>render_placeholder\<close> produces and returns exactly its label, its hash and its exact
  length hint. The one exception is a label that starts with the legacy marker
  \<open>PENTECT_\<close> (or is \<open>PENTECT\<close>), which the parser strips.
\<close>

theorem parse_render_roundtrip:
  assumes "label_ok label" and "hash_ok hash" and "\<not> prefix ''PENTECT_'' (label @ ''_'')"
  shows "parse_placeholder (render_placeholder label hash n) =
     Inr \<lparr>pp_handle = render_placeholder label hash n, pp_label = label, pp_hash = hash,
          pp_length_hint = map_option ExactChars n\<rparr>"
proof -
  let ?inner = "handle_inner label hash n"
  have trim: "trim (''<<'' @ ?inner @ ''>>'') = ''<<'' @ ?inner @ ''>>''"
    by (rule trim_handle) (rule handle_inner_chars [OF assms(1,2)])
  have "\<exists>t. ?inner = label @ ''_'' @ t"
    by (cases n) (auto simp: handle_inner_def)
  then have "strip_prefix ''PENTECT_'' ?inner = None"
    using assms(3) prefix_PENTECT unfolding strip_prefix_None by metis
  moreover have "''<<'' @ ?inner @ ''>>'' \<noteq> []" by simp
  ultimately show ?thesis
    using assms(1,2)
    unfolding parse_placeholder_def render_inner trim Let_def if_not_P [OF \<open>_ \<noteq> []\<close>]
      unwrap_handle_wrapped option.case
    by (simp add: split_handle_inner split_core del: append.simps)
qed

lemma parse_render_roundtrip_witness:
  "parse_placeholder (render_placeholder ''API_KEY'' ''0123456789abcdef'' (Some 40)) =
     Inr \<lparr>pp_handle = ''<<API_KEY_0123456789abcdef_length_40_chars>>'', pp_label = ''API_KEY'',
          pp_hash = ''0123456789abcdef'', pp_length_hint = Some (ExactChars 40)\<rparr>"
proof -
  have "parse_placeholder (render_placeholder ''API_KEY'' ''0123456789abcdef'' (Some 40)) =
     Inr \<lparr>pp_handle = render_placeholder ''API_KEY'' ''0123456789abcdef'' (Some 40),
          pp_label = ''API_KEY'', pp_hash = ''0123456789abcdef'',
          pp_length_hint = map_option ExactChars (Some 40)\<rparr>"
    by (rule parse_render_roundtrip) code_simp+
  moreover have "render_placeholder ''API_KEY'' ''0123456789abcdef'' (Some 40) =
      ''<<API_KEY_0123456789abcdef_length_40_chars>>''"
    by code_simp
  ultimately show ?thesis by simp
qed

text \<open>
  Every handle the renderer emits for a valid label and hash is recognised as canonical,
  so text that already holds it is left alone.
\<close>

theorem render_is_canonical:
  assumes "label_ok label" and "hash_ok hash"
  shows "is_canonical_placeholder (render_placeholder label hash n)"
  unfolding is_canonical_placeholder_def render_inner unwrap_handle_wrapped option.case
    split_handle_inner [OF assms] sum.case prod.case split_core [OF assms]
  using assms by simp

lemma render_is_canonical_witness:
  "is_canonical_placeholder ''<<API_KEY_0123456789abcdef>>''"
proof -
  have "is_canonical_placeholder (render_placeholder ''API_KEY'' ''0123456789abcdef'' None)"
    by (rule render_is_canonical) code_simp+
  moreover have "render_placeholder ''API_KEY'' ''0123456789abcdef'' None = ''<<API_KEY_0123456789abcdef>>''"
    by code_simp
  ultimately show ?thesis by simp
qed

end
