(* ===== verification/Codec.thy ===== *)
theory Codec
  imports Placeholder
begin

text \<open>
  The codecs of \<open>crates/pentect-core/src/codec.rs\<close>, each as the \<open>decode\<close> of its
  \<open>Codec\<close> implementation. Percent, binary, octal, Ascii85, RFC 1924 Base85 and Z85 are
  decoded by the repository itself and are modelled whole; for Base64, Base32, hex and Base58
  the repository's guards are modelled and the decoders of the crates \<open>data_encoding\<close> and
  \<open>bs58\<close> are parameters.
\<close>

type_synonym decoder = "str \<Rightarrow> str option"


section \<open>Guards in front of third-party decoders\<close>

definition compact_ascii_whitespace :: "str \<Rightarrow> str" where
  "compact_ascii_whitespace value =
     (if list_ex is_ascii_whitespace value
      then filter (\<lambda>ch. \<not> is_ascii_whitespace ch) value else value)"

text \<open>The three plausibility loops share their shape: alphabet bytes until the first \<open>=\<close>.\<close>

fun plausible_loop :: "(byte \<Rightarrow> bool) \<Rightarrow> bool \<Rightarrow> str \<Rightarrow> bool" where
  "plausible_loop alphabet padding [] = True"
| "plausible_loop alphabet padding (b # bs) =
     (if alphabet b \<and> \<not> padding then plausible_loop alphabet padding bs
      else if b = CHR ''='' then plausible_loop alphabet True bs
      else False)"

definition plausible_base64 :: "str \<Rightarrow> bool" where
  "plausible_base64 bytes =
     (if length bytes mod 4 = 1 then False
      else plausible_loop
        (\<lambda>b. is_ascii_uppercase b \<or> is_ascii_lowercase b \<or> is_ascii_digit b \<or>
              b = CHR ''+'' \<or> b = CHR ''/'' \<or> b = CHR ''-'' \<or> b = CHR ''_'') False bytes)"

definition plausible_base32 :: "str \<Rightarrow> bool" where
  "plausible_base32 bytes =
     plausible_loop
       (\<lambda>b. is_ascii_uppercase b \<or> is_ascii_lowercase b \<or> byte_between 50 55 b) False bytes"

definition plausible_base32hex :: "str \<Rightarrow> bool" where
  "plausible_base32hex bytes =
     plausible_loop
       (\<lambda>b. is_ascii_digit b \<or> byte_between 65 86 b \<or> byte_between 97 118 b) False bytes"

definition or_else :: "'a option \<Rightarrow> 'a option \<Rightarrow> 'a option" where
  "or_else a b = (case a of Some x \<Rightarrow> Some x | None \<Rightarrow> b)"

definition base64_decode ::
  "decoder \<Rightarrow> decoder \<Rightarrow> decoder \<Rightarrow> decoder \<Rightarrow> str \<Rightarrow> str option" where
  "base64_decode BASE64 BASE64URL BASE64_NOPAD BASE64URL_NOPAD run =
     (let compact = compact_ascii_whitespace run in
      if \<not> plausible_base64 compact then None
      else or_else (or_else (or_else (BASE64 compact) (BASE64URL compact))
             (BASE64_NOPAD compact)) (BASE64URL_NOPAD compact))"

definition normalize_case :: "str \<Rightarrow> str" where
  "normalize_case run =
     (if list_ex is_ascii_lowercase run then map to_ascii_uppercase run else run)"

definition base32_decode :: "decoder \<Rightarrow> decoder \<Rightarrow> str \<Rightarrow> str option" where
  "base32_decode BASE32 BASE32_NOPAD run =
     (if \<not> plausible_base32 run then None
      else let b = normalize_case run in or_else (BASE32 b) (BASE32_NOPAD b))"

definition base32hex_decode :: "decoder \<Rightarrow> decoder \<Rightarrow> str \<Rightarrow> str option" where
  "base32hex_decode BASE32HEX BASE32HEX_NOPAD run =
     (if \<not> plausible_base32hex run then None
      else let b = normalize_case run in or_else (BASE32HEX b) (BASE32HEX_NOPAD b))"

definition hex_decode :: "decoder \<Rightarrow> str \<Rightarrow> str option" where
  "hex_decode HEXLOWER_PERMISSIVE run0 =
     (let run = (case or_else (strip_prefix ''0x'' run0) (strip_prefix ''0X'' run0) of
                   Some r \<Rightarrow> r | None \<Rightarrow> run0)
      in if length run mod 2 \<noteq> 0 \<or> \<not> list_all is_ascii_hexdigit run then None
         else HEXLOWER_PERMISSIVE run)"

definition base58_decode :: "decoder \<Rightarrow> str \<Rightarrow> str option" where
  "base58_decode bs58 run =
     (if \<not> list_all (\<lambda>b. byte_between 49 57 b \<or> byte_between 65 72 b \<or> byte_between 74 78 b \<or>
            byte_between 80 90 b \<or> byte_between 97 107 b \<or> byte_between 109 122 b) run
      then None else bs58 run)"


section \<open>Percent, binary and octal\<close>

definition hex_nibble :: "byte \<Rightarrow> nat option" where
  "hex_nibble b =
     (if byte_between 48 57 b then Some (code b - 48)
      else if byte_between 97 102 b then Some (code b - 97 + 10)
      else if byte_between 65 70 b then Some (code b - 65 + 10)
      else None)"

text \<open>\<open>chunks\<close> and \<open>chunks_exact\<close> on a slice whose length the caller has checked.\<close>

function chunks :: "nat \<Rightarrow> 'a list \<Rightarrow> 'a list list" where
  "chunks n xs = (if xs = [] \<or> n = 0 then [] else take n xs # chunks n (drop n xs))"
  by pat_completeness auto
termination
  by (relation "measure (\<lambda>(n, xs). length xs)") auto

declare chunks.simps [simp del]

fun try_map :: "('a \<Rightarrow> 'b option) \<Rightarrow> 'a list \<Rightarrow> 'b list option" where
  "try_map f [] = Some []"
| "try_map f (x # xs) = do { y \<leftarrow> f x; ys \<leftarrow> try_map f xs; Some (y # ys) }"

definition percent_chunk :: "str \<Rightarrow> byte option" where
  "percent_chunk chunk =
     (if chunk ! 0 \<noteq> CHR ''%'' then None
      else do {
        high \<leftarrow> hex_nibble (chunk ! 1);
        low \<leftarrow> hex_nibble (chunk ! 2);
        Some (char_of (push_bit 4 high OR low)) })"

definition percent_decode :: "str \<Rightarrow> str option" where
  "percent_decode run =
     (if length run < 3 \<or> length run mod 3 \<noteq> 0 then None
      else try_map percent_chunk (chunks 3 run))"

text \<open>\<open>checked_mul\<close>, \<open>checked_add\<close> and \<open>try_from\<close> at \<open>w\<close> bits.\<close>

definition checked :: "nat \<Rightarrow> nat \<Rightarrow> nat option" where
  "checked w n = (if n < 2 ^ w then Some n else None)"

fun try_fold_digits :: "nat \<Rightarrow> nat \<Rightarrow> nat \<Rightarrow> nat list \<Rightarrow> nat option" where
  "try_fold_digits w base value [] = Some value"
| "try_fold_digits w base value (d # ds) = do {
     v \<leftarrow> checked w (value * base);
     v' \<leftarrow> checked w (v + d);
     try_fold_digits w base v' ds }"

definition binary_chunk :: "str \<Rightarrow> byte option" where
  "binary_chunk chunk =
     map_option char_of
       (try_fold_digits 8 2 0 (map (\<lambda>b. if b = CHR ''1'' then 1 else 0) chunk))"

definition binary_decode :: "str \<Rightarrow> str option" where
  "binary_decode run =
     (if run = [] \<or> length run mod 8 \<noteq> 0 \<or> \<not> list_all (\<lambda>b. b = CHR ''0'' \<or> b = CHR ''1'') run
      then None else try_map binary_chunk (chunks 8 run))"

definition octal_chunk :: "str \<Rightarrow> byte option" where
  "octal_chunk chunk =
     (let value = (code (chunk ! 0) - 48) * 64 + (code (chunk ! 1) - 48) * 8
                  + (code (chunk ! 2) - 48)
      in map_option char_of (checked 8 value))"

definition octal_decode :: "str \<Rightarrow> str option" where
  "octal_decode run =
     (if run = [] \<or> length run mod 3 \<noteq> 0 \<or> \<not> list_all (byte_between 48 55) run
      then None else try_map octal_chunk (chunks 3 run))"


section \<open>Base 85\<close>

definition be_bytes :: "nat \<Rightarrow> str" where
  "be_bytes v =
     [char_of (v div 2 ^ 24 mod 256), char_of (v div 2 ^ 16 mod 256),
      char_of (v div 2 ^ 8 mod 256), char_of (v mod 256)]"

text \<open>\<open>append_ascii85_group\<close>: the bytes to append, or the overflow that aborts decoding.\<close>

definition ascii85_group :: "nat list \<Rightarrow> nat \<Rightarrow> str option" where
  "ascii85_group grp bytes = do {
     value \<leftarrow> try_fold_digits 64 85 0 grp;
     value \<leftarrow> checked 32 value;
     Some (take bytes (be_bytes value)) }"

record ascii85_state =
  a85_out :: str
  a85_group :: "nat list"
  a85_group_len :: nat

definition ascii85_step :: "ascii85_state \<Rightarrow> byte \<Rightarrow> ascii85_state option" where
  "ascii85_step st b =
     (if b = CHR ''z'' then
        (if a85_group_len st \<noteq> 0 then None
         else Some (st\<lparr>a85_out := a85_out st @ replicate 4 (char_of (0 :: nat))\<rparr>))
      else if \<not> byte_between 33 117 b then None
      else
        let grp = (a85_group st)[a85_group_len st := code b - 33];
            n = a85_group_len st + 1
        in if n = 5 then
             map_option (\<lambda>bs. st\<lparr>a85_out := a85_out st @ bs, a85_group := grp,
                 a85_group_len := 0\<rparr>) (ascii85_group grp 4)
           else Some (st\<lparr>a85_group := grp, a85_group_len := n\<rparr>))"

fun ascii85_loop :: "ascii85_state \<Rightarrow> str \<Rightarrow> ascii85_state option" where
  "ascii85_loop st [] = Some st"
| "ascii85_loop st (b # bs) = Option.bind (ascii85_step st b) (\<lambda>st'. ascii85_loop st' bs)"

definition ascii85_finish :: "ascii85_state \<Rightarrow> str option" where
  "ascii85_finish st =
     (let n = a85_group_len st in
      if n = 1 then None
      else do {
        out \<leftarrow> (if n > 1
                then map_option (\<lambda>bs. a85_out st @ bs)
                       (ascii85_group (take n (a85_group st) @ replicate (5 - n) 84) (n - 1))
                else Some (a85_out st));
        if out = [] then None else Some out })"

definition ascii85_decode :: "str \<Rightarrow> str option" where
  "ascii85_decode run =
     (let trimmed = trim run;
          body = (case Option.bind (strip_prefix ''<~'' trimmed) (strip_suffix ''~>'') of
                    Some inner \<Rightarrow> inner | None \<Rightarrow> trimmed)
      in Option.bind
           (ascii85_loop \<lparr>a85_out = [], a85_group = replicate 5 0, a85_group_len = 0\<rparr>
              (filter (\<lambda>b. \<not> is_ascii_whitespace b) body))
           ascii85_finish)"

definition RFC1924_BASE85_ALPHABET :: str where
  "RFC1924_BASE85_ALPHABET =
    ''0123456789ABCDEFGHIJKLMNOPQRSTUVWXYZabcdefghijklmnopqrstuvwxyz!#$%&()*+-;<=>?@^_`{|}~''"

definition Z85_ALPHABET :: str where
  "Z85_ALPHABET =
    ''0123456789abcdefghijklmnopqrstuvwxyzABCDEFGHIJKLMNOPQRSTUVWXYZ.-:+=^!/*?&<>()[]{}@%$#''"

text \<open>The \<open>while\<close> loop of the constant function that inverts an alphabet.\<close>

fun base85_reverse_from :: "str \<Rightarrow> nat \<Rightarrow> nat list \<Rightarrow> nat list" where
  "base85_reverse_from [] value reverse = reverse"
| "base85_reverse_from (c # cs) value reverse =
     base85_reverse_from cs (value + 1) (reverse[code c := value])"

definition base85_reverse :: "str \<Rightarrow> nat list" where
  "base85_reverse alphabet = base85_reverse_from alphabet 0 (replicate 128 255)"

definition base85_digit :: "nat list \<Rightarrow> byte \<Rightarrow> nat option" where
  "base85_digit reverse b =
     (if \<not> is_ascii b \<or> reverse ! code b = 255 then None else Some (reverse ! code b))"

definition is_rfc1924_base85_byte :: "byte \<Rightarrow> bool" where
  "is_rfc1924_base85_byte b \<longleftrightarrow>
     is_ascii b \<and> base85_reverse RFC1924_BASE85_ALPHABET ! code b \<noteq> 255"

definition is_z85_byte :: "byte \<Rightarrow> bool" where
  "is_z85_byte b \<longleftrightarrow> is_ascii b \<and> base85_reverse Z85_ALPHABET ! code b \<noteq> 255"

definition base85_chunk :: "nat list \<Rightarrow> str \<Rightarrow> str option" where
  "base85_chunk reverse chunk = do {
     digits \<leftarrow> try_map (base85_digit reverse) chunk;
     ascii85_group (digits @ replicate (5 - length digits) 84) (min (length chunk - 1) 4) }"

definition decode_fixed_base85 :: "str \<Rightarrow> nat list \<Rightarrow> bool \<Rightarrow> str option" where
  "decode_fixed_base85 run reverse allow_partial =
     (if run = [] \<or> (\<not> allow_partial \<and> length run mod 5 \<noteq> 0) then None
      else if length run mod 5 = 1 then None
      else map_option concat (try_map (base85_chunk reverse) (chunks 5 run)))"

definition base85_decode :: "str \<Rightarrow> str option" where
  "base85_decode run = decode_fixed_base85 run (base85_reverse RFC1924_BASE85_ALPHABET) True"

definition z85_decode :: "str \<Rightarrow> str option" where
  "z85_decode run = decode_fixed_base85 run (base85_reverse Z85_ALPHABET) False"

section \<open>Chunking\<close>

lemma chunks_Nil [simp]: "chunks n [] = []"
  by (simp add: chunks.simps)

lemma chunks_append: "0 < n \<Longrightarrow> length xs = n \<Longrightarrow> chunks n (xs @ ys) = xs # chunks n ys"
  by (subst chunks.simps) auto

lemma chunks_short: "xs \<noteq> [] \<Longrightarrow> length xs \<le> n \<Longrightarrow> chunks n xs = [xs]"
  by (subst chunks.simps) (cases n; auto)

lemma chunks_concat_map:
  "0 < n \<Longrightarrow> (\<And>x. length (f x) = n) \<Longrightarrow> chunks n (concat (map f xs)) = map f xs"
  by (induction xs) (simp_all add: chunks_append)

lemma length_concat_map: "(\<And>x. length (f x) = n) \<Longrightarrow> length (concat (map f xs)) = n * length xs"
  by (induction xs) simp_all

lemma try_map_inverse: "(\<And>x. f (g x) = Some x) \<Longrightarrow> try_map f (map g xs) = Some xs"
  by (induction xs) simp_all

lemma length_try_map: "try_map f xs = Some ys \<Longrightarrow> length ys = length xs"
  by (induction xs arbitrary: ys) (auto split: bind_splits)

lemma try_map_append:
  "try_map f (xs @ ys) = do { a \<leftarrow> try_map f xs; b \<leftarrow> try_map f ys; Some (a @ b) }"
  by (induction xs) (auto split: bind_splits)

text \<open>Folding the base-\<open>b\<close> digits of a number that fits gives the number, with no overflow.\<close>

lemma fold_digits:
  assumes "n < 2 ^ w" and "0 < base"
  shows "try_fold_digits w base (n div base ^ k) (map (\<lambda>i. n div base ^ i mod base) (rev [0..<k]))
    = Some n"
proof (induction k)
  case (Suc k)
  have split: "n div base ^ Suc k * base + n div base ^ k mod base = n div base ^ k"
    by (metis div_mod_decomp div_mult2_eq mult.commute power_Suc)
  moreover have "n div base ^ k < 2 ^ w"
    using assms(1) div_le_dividend le_less_trans by blast
  ultimately have "checked w (n div base ^ Suc k * base) = Some (n div base ^ Suc k * base)"
    "checked w (n div base ^ Suc k * base + n div base ^ k mod base) = Some (n div base ^ k)"
    by (simp_all add: checked_def)
  then show ?case using Suc by (simp del: power_Suc)
qed simp


section \<open>Reference encoders and round trips\<close>

definition percent_encode_byte :: "byte \<Rightarrow> str" where
  "percent_encode_byte b =
     [CHR ''%'', hex_digit_char (code b div 16), hex_digit_char (code b mod 16)]"

definition percent_encode :: "str \<Rightarrow> str" where
  "percent_encode v = concat (map percent_encode_byte v)"

definition binary_encode_byte :: "byte \<Rightarrow> str" where
  "binary_encode_byte b =
     map (\<lambda>i. if code b div 2 ^ i mod 2 = 1 then CHR ''1'' else CHR ''0'') (rev [0..<8])"

definition binary_encode :: "str \<Rightarrow> str" where
  "binary_encode v = concat (map binary_encode_byte v)"

definition octal_encode_byte :: "byte \<Rightarrow> str" where
  "octal_encode_byte b =
     map (\<lambda>d. char_of (48 + d)) [code b div 64, code b div 8 mod 8, code b mod 8]"

definition octal_encode :: "str \<Rightarrow> str" where
  "octal_encode v = concat (map octal_encode_byte v)"

lemma hex_nibble_char: "n < 16 \<Longrightarrow> hex_nibble (hex_digit_char n) = Some n"
proof -
  have "list_all (\<lambda>n. hex_nibble (hex_digit_char n) = Some n) [0..<16]" by code_simp
  then show "n < 16 \<Longrightarrow> hex_nibble (hex_digit_char n) = Some n" by (simp add: list_all_iff)
qed

lemma or_nibbles: "l < 16 \<Longrightarrow> push_bit 4 h OR l = h * 16 + (l :: nat)"
proof -
  assume l: "l < 16"
  have "\<not> bit (push_bit 4 h) n \<or> \<not> bit l n" for n
  proof (cases "n < 4")
    case False
    then have "(2 :: nat) ^ 4 \<le> 2 ^ n" by (intro power_increasing) auto
    with l have "l < 2 ^ n" by simp
    then show ?thesis by (simp add: bit_nat_def)
  qed (simp add: bit_push_bit_iff)
  then have "push_bit 4 h + l = push_bit 4 h OR l" by (rule disjunctive_add)
  then show ?thesis by (simp add: push_bit_eq_mult)
qed

lemma percent_chunk_encode: "percent_chunk (percent_encode_byte b) = Some b"
proof -
  have "code b div 16 < 16" using code_less_256 [of b] by (simp del: code_less_256)
  then show ?thesis
    by (simp add: percent_chunk_def percent_encode_byte_def hex_nibble_char or_nibbles
        div_mult_mod_eq)
qed

lemma binary_chunk_encode: "binary_chunk (binary_encode_byte b) = Some b"
proof -
  have "map (\<lambda>c. if c = CHR ''1'' then 1 else 0) (binary_encode_byte b)
      = map (\<lambda>i. code b div 2 ^ i mod 2) (rev [0..<8])"
    unfolding binary_encode_byte_def map_map by (intro map_cong) auto
  moreover have "code b div 2 ^ 8 = 0" using code_less_256 [of b] by simp
  ultimately show ?thesis
    using fold_digits [of "code b" 8 2 8] by (simp add: binary_chunk_def del: upt_rec_numeral)
qed

lemma code_digit: "n \<le> 7 \<Longrightarrow> code (char_of (48 + n)) = 48 + n"
  by simp

lemma mod_8_le: "(n :: nat) mod 8 \<le> 7"
  using mod_less_divisor [of 8 n] by linarith

lemma octal_digits: "code b div 64 \<le> 7" "code b div 8 mod 8 \<le> 7" "code b mod 8 \<le> 7"
proof -
  show "code b div 64 \<le> 7" using code_less_256 [of b] by (simp del: code_less_256)
qed (rule mod_8_le)+

lemma octal_chunk_encode: "octal_chunk (octal_encode_byte b) = Some b"
proof -
  have "code b div 64 * 64 + code b div 8 mod 8 * 8 + code b mod 8 = code b"
  proof -
    have "code b div 64 = code b div 8 div 8" by (simp add: div_mult2_eq)
    then show ?thesis
      using div_mod_decomp [of "code b div 8" 8] div_mod_decomp [of "code b" 8] by linarith
  qed
  then have "octal_chunk (octal_encode_byte b) = map_option char_of (checked 8 (code b))"
    unfolding octal_chunk_def octal_encode_byte_def Let_def list.map nth_Cons_0 nth_Cons_numeral
      One_nat_def nth_Cons_Suc
    using octal_digits [of b] by (simp only: code_digit numeral_2_eq_2 nth_Cons_Suc nth_Cons_0
        add_diff_cancel_left' diff_Suc_Suc diff_zero)
  then show ?thesis by (simp add: checked_def)
qed

lemma binary_encode_alphabet:
  "list_all (\<lambda>b. b = CHR ''0'' \<or> b = CHR ''1'') (binary_encode v)"
  by (auto simp: binary_encode_def binary_encode_byte_def list_all_iff)

lemma octal_encode_alphabet: "list_all (byte_between 48 55) (octal_encode v)"
proof -
  have "byte_between 48 55 (char_of (48 + n))" if "n \<le> 7" for n :: nat
    unfolding byte_between_def code_digit [OF that] using that by simp
  then have "list_all (byte_between 48 55) (octal_encode_byte b)" for b
    using octal_digits [of b] by (simp only: octal_encode_byte_def list.map list.pred_inject simp_thms)
  then show ?thesis by (auto simp: octal_encode_def list_all_iff)
qed

lemma length_encode_bytes:
  "length (percent_encode v) = 3 * length v" "length (binary_encode v) = 8 * length v"
  "length (octal_encode v) = 3 * length v"
  unfolding percent_encode_def binary_encode_def octal_encode_def
  by (rule length_concat_map;
      simp add: percent_encode_byte_def binary_encode_byte_def octal_encode_byte_def)+

lemma chunks_encode_bytes:
  "chunks 3 (percent_encode v) = map percent_encode_byte v"
  "chunks 8 (binary_encode v) = map binary_encode_byte v"
  "chunks 3 (octal_encode v) = map octal_encode_byte v"
  unfolding percent_encode_def binary_encode_def octal_encode_def
  by (rule chunks_concat_map;
      simp add: percent_encode_byte_def binary_encode_byte_def octal_encode_byte_def)+



section \<open>Base 85: groups\<close>

definition digits85 :: "nat \<Rightarrow> nat list" where
  "digits85 v = map (\<lambda>i. v div 85 ^ i mod 85) (rev [0..<5])"

definition be_value :: "nat list \<Rightarrow> nat" where
  "be_value bs = foldl (\<lambda>acc b. acc * 256 + b) 0 bs"

definition base85_encode_chunk :: "str \<Rightarrow> str \<Rightarrow> str" where
  "base85_encode_chunk alphabet chunk =
     map (\<lambda>d. alphabet ! d)
       (take (length chunk + 1)
         (digits85 (be_value (map code chunk @ replicate (4 - length chunk) 0))))"

definition base85_encode :: "str \<Rightarrow> str \<Rightarrow> str" where
  "base85_encode alphabet v = concat (map (base85_encode_chunk alphabet) (chunks 4 v))"

lemma length_digits85 [simp]: "length (digits85 v) = 5"
  by (simp add: digits85_def)

lemma digits85_less: "d \<in> set (digits85 v) \<Longrightarrow> d < 85"
  by (auto simp: digits85_def)

lemma ascii85_group_digits:
  assumes "v < 2 ^ 32"
  shows "ascii85_group (digits85 v) n = Some (take n (be_bytes v))"
proof -
  have "v div 85 ^ 5 = 0" using assms by simp
  then have "try_fold_digits 64 85 0 (digits85 v) = Some v"
    using fold_digits [of v 64 85 5] assms by (simp add: digits85_def del: upt_rec_numeral)
  then show ?thesis using assms by (simp add: ascii85_group_def checked_def)
qed

text \<open>Filling a group up with the digit 84 adds less than one unit of the last byte kept.\<close>

lemma pad_high:
  fixes q b :: nat
  assumes "0 < b" and "k \<le> i"
  shows "(n div b ^ k * b ^ k + (b ^ k - 1)) div b ^ i = n div b ^ i"
proof -
  have split: "b ^ i = b ^ k * b ^ (i - k)"
    using assms(2) by (simp flip: power_add)
  have "(b ^ k - 1 + n div b ^ k * b ^ k) div b ^ k = n div b ^ k"
    using assms(1) by (subst div_mult_self1) simp_all
  then have "(n div b ^ k * b ^ k + (b ^ k - 1)) div b ^ k = n div b ^ k"
    by (simp only: add.commute)
  then show ?thesis by (simp add: split div_mult2_eq)
qed

lemma pad_low:
  fixes q b :: nat
  assumes "0 < b" and "i < k"
  shows "(q * b ^ k + (b ^ k - 1)) div b ^ i mod b = b - 1"
proof -
  define M where "M = (q + 1) * b ^ (k - Suc i)"
  have "b ^ k = b ^ i * (b * b ^ (k - Suc i))"
    using assms(2) by (simp flip: power_add power_Suc)
  then have eq: "q * b ^ k + (b ^ k - 1) = M * b * b ^ i - 1" and pos: "0 < M"
    using assms(1) by (auto simp: M_def algebra_simps)
  obtain m where m: "M * b = Suc m" using pos assms(1) by (cases "M * b") auto
  have "(M * b * b ^ i - 1) div b ^ i = m"
  proof (rule div_nat_eqI)
    have "0 < b ^ i" using assms(1) by simp
    then show "b ^ i * m \<le> M * b * b ^ i - 1" "M * b * b ^ i - 1 < b ^ i * Suc m"
      unfolding m by (simp_all add: le_diff_conv2 Suc_le_eq mult.commute)
  qed
  moreover have "m mod b = b - 1"
  proof -
    obtain M' where "M = Suc M'" using pos by (cases M) auto
    then have "m = M' * b + (b - 1)" using m assms(1) by (simp add: algebra_simps)
    then have "m mod b = (b - 1) mod b" by (simp only: mod_mult_self3)
    then show ?thesis using assms(1) by simp
  qed
  ultimately show ?thesis using eq by simp
qed

lemma digits85_pad:
  assumes "k < 5"
  shows "take (5 - k) (digits85 v) @ replicate k 84
    = digits85 (v div 85 ^ k * 85 ^ k + (85 ^ k - 1))" (is "_ = digits85 ?w")
proof -
  have split: "rev [0..<5] = rev [k..<5] @ rev [0..<k]"
    using assms upt_add_eq_append [of 0 k "5 - k"] by (simp flip: rev_append)
  have "map (\<lambda>i. ?w div 85 ^ i mod 85) (rev [k..<5]) = map (\<lambda>i. v div 85 ^ i mod 85) (rev [k..<5])"
    by (intro map_cong refl) (subst pad_high; simp)
  moreover have "map (\<lambda>i. ?w div 85 ^ i mod 85) (rev [0..<k]) = map (\<lambda>_. 84) (rev [0..<k])"
    using pad_low [of 85] by (intro map_cong refl) simp
  ultimately show ?thesis
    unfolding digits85_def split by (simp add: map_replicate_const rev_map)
qed

text \<open>Bytes from a value: a value that agrees above bit \<open>8 k\<close> has the same leading bytes.\<close>

lemma be_bytes_take:
  assumes "w div 256 ^ k = v div 256 ^ k" and "k \<le> 4"
  shows "take (4 - k) (be_bytes w) = take (4 - k) (be_bytes v)"
proof -
  have "w div 256 ^ i = v div 256 ^ i" if "k \<le> i" for i
  proof -
    have "(256 :: nat) ^ i = 256 ^ k * 256 ^ (i - k)"
      using that by (simp flip: power_add)
    then show ?thesis using assms(1) by (simp add: div_mult2_eq)
  qed
  note eq = this
  consider "k = 0" | "k = 1" | "k = 2" | "k = 3" | "k = 4" using assms(2) by linarith
  then show ?thesis
  proof cases
    case 1
    then show ?thesis using assms(1) by simp
  next
    case 2
    then show ?thesis using eq [of 1] eq [of 2] eq [of 3] by (simp add: be_bytes_def)
  next
    case 3
    then show ?thesis using eq [of 2] eq [of 3] by (simp add: be_bytes_def)
  next
    case 4
    then show ?thesis using eq [of 3] by (simp add: be_bytes_def)
  qed simp
qed

lemma length_4: "length xs = 4 \<Longrightarrow> \<exists>a b c d. xs = [a, b, c, d]"
  by (auto simp: numeral_eq_Suc length_Suc_conv)

lemma be_value_snoc: "be_value (bs @ [b]) = be_value bs * 256 + b"
  by (simp add: be_value_def)

lemma be_value_zeros: "be_value (bs @ replicate k 0) = be_value bs * 256 ^ k"
proof (induction k)
  case (Suc k)
  have "bs @ replicate (Suc k) 0 = (bs @ replicate k 0) @ [0]"
    by (simp add: replicate_append_same)
  then show ?case using Suc by (simp only: be_value_snoc) simp
qed simp

lemma be_value_bound: "(\<And>b. b \<in> set bs \<Longrightarrow> b < 256) \<Longrightarrow> be_value bs < 256 ^ length bs"
proof (induction bs rule: rev_induct)
  case Nil
  then show ?case by (simp add: be_value_def)
next
  case (snoc b bs)
  then have "be_value bs + 1 \<le> 256 ^ length bs" "b < 256" by (simp_all add: Suc_le_eq)
  then have "(be_value bs + 1) * 256 \<le> 256 ^ length bs * 256" by simp
  then show ?case using \<open>b < 256\<close> by (simp add: be_value_snoc)
qed

lemma div_add_mod_256: "b < 256 \<Longrightarrow> (a * 256 + b) div 256 = a" "b < 256 \<Longrightarrow> (a * 256 + b) mod 256 = (b :: nat)"
  by simp_all

lemma be_bytes_value:
  "be_bytes (be_value [code a, code b, code c, code d]) = [a, b, c, d]"
proof -
  let ?v = "be_value [code a, code b, code c, code d]"
  have v: "?v = ((code a * 256 + code b) * 256 + code c) * 256 + code d"
    by (simp add: be_value_def)
  have "?v div 2 ^ 8 = (code a * 256 + code b) * 256 + code c"
  proof -
    have e: "(2 :: nat) ^ 8 = 256" by simp
    show ?thesis unfolding v e by (rule div_add_mod_256) simp
  qed
  moreover have "?v div 2 ^ 16 = code a * 256 + code b"
  proof -
    have "?v div 2 ^ 16 = ?v div 2 ^ 8 div 256" by (simp flip: div_mult2_eq)
    then show ?thesis unfolding calculation by (simp only: div_add_mod_256 code_less_256)
  qed
  moreover from this have "?v div 2 ^ 24 = code a"
  proof -
    have "?v div 2 ^ 24 = ?v div 2 ^ 16 div 256" by (simp flip: div_mult2_eq)
    then show ?thesis unfolding \<open>?v div 2 ^ 16 = _\<close> by (simp only: div_add_mod_256 code_less_256)
  qed
  moreover have "?v mod 256 = code d"
    unfolding v by (rule div_add_mod_256) simp
  moreover have "((code a * 256 + code b) * 256 + code c) mod 256 = code c"
    "(code a * 256 + code b) mod 256 = code b"
    by (rule div_add_mod_256; simp)+
  ultimately show ?thesis
    unfolding be_bytes_def by (simp only: char_of_char mod_less code_less_256)
qed

text \<open>
  Decoding the digits of one encoded group gives its bytes back, partial groups included:
  the value the decoder rebuilds differs from the encoder's only below the last byte kept.
\<close>

lemma ascii85_group_roundtrip:
  assumes "chunk \<noteq> []" and "length chunk \<le> 4"
  defines "v \<equiv> be_value (map code chunk @ replicate (4 - length chunk) 0)"
  shows "ascii85_group (take (length chunk + 1) (digits85 v) @ replicate (4 - length chunk) 84)
    (length chunk) = Some chunk"
proof -
  let ?n = "length chunk"
  define k B where "k = 4 - ?n" and "B = be_value (map code chunk)"
  let ?w = "v div 85 ^ k * 85 ^ k + (85 ^ k - 1)"
  have vB: "v = B * 256 ^ k" unfolding v_def B_def k_def by (rule be_value_zeros)
  have B: "B + 1 \<le> 256 ^ ?n"
    using be_value_bound [of "map code chunk"] by (fastforce simp: B_def Suc_le_eq)
  have "v < v div 85 ^ k * 85 ^ k + 85 ^ k"
    using dividend_less_div_times [of "85 ^ k" v] by simp
  then have lower: "v \<le> ?w" by simp
  have "v div 85 ^ k * 85 ^ k \<le> v" by simp
  moreover have "(85 :: nat) ^ k \<le> 256 ^ k" by (rule power_mono) auto
  moreover have "(0 :: nat) < 85 ^ k" by simp
  ultimately have upper: "?w < v + 256 ^ k" by linarith
  have "?w div 256 ^ k = B"
  proof (rule div_nat_eqI)
    show "256 ^ k * B \<le> ?w" using lower vB by (simp add: mult.commute)
    show "?w < 256 ^ k * Suc B" using upper vB by (simp add: algebra_simps)
  qed
  then have same: "?w div 256 ^ k = v div 256 ^ k" using vB by simp
  have "(B + 1) * 256 ^ k \<le> 256 ^ ?n * 256 ^ k" using B by (rule mult_right_mono) simp
  also have "\<dots> = (2 :: nat) ^ 32"
    using assms(2) by (simp add: k_def flip: power_add)
  finally have "?w < 2 ^ 32" using upper vB by (simp add: algebra_simps)
  then have "ascii85_group (digits85 ?w) ?n = Some (take ?n (be_bytes ?w))"
    by (rule ascii85_group_digits)
  moreover have "take (4 - k) (be_bytes ?w) = take (4 - k) (be_bytes v)"
    using same by (rule be_bytes_take) (simp add: k_def)
  moreover have "4 - k = ?n" "5 - k = ?n + 1" "k < 5"
    using assms(1,2) by (auto simp: k_def Suc_le_eq)
  moreover have "take ?n (be_bytes v) = chunk"
  proof -
    have "map code chunk @ replicate k 0 = map code (chunk @ replicate k (char_of (0 :: nat)))"
      by simp
    then have "v = be_value (map code (chunk @ replicate k (char_of (0 :: nat))))"
      unfolding v_def k_def by (simp only:)
    moreover obtain a b c d where "chunk @ replicate k (char_of (0 :: nat)) = [a, b, c, d]"
    proof -
      have "length (chunk @ replicate k (char_of (0 :: nat))) = 4"
        using assms(2) by (simp add: k_def)
      then show thesis using that length_4 by blast
    qed
    ultimately have "be_bytes v = chunk @ replicate k (char_of (0 :: nat))"
      using be_bytes_value [of a b c d] by (simp only: list.map)
    then show ?thesis by simp
  qed
  ultimately show ?thesis
    using digits85_pad [of k v] unfolding k_def by metis
qed


section \<open>Base 85: alphabets and streams\<close>

text \<open>What the decoder needs of an alphabet: 85 distinct ASCII bytes, inverted by the table.\<close>

locale base85_table =
  fixes alphabet :: str and reverse :: "nat list"
  assumes length_alphabet: "length alphabet = 85"
    and digit_inverse: "d < 85 \<Longrightarrow> base85_digit reverse (alphabet ! d) = Some d"
begin

lemma digits_inverse: "(\<And>d. d \<in> set ds \<Longrightarrow> d < 85) \<Longrightarrow>
    try_map (base85_digit reverse) (map ((!) alphabet) ds) = Some ds"
  by (induction ds) (simp_all add: digit_inverse)

lemma chunk_inverse:
  assumes "chunk \<noteq> []" and "length chunk \<le> 4"
  shows "base85_chunk reverse (base85_encode_chunk alphabet chunk) = Some chunk"
proof -
  let ?ds = "take (length chunk + 1)
      (digits85 (be_value (map code chunk @ replicate (4 - length chunk) 0)))"
  have len: "length ?ds = length chunk + 1" using assms(2) by simp
  have "try_map (base85_digit reverse) (base85_encode_chunk alphabet chunk) = Some ?ds"
    unfolding base85_encode_chunk_def
    by (rule digits_inverse) (meson digits85_less in_set_takeD)
  moreover have "length (base85_encode_chunk alphabet chunk) = length chunk + 1"
    using len by (simp add: base85_encode_chunk_def)
  moreover have "5 - (length chunk + 1) = 4 - length chunk" "min (length chunk + 1 - 1) 4 = length chunk"
    using assms(2) by auto
  ultimately show ?thesis
    using ascii85_group_roundtrip [OF assms] len
    by (simp only: base85_chunk_def Option.bind.bind_lunit)
qed

lemma length_encode_chunk:
  "length chunk \<le> 4 \<Longrightarrow> length (base85_encode_chunk alphabet chunk) = length chunk + 1"
  by (simp add: base85_encode_chunk_def)

lemma stream_inverse:
  "map_option concat (try_map (base85_chunk reverse) (chunks 5 (base85_encode alphabet v))) = Some v
   \<and> length (base85_encode alphabet v) = (length v div 4) * 5
       + (if length v mod 4 = 0 then 0 else length v mod 4 + 1)"
proof (induction v rule: length_induct)
  case (1 v)
  show ?case
  proof (cases "length v < 5")
    case True
    show ?thesis
    proof (cases "v = []")
      case False
      then have enc: "base85_encode alphabet v = base85_encode_chunk alphabet v"
        using True chunks_short [of v 4] by (simp add: base85_encode_def)
      have "chunks 5 (base85_encode_chunk alphabet v) = [base85_encode_chunk alphabet v]"
        using True length_encode_chunk [of v] by (intro chunks_short) auto
      moreover have "length v = 4 \<or> length v < 4" using True by linarith
      ultimately show ?thesis
        using chunk_inverse [of v] False True length_encode_chunk [of v] enc by auto
    qed (simp add: base85_encode_def)
  next
    case False
    let ?a = "take 4 v" and ?b = "drop 4 v"
    have ne: "v \<noteq> []" and a: "?a \<noteq> []" "length ?a = 4" using False by auto
    have enc: "base85_encode alphabet v = base85_encode_chunk alphabet ?a @ base85_encode alphabet ?b"
      unfolding base85_encode_def using ne by (subst chunks.simps) simp
    have len: "length (base85_encode_chunk alphabet ?a) = 5"
      using length_encode_chunk [of ?a] a by simp
    have IH: "map_option concat (try_map (base85_chunk reverse) (chunks 5 (base85_encode alphabet ?b)))
        = Some ?b \<and> length (base85_encode alphabet ?b) = (length ?b div 4) * 5
          + (if length ?b mod 4 = 0 then 0 else length ?b mod 4 + 1)"
      using "1.IH" False by simp
    have "chunks 5 (base85_encode alphabet v)
        = base85_encode_chunk alphabet ?a # chunks 5 (base85_encode alphabet ?b)"
      unfolding enc using len by (intro chunks_append) auto
    moreover have "base85_chunk reverse (base85_encode_chunk alphabet ?a) = Some ?a"
      using a by (intro chunk_inverse) auto
    ultimately have 1: "map_option concat (try_map (base85_chunk reverse)
        (chunks 5 (base85_encode alphabet v))) = Some v"
      using IH by (auto split: bind_splits)
    have "length v div 4 = length ?b div 4 + 1" "length v mod 4 = length ?b mod 4"
      using False by (simp_all add: le_div_geq le_mod_geq)
    then have "length (base85_encode alphabet v) = (length v div 4) * 5
        + (if length v mod 4 = 0 then 0 else length v mod 4 + 1)"
      unfolding enc length_append len using IH by simp
    with 1 show ?thesis by blast
  qed
qed

lemma decode_inverse:
  assumes "v \<noteq> []" and "allow_partial \<or> length v mod 4 = 0"
  shows "decode_fixed_base85 (base85_encode alphabet v) reverse allow_partial = Some v"
proof -
  let ?e = "base85_encode alphabet v"
  have dec: "map_option concat (try_map (base85_chunk reverse) (chunks 5 ?e)) = Some v"
    and len: "length ?e = (length v div 4) * 5 + (if length v mod 4 = 0 then 0 else length v mod 4 + 1)"
    using stream_inverse [of v] by blast+
  have "length v div 4 * 4 + length v mod 4 = length v" by simp
  then have "?e \<noteq> []" using len assms(1) by (auto split: if_splits)
  moreover have "length v mod 4 < 4" by simp
  ultimately show ?thesis
    using dec assms(2) unfolding decode_fixed_base85_def by (auto simp: len mod_mult_self3)
qed

end

lemma length_base85_reverse_from: "length (base85_reverse_from cs n tab) = length tab"
  by (induction cs n tab rule: base85_reverse_from.induct) simp_all

lemma base85_reverse_from_other:
  "c \<notin> set cs \<Longrightarrow> base85_reverse_from cs n tab ! code c = tab ! code c"
  by (induction cs n tab rule: base85_reverse_from.induct) (auto simp: nth_list_update)

lemma base85_reverse_from_nth:
  assumes "distinct cs" and "\<And>c. c \<in> set cs \<Longrightarrow> code c < length tab" and "i < length cs"
  shows "base85_reverse_from cs n tab ! code (cs ! i) = n + i"
  using assms
proof (induction cs n tab arbitrary: i rule: base85_reverse_from.induct)
  case (2 c cs m tab)
  then show ?case
    by (cases i) (simp_all add: base85_reverse_from_other)
qed simp

lemma base85_digit_alphabet:
  assumes "distinct cs" and "list_all is_ascii cs" and "length cs = 85" and "d < 85"
  shows "base85_digit (base85_reverse cs) (cs ! d) = Some d"
proof -
  have "is_ascii (cs ! d)" using assms by (simp add: list_all_length)
  moreover have "base85_reverse cs ! code (cs ! d) = 0 + d"
    unfolding base85_reverse_def using assms
    by (intro base85_reverse_from_nth) (auto simp: list_all_iff is_ascii_def)
  ultimately show ?thesis using assms(4) by (simp add: base85_digit_def)
qed

lemma alphabets:
  "length RFC1924_BASE85_ALPHABET = 85" "length Z85_ALPHABET = 85"
  "list_all is_ascii RFC1924_BASE85_ALPHABET" "list_all is_ascii Z85_ALPHABET"
  "distinct RFC1924_BASE85_ALPHABET" "distinct Z85_ALPHABET"
  by code_simp+

interpretation rfc1924: base85_table RFC1924_BASE85_ALPHABET "base85_reverse RFC1924_BASE85_ALPHABET"
  by unfold_locales (simp_all add: alphabets base85_digit_alphabet)

interpretation z85: base85_table Z85_ALPHABET "base85_reverse Z85_ALPHABET"
  by unfold_locales (simp_all add: alphabets base85_digit_alphabet)

section \<open>Ascii85\<close>

definition ascii85_digit :: "nat \<Rightarrow> byte" where
  "ascii85_digit d = char_of (33 + d)"

definition ascii85_encode_chunk :: "str \<Rightarrow> str" where
  "ascii85_encode_chunk chunk =
     (if chunk = replicate 4 (char_of (0 :: nat)) then ''z''
      else map ascii85_digit
        (take (length chunk + 1)
          (digits85 (be_value (map code chunk @ replicate (4 - length chunk) 0)))))"

definition ascii85_encode :: "str \<Rightarrow> str" where
  "ascii85_encode v = concat (map ascii85_encode_chunk (chunks 4 v))"

lemma ascii85_digit_code: "d < 85 \<Longrightarrow> code (ascii85_digit d) = 33 + d"
  by (simp add: ascii85_digit_def)

lemma ascii85_digit_not_z: "d < 85 \<Longrightarrow> ascii85_digit d \<noteq> CHR ''z''"
  unfolding char_lit_eq by (simp add: ascii85_digit_code)

lemma ascii85_step_digit:
  assumes "d < 85"
  shows "ascii85_step st (ascii85_digit d) =
    (let grp = (a85_group st)[a85_group_len st := d]; n = a85_group_len st + 1
     in if n = 5 then map_option (\<lambda>bs. st\<lparr>a85_out := a85_out st @ bs, a85_group := grp,
                 a85_group_len := 0\<rparr>) (ascii85_group grp 4)
        else Some (st\<lparr>a85_group := grp, a85_group_len := n\<rparr>))"
  using assms ascii85_digit_not_z [OF assms]
  by (simp add: ascii85_step_def byte_between_def ascii85_digit_code Let_def)

lemma ascii85_loop_partial:
  assumes "length (a85_group st) = 5" and "a85_group_len st + length ds < 5"
    and "\<And>d. d \<in> set ds \<Longrightarrow> d < 85"
  shows "\<exists>grp. length grp = 5 \<and>
     take (a85_group_len st + length ds) grp = take (a85_group_len st) (a85_group st) @ ds \<and>
     ascii85_loop st (map ascii85_digit ds @ rest) =
       ascii85_loop (st\<lparr>a85_group := grp, a85_group_len := a85_group_len st + length ds\<rparr>) rest"
  using assms
proof (induction ds arbitrary: st)
  case Nil
  then show ?case by (intro exI [of _ "a85_group st"]) simp
next
  case (Cons d ds)
  let ?st = "st\<lparr>a85_group := (a85_group st)[a85_group_len st := d], a85_group_len := a85_group_len st + 1\<rparr>"
  have "a85_group_len st + 1 \<noteq> 5" using Cons.prems(2) by simp
  then have step: "ascii85_step st (ascii85_digit d) = Some ?st"
    using Cons.prems(3) by (simp add: ascii85_step_digit Let_def)
  have "a85_group_len st < 5" using Cons.prems(2) by simp
  then have pre: "take (a85_group_len ?st) (a85_group ?st) = take (a85_group_len st) (a85_group st) @ [d]"
    using Cons.prems(1) by (simp add: take_Suc_conv_app_nth)
  obtain grp where "length grp = 5"
    "take (a85_group_len ?st + length ds) grp = take (a85_group_len ?st) (a85_group ?st) @ ds"
    "ascii85_loop ?st (map ascii85_digit ds @ rest) =
       ascii85_loop (?st\<lparr>a85_group := grp, a85_group_len := a85_group_len ?st + length ds\<rparr>) rest"
    using Cons.IH [of ?st] Cons.prems by auto
  then show ?case
    using step pre by (intro exI [of _ grp]) simp
qed

lemma ascii85_loop_full:
  assumes "length (a85_group st) = 5" and "a85_group_len st = 0" and "length ds = 5"
    and "\<And>d. d \<in> set ds \<Longrightarrow> d < 85" and "ascii85_group ds 4 = Some bs"
  shows "ascii85_loop st (map ascii85_digit ds @ rest) =
    ascii85_loop (st\<lparr>a85_out := a85_out st @ bs, a85_group := ds, a85_group_len := 0\<rparr>) rest"
proof -
  obtain es d where ds: "ds = es @ [d]" "length es = 4"
    using assms(3) by (metis append_butlast_last_id length_butlast length_0_conv numeral_eq_Suc
        diff_Suc_1 zero_neq_numeral pred_numeral_simps(2,3) Num.BitM.simps)
  obtain grp where grp: "length grp = 5" "take 4 grp = es"
    "ascii85_loop st (map ascii85_digit es @ ascii85_digit d # rest) =
       ascii85_loop (st\<lparr>a85_group := grp, a85_group_len := 4\<rparr>) (ascii85_digit d # rest)"
    using ascii85_loop_partial [of st es "ascii85_digit d # rest"] assms ds by auto
  have "grp[4 := d] = take 4 grp @ [d]"
    using grp(1) upd_conv_take_nth_drop [of 4 grp d] by simp
  then show ?thesis
    using grp assms(4,5) ds by (simp add: ascii85_step_digit)
qed

lemma ascii85_chunk_ds:
  assumes "chunk \<noteq> []" and "length chunk \<le> 4"
  defines "ds \<equiv> take (length chunk + 1)
    (digits85 (be_value (map code chunk @ replicate (4 - length chunk) 0)))"
  shows "length ds = length chunk + 1" and "\<And>d. d \<in> set ds \<Longrightarrow> d < 85"
    and "ascii85_group (ds @ replicate (4 - length chunk) 84) (length chunk) = Some chunk"
  using assms ascii85_group_roundtrip [OF assms(1,2)] digits85_less
  by (auto simp: ds_def dest: in_set_takeD)

lemma ascii85_loop_chunk:
  assumes "length (a85_group st) = 5" and "a85_group_len st = 0" and "length chunk = 4"
  shows "\<exists>grp. length grp = 5 \<and> ascii85_loop st (ascii85_encode_chunk chunk @ rest) =
    ascii85_loop (st\<lparr>a85_out := a85_out st @ chunk, a85_group := grp, a85_group_len := 0\<rparr>) rest"
proof (cases "chunk = replicate 4 (char_of (0 :: nat))")
  case True
  obtain out grp where st: "st = \<lparr>a85_out = out, a85_group = grp, a85_group_len = 0\<rparr>"
    using assms(2) by (cases st) simp
  then show ?thesis
    using True assms(1)
    by (intro exI [of _ grp]) (simp add: ascii85_encode_chunk_def ascii85_step_def)
next
  case False
  let ?ds = "take (length chunk + 1)
    (digits85 (be_value (map code chunk @ replicate (4 - length chunk) 0)))"
  have "chunk \<noteq> []" "length chunk \<le> 4" using assms(3) by auto
  note ds = ascii85_chunk_ds [OF this]
  have "ascii85_loop st (map ascii85_digit ?ds @ rest) =
    ascii85_loop (st\<lparr>a85_out := a85_out st @ chunk, a85_group := ?ds, a85_group_len := 0\<rparr>) rest"
    using ds assms by (intro ascii85_loop_full) simp_all
  then show ?thesis
    using False ds(1) assms(3) by (intro exI [of _ ?ds]) (simp add: ascii85_encode_chunk_def)
qed

lemma ascii85_stream:
  assumes "length (a85_group st) = 5" and "a85_group_len st = 0" and "a85_out st @ v \<noteq> []"
  shows "Option.bind (ascii85_loop st (ascii85_encode v)) ascii85_finish = Some (a85_out st @ v)"
  using assms
proof (induction v arbitrary: st rule: length_induct)
  case (1 v)
  consider "v = []" | "v \<noteq> []" "length v < 4" | "4 \<le> length v" by linarith
  then show ?case
  proof cases
    case 1
    then show ?thesis
      using "1.prems" by (simp add: ascii85_encode_def ascii85_finish_def)
  next
    case 2
    let ?ds = "take (length v + 1)
      (digits85 (be_value (map code v @ replicate (4 - length v) 0)))"
    have "length v \<le> 4" using 2 by simp
    note ds = ascii85_chunk_ds [OF 2(1) this]
    have "v \<noteq> replicate 4 (char_of (0 :: nat))" using 2(2) by auto
    then have enc: "ascii85_encode v = map ascii85_digit ?ds @ []"
      using 2 by (simp add: ascii85_encode_def chunks_short ascii85_encode_chunk_def)
    obtain grp where "take (length v + 1) grp = ?ds"
      "ascii85_loop st (ascii85_encode v) =
         Some (st\<lparr>a85_group := grp, a85_group_len := length v + 1\<rparr>)"
      using ascii85_loop_partial [of st ?ds "[]"] "1.prems" 2 ds unfolding enc by auto
    then show ?thesis
      using ds(3) 2 by (simp add: ascii85_finish_def)
  next
    case 3
    let ?a = "take 4 v" and ?b = "drop 4 v"
    have enc: "ascii85_encode v = ascii85_encode_chunk ?a @ ascii85_encode ?b"
      unfolding ascii85_encode_def using 3 by (subst chunks.simps) auto
    have "length ?a = 4" using 3 by simp
    then obtain grp where grp: "length grp = 5" "ascii85_loop st (ascii85_encode v) =
      ascii85_loop (st\<lparr>a85_out := a85_out st @ ?a, a85_group := grp, a85_group_len := 0\<rparr>)
        (ascii85_encode ?b)"
      using ascii85_loop_chunk "1.prems" unfolding enc by blast
    have "length ?b < length v" using 3 by simp
    then have "Option.bind (ascii85_loop (st\<lparr>a85_out := a85_out st @ ?a, a85_group := grp,
        a85_group_len := 0\<rparr>) (ascii85_encode ?b)) ascii85_finish = Some ((a85_out st @ ?a) @ ?b)"
      using "1.IH" [rule_format, of ?b "st\<lparr>a85_out := a85_out st @ ?a, a85_group := grp,
          a85_group_len := 0\<rparr>"] grp(1) "1.prems"(3) by simp
    then show ?thesis using grp(2) by simp
  qed
qed

lemma ascii85_encode_alphabet:
  "c \<in> set (ascii85_encode v) \<Longrightarrow> c = CHR ''z'' \<or> (\<exists>d<85. c = ascii85_digit d)"
proof -
  assume "c \<in> set (ascii85_encode v)"
  then obtain ch where "c \<in> set (ascii85_encode_chunk ch)"
    by (auto simp: ascii85_encode_def)
  then show ?thesis
    using digits85_less by (auto simp: ascii85_encode_chunk_def split: if_splits
        dest!: in_set_takeD)
qed

lemma ascii85_encode_codes: "c \<in> set (ascii85_encode v) \<Longrightarrow> 33 \<le> code c \<and> code c \<le> 122 \<and> is_ascii c"
  using ascii85_encode_alphabet [of c v] by (auto simp: ascii85_digit_code is_ascii_def)

lemma ascii85_encode_not_Nil: "v \<noteq> [] \<Longrightarrow> ascii85_encode v \<noteq> []"
proof -
  assume v: "v \<noteq> []"
  have "ascii85_encode_chunk ch \<noteq> []" for ch
  proof -
    have "ascii85_encode_chunk ch = ''z'' \<or> length (ascii85_encode_chunk ch) = min 5 (length ch + 1)"
      by (simp add: ascii85_encode_chunk_def min.commute)
    then show ?thesis by (metis length_0_conv list.distinct(1) min_def add_eq_0_iff_both_eq_0
          zero_neq_numeral zero_neq_one)
  qed
  then show ?thesis using v unfolding ascii85_encode_def by (subst chunks.simps) simp
qed

section \<open>Properties\<close>

text \<open>
  Base85 and Z85 decoding invert encoding: every non-empty byte string survives RFC 1924
  Base85, partial last group included, and every one of a length divisible by four survives
  Z85; no group overflows 32 bits.
\<close>

theorem base85_roundtrip:
  assumes "v \<noteq> []"
  shows "base85_decode (base85_encode RFC1924_BASE85_ALPHABET v) = Some v \<and>
    (length v mod 4 = 0 \<longrightarrow> z85_decode (base85_encode Z85_ALPHABET v) = Some v)"
  unfolding base85_decode_def z85_decode_def
  using assms rfc1924.decode_inverse z85.decode_inverse by simp

theorem base85_roundtrip_witness:
  "base85_decode (base85_encode RFC1924_BASE85_ALPHABET ''AKIA'') = Some ''AKIA'' \<and>
    z85_decode (base85_encode Z85_ALPHABET ''AKIA'') = Some ''AKIA''"
  using base85_roundtrip [of "''AKIA''"] by simp

text \<open>
  Ascii85 decoding inverts encoding, with and without the \<open><~ ~>\<close> frame, the \<open>z\<close>
  shorthand and partial last groups included.
\<close>

theorem ascii85_roundtrip:
  assumes "v \<noteq> []"
  shows "ascii85_decode (ascii85_encode v) = Some v \<and>
    ascii85_decode (''<~'' @ ascii85_encode v @ ''~>'') = Some v"
proof -
  let ?e = "ascii85_encode v"
  have all: "all_ascii ?e" "\<And>c. c \<in> set ?e \<Longrightarrow> code c \<notin> {9, 10, 11, 12, 13, 32}"
    using ascii85_encode_codes [of _ v] by (fastforce simp: list_all_iff)+
  have t1: "trim ?e = ?e" using all by (rule trim_ascii_id)
  have t2: "trim (''<~'' @ ?e @ ''~>'') = ''<~'' @ ?e @ ''~>''"
    using all by (intro trim_ascii_id) (auto simp: is_ascii_def)
  have filter: "filter (\<lambda>b. \<not> is_ascii_whitespace b) ?e = ?e"
    using all(2) by (intro filter_True) (auto simp: is_ascii_whitespace_def)
  have "CHR ''~'' \<notin> set ?e"
    using ascii85_encode_codes [of "CHR ''~''" v] by auto
  then have noframe: "strip_prefix ''<~'' ?e = None"
    by (auto simp: strip_prefix_def prefix_def)
  have run: "Option.bind (ascii85_loop \<lparr>a85_out = [], a85_group = replicate 5 0, a85_group_len = 0\<rparr> ?e)
      ascii85_finish = Some v"
    using ascii85_stream [of "\<lparr>a85_out = [], a85_group = replicate 5 0, a85_group_len = 0\<rparr>" v] assms
    by simp
  have frame: "Option.bind (strip_prefix ''<~'' (''<~'' @ ?e @ ''~>'')) (strip_suffix ''~>'') = Some ?e"
    unfolding strip_prefix_append Option.bind.bind_lunit strip_suffix_append ..
  show ?thesis
    unfolding ascii85_decode_def t1 t2 Let_def noframe frame
    by (simp add: filter run)
qed

theorem ascii85_roundtrip_witness:
  "ascii85_decode (ascii85_encode ''Man '') = Some ''Man ''"
  using ascii85_roundtrip [of "''Man ''"] by simp

text \<open>
  Percent decoding inverts percent encoding of any non-empty byte string.
\<close>

theorem percent_roundtrip: "v \<noteq> [] \<Longrightarrow> percent_decode (percent_encode v) = Some v"
  by (cases v)
    (auto simp: percent_decode_def length_encode_bytes chunks_encode_bytes try_map_inverse
      percent_chunk_encode)

theorem percent_roundtrip_witness: "percent_decode (percent_encode ''AK'') = Some ''AK''"
  using percent_roundtrip [of "''AK''"] by simp

text \<open>
  Binary and octal decoding invert the eight-bit and three-digit groups of any non-empty byte
  string; the checked 8-bit arithmetic never overflows on them.
\<close>

theorem binary_octal_roundtrip:
  "v \<noteq> [] \<Longrightarrow> binary_decode (binary_encode v) = Some v \<and> octal_decode (octal_encode v) = Some v"
proof -
  assume "v \<noteq> []"
  then have "binary_encode v \<noteq> []" "octal_encode v \<noteq> []"
    using length_encode_bytes [of v] by auto
  then show ?thesis
    unfolding binary_decode_def octal_decode_def
    using binary_encode_alphabet [of v] octal_encode_alphabet [of v]
    by (simp add: length_encode_bytes chunks_encode_bytes try_map_inverse
        binary_chunk_encode octal_chunk_encode)
qed

theorem binary_octal_roundtrip_witness:
  "binary_decode (binary_encode ''AK'') = Some ''AK'' \<and> octal_decode (octal_encode ''AK'') = Some ''AK''"
  using binary_octal_roundtrip [of "''AK''"] by simp

end
