(* ===== verification/Policy.thy ===== *)
theory Policy
  imports Placeholder
begin

text \<open>
  Policies and the over-masking guard, \<open>crates/pentect-core/src/policy/mod.rs\<close> and
  \<open>policy/guard.rs\<close>. A \<open>Policy\<close> is its \<open>classify\<close>, a function from spans to actions; an
  \<open>OverMaskGuard\<close> is its \<open>benign\<close>, a predicate on values.
\<close>


section \<open>Policies\<close>

datatype action = Mask | Keep | Warn | Drop

type_synonym policy = "span \<Rightarrow> action"
type_synonym guard = "str \<Rightarrow> bool"

definition mask_all :: policy where
  "mask_all s = Mask"

definition is_context_free :: "span \<Rightarrow> bool" where
  "is_context_free s \<longleftrightarrow> sp_source s = DecodeOpaque"

datatype opaque_stance = StanceMask | StanceWarn | StanceKeep

record profile_knobs =
  context_free :: opaque_stance
  mask_unknown_codec :: bool
  min_opaque_run :: nat

datatype profile = Strict | Balanced | Dev | Paranoid

definition DEFAULT_MIN_OPAQUE_RUN :: nat where
  "DEFAULT_MIN_OPAQUE_RUN = 24"

fun profile_knobs_of :: "profile \<Rightarrow> profile_knobs" where
  "profile_knobs_of Strict =
     \<lparr>context_free = StanceMask, mask_unknown_codec = False,
      min_opaque_run = DEFAULT_MIN_OPAQUE_RUN\<rparr>"
| "profile_knobs_of Balanced =
     \<lparr>context_free = StanceWarn, mask_unknown_codec = False,
      min_opaque_run = DEFAULT_MIN_OPAQUE_RUN\<rparr>"
| "profile_knobs_of Dev =
     \<lparr>context_free = StanceKeep, mask_unknown_codec = False,
      min_opaque_run = DEFAULT_MIN_OPAQUE_RUN + 4\<rparr>"
| "profile_knobs_of Paranoid =
     \<lparr>context_free = StanceMask, mask_unknown_codec = True,
      min_opaque_run = DEFAULT_MIN_OPAQUE_RUN - 4\<rparr>"

definition profile_from_str :: "str \<Rightarrow> str + profile" where
  "profile_from_str s =
     (if s = ''strict'' then Inr Strict
      else if s = ''balanced'' then Inr Balanced
      else if s = ''dev'' then Inr Dev
      else if s = ''paranoid'' then Inr Paranoid
      else Inl (''unknown profile: '' @ s))"

definition profile_policy :: "profile \<Rightarrow> policy" where
  "profile_policy profile s =
     (if \<not> is_context_free s then Mask
      else case context_free (profile_knobs_of profile) of
             StanceMask \<Rightarrow> Mask
           | StanceWarn \<Rightarrow> Warn
           | StanceKeep \<Rightarrow> Keep)"

text \<open>What every built-in policy promises: a finding anchored to its context is masked.\<close>

locale anchoring_policy =
  fixes classify :: policy
  assumes anchored_masked: "\<not> is_context_free s \<Longrightarrow> classify s = Mask"

interpretation mask_all: anchoring_policy mask_all
  by unfold_locales (simp add: mask_all_def)

interpretation profile: anchoring_policy "profile_policy p"
  by unfold_locales (simp add: profile_policy_def)


section \<open>The guard for benign shapes\<close>

definition is_uuid :: "str \<Rightarrow> bool" where
  "is_uuid b \<longleftrightarrow>
     length b = 36 \<and> b ! 8 = CHR ''-'' \<and> b ! 13 = CHR ''-'' \<and> b ! 18 = CHR ''-'' \<and>
     b ! 23 = CHR ''-'' \<and>
     list_all (\<lambda>(i, c). i = 8 \<or> i = 13 \<or> i = 18 \<or> i = 23 \<or> is_ascii_hexdigit c)
       (enumerate 0 b)"

definition is_hex_digest :: "str \<Rightarrow> bool" where
  "is_hex_digest v \<longleftrightarrow>
     (length v = 32 \<or> length v = 40 \<or> length v = 64 \<or> length v = 128) \<and>
     list_all is_ascii_hexdigit v"

definition is_git_sha :: "str \<Rightarrow> bool" where
  "is_git_sha v \<longleftrightarrow>
     7 \<le> length v \<and> length v \<le> 40 \<and>
     list_all (\<lambda>b. is_ascii_digit b \<or> byte_between 97 102 b) v"

definition is_sep :: "byte \<Rightarrow> bool" where
  "is_sep b \<longleftrightarrow> b = CHR ''/'' \<or> code b = 92"

definition eq_ascii_ci :: "str \<Rightarrow> str \<Rightarrow> bool" where
  "eq_ascii_ci a b \<longleftrightarrow>
     length a = length b \<and> map to_ascii_lowercase a = map to_ascii_lowercase b"

definition has_tilde_home_prefix :: "str \<Rightarrow> bool" where
  "has_tilde_home_prefix b =
     (if length b < 4 \<or> b ! 0 \<noteq> CHR ''~'' then False
      else case str_find ''/'' (drop 1 b) of
             None \<Rightarrow> False
           | Some sep \<Rightarrow>
               (let name = subtext b 1 (1 + sep) in
                name \<noteq> [] \<and>
                \<not> list_ex (\<lambda>c. c = CHR ''/'' \<or> code c \<in> {92, 13, 10, 34, 39} \<or>
                                is_ascii_whitespace c) name \<and>
                1 + sep + 1 < length b))"

fun path_prefix_rest :: "str \<Rightarrow> str list \<Rightarrow> str option" where
  "path_prefix_rest b [] = None"
| "path_prefix_rest b (p # ps) =
     (if length b > length p + 2 \<and> b ! 0 = CHR ''/'' \<and>
         eq_ascii_ci (subtext b 1 (1 + length p)) p \<and> b ! (1 + length p) = CHR ''/''
      then Some (drop (1 + length p + 1) b)
      else path_prefix_rest b ps)"

definition mnt_drive_prefix_rest :: "str \<Rightarrow> str option" where
  "mnt_drive_prefix_rest b =
     (if length b > 7 \<and> eq_ascii_ci (take 5 b) ''/mnt/'' \<and> is_ascii_alphabetic (b ! 5) \<and>
         b ! 6 = CHR ''/''
      then Some (drop 7 b) else None)"

definition slash_drive_users_prefix_rest :: "str \<Rightarrow> str option" where
  "slash_drive_users_prefix_rest b =
     (if length b > 9 \<and> b ! 0 = CHR ''/'' \<and> is_ascii_alphabetic (b ! 1) \<and> b ! 2 = CHR ''/'' \<and>
         eq_ascii_ci (subtext b 3 8) ''users'' \<and> b ! 8 = CHR ''/''
      then Some (drop 9 b) else None)"

definition some_nonempty :: "str option \<Rightarrow> bool" where
  "some_nonempty r = (case r of Some rest \<Rightarrow> rest \<noteq> [] | None \<Rightarrow> False)"

definition is_local_path :: "str \<Rightarrow> bool" where
  "is_local_path b =
     (if list_ex (\<lambda>c. code c = 13 \<or> code c = 10) b then False
      else if length b \<ge> 4 \<and> is_ascii_alphabetic (b ! 0) \<and> b ! 1 = CHR '':'' \<and> is_sep (b ! 2)
      then True
      else if prefix ''~'' b then has_tilde_home_prefix b
      else if \<not> prefix ''/'' b then False
      else
        some_nonempty
          (path_prefix_rest b [''home'', ''users'', ''var/home'', ''export/home'']) \<or>
        some_nonempty (mnt_drive_prefix_rest b) \<or>
        some_nonempty (slash_drive_users_prefix_rest b))"

definition shape_guard :: guard where
  "shape_guard v \<longleftrightarrow> is_uuid v \<or> is_hex_digest v \<or> is_git_sha v \<or> is_local_path v"

definition no_guard :: guard where
  "no_guard v = False"

end
