(* ===== verification/Interval.thy ===== *)
theory Interval
  imports Model
begin

text \<open>
  The interval index, \<open>crates/pentect-core/src/pipeline/interval.rs\<close>: ranges sorted by
  their start and queried by binary search. \<open>partition_point\<close> is only used on a list the
  predicate partitions, where it is the length of the prefix that satisfies it.
\<close>


section \<open>The index and its operations\<close>

record range_index =
  ri_ranges :: "byte_range list"

definition partition_point :: "('a \<Rightarrow> bool) \<Rightarrow> 'a list \<Rightarrow> nat" where
  "partition_point p xs = length (takeWhile p xs)"

definition index_new :: "byte_range list \<Rightarrow> range_index" where
  "index_new ranges =
     \<lparr>ri_ranges = sort_key (\<lambda>r. (rstart r, rend r)) (filter (\<lambda>r. \<not> range_is_empty r) ranges)\<rparr>"

definition index_overlaps :: "range_index \<Rightarrow> byte_range \<Rightarrow> bool" where
  "index_overlaps ri r =
     (if range_is_empty r then False
      else let idx = partition_point (\<lambda>q. rstart q < rend r) (ri_ranges ri)
           in idx > 0 \<and> range_overlaps (ri_ranges ri ! (idx - 1)) r)"

definition index_contains :: "range_index \<Rightarrow> byte_range \<Rightarrow> bool" where
  "index_contains ri r =
     (if range_is_empty r then False
      else let idx = partition_point (\<lambda>q. rstart q \<le> rstart r) (ri_ranges ri)
           in idx > 0 \<and> range_contains (ri_ranges ri ! (idx - 1)) r)"

definition index_insert :: "byte_range \<Rightarrow> range_index \<Rightarrow> range_index" where
  "index_insert r ri =
     (if range_is_empty r then ri
      else let idx = partition_point (\<lambda>q. rstart q < rstart r) (ri_ranges ri)
           in ri\<lparr>ri_ranges := take idx (ri_ranges ri) @ r # drop idx (ri_ranges ri)\<rparr>)"


section \<open>The contract of an interval index\<close>

definition before :: "byte_range \<Rightarrow> byte_range \<Rightarrow> bool" where
  "before a b \<longleftrightarrow> rend a \<le> rstart b"

definition disjoint_ranges :: "byte_range list \<Rightarrow> bool" where
  "disjoint_ranges rs \<longleftrightarrow> sorted_wrt (\<lambda>a b. \<not> range_overlaps a b) rs"

text \<open>
  An index holds a set of ranges; on an index whose ranges do not overlap each other the
  queries are exact, and inserting a range that overlaps none keeps that invariant.
\<close>

locale interval_index =
  fixes new :: "byte_range list \<Rightarrow> 'i"
    and overlaps :: "'i \<Rightarrow> byte_range \<Rightarrow> bool"
    and contains :: "'i \<Rightarrow> byte_range \<Rightarrow> bool"
    and insert_range :: "byte_range \<Rightarrow> 'i \<Rightarrow> 'i"
    and ranges :: "'i \<Rightarrow> byte_range set"
    and inv :: "'i \<Rightarrow> bool"
  assumes ranges_new: "ranges (new rs) = {r \<in> set rs. \<not> range_is_empty r}"
    and inv_new: "disjoint_ranges rs \<Longrightarrow> inv (new rs)"
    and overlaps_sound: "overlaps i r \<Longrightarrow> \<exists>q \<in> ranges i. range_overlaps q r"
    and overlaps_complete: "inv i \<Longrightarrow> \<not> range_is_empty r \<Longrightarrow> q \<in> ranges i \<Longrightarrow>
        range_overlaps q r \<Longrightarrow> overlaps i r"
    and contains_sound: "contains i r \<Longrightarrow> \<exists>q \<in> ranges i. range_contains q r"
    and contains_complete: "inv i \<Longrightarrow> \<not> range_is_empty r \<Longrightarrow> q \<in> ranges i \<Longrightarrow>
        range_contains q r \<Longrightarrow> contains i r"
    and ranges_insert: "\<not> range_is_empty r \<Longrightarrow> ranges (insert_range r i) = insert r (ranges i)"
    and inv_insert: "inv i \<Longrightarrow> \<not> range_is_empty r \<Longrightarrow> \<not> overlaps i r \<Longrightarrow> inv (insert_range r i)"
begin

lemma overlaps_iff:
  "inv i \<Longrightarrow> \<not> range_is_empty r \<Longrightarrow> overlaps i r \<longleftrightarrow> (\<exists>q \<in> ranges i. range_overlaps q r)"
  using overlaps_sound overlaps_complete by blast

lemma new_overlaps_iff:
  assumes "disjoint_ranges rs" and "\<not> range_is_empty r"
  shows "overlaps (new rs) r \<longleftrightarrow> (\<exists>q \<in> set rs. \<not> range_is_empty q \<and> range_overlaps q r)"
  using overlaps_iff [OF inv_new [OF assms(1)] assms(2)] by (auto simp: ranges_new)

lemma new_not_overlaps:
  "\<forall>q \<in> set rs. \<not> range_is_empty q \<longrightarrow> \<not> range_overlaps q r \<Longrightarrow> \<not> overlaps (new rs) r"
  using overlaps_sound [of "new rs" r] by (auto simp: ranges_new)

lemma overlaps_insert:
  assumes "inv i" and "\<not> range_is_empty r" and "\<not> overlaps i r" and "\<not> range_is_empty q"
  shows "overlaps (insert_range r i) q \<longleftrightarrow> overlaps i q \<or> range_overlaps r q"
  using overlaps_iff [OF inv_insert [OF assms(1-3)] assms(4)] overlaps_iff [OF assms(1,4)]
  by (auto simp: ranges_insert [OF assms(2)])

end


section \<open>The index meets the contract\<close>

definition index_inv :: "range_index \<Rightarrow> bool" where
  "index_inv ri \<longleftrightarrow>
     sorted_wrt before (ri_ranges ri) \<and> (\<forall>r \<in> set (ri_ranges ri). \<not> range_is_empty r)"

lemma partition_point_le: "partition_point p xs \<le> length xs"
  by (simp add: partition_point_def length_takeWhile_le)

lemma partition_point_less: "i < partition_point p xs \<Longrightarrow> p (xs ! i)"
  unfolding partition_point_def
  by (metis nth_mem set_takeWhileD takeWhile_nth)

lemma partition_point_ge:
  assumes "sorted_wrt (\<lambda>a b. p b \<longrightarrow> p a) xs" and "i < length xs" and "p (xs ! i)"
  shows "i < partition_point p xs"
proof (rule ccontr)
  assume "\<not> i < partition_point p xs"
  then have le: "partition_point p xs \<le> i" by simp
  with assms(2) have "\<not> p (xs ! partition_point p xs)"
    unfolding partition_point_def by (meson le_less_trans nth_length_takeWhile)
  moreover have "p (xs ! partition_point p xs)"
    using assms le sorted_wrt_nth_less [OF assms(1), of "partition_point p xs" i]
    by (cases "partition_point p xs = i") auto
  ultimately show False by blast
qed

lemma before_start:
  "before a b \<Longrightarrow> \<not> range_is_empty a \<Longrightarrow> rstart a < rstart b"
  by (auto simp: before_def range_is_empty_def)

lemma index_inv_nth:
  assumes "index_inv ri" and "i < j" and "j < length (ri_ranges ri)"
  shows "rend (ri_ranges ri ! i) \<le> rstart (ri_ranges ri ! j)"
    and "rstart (ri_ranges ri ! i) < rstart (ri_ranges ri ! j)"
  using assms sorted_wrt_nth_less [of before "ri_ranges ri" i j]
  by (auto simp: index_inv_def before_def range_is_empty_def dest!: bspec
      [of _ _ "ri_ranges ri ! i"])

lemma index_inv_partitioned:
  assumes "index_inv ri" and "\<And>a b. rstart a < rstart b \<Longrightarrow> p b \<Longrightarrow> p a"
  shows "sorted_wrt (\<lambda>a b. p b \<longrightarrow> p a) (ri_ranges ri)"
  unfolding sorted_wrt_iff_nth_less using assms index_inv_nth(2) by blast

lemma index_overlaps_sound:
  "index_overlaps ri r \<Longrightarrow> \<exists>q \<in> set (ri_ranges ri). range_overlaps q r"
  using partition_point_le [of "\<lambda>q. rstart q < rend r" "ri_ranges ri"]
  by (auto simp: index_overlaps_def Let_def split: if_splits intro!: bexI [OF _ nth_mem])

lemma index_contains_sound:
  "index_contains ri r \<Longrightarrow> \<exists>q \<in> set (ri_ranges ri). range_contains q r"
  using partition_point_le [of "\<lambda>q. rstart q \<le> rstart r" "ri_ranges ri"]
  by (auto simp: index_contains_def Let_def split: if_splits intro!: bexI [OF _ nth_mem])

lemma index_overlaps_complete:
  assumes inv: "index_inv ri" and "\<not> range_is_empty r" and "q \<in> set (ri_ranges ri)"
    and ov: "range_overlaps q r"
  shows "index_overlaps ri r"
proof -
  let ?xs = "ri_ranges ri" and ?p = "\<lambda>q. rstart q < rend r"
  let ?n = "partition_point ?p ?xs"
  obtain i where i: "i < length ?xs" "?xs ! i = q" using assms(3) by (auto simp: in_set_conv_nth)
  have "sorted_wrt (\<lambda>a b. ?p b \<longrightarrow> ?p a) ?xs"
    using inv by (rule index_inv_partitioned) simp
  then have "i < ?n"
    using i ov by (intro partition_point_ge) (auto simp: range_overlaps_def)
  then have n: "?n > 0" "?n - 1 < length ?xs" "i \<le> ?n - 1"
    using partition_point_le [of ?p ?xs] by linarith+
  have "?p (?xs ! (?n - 1))" using n partition_point_less [of "?n - 1" ?p ?xs] by simp
  moreover have "rstart r < rend (?xs ! (?n - 1))"
  proof (cases "i = ?n - 1")
    case False
    then have "rend q \<le> rstart (?xs ! (?n - 1))" using index_inv_nth(1) [OF inv, of i "?n - 1"] n i by simp
    moreover have "\<not> range_is_empty (?xs ! (?n - 1))" using inv n by (simp add: index_inv_def)
    ultimately show ?thesis using ov by (auto simp: range_overlaps_def range_is_empty_def)
  qed (use i ov in \<open>auto simp: range_overlaps_def\<close>)
  ultimately show ?thesis
    using assms(2) n(1) by (simp add: index_overlaps_def range_overlaps_def)
qed

lemma index_contains_complete:
  assumes inv: "index_inv ri" and "\<not> range_is_empty r" and "q \<in> set (ri_ranges ri)"
    and ct: "range_contains q r"
  shows "index_contains ri r"
proof -
  let ?xs = "ri_ranges ri" and ?p = "\<lambda>q. rstart q \<le> rstart r"
  let ?n = "partition_point ?p ?xs"
  obtain i where i: "i < length ?xs" "?xs ! i = q" using assms(3) by (auto simp: in_set_conv_nth)
  have "sorted_wrt (\<lambda>a b. ?p b \<longrightarrow> ?p a) ?xs"
    using inv by (rule index_inv_partitioned) simp
  then have "i < ?n"
    using i ct by (intro partition_point_ge) (auto simp: range_contains_def)
  then have n: "?n > 0" "?n - 1 < length ?xs" "i \<le> ?n - 1"
    using partition_point_le [of ?p ?xs] by linarith+
  have "?p (?xs ! (?n - 1))" using n partition_point_less [of "?n - 1" ?p ?xs] by simp
  then have "i = ?n - 1"
    using index_inv_nth(1) [OF inv, of i "?n - 1"] n i ct assms(2)
    by (cases "i < ?n - 1") (auto simp: range_contains_def range_is_empty_def)
  then show ?thesis
    using assms(2) n(1) ct i by (simp add: index_contains_def)
qed

lemma index_insert_set:
  "\<not> range_is_empty r \<Longrightarrow> set (ri_ranges (index_insert r ri)) = insert r (set (ri_ranges ri))"
proof -
  assume "\<not> range_is_empty r"
  moreover have "set (take n xs) \<union> set (drop n xs) = set xs" for n and xs :: "byte_range list"
    by (metis append_take_drop_id set_append)
  ultimately show ?thesis by (simp add: index_insert_def Let_def)
qed

lemma index_insert_inv:
  assumes inv: "index_inv ri" and ne: "\<not> range_is_empty r" and no: "\<not> index_overlaps ri r"
  shows "index_inv (index_insert r ri)"
proof -
  let ?xs = "ri_ranges ri"
  let ?n = "partition_point (\<lambda>q. rstart q < rstart r) ?xs"
  have free: "\<not> range_overlaps q r" if "q \<in> set ?xs" for q
    using index_overlaps_complete [OF inv ne that] no by blast
  have low: "before a r" if "a \<in> set (take ?n ?xs)" for a
  proof -
    have "rstart a < rstart r"
      using that partition_point_less [of _ "\<lambda>q. rstart q < rstart r" ?xs]
      by (auto simp: in_set_conv_nth)
    with free [of a] in_set_takeD [OF that] ne show ?thesis
      by (auto simp: before_def range_overlaps_def range_is_empty_def)
  qed
  have high: "before r b" if "b \<in> set (drop ?n ?xs)" for b
  proof -
    obtain k where k: "k < length ?xs - ?n" "?xs ! (?n + k) = b"
      using \<open>b \<in> set (drop ?n ?xs)\<close> by (auto simp: in_set_conv_nth)
    define j where "j = ?n + k"
    have j: "?n \<le> j" "j < length ?xs" "?xs ! j = b"
      using k by (auto simp: j_def)
    have "sorted_wrt (\<lambda>a b. rstart b < rstart r \<longrightarrow> rstart a < rstart r) ?xs"
      using inv by (rule index_inv_partitioned) simp
    then have "\<not> rstart b < rstart r"
      using partition_point_ge [of "\<lambda>q. rstart q < rstart r" ?xs j] j by force
    moreover have "\<not> range_is_empty b" using inv in_set_dropD [OF that] by (auto simp: index_inv_def)
    ultimately show ?thesis
      using free [of b] in_set_dropD [OF that] ne
      by (auto simp: before_def range_overlaps_def range_is_empty_def)
  qed
  have "sorted_wrt before (take ?n ?xs @ drop ?n ?xs)" using inv by (simp add: index_inv_def)
  then have "sorted_wrt before (take ?n ?xs @ r # drop ?n ?xs)"
    unfolding sorted_wrt_append using low high by auto
  moreover have "\<forall>q \<in> set (take ?n ?xs @ r # drop ?n ?xs). \<not> range_is_empty q"
    using inv ne by (auto simp: index_inv_def dest: in_set_takeD in_set_dropD)
  ultimately show ?thesis using ne by (simp add: index_insert_def index_inv_def Let_def)
qed

lemma disjoint_ranges_insort:
  "disjoint_ranges (insort_key f x xs) = disjoint_ranges (x # xs)"
  unfolding disjoint_ranges_def
  by (induction xs) (auto simp: set_insort_key range_overlaps_sym)

lemma disjoint_ranges_sort: "disjoint_ranges (sort_key f xs) = disjoint_ranges xs"
proof (induction xs)
  case (Cons x xs)
  then show ?case
    by (simp add: disjoint_ranges_insort) (simp add: disjoint_ranges_def)
qed simp

lemma disjoint_ranges_sort_map:
  "disjoint_ranges (map g (sort_key f xs)) = disjoint_ranges (map g xs)"
proof -
  have "disjoint_ranges (map g (insort_key f x ys)) = disjoint_ranges (map g (x # ys))" for x ys
    unfolding disjoint_ranges_def
    by (induction ys) (auto simp: set_insort_key range_overlaps_sym)
  moreover have "set (map g (sort_key f ys)) = set (map g ys)" for ys by simp
  ultimately show ?thesis
    by (induction xs) (auto simp: disjoint_ranges_def simp del: sort_key_simps simp: sort_key_simps)
qed

lemma index_new_inv:
  assumes "disjoint_ranges rs"
  shows "index_inv (index_new rs)"
proof -
  let ?ne = "filter (\<lambda>r. \<not> range_is_empty r) rs" and ?f = "\<lambda>r. (rstart r, rend r)"
  have "disjoint_ranges ?ne"
    using assms unfolding disjoint_ranges_def by (rule sorted_wrt_filter)
  then have "disjoint_ranges (sort_key ?f ?ne)" by (simp add: disjoint_ranges_sort)
  moreover have "sorted_wrt (\<lambda>a b. ?f a \<le> ?f b) (sort_key ?f ?ne)"
    using sorted_sort_key [of ?f ?ne] by (simp add: sorted_map)
  ultimately have "before (sort_key ?f ?ne ! i) (sort_key ?f ?ne ! j)"
    if "i < j" "j < length (sort_key ?f ?ne)" for i j
  proof -
    let ?a = "sort_key ?f ?ne ! i" and ?b = "sort_key ?f ?ne ! j"
    have "?a \<in> set ?ne" "?b \<in> set ?ne"
      using that by (metis length_sort nth_mem order.strict_trans set_sort)+
    moreover have "\<not> range_overlaps ?a ?b"
      using that \<open>disjoint_ranges (sort_key ?f ?ne)\<close>
      unfolding disjoint_ranges_def sorted_wrt_iff_nth_less by blast
    moreover have "?f ?a \<le> ?f ?b"
      using that \<open>sorted_wrt _ (sort_key ?f ?ne)\<close> unfolding sorted_wrt_iff_nth_less by blast
    then have "rstart ?a \<le> rstart ?b" by (auto simp: less_eq_prod_def)
    ultimately show ?thesis
      by (auto simp: before_def range_overlaps_def range_is_empty_def)
  qed
  then show ?thesis
    by (auto simp: index_inv_def index_new_def sorted_wrt_iff_nth_less)
qed

interpretation ri: interval_index index_new index_overlaps index_contains index_insert
  "\<lambda>i. set (ri_ranges i)" index_inv
proof unfold_locales
  show "set (ri_ranges (index_new rs)) = {r \<in> set rs. \<not> range_is_empty r}" for rs
    by (auto simp: index_new_def)
qed (rule index_new_inv index_overlaps_sound index_overlaps_complete index_contains_sound
    index_contains_complete index_insert_set index_insert_inv; assumption)+

end
