(* ===== verification/Merge.thy ===== *)
theory Merge
  imports Policy Interval
begin

text \<open>
  Resolving overlapping findings, \<open>crates/pentect-core/src/pipeline/merge.rs\<close>. The loop
  carries one open component (the union of the overlapping ranges so far and the strongest span
  among them) and closes it at the first span that does not overlap the union.
\<close>


section \<open>The merge\<close>

fun canonical_category_label :: "category \<Rightarrow> str" where
  "canonical_category_label Secret = lbl_SECRET"
| "canonical_category_label Pii = lbl_PII"
| "canonical_category_label Identifier = lbl_IDENTIFIER"
| "canonical_category_label Endpoint = lbl_ENDPOINT"
| "canonical_category_label OtherCategory = lbl_SENSITIVE"

definition touches_protected :: "byte_range \<Rightarrow> nat list \<Rightarrow> bool" where
  "touches_protected r edges \<longleftrightarrow>
     List.member edges (rstart r) \<or> List.member edges (rend r)"

definition can_touch_protected :: "span \<Rightarrow> bool" where
  "can_touch_protected s \<longleftrightarrow>
     sp_category s = Secret \<and> sp_confidence s = High \<and> \<not> is_context_free s"

definition merge_stronger :: "span \<Rightarrow> span \<Rightarrow> span" where
  "merge_stronger s strongest =
     (case cmp_strength s strongest of
        Greater \<Rightarrow> s
      | Equal \<Rightarrow>
          if sp_label s \<noteq> sp_label strongest
          then strongest\<lparr>sp_label := canonical_category_label (sp_category strongest)\<rparr>
          else strongest
      | Less \<Rightarrow> strongest)"

fun merge_loop :: "(byte_range \<times> span) option \<Rightarrow> span list \<Rightarrow> span list" where
  "merge_loop None [] = []"
| "merge_loop (Some (un, strongest)) [] = [strongest\<lparr>sp_range := un\<rparr>]"
| "merge_loop None (s # spans) = merge_loop (Some (sp_range s, s)) spans"
| "merge_loop (Some (un, strongest)) (s # spans) =
     (if range_overlaps un (sp_range s) then
        merge_loop
          (Some (range_new (min (rstart un) (rstart (sp_range s)))
                           (max (rend un) (rend (sp_range s))),
                 merge_stronger s strongest)) spans
      else strongest\<lparr>sp_range := un\<rparr> # merge_loop (Some (sp_range s, s)) spans)"

definition merge_unprotected :: "span list \<Rightarrow> byte_range list \<Rightarrow> span list" where
  "merge_unprotected spans protected =
     (let protected_index = index_new protected;
          protected_edges =
            (if protected = [] then None
             else Some (concat (map (\<lambda>p. [rstart p, rend p]) protected)))
      in filter (\<lambda>s. \<not> range_is_empty (sp_range s) \<and>
            \<not> index_overlaps protected_index (sp_range s) \<and>
            ((case protected_edges of None \<Rightarrow> True
              | Some edges \<Rightarrow> \<not> touches_protected (sp_range s) edges) \<or>
             can_touch_protected s)) spans)"

definition merge_explicit :: "span list \<Rightarrow> span list" where
  "merge_explicit spans =
     (let explicit = index_new (map sp_range (filter (\<lambda>s. sp_source s = Explicit) spans))
      in filter (\<lambda>s. sp_source s = Explicit \<or> \<not> index_overlaps explicit (sp_range s)) spans)"

definition merge_kept :: "span list \<Rightarrow> byte_range list \<Rightarrow> span list" where
  "merge_kept spans protected = merge_explicit (merge_unprotected spans protected)"

definition merge :: "span list \<Rightarrow> byte_range list \<Rightarrow> span list" where
  "merge spans protected =
     merge_loop None
       (sort_key (\<lambda>s. (rstart (sp_range s), rend (sp_range s))) (merge_kept spans protected))"


section \<open>The loop\<close>

definition bytes_of_spans :: "span list \<Rightarrow> nat set" where
  "bytes_of_spans spans = (\<Union>s \<in> set spans. bytes_of (sp_range s))"

lemma bytes_of_spans_simps [simp]:
  "bytes_of_spans [] = {}"
  "bytes_of_spans (s # spans) = bytes_of (sp_range s) \<union> bytes_of_spans spans"
  "bytes_of_spans (xs @ ys) = bytes_of_spans xs \<union> bytes_of_spans ys"
  by (simp_all add: bytes_of_spans_def)

abbreviation solid :: "span \<Rightarrow> bool" where
  "solid s \<equiv> \<not> range_is_empty (sp_range s)"

definition starts_sorted :: "span list \<Rightarrow> bool" where
  "starts_sorted spans \<longleftrightarrow> sorted_wrt (\<lambda>a b. rstart (sp_range a) \<le> rstart (sp_range b)) spans"

definition separated :: "span list \<Rightarrow> bool" where
  "separated spans \<longleftrightarrow>
     sorted_wrt (\<lambda>a b. before (sp_range a) (sp_range b)) spans \<and> list_all solid spans"

definition union_range :: "byte_range \<Rightarrow> byte_range \<Rightarrow> byte_range" where
  "union_range r q = range_new (min (rstart r) (rstart q)) (max (rend r) (rend q))"

lemma bytes_of_union_range: "range_overlaps r q \<Longrightarrow> bytes_of (union_range r q) = bytes_of r \<union> bytes_of q"
  by (auto simp: union_range_def range_defs bytes_of_def)

text \<open>
  What is known when a component is open: its union is solid, and every span still to come
  starts no earlier.
\<close>

definition loop_ok :: "byte_range \<Rightarrow> span list \<Rightarrow> bool" where
  "loop_ok un spans \<longleftrightarrow> \<not> range_is_empty un \<and> starts_sorted spans \<and> list_all solid spans \<and>
     (\<forall>s \<in> set spans. rstart un \<le> rstart (sp_range s))"

lemma loop_ok_step:
  assumes "loop_ok un (s # spans)"
  shows "loop_ok (sp_range s) spans" and "loop_ok (union_range un (sp_range s)) spans"
  using assms
  by (fastforce simp: loop_ok_def starts_sorted_def union_range_def range_defs)+

lemma loop_ok_start: "starts_sorted (s # spans) \<Longrightarrow> list_all solid (s # spans) \<Longrightarrow>
    loop_ok (sp_range s) spans"
  by (auto simp: loop_ok_def starts_sorted_def)

lemma merge_loop_Some:
  "merge_loop (Some (un, strongest)) (s # spans) =
     (if range_overlaps un (sp_range s)
      then merge_loop (Some (union_range un (sp_range s), merge_stronger s strongest)) spans
      else strongest\<lparr>sp_range := un\<rparr> # merge_loop (Some (sp_range s, s)) spans)"
  by (simp add: union_range_def)

declare merge_loop.simps(4) [simp del]

lemma merge_loop_bytes:
  "bytes_of_spans (merge_loop (Some (un, strongest)) spans) = bytes_of un \<union> bytes_of_spans spans"
proof (induction spans arbitrary: un strongest)
  case (Cons s spans)
  show ?case
    unfolding merge_loop_Some by (auto simp: Cons bytes_of_union_range)
qed simp

lemma merge_loop_separated:
  "loop_ok un spans \<Longrightarrow> separated (merge_loop (Some (un, strongest)) spans) \<and>
     (\<forall>o' \<in> set (merge_loop (Some (un, strongest)) spans). rstart un \<le> rstart (sp_range o'))"
proof (induction spans arbitrary: un strongest)
  case Nil
  then show ?case by (simp add: separated_def loop_ok_def)
next
  case (Cons s spans)
  note step = loop_ok_step [OF Cons.prems]
  show ?case
  proof (cases "range_overlaps un (sp_range s)")
    case True
    have "rstart (union_range un (sp_range s)) = rstart un"
      using Cons.prems by (simp add: loop_ok_def union_range_def range_new_def)
    with Cons.IH [OF step(2)] True show ?thesis by (simp add: merge_loop_Some)
  next
    case False
    with Cons.prems have le: "rend un \<le> rstart (sp_range s)"
      by (auto simp: loop_ok_def range_defs)
    with Cons.IH [OF step(1), of s] False Cons.prems show ?thesis
      by (fastforce simp: merge_loop_Some separated_def before_def loop_ok_def range_is_empty_def)
  qed
qed


section \<open>Which finding a component reports\<close>

text \<open>
  \<open>out\<close> reports the component \<open>g\<close>: it covers exactly the bytes of \<open>g\<close>, its metadata is that
  of a strongest member of \<open>g\<close>, and its label is that member's unless two strongest members
  disagree, in which case it is the category's canonical label.
\<close>

definition tied :: "span list \<Rightarrow> span \<Rightarrow> bool" where
  "tied g t \<longleftrightarrow>
     (\<exists>x \<in> set g. strength_key x = strength_key t \<and> sp_label x \<noteq> sp_label t)"

definition strongest_of :: "span list \<Rightarrow> span \<Rightarrow> bool" where
  "strongest_of g m \<longleftrightarrow>
     (\<exists>t \<in> set g. (\<forall>x \<in> set g. strength_key x \<le> strength_key t) \<and>
        strength_key m = strength_key t \<and>
        sp_label m =
          (if tied g t then canonical_category_label (sp_category t) else sp_label t))"

definition reports :: "span list \<Rightarrow> span \<Rightarrow> bool" where
  "reports g out \<longleftrightarrow> g \<noteq> [] \<and> bytes_of (sp_range out) = bytes_of_spans g \<and>
     (\<exists>m. strongest_of g m \<and> out = m\<lparr>sp_range := sp_range out\<rparr>)"

lemma strongest_of_single: "strongest_of [s] s"
  by (simp add: strongest_of_def tied_def)

lemma strongest_of_step:
  assumes "strongest_of g m"
  shows "strongest_of (g @ [s]) (merge_stronger s m)"
proof -
  obtain t where t: "t \<in> set g" "\<forall>x \<in> set g. strength_key x \<le> strength_key t"
      "strength_key m = strength_key t"
      "sp_label m = (if tied g t then canonical_category_label (sp_category t) else sp_label t)"
    using assms by (auto simp: strongest_of_def)
  have cat: "sp_category m = sp_category t" using t(3) by (simp add: strength_key_eq)
  show ?thesis
  proof (cases "cmp_strength s m")
    case Less
    then have lt: "strength_key s < strength_key t" by (simp add: cmp_strength_key cmp_Less t(3))
    then have "tied (g @ [s]) t = tied g t" by (auto simp: tied_def)
    moreover have "merge_stronger s m = m" using Less by (simp add: merge_stronger_def)
    ultimately show ?thesis
      unfolding strongest_of_def using t lt by (intro bexI [of _ t]) (simp_all add: order.strict_implies_order)
  next
    case Greater
    then have gt: "strength_key t < strength_key s" by (simp add: cmp_strength_key cmp_Greater t(3))
    have low: "strength_key x < strength_key s" if "x \<in> set g" for x
      using t(2) that gt le_less_trans by blast
    then have "\<not> tied (g @ [s]) s" by (auto simp: tied_def dest!: low)
    moreover have "merge_stronger s m = s" using Greater by (simp add: merge_stronger_def)
    ultimately show ?thesis
      unfolding strongest_of_def using low
      by (intro bexI [of _ s]) (simp_all add: order.strict_implies_order)
  next
    case Equal
    then have eq: "strength_key s = strength_key t" by (simp add: cmp_strength_key cmp_Equal t(3))
    have key: "strength_key (m\<lparr>sp_label := l\<rparr>) = strength_key t" for l
      unfolding t(3) [symmetric] by (simp add: strength_key_eq)
    have tie: "tied (g @ [s]) t \<longleftrightarrow> tied g t \<or> sp_label s \<noteq> sp_label t"
      by (auto simp: tied_def eq)
    have "strength_key (merge_stronger s m) = strength_key t"
      using Equal t(3) key by (simp add: merge_stronger_def)
    moreover have "sp_label (merge_stronger s m) =
        (if tied (g @ [s]) t then canonical_category_label (sp_category t) else sp_label t)"
      using Equal t(4) by (simp add: merge_stronger_def tie cat)
    ultimately show ?thesis
      unfolding strongest_of_def using t(1,2) eq by (intro bexI [of _ t]) auto
  qed
qed

lemma merge_loop_reports:
  assumes "g \<noteq> []" and "bytes_of un = bytes_of_spans g" and "strongest_of g m"
  shows "\<exists>gs. concat gs = g @ spans \<and> list_all2 reports gs (merge_loop (Some (un, m)) spans)"
  using assms
proof (induction spans arbitrary: g un m)
  case Nil
  then have "reports g (m\<lparr>sp_range := un\<rparr>)" by (auto simp: reports_def intro!: exI [of _ m])
  then show ?case by (intro exI [of _ "[g]"]) simp
next
  case (Cons s spans)
  show ?case
  proof (cases "range_overlaps un (sp_range s)")
    case True
    have "\<exists>gs. concat gs = (g @ [s]) @ spans \<and> list_all2 reports gs
        (merge_loop (Some (union_range un (sp_range s), merge_stronger s m)) spans)"
      by (rule Cons.IH)
        (use Cons.prems True in \<open>auto simp: bytes_of_union_range intro: strongest_of_step\<close>)
    then show ?thesis using True by (simp add: merge_loop_Some)
  next
    case False
    have "\<exists>gs. concat gs = [s] @ spans \<and>
        list_all2 reports gs (merge_loop (Some (sp_range s, s)) spans)"
      by (rule Cons.IH) (simp_all add: strongest_of_single)
    then obtain gs where gs: "concat gs = s # spans"
        "list_all2 reports gs (merge_loop (Some (sp_range s, s)) spans)" by auto
    have "reports g (m\<lparr>sp_range := un\<rparr>)"
      using Cons.prems by (auto simp: reports_def intro!: exI [of _ m])
    with gs False show ?thesis by (intro exI [of _ "g # gs"]) (simp add: merge_loop_Some)
  qed
qed


section \<open>What is kept\<close>

lemma merge_kept_subset: "set (merge_kept spans protected) \<subseteq> set spans"
  by (auto simp: merge_kept_def merge_explicit_def merge_unprotected_def Let_def)

lemma merge_kept_solid: "s \<in> set (merge_kept spans protected) \<Longrightarrow> solid s"
  by (auto simp: merge_kept_def merge_explicit_def merge_unprotected_def Let_def)

lemma merge_unprotected_iff:
  assumes "disjoint_ranges protected"
  shows "s \<in> set (merge_unprotected spans protected) \<longleftrightarrow>
     s \<in> set spans \<and> solid s \<and>
     (\<forall>p \<in> set protected. \<not> range_is_empty p \<longrightarrow> \<not> range_overlaps p (sp_range s)) \<and>
     (can_touch_protected s \<or>
      (\<forall>p \<in> set protected. rstart (sp_range s) \<notin> {rstart p, rend p} \<and>
         rend (sp_range s) \<notin> {rstart p, rend p}))"
  using ri.new_overlaps_iff [OF assms, of "sp_range s"]
  by (auto simp: merge_unprotected_def Let_def touches_protected_def)

lemma merge_explicit_keeps:
  "s \<in> set spans \<Longrightarrow> sp_source s = Explicit \<Longrightarrow> s \<in> set (merge_explicit spans)"
  by (simp add: merge_explicit_def Let_def)

lemma merge_explicit_iff:
  assumes "disjoint_ranges (map sp_range (filter (\<lambda>s. sp_source s = Explicit) spans))"
    and "\<forall>s \<in> set spans. solid s"
  shows "s \<in> set (merge_explicit spans) \<longleftrightarrow>
     s \<in> set spans \<and>
     (sp_source s = Explicit \<or>
      (\<forall>e \<in> set spans. sp_source e = Explicit \<longrightarrow> \<not> range_overlaps (sp_range e) (sp_range s)))"
  using ri.new_overlaps_iff [OF assms(1), of "sp_range s"] assms(2)
  by (auto simp: merge_explicit_def Let_def)

lemma merge_sorted:
  "starts_sorted (sort_key (\<lambda>s. (rstart (sp_range s), rend (sp_range s))) spans)"
proof -
  have "sorted_wrt (\<lambda>a b. (rstart (sp_range a), rend (sp_range a)) \<le>
      (rstart (sp_range b), rend (sp_range b)))
    (sort_key (\<lambda>s. (rstart (sp_range s), rend (sp_range s))) spans)"
    using sorted_sort_key [of "\<lambda>s. (rstart (sp_range s), rend (sp_range s))" spans]
    unfolding sorted_map .
  then show ?thesis
    unfolding starts_sorted_def by (rule sorted_wrt_mono_rel [rotated]) auto
qed

lemma merge_groups:
  "\<exists>gs. concat gs = sort_key (\<lambda>s. (rstart (sp_range s), rend (sp_range s)))
          (merge_kept spans protected) \<and>
     list_all2 reports gs (merge spans protected)"
proof -
  let ?sorted = "sort_key (\<lambda>s. (rstart (sp_range s), rend (sp_range s)))
    (merge_kept spans protected)"
  show ?thesis
  proof (cases ?sorted)
    case Nil
    then show ?thesis by (intro exI [of _ "[]"]) (simp add: merge_def)
  next
    case (Cons s rest)
    have "\<exists>gs. concat gs = [s] @ rest \<and>
        list_all2 reports gs (merge_loop (Some (sp_range s, s)) rest)"
      by (rule merge_loop_reports) (simp_all add: strongest_of_single)
    then show ?thesis by (simp add: merge_def Cons)
  qed
qed

lemma reports_bytes: "list_all2 reports gs out \<Longrightarrow> bytes_of_spans (concat gs) = bytes_of_spans out"
  by (induction gs out rule: list_all2_induct) (auto simp: reports_def)

lemma bytes_of_spans_set: "set xs = set ys \<Longrightarrow> bytes_of_spans xs = bytes_of_spans ys"
  by (simp add: bytes_of_spans_def)

lemma merge_loop_isolated:
  assumes "bytes_of un \<inter> bytes_of (sp_range e) = {}" and "\<not> range_is_empty un"
    and "\<forall>s \<in> set (xs @ ys). solid s \<and> \<not> range_overlaps (sp_range s) (sp_range e)" and "solid e"
  shows "e \<in> set (merge_loop (Some (un, m)) (xs @ e # ys))"
  using assms
proof (induction xs arbitrary: un m)
  case Nil
  then have "\<not> range_overlaps un (sp_range e)" by (simp add: range_overlaps_bytes)
  moreover have "e \<in> set (merge_loop (Some (sp_range e, e)) ys)"
    using Nil.prems by (cases ys) (auto simp: merge_loop_Some range_overlaps_sym)
  ultimately show ?case by (simp add: merge_loop_Some)
next
  case (Cons s xs)
  have free: "bytes_of (sp_range s) \<inter> bytes_of (sp_range e) = {}"
    using Cons.prems range_overlaps_bytes [of "sp_range s" "sp_range e"] by auto
  show ?case
  proof (cases "range_overlaps un (sp_range s)")
    case True
    then have "\<not> range_is_empty (union_range un (sp_range s))"
      by (auto simp: union_range_def range_defs)
    with True Cons.prems free Cons.IH [of "union_range un (sp_range s)"] show ?thesis
      by (simp add: merge_loop_Some bytes_of_union_range Int_Un_distrib2)
  next
    case False
    with Cons.prems free Cons.IH [of "sp_range s" s] show ?thesis
      by (simp add: merge_loop_Some)
  qed
qed

lemma merge_isolated:
  assumes "sort_key (\<lambda>s. (rstart (sp_range s), rend (sp_range s))) kept = xs @ e # ys"
    and "\<forall>s \<in> set (xs @ ys). solid s \<and> \<not> range_overlaps (sp_range s) (sp_range e)" and "solid e"
  shows "e \<in> set (merge_loop None (xs @ e # ys))"
proof (cases xs)
  case Nil
  then show ?thesis
    using assms by (cases ys) (auto simp: merge_loop_Some range_overlaps_sym)
next
  case (Cons s xs')
  have "e \<in> set (merge_loop (Some (sp_range s, s)) (xs' @ e # ys))"
    by (rule merge_loop_isolated)
      (use assms Cons range_overlaps_bytes [of "sp_range s" "sp_range e"] in auto)
  with Cons show ?thesis by simp
qed

lemma sort_key_filter_commute:
  "filter P (sort_key f xs) = sort_key f (filter P xs)"
proof (induction xs)
  case (Cons x xs)
  then show ?case by (simp add: filter_insort filter_insort_triv)
qed simp

lemma explicit_isolated:
  assumes disj: "disjoint_ranges (map sp_range (filter (\<lambda>s. sp_source s = Explicit) spans))"
    and sol: "\<forall>s \<in> set spans. solid s"
    and e: "e \<in> set spans" "sp_source e = Explicit"
  obtains xs ys where
    "sort_key (\<lambda>s. (rstart (sp_range s), rend (sp_range s))) (merge_explicit spans) = xs @ e # ys"
    and "\<forall>s \<in> set (xs @ ys). solid s \<and> \<not> range_overlaps (sp_range s) (sp_range e)"
proof -
  let ?E = "\<lambda>s. sp_source s = Explicit"
    and ?L = "sort_key (\<lambda>s. (rstart (sp_range s), rend (sp_range s))) (merge_explicit spans)"
  have "e \<in> set ?L" using e by (simp add: merge_explicit_keeps)
  then obtain xs ys where split: "?L = xs @ e # ys" using split_list by fastforce
  have "filter ?E (merge_explicit spans) = filter ?E spans"
    by (auto simp: merge_explicit_def Let_def intro: filter_cong)
  then have "filter ?E (xs @ e # ys) =
      sort_key (\<lambda>s. (rstart (sp_range s), rend (sp_range s))) (filter ?E spans)"
    unfolding split [symmetric] sort_key_filter_commute by simp
  moreover have "sorted_wrt (\<lambda>a b. \<not> range_overlaps (sp_range a) (sp_range b))
      (sort_key (\<lambda>s. (rstart (sp_range s), rend (sp_range s))) (filter ?E spans))"
    using disj disjoint_ranges_sort_map
        [of sp_range "\<lambda>s. (rstart (sp_range s), rend (sp_range s))" "filter ?E spans"]
    by (simp add: disjoint_ranges_def sorted_wrt_map)
  ultimately have "sorted_wrt (\<lambda>a b. \<not> range_overlaps (sp_range a) (sp_range b))
      (filter ?E xs @ e # filter ?E ys)"
    using e by simp
  then have expl: "\<not> range_overlaps (sp_range s) (sp_range e)"
    if "s \<in> set (xs @ ys)" "?E s" for s
    using that by (auto simp: sorted_wrt_append range_overlaps_sym)
  have sub: "s \<in> set (merge_explicit spans)" if "s \<in> set (xs @ ys)" for s
  proof -
    have "set (merge_explicit spans) = set (xs @ e # ys)" unfolding split [symmetric] by simp
    with that show ?thesis by auto
  qed
  have "solid s \<and> \<not> range_overlaps (sp_range s) (sp_range e)" if s: "s \<in> set (xs @ ys)" for s
    using sub [OF s] merge_explicit_iff [OF disj sol, of s] expl [OF s] e sol
    by (auto simp: range_overlaps_sym)
  with split that show ?thesis by blast
qed

lemma merge_covers_bytes:
  "bytes_of_spans (merge spans protected) = bytes_of_spans (merge_kept spans protected)"
proof -
  obtain gs where "concat gs = sort_key (\<lambda>s. (rstart (sp_range s), rend (sp_range s)))
      (merge_kept spans protected)" "list_all2 reports gs (merge spans protected)"
    using merge_groups by blast
  then show ?thesis
    using reports_bytes bytes_of_spans_set [OF set_sort] by metis
qed

lemma disjoint_explicit_unprotected:
  assumes "disjoint_ranges (map sp_range (filter (\<lambda>s. sp_source s = Explicit) spans))"
  shows "disjoint_ranges (map sp_range (filter (\<lambda>s. sp_source s = Explicit)
    (merge_unprotected spans protected)))"
proof -
  obtain P where "merge_unprotected spans protected = filter P spans"
    by (simp add: merge_unprotected_def Let_def)
  then have "filter (\<lambda>s. sp_source s = Explicit) (merge_unprotected spans protected) =
      filter P (filter (\<lambda>s. sp_source s = Explicit) spans)"
    by (simp add: conj_commute)
  moreover have "sorted_wrt (\<lambda>a b. \<not> range_overlaps (sp_range a) (sp_range b))
      (filter P (filter (\<lambda>s. sp_source s = Explicit) spans))"
    using assms unfolding disjoint_ranges_def sorted_wrt_map by (rule sorted_wrt_filter)
  ultimately show ?thesis by (simp add: disjoint_ranges_def sorted_wrt_map)
qed


lemma merge_out_separated: "separated (merge spans protected)"
proof -
  let ?s = "sort_key (\<lambda>s. (rstart (sp_range s), rend (sp_range s))) (merge_kept spans protected)"
  have "starts_sorted ?s" "list_all solid ?s"
    using merge_kept_solid by (auto simp: merge_sorted list_all_iff)
  then show ?thesis
    unfolding merge_def
    using merge_loop_separated [OF loop_ok_start] by (cases ?s) (auto simp: separated_def)
qed

lemma merge_out_avoids:
  assumes "disjoint_ranges protected" and "p \<in> set protected" and "m \<in> set (merge spans protected)"
  shows "bytes_of p \<inter> bytes_of (sp_range m) = {}"
proof -
  have "bytes_of p \<inter> bytes_of (sp_range s) = {}" if "s \<in> set (merge_kept spans protected)" for s
  proof -
    have "s \<in> set (merge_unprotected spans protected)"
      using that by (auto simp: merge_kept_def merge_explicit_def Let_def)
    then show ?thesis
      using assms(1,2) range_overlaps_bytes [of p "sp_range s"] bytes_of_empty [of p]
      by (auto simp: merge_unprotected_iff)
  qed
  then have "bytes_of p \<inter> bytes_of_spans (merge spans protected) = {}"
    unfolding merge_covers_bytes by (auto simp: bytes_of_spans_def)
  with assms(3) show ?thesis by (auto simp: bytes_of_spans_def)
qed

lemma reports_ends:
  assumes "reports g out" and "solid out" and "\<forall>s \<in> set g. solid s"
  shows "(\<exists>a \<in> set g. rstart (sp_range out) = rstart (sp_range a)) \<and>
    (\<exists>b \<in> set g. rend (sp_range out) = rend (sp_range b))"
proof -
  let ?r = "sp_range out"
  have bytes: "bytes_of ?r = bytes_of_spans g" using assms(1) by (simp add: reports_def)
  have "rstart ?r \<in> bytes_of ?r" "rend ?r - 1 \<in> bytes_of ?r"
    using assms(2) by (auto simp: bytes_of_def range_is_empty_def)
  then obtain a b where a: "a \<in> set g" "rstart ?r \<in> bytes_of (sp_range a)"
    and b: "b \<in> set g" "rend ?r - 1 \<in> bytes_of (sp_range b)"
    unfolding bytes by (auto simp: bytes_of_spans_def)
  have "rstart (sp_range a) \<in> bytes_of (sp_range a)" "rend (sp_range b) - 1 \<in> bytes_of (sp_range b)"
    using a(1) b(1) assms(3) by (auto simp: bytes_of_def range_is_empty_def)
  then have "rstart (sp_range a) \<in> bytes_of_spans g" "rend (sp_range b) - 1 \<in> bytes_of_spans g"
    using a(1) b(1) unfolding bytes_of_spans_def by blast+
  then have "rstart (sp_range a) = rstart ?r" "rend (sp_range b) = rend ?r"
    using a(2) b(2) assms(2) unfolding bytes [symmetric]
    by (auto simp: bytes_of_def range_is_empty_def)
  with a(1) b(1) show ?thesis by metis
qed

text \<open>Where a merged finding starts, ends and takes its label from.\<close>

lemma merge_member:
  assumes "m \<in> set (merge spans protected)"
  shows "\<exists>a \<in> set spans. rstart (sp_range m) = rstart (sp_range a)"
    and "\<exists>b \<in> set spans. rend (sp_range m) = rend (sp_range b)"
    and "\<exists>l \<in> set spans. sp_label m = sp_label l \<or>
      sp_label m = canonical_category_label (sp_category l)"
proof -
  obtain gs where gs: "concat gs = sort_key (\<lambda>s. (rstart (sp_range s), rend (sp_range s)))
      (merge_kept spans protected)" "list_all2 reports gs (merge spans protected)"
    using merge_groups by blast
  from gs(2) assms obtain g where g: "g \<in> set gs" "reports g m"
    unfolding list_all2_conv_all_nth in_set_conv_nth by metis
  have "set g \<subseteq> set (concat gs)" using g(1) by auto
  then have kept: "set g \<subseteq> set (merge_kept spans protected)" unfolding gs(1) by simp
  moreover have "solid m" using merge_out_separated assms by (auto simp: separated_def list_all_iff)
  ultimately have "(\<exists>a \<in> set g. rstart (sp_range m) = rstart (sp_range a)) \<and>
      (\<exists>b \<in> set g. rend (sp_range m) = rend (sp_range b))"
    using merge_kept_solid by (intro reports_ends [OF g(2)]) auto
  then show "\<exists>a \<in> set spans. rstart (sp_range m) = rstart (sp_range a)"
    "\<exists>b \<in> set spans. rend (sp_range m) = rend (sp_range b)"
    using kept merge_kept_subset by blast+
  from g(2) obtain m' where "strongest_of g m'" "m = m'\<lparr>sp_range := sp_range m\<rparr>"
    by (auto simp: reports_def)
  then obtain l where "l \<in> set g"
    "sp_label m = sp_label l \<or> sp_label m = canonical_category_label (sp_category l)"
    unfolding strongest_of_def by (metis span.select_convs(3) span.surjective span.update_convs(1))
  then show "\<exists>l \<in> set spans. sp_label m = sp_label l \<or>
      sp_label m = canonical_category_label (sp_category l)"
    using kept merge_kept_subset by blast
qed


lemma merge_solid: "m \<in> set (merge spans protected) \<Longrightarrow> solid m"
  using merge_out_separated by (auto simp: separated_def list_all_iff)

lemma merge_disjoint:
  assumes "disjoint_ranges protected" and "\<forall>p \<in> set protected. \<not> range_is_empty p"
  shows "disjoint_ranges (map sp_range (merge spans protected) @ protected)"
proof -
  have "sorted_wrt (\<lambda>a b. before (sp_range a) (sp_range b)) (merge spans protected)"
    using merge_out_separated unfolding separated_def by blast
  then have "sorted_wrt (\<lambda>a b. \<not> range_overlaps (sp_range a) (sp_range b)) (merge spans protected)"
    by (rule sorted_wrt_mono_rel [rotated]) (auto simp: before_def range_overlaps_def)
  moreover have "\<not> range_overlaps (sp_range m) p"
    if "m \<in> set (merge spans protected)" "p \<in> set protected" for m p
    using merge_out_avoids [OF assms(1) that(2,1)] assms(2) that(2) merge_solid [OF that(1)]
    by (simp add: range_overlaps_bytes Int_commute)
  ultimately show ?thesis
    using assms by (simp add: disjoint_ranges_def sorted_wrt_append sorted_wrt_map)
qed


section \<open>Properties\<close>

text \<open>
  The findings \<open>merge\<close> returns never overlap: they come sorted, each ends no later than
  the next one starts, and none is empty.
\<close>

theorem merge_separated: "separated (merge spans protected)"
  by (rule merge_out_separated)


text \<open>
  A weaker overlapping finding leaves no prefix or suffix visible: the merged findings
  cover exactly the bytes the surviving findings cover.
\<close>

theorem merge_covers:
  "bytes_of_spans (merge spans protected) = bytes_of_spans (merge_kept spans protected)"
  by (rule merge_covers_bytes)

text \<open>
  An existing placeholder is never masked again: when the protected ranges do not overlap
  each other, no merged finding shares a byte with one of them.
\<close>

theorem merge_avoids_protected:
  assumes "disjoint_ranges protected" and "p \<in> set protected" and "m \<in> set (merge spans protected)"
  shows "bytes_of p \<inter> bytes_of (sp_range m) = {}"
  using assms by (rule merge_out_avoids)

definition example_span :: "nat \<Rightarrow> nat \<Rightarrow> detector_id \<Rightarrow> span" where
  "example_span s e d =
     \<lparr>sp_range = range_new s e, sp_category = Secret, sp_label = lbl_KEYED_SECRET,
      sp_confidence = High, sp_source = d\<rparr>"

lemma merge_avoids_protected_witness:
  "bytes_of (range_new 0 5) \<inter> bytes_of (sp_range (example_span 5 12 Rule)) = {}"
proof (rule merge_avoids_protected)
  show "disjoint_ranges [range_new 0 5, range_new 20 25]" by code_simp
  show "range_new 0 5 \<in> set [range_new 0 5, range_new 20 25]" by simp
  have "merge [example_span 5 9 Rule, example_span 7 12 Rule, example_span 3 9 Rule]
      [range_new 0 5, range_new 20 25] = [example_span 5 12 Rule]"
    by code_simp
  then show "example_span 5 12 Rule \<in>
      set (merge [example_span 5 9 Rule, example_span 7 12 Rule, example_span 3 9 Rule]
        [range_new 0 5, range_new 20 25])"
    by simp
qed

text \<open>
  A marker fixes the user's exact value boundary: when the explicit findings do not
  overlap each other, an explicit finding that is not dropped next to a placeholder comes out
  of \<open>merge\<close> unchanged, whatever heuristic findings overlap it.
\<close>

theorem merge_explicit_exact:
  assumes "disjoint_ranges (map sp_range (filter (\<lambda>s. sp_source s = Explicit) spans))"
    and "e \<in> set (merge_unprotected spans protected)" and "sp_source e = Explicit"
  shows "e \<in> set (merge spans protected)"
proof -
  let ?u = "merge_unprotected spans protected"
  have "disjoint_ranges (map sp_range (filter (\<lambda>s. sp_source s = Explicit) ?u))"
    using assms(1) by (rule disjoint_explicit_unprotected)
  moreover have "\<forall>s \<in> set ?u. solid s" by (auto simp: merge_unprotected_def Let_def)
  ultimately obtain xs ys where
    split: "sort_key (\<lambda>s. (rstart (sp_range s), rend (sp_range s))) (merge_explicit ?u) = xs @ e # ys"
    and free: "\<forall>s \<in> set (xs @ ys). solid s \<and> \<not> range_overlaps (sp_range s) (sp_range e)"
    using assms(2,3) by (rule explicit_isolated)
  have "solid e" using assms(2) by (simp add: merge_unprotected_def Let_def)
  from merge_isolated [OF split free this] split show ?thesis
    by (simp add: merge_def merge_kept_def)
qed

lemma merge_explicit_exact_witness:
  "example_span 8 11 Explicit \<in> set (merge [example_span 0 20 Rule, example_span 8 11 Explicit] [])"
  by (rule merge_explicit_exact) (code_simp; simp)+

end
