(* ===== verification/Sweep.thy ===== *)
theory Sweep
  imports Policy Interval
begin

text \<open>
  The global identity sweep, \<open>crates/pentect-core/src/pipeline/sweep.rs\<close>, with the token
  alphabet of \<open>detect/util.rs\<close>. The multi-pattern search (\<open>aho-corasick\<close>,
  \<open>find_overlapping_iter\<close>) and the NFC normalization behind \<open>n_id\<close> are parameters: the
  search is given with its pattern index and byte range for each match.
\<close>


section \<open>Token bytes\<close>

definition is_token_byte :: "byte \<Rightarrow> bool" where
  "is_token_byte b \<longleftrightarrow> is_ascii_alphanumeric b \<or> List.member ''+/=_-'' b"

fun token_runs_from :: "nat \<Rightarrow> nat option \<Rightarrow> str \<Rightarrow> (nat \<times> nat) list" where
  "token_runs_from i None [] = []"
| "token_runs_from i (Some start) [] = [(start, i)]"
| "token_runs_from i None (b # s) =
     token_runs_from (Suc i) (if is_token_byte b then Some i else None) s"
| "token_runs_from i (Some start) (b # s) =
     (if is_token_byte b then token_runs_from (Suc i) (Some start) s
      else (start, i) # token_runs_from (Suc i) None s)"

definition token_runs :: "str \<Rightarrow> (nat \<times> nat) list" where
  "token_runs s = token_runs_from 0 None s"

text \<open>
  \<open>bytes.get(i).is_some_and(is_token_byte)\<close>; the index before the start of the text wraps to
  \<open>usize::MAX\<close>, where \<open>get\<close> returns nothing.
\<close>

definition continues_token :: "str \<Rightarrow> nat \<Rightarrow> bool" where
  "continues_token bytes i \<longleftrightarrow> i < length bytes \<and> is_token_byte (bytes ! i)"

definition continues_token_before :: "str \<Rightarrow> nat \<Rightarrow> bool" where
  "continues_token_before bytes i \<longleftrightarrow> 0 < i \<and> continues_token bytes (i - 1)"


section \<open>Which identities are swept\<close>

definition has_distinctive_sweep_identity_shape :: "str \<Rightarrow> bool" where
  "has_distinctive_sweep_identity_shape v =
     (let v = trim v in 4 \<le> length v \<and> list_ex is_ascii_alphanumeric v)"

definition distinctive_secret_shape :: "str \<Rightarrow> bool" where
  "distinctive_secret_shape v =
     (let bytes = trim v in
      16 \<le> length bytes \<and> \<not> list_ex is_ascii_whitespace bytes \<and>
      list_ex is_ascii_alphabetic bytes \<and> list_ex is_ascii_digit bytes \<and>
      list_ex (List.member ''_-.+/='') bytes)"

definition span_text :: "str \<Rightarrow> span \<Rightarrow> str option" where
  "span_text raw s = str_slice raw (rstart (sp_range s)) (rend (sp_range s))"

definition is_structural_sweepable_identity :: "str \<Rightarrow> span \<Rightarrow> bool option" where
  "is_structural_sweepable_identity raw s = map_option distinctive_secret_shape (span_text raw s)"

definition is_sweepable_identity :: "str \<Rightarrow> span \<Rightarrow> bool option" where
  "is_sweepable_identity raw s =
     do {
       v \<leftarrow> span_text raw s;
       if \<not> has_distinctive_sweep_identity_shape v then Some False
       else if sp_label s = lbl_OTP then Some False
       else if sp_label s = lbl_UUID then Some False
       else if sp_label s = lbl_KEYED_SECRET then Some False
       else if sp_source s = Structural then is_structural_sweepable_identity raw s
       else Some True
     }"


section \<open>The sweep\<close>

type_synonym find_overlapping = "str list \<Rightarrow> str \<Rightarrow> (nat \<times> byte_range) list"

text \<open>One representative per identity: the first strongest finding. \<open>None\<close> is a panic.\<close>

fun sweep_rep :: "(str \<Rightarrow> str) \<Rightarrow> str \<Rightarrow> span list \<Rightarrow> (str \<times> span) list \<Rightarrow>
    (str \<times> span) list option" where
  "sweep_rep n_id raw [] rep = Some rep"
| "sweep_rep n_id raw (s # accepted) rep =
     do {
       ok \<leftarrow> is_sweepable_identity raw s;
       v \<leftarrow> span_text raw s;
       sweep_rep n_id raw accepted
         (if ok then bt_upsert (n_id v) (\<lambda>e. if cmp_strength s e = Greater then s else e) s rep
          else rep)
     }"

definition sweep_reps :: "(str \<times> span) list \<Rightarrow> span list" where
  "sweep_reps rep =
     sort_key (\<lambda>r. (- int (range_len (sp_range r)), int (rstart (sp_range r)))) (map snd rep)"

definition sweep_needles :: "str \<Rightarrow> span list \<Rightarrow> str list" where
  "sweep_needles raw reps =
     filter (\<lambda>v. v \<noteq> [])
       (map (\<lambda>r. subtext raw (rstart (sp_range r)) (rend (sp_range r))) reps)"

definition sweep_on_boundary :: "str \<Rightarrow> byte_range \<Rightarrow> bool" where
  "sweep_on_boundary raw r \<longleftrightarrow>
     \<not> continues_token_before raw (rstart r) \<and> \<not> continues_token raw (rend r)"

definition sweep_candidates ::
    "str \<Rightarrow> range_index \<Rightarrow> range_index \<Rightarrow> (nat \<times> byte_range) list \<Rightarrow> (nat \<times> byte_range) list" where
  "sweep_candidates raw occupied region_index matches =
     sort_key (\<lambda>(i, r). (- int (range_len r), int (rstart r), int i))
       (filter (\<lambda>(i, r). sweep_on_boundary raw r \<and> index_contains region_index r \<and>
          \<not> index_overlaps occupied r) matches)"

fun sweep_fill :: "span list \<Rightarrow> range_index \<Rightarrow> (nat \<times> byte_range) list \<Rightarrow> span list" where
  "sweep_fill reps occupied [] = []"
| "sweep_fill reps occupied ((pattern, r) # candidates) =
     (if index_overlaps occupied r then sweep_fill reps occupied candidates
      else (reps ! pattern)\<lparr>sp_range := r, sp_source := Sweep\<rparr>
        # sweep_fill reps (index_insert r occupied) candidates)"

definition sweep_with ::
    "find_overlapping \<Rightarrow> str \<Rightarrow> span list \<Rightarrow> byte_range list \<Rightarrow> region list \<Rightarrow>
     span list \<Rightarrow> span list" where
  "sweep_with search raw accepted protected regions reps =
     (let needles = sweep_needles raw reps
      in if needles = [] then accepted
         else
           let occupied = index_new (map sp_range accepted @ protected);
               region_index = index_new (map region_span regions);
               candidates = sweep_candidates raw occupied region_index (search needles raw)
           in sort_key (\<lambda>s. rstart (sp_range s)) (accepted @ sweep_fill reps occupied candidates))"

definition identity_sweep ::
    "find_overlapping \<Rightarrow> (str \<Rightarrow> str) \<Rightarrow> str \<Rightarrow> span list \<Rightarrow> byte_range list \<Rightarrow> region list \<Rightarrow>
     span list option" where
  "identity_sweep search n_id raw accepted protected regions =
     map_option (\<lambda>rep. sweep_with search raw accepted protected regions (sweep_reps rep))
       (sweep_rep n_id raw accepted [])"


section \<open>The contract of the search\<close>

text \<open>
  \<open>find_overlapping_iter\<close> under \<open>MatchKind::Standard\<close> reports every occurrence of every
  pattern, and nothing else.
\<close>

definition occurrence :: "str list \<Rightarrow> str \<Rightarrow> nat \<Rightarrow> byte_range \<Rightarrow> bool" where
  "occurrence needles raw i r \<longleftrightarrow>
     i < length needles \<and> sublist_at (needles ! i) (rstart r) raw \<and>
     rend r = rstart r + length (needles ! i)"

locale overlapping_matcher =
  fixes search :: find_overlapping
  assumes search_iff: "(i, r) \<in> set (search needles raw) \<longleftrightarrow> occurrence needles raw i r"

definition reference_find :: find_overlapping where
  "reference_find needles raw =
     concat (map (\<lambda>s. concat (map (\<lambda>i.
       if sublist_at (needles ! i) s raw then [(i, range_new s (s + length (needles ! i)))] else [])
       [0..<length needles])) [0..<Suc (length raw)])"

interpretation reference: overlapping_matcher reference_find
proof
  fix i r and needles :: "str list" and raw
  have "sublist_at (needles ! i) s raw \<Longrightarrow> s < Suc (length raw)" for s
    using sublist_at_bound by fastforce
  then show "(i, r) \<in> set (reference_find needles raw) \<longleftrightarrow> occurrence needles raw i r"
    by (cases r) (auto simp: reference_find_def occurrence_def range_new_def simp del: upt_Suc)
qed


section \<open>Filling the gaps\<close>

lemma sweep_fill_source:
  "s \<in> set (sweep_fill reps occupied candidates) \<Longrightarrow>
   \<exists>p r. (p, r) \<in> set candidates \<and> s = (reps ! p)\<lparr>sp_range := r, sp_source := Sweep\<rparr>"
  by (induction reps occupied candidates rule: sweep_fill.induct) (auto split: if_splits)

lemma sweep_fill_disjoint:
  assumes "index_inv occupied" and "\<forall>(p, r) \<in> set candidates. \<not> range_is_empty r"
  shows "disjoint_ranges (map sp_range (sweep_fill reps occupied candidates)) \<and>
    (\<forall>s \<in> set (sweep_fill reps occupied candidates). \<forall>q \<in> set (ri_ranges occupied).
       \<not> range_overlaps q (sp_range s))"
  using assms
proof (induction reps occupied candidates rule: sweep_fill.induct)
  case (2 reps occupied p r candidates)
  show ?case
  proof (cases "index_overlaps occupied r")
    case True
    with 2 show ?thesis by simp
  next
    case False
    have ne: "\<not> range_is_empty r" using "2.prems" by simp
    have "\<not> range_overlaps q r" if "q \<in> set (ri_ranges occupied)" for q
      using ri.overlaps_complete [OF "2.prems"(1) ne that] False by blast
    moreover note "2.IH"(2) [OF False ri.inv_insert [OF "2.prems"(1) ne False]]
    ultimately show ?thesis
      using "2.prems"(2) False by (auto simp: ri.ranges_insert [OF ne] disjoint_ranges_def)
  qed
qed (simp add: disjoint_ranges_def)

lemma sweep_fill_covers:
  assumes "index_inv occupied" and "\<forall>(p, r) \<in> set candidates. \<not> range_is_empty r"
    and "(p, r) \<in> set candidates"
  shows "\<exists>q \<in> set (ri_ranges occupied) \<union> sp_range ` set (sweep_fill reps occupied candidates).
    range_overlaps q r"
  using assms
proof (induction reps occupied candidates rule: sweep_fill.induct)
  case (2 reps occupied p' r' candidates)
  show ?case
  proof (cases "index_overlaps occupied r'")
    case True
    then have "(p, r) = (p', r') \<Longrightarrow> \<exists>q \<in> set (ri_ranges occupied). range_overlaps q r"
      using ri.overlaps_sound by blast
    with 2 True show ?thesis by auto
  next
    case False
    have ne: "\<not> range_is_empty r'" using "2.prems" by simp
    have self: "range_overlaps r' r'"
      using ne by (simp add: range_overlaps_def range_is_empty_def)
    show ?thesis
    proof (cases "(p, r) = (p', r')")
      case True
      with self False show ?thesis by auto
    next
      case other: False
      have "\<exists>q \<in> set (ri_ranges (index_insert r' occupied)) \<union>
          sp_range ` set (sweep_fill reps (index_insert r' occupied) candidates). range_overlaps q r"
        using "2.IH"(2) [OF False ri.inv_insert [OF "2.prems"(1) ne False]] "2.prems"(2,3) other
        by auto
      then show ?thesis using False by (auto simp: ri.ranges_insert [OF ne])
    qed
  qed
qed simp


section \<open>Representatives\<close>

definition rep_insert :: "(str \<Rightarrow> str) \<Rightarrow> str \<Rightarrow> span \<Rightarrow> (str \<times> span) list \<Rightarrow> (str \<times> span) list" where
  "rep_insert n_id v s rep =
     bt_upsert (n_id v) (\<lambda>e. if cmp_strength s e = Greater then s else e) s rep"

lemma sweep_rep_Cons:
  assumes "sweep_rep n_id raw (s # accepted) rep = Some rep'"
  obtains ok v where "is_sweepable_identity raw s = Some ok" "span_text raw s = Some v"
    "sweep_rep n_id raw accepted (if ok then rep_insert n_id v s rep else rep) = Some rep'"
  using assms unfolding sweep_rep.simps rep_insert_def [symmetric]
  by (auto split: Option.bind_splits)

lemma rep_insert_values: "set (map snd (rep_insert n_id v s rep)) \<subseteq> insert s (set (map snd rep))"
  using bt_upsert_values
    [of "n_id v" "\<lambda>e. if cmp_strength s e = Greater then s else e" s rep]
  unfolding rep_insert_def by (auto split: if_splits)

lemma rep_insert_keys: "set (map fst (rep_insert n_id v s rep)) = insert (n_id v) (set (map fst rep))"
  unfolding rep_insert_def by (rule bt_upsert_keys)

lemma sweep_rep_values:
  "sweep_rep n_id raw accepted rep = Some rep' \<Longrightarrow> s \<in> set (map snd rep') \<Longrightarrow>
     s \<in> set (map snd rep) \<or> (s \<in> set accepted \<and> is_sweepable_identity raw s = Some True)"
proof (induction accepted arbitrary: rep)
  case (Cons a accepted)
  from Cons.prems(1) obtain ok v where step: "is_sweepable_identity raw a = Some ok"
      "sweep_rep n_id raw accepted (if ok then rep_insert n_id v a rep else rep) = Some rep'"
    by (rule sweep_rep_Cons)
  from Cons.IH [OF step(2) Cons.prems(2)] step(1) rep_insert_values [of n_id v a rep]
  show ?case by (cases ok) auto
qed simp

text \<open>
  The invariant of the map under construction: its keys are in order, and every entry is
  filed under the identity of its own text.
\<close>

definition rep_ok :: "(str \<Rightarrow> str) \<Rightarrow> str \<Rightarrow> (str \<times> span) list \<Rightarrow> bool" where
  "rep_ok n_id raw rep \<longleftrightarrow> bt_ok rep \<and>
     (\<forall>k s. map_of rep k = Some s \<longrightarrow> (\<exists>v. span_text raw s = Some v \<and> k = n_id v))"

lemma rep_ok_insert:
  assumes "rep_ok n_id raw rep" and "span_text raw s = Some v"
  shows "rep_ok n_id raw (rep_insert n_id v s rep)"
proof -
  have ok: "bt_ok rep" using assms(1) by (simp add: rep_ok_def)
  show ?thesis
    unfolding rep_ok_def rep_insert_def
    using bt_upsert_ok [OF ok] assms
    by (auto simp: bt_upsert_lookup [OF ok] rep_ok_def split: option.splits)
qed

lemma sweep_rep_ok:
  "sweep_rep n_id raw accepted rep = Some rep' \<Longrightarrow> rep_ok n_id raw rep \<Longrightarrow> rep_ok n_id raw rep'"
proof (induction accepted arbitrary: rep)
  case (Cons a accepted)
  from Cons.prems(1) obtain ok v where step: "span_text raw a = Some v"
      "sweep_rep n_id raw accepted (if ok then rep_insert n_id v a rep else rep) = Some rep'"
    by (rule sweep_rep_Cons)
  show ?case
    using Cons.IH [OF step(2)] Cons.prems(2) rep_ok_insert [OF _ step(1)] by (cases ok) auto
qed simp

lemma sweep_rep_keys:
  "sweep_rep n_id raw accepted rep = Some rep' \<Longrightarrow> set (map fst rep) \<subseteq> set (map fst rep')"
proof (induction accepted arbitrary: rep)
  case (Cons a accepted)
  from Cons.prems obtain ok v where
      "sweep_rep n_id raw accepted (if ok then rep_insert n_id v a rep else rep) = Some rep'"
    by (rule sweep_rep_Cons)
  from Cons.IH [OF this] rep_insert_keys [of n_id v a rep] show ?case by (cases ok) auto
qed simp

lemma sweep_rep_domain:
  "sweep_rep n_id raw accepted rep = Some rep' \<Longrightarrow> s \<in> set accepted \<Longrightarrow>
     is_sweepable_identity raw s = Some True \<Longrightarrow> span_text raw s = Some v \<Longrightarrow>
     n_id v \<in> set (map fst rep')"
proof (induction accepted arbitrary: rep)
  case (Cons a accepted)
  from Cons.prems(1) obtain ok w where step: "is_sweepable_identity raw a = Some ok"
      "span_text raw a = Some w"
      "sweep_rep n_id raw accepted (if ok then rep_insert n_id w a rep else rep) = Some rep'"
    by (rule sweep_rep_Cons)
  show ?case
  proof (cases "s = a")
    case True
    with Cons.prems(3,4) step have "n_id v \<in> set (map fst (rep_insert n_id w a rep))" "ok"
      by (auto simp: rep_insert_keys simp del: set_map)
    with sweep_rep_keys [OF step(3)] show ?thesis by auto
  next
    case False
    with Cons.IH [OF step(3)] Cons.prems show ?thesis by simp
  qed
qed simp



section \<open>The sweep as a whole\<close>

definition swept_copy :: "str \<Rightarrow> region list \<Rightarrow> span \<Rightarrow> span \<Rightarrow> bool" where
  "swept_copy raw regions a s \<longleftrightarrow>
     s = a\<lparr>sp_range := sp_range s, sp_source := Sweep\<rparr> \<and>
     span_text raw a \<noteq> None \<and> the (span_text raw a) \<noteq> [] \<and>
     sublist_at (the (span_text raw a)) (rstart (sp_range s)) raw \<and>
     rend (sp_range s) = rstart (sp_range s) + length (the (span_text raw a)) \<and>
     sweep_on_boundary raw (sp_range s) \<and>
     (\<exists>rg \<in> set regions. range_contains (region_span rg) (sp_range s))"

lemma sweepable_text:
  assumes "is_sweepable_identity raw s = Some True"
  shows "\<exists>v. span_text raw s = Some v \<and> v \<noteq> [] \<and>
    subtext raw (rstart (sp_range s)) (rend (sp_range s)) = v"
proof -
  have "\<not> has_distinctive_sweep_identity_shape []"
    by (simp add: has_distinctive_sweep_identity_shape_def trim_def)
  then show ?thesis
    using assms
    by (auto simp: is_sweepable_identity_def span_text_def str_slice_Some
        split: Option.bind_splits if_splits)
qed

definition text_of :: "str \<Rightarrow> span \<Rightarrow> str" where
  "text_of raw s = subtext raw (rstart (sp_range s)) (rend (sp_range s))"

lemma reps_sweepable:
  assumes "sweep_rep n_id raw accepted [] = Some rep" and "r \<in> set (sweep_reps rep)"
  shows "r \<in> set accepted \<and> is_sweepable_identity raw r = Some True"
  using sweep_rep_values [OF assms(1), of r] assms(2) by (simp add: sweep_reps_def)

lemma needles_reps:
  assumes "sweep_rep n_id raw accepted [] = Some rep"
  shows "sweep_needles raw (sweep_reps rep) = map (text_of raw) (sweep_reps rep)"
proof -
  have "text_of raw r \<noteq> []" if "r \<in> set (sweep_reps rep)" for r
    using sweepable_text reps_sweepable [OF assms that] unfolding text_of_def by blast
  then show ?thesis
    unfolding sweep_needles_def by (auto simp: text_of_def [abs_def] filter_id_conv)
qed

lemma sweep_candidates_set:
  "(i, r) \<in> set (sweep_candidates raw occupied region_index found) \<longleftrightarrow>
     (i, r) \<in> set found \<and> sweep_on_boundary raw r \<and> index_contains region_index r \<and>
     \<not> index_overlaps occupied r"
  by (simp add: sweep_candidates_def)

context overlapping_matcher begin

lemma candidate_occurrence:
  assumes "sweep_rep n_id raw accepted [] = Some rep" and reps: "reps = sweep_reps rep"
    and "(i, r) \<in> set (sweep_candidates raw occupied region_index
      (search (sweep_needles raw reps) raw))"
  shows "i < length reps" and "sublist_at (text_of raw (reps ! i)) (rstart r) raw"
    and "rend r = rstart r + length (text_of raw (reps ! i))" and "\<not> range_is_empty r"
    and "sweep_on_boundary raw r" and "\<exists>q \<in> set (ri_ranges region_index). range_contains q r"
    and "reps ! i \<in> set accepted" and "span_text raw (reps ! i) = Some (text_of raw (reps ! i))"
    and "is_sweepable_identity raw (reps ! i) = Some True"
proof -
  have occ: "occurrence (map (text_of raw) reps) raw i r" "sweep_on_boundary raw r"
      "index_contains region_index r"
    using assms by (auto simp: sweep_candidates_set search_iff needles_reps)
  then show i: "i < length reps" by (simp add: occurrence_def)
  then have mem: "reps ! i \<in> set (sweep_reps rep)" using reps by simp
  show sw: "is_sweepable_identity raw (reps ! i) = Some True" "reps ! i \<in> set accepted"
    using reps_sweepable [OF assms(1) mem] by auto
  then show "span_text raw (reps ! i) = Some (text_of raw (reps ! i))"
    using sweepable_text unfolding text_of_def by blast
  have "text_of raw (reps ! i) \<noteq> []"
    using sw(1) sweepable_text unfolding text_of_def by blast
  with occ i show "sublist_at (text_of raw (reps ! i)) (rstart r) raw"
    "rend r = rstart r + length (text_of raw (reps ! i))" "\<not> range_is_empty r"
    "sweep_on_boundary raw r" "\<exists>q \<in> set (ri_ranges region_index). range_contains q r"
    using ri.contains_sound by (auto simp: occurrence_def range_is_empty_def)
qed

lemma sweep_sound:
  assumes "identity_sweep search n_id raw accepted protected regions = Some out"
  shows "\<exists>new. set out = set accepted \<union> set new \<and> length out = length accepted + length new \<and>
    (\<forall>s \<in> set new. \<exists>a \<in> set accepted. is_sweepable_identity raw a = Some True \<and>
       swept_copy raw regions a s)"
proof -
  obtain rep where rep: "sweep_rep n_id raw accepted [] = Some rep"
    and out: "out = sweep_with search raw accepted protected regions (sweep_reps rep)"
    using assms by (auto simp: identity_sweep_def)
  define reps where "reps = sweep_reps rep"
  define new where "new = (if sweep_needles raw reps = [] then []
    else sweep_fill reps (index_new (map sp_range accepted @ protected))
      (sweep_candidates raw (index_new (map sp_range accepted @ protected))
        (index_new (map region_span regions)) (search (sweep_needles raw reps) raw)))"
  have "set out = set accepted \<union> set new" "length out = length accepted + length new"
    by (auto simp: out sweep_with_def new_def Let_def reps_def)
  moreover have "\<exists>a \<in> set accepted. is_sweepable_identity raw a = Some True \<and>
      swept_copy raw regions a s" if "s \<in> set new" for s
  proof -
    from that obtain p r where pr: "(p, r) \<in> set (sweep_candidates raw
          (index_new (map sp_range accepted @ protected)) (index_new (map region_span regions))
          (search (sweep_needles raw reps) raw))"
        and s: "s = (reps ! p)\<lparr>sp_range := r, sp_source := Sweep\<rparr>"
      by (auto simp: new_def dest!: sweep_fill_source split: if_splits)
    note occ = candidate_occurrence [OF rep reps_def pr]
    have "text_of raw (reps ! p) \<noteq> []" using occ(3,4) by (auto simp: range_is_empty_def)
    moreover have "\<exists>rg \<in> set regions. range_contains (region_span rg) r"
      using occ(6) by (auto simp: ri.ranges_new)
    ultimately have "swept_copy raw regions (reps ! p) s"
      using occ by (auto simp: swept_copy_def s)
    with occ(7,9) show ?thesis by blast
  qed
  ultimately show ?thesis by blast
qed

lemma sweep_disjoint:
  assumes "identity_sweep search n_id raw accepted protected regions = Some out"
    and disj: "disjoint_ranges (map sp_range accepted @ protected)"
    and solid: "\<forall>r \<in> set (map sp_range accepted @ protected). \<not> range_is_empty r"
  shows "disjoint_ranges (map sp_range out @ protected)"
proof -
  obtain rep where rep: "sweep_rep n_id raw accepted [] = Some rep"
    and out: "out = sweep_with search raw accepted protected regions (sweep_reps rep)"
    using assms(1) by (auto simp: identity_sweep_def)
  let ?occ = "index_new (map sp_range accepted @ protected)"
  let ?cands = "sweep_candidates raw ?occ (index_new (map region_span regions))
    (search (sweep_needles raw (sweep_reps rep)) raw)"
  let ?new = "sweep_fill (sweep_reps rep) ?occ ?cands"
  have "\<forall>(p, r) \<in> set ?cands. \<not> range_is_empty r"
    using candidate_occurrence(4) [OF rep refl] by blast
  from sweep_fill_disjoint [OF ri.inv_new [OF disj] this, of "sweep_reps rep"]
  have new: "disjoint_ranges (map sp_range ?new)"
    "\<forall>s \<in> set ?new. \<forall>q \<in> set (map sp_range accepted @ protected). \<not> range_overlaps q (sp_range s)"
    using solid by (auto simp: ri.ranges_new)
  have "disjoint_ranges (map sp_range (accepted @ ?new) @ protected)"
    using disj new
    by (auto simp: disjoint_ranges_def sorted_wrt_append range_overlaps_sym)
  then have "disjoint_ranges (map sp_range (sort_key (\<lambda>s. rstart (sp_range s)) (accepted @ ?new))
      @ protected)"
    using disjoint_ranges_sort_map [of sp_range "\<lambda>s. rstart (sp_range s)" "accepted @ ?new"]
    by (auto simp: disjoint_ranges_def sorted_wrt_append simp del: sort_key_simps)
  with disj show ?thesis by (simp add: out sweep_with_def Let_def)
qed

lemma sweep_complete:
  assumes "identity_sweep search n_id raw accepted protected regions = Some out"
    and disj: "disjoint_ranges (map sp_range accepted @ protected)"
    and regions: "disjoint_ranges (map region_span regions)"
    and a: "a \<in> set accepted" "is_sweepable_identity raw a = Some True" "span_text raw a = Some v"
    and unambiguous: "\<And>b w. b \<in> set accepted \<Longrightarrow> span_text raw b = Some w \<Longrightarrow>
        n_id w = n_id v \<Longrightarrow> w = v"
    and r: "sublist_at v (rstart r) raw" "rend r = rstart r + length v" "sweep_on_boundary raw r"
    and rg: "rg \<in> set regions" "range_contains (region_span rg) r"
  shows "\<exists>q \<in> sp_range ` set out \<union> set protected. range_overlaps q r"
proof -
  obtain rep where rep: "sweep_rep n_id raw accepted [] = Some rep"
    and out: "out = sweep_with search raw accepted protected regions (sweep_reps rep)"
    using assms(1) by (auto simp: identity_sweep_def)
  let ?occ = "index_new (map sp_range accepted @ protected)"
  let ?ri = "index_new (map region_span regions)"
  let ?reps = "sweep_reps rep"
  let ?cands = "sweep_candidates raw ?occ ?ri (search (sweep_needles raw ?reps) raw)"
  have v: "v \<noteq> []" using sweepable_text [OF a(2)] a(3) by auto
  then have ne: "\<not> range_is_empty r" using r(2) by (simp add: range_is_empty_def)
  have "rep_ok n_id raw rep" by (rule sweep_rep_ok [OF rep]) (simp add: rep_ok_def)
  moreover have "n_id v \<in> set (map fst rep)" using sweep_rep_domain [OF rep a] .
  ultimately obtain s w where s: "map_of rep (n_id v) = Some s" "span_text raw s = Some w"
      "n_id w = n_id v"
    unfolding rep_ok_def by (metis map_of_eq_None_iff not_None_eq set_map)
  have mem: "s \<in> set ?reps"
    using map_of_SomeD [OF s(1)] by (auto simp: sweep_reps_def intro: rev_image_eqI)
  from reps_sweepable [OF rep mem] have "w = v" using unambiguous s by blast
  with s(2) have needle: "text_of raw s = v" by (simp add: text_of_def span_text_def str_slice_Some)
  obtain i where i: "i < length ?reps" "?reps ! i = s" using mem by (auto simp: in_set_conv_nth)
  have "(i, r) \<in> set (search (sweep_needles raw ?reps) raw)"
    using i needle r by (simp add: search_iff occurrence_def needles_reps [OF rep])
  moreover have "sweep_needles raw ?reps \<noteq> []" using mem by (auto simp: needles_reps [OF rep])
  moreover have "\<not> range_is_empty (region_span rg)"
    using rg(2) ne by (auto simp: range_defs)
  then have "index_contains ?ri r"
    using rg by (intro ri.contains_complete [OF ri.inv_new [OF regions] ne]) (auto simp: ri.ranges_new)
  ultimately have outs: "set out = set accepted \<union> set (sweep_fill ?reps ?occ ?cands)"
    and cand: "index_overlaps ?occ r \<or> (i, r) \<in> set ?cands"
    using r(3) by (auto simp: out sweep_with_def Let_def sweep_candidates_set)
  have solid: "\<forall>(p, r) \<in> set ?cands. \<not> range_is_empty r"
    using candidate_occurrence(4) [OF rep refl] by blast
  from cand show ?thesis
  proof
    assume "index_overlaps ?occ r"
    from ri.overlaps_sound [OF this] outs show ?thesis by (auto simp: ri.ranges_new)
  next
    assume "(i, r) \<in> set ?cands"
    from sweep_fill_covers [OF ri.inv_new [OF disj] solid this, of ?reps] outs
    show ?thesis by (auto simp: ri.ranges_new)
  qed
qed

end

lemma sweep_total:
  assumes "\<forall>s \<in> set accepted. span_text raw s \<noteq> None"
  shows "sweep_rep n_id raw accepted rep \<noteq> None"
  using assms
proof (induction accepted arbitrary: rep)
  case (Cons a accepted)
  then have "is_sweepable_identity raw a \<noteq> None"
    by (auto simp: is_sweepable_identity_def is_structural_sweepable_identity_def)
  with Cons show ?case by auto
qed simp


section \<open>Properties\<close>

text \<open>
  The sweep never drops or alters a finding and never invents one: with valid ranges it
  returns, every accepted finding is in its output, and every addition is a copy of a
  sweepable accepted finding at another exact occurrence of its text, on token boundaries and
  inside one region, marked with the source \<open>Sweep\<close>.
\<close>

theorem sweep_adds_exact_copies:
  assumes "overlapping_matcher search" and "\<forall>s \<in> set accepted. span_text raw s \<noteq> None"
  shows "\<exists>out new. identity_sweep search n_id raw accepted protected regions = Some out \<and>
    set out = set accepted \<union> set new \<and> length out = length accepted + length new \<and>
    (\<forall>s \<in> set new. \<exists>a \<in> set accepted. is_sweepable_identity raw a = Some True \<and>
       swept_copy raw regions a s)"
proof -
  obtain out where out: "identity_sweep search n_id raw accepted protected regions = Some out"
    using sweep_total [OF assms(2)] by (fastforce simp: identity_sweep_def)
  with overlapping_matcher.sweep_sound [OF assms(1) out] show ?thesis by blast
qed

definition example_text :: str where
  "example_text = ''k AKIA1234 x AKIA1234 AKIA12345''"

definition example_regions :: "region list" where
  "example_regions = [\<lparr>region_span = range_new 0 31, region_ctx =
     \<lparr>ctx_path = None, ctx_key = None, ctx_hints = [], ctx_kind = PlainText, ctx_format = KText\<rparr>\<rparr>]"

definition example_hit :: "nat \<Rightarrow> nat \<Rightarrow> detector_id \<Rightarrow> span" where
  "example_hit s e d =
     \<lparr>sp_range = range_new s e, sp_category = Secret, sp_label = ''AWS_AKID'',
      sp_confidence = High, sp_source = d\<rparr>"

lemma sweep_adds_exact_copies_witness:
  "\<exists>out new. identity_sweep reference_find id example_text [example_hit 2 10 Rule] [] example_regions
      = Some out \<and>
    set out = set [example_hit 2 10 Rule] \<union> set new \<and>
    length out = length [example_hit 2 10 Rule] + length new \<and>
    (\<forall>s \<in> set new. \<exists>a \<in> set [example_hit 2 10 Rule].
       is_sweepable_identity example_text a = Some True \<and>
       swept_copy example_text example_regions a s)"
  by (rule sweep_adds_exact_copies [OF reference.overlapping_matcher_axioms]) code_simp

text \<open>
  The sweep keeps the output free of overlaps: when the accepted findings and the protected
  placeholders are pairwise disjoint and non-empty, so are the swept findings and they.
\<close>

theorem sweep_keeps_disjoint:
  assumes "overlapping_matcher search"
    and "identity_sweep search n_id raw accepted protected regions = Some out"
    and "disjoint_ranges (map sp_range accepted @ protected)"
    and "\<forall>r \<in> set (map sp_range accepted @ protected). \<not> range_is_empty r"
  shows "disjoint_ranges (map sp_range out @ protected)"
  using assms by (rule overlapping_matcher.sweep_disjoint)

lemma sweep_keeps_disjoint_witness:
  "disjoint_ranges (map sp_range [example_hit 2 10 Rule, example_hit 13 21 Sweep] @ [])"
proof (rule sweep_keeps_disjoint [OF reference.overlapping_matcher_axioms])
  show "identity_sweep reference_find id example_text [example_hit 2 10 Rule] [] example_regions
    = Some [example_hit 2 10 Rule, example_hit 13 21 Sweep]"
    by code_simp
qed code_simp+

text \<open>
  C28. No masked value survives in plain text: every occurrence of the text of a sweepable
  accepted finding that lies on token boundaries and inside a region shares a byte with a
  finding of the output or with a protected placeholder. The identities have to be
  unambiguous: two accepted values that NFC identifies but that differ in their bytes have one
  representative, and only its bytes are searched for.
\<close>

theorem sweep_leaves_no_occurrence:
  assumes "overlapping_matcher search"
    and "identity_sweep search n_id raw accepted protected regions = Some out"
    and "disjoint_ranges (map sp_range accepted @ protected)"
    and "disjoint_ranges (map region_span regions)"
    and "a \<in> set accepted" and "is_sweepable_identity raw a = Some True"
    and "span_text raw a = Some v"
    and "\<forall>b \<in> set accepted. \<forall>w. span_text raw b = Some w \<longrightarrow> n_id w = n_id v \<longrightarrow> w = v"
    and "sublist_at v (rstart r) raw" and "rend r = rstart r + length v"
    and "sweep_on_boundary raw r"
    and "rg \<in> set regions" and "range_contains (region_span rg) r"
  shows "\<exists>q \<in> sp_range ` set out \<union> set protected. range_overlaps q r"
  using overlapping_matcher.sweep_complete [OF assms(1-7) _ assms(9-13)] assms(8) by blast

lemma sweep_leaves_no_occurrence_witness:
  "\<exists>q \<in> sp_range ` set [example_hit 2 10 Rule, example_hit 13 21 Sweep] \<union> set [].
     range_overlaps q (range_new 13 21)"
proof (rule sweep_leaves_no_occurrence [OF reference.overlapping_matcher_axioms])
  show "identity_sweep reference_find id example_text [example_hit 2 10 Rule] [] example_regions
    = Some [example_hit 2 10 Rule, example_hit 13 21 Sweep]"
    by code_simp
  show "\<forall>b \<in> set [example_hit 2 10 Rule]. \<forall>w. span_text example_text b = Some w \<longrightarrow>
      id w = id ''AKIA1234'' \<longrightarrow> w = ''AKIA1234''"
    by simp
  show "hd example_regions \<in> set example_regions" by (simp add: example_regions_def)
  show "example_hit 2 10 Rule \<in> set [example_hit 2 10 Rule]" by simp
qed code_simp+

end
