(* ===== verification/Render.thy ===== *)
theory Render
  imports Placeholder Merge Sweep
begin

text \<open>
  Rendering, \<open>crates/pentect-core/src/pipeline/render.rs\<close>: each finding is replaced by its
  placeholder and the placeholder is recorded with the original bytes. The \<open>HashMap\<close>s are
  association lists in insertion order; a panic (a slice off a character boundary, the assertion
  on a collision of full hashes) is \<open>None\<close>.
\<close>


section \<open>Segments and results\<close>

datatype render_segment =
  Literal str
| Masked str str category confidence

fun segment_text :: "render_segment \<Rightarrow> str" where
  "segment_text (Literal t) = t"
| "segment_text (Masked t _ _ _) = t"

type_synonym cache_key = "str \<times> str \<times> 32 word option"

record rendered =
  rn_masked :: str
  rn_segments :: "render_segment list"
  rn_map :: "(str \<times> str) list"
  rn_collisions :: "str list"

text \<open>The state of the loop: the result so far with the placeholder cache.\<close>

record render_state = rendered +
  rn_cache :: "(cache_key \<times> str) list"


section \<open>One finding\<close>

definition EXPLICIT_SECRET_PREFIXES :: "str list" where
  "EXPLICIT_SECRET_PREFIXES = [''pentect('', ''mask('']"

definition split_email :: "str \<Rightarrow> (str \<times> str) option" where
  "split_email v =
     do {
       (local_part, domain) \<leftarrow> split_once ''@'' v;
       let tld = last (split_on CHR ''.'' domain);
       if local_part = [] \<or> List.member domain CHR ''@'' \<or> \<not> List.member domain CHR ''.'' \<or>
          length tld < 2 \<or> \<not> list_all is_ascii_alphabetic tld
       then None else Some (local_part, domain)
     }"

definition explicit_wrapper_bounds :: "str \<Rightarrow> span \<Rightarrow> (nat \<times> nat) option" where
  "explicit_wrapper_bounds raw s =
     (if sp_source s \<noteq> Explicit then None
      else
        map_option
          (\<lambda>p. (rstart (sp_range s) - length p, rend (sp_range s) + 1))
          (List.find
            (\<lambda>p. length p \<le> rstart (sp_range s) \<and>
               str_slice raw (rstart (sp_range s) - length p) (rstart (sp_range s)) = Some p \<and>
               rend (sp_range s) < length raw \<and> raw ! rend (sp_range s) = CHR '')'')
            EXPLICIT_SECRET_PREFIXES))"

definition should_split_email :: "span \<Rightarrow> bool" where
  "should_split_email s \<longleftrightarrow>
     \<not> ((sp_source s = Plugin \<and> sp_label s = ''EMAIL'') \<or>
        (sp_source s = Alcatraz \<and> sp_label s = ''EMAIL_ADDRESS''))"

definition push_literal :: "str \<Rightarrow> render_state \<Rightarrow> render_state" where
  "push_literal t st =
     (if t = [] then st
      else st\<lparr>rn_masked := rn_masked st @ t, rn_segments := rn_segments st @ [Literal t]\<rparr>)"

text \<open>\<open>record\<close>: whether the placeholder already stands for a different value, and the new map.\<close>

definition record_value :: "(str \<times> str) list \<Rightarrow> str \<Rightarrow> str \<Rightarrow> bool \<times> (str \<times> str) list" where
  "record_value m ph v =
     (case map_of m ph of
        Some existing \<Rightarrow> (existing \<noteq> v, m)
      | None \<Rightarrow> (False, m @ [(ph, v)]))"

text \<open>The placeholder of a value, with the state in which it is recorded and cached.\<close>

definition masked_seg ::
    "hmac_fun \<Rightarrow> str \<Rightarrow> span \<Rightarrow> str \<Rightarrow> 32 word option \<Rightarrow> render_state \<Rightarrow>
     (str \<times> render_state) option" where
  "masked_seg hmac key s v len st =
     (let cache_key = (sp_label s, v, len)
      in case map_of (rn_cache st) cache_key of
           Some ph \<Rightarrow> Some (ph, st)
         | None \<Rightarrow>
             let ph = render_placeholder (sp_label s) (hasher_hash hmac key v) len;
                 (collision, m) = record_value (rn_map st) ph v
             in if \<not> collision then
                  Some (ph, st\<lparr>rn_map := m, rn_cache := (cache_key, ph) # rn_cache st\<rparr>)
                else
                  let full = render_placeholder (sp_label s) (hasher_full_hash hmac key v) len;
                      (full_collision, m') = record_value m full v
                  in if full_collision then None
                     else Some (full,
                       st\<lparr>rn_map := m', rn_collisions := rn_collisions st @ [ph],
                          rn_cache := (cache_key, full) # rn_cache st\<rparr>))"

definition push_masked ::
    "hmac_fun \<Rightarrow> str \<Rightarrow> span \<Rightarrow> str \<Rightarrow> 32 word option \<Rightarrow> render_state \<Rightarrow>
     render_state option" where
  "push_masked hmac key s v len st =
     map_option
       (\<lambda>(ph, st'). st'\<lparr>rn_masked := rn_masked st' @ ph,
          rn_segments := rn_segments st' @
            [Masked ph (sp_label s) (sp_category s) (sp_confidence s)]\<rparr>)
       (masked_seg hmac key s v len st)"

definition char_count :: "bool \<Rightarrow> str \<Rightarrow> 32 word option" where
  "char_count disclose v = (if disclose then Some (word_of_nat (length (utf8_chars v))) else None)"

definition render_value ::
    "hmac_fun \<Rightarrow> str \<Rightarrow> bool \<Rightarrow> span \<Rightarrow> str \<Rightarrow> render_state \<Rightarrow> render_state option" where
  "render_value hmac key disclose s v st =
     (case (if should_split_email s then split_email v else None) of
        Some (local_part, domain) \<Rightarrow>
          do {
            st \<leftarrow> push_masked hmac key s local_part (char_count disclose local_part) st;
            push_masked hmac key s domain (char_count disclose domain) (push_literal ''@'' st)
          }
      | None \<Rightarrow> push_masked hmac key s v (char_count disclose v) st)"


section \<open>The loop\<close>

definition render_step ::
    "hmac_fun \<Rightarrow> str \<Rightarrow> str \<Rightarrow> bool \<Rightarrow> span \<Rightarrow> nat \<times> render_state \<Rightarrow>
     (nat \<times> render_state) option" where
  "render_step hmac raw key disclose s = (\<lambda>(cursor, st).
     if rstart (sp_range s) < cursor then Some (cursor, st)
     else
       let wrapper = explicit_wrapper_bounds raw s;
           literal_end = max (case wrapper of Some (a, _) \<Rightarrow> a | None \<Rightarrow> rstart (sp_range s)) cursor
       in do {
            lit \<leftarrow> str_slice raw cursor literal_end;
            v \<leftarrow> str_slice raw (rstart (sp_range s)) (rend (sp_range s));
            st \<leftarrow> render_value hmac key disclose s v (push_literal lit st);
            Some (case wrapper of Some (_, b) \<Rightarrow> b | None \<Rightarrow> rend (sp_range s), st)
          })"

fun render_loop ::
    "hmac_fun \<Rightarrow> str \<Rightarrow> str \<Rightarrow> bool \<Rightarrow> span list \<Rightarrow> nat \<times> render_state \<Rightarrow>
     (nat \<times> render_state) option" where
  "render_loop hmac raw key disclose [] cst = Some cst"
| "render_loop hmac raw key disclose (s # spans) cst =
     do {
       cst \<leftarrow> render_step hmac raw key disclose s cst;
       render_loop hmac raw key disclose spans cst
     }"

definition render_start :: render_state where
  "render_start =
     \<lparr>rn_masked = [], rn_segments = [], rn_map = [], rn_collisions = [], rn_cache = []\<rparr>"

definition render :: "hmac_fun \<Rightarrow> str \<Rightarrow> str \<Rightarrow> span list \<Rightarrow> bool \<Rightarrow> rendered option" where
  "render hmac raw key spans disclose =
     do {
       (cursor, st) \<leftarrow> render_loop hmac raw key disclose
          (sort_key (\<lambda>s. rstart (sp_range s)) spans) (0, render_start);
       lit \<leftarrow> str_slice raw cursor (length raw);
       Some (rendered.truncate (push_literal lit st))
     }"


section \<open>What rendering produces\<close>

text \<open>
  The segments of a document under a choice of placeholders: the text between the findings
  literally, each finding as one placeholder or, for an email address, as two around a literal
  \<open>@\<close>. \<open>span_parts\<close> lists the values that get a placeholder.
\<close>

definition value_parts :: "span \<Rightarrow> str \<Rightarrow> str list" where
  "value_parts s v =
     (case (if should_split_email s then split_email v else None) of
        Some (local_part, domain) \<Rightarrow> [local_part, domain]
      | None \<Rightarrow> [v])"

fun joined_by_at :: "render_segment list \<Rightarrow> render_segment list" where
  "joined_by_at (x # y # zs) = x # Literal ''@'' # joined_by_at (y # zs)"
| "joined_by_at xs = xs"

definition value_segments :: "(span \<Rightarrow> str \<Rightarrow> str) \<Rightarrow> span \<Rightarrow> str \<Rightarrow> render_segment list" where
  "value_segments pick s v =
     joined_by_at (map (\<lambda>p. Masked (pick s p) (sp_label s) (sp_category s) (sp_confidence s))
       (value_parts s v))"

definition literal_segments :: "str \<Rightarrow> render_segment list" where
  "literal_segments t = (if t = [] then [] else [Literal t])"

text \<open>Where the text before a finding ends and where the text after it starts.\<close>

definition literal_end_of :: "str \<Rightarrow> nat \<Rightarrow> span \<Rightarrow> nat" where
  "literal_end_of raw cursor s =
     max (case explicit_wrapper_bounds raw s of Some (a, _) \<Rightarrow> a | None \<Rightarrow> rstart (sp_range s)) cursor"

definition cursor_after :: "str \<Rightarrow> span \<Rightarrow> nat" where
  "cursor_after raw s =
     (case explicit_wrapper_bounds raw s of Some (_, b) \<Rightarrow> b | None \<Rightarrow> rend (sp_range s))"

definition value_of :: "str \<Rightarrow> span \<Rightarrow> str" where
  "value_of raw s = subtext raw (rstart (sp_range s)) (rend (sp_range s))"

fun rendered_spans :: "str \<Rightarrow> nat \<Rightarrow> span list \<Rightarrow> span list" where
  "rendered_spans raw cursor [] = []"
| "rendered_spans raw cursor (s # spans) =
     (if rstart (sp_range s) < cursor then rendered_spans raw cursor spans
      else s # rendered_spans raw (cursor_after raw s) spans)"

fun layout :: "str \<Rightarrow> (span \<Rightarrow> str \<Rightarrow> str) \<Rightarrow> nat \<Rightarrow> span list \<Rightarrow> render_segment list" where
  "layout raw pick cursor [] = literal_segments (drop cursor raw)"
| "layout raw pick cursor (s # spans) =
     (if rstart (sp_range s) < cursor then layout raw pick cursor spans
      else literal_segments (subtext raw cursor (literal_end_of raw cursor s))
        @ value_segments pick s (value_of raw s)
        @ layout raw pick (cursor_after raw s) spans)"

definition handle_for ::
    "hmac_fun \<Rightarrow> str \<Rightarrow> (str \<rightharpoonup> str) \<Rightarrow> str \<Rightarrow> 32 word option \<Rightarrow> str \<Rightarrow> str \<Rightarrow> bool" where
  "handle_for hmac key m label len v ph \<longleftrightarrow>
     m ph = Some v \<and>
     (ph = render_placeholder label (hasher_hash hmac key v) len \<or>
      ph = render_placeholder label (hasher_full_hash hmac key v) len)"

definition cache_ok :: "hmac_fun \<Rightarrow> str \<Rightarrow> render_state \<Rightarrow> bool" where
  "cache_ok hmac key st \<longleftrightarrow>
     (\<forall>label v len ph. map_of (rn_cache st) (label, v, len) = Some ph \<longrightarrow>
        handle_for hmac key (map_of (rn_map st)) label len v ph)"

definition state_le :: "render_state \<Rightarrow> render_state \<Rightarrow> bool" where
  "state_le st st' \<longleftrightarrow>
     map_of (rn_map st) \<subseteq>\<^sub>m map_of (rn_map st') \<and> map_of (rn_cache st) \<subseteq>\<^sub>m map_of (rn_cache st')"

lemma state_le_refl [simp]: "state_le st st"
  by (simp add: state_le_def)

lemma state_le_trans: "state_le a b \<Longrightarrow> state_le b c \<Longrightarrow> state_le a c"
  by (auto simp: state_le_def intro: map_le_trans)

lemma handle_for_mono: "handle_for hmac key m label len v ph \<Longrightarrow> m \<subseteq>\<^sub>m m' \<Longrightarrow>
    handle_for hmac key m' label len v ph"
  by (auto simp: handle_for_def map_le_def dom_def)

lemma record_value_False:
  assumes "record_value m ph v = (False, m')"
  shows "map_of m \<subseteq>\<^sub>m map_of m'" and "map_of m' ph = Some v"
  using assms by (auto simp: record_value_def map_le_def map_add_def split: option.splits)

lemma record_value_True: "record_value m ph v = (True, m') \<Longrightarrow> m' = m"
  by (auto simp: record_value_def split: option.splits)

lemma cache_ok_extend:
  assumes "cache_ok hmac key st" and "map_of (rn_map st) \<subseteq>\<^sub>m map_of m"
    and "handle_for hmac key (map_of m) label len v ph"
  shows "cache_ok hmac key (st\<lparr>rn_map := m, rn_cache := ((label, v, len), ph) # rn_cache st\<rparr>)"
proof -
  have cache: "map_of (rn_cache (st\<lparr>rn_map := m, rn_cache := (k, ph) # rn_cache st\<rparr>)) k' =
      (if k' = k then Some ph else map_of (rn_cache st) k')" for k k'
    by simp
  have "rn_map (st\<lparr>rn_map := m, rn_cache := c\<rparr>) = m" for c by simp
  then show ?thesis
    using assms handle_for_mono [OF _ assms(2)]
    unfolding cache_ok_def cache by (metis option.inject prod.inject)
qed

lemma masked_seg_ok:
  assumes "masked_seg hmac key s v len st = Some (ph, st')" and "cache_ok hmac key st"
  shows "cache_ok hmac key st'" and "state_le st st'"
    and "map_of (rn_cache st') (sp_label s, v, len) = Some ph"
    and "rn_segments st' = rn_segments st" and "rn_masked st' = rn_masked st"
proof -
  let ?k = "(sp_label s, v, len)"
    and ?short = "render_placeholder (sp_label s) (hasher_hash hmac key v) len"
    and ?full = "render_placeholder (sp_label s) (hasher_full_hash hmac key v) len"
  have "cache_ok hmac key st' \<and> state_le st st' \<and> map_of (rn_cache st') ?k = Some ph \<and>
      rn_segments st' = rn_segments st \<and> rn_masked st' = rn_masked st"
  proof (cases "map_of (rn_cache st) ?k")
    case (Some ph')
    with assms show ?thesis by (simp add: masked_seg_def Let_def)
  next
    case None
    have grow: "map_of (rn_cache st) \<subseteq>\<^sub>m (map_of (rn_cache st))(?k \<mapsto> ph)"
      using None by (auto simp: map_le_def)
    obtain c m where c: "record_value (rn_map st) ?short v = (c, m)" by force
    show ?thesis
    proof (cases c)
      case False
      have "ph = ?short" "st' = st\<lparr>rn_map := m, rn_cache := (?k, ph) # rn_cache st\<rparr>"
        using assms(1) None c False by (auto simp: masked_seg_def Let_def)
      moreover have "handle_for hmac key (map_of m) (sp_label s) len v ?short"
        using record_value_False c False by (auto simp: handle_for_def)
      ultimately show ?thesis
        using cache_ok_extend [OF assms(2)] record_value_False c False grow
        by (auto simp: state_le_def)
    next
      case True
      then have m: "m = rn_map st" using record_value_True c by simp
      obtain c' m' where c': "record_value (rn_map st) ?full v = (c', m')" by force
      have "ph = ?full" "\<not> c'" and st': "st' = st\<lparr>rn_map := m',
          rn_collisions := rn_collisions st @ [?short], rn_cache := (?k, ph) # rn_cache st\<rparr>"
        using assms(1) None c c' True m by (auto simp: masked_seg_def Let_def split: if_splits)
      moreover have "handle_for hmac key (map_of m') (sp_label s) len v ?full"
        using record_value_False c' \<open>\<not> c'\<close> by (auto simp: handle_for_def)
      ultimately have "cache_ok hmac key (st\<lparr>rn_map := m', rn_cache := (?k, ph) # rn_cache st\<rparr>)"
        using cache_ok_extend [OF assms(2)] record_value_False c' by auto
      then show ?thesis
        using record_value_False c' \<open>\<not> c'\<close> grow
        by (auto simp: state_le_def st' cache_ok_def)
    qed
  qed
  then show "cache_ok hmac key st'" "state_le st st'" "map_of (rn_cache st') ?k = Some ph"
    "rn_segments st' = rn_segments st" "rn_masked st' = rn_masked st"
    by auto
qed

text \<open>
  A step extends the segments by a piece, keeps the maps growing and the text equal to the
  concatenation of the segments.
\<close>

definition segments_text :: "render_segment list \<Rightarrow> str" where
  "segments_text segs = concat (map segment_text segs)"

lemma segments_text_simps [simp]:
  "segments_text [] = []"
  "segments_text (x # xs) = segment_text x @ segments_text xs"
  "segments_text (xs @ ys) = segments_text xs @ segments_text ys"
  by (simp_all add: segments_text_def)

definition extends :: "hmac_fun \<Rightarrow> str \<Rightarrow> render_state \<Rightarrow> render_state \<Rightarrow> render_segment list \<Rightarrow> bool" where
  "extends hmac key st st' segs \<longleftrightarrow>
     (cache_ok hmac key st \<longrightarrow> cache_ok hmac key st') \<and> state_le st st' \<and>
     rn_segments st' = rn_segments st @ segs \<and> rn_masked st' = rn_masked st @ segments_text segs"

lemma extends_trans:
  "extends hmac key st st' xs \<Longrightarrow> extends hmac key st' st'' ys \<Longrightarrow> extends hmac key st st'' (xs @ ys)"
  by (auto simp: extends_def intro: state_le_trans)

lemma extends_refl: "extends hmac key st st []"
  by (simp add: extends_def)

lemma push_literal_extends: "extends hmac key st (push_literal t st) (literal_segments t)"
  by (auto simp: extends_def push_literal_def literal_segments_def state_le_def cache_ok_def)

text \<open>The placeholder a cache chooses.\<close>

definition cache_pick :: "(cache_key \<times> str) list \<Rightarrow> bool \<Rightarrow> span \<Rightarrow> str \<Rightarrow> str" where
  "cache_pick c disclose s v = the (map_of c (sp_label s, v, char_count disclose v))"

definition cached :: "(cache_key \<times> str) list \<Rightarrow> bool \<Rightarrow> span \<Rightarrow> str \<Rightarrow> bool" where
  "cached c disclose s v \<longleftrightarrow> map_of c (sp_label s, v, char_count disclose v) \<noteq> None"

lemma cached_mono:
  assumes "cached c disclose s v" and "map_of c \<subseteq>\<^sub>m map_of c'"
  shows "cached c' disclose s v" and "cache_pick c' disclose s v = cache_pick c disclose s v"
  using assms by (auto simp: cached_def cache_pick_def map_le_def dom_def)

lemma push_masked_extends:
  assumes "push_masked hmac key s v (char_count disclose v) st = Some st'"
    and "cache_ok hmac key st"
  shows "extends hmac key st st'
      [Masked (cache_pick (rn_cache st') disclose s v) (sp_label s) (sp_category s) (sp_confidence s)]"
    and "cached (rn_cache st') disclose s v"
proof -
  obtain ph st1 where seg: "masked_seg hmac key s v (char_count disclose v) st = Some (ph, st1)"
    and st': "st' = st1\<lparr>rn_masked := rn_masked st1 @ ph, rn_segments := rn_segments st1 @
        [Masked ph (sp_label s) (sp_category s) (sp_confidence s)]\<rparr>"
    using assms(1) by (auto simp: push_masked_def)
  note ok = masked_seg_ok [OF seg assms(2)]
  show "cached (rn_cache st') disclose s v"
    using ok(3) by (simp add: cached_def st')
  have "cache_pick (rn_cache st') disclose s v = ph"
    using ok(3) by (simp add: cache_pick_def st')
  then show "extends hmac key st st'
      [Masked (cache_pick (rn_cache st') disclose s v) (sp_label s) (sp_category s) (sp_confidence s)]"
    using ok by (simp add: extends_def st' cache_ok_def state_le_def)
qed

lemma render_value_extends:
  assumes "render_value hmac key disclose s v st = Some st'" and "cache_ok hmac key st"
  shows "extends hmac key st st' (value_segments (cache_pick (rn_cache st') disclose) s v)"
    and "\<forall>w \<in> set (value_parts s v). cached (rn_cache st') disclose s w"
proof -
  have "extends hmac key st st' (value_segments (cache_pick (rn_cache st') disclose) s v) \<and>
    (\<forall>w \<in> set (value_parts s v). cached (rn_cache st') disclose s w)"
  proof (cases "if should_split_email s then split_email v else None")
    case None
    then show ?thesis
      using assms push_masked_extends [OF _ assms(2), of s v disclose st']
      by (simp add: render_value_def value_parts_def value_segments_def)
  next
    case (Some lr)
    obtain l d where lr: "lr = (l, d)" by force
    from assms(1) Some obtain st1 where
      st1: "push_masked hmac key s l (char_count disclose l) st = Some st1" and
      st2: "push_masked hmac key s d (char_count disclose d) (push_literal ''@'' st1) = Some st'"
      by (auto simp: render_value_def lr split: Option.bind_splits)
    note e1 = push_masked_extends [OF st1 assms(2)]
    have ok1: "cache_ok hmac key st1" using e1(1) assms(2) by (simp add: extends_def)
    note lit = push_literal_extends [of hmac key st1 "''@''"]
    have ok2: "cache_ok hmac key (push_literal ''@'' st1)" using lit ok1 by (simp add: extends_def)
    note e2 = push_masked_extends [OF st2 ok2]
    have "state_le st1 st'" using lit e2(1) state_le_trans unfolding extends_def by blast
    then have le: "map_of (rn_cache st1) \<subseteq>\<^sub>m map_of (rn_cache st')" by (simp add: state_le_def)
    note c = cached_mono [OF e1(2) le]
    show ?thesis
      using extends_trans [OF extends_trans [OF e1(1) lit] e2(1)] Some c e2(2)
      by (simp add: value_parts_def value_segments_def lr literal_segments_def)
  qed
  then show "extends hmac key st st' (value_segments (cache_pick (rn_cache st') disclose) s v)"
    "\<forall>w \<in> set (value_parts s v). cached (rn_cache st') disclose s w" by auto
qed

lemma value_segments_cong:
  assumes "\<And>w. w \<in> set (value_parts s v) \<Longrightarrow> f s w = g s w"
  shows "value_segments f s v = value_segments g s v"
  using assms unfolding value_segments_def by (auto intro!: arg_cong [of _ _ joined_by_at])

text \<open>The values that get a placeholder, with their findings.\<close>

definition placed_values :: "str \<Rightarrow> span list \<Rightarrow> (span \<times> str) list" where
  "placed_values raw spans =
     concat (map (\<lambda>s. map (Pair s) (value_parts s (value_of raw s))) spans)"

lemma render_step_extends:
  assumes "render_step hmac raw key disclose s (cursor, st) = Some (cursor', st')"
    and "cache_ok hmac key st" and "\<not> rstart (sp_range s) < cursor"
  shows "cursor' = cursor_after raw s"
    and "extends hmac key st st'
      (literal_segments (subtext raw cursor (literal_end_of raw cursor s)) @
       value_segments (cache_pick (rn_cache st') disclose) s (value_of raw s))"
    and "\<forall>w \<in> set (value_parts s (value_of raw s)). cached (rn_cache st') disclose s w"
    and "span_text raw s = Some (value_of raw s)"
    and "str_slice raw cursor (literal_end_of raw cursor s) =
      Some (subtext raw cursor (literal_end_of raw cursor s))"
proof -
  from assms obtain lit v where
    lit: "str_slice raw cursor (literal_end_of raw cursor s) = Some lit" and
    v: "str_slice raw (rstart (sp_range s)) (rend (sp_range s)) = Some v" and
    r: "render_value hmac key disclose s v (push_literal lit st) = Some st'" and
    c: "cursor' = cursor_after raw s"
    by (auto simp: render_step_def Let_def literal_end_of_def cursor_after_def
        split: Option.bind_splits)
  from v have v': "v = value_of raw s" by (simp add: str_slice_Some value_of_def)
  from lit have lit': "lit = subtext raw cursor (literal_end_of raw cursor s)"
    by (auto simp: str_slice_Some)
  note e1 = push_literal_extends [of hmac key st lit]
  have ok: "cache_ok hmac key (push_literal lit st)" using e1 assms(2) by (simp add: extends_def)
  note e2 = render_value_extends [OF r ok]
  show "cursor' = cursor_after raw s" by (rule c)
  show "str_slice raw cursor (literal_end_of raw cursor s) =
      Some (subtext raw cursor (literal_end_of raw cursor s))"
    using lit unfolding lit' .
  show "span_text raw s = Some (value_of raw s)" using v v' by (simp add: span_text_def)
  show "extends hmac key st st'
      (literal_segments (subtext raw cursor (literal_end_of raw cursor s)) @
       value_segments (cache_pick (rn_cache st') disclose) s (value_of raw s))"
    using extends_trans [OF e1 e2(1)] unfolding lit' v' .
  show "\<forall>w \<in> set (value_parts s (value_of raw s)). cached (rn_cache st') disclose s w"
    using e2(2) unfolding v' .
qed

text \<open>Every literal segment is a slice of the document, or the \<open>@\<close> of an address.\<close>

definition literal_ok :: "str \<Rightarrow> render_segment \<Rightarrow> bool" where
  "literal_ok raw seg \<longleftrightarrow>
     (\<forall>t. seg = Literal t \<longrightarrow> t = ''@'' \<or> (\<exists>a b. str_slice raw a b = Some t))"

lemma literal_ok_value: "\<forall>seg \<in> set (value_segments pick s v). literal_ok raw seg"
  by (auto simp: value_segments_def value_parts_def literal_ok_def split: option.splits)

lemma literal_ok_slice:
  "str_slice raw a b = Some t \<Longrightarrow> \<forall>seg \<in> set (literal_segments t). literal_ok raw seg"
  by (auto simp: literal_segments_def literal_ok_def)

definition loop_result ::
    "hmac_fun \<Rightarrow> str \<Rightarrow> str \<Rightarrow> bool \<Rightarrow> nat \<Rightarrow> span list \<Rightarrow> render_state \<Rightarrow> nat \<Rightarrow>
     render_state \<Rightarrow> render_segment list \<Rightarrow> bool" where
  "loop_result hmac raw key disclose cursor spans st cursor' st' segs \<longleftrightarrow>
     extends hmac key st st' segs \<and>
     (\<forall>c. map_of (rn_cache st') \<subseteq>\<^sub>m map_of c \<longrightarrow>
        layout raw (cache_pick c disclose) cursor spans = segs @ literal_segments (drop cursor' raw)) \<and>
     (\<forall>(s, w) \<in> set (placed_values raw (rendered_spans raw cursor spans)).
        cached (rn_cache st') disclose s w) \<and>
     (\<forall>s \<in> set (rendered_spans raw cursor spans). span_text raw s = Some (value_of raw s)) \<and>
     (\<forall>seg \<in> set segs. literal_ok raw seg)"

lemma render_loop_result:
  assumes "render_loop hmac raw key disclose spans (cursor, st) = Some (cursor', st')"
    and "cache_ok hmac key st"
  shows "\<exists>segs. loop_result hmac raw key disclose cursor spans st cursor' st' segs"
  using assms
proof (induction spans arbitrary: cursor st)
  case Nil
  then show ?case
    by (intro exI [of _ "[]"]) (simp add: loop_result_def extends_refl placed_values_def)
next
  case (Cons s spans)
  show ?case
  proof (cases "rstart (sp_range s) < cursor")
    case True
    then have "render_loop hmac raw key disclose spans (cursor, st) = Some (cursor', st')"
      using Cons.prems(1) by (simp add: render_step_def)
    from Cons.IH [OF this Cons.prems(2)] True show ?thesis by (simp add: loop_result_def)
  next
    case False
    from Cons.prems(1) obtain c1 st1 where
      step: "render_step hmac raw key disclose s (cursor, st) = Some (c1, st1)" and
      rest: "render_loop hmac raw key disclose spans (c1, st1) = Some (cursor', st')"
      by (auto split: Option.bind_splits)
    note e1 = render_step_extends [OF step Cons.prems(2) False]
    let ?lits = "literal_segments (subtext raw cursor (literal_end_of raw cursor s))"
    let ?own = "\<lambda>c. value_segments (cache_pick c disclose) s (value_of raw s)"
    have ok1: "cache_ok hmac key st1" using e1(2) Cons.prems(2) by (simp add: extends_def)
    from Cons.IH [OF rest ok1] obtain segs where
      ih: "loop_result hmac raw key disclose c1 spans st1 cursor' st' segs" by blast
    then have e2: "extends hmac key st1 st' segs" by (simp add: loop_result_def)
    then have le: "map_of (rn_cache st1) \<subseteq>\<^sub>m map_of (rn_cache st')"
      by (simp add: extends_def state_le_def)
    have own: "?own c = ?own (rn_cache st1)" if "map_of (rn_cache st1) \<subseteq>\<^sub>m map_of c" for c
      by (rule value_segments_cong) (use e1(3) cached_mono [OF _ that] in blast)
    have "loop_result hmac raw key disclose cursor (s # spans) st cursor' st'
        ((?lits @ ?own (rn_cache st1)) @ segs)"
      unfolding loop_result_def
    proof (intro conjI allI impI)
      show "extends hmac key st st' ((?lits @ ?own (rn_cache st1)) @ segs)"
        by (rule extends_trans [OF e1(2) e2])
      fix c assume c: "map_of (rn_cache st') \<subseteq>\<^sub>m map_of c"
      with le have "map_of (rn_cache st1) \<subseteq>\<^sub>m map_of c" by (rule map_le_trans)
      from own [OF this] c ih show "layout raw (cache_pick c disclose) cursor (s # spans) =
          ((?lits @ ?own (rn_cache st1)) @ segs) @ literal_segments (drop cursor' raw)"
        using False by (simp add: loop_result_def e1(1))
    next
      have "\<forall>w \<in> set (value_parts s (value_of raw s)). cached (rn_cache st') disclose s w"
        using e1(3) cached_mono(1) [OF _ le] by blast
      with ih show "\<forall>(s, w) \<in> set (placed_values raw (rendered_spans raw cursor (s # spans))).
          cached (rn_cache st') disclose s w"
        using False by (auto simp: loop_result_def placed_values_def e1(1))
      show "\<forall>s \<in> set (rendered_spans raw cursor (s # spans)). span_text raw s = Some (value_of raw s)"
        using ih e1(1,4) False by (auto simp: loop_result_def)
      show "\<forall>seg \<in> set ((?lits @ ?own (rn_cache st1)) @ segs). literal_ok raw seg"
        using ih literal_ok_slice [OF e1(5)] literal_ok_value unfolding loop_result_def by auto
    qed
    then show ?thesis by blast
  qed
qed

abbreviation by_start :: "span list \<Rightarrow> span list" where
  "by_start spans \<equiv> sort_key (\<lambda>s. rstart (sp_range s)) spans"

lemma render_layout:
  assumes "render hmac raw key spans disclose = Some r"
  shows "\<exists>pick.
    rn_segments r = layout raw pick 0 (by_start spans) \<and>
    rn_masked r = segments_text (rn_segments r) \<and>
    (\<forall>(s, v) \<in> set (placed_values raw (rendered_spans raw 0 (by_start spans))).
       handle_for hmac key (map_of (rn_map r)) (sp_label s) (char_count disclose v) v (pick s v)) \<and>
    (\<forall>s \<in> set (rendered_spans raw 0 (by_start spans)). span_text raw s = Some (value_of raw s)) \<and>
    (\<forall>seg \<in> set (rn_segments r). literal_ok raw seg)"
proof -
  from assms obtain cursor st lit where
    loop: "render_loop hmac raw key disclose (by_start spans) (0, render_start) = Some (cursor, st)" and
    lit: "str_slice raw cursor (length raw) = Some lit" and
    r: "r = rendered.truncate (push_literal lit st)"
    by (auto simp: render_def split: Option.bind_splits)
  have "cache_ok hmac key render_start" by (simp add: cache_ok_def render_start_def)
  from render_loop_result [OF loop this] obtain segs where
    res: "loop_result hmac raw key disclose 0 (by_start spans) render_start cursor st segs" by blast
  from lit have lit': "lit = drop cursor raw"
    by (auto simp: str_slice_Some subtext_to_end)
  have e: "extends hmac key render_start (push_literal lit st) (segs @ literal_segments lit)"
    using res extends_trans push_literal_extends unfolding loop_result_def by blast
  then have ok: "cache_ok hmac key (push_literal lit st)"
    by (simp add: extends_def cache_ok_def render_start_def)
  have cache: "rn_cache (push_literal lit st) = rn_cache st" by (simp add: push_literal_def)
  let ?pick = "cache_pick (rn_cache st) disclose"
  have segs: "rn_segments r = segs @ literal_segments lit" "rn_masked r = segments_text (rn_segments r)"
      "rn_map r = rn_map (push_literal lit st)"
    using e by (simp_all add: r extends_def render_start_def rendered.truncate_def)
  have "rn_segments r = layout raw ?pick 0 (by_start spans)"
    using segs(1) res lit' by (simp add: loop_result_def)
  moreover have "handle_for hmac key (map_of (rn_map r)) (sp_label s) (char_count disclose v) v
      (?pick s v)" if "cached (rn_cache st) disclose s v" for s v
    using ok that unfolding cache_ok_def cache segs(3) by (auto simp: cached_def cache_pick_def)
  moreover have "\<forall>seg \<in> set (rn_segments r). literal_ok raw seg"
    using res literal_ok_slice [OF lit] unfolding segs(1) loop_result_def by auto
  ultimately show ?thesis
    using segs(2) res unfolding loop_result_def by blast
qed


section \<open>Rendering does not panic\<close>

definition map_ok :: "hmac_fun \<Rightarrow> str \<Rightarrow> str set \<Rightarrow> (str \<times> str) list \<Rightarrow> bool" where
  "map_ok hmac key vs m \<longleftrightarrow>
     (\<forall>ph v. map_of m ph = Some v \<longrightarrow> v \<in> vs \<and>
        (\<exists>label len. ph = render_placeholder label (hasher_hash hmac key v) len \<or>
           ph = render_placeholder label (hasher_full_hash hmac key v) len))"

lemma hash_lengths:
  assumes "\<And>v. length (hmac key v) = 32"
  shows "length (hasher_hash hmac key v) = 16" and "length (hasher_full_hash hmac key v) = 64"
    and "list_all is_lower_hex (hasher_hash hmac key v)"
    and "list_all is_lower_hex (hasher_full_hash hmac key v)"
  using assms
  by (simp_all add: hasher_hash_def hasher_full_hash_def encode_hash_take length_encode_full_hash
      encode_full_hash_lower)

lemma record_full_ok:
  assumes len: "\<And>v. length (hmac key v) = 32" and inj: "inj_on (hmac key) vs"
    and "map_ok hmac key vs (rn_map st)" and "v \<in> vs"
    and "record_value (rn_map st) (render_placeholder label (hasher_full_hash hmac key v) n) v = (c, m)"
  shows "\<not> c"
proof
  assume c
  let ?ph = "render_placeholder label (hasher_full_hash hmac key v) n"
  from \<open>c\<close> assms(5) obtain w where w: "map_of (rn_map st) ?ph = Some w" "w \<noteq> v"
    by (auto simp: record_value_def split: option.splits)
  note hashes = hash_lengths [of hmac key, OF len]
  from assms(3) w(1) have "w \<in> vs" and
    "\<exists>l k. ?ph = render_placeholder l (hasher_hash hmac key w) k \<or>
       ?ph = render_placeholder l (hasher_full_hash hmac key w) k"
    by (auto simp: map_ok_def)
  then consider l k where "?ph = render_placeholder l (hasher_hash hmac key w) k"
    | l k where "?ph = render_placeholder l (hasher_full_hash hmac key w) k" by blast
  then show False
  proof cases
    case 1
    from render_placeholder_inj [OF 1 hashes(4,3)]
    have "length (hasher_full_hash hmac key v) = length (hasher_hash hmac key w)" by simp
    then show False unfolding hashes(1,2) by simp
  next
    case 2
    from render_placeholder_inj [OF 2 hashes(4,4)] have "hmac key v = hmac key w"
      by (simp add: hasher_full_hash_def encode_full_hash_inj)
    with inj \<open>v \<in> vs\<close> \<open>w \<in> vs\<close> w(2) show False by (auto dest: inj_onD)
  qed
qed

lemma map_ok_record:
  assumes "map_ok hmac key vs m" and "v \<in> vs" and "record_value m ph v = (False, m')"
    and "ph = render_placeholder label (hasher_hash hmac key v) len \<or>
      ph = render_placeholder label (hasher_full_hash hmac key v) len"
  shows "map_ok hmac key vs m'"
proof -
  have "map_of m' = (map_of m)(ph \<mapsto> v)"
    using assms(3) by (auto simp: record_value_def map_add_def fun_eq_iff split: option.splits)
  with assms show ?thesis by (auto simp: map_ok_def)
qed

lemma push_masked_total:
  assumes "\<And>v. length (hmac key v) = 32" and "inj_on (hmac key) vs"
    and "map_ok hmac key vs (rn_map st)" and "v \<in> vs"
  shows "\<exists>st'. push_masked hmac key s v len st = Some st' \<and> map_ok hmac key vs (rn_map st')"
proof (cases "map_of (rn_cache st) (sp_label s, v, len)")
  case (Some ph)
  with assms(3) show ?thesis by (simp add: push_masked_def masked_seg_def Let_def map_ok_def)
next
  case None
  let ?short = "render_placeholder (sp_label s) (hasher_hash hmac key v) len"
    and ?full = "render_placeholder (sp_label s) (hasher_full_hash hmac key v) len"
  obtain c m where c: "record_value (rn_map st) ?short v = (c, m)" by force
  show ?thesis
  proof (cases c)
    case False
    then show ?thesis
      using None c map_ok_record [OF assms(3,4), of ?short m "sp_label s" len]
      by (auto simp: push_masked_def masked_seg_def Let_def)
  next
    case True
    then have m: "m = rn_map st" using record_value_True c by simp
    obtain c' m' where c': "record_value (rn_map st) ?full v = (c', m')" by force
    have "\<not> c'" by (rule record_full_ok [OF assms c'])
    then show ?thesis
      using None c c' True m map_ok_record [OF assms(3,4), of ?full m' "sp_label s" len]
      by (auto simp: push_masked_def masked_seg_def Let_def)
  qed
qed

lemma rn_map_push_literal: "rn_map (push_literal t st) = rn_map st"
  by (simp add: push_literal_def)

lemma render_value_total:
  assumes "\<And>v. length (hmac key v) = 32" and "inj_on (hmac key) vs"
    and "map_ok hmac key vs (rn_map st)" and "set (value_parts s v) \<subseteq> vs"
  shows "\<exists>st'. render_value hmac key disclose s v st = Some st' \<and> map_ok hmac key vs (rn_map st')"
proof (cases "if should_split_email s then split_email v else None")
  case None
  with push_masked_total [OF assms(1,2,3)] assms(4) show ?thesis
    by (simp add: render_value_def value_parts_def)
next
  case (Some lr)
  obtain l d where lr: "lr = (l, d)" by force
  have "l \<in> vs" "d \<in> vs" using assms(4) Some by (simp_all add: value_parts_def lr)
  from push_masked_total [OF assms(1,2,3) \<open>l \<in> vs\<close>] obtain st1 where
    st1: "push_masked hmac key s l (char_count disclose l) st = Some st1" "map_ok hmac key vs (rn_map st1)"
    by blast
  then have "map_ok hmac key vs (rn_map (push_literal ''@'' st1))" by (simp add: rn_map_push_literal)
  from push_masked_total [OF assms(1,2) this \<open>d \<in> vs\<close>] st1 Some show ?thesis
    by (auto simp: render_value_def lr)
qed

lemma wrapper_bounds:
  assumes "explicit_wrapper_bounds raw s = Some (a, b)"
  shows "a \<le> rstart (sp_range s)" and "is_char_boundary raw a"
    and "b = Suc (rend (sp_range s))" and "rend (sp_range s) < length raw"
    and "raw ! rend (sp_range s) = CHR '')''"
  using assms
  by (auto simp: explicit_wrapper_bounds_def str_slice_Some find_Some_iff split: if_splits)

lemma render_step_total:
  assumes hash: "\<And>v. length (hmac key v) = 32" "inj_on (hmac key) vs"
    and raw: "utf8_valid raw" and s: "span_text raw s = Some v" "set (value_parts s v) \<subseteq> vs"
    and st: "map_ok hmac key vs (rn_map st)" and cursor: "is_char_boundary raw cursor" "cursor \<le> length raw"
  shows "\<exists>c' st'. render_step hmac raw key disclose s (cursor, st) = Some (c', st') \<and>
    map_ok hmac key vs (rn_map st') \<and> is_char_boundary raw c' \<and> c' \<le> length raw"
proof (cases "rstart (sp_range s) < cursor")
  case True
  with st cursor show ?thesis by (simp add: render_step_def)
next
  case False
  from s(1) have v: "str_slice raw (rstart (sp_range s)) (rend (sp_range s)) = Some v"
    and bounds: "rstart (sp_range s) \<le> rend (sp_range s)" "rend (sp_range s) \<le> length raw"
      "is_char_boundary raw (rstart (sp_range s))" "is_char_boundary raw (rend (sp_range s))"
    by (auto simp: span_text_def str_slice_Some)
  let ?e = "literal_end_of raw cursor s"
  have "?e \<le> length raw \<and> is_char_boundary raw ?e \<and> cursor \<le> ?e"
    using False bounds cursor wrapper_bounds(1,2) [of raw s]
    by (auto simp: literal_end_of_def max_def split: option.splits)
  then obtain lit where lit: "str_slice raw cursor ?e = Some lit"
    using cursor by (auto simp: str_slice_def)
  have "is_ascii (CHR '')'')" by code_simp
  then have after: "is_char_boundary raw (cursor_after raw s)" "cursor_after raw s \<le> length raw"
    using bounds wrapper_bounds(3-5) [of raw s] utf8_boundary_after_ascii(2) [OF raw]
    by (auto simp: cursor_after_def split: option.splits)
  obtain st' where "render_value hmac key disclose s v (push_literal lit st) = Some st'"
      "map_ok hmac key vs (rn_map st')"
    using render_value_total [of hmac key vs "push_literal lit st" s v disclose, OF hash] st s(2)
    by (auto simp: rn_map_push_literal)
  then show ?thesis
    using False lit v after
    by (auto simp: render_step_def Let_def literal_end_of_def cursor_after_def)
qed

lemma render_loop_total:
  assumes hash: "\<And>v. length (hmac key v) = 32" "inj_on (hmac key) vs" and raw: "utf8_valid raw"
    and "\<forall>s \<in> set spans. span_text raw s = Some (value_of raw s) \<and>
      set (value_parts s (value_of raw s)) \<subseteq> vs"
    and "map_ok hmac key vs (rn_map st)" and "is_char_boundary raw cursor" and "cursor \<le> length raw"
  shows "\<exists>c' st'. render_loop hmac raw key disclose spans (cursor, st) = Some (c', st') \<and>
    is_char_boundary raw c' \<and> c' \<le> length raw"
  using assms(4-)
proof (induction spans arbitrary: cursor st)
  case (Cons s spans)
  from Cons.prems have s: "span_text raw s = Some (value_of raw s)"
    "set (value_parts s (value_of raw s)) \<subseteq> vs" by auto
  from render_step_total [OF hash raw s Cons.prems(2-4)] obtain c1 st1 where
    step: "render_step hmac raw key disclose s (cursor, st) = Some (c1, st1)"
      "map_ok hmac key vs (rn_map st1)" "is_char_boundary raw c1" "c1 \<le> length raw" by blast
  have "\<forall>s \<in> set spans. span_text raw s = Some (value_of raw s) \<and>
      set (value_parts s (value_of raw s)) \<subseteq> vs"
    using Cons.prems(1) by simp
  from Cons.IH [OF this step(2-4)] step(1) show ?case by auto
qed simp


section \<open>Restoring\<close>

text \<open>The text that comes back when every placeholder is replaced by what the map holds.\<close>

fun segments_value :: "(str \<rightharpoonup> str) \<Rightarrow> render_segment list \<Rightarrow> str option" where
  "segments_value m [] = Some []"
| "segments_value m (Literal t # segs) = map_option (\<lambda>u. t @ u) (segments_value m segs)"
| "segments_value m (Masked ph label c d # segs) =
     do { v \<leftarrow> m ph; map_option (\<lambda>u. v @ u) (segments_value m segs) }"

text \<open>The document with the syntax of its explicit markers removed.\<close>

fun plain_text :: "str \<Rightarrow> nat \<Rightarrow> span list \<Rightarrow> str" where
  "plain_text raw cursor [] = drop cursor raw"
| "plain_text raw cursor (s # spans) =
     (if rstart (sp_range s) < cursor then plain_text raw cursor spans
      else subtext raw cursor (literal_end_of raw cursor s) @ value_of raw s
        @ plain_text raw (cursor_after raw s) spans)"

lemma segments_value_append:
  "segments_value m (xs @ ys) =
     do { a \<leftarrow> segments_value m xs; map_option (\<lambda>b. a @ b) (segments_value m ys) }"
  by (induction m xs rule: segments_value.induct)
    (auto split: Option.bind_splits simp: map_option_case split: option.splits)

lemma segments_value_literal: "segments_value m (literal_segments t) = Some t"
  by (simp add: literal_segments_def)

lemma split_email_parts: "split_email v = Some (l, d) \<Longrightarrow> v = l @ ''@'' @ d"
  by (auto simp: split_email_def Let_def split: Option.bind_splits if_splits dest: split_once_Some)

lemma segments_value_parts:
  assumes "\<And>w. w \<in> set (value_parts s v) \<Longrightarrow> m (pick s w) = Some w"
  shows "segments_value m (value_segments pick s v) = Some v"
  using assms split_email_parts [of v]
  by (auto simp: value_segments_def value_parts_def split: option.splits if_splits)

lemma layout_value:
  assumes "\<And>s w. (s, w) \<in> set (placed_values raw (rendered_spans raw cursor spans)) \<Longrightarrow>
    m (pick s w) = Some w"
  shows "segments_value m (layout raw pick cursor spans) = Some (plain_text raw cursor spans)"
  using assms
proof (induction spans arbitrary: cursor)
  case (Cons s spans)
  show ?case
  proof (cases "rstart (sp_range s) < cursor")
    case False
    have "segments_value m (value_segments pick s (value_of raw s)) = Some (value_of raw s)"
      by (rule segments_value_parts, rule Cons.prems) (use False in \<open>simp add: placed_values_def\<close>)
    moreover have "segments_value m (layout raw pick (cursor_after raw s) spans) =
        Some (plain_text raw (cursor_after raw s) spans)"
      by (rule Cons.IH, rule Cons.prems) (use False in \<open>simp add: placed_values_def\<close>)
    ultimately show ?thesis
      using False by (simp add: segments_value_append segments_value_literal)
  qed (use Cons in simp)
qed (simp add: segments_value_literal)

lemma plain_text_id:
  assumes "\<forall>s \<in> set spans. explicit_wrapper_bounds raw s = None"
    and "\<forall>s \<in> set (rendered_spans raw cursor spans). span_text raw s = Some (value_of raw s)"
    and "cursor \<le> length raw"
  shows "plain_text raw cursor spans = drop cursor raw"
  using assms
proof (induction spans arbitrary: cursor)
  case (Cons s spans)
  show ?case
  proof (cases "rstart (sp_range s) < cursor")
    case False
    have c: "cursor_after raw s = rend (sp_range s)"
      and e: "literal_end_of raw cursor s = rstart (sp_range s)"
      using Cons.prems(1) False by (simp_all add: cursor_after_def literal_end_of_def)
    have b: "rstart (sp_range s) \<le> rend (sp_range s)" "rend (sp_range s) \<le> length raw"
      using Cons.prems(2) False by (auto simp: span_text_def str_slice_Some)
    have "plain_text raw (rend (sp_range s)) spans = drop (rend (sp_range s)) raw"
      using Cons.IH [of "rend (sp_range s)"] Cons.prems False b c by auto
    moreover have "subtext raw cursor (rstart (sp_range s)) @ value_of raw s
        @ drop (rend (sp_range s)) raw = drop cursor raw"
      using False b subtext_append [of cursor "rstart (sp_range s)" "rend (sp_range s)" raw]
        subtext_append [of cursor "rend (sp_range s)" "length raw" raw]
      by (simp add: value_of_def subtext_to_end flip: append_assoc)
    ultimately show ?thesis using False c e by simp
  qed (use Cons in simp)
qed simp

text \<open>A rendered document alternates: no two literal segments in a row.\<close>

fun alternating :: "render_segment list \<Rightarrow> bool" where
  "alternating (Literal t # segs) \<longleftrightarrow>
     (case segs of Literal u # _ \<Rightarrow> False | _ \<Rightarrow> True) \<and> alternating segs"
| "alternating (Masked ph l c d # segs) \<longleftrightarrow> alternating segs"
| "alternating [] \<longleftrightarrow> True"

lemma alternating_values:
  "alternating xs \<Longrightarrow> alternating (literal_segments t @ value_segments pick s v @ xs)"
  by (auto simp: value_segments_def value_parts_def literal_segments_def split: option.splits)

lemma alternating_layout: "alternating (layout raw pick cursor spans)"
proof (induction spans arbitrary: cursor)
  case (Cons s spans)
  then show ?case using alternating_values by simp
qed (simp add: literal_segments_def)


section \<open>The keys of the recovery map\<close>

definition keys_from :: "str set \<Rightarrow> (str \<times> str) list \<Rightarrow> bool" where
  "keys_from labels m \<longleftrightarrow>
     (\<forall>ph \<in> set (map fst m). \<exists>label \<in> labels. \<exists>hash len.
        hash_ok hash \<and> ph = render_placeholder label hash len)"

lemma keys_from_record:
  assumes "keys_from labels m" and "record_value m ph v = (c, m')"
    and "label \<in> labels" and "hash_ok hash" and "ph = render_placeholder label hash len"
  shows "keys_from labels m'"
proof -
  have "set (map fst m') \<subseteq> insert ph (set (map fst m))"
    using assms(2) by (auto simp: record_value_def split: option.splits)
  with assms show ?thesis unfolding keys_from_def by blast
qed

lemma push_masked_keys:
  assumes "push_masked hmac key s v len st = Some st'" and "keys_from labels (rn_map st)"
    and "sp_label s \<in> labels" and "\<And>v. length (hmac key v) = 32"
  shows "keys_from labels (rn_map st')"
proof -
  note short = hash_ok_short [of hmac key v, OF assms(4)]
    and full = hash_ok_full [of hmac key v, OF assms(4)]
  note rec = keys_from_record [OF _ _ assms(3)]
  obtain c m where c: "record_value (rn_map st)
      (render_placeholder (sp_label s) (hasher_hash hmac key v) len) v = (c, m)" by force
  obtain c' m' where c': "record_value m
      (render_placeholder (sp_label s) (hasher_full_hash hmac key v) len) v = (c', m')" by force
  have m: "keys_from labels m" using rec [OF assms(2) c short refl] .
  have m': "keys_from labels m'" using rec [OF m c' full refl] .
  show ?thesis
    using assms(1,2) c c' m m'
    by (auto simp: push_masked_def masked_seg_def Let_def split: option.splits if_splits)
qed

lemma render_value_keys:
  assumes "render_value hmac key disclose s v st = Some st'" and "keys_from labels (rn_map st)"
    and "sp_label s \<in> labels" and "\<And>v. length (hmac key v) = 32"
  shows "keys_from labels (rn_map st')"
  using assms(1,2) push_masked_keys [of hmac key s, OF _ _ assms(3,4)]
  by (fastforce simp: render_value_def rn_map_push_literal
      split: option.splits Option.bind_splits if_splits)

lemma render_loop_keys:
  assumes "render_loop hmac raw key disclose spans (cursor, st) = Some (cursor', st')"
    and "keys_from labels (rn_map st)" and "sp_label ` set spans \<subseteq> labels"
    and "\<And>v. length (hmac key v) = 32"
  shows "keys_from labels (rn_map st')"
  using assms(1-3)
proof (induction spans arbitrary: cursor st)
  case (Cons s spans)
  from Cons.prems(1) obtain c1 st1 where
    step: "render_step hmac raw key disclose s (cursor, st) = Some (c1, st1)" and
    rest: "render_loop hmac raw key disclose spans (c1, st1) = Some (cursor', st')"
    by (auto split: Option.bind_splits)
  have "keys_from labels (rn_map st1)"
  proof (cases "rstart (sp_range s) < cursor")
    case True
    with step Cons.prems(2) show ?thesis by (simp add: render_step_def)
  next
    case False
    with step obtain lit v where
      "render_value hmac key disclose s v (push_literal lit st) = Some st1"
      by (auto simp: render_step_def Let_def split: Option.bind_splits)
    then show ?thesis
      by (rule render_value_keys) (use Cons.prems assms(4) in \<open>auto simp: rn_map_push_literal\<close>)
  qed
  with Cons.IH [OF rest] Cons.prems(3) show ?case by simp
qed simp

lemma render_keys:
  assumes "render hmac raw key spans disclose = Some r" and "\<And>v. length (hmac key v) = 32"
  shows "keys_from (sp_label ` set spans) (rn_map r)"
proof -
  from assms(1) obtain cursor st lit where
    loop: "render_loop hmac raw key disclose (by_start spans) (0, render_start) = Some (cursor, st)"
    and r: "r = rendered.truncate (push_literal lit st)"
    by (auto simp: render_def split: Option.bind_splits)
  have "keys_from (sp_label ` set spans) (rn_map st)"
    by (rule render_loop_keys [OF loop _ _ assms(2)]) (simp_all add: keys_from_def render_start_def)
  then show ?thesis by (simp add: r rendered.truncate_def rn_map_push_literal)
qed


lemma render_returns:
  assumes "\<And>v. length (hmac key v) = 32" and "utf8_valid raw"
    and "\<forall>s \<in> set spans. span_text raw s \<noteq> None"
    and "inj_on (hmac key) (snd ` set (placed_values raw spans))"
  shows "render hmac raw key spans disclose \<noteq> None"
proof -
  let ?vs = "snd ` set (placed_values raw spans)"
  have vals: "\<forall>s \<in> set (by_start spans). span_text raw s = Some (value_of raw s) \<and>
      set (value_parts s (value_of raw s)) \<subseteq> ?vs"
    using assms(3)
    by (auto simp: span_text_def str_slice_Some value_of_def placed_values_def image_iff)
  have "map_ok hmac key ?vs (rn_map render_start)" by (simp add: map_ok_def render_start_def)
  from render_loop_total [OF assms(1,4,2) vals this, of 0 disclose] obtain c' st' where
    "render_loop hmac raw key disclose (by_start spans) (0, render_start) = Some (c', st')"
    "is_char_boundary raw c'" "c' \<le> length raw" by auto
  then show ?thesis by (simp add: render_def str_slice_def)
qed


section \<open>Properties\<close>


definition example_hmac :: hmac_fun where
  "example_hmac key v = take 32 (v @ key @ replicate 32 (CHR ''0''))"

definition example_mail :: str where
  "example_mail = ''to al@corp.com now''"

definition example_mail_spans :: "span list" where
  "example_mail_spans =
    [\<lparr>sp_range = range_new 3 14, sp_category = Pii, sp_label = ''IDENTITY'',
      sp_confidence = Medium, sp_source = Rule\<rparr>]"

definition example_rendered :: rendered where
  "example_rendered = the (render example_hmac example_mail ''k'' example_mail_spans False)"

lemma example_render:
  "render example_hmac example_mail ''k'' example_mail_spans False = Some example_rendered"
proof -
  have "render example_hmac example_mail ''k'' example_mail_spans False \<noteq> None" by code_simp
  then show ?thesis by (auto simp: example_rendered_def)
qed


text \<open>
  Masking loses nothing: replacing every placeholder segment by its entry in the recovery
  map gives back the document, byte for byte, without the syntax of its explicit markers; a
  document without explicit markers comes back unchanged.
\<close>

theorem render_restores:
  assumes "render hmac raw key spans disclose = Some r"
  shows "segments_value (map_of (rn_map r)) (rn_segments r) = Some (plain_text raw 0 (by_start spans)) \<and>
    ((\<forall>s \<in> set spans. explicit_wrapper_bounds raw s = None) \<longrightarrow>
       plain_text raw 0 (by_start spans) = raw)"
proof -
  obtain pick where pick: "rn_segments r = layout raw pick 0 (by_start spans)"
    "\<forall>(s, v) \<in> set (placed_values raw (rendered_spans raw 0 (by_start spans))).
       handle_for hmac key (map_of (rn_map r)) (sp_label s) (char_count disclose v) v (pick s v)"
    "\<forall>s \<in> set (rendered_spans raw 0 (by_start spans)). span_text raw s = Some (value_of raw s)"
    using render_layout [OF assms] by blast
  have "segments_value (map_of (rn_map r)) (rn_segments r) = Some (plain_text raw 0 (by_start spans))"
    unfolding pick(1) by (rule layout_value) (use pick(2) in \<open>auto simp: handle_for_def\<close>)
  then show ?thesis
    using plain_text_id [of "by_start spans" raw 0] pick(3) by simp
qed

lemma render_restores_witness:
  "segments_value (map_of (rn_map example_rendered)) (rn_segments example_rendered) =
     Some example_mail"
proof -
  have "\<forall>s \<in> set example_mail_spans. explicit_wrapper_bounds example_mail s = None"
    by (simp add: example_mail_spans_def explicit_wrapper_bounds_def)
  with render_restores [OF example_render] show ?thesis by simp
qed

text \<open>
  Rendering does not panic: on valid UTF-8, with findings on character boundaries and an
  HMAC of 32 bytes that does not collide on the values of the document, every slice is in
  bounds and the assertion on full hashes holds, whatever the findings overlap.
\<close>

theorem render_total:
  assumes "\<And>v. length (hmac key v) = 32" and "utf8_valid raw"
    and "\<forall>s \<in> set spans. span_text raw s \<noteq> None"
    and "inj_on (hmac key) (snd ` set (placed_values raw spans))"
  shows "render hmac raw key spans disclose \<noteq> None"
  using assms by (rule render_returns)

lemma render_total_witness:
  "render example_hmac example_mail ''k'' example_mail_spans False \<noteq> None"
proof (rule render_total)
  show "length (example_hmac ''k'' v) = 32" for v by (simp add: example_hmac_def)
  have "snd ` set (placed_values example_mail example_mail_spans) = {''al'', ''corp.com''}"
    by code_simp
  moreover have "example_hmac ''k'' ''al'' \<noteq> example_hmac ''k'' ''corp.com''" by code_simp
  ultimately show "inj_on (example_hmac ''k'') (snd ` set (placed_values example_mail example_mail_spans))"
    by (simp add: inj_on_def)
qed code_simp+

text \<open>
  The guard at the head of the loop is more than defensive: the cursor moves past the closing
  parenthesis of an explicit marker, so a finding that starts at that parenthesis is skipped
  although it overlaps nothing, and its text stays literal.
\<close>

lemma render_skips_finding_at_marker_end:
  "separated [example_span 5 11 Explicit, example_span 11 18 Rule] \<and>
   rendered_spans ''mask(abcdef)ghijkl'' 0
     [example_span 5 11 Explicit, example_span 11 18 Rule] = [example_span 5 11 Explicit] \<and>
   map_option (\<lambda>r. last (rn_segments r)) (render example_hmac ''mask(abcdef)ghijkl'' ''k''
     [example_span 5 11 Explicit, example_span 11 18 Rule] False) = Some (Literal ''ghijkl'')"
  by code_simp

end
