(* ===== verification/Benign.thy ===== *)
theory Benign
  imports Utf8
begin

text \<open>
  Vocabulary matching on identifiers, \<open>crates/pentect-core/src/detect/benign.rs\<close>, and the
  names of credential-bearing keys, \<open>detect/structural.rs\<close>. The pattern files the code embeds
  with \<open>include_str!\<close> are given by their non-comment lines.
\<close>


section \<open>Identifier normalization\<close>

text \<open>
  The code iterates over characters; a byte of a multi-byte character is not alphanumeric and
  a run of such bytes leaves one underscore, so iterating over the bytes computes the same.
\<close>

fun ends_with_underscore :: "str \<Rightarrow> bool" where
  "ends_with_underscore out \<longleftrightarrow> out \<noteq> [] \<and> last out = CHR ''_''"

definition normalize_step :: "byte \<Rightarrow> str \<times> bool \<Rightarrow> str \<times> bool" where
  "normalize_step ch = (\<lambda>(out, prev_lower_or_digit).
     if is_ascii_alphanumeric ch then
       ((if is_ascii_uppercase ch \<and> prev_lower_or_digit \<and> \<not> ends_with_underscore out
         then out @ ''_'' else out) @ [to_ascii_lowercase ch],
        is_ascii_lowercase ch \<or> is_ascii_digit ch)
     else ((if \<not> ends_with_underscore out then out @ ''_'' else out), False))"

definition normalize_identifier :: "str \<Rightarrow> str" where
  "normalize_identifier input =
     trim_matches (\<lambda>c. c = CHR ''_'') (fst (fold normalize_step input ([], False)))"


section \<open>Pattern sets\<close>

datatype pattern =
  ExactPattern str | PrefixPattern str | SuffixPattern str | ContainsPattern str
| NumberedPrefixPattern str | ComponentPattern str

definition all_digits :: "str \<Rightarrow> bool" where
  "all_digits rest \<longleftrightarrow> rest \<noteq> [] \<and> list_all is_ascii_digit rest"

fun pattern_matches :: "str \<Rightarrow> pattern \<Rightarrow> bool" where
  "pattern_matches normalized (ExactPattern p) \<longleftrightarrow> normalized = p"
| "pattern_matches normalized (PrefixPattern p) \<longleftrightarrow> prefix p normalized"
| "pattern_matches normalized (SuffixPattern p) \<longleftrightarrow> suffix p normalized"
| "pattern_matches normalized (ContainsPattern p) \<longleftrightarrow> str_contains normalized p"
| "pattern_matches normalized (NumberedPrefixPattern p) \<longleftrightarrow>
     (case strip_prefix p normalized of Some rest \<Rightarrow> all_digits rest | None \<Rightarrow> False)"
| "pattern_matches normalized (ComponentPattern p) \<longleftrightarrow>
     List.member (split_on CHR ''_'' normalized) p"

definition parse_pattern :: "str \<Rightarrow> pattern option" where
  "parse_pattern line =
     do {
       (kind, p) \<leftarrow> split_once '':'' line;
       let p = normalize_identifier p;
       let kind = trim kind;
       if kind = ''exact'' then Some (ExactPattern p)
       else if kind = ''prefix'' then Some (PrefixPattern p)
       else if kind = ''suffix'' then Some (SuffixPattern p)
       else if kind = ''contains'' then Some (ContainsPattern p)
       else if kind = ''numbered_prefix'' then Some (NumberedPrefixPattern p)
       else if kind = ''component'' then Some (ComponentPattern p)
       else None
     }"

text \<open>The non-empty trimmed lines that are not comments.\<close>

definition data_lines :: "str list \<Rightarrow> str list" where
  "data_lines ls = filter (\<lambda>l. l \<noteq> [] \<and> \<not> prefix ''#'' l) (map trim ls)"

definition pattern_set_parse :: "str list \<Rightarrow> pattern list" where
  "pattern_set_parse ls = List.map_filter parse_pattern (data_lines ls)"

definition pattern_set_matches :: "pattern list \<Rightarrow> str \<Rightarrow> bool" where
  "pattern_set_matches patterns normalized = list_ex (pattern_matches normalized) patterns"

definition KEY_PATTERNS :: "str list" where
  "KEY_PATTERNS =
    [''exact:nonsecret'',
     ''exact:non_secret'',
     ''exact:notsecret'',
     ''exact:not_secret'',
     ''exact:public'',
     ''exact:correlation_key'',
     ''exact:foreign_key'',
     ''exact:routing_key'',
     ''exact:token_vocab'',
     ''exact:token_type'',
     ''exact:auth_type'',
     ''exact:auth_method'',
     ''exact:authtype'',
     ''exact:filler_token'',
     ''exact:event_key'',
     ''exact:topology_key'',
     ''prefix:public_'',
     ''suffix:_public'',
     ''suffix:_foreign_key'',
     ''suffix:_routing_key'',
     ''suffix:_auth_type'',
     ''suffix:_auth_method'',
     ''suffix:_authtype'',
     ''suffix:_algorithm'',
     ''suffix:_key_algorithm'',
     ''suffix:_key_name'',
     ''suffix:_envar'',
     ''suffix:_env_var'',
     ''suffix:_expiration'',
     ''suffix:_expires'',
     ''suffix:_expires_at'',
     ''suffix:_expiry'',
     ''suffix:_ttl'',
     ''suffix:_last_used'',
     ''contains:public_key_token'',
     ''contains:token_toolbar'']"

definition is_explicitly_non_sensitive_key_name :: "str \<Rightarrow> bool" where
  "is_explicitly_non_sensitive_key_name key =
     pattern_set_matches (pattern_set_parse KEY_PATTERNS) (normalize_identifier key)"


section \<open>Names of credential-bearing keys\<close>

definition identifier_parts :: "str \<Rightarrow> str list" where
  "identifier_parts name = filter (\<lambda>p. p \<noteq> []) (split_on CHR ''_'' name)"

definition has_structural_phrase :: "str list \<Rightarrow> str list \<Rightarrow> bool" where
  "has_structural_phrase parts phrase \<longleftrightarrow>
     phrase \<noteq> [] \<and> length phrase \<le> length parts \<and>
     list_ex (\<lambda>w. w = phrase) (windows (length phrase) parts)"

definition is_last_used_metadata_name :: "str list \<Rightarrow> bool" where
  "is_last_used_metadata_name parts \<longleftrightarrow>
     List.member parts ''last'' \<and>
     list_ex (List.member [''used'', ''authenticated'', ''time'']) parts"

definition is_sentence_like_key_name :: "str list \<Rightarrow> bool" where
  "is_sentence_like_key_name parts \<longleftrightarrow>
     8 \<le> length parts \<and>
     list_ex (List.member [''with'', ''without'', ''the'', ''this'', ''about'', ''via'',
       ''before'', ''after'', ''should'', ''challenge'']) parts"

definition is_non_credential_sensitive_word_name :: "str \<Rightarrow> bool" where
  "is_non_credential_sensitive_word_name name =
     (let parts = identifier_parts name
      in if parts = [] then False
         else if list_ex (List.member [''tokenizer'', ''tokenizers'']) parts \<or>
            has_structural_phrase parts [''token'', ''sale''] \<or>
            last parts = ''arn'' \<or>
            is_last_used_metadata_name parts \<or>
            has_structural_phrase parts [''password'', ''cannot'', ''be'', ''empty''] \<or>
            list_ex (List.member [''tooltip'', ''label'', ''title'']) parts
         then True
         else is_sentence_like_key_name parts)"

definition is_sensitive_key_name :: "str \<Rightarrow> bool" where
  "is_sensitive_key_name key =
     (let name = normalize_identifier key
      in if is_explicitly_non_sensitive_key_name name \<or> is_non_credential_sensitive_word_name name
         then False
         else
           List.member (split_on CHR ''_'' name) ''key'' \<or>
           name = ''auth'' \<or> name = ''authorization'' \<or>
           str_contains name ''auth_'' \<or> str_contains name ''_auth'' \<or>
           str_contains name ''authorization'' \<or>
           list_ex (str_contains name)
             [''api_key'', ''apikey'', ''access_key'', ''secret'', ''token'', ''password'',
              ''passwd'', ''passcode'', ''private'', ''credential'', ''otp'', ''totp'', ''mfa'',
              ''2fa'', ''verification_code'', ''verificationcode'', ''security_code'',
              ''securitycode'', ''login_code'', ''logincode'', ''signin_code'', ''signincode'',
              ''one_time'', ''onetime'', ''session'', ''cookie'', ''jwt'', ''bearer''])"


section \<open>The canonical form of an identifier\<close>

definition identifier_byte :: "byte \<Rightarrow> bool" where
  "identifier_byte c \<longleftrightarrow> is_ascii_lowercase c \<or> is_ascii_digit c \<or> c = CHR ''_''"

text \<open>Lower case, no two underscores in a row, none at the ends.\<close>

definition canonical_identifier :: "str \<Rightarrow> bool" where
  "canonical_identifier s \<longleftrightarrow>
     list_all identifier_byte s \<and> \<not> sublist ''__'' s \<and>
     (s \<noteq> [] \<longrightarrow> hd s \<noteq> CHR ''_'' \<and> last s \<noteq> CHR ''_'')"

abbreviation no_double :: "str \<Rightarrow> bool" where
  "no_double s \<equiv> \<not> sublist ''__'' s"

lemma no_double_snoc:
  "no_double (out @ [c]) \<longleftrightarrow> no_double out \<and> \<not> (c = CHR ''_'' \<and> ends_with_underscore out)"
proof -
  have "suffix ''__'' (out @ [c]) \<longleftrightarrow> c = CHR ''_'' \<and> ends_with_underscore out"
    by (cases out rule: rev_cases) (auto simp: suffix_def append_eq_append_conv2 Cons_eq_append_conv)
  moreover have "sublist ''__'' (out @ [c]) \<longleftrightarrow> suffix ''__'' (out @ [c]) \<or> sublist ''__'' out"
    unfolding sublist_snoc ..
  ultimately show ?thesis by blast
qed

lemma identifier_byte_lower: "is_ascii_alphanumeric c \<Longrightarrow> identifier_byte (to_ascii_lowercase c)"
  by (auto simp: identifier_byte_def to_ascii_lowercase_def ascii_class_defs)

lemma lower_not_underscore: "is_ascii_alphanumeric c \<Longrightarrow> to_ascii_lowercase c \<noteq> CHR ''_''"
  unfolding code_eq_iff [symmetric]
  by (auto simp: to_ascii_lowercase_def ascii_class_defs simp del: of_char_eq_iff)

lemma normalize_step_ok:
  assumes "list_all identifier_byte (fst st)" and "no_double (fst st)"
  shows "list_all identifier_byte (fst (normalize_step c st)) \<and> no_double (fst (normalize_step c st))"
proof -
  have "identifier_byte (CHR ''_'')" by (simp add: identifier_byte_def)
  then show ?thesis
    using assms identifier_byte_lower lower_not_underscore
    by (cases st) (auto simp: normalize_step_def no_double_snoc simp del: append.simps)
qed

lemma normalize_fold_ok:
  "list_all identifier_byte (fst st) \<Longrightarrow> no_double (fst st) \<Longrightarrow>
     list_all identifier_byte (fst (fold normalize_step s st)) \<and>
     no_double (fst (fold normalize_step s st))"
  by (induction s arbitrary: st) (simp_all add: normalize_step_ok)

lemma trim_matches_infix: "sublist (trim_matches P s) s"
proof -
  have "suffix (dropWhile P s) s" by (rule suffix_dropWhile)
  moreover have "prefix (trim_matches P s) (dropWhile P s)"
    by (metis rev_rev_ident suffix_dropWhile suffix_to_prefix trim_matches_def)
  ultimately show ?thesis by (metis prefix_imp_sublist sublist_order.order_trans suffix_imp_sublist)
qed

lemma trim_matches_ends:
  assumes "trim_matches P s \<noteq> []"
  shows "\<not> P (hd (trim_matches P s))" and "\<not> P (last (trim_matches P s))"
proof -
  let ?d = "dropWhile P s"
  have ne: "dropWhile P (rev ?d) \<noteq> []" using assms unfolding trim_matches_def by blast
  then show "\<not> P (last (trim_matches P s))"
    by (simp add: trim_matches_def last_rev hd_dropWhile)
  have "?d \<noteq> []" using ne by (metis dropWhile.simps(1) rev.simps(1))
  then have "\<not> P (hd ?d)" by (rule hd_dropWhile)
  moreover obtain t where "?d = trim_matches P s @ t"
    by (metis prefix_def rev_rev_ident suffix_dropWhile suffix_to_prefix trim_matches_def)
  ultimately show "\<not> P (hd (trim_matches P s))" using assms by (metis hd_append2)
qed

lemma trim_matches_id:
  assumes "s \<noteq> [] \<longrightarrow> \<not> P (hd s) \<and> \<not> P (last s)"
  shows "trim_matches P s = s"
proof (cases "s = []")
  case False
  with assms have "dropWhile P s = s" "dropWhile P (rev s) = rev s"
    by (simp_all add: dropWhile_eq_self_iff hd_rev)
  then show ?thesis by (simp add: trim_matches_def)
qed (simp add: trim_matches_def)

lemma normalize_canonical: "canonical_identifier (normalize_identifier s)"
proof -
  let ?out = "fst (fold normalize_step s ([], False))"
  have out: "list_all identifier_byte ?out" "no_double ?out"
    using normalize_fold_ok [of "([], False)" s] by auto
  have sub: "sublist (normalize_identifier s) ?out"
    unfolding normalize_identifier_def by (rule trim_matches_infix)
  then have "list_all identifier_byte (normalize_identifier s)"
    using out(1) set_mono_sublist by (fastforce simp: list_all_iff)
  moreover have "no_double (normalize_identifier s)"
    using sub out(2) sublist_order.order_trans by blast
  ultimately show ?thesis
    using trim_matches_ends [of "\<lambda>c. c = CHR ''_''" ?out]
    by (auto simp: canonical_identifier_def normalize_identifier_def)
qed

lemma normalize_fold_id:
  "list_all identifier_byte s \<Longrightarrow> no_double (out @ s) \<Longrightarrow>
     fst (fold normalize_step s (out, b)) = out @ s"
proof (induction s arbitrary: out b)
  case (Cons c s)
  have nd: "no_double (out @ [c])"
  proof
    assume "sublist ''__'' (out @ [c])"
    then have "sublist ''__'' ((out @ [c]) @ s)"
      using sublist_order.order_trans [OF _ sublist_appendI [of "out @ [c]" "[]" s]] by simp
    with Cons.prems(2) show False by simp
  qed
  have "fst (normalize_step c (out, b)) = out @ [c]"
  proof (cases "c = CHR ''_''")
    case True
    then have "\<not> is_ascii_alphanumeric c" by (simp add: ascii_class_defs)
    with nd True show ?thesis by (simp add: normalize_step_def no_double_snoc)
  next
    case False
    with Cons.prems(1) have "is_ascii_lowercase c \<or> is_ascii_digit c"
      by (simp add: identifier_byte_def)
    then have "is_ascii_alphanumeric c" "\<not> is_ascii_uppercase c" "to_ascii_lowercase c = c"
      by (auto simp: to_ascii_lowercase_def ascii_class_defs)
    then show ?thesis by (simp add: normalize_step_def)
  qed
  then obtain b' where "normalize_step c (out, b) = (out @ [c], b')"
    by (metis prod.collapse)
  with Cons.IH [of "out @ [c]" b'] Cons.prems show ?case by simp
qed simp

lemma normalize_id: "canonical_identifier s \<Longrightarrow> normalize_identifier s = s"
  using normalize_fold_id [of s "[]" False] trim_matches_id [of s "\<lambda>c. c = CHR ''_''"]
  by (auto simp: canonical_identifier_def normalize_identifier_def)


section \<open>Properties\<close>

text \<open>
  Identifier normalization is a projection onto canonical identifiers: its result is lower
  case letters, digits and single underscores with none at the ends, and it returns canonical
  identifiers unchanged. So matching a vocabulary entry that was itself normalized is exact.
\<close>

theorem normalize_identifier_projection:
  "canonical_identifier (normalize_identifier s) \<and>
   (canonical_identifier s \<longrightarrow> normalize_identifier s = s)"
  using normalize_canonical normalize_id by blast

lemma normalize_identifier_projection_witness:
  "normalize_identifier ''apiKey--ID '' = ''api_key_id'' \<and> normalize_identifier ''api_key_id'' = ''api_key_id''"
proof -
  have "normalize_identifier ''apiKey--ID '' = ''api_key_id''" by code_simp
  with normalize_identifier_projection [of "''apiKey--ID ''"]
    normalize_identifier_projection [of "''api_key_id''"]
  show ?thesis by metis
qed

end
