(* ===== verification/Recovery.thy ===== *)
theory Recovery
  imports Render Benign
begin

text \<open>
  The recovery map, \<open>crates/pentect-core/src/recovery.rs\<close>: sealing, resolving handles,
  persistence, encoded views and re-masking. SHA-256, HMAC-SHA256, the ChaCha20 key stream, the
  base64 encoder and the Aho-Corasick search are parameters. A \<open>HashMap\<close> is an association
  list; the order of the list is the order of iteration.
\<close>


section \<open>Sealed values\<close>

record crypto =
  sha256 :: "str \<Rightarrow> str"
  hmac_sha256 :: hmac_fun
  keystream :: "str \<Rightarrow> str \<Rightarrow> nat \<Rightarrow> str"

definition MEMORY_KEY_DOMAIN :: str where
  "MEMORY_KEY_DOMAIN = ''pentect-recovery-memory-key-v1''"

definition MEMORY_NONCE_DOMAIN :: str where
  "MEMORY_NONCE_DOMAIN = ''pentect-recovery-memory-nonce-v1''"

definition MAC_DOMAIN :: str where
  "MAC_DOMAIN = ''pentect-recovery-mac-v1''"

definition MAX_PLACEHOLDER_BYTES :: nat where
  "MAX_PLACEHOLDER_BYTES = 512"

record recovery =
  rc_memory_key :: str
  rc_map :: "(str \<times> str) list"

definition derive_memory_key :: "crypto \<Rightarrow> str \<Rightarrow> str" where
  "derive_memory_key cr key = sha256 cr (MEMORY_KEY_DOMAIN @ key)"

definition xor_byte :: "byte \<Rightarrow> byte \<Rightarrow> byte" where
  "xor_byte a b = char_of (code a XOR code b :: nat)"

definition crypt_memory_value :: "crypto \<Rightarrow> str \<Rightarrow> str \<Rightarrow> str \<Rightarrow> str" where
  "crypt_memory_value cr key placeholder data =
     (let nonce = take 12 (sha256 cr (MEMORY_NONCE_DOMAIN @ placeholder))
      in map2 xor_byte data (keystream cr key nonce (length data)))"

definition empty_for_key :: "crypto \<Rightarrow> str \<Rightarrow> recovery" where
  "empty_for_key cr key = \<lparr>rc_memory_key = derive_memory_key cr key, rc_map = []\<rparr>"

definition seal :: "crypto \<Rightarrow> (str \<times> str) list \<Rightarrow> str \<Rightarrow> recovery" where
  "seal cr plaintext key =
     (let memory_key = derive_memory_key cr key
      in \<lparr>rc_memory_key = memory_key,
          rc_map = map (\<lambda>(ph, v). (ph, crypt_memory_value cr memory_key ph v)) plaintext\<rparr>)"

definition recovery_len :: "recovery \<Rightarrow> nat" where
  "recovery_len rec = length (rc_map rec)"

definition recovery_is_empty :: "recovery \<Rightarrow> bool" where
  "recovery_is_empty rec \<longleftrightarrow> rc_map rec = []"

definition placeholders :: "recovery \<Rightarrow> str list" where
  "placeholders rec = map fst (rc_map rec)"

definition extend_same_key :: "recovery \<Rightarrow> recovery \<Rightarrow> recovery" where
  "extend_same_key rec other =
     rec\<lparr>rc_map := fold (\<lambda>(k, v). AList.update k v) (rc_map other) (rc_map rec)\<rparr>"

definition reveal :: "crypto \<Rightarrow> recovery \<Rightarrow> str \<Rightarrow> str option" where
  "reveal cr rec placeholder =
     do {
       ciphertext \<leftarrow> map_of (rc_map rec) placeholder;
       let bytes = crypt_memory_value cr (rc_memory_key rec) placeholder ciphertext;
       if utf8_valid bytes then Some bytes else None
     }"


section \<open>Resolving handles\<close>

function find_from_loop :: "str \<Rightarrow> str \<Rightarrow> nat \<Rightarrow> nat \<Rightarrow> nat option" where
  "find_from_loop hay needle limit i =
     (if i + length needle \<le> limit then
        if subtext hay i (i + length needle) = needle then Some i
        else find_from_loop hay needle limit (i + 1)
      else None)"
  by pat_completeness auto
termination
  by (relation "measure (\<lambda>(hay, needle, limit, i). Suc limit - i)") auto

declare find_from_loop.simps [simp del]

definition find_from_limited :: "str \<Rightarrow> nat \<Rightarrow> str \<Rightarrow> nat \<Rightarrow> nat option" where
  "find_from_limited hay start needle max_len =
     (if needle = [] \<or> length hay \<le> start then None
      else find_from_loop hay needle (min (length hay) (start + max_len)) start)"

definition utf8_len :: "byte \<Rightarrow> nat" where
  "utf8_len b =
     (if code b < 128 then 1
      else if drop_bit 5 (code b) = 6 then 2
      else if drop_bit 4 (code b) = 14 then 3
      else if drop_bit 3 (code b) = 30 then 4
      else 1)"

lemma utf8_len_pos: "0 < utf8_len b"
  by (simp add: utf8_len_def)

text \<open>
  The loop works on the rest of the text. The token and the character it cuts off end on
  character boundaries, because the text is valid UTF-8.
\<close>

function resolve_text :: "crypto \<Rightarrow> recovery \<Rightarrow> str \<Rightarrow> str" where
  "resolve_text cr rec s =
     (case s of [] \<Rightarrow> []
      | b # _ \<Rightarrow>
          let fallthrough = take (utf8_len b) s @ resolve_text cr rec (drop (utf8_len b) s)
          in if prefix ''<<'' s then
               (case find_from_limited s 2 ''>>'' MAX_PLACEHOLDER_BYTES of
                  None \<Rightarrow> fallthrough
                | Some close \<Rightarrow>
                    (case reveal cr rec (take (close + 2) s) of
                       Some v \<Rightarrow> v @ resolve_text cr rec (drop (close + 2) s)
                     | None \<Rightarrow> fallthrough))
             else fallthrough)"
  by pat_completeness auto
termination
  by (relation "measure (\<lambda>(cr, rec, s). length s)") (auto simp: utf8_len_pos)

declare resolve_text.simps [simp del]

text \<open>\<open>restore\<close> and \<open>resolve\<close> are the same function.\<close>

definition restore :: "crypto \<Rightarrow> recovery \<Rightarrow> str \<Rightarrow> str" where
  "restore cr rec s = resolve_text cr rec s"


section \<open>The cipher is an involution\<close>

text \<open>What the code relies on: the key stream has the length it is asked for.\<close>

definition keystream_ok :: "crypto \<Rightarrow> bool" where
  "keystream_ok cr \<longleftrightarrow> (\<forall>key nonce n. length (keystream cr key nonce n) = n)"

lemma xor_byte_twice: "xor_byte (xor_byte a b) b = a"
proof -
  have low: "take_bit 8 (code c) = code c" for c :: char
    using code_less_256 [of c] by (simp add: take_bit_eq_mod)
  have "take_bit 8 (code a XOR code b) = code a XOR code b"
    by (simp only: take_bit_xor low)
  then have "code a XOR code b < 2 ^ 8"
    using take_bit_nat_less_exp [of 8 "code a XOR code b"] by simp
  then show ?thesis by (simp add: xor_byte_def xor.assoc)
qed

lemma crypt_twice:
  assumes "keystream_ok cr"
  shows "crypt_memory_value cr key ph (crypt_memory_value cr key ph v) = v"
proof -
  let ?k = "keystream cr key (take 12 (sha256 cr (MEMORY_NONCE_DOMAIN @ ph))) (length v)"
  have len: "length ?k = length v" using assms by (simp add: keystream_ok_def)
  have "map2 xor_byte (map2 xor_byte v ks) ks = v" if "length ks = length v" for ks
    using that by (induction ks v rule: list_induct2) (simp_all add: xor_byte_twice)
  with len show ?thesis by (simp add: crypt_memory_value_def Let_def)
qed

lemma length_crypt: "keystream_ok cr \<Longrightarrow> length (crypt_memory_value cr key ph v) = length v"
  by (simp add: crypt_memory_value_def keystream_ok_def Let_def)

lemma map_of_seal:
  "map_of (map (\<lambda>(ph, v). (ph, f ph v)) m) ph = map_option (f ph) (map_of m ph)"
  by (induction m) auto

lemma reveal_seal:
  assumes "keystream_ok cr"
  shows "reveal cr (seal cr m key) ph =
    (case map_of m ph of Some v \<Rightarrow> if utf8_valid v then Some v else None | None \<Rightarrow> None)"
  by (simp add: reveal_def seal_def Let_def map_of_seal crypt_twice [OF assms] split: option.splits)



section \<open>Resolving what was rendered\<close>

lemma find_from_loop_hit:
  assumes "subtext hay j (j + length needle) = needle" and "j + length needle \<le> limit" and "i \<le> j"
    and "\<And>k. i \<le> k \<Longrightarrow> k < j \<Longrightarrow> subtext hay k (k + length needle) \<noteq> needle"
  shows "find_from_loop hay needle limit i = Some j"
  using assms(3,4)
proof (induction "j - i" arbitrary: i)
  case 0
  then show ?case using assms(1,2) by (subst find_from_loop.simps) simp
next
  case (Suc d)
  then have "i < j" by simp
  with Suc.prems(2) have "subtext hay i (i + length needle) \<noteq> needle" by simp
  moreover have "find_from_loop hay needle limit (i + 1) = Some j"
    using Suc by (intro Suc.hyps) simp_all
  ultimately show ?case using assms(2) \<open>i < j\<close> by (subst find_from_loop.simps) simp
qed

lemma find_from_loop_Some:
  "find_from_loop hay needle limit i = Some j \<Longrightarrow>
     i \<le> j \<and> j + length needle \<le> limit \<and> subtext hay j (j + length needle) = needle"
proof (induction hay needle limit i rule: find_from_loop.induct)
  case (1 hay needle limit i)
  from "1.prems" show ?case
    using "1.IH" by (subst (asm) find_from_loop.simps) (auto split: if_splits)
qed

lemma find_from_limited_Some:
  assumes "find_from_limited hay start needle m = Some j"
  shows "start \<le> j" and "j + length needle \<le> length hay"
    and "subtext hay j (j + length needle) = needle"
  using assms find_from_loop_Some [of hay needle "min (length hay) (start + m)" start j]
  by (auto simp: find_from_limited_def split: if_splits)

text \<open>
  Handles as the resolver sees them: angle brackets around bytes that are neither, short enough
  for the bounded search.
\<close>

definition handle_shaped :: "str \<Rightarrow> bool" where
  "handle_shaped ph \<longleftrightarrow>
     (\<exists>inner. ph = ''<<'' @ inner @ ''>>'' \<and> list_all handle_char inner \<and> length inner \<le> 510)"

lemma handle_char_not: "handle_char c \<Longrightarrow> c \<noteq> CHR ''<'' \<and> c \<noteq> CHR ''>''"
  by (auto simp: handle_char_code)

lemma angle_nth:
  assumes "k < length (''<<'' @ inner @ ''>>'')" and "list_all handle_char inner" and "2 \<le> k"
  shows "(''<<'' @ inner @ ''>>'') ! k \<noteq> CHR ''<''"
proof -
  have tail: "(''<<'' @ inner @ ''>>'') ! k = (inner @ ''>>'') ! (k - 2)"
    using assms(3) by (subst nth_append) (simp add: numeral_2_eq_2)
  show ?thesis
  proof (cases "k - 2 < length inner")
    case True
    then have "inner ! (k - 2) \<in> set inner" by (rule nth_mem)
    with True tail show ?thesis
      using assms(2) handle_char_not by (auto simp: list_all_iff nth_append)
  next
    case False
    with assms(1,3) have "k - 2 - length inner < 2" by simp
    then consider "k - 2 - length inner = 0" | "k - 2 - length inner = 1" by linarith
    then show ?thesis using False tail by cases (simp_all add: nth_append)
  qed
qed

lemma resolve_handle:
  assumes "handle_shaped ph" and "reveal cr rec ph = Some v"
  shows "resolve_text cr rec (ph @ rest) = v @ resolve_text cr rec rest"
proof -
  obtain inner where ph: "ph = ''<<'' @ inner @ ''>>''" "list_all handle_char inner" "length inner \<le> 510"
    using assms(1) by (auto simp: handle_shaped_def)
  let ?s = "ph @ rest"
  have at: "subtext ?s k (k + 2) = take 2 (drop (k - 2) (inner @ ''>>'' @ rest))" if "2 \<le> k" for k
  proof -
    have "k - 2 + 2 = k" using that by simp
    then have "drop k ?s = drop (k - 2) (drop 2 ?s)" by (metis drop_drop)
    moreover have "drop 2 ?s = inner @ ''>>'' @ rest" by (simp add: ph numeral_2_eq_2)
    ultimately have "drop k ?s = drop (k - 2) (inner @ ''>>'' @ rest)" by (simp only:)
    then show ?thesis by (simp only: subtext_def add_diff_cancel_left')
  qed
  have "find_from_loop ?s ''>>'' (min (length ?s) (2 + MAX_PLACEHOLDER_BYTES)) 2
      = Some (2 + length inner)"
  proof (rule find_from_loop_hit)
    show "subtext ?s (2 + length inner) (2 + length inner + length ''>>'') = ''>>''"
      using at [of "2 + length inner"] by simp
    show "2 + length inner + length ''>>'' \<le> min (length ?s) (2 + MAX_PLACEHOLDER_BYTES)"
      using ph by (simp add: MAX_PLACEHOLDER_BYTES_def)
    fix k assume k: "2 \<le> k" "k < 2 + length inner"
    then have "inner ! (k - 2) \<in> set inner" by (intro nth_mem) simp
    then have "inner ! (k - 2) \<noteq> CHR ''>''" using ph(2) handle_char_not by (auto simp: list_all_iff)
    moreover have "hd (drop (k - 2) (inner @ ''>>'' @ rest)) = inner ! (k - 2)"
      using k by (subst hd_drop_conv_nth) (auto simp: nth_append)
    moreover obtain d ds where d: "drop (k - 2) (inner @ ''>>'' @ rest) = d # ds"
      using k by (cases "drop (k - 2) (inner @ ''>>'' @ rest)") (simp del: drop_append, blast)
    ultimately have "d \<noteq> CHR ''>''" by simp
    moreover have "subtext ?s k (k + length ''>>'') = d # take 1 ds"
      using at [OF k(1)] unfolding d by (simp add: numeral_2_eq_2)
    ultimately show "subtext ?s k (k + length ''>>'') \<noteq> ''>>''" by simp
  qed simp
  then have find: "find_from_limited ?s 2 ''>>'' MAX_PLACEHOLDER_BYTES = Some (2 + length inner)"
    by (simp add: find_from_limited_def ph)
  have "length ph = 2 + length inner + 2" by (simp add: ph)
  then have token: "take (2 + length inner + 2) ?s = ph" "drop (2 + length inner + 2) ?s = rest"
    by simp_all
  obtain t where "?s = CHR ''<'' # CHR ''<'' # t" by (simp add: ph)
  then show ?thesis
    using find token assms(2) by (subst resolve_text.simps) (simp add: Let_def)
qed

lemma utf8_len_next: "utf8_next s = Some n \<Longrightarrow> utf8_len (hd s) = n"
proof (cases s)
  case (Cons a t)
  have d: "drop_bit k (code a) = code a div 2 ^ k" for k by (simp add: drop_bit_eq_div)
  assume "utf8_next s = Some n"
  then consider "code a < 128" "n = 1" | "194 \<le> code a" "code a \<le> 223" "n = 2"
    | "224 \<le> code a" "code a \<le> 239" "n = 3" | "240 \<le> code a" "code a \<le> 244" "n = 4"
    by (auto simp: Cons utf8_next.simps byte_between_def split: if_splits list.splits)
  then show ?thesis
  proof cases
    case 2
    then have "code a div 32 = 6" by linarith
    with 2 show ?thesis by (simp add: Cons utf8_len_def d)
  next
    case 3
    then have "code a div 32 = 7" "code a div 16 = 14" by linarith+
    with 3 show ?thesis by (simp add: Cons utf8_len_def d)
  next
    case 4
    then have "code a div 32 = 7" "code a div 16 = 15" "code a div 8 = 30" by linarith+
    with 4 show ?thesis by (simp add: Cons utf8_len_def d)
  qed (simp add: Cons utf8_len_def)
qed (simp add: utf8_next.simps)

text \<open>Text in which no known handle occurs is copied.\<close>

lemma resolve_copies:
  assumes "utf8_valid t" and "\<And>ph. reveal cr rec ph \<noteq> None \<Longrightarrow> handle_shaped ph \<and> \<not> sublist ph t"
    and "rest = [] \<or> prefix ''<<'' rest"
  shows "resolve_text cr rec (t @ rest) = t @ resolve_text cr rec rest"
  using assms(1,2)
proof (induction t rule: utf8_valid.induct)
  case (1 t)
  show ?case
  proof (cases "t = []")
    case False
    with "1.prems"(1) obtain n where n: "utf8_next t = Some n" "utf8_valid (drop n t)"
      by (rule utf8_valid_step)
    note b = utf8_next_bounds [OF n(1)]
    have "\<not> sublist ph (drop n t)" if "reveal cr rec ph \<noteq> None" for ph
      using "1.prems"(2) [OF that] sublist_order.order_trans suffix_drop suffix_imp_sublist by blast
    with "1.IH" [OF n] "1.prems"(2)
    have ih: "resolve_text cr rec (drop n t @ rest) = drop n t @ resolve_text cr rec rest" by blast
    have len: "utf8_len (hd (t @ rest)) = n" using utf8_len_next [OF n(1)] False by simp
    have fall: "take n (t @ rest) @ resolve_text cr rec (drop n (t @ rest)) =
        t @ resolve_text cr rec rest"
      using b ih by simp
    have none: "reveal cr rec (take (close + 2) (t @ rest)) = None"
      if close: "find_from_limited (t @ rest) 2 ''>>'' MAX_PLACEHOLDER_BYTES = Some close" for close
    proof (rule ccontr)
      let ?tok = "take (close + 2) (t @ rest)"
      assume "reveal cr rec ?tok \<noteq> None"
      from "1.prems"(2) [OF this] have shaped: "handle_shaped ?tok" and no: "\<not> sublist ?tok t" by auto
      from find_from_limited_Some [OF close] have
        cl: "close + 2 \<le> length (t @ rest)" by simp
      show False
      proof (cases "close + 2 \<le> length t")
        case True
        then have "?tok = take (close + 2) t" by simp
        with no show False by (metis prefix_imp_sublist take_is_prefix)
      next
        case False
        then obtain r where r: "rest = CHR ''<'' # CHR ''<'' # r"
          using assms(3) cl by (auto simp: prefix_def)
        obtain inner where tok: "?tok = ''<<'' @ inner @ ''>>''" "list_all handle_char inner"
          using shaped by (auto simp: handle_shaped_def)
        have lt: "length ?tok = close + 2" using cl by simp
        have "length t \<noteq> 0" using \<open>t \<noteq> []\<close> by simp
        show False
        proof (cases "close + 2 = length t + 1")
          case True
          then have "last ?tok = CHR ''<''" by (simp add: r)
          moreover have "last ?tok = CHR ''>''" unfolding tok(1) by simp
          ultimately show False by simp
        next
          case other: False
          have "?tok ! (length t + 1) = (t @ rest) ! (length t + 1)"
            using False other by (intro nth_take) simp
          also have "\<dots> = CHR ''<''" by (simp add: nth_append r)
          finally have "(''<<'' @ inner @ ''>>'') ! (length t + 1) = CHR ''<''" unfolding tok(1) .
          moreover have "length t + 1 < length (''<<'' @ inner @ ''>>'')"
            using lt False other unfolding tok(1) by simp
          ultimately show False
            using angle_nth [OF _ tok(2), of "length t + 1"] \<open>length t \<noteq> 0\<close> by simp
        qed
      qed
    qed
    from False obtain c t' where ct: "t @ rest = c # t'" by (cases t) auto
    show ?thesis
      using fall none len unfolding ct
      by (subst resolve_text.simps) (auto simp: Let_def split: option.splits)
  qed simp
qed

lemma resolve_segments:
  assumes "alternating segs"
    and "\<And>ph. reveal cr rec ph \<noteq> None \<Longrightarrow> handle_shaped ph"
    and "\<And>t. Literal t \<in> set segs \<Longrightarrow>
      utf8_valid t \<and> (\<forall>ph. reveal cr rec ph \<noteq> None \<longrightarrow> \<not> sublist ph t)"
    and "segments_value (reveal cr rec) segs = Some v"
  shows "resolve_text cr rec (segments_text segs) = v"
  using assms(1,3,4)
proof (induction segs arbitrary: v rule: alternating.induct)
  case (1 t segs)
  then obtain w where w: "segments_value (reveal cr rec) segs = Some w" "v = t @ w" by auto
  have "segments_text segs = [] \<or> prefix ''<<'' (segments_text segs)"
  proof (cases segs)
    case (Cons x xs)
    with "1.prems"(1) obtain ph l c d where x: "x = Masked ph l c d" by (cases x) auto
    with w(1) Cons have "reveal cr rec ph \<noteq> None" by (auto split: Option.bind_splits)
    with assms(2) have "prefix ''<<'' ph" unfolding handle_shaped_def prefix_def by blast
    then show ?thesis by (auto simp: Cons x prefix_def)
  qed simp
  then have "resolve_text cr rec (t @ segments_text segs) = t @ resolve_text cr rec (segments_text segs)"
    using "1.prems"(2) [of t] assms(2) by (intro resolve_copies) auto
  with "1.IH" "1.prems" w show ?case by auto
next
  case (2 ph l c d segs)
  then obtain u w where uw: "reveal cr rec ph = Some u" "segments_value (reveal cr rec) segs = Some w"
      "v = u @ w" by (auto split: Option.bind_splits)
  from resolve_handle [OF assms(2) uw(1)] uw(1) 2 uw show ?case by auto
next
  case 3
  then show ?case by (subst resolve_text.simps) simp
qed

lemma length_show_nat: "n < 10 ^ k \<Longrightarrow> 0 < k \<Longrightarrow> length (show_nat n) \<le> k"
proof (induction n arbitrary: k rule: show_nat.induct)
  case (1 n)
  show ?case
  proof (cases "n < 10")
    case True
    with "1.prems"(2) show ?thesis by (subst show_nat.simps) simp
  next
    case False
    then have "k \<noteq> 1" using "1.prems"(1) by auto
    with "1.prems"(2) obtain j where j: "k = Suc j" "0 < j" by (cases k) auto
    have "n div 10 < 10 ^ j" using "1.prems"(1) j(1) by (simp add: less_mult_imp_div_less mult.commute)
    with "1.IH" [OF False this j(2)] False j(1) show ?thesis by (subst show_nat.simps) simp
  qed
qed

lemma rendered_handle_shaped:
  assumes "label_ok label" and "hash_ok hash" and "length label \<le> 400"
  shows "handle_shaped (render_placeholder label hash n)"
proof -
  have short: "length hash \<le> 64" using assms(2) by (auto simp: hash_ok_iff)
  have digits: "length (show_nat (unat k)) \<le> 10" for k :: "32 word"
  proof (rule length_show_nat)
    have "unat k < 2 ^ LENGTH(32)" by (rule unsigned_less)
    then show "unat k < 10 ^ 10" by simp
  qed simp
  have "length (handle_inner label hash n) \<le> 510"
  proof (cases n)
    case (Some k)
    with assms(3) digits [of k] short have "length label + (length hash + length (show_nat (unat k))) \<le> 474" by linarith
    with Some show ?thesis by (simp add: handle_inner_def)
  qed (use assms(3) short in \<open>simp add: handle_inner_def\<close>)
  then show ?thesis
    unfolding handle_shaped_def render_inner
    using handle_inner_chars [OF assms(1,2)] by blast
qed

lemma utf8_valid_around_ascii:
  assumes "utf8_valid (a @ c # b)" and "is_ascii c"
  shows "utf8_valid a" and "utf8_valid b"
proof -
  note bd = utf8_boundary_after_ascii [OF assms(1), of "length a"]
  have "is_char_boundary (a @ c # b) (length a)" "is_char_boundary (a @ c # b) (Suc (length a))"
    using bd assms(2) by simp_all
  from utf8_valid_split(1) [OF assms(1) this(1)] utf8_valid_split(2) [OF assms(1) this(2)]
  show "utf8_valid a" "utf8_valid b" by simp_all
qed

lemma value_parts_valid:
  assumes "utf8_valid v" and "w \<in> set (value_parts s v)"
  shows "utf8_valid w"
proof -
  have at: "is_ascii (CHR ''@'')" by code_simp
  have "utf8_valid l \<and> utf8_valid d" if "split_email v = Some (l, d)" for l d
    using split_email_parts [OF that] assms(1) utf8_valid_around_ascii [OF _ at, of l d] by simp
  with assms show ?thesis
    by (auto simp: value_parts_def split: option.splits if_splits)
qed

lemma slice_valid: "utf8_valid raw \<Longrightarrow> str_slice raw a b = Some t \<Longrightarrow> utf8_valid t"
  using utf8_valid_subtext by (auto simp: str_slice_Some)

lemma slice_sublist: "str_slice raw a b = Some t \<Longrightarrow> sublist t raw"
  unfolding str_slice_Some subtext_def
  by (metis prefix_imp_sublist sublist_order.order_trans suffix_drop suffix_imp_sublist take_is_prefix)


lemma restore_rendered:
  assumes "render hmac raw key spans disclose = Some r"
    and "keystream_ok cr" and "\<And>v. length (hmac key v) = 32" and "utf8_valid raw"
    and "\<forall>s \<in> set spans. label_ok (sp_label s) \<and> length (sp_label s) \<le> 400"
    and "\<forall>ph \<in> set (map fst (rn_map r)). \<not> sublist ph raw"
  shows "restore cr (seal cr (rn_map r) seal_key) (rn_masked r) = plain_text raw 0 (by_start spans) \<and>
    ((\<forall>s \<in> set spans. explicit_wrapper_bounds raw s = None) \<longrightarrow>
       restore cr (seal cr (rn_map r) seal_key) (rn_masked r) = raw)"
proof -
  let ?rec = "seal cr (rn_map r) seal_key"
  obtain pick where pick: "rn_segments r = layout raw pick 0 (by_start spans)"
    "rn_masked r = segments_text (rn_segments r)"
    "\<forall>(s, v) \<in> set (placed_values raw (rendered_spans raw 0 (by_start spans))).
       handle_for hmac key (map_of (rn_map r)) (sp_label s) (char_count disclose v) v (pick s v)"
    "\<forall>s \<in> set (rendered_spans raw 0 (by_start spans)). span_text raw s = Some (value_of raw s)"
    "\<forall>seg \<in> set (rn_segments r). literal_ok raw seg"
    using render_layout [OF assms(1)] by blast
  have keys: "handle_shaped ph \<and> \<not> sublist ph raw" if "reveal cr ?rec ph \<noteq> None" for ph
  proof -
    have mem: "ph \<in> set (map fst (rn_map r))"
      using that by (auto simp: reveal_seal [OF assms(2)] dest: map_of_SomeD split: option.splits
          intro: rev_image_eqI)
    with render_keys [of hmac raw key spans disclose r, OF assms(1,3)] obtain s hash len where
      "s \<in> set spans" "hash_ok hash" "ph = render_placeholder (sp_label s) hash len"
      unfolding keys_from_def by blast
    with assms(5,6) mem rendered_handle_shaped show ?thesis by blast
  qed
  have lit: "utf8_valid t \<and> (\<forall>ph. reveal cr ?rec ph \<noteq> None \<longrightarrow> \<not> sublist ph t)"
    if seg: "Literal t \<in> set (rn_segments r)" for t
  proof -
    from seg pick(5) consider "t = ''@''" | a b where "str_slice raw a b = Some t"
      unfolding literal_ok_def by blast
    then show ?thesis
    proof cases
      case 1
      have "length ph > 1" if "handle_shaped ph" for ph using that by (auto simp: handle_shaped_def)
      then have "\<not> sublist ph ''@''" if "reveal cr ?rec ph \<noteq> None" for ph
        using keys [OF that] sublist_length_le [of ph "''@''"] by fastforce
      moreover have "utf8_valid ''@''" by code_simp
      ultimately show ?thesis using 1 by simp
    next
      case 2
      then show ?thesis
        using slice_valid [OF assms(4)] slice_sublist keys sublist_order.order_trans by blast
    qed
  qed
  have "segments_value (reveal cr ?rec) (rn_segments r) = Some (plain_text raw 0 (by_start spans))"
    unfolding pick(1)
  proof (rule layout_value)
    fix s w assume sw: "(s, w) \<in> set (placed_values raw (rendered_spans raw 0 (by_start spans)))"
    then have "s \<in> set (rendered_spans raw 0 (by_start spans))" "w \<in> set (value_parts s (value_of raw s))"
      by (auto simp: placed_values_def)
    then have "utf8_valid w"
      using pick(4) slice_valid [OF assms(4)] value_parts_valid unfolding span_text_def by blast
    moreover have "map_of (rn_map r) (pick s w) = Some w"
      using pick(3) sw by (auto simp: handle_for_def)
    ultimately show "reveal cr ?rec (pick s w) = Some w" by (simp add: reveal_seal [OF assms(2)])
  qed
  then have "restore cr ?rec (rn_masked r) = plain_text raw 0 (by_start spans)"
    unfolding restore_def pick(2)
    using resolve_segments [OF _ _ _ \<open>segments_value _ _ = _\<close>] alternating_layout keys lit pick(1)
    by metis
  then show ?thesis
    using plain_text_id [of "by_start spans" raw 0] pick(4) by simp
qed


section \<open>Properties\<close>

text \<open>
  C26. The round trip of the product: sealing the map of a rendered document and resolving the
  masked text gives back the document, without the syntax of its explicit markers; without
  markers, the document byte for byte. The labels are well formed and short enough for the
  512-byte search of the resolver, and the document does not already hold one of the handles it
  is given.
\<close>

theorem restore_inverts_render:
  assumes "render hmac raw key spans disclose = Some r"
    and "keystream_ok cr" and "\<And>v. length (hmac key v) = 32" and "utf8_valid raw"
    and "\<forall>s \<in> set spans. label_ok (sp_label s) \<and> length (sp_label s) \<le> 400"
    and "\<forall>ph \<in> set (map fst (rn_map r)). \<not> sublist ph raw"
  shows "restore cr (seal cr (rn_map r) seal_key) (rn_masked r) = plain_text raw 0 (by_start spans) \<and>
    ((\<forall>s \<in> set spans. explicit_wrapper_bounds raw s = None) \<longrightarrow>
       restore cr (seal cr (rn_map r) seal_key) (rn_masked r) = raw)"
  using assms by (rule restore_rendered)

definition example_crypto :: crypto where
  "example_crypto =
     \<lparr>sha256 = (\<lambda>s. take 32 (s @ replicate 32 (CHR ''s''))), hmac_sha256 = example_hmac,
      keystream = (\<lambda>key nonce n. replicate n (CHR ''k''))\<rparr>"

lemma keystream_ok_example: "keystream_ok example_crypto"
  by (simp add: keystream_ok_def example_crypto_def)

lemma restore_inverts_render_witness:
  "restore example_crypto (seal example_crypto (rn_map example_rendered) ''k'')
     (rn_masked example_rendered) = example_mail"
proof -
  have "length (example_hmac ''k'' v) = 32" for v by (simp add: example_hmac_def)
  moreover have "\<forall>ph \<in> set (map fst (rn_map example_rendered)). \<not> sublist ph example_mail"
    by code_simp
  moreover have "\<forall>s \<in> set example_mail_spans. label_ok (sp_label s) \<and> length (sp_label s) \<le> 400"
    "utf8_valid example_mail" by code_simp+
  moreover have "\<forall>s \<in> set example_mail_spans. explicit_wrapper_bounds example_mail s = None"
    by (simp add: example_mail_spans_def explicit_wrapper_bounds_def)
  ultimately show ?thesis
    using restore_inverts_render [OF example_render keystream_ok_example] by blast
qed

end
