(* ===== verification/Persist.thy ===== *)
theory Persist
  imports Recovery
begin

text \<open>
  The persisted form of a recovery map, \<open>Recovery::serialize\<close> and \<open>Recovery::load\<close> of
  \<open>recovery.rs\<close>: \<open>MAGIC | VERSION | HMAC(32) | body\<close>, where the body is a count and
  length-prefixed entries with little-endian 32-bit lengths.
\<close>


section \<open>Writing\<close>

definition MAGIC :: str where
  "MAGIC = ''PNR1''"

definition FORMAT_VERSION :: "8 word" where
  "FORMAT_VERSION = 1"

definition byte_of_word :: "8 word \<Rightarrow> byte" where
  "byte_of_word w = char_of (unat w)"

text \<open>\<open>u32::to_le_bytes\<close> and \<open>u32::from_le_bytes\<close>.\<close>

definition to_le_bytes :: "32 word \<Rightarrow> str" where
  "to_le_bytes w =
     map (\<lambda>k. byte_of_word (ucast (drop_bit k w))) [0, 8, 16, 24]"

fun from_le_bytes :: "str \<Rightarrow> 32 word" where
  "from_le_bytes [] = 0"
| "from_le_bytes (b # s) = word_of_nat (code b) + push_bit 8 (from_le_bytes s)"

definition length_prefixed :: "str \<Rightarrow> str" where
  "length_prefixed s = to_le_bytes (word_of_nat (length s)) @ s"

definition serialize_body :: "(str \<times> str) list \<Rightarrow> str" where
  "serialize_body m =
     to_le_bytes (word_of_nat (length m)) @
     concat (map (\<lambda>(ph, v). length_prefixed ph @ length_prefixed v) m)"

definition derive_mac_key :: "crypto \<Rightarrow> str \<Rightarrow> str" where
  "derive_mac_key cr key = sha256 cr (MAC_DOMAIN @ key)"

definition mac :: "crypto \<Rightarrow> str \<Rightarrow> str \<Rightarrow> str \<Rightarrow> str" where
  "mac cr key header body = hmac_sha256 cr (derive_mac_key cr key) (header @ body)"

definition serialize :: "crypto \<Rightarrow> recovery \<Rightarrow> str \<Rightarrow> str" where
  "serialize cr rec key =
     (let body = serialize_body (rc_map rec);
          header = MAGIC @ [byte_of_word FORMAT_VERSION]
      in header @ mac cr key header body @ body)"


section \<open>Reading\<close>

datatype recovery_error =
  BadMagic
| UnsupportedVersion "8 word"
| IntegrityFailure
| Malformed

definition recovery_error_message :: "recovery_error \<Rightarrow> str" where
  "recovery_error_message e =
     (case e of
        BadMagic \<Rightarrow> ''not a pentect recovery blob''
      | UnsupportedVersion v \<Rightarrow> ''unsupported recovery version '' @ show_nat (unat v)
      | IntegrityFailure \<Rightarrow> ''recovery integrity check failed''
      | Malformed \<Rightarrow> ''malformed recovery blob'')"

record reader =
  rd_buf :: str
  rd_pos :: nat

text \<open>\<open>checked_add\<close> on 64-bit positions: overflow is malformed input.\<close>

definition reader_take :: "nat \<Rightarrow> reader \<Rightarrow> recovery_error + (str \<times> reader)" where
  "reader_take n r =
     (let e = rd_pos r + n
      in if 2 ^ 64 \<le> e then Inl Malformed
         else if length (rd_buf r) < e then Inl Malformed
         else Inr (subtext (rd_buf r) (rd_pos r) e, r\<lparr>rd_pos := e\<rparr>))"

definition reader_u32 :: "reader \<Rightarrow> recovery_error + (32 word \<times> reader)" where
  "reader_u32 r =
     (case reader_take 4 r of
        Inl e \<Rightarrow> Inl e
      | Inr (b, r) \<Rightarrow> Inr (from_le_bytes b, r))"

definition reader_prefixed :: "reader \<Rightarrow> recovery_error + (str \<times> reader)" where
  "reader_prefixed r =
     (case reader_u32 r of
        Inl e \<Rightarrow> Inl e
      | Inr (len, r) \<Rightarrow> reader_take (unat len) r)"

fun load_entries :: "nat \<Rightarrow> reader \<Rightarrow> (str \<times> str) list \<Rightarrow>
    recovery_error + ((str \<times> str) list \<times> reader)" where
  "load_entries 0 r m = Inr (m, r)"
| "load_entries (Suc count) r m =
     (case reader_prefixed r of
        Inl e \<Rightarrow> Inl e
      | Inr (ph, r) \<Rightarrow>
          if \<not> utf8_valid ph then Inl Malformed
          else
            (case reader_prefixed r of
               Inl e \<Rightarrow> Inl e
             | Inr (v, r) \<Rightarrow> load_entries count r (AList.update ph v m)))"

definition load_body :: "str \<Rightarrow> recovery_error + (str \<times> str) list" where
  "load_body body =
     (case reader_u32 \<lparr>rd_buf = body, rd_pos = 0\<rparr> of
        Inl e \<Rightarrow> Inl e
      | Inr (count, r) \<Rightarrow>
          (case load_entries (unat count) r [] of
             Inl e \<Rightarrow> Inl e
           | Inr (m, r) \<Rightarrow> if rd_pos r \<noteq> length body then Inl Malformed else Inr m))"

definition load :: "crypto \<Rightarrow> str \<Rightarrow> str \<Rightarrow> recovery_error + recovery" where
  "load cr bytes key =
     (if length bytes < 4 + 1 + 32 then Inl Malformed
      else if take 4 bytes \<noteq> MAGIC then Inl BadMagic
      else
        let version = (word_of_nat (code (bytes ! 4)) :: 8 word)
        in if version \<noteq> FORMAT_VERSION then Inl (UnsupportedVersion version)
           else
             let tag = subtext bytes 5 37;
                 body = drop 37 bytes
             in if mac cr key (take 5 bytes) body \<noteq> tag then Inl IntegrityFailure
                else
                  (case load_body body of
                     Inl e \<Rightarrow> Inl e
                   | Inr m \<Rightarrow> Inr \<lparr>rc_memory_key = derive_memory_key cr key, rc_map = m\<rparr>))"


section \<open>Reading what was written\<close>

lemma length_to_le_bytes [simp]: "length (to_le_bytes w) = 4"
  by (simp add: to_le_bytes_def)

lemma from_to_le_bytes: "from_le_bytes (to_le_bytes w) = w"
proof -
  let ?n = "unat w"
  have "?n < 2 ^ LENGTH(32)" by (rule unsigned_less)
  then have n: "?n < 4294967296" by simp
  have byte: "code (byte_of_word (ucast (drop_bit k w))) = (?n div 2 ^ k) mod 256" for k
    by (simp add: byte_of_word_def unsigned_ucast_eq unsigned_drop_bit_eq
        take_bit_eq_mod [where ?'a = nat] drop_bit_eq_div [where ?'a = nat] n)
  have "from_le_bytes (to_le_bytes w) = word_of_nat (?n mod 256 + 256 * ((?n div 256) mod 256 +
      256 * ((?n div 65536) mod 256 + 256 * ((?n div 16777216) mod 256))))"
    using byte [of 0] by (simp add: to_le_bytes_def byte push_bit_eq_mult)
  also have "?n mod 256 + 256 * ((?n div 256) mod 256 +
      256 * ((?n div 65536) mod 256 + 256 * ((?n div 16777216) mod 256))) = ?n"
  proof -
    have "?n div 65536 = ?n div 256 div 256" "?n div 16777216 = ?n div 256 div 256 div 256"
      by (simp_all flip: div_mult2_eq)
    moreover have "?n div 256 div 256 div 256 < 256"
      using n by (simp add: less_mult_imp_div_less flip: div_mult2_eq)
    ultimately show ?thesis by (simp add: mod_mult_div_eq)
  qed
  finally show ?thesis by simp
qed

lemma reader_take_prefix:
  assumes "length pre + length s < 2 ^ 64"
  shows "reader_take (length s) \<lparr>rd_buf = pre @ s @ rest, rd_pos = length pre\<rparr>
    = Inr (s, \<lparr>rd_buf = pre @ s @ rest, rd_pos = length pre + length s\<rparr>)"
  using assms by (simp add: reader_take_def subtext_def)

lemma reader_u32_prefix:
  assumes "length pre + 4 < 2 ^ 64"
  shows "reader_u32 \<lparr>rd_buf = pre @ to_le_bytes w @ rest, rd_pos = length pre\<rparr>
    = Inr (w, \<lparr>rd_buf = pre @ to_le_bytes w @ rest, rd_pos = length pre + 4\<rparr>)"
  using reader_take_prefix [of pre "to_le_bytes w" rest] assms
  by (simp add: reader_u32_def from_to_le_bytes)

lemma reader_prefixed_prefix:
  assumes "length pre + length (length_prefixed s) < 2 ^ 64" and "length s < 2 ^ 32"
  shows "reader_prefixed \<lparr>rd_buf = pre @ length_prefixed s @ rest, rd_pos = length pre\<rparr>
    = Inr (s, \<lparr>rd_buf = pre @ length_prefixed s @ rest,
        rd_pos = length pre + length (length_prefixed s)\<rparr>)"
proof -
  let ?w = "word_of_nat (length s) :: 32 word"
  have len: "length pre + 4 + length s < 2 ^ 64" using assms(1) by (simp add: length_prefixed_def)
  have "unat ?w = length s" using assms(2) by (simp add: unsigned_of_nat take_bit_nat_eq_self)
  then show ?thesis
    using reader_u32_prefix [of pre ?w "s @ rest"]
      reader_take_prefix [of "pre @ to_le_bytes ?w" s rest] len
    by (simp add: reader_prefixed_def length_prefixed_def add.assoc)
qed

lemma update_new: "k \<notin> set (map fst m) \<Longrightarrow> AList.update k v m = m @ [(k, v)]"
  by (induction m) auto

definition entry_bytes :: "str \<times> str \<Rightarrow> str" where
  "entry_bytes e = length_prefixed (fst e) @ length_prefixed (snd e)"

lemma entry_bytes_pair: "entry_bytes (ph, v) = length_prefixed ph @ length_prefixed v"
  by (simp add: entry_bytes_def)

lemma load_entries_written:
  assumes "length (pre @ concat (map entry_bytes es)) < 2 ^ 64"
    and "\<forall>(ph, v) \<in> set es. length ph < 2 ^ 32 \<and> length v < 2 ^ 32 \<and> utf8_valid ph"
    and "distinct (map fst (m @ es))"
  shows "load_entries (length es)
      \<lparr>rd_buf = pre @ concat (map entry_bytes es), rd_pos = length pre\<rparr> m
    = Inr (m @ es, \<lparr>rd_buf = pre @ concat (map entry_bytes es),
        rd_pos = length (pre @ concat (map entry_bytes es))\<rparr>)"
  using assms
proof (induction es arbitrary: pre m)
  case (Cons e es)
  obtain ph v where e: "e = (ph, v)" by force
  let ?rest = "concat (map entry_bytes es)" and ?buf = "pre @ concat (map entry_bytes (e # es))"
  have ph: "reader_prefixed \<lparr>rd_buf = ?buf, rd_pos = length pre\<rparr>
      = Inr (ph, \<lparr>rd_buf = ?buf, rd_pos = length pre + length (length_prefixed ph)\<rparr>)"
    using reader_prefixed_prefix [of pre ph "length_prefixed v @ ?rest"] Cons.prems(1,2)
    by (simp add: e entry_bytes_pair)
  have v: "reader_prefixed \<lparr>rd_buf = ?buf, rd_pos = length pre + length (length_prefixed ph)\<rparr>
      = Inr (v, \<lparr>rd_buf = ?buf,
          rd_pos = length pre + length (length_prefixed ph) + length (length_prefixed v)\<rparr>)"
    using reader_prefixed_prefix [of "pre @ length_prefixed ph" v "?rest"] Cons.prems(1,2)
    by (simp add: e entry_bytes_pair add.assoc)
  have upd: "AList.update ph v m = m @ [(ph, v)]"
    using Cons.prems(3) by (intro update_new) (auto simp: e)
  have ih: "load_entries (length es)
      \<lparr>rd_buf = (pre @ entry_bytes e) @ ?rest, rd_pos = length (pre @ entry_bytes e)\<rparr> (m @ [e])
    = Inr ((m @ [e]) @ es, \<lparr>rd_buf = (pre @ entry_bytes e) @ ?rest,
        rd_pos = length ((pre @ entry_bytes e) @ ?rest)\<rparr>)"
    by (rule Cons.IH) (use Cons.prems in \<open>auto simp: e\<close>)
  have "utf8_valid ph" using Cons.prems(2) by (simp add: e)
  then show ?case
    using ph v upd ih by (simp add: e entry_bytes_pair add.assoc)
qed simp

lemma serialize_body_entries:
  "serialize_body m = to_le_bytes (word_of_nat (length m)) @ concat (map entry_bytes m)"
  by (simp add: serialize_body_def entry_bytes_def [abs_def] case_prod_unfold)

text \<open>What fits in the 32-bit counters of the format.\<close>

definition map_fits :: "(str \<times> str) list \<Rightarrow> bool" where
  "map_fits m \<longleftrightarrow> length m < 2 ^ 32 \<and> length (serialize_body m) < 2 ^ 64 \<and>
     list_all (\<lambda>(ph, v). length ph < 2 ^ 32 \<and> length v < 2 ^ 32 \<and> utf8_valid ph) m \<and>
     distinct (map fst m)"

lemma load_body_written:
  assumes "map_fits m"
  shows "load_body (serialize_body m) = Inr m"
proof -
  let ?w = "word_of_nat (length m) :: 32 word"
  let ?body = "to_le_bytes ?w @ concat (map entry_bytes m)"
  have fits: "length ?body < 2 ^ 64" "length m < 2 ^ 32"
    using assms by (simp_all add: map_fits_def serialize_body_entries)
  have w: "unat ?w = length m" using fits(2) by (simp add: unsigned_of_nat take_bit_nat_eq_self)
  have "reader_u32 \<lparr>rd_buf = ?body, rd_pos = 0\<rparr> = Inr (?w, \<lparr>rd_buf = ?body, rd_pos = 4\<rparr>)"
    using reader_u32_prefix [of "[]" ?w "concat (map entry_bytes m)"] by simp
  moreover have "load_entries (length m) \<lparr>rd_buf = ?body, rd_pos = length (to_le_bytes ?w)\<rparr> [] =
      Inr ([] @ m, \<lparr>rd_buf = ?body, rd_pos = length ?body\<rparr>)"
    by (rule load_entries_written) (use assms fits in \<open>auto simp: map_fits_def list_all_iff\<close>)
  ultimately show ?thesis
    by (simp add: load_body_def serialize_body_entries w)
qed

lemma load_written:
  assumes "map_fits (rc_map rec)" and "rc_memory_key rec = derive_memory_key cr key"
    and "\<And>k v. length (hmac_sha256 cr k v) = 32"
  shows "load cr (serialize cr rec key) key = Inr rec"
proof -
  let ?body = "serialize_body (rc_map rec)" and ?header = "MAGIC @ [byte_of_word FORMAT_VERSION]"
  let ?tag = "mac cr key ?header ?body"
  have tag: "length ?tag = 32" by (simp add: mac_def assms(3))
  have header: "length ?header = 5" by (simp add: MAGIC_def)
  have bytes: "serialize cr rec key = ?header @ ?tag @ ?body" by (simp add: serialize_def Let_def)
  have parts: "take 5 (?header @ ?tag @ ?body) = ?header" "drop 37 (?header @ ?tag @ ?body) = ?body"
    "subtext (?header @ ?tag @ ?body) 5 37 = ?tag" "take 4 (?header @ ?tag @ ?body) = MAGIC"
    "(?header @ ?tag @ ?body) ! 4 = byte_of_word FORMAT_VERSION"
    using header tag by (simp_all add: subtext_def MAGIC_def)
  have "word_of_nat (code (byte_of_word FORMAT_VERSION)) = FORMAT_VERSION"
    by (simp add: byte_of_word_def FORMAT_VERSION_def)
  then show ?thesis
    using header tag load_body_written [OF assms(1)] assms(2)
    unfolding load_def bytes parts Let_def by simp
qed


section \<open>Properties\<close>

text \<open>
  C29. Persistence is lossless: loading what \<open>serialize\<close> wrote, with the same key, succeeds and
  returns the same sealed map under the same memory key, so every handle resolves as before.
  The map fits the 32-bit counts and lengths of the format and its keys are UTF-8, as those of
  a \<open>HashMap<String, _>\<close> are.
\<close>

theorem load_inverts_serialize:
  assumes "map_fits (rc_map rec)" and "rc_memory_key rec = derive_memory_key cr key"
    and "\<And>k v. length (hmac_sha256 cr k v) = 32"
  shows "load cr (serialize cr rec key) key = Inr rec"
  using assms by (rule load_written)

definition example_sealed :: recovery where
  "example_sealed =
     \<lparr>rc_memory_key = derive_memory_key example_crypto ''k'',
      rc_map = [(''<<X_0123456789abcdef>>'', ''cipher'')]\<rparr>"

lemma example_sealed_ok:
  "map_fits (rc_map example_sealed)"
  "rc_memory_key example_sealed = derive_memory_key example_crypto ''k''"
  "length (hmac_sha256 example_crypto k v) = 32"
proof -
  have "utf8_valid ''<<X_0123456789abcdef>>''" by code_simp
  then show "map_fits (rc_map example_sealed)"
    by (simp add: map_fits_def example_sealed_def serialize_body_def length_prefixed_def)
qed (simp_all add: example_sealed_def example_crypto_def example_hmac_def)

lemma load_inverts_serialize_witness:
  "load example_crypto (serialize example_crypto example_sealed ''k'') ''k'' = Inr example_sealed"
  by (rule load_inverts_serialize [OF example_sealed_ok])



end
