(* ===== verification/Views.thy ===== *)
theory Views
  imports Persist
begin

text \<open>
  Encoded views of handles, the second half of \<open>recovery.rs\<close>: the bounded scanner
  \<open>scan_recovery_views\<close> and the strict resolver \<open>resolve_view_text_bounded\<close>. The base64
  encoder of the crate \<open>data_encoding\<close> and its length function are parameters.
\<close>


section \<open>Scanning\<close>

datatype view_kind = RawView | Base64View

record view_token =
  vt_start :: nat
  vt_end :: nat
  vt_handle :: str
  vt_kind :: view_kind

datatype view_scan_error = ScanMalformed | ScanUnknownView | ScanLimit

definition MAX_RECOVERY_VIEW_TOKENS :: nat where
  "MAX_RECOVERY_VIEW_TOKENS = 4096"

definition MAX_RECOVERY_VIEW_INPUT_BYTES :: nat where
  "MAX_RECOVERY_VIEW_INPUT_BYTES = 32 * 1024 * 1024"

definition MAX_RECOVERY_VIEW_OUTPUT_BYTES :: nat where
  "MAX_RECOVERY_VIEW_OUTPUT_BYTES = 32 * 1024 * 1024"

definition exact_handle :: "str \<Rightarrow> bool" where
  "exact_handle v = is_canonical_placeholder v"

definition wrap_handle :: "str \<Rightarrow> str" where
  "wrap_handle base = ''<<'' @ base @ ''>>''"

definition view_kind_of :: "str \<Rightarrow> view_scan_error + view_kind" where
  "view_kind_of view =
     (if view = ''base64'' then Inr Base64View
      else if view = [] then Inl ScanMalformed
      else Inl ScanUnknownView)"

definition opens_handle :: "str \<Rightarrow> bool" where
  "opens_handle s \<longleftrightarrow> prefix ''<<'' s"

text \<open>
  A handle-like opening without its closing within the bound: the text before the first \<open>|\<close>
  is a known handle shape, so the view is malformed.
\<close>

definition unclosed_view :: "str \<Rightarrow> bool" where
  "unclosed_view s =
     (let candidate = subtext s 2 (min (length s) (2 + MAX_PLACEHOLDER_BYTES))
      in case str_find ''|'' candidate of
           None \<Rightarrow> False
         | Some pipe \<Rightarrow>
             let base = take pipe candidate
             in utf8_valid base \<and> exact_handle (wrap_handle base))"

text \<open>
  What the token at the head of \<open>s\<close> is, given the offset of its closing brackets: \<open>None\<close> when
  it is prose.
\<close>

definition classify_token :: "str \<Rightarrow> nat \<Rightarrow> view_scan_error + (str \<times> view_kind) option" where
  "classify_token s close =
     (let token = take (close + 2) s; inner = subtext s 2 close
      in case split_once ''|'' inner of
           Some (base, view) \<Rightarrow>
             if \<not> exact_handle (wrap_handle base) then Inr None
             else (case view_kind_of view of
                     Inl e \<Rightarrow> Inl e
                   | Inr kind \<Rightarrow> Inr (Some (wrap_handle base, kind)))
         | None \<Rightarrow> if exact_handle token then Inr (Some (token, RawView)) else Inr None)"

function scan_loop :: "nat \<Rightarrow> str \<Rightarrow> view_token list \<Rightarrow> view_scan_error + view_token list" where
  "scan_loop i s tokens =
     (case s of [] \<Rightarrow> Inr tokens
      | b # _ \<Rightarrow>
          if \<not> opens_handle s then scan_loop (i + utf8_len b) (drop (utf8_len b) s) tokens
          else
            (case find_from_limited s 2 ''>>'' MAX_PLACEHOLDER_BYTES of
               None \<Rightarrow>
                 if unclosed_view s then Inl ScanMalformed
                 else scan_loop (i + 1) (drop 1 s) tokens
             | Some close \<Rightarrow>
                 (case classify_token s close of
                    Inl e \<Rightarrow> Inl e
                  | Inr None \<Rightarrow> scan_loop (i + 1) (drop 1 s) tokens
                  | Inr (Some (handle, kind)) \<Rightarrow>
                      if MAX_RECOVERY_VIEW_TOKENS \<le> length tokens then Inl ScanLimit
                      else scan_loop (i + (close + 2)) (drop (close + 2) s)
                        (tokens @ [\<lparr>vt_start = i, vt_end = i + (close + 2), vt_handle = handle,
                                     vt_kind = kind\<rparr>]))))"
  by pat_completeness auto
termination
  by (relation "measure (\<lambda>(i, s, tokens). length s)") (auto simp: utf8_len_pos)

declare scan_loop.simps [simp del]

definition scan_recovery_views :: "str \<Rightarrow> view_scan_error + view_token list" where
  "scan_recovery_views s =
     (if MAX_RECOVERY_VIEW_INPUT_BYTES < length s then Inl ScanLimit else scan_loop 0 s [])"


section \<open>Resolving views\<close>

datatype view_error = ViewMalformed | ViewUnknownHandle | ViewUnknownView | ViewOutputTooLarge

fun view_error_message :: "view_error \<Rightarrow> str" where
  "view_error_message ViewMalformed = ''malformed recovery view''"
| "view_error_message ViewUnknownHandle = ''unknown recovery view handle''"
| "view_error_message ViewUnknownView = ''unknown recovery view''"
| "view_error_message ViewOutputTooLarge = ''resolved recovery view output is too large''"

fun view_error_of_scan :: "view_scan_error \<Rightarrow> view_error" where
  "view_error_of_scan ScanMalformed = ViewMalformed"
| "view_error_of_scan ScanUnknownView = ViewUnknownView"
| "view_error_of_scan ScanLimit = ViewMalformed"

record base64_encoder =
  b64_encode :: "str \<Rightarrow> str"
  b64_encode_len :: "nat \<Rightarrow> nat"

definition view_rendered :: "base64_encoder \<Rightarrow> str \<Rightarrow> str \<Rightarrow> str option" where
  "view_rendered b64 v view = (if view = ''base64'' then Some (b64_encode b64 v) else None)"

text \<open>The bytes a token stands for, when they fit: \<open>used\<close> is the length of the output so far.\<close>

definition token_output ::
    "base64_encoder \<Rightarrow> nat \<Rightarrow> nat \<Rightarrow> view_kind \<Rightarrow> str \<Rightarrow> view_error + str" where
  "token_output b64 limit used kind v =
     (case kind of
        RawView \<Rightarrow> if limit < used + length v then Inl ViewOutputTooLarge else Inr v
      | Base64View \<Rightarrow>
          if limit < used + b64_encode_len b64 (length v) then Inl ViewOutputTooLarge
          else Inr (the (view_rendered b64 v ''base64'')))"

fun resolve_tokens ::
    "crypto \<Rightarrow> base64_encoder \<Rightarrow> recovery \<Rightarrow> str \<Rightarrow> nat \<Rightarrow> view_token list \<Rightarrow> nat \<Rightarrow> str \<Rightarrow>
     view_error + str" where
  "resolve_tokens cr b64 rec s limit [] cursor out =
     (if limit < length out + (length s - cursor) then Inl ViewOutputTooLarge
      else Inr (out @ drop cursor s))"
| "resolve_tokens cr b64 rec s limit (t # tokens) cursor out =
     (if limit < length out + (vt_start t - cursor) then Inl ViewOutputTooLarge
      else
        let out = out @ subtext s cursor (vt_start t)
        in case reveal cr rec (vt_handle t) of
             None \<Rightarrow> Inl ViewUnknownHandle
           | Some v \<Rightarrow>
               (case token_output b64 limit (length out) (vt_kind t) v of
                  Inl e \<Rightarrow> Inl e
                | Inr piece \<Rightarrow> resolve_tokens cr b64 rec s limit tokens (vt_end t) (out @ piece)))"

definition resolve_view_text_bounded ::
    "crypto \<Rightarrow> base64_encoder \<Rightarrow> recovery \<Rightarrow> str \<Rightarrow> nat \<Rightarrow> view_error + str" where
  "resolve_view_text_bounded cr b64 rec s limit =
     (case scan_recovery_views s of
        Inl e \<Rightarrow> Inl (view_error_of_scan e)
      | Inr tokens \<Rightarrow> resolve_tokens cr b64 rec s limit tokens 0 [])"

definition resolve_with_views ::
    "crypto \<Rightarrow> base64_encoder \<Rightarrow> recovery \<Rightarrow> str \<Rightarrow> view_error + str" where
  "resolve_with_views cr b64 rec s =
     resolve_view_text_bounded cr b64 rec s MAX_RECOVERY_VIEW_OUTPUT_BYTES"


section \<open>What the scanner returns\<close>

text \<open>
  A token is exact: the text at its position is the handle, or the handle with \<open>|base64\<close>
  before its closing brackets, and the handle is canonical.
\<close>

definition token_text :: "view_token \<Rightarrow> str" where
  "token_text t =
     (case vt_kind t of
        RawView \<Rightarrow> vt_handle t
      | Base64View \<Rightarrow> take (length (vt_handle t) - 2) (vt_handle t) @ ''|base64>>'')"

definition token_exact :: "str \<Rightarrow> view_token \<Rightarrow> bool" where
  "token_exact s t \<longleftrightarrow>
     vt_start t < vt_end t \<and> vt_end t \<le> length s \<and>
     subtext s (vt_start t) (vt_end t) = token_text t \<and> exact_handle (vt_handle t)"

definition tokens_ok :: "str \<Rightarrow> view_token list \<Rightarrow> bool" where
  "tokens_ok s tokens \<longleftrightarrow>
     list_all (token_exact s) tokens \<and> length tokens \<le> MAX_RECOVERY_VIEW_TOKENS \<and>
     sorted_wrt (\<lambda>t u. vt_end t \<le> vt_start u) tokens"

lemma take_token:
  assumes "opens_handle s" and "find_from_limited s 2 ''>>'' m = Some close"
  shows "take (close + 2) s = ''<<'' @ subtext s 2 close @ ''>>''" and "close + 2 \<le> length s"
    and "2 \<le> close"
proof -
  note f = find_from_limited_Some [OF assms(2)]
  show "close + 2 \<le> length s" "2 \<le> close" using f by simp_all
  have "take 2 s = ''<<''" using assms(1) by (auto simp: opens_handle_def prefix_def numeral_2_eq_2)
  moreover have "take (close + 2) s = (take 2 s @ subtext s 2 close) @ subtext s close (close + 2)"
    using subtext_append [of 0 2 close s] subtext_append [of 0 close "close + 2" s] f(1)
    by (simp add: subtext_def)
  ultimately show "take (close + 2) s = ''<<'' @ subtext s 2 close @ ''>>''"
    using f(3) by (simp add: numeral_2_eq_2)
qed

lemma classify_token_exact:
  assumes "opens_handle s" and "find_from_limited s 2 ''>>'' m = Some close"
    and "classify_token s close = Inr (Some (handle, kind))"
  shows "exact_handle handle \<and>
    take (close + 2) s =
      token_text \<lparr>vt_start = a, vt_end = b, vt_handle = handle, vt_kind = kind\<rparr>"
proof (cases "split_once ''|'' (subtext s 2 close)")
  case None
  then show ?thesis
    using assms(3) by (auto simp: classify_token_def token_text_def Let_def split: if_splits)
next
  case (Some bv)
  obtain base view where bv: "bv = (base, view)" by force
  from split_once_Some [OF Some [unfolded bv]]
  have inner: "subtext s 2 close = base @ ''|'' @ view" .
  from assms(3) Some bv have h: "handle = wrap_handle base" "exact_handle handle"
      "view_kind_of view = Inr kind"
    by (auto simp: classify_token_def Let_def split: if_splits sum.splits)
  then have k: "kind = Base64View" "view = ''base64''"
    by (auto simp: view_kind_of_def split: if_splits)
  have "take (length handle - 2) handle = ''<<'' @ base"
    using h(1) by (simp add: wrap_handle_def)
  then show ?thesis
    using h(2) k take_token(1) [OF assms(1,2)] inner by (simp add: token_text_def)
qed

lemma scan_loop_ok:
  assumes "scan_loop i s tokens = Inr res" and "s = drop i whole" and "tokens_ok whole tokens"
    and "\<forall>t \<in> set tokens. vt_end t \<le> i"
  shows "tokens_ok whole res"
  using assms
proof (induction i s tokens rule: scan_loop.induct)
  case (1 i s tokens)
  note unfold = scan_loop.simps [of i s tokens]
  show ?case
  proof (cases s)
    case Nil
    with "1.prems" unfold show ?thesis by simp
  next
    case (Cons b r)
    have later: "\<forall>t \<in> set tokens. vt_end t \<le> i + k" for k
      using "1.prems"(4) by (auto intro: trans_le_add1)
    show ?thesis
    proof (cases "opens_handle s")
      case False
      have "scan_loop (i + utf8_len b) (drop (utf8_len b) s) tokens = Inr res"
        using "1.prems"(1) unfold Cons False by simp
      from "1.IH"(1) [OF Cons False this] "1.prems"(2,3) later show ?thesis
        by (simp add: add.commute)
    next
      case open_: True
      show ?thesis
      proof (cases "find_from_limited s 2 ''>>'' MAX_PLACEHOLDER_BYTES")
        case None
        with "1.prems"(1) unfold Cons open_ have "\<not> unclosed_view s"
            "scan_loop (i + 1) (drop 1 s) tokens = Inr res"
          by (auto split: if_splits)
        from "1.IH"(2) [OF Cons _ None this] open_ "1.prems"(2,3) later [of 1] show ?thesis by simp
      next
        case (Some close)
        note tk = take_token [OF open_ Some]
        from "1.prems"(1) unfold Cons open_ Some obtain c where
          c: "classify_token s close = Inr c" by (auto split: sum.splits)
        show ?thesis
        proof (cases c)
          case None
          with "1.prems"(1) unfold Cons open_ Some c
          have "scan_loop (i + 1) (drop 1 s) tokens = Inr res" by simp
          from "1.IH"(3) [OF Cons _ Some c None this] open_ "1.prems"(2,3) later [of 1] show ?thesis
            by simp
        next
          case hk: (Some hk)
          obtain handle kind where hk': "hk = (handle, kind)" by force
          let ?t = "\<lparr>vt_start = i, vt_end = i + (close + 2), vt_handle = handle, vt_kind = kind\<rparr>"
          have room: "\<not> MAX_RECOVERY_VIEW_TOKENS \<le> length tokens"
            and rest: "scan_loop (i + (close + 2)) (drop (close + 2) s) (tokens @ [?t]) = Inr res"
            using "1.prems"(1) unfold Cons open_ Some c hk hk' by (auto split: if_splits)
          have "token_exact whole ?t"
            using classify_token_exact [OF open_ Some, of handle kind i "i + (close + 2)"] c hk hk'
              "1.prems"(2) tk(2) Cons
            by (auto simp: token_exact_def subtext_def)
          moreover have "\<forall>t \<in> set tokens. vt_end t \<le> i" by (rule "1.prems"(4))
          ultimately have "tokens_ok whole (tokens @ [?t])"
            using "1.prems"(3) room by (simp add: tokens_ok_def sorted_wrt_append)
          moreover have "drop (close + 2) s = drop (i + (close + 2)) whole"
            using "1.prems"(2) by (simp add: add.commute)
          moreover have "\<forall>t \<in> set (tokens @ [?t]). vt_end t \<le> i + (close + 2)"
            using later [of "close + 2"] by simp
          ultimately show ?thesis
            using "1.IH"(4) [OF Cons _ Some c hk hk' [symmetric] room rest] open_ by simp
        qed
      qed
    qed
  qed
qed


section \<open>What the resolver returns\<close>

text \<open>The text with every token replaced.\<close>

fun substituted :: "(view_token \<Rightarrow> str) \<Rightarrow> str \<Rightarrow> nat \<Rightarrow> view_token list \<Rightarrow> str" where
  "substituted f s cursor [] = drop cursor s"
| "substituted f s cursor (t # tokens) =
     subtext s cursor (vt_start t) @ f t @ substituted f s (vt_end t) tokens"

definition token_value :: "crypto \<Rightarrow> base64_encoder \<Rightarrow> recovery \<Rightarrow> view_token \<Rightarrow> str" where
  "token_value cr b64 rec t =
     (case reveal cr rec (vt_handle t) of
        None \<Rightarrow> []
      | Some v \<Rightarrow> (case vt_kind t of RawView \<Rightarrow> v | Base64View \<Rightarrow> b64_encode b64 v))"

definition base64_ok :: "base64_encoder \<Rightarrow> bool" where
  "base64_ok b64 \<longleftrightarrow> (\<forall>v. length (b64_encode b64 v) = b64_encode_len b64 (length v))"

lemma resolve_tokens_iff:
  assumes "base64_ok b64" and "\<forall>t \<in> set tokens. vt_start t \<le> length s"
  shows "resolve_tokens cr b64 rec s limit tokens cursor out = Inr res \<longleftrightarrow>
    (\<forall>t \<in> set tokens. reveal cr rec (vt_handle t) \<noteq> None) \<and>
    res = out @ substituted (token_value cr b64 rec) s cursor tokens \<and> length res \<le> limit"
  using assms(2)
proof (induction tokens arbitrary: cursor out)
  case (Cons t tokens)
  let ?out = "out @ subtext s cursor (vt_start t)"
  have len: "length ?out = length out + (vt_start t - cursor)"
    using Cons.prems by (simp add: min_absorb1 diff_le_mono)
  show ?case
  proof (cases "reveal cr rec (vt_handle t)")
    case None
    then show ?thesis by (simp add: Let_def)
  next
    case (Some v)
    have piece: "token_output b64 limit n (vt_kind t) v =
        (if limit < n + length (token_value cr b64 rec t) then Inl ViewOutputTooLarge
         else Inr (token_value cr b64 rec t))" for n
      using assms(1) Some
      by (auto simp: token_output_def token_value_def view_rendered_def base64_ok_def
          split: view_kind.splits)
    show ?thesis
      using Cons.IH [of "vt_end t" "?out @ token_value cr b64 rec t"] Cons.prems Some len
      by (auto simp: Let_def piece)
  qed
qed auto


section \<open>Properties\<close>

lemma scan_tokens_ok: "scan_recovery_views s = Inr tokens \<Longrightarrow> tokens_ok s tokens"
  using scan_loop_ok [of 0 s "[]" tokens s]
  by (auto simp: scan_recovery_views_def tokens_ok_def split: if_splits)

text \<open>
  The scanner is exact: on success its tokens come in order, do not overlap, number at most
  4096, and each is the text at its position, a canonical handle as it stands or with
  \<open>|base64\<close> before its closing brackets.
\<close>

theorem scan_tokens_exact:
  assumes "scan_recovery_views s = Inr tokens"
  shows "tokens_ok s tokens"
  by (rule scan_tokens_ok [OF assms])

definition example_views :: str where
  "example_views = ''a <<X_0123456789abcdef>> b <<X_0123456789abcdef|base64>>''"

definition example_tokens :: "view_token list" where
  "example_tokens =
    [\<lparr>vt_start = 2, vt_end = 24, vt_handle = ''<<X_0123456789abcdef>>'', vt_kind = RawView\<rparr>,
     \<lparr>vt_start = 27, vt_end = 56, vt_handle = ''<<X_0123456789abcdef>>'', vt_kind = Base64View\<rparr>]"

lemma example_scan: "scan_loop 0 example_views [] = Inr example_tokens"
  by code_simp

lemma scan_tokens_exact_witness: "tokens_ok example_views example_tokens"
proof (rule scan_tokens_exact)
  show "scan_recovery_views example_views = Inr example_tokens"
    using example_scan
    by (simp add: scan_recovery_views_def MAX_RECOVERY_VIEW_INPUT_BYTES_def example_views_def)
qed


definition example_base64 :: base64_encoder where
  "example_base64 = \<lparr>b64_encode = (\<lambda>v. ''b64:'' @ v), b64_encode_len = (\<lambda>n. n + 4)\<rparr>"

definition example_store :: recovery where
  "example_store = seal example_crypto [(''<<X_0123456789abcdef>>'', ''secret'')] ''k''"


end
