(* ===== verification/Masking.thy ===== *)
theory Masking
  imports Prelude
begin

text \<open>
  What re-masking has to do, for whole texts and for streams: an abstract specification that
  \<open>Recovery::remask\<close>, \<open>Recovery::remask_views\<close> and \<open>RecoveryStreamRemasker\<close> of
  \<open>recovery.rs\<close> are shown to implement in \<open>Remask\<close> and \<open>Streaming\<close>.
\<close>


section \<open>Streams of visible and control bytes\<close>

text \<open>
  A stream interleaves visible bytes, which are searched, with control bytes (escape sequences),
  which are passed through. A text is a stream of visible bytes only.
\<close>

datatype item = is_vis: Vis byte | Ctl byte

fun visible_of :: "item list \<Rightarrow> str" where
  "visible_of [] = []"
| "visible_of (Vis b # xs) = b # visible_of xs"
| "visible_of (Ctl b # xs) = visible_of xs"

fun raw_of :: "item list \<Rightarrow> str" where
  "raw_of [] = []"
| "raw_of (Vis b # xs) = b # raw_of xs"
| "raw_of (Ctl b # xs) = b # raw_of xs"

lemma visible_of_append [simp]: "visible_of (xs @ ys) = visible_of xs @ visible_of ys"
  by (induction xs rule: visible_of.induct) auto

lemma raw_of_append [simp]: "raw_of (xs @ ys) = raw_of xs @ raw_of ys"
  by (induction xs rule: raw_of.induct) auto

lemma raw_of_Nil [simp]: "raw_of xs = [] \<longleftrightarrow> xs = []"
  by (cases xs rule: raw_of.cases) auto

lemma visible_of_Vis [simp]: "visible_of (map Vis s) = s"
  by (induction s) auto

lemma visible_of_Ctl [simp]: "visible_of (map Ctl s) = []"
  by (induction s) auto

lemma raw_of_Vis [simp]: "raw_of (map Vis s) = s"
  by (induction s) auto

lemma raw_of_Ctl [simp]: "raw_of (map Ctl s) = s"
  by (induction s) auto


section \<open>The specification\<close>

text \<open>A value, the handle that replaces it, and whether it needs token boundaries.\<close>

type_synonym remask_pattern = "str \<times> str \<times> bool"

definition is_word_byte :: "byte \<Rightarrow> bool" where
  "is_word_byte b \<longleftrightarrow> is_ascii_alphanumeric b \<or> b = CHR ''_'' \<or> \<not> is_ascii b"

definition stands_alone :: "byte option \<Rightarrow> str \<Rightarrow> nat \<Rightarrow> bool" where
  "stands_alone left s n \<longleftrightarrow>
     \<not> (\<exists>b. left = Some b \<and> is_word_byte b) \<and> \<not> (n < length s \<and> is_word_byte (s ! n))"

text \<open>
  A pattern that must not be left in place at the front of a text: it occurs there and, when it
  needs token boundaries, has them. The weak form exempts those that need them.
\<close>

definition must_mask :: "bool \<Rightarrow> byte option \<Rightarrow> str \<Rightarrow> remask_pattern \<Rightarrow> bool" where
  "must_mask strong left s = (\<lambda>(v, replacement, guarded).
     prefix v s \<and> (guarded \<longrightarrow> strong \<and> stands_alone left s (length v)))"

text \<open>
  \<open>remasked strong ps left xs out\<close>: \<open>out\<close> is a re-masking of the stream \<open>xs\<close> whose last
  visible byte before it was \<open>left\<close>. Control bytes are copied; a visible byte is copied only
  when no pattern must be masked there; a value may be replaced by its handle, together with
  the control bytes inside it, when no pattern that must be masked there is longer.
\<close>

text \<open>
  The items one replacement consumes: they end with the last visible byte of the value and may
  hold control bytes before each of its bytes.
\<close>

definition spells :: "item list \<Rightarrow> str \<Rightarrow> bool" where
  "spells zs v \<longleftrightarrow> zs \<noteq> [] \<and> is_vis (last zs) \<and> visible_of zs = v"

inductive remasked ::
    "bool \<Rightarrow> remask_pattern list \<Rightarrow> byte option \<Rightarrow> item list \<Rightarrow> str \<Rightarrow> bool"
  for strong :: bool and ps :: "remask_pattern list" where
  remasked_end: "remasked strong ps left [] []"
| remasked_control:
    "remasked strong ps left xs out \<Longrightarrow> remasked strong ps left (Ctl c # xs) (c # out)"
| remasked_keep:
    "\<forall>p \<in> set ps. \<not> must_mask strong left (b # visible_of xs) p \<Longrightarrow>
     remasked strong ps (Some b) xs out \<Longrightarrow> remasked strong ps left (Vis b # xs) (b # out)"
| remasked_replace:
    "(v, replacement, guarded) \<in> set ps \<Longrightarrow> spells zs v \<Longrightarrow>
     \<forall>p \<in> set ps. must_mask strong left (v @ visible_of xs) p \<longrightarrow> length (fst p) \<le> length v \<Longrightarrow>
     remasked strong ps (Some (last v)) xs out \<Longrightarrow>
     remasked strong ps left (zs @ xs) (replacement @ out)"

inductive_cases remasked_NilE: "remasked strong ps left [] out"
inductive_cases remasked_CtlE: "remasked strong ps left (Ctl c # xs) out"
inductive_cases remasked_VisE: "remasked strong ps left (Vis b # xs) out"


section \<open>When the specification has one result\<close>

text \<open>No pattern needs boundaries, and a value has one handle.\<close>

definition unguarded :: "remask_pattern list \<Rightarrow> bool" where
  "unguarded ps \<longleftrightarrow> (\<forall>(v, replacement, guarded) \<in> set ps. \<not> guarded)"

definition single_valued :: "remask_pattern list \<Rightarrow> bool" where
  "single_valued ps \<longleftrightarrow> (\<forall>p \<in> set ps. \<forall>q \<in> set ps. fst p = fst q \<longrightarrow> fst (snd p) = fst (snd q))"

lemma must_mask_unguarded:
  "unguarded ps \<Longrightarrow> p \<in> set ps \<Longrightarrow> must_mask strong left s p \<longleftrightarrow> prefix (fst p) s"
  by (cases p) (auto simp: unguarded_def must_mask_def)

lemma longest_unguarded:
  assumes "unguarded ps" and "p \<in> set ps" and "prefix (fst p) s"
    and "\<forall>p \<in> set ps. must_mask strong left s p \<longrightarrow> length (fst p) \<le> n"
  shows "length (fst p) \<le> n"
  using assms by (simp add: must_mask_unguarded)

lemma spells_Nil [simp]: "\<not> spells [] v"
  by (simp add: spells_def)

lemma spells_visible: "spells zs v \<Longrightarrow> visible_of zs = v"
  by (simp add: spells_def)

lemma all_visible: "list_all is_vis xs \<Longrightarrow> map Vis (visible_of xs) = xs"
  by (induction xs rule: visible_of.induct) auto

lemma visible_split_unique:
  assumes "zs @ xs = zs' @ xs'" and "list_all is_vis (zs @ xs)"
    and "spells zs v" and "spells zs' v'" and "length v = length v'"
  shows "zs = zs' \<and> xs = xs' \<and> v = v'"
proof -
  from assms have "list_all is_vis zs" "list_all is_vis zs'"
    by (metis list_all_append)+
  with assms(3-5) have "length zs = length zs'"
    by (metis all_visible length_map spells_visible)
  with assms show ?thesis by (auto simp: spells_def)
qed

theorem remasked_deterministic:
  assumes "remasked strong ps left xs out" and "list_all is_vis xs" and "unguarded ps" and "single_valued ps"
    and "remasked strong' ps left' xs out'"
  shows "out = out'"
  using assms(1,2,5)
proof (induction arbitrary: left' out')
  case (remasked_end left)
  from remasked_end(2) show ?case by (cases rule: remasked.cases) auto
next
  case (remasked_control left xs out c)
  then show ?case by simp
next
  case (remasked_keep left b xs out)
  from remasked_keep.prems(2) show ?case
  proof (cases rule: remasked.cases)
    case (remasked_replace v replacement guarded zs ys w)
    then have "visible_of (Vis b # xs) = v @ visible_of ys"
      by (simp add: spells_visible)
    then have "prefix v (b # visible_of xs)"
      by simp
    with remasked_keep.hyps(1) remasked_replace assms(3) show ?thesis
      by (auto simp: must_mask_unguarded)
  qed (use remasked_keep.IH remasked_keep.prems in auto)
next
  case (remasked_replace v replacement guarded zs left xs out)
  note hyps = remasked_replace.hyps and IH = remasked_replace.IH
  note prems = remasked_replace.prems
  have here: "prefix v (visible_of (zs @ xs))"
    using hyps by (simp add: spells_visible)
  from prems(2) show ?case
  proof (cases rule: remasked.cases)
    case remasked_end
    with hyps show ?thesis by simp
  next
    case (remasked_control ys w c)
    with prems(1) show ?thesis by simp
  next
    case (remasked_keep b ys w)
    with here hyps(1) assms(3) show ?thesis
      by (auto simp: must_mask_unguarded)
  next
    case (remasked_replace v' replacement' guarded' zs' ys w)
    then have here': "prefix v' (visible_of (zs @ xs))"
      by (simp add: spells_visible)
    have "length (fst (v', replacement', guarded')) \<le> length v"
      using hyps(3) remasked_replace(3) here' hyps(2) assms(3)
      by (intro longest_unguarded) (simp_all add: spells_visible)
    moreover have "length (fst (v, replacement, guarded)) \<le> length v'"
      using remasked_replace(5) hyps(1) here assms(3) spells_visible [OF remasked_replace(4)]
      by (intro longest_unguarded) (simp_all add: remasked_replace(1))
    ultimately have "zs = zs' \<and> xs = ys \<and> v = v'"
      using visible_split_unique [of zs xs zs' ys v v'] hyps(2) prems remasked_replace by auto
    moreover have "replacement = replacement'"
      using calculation assms(4) hyps(1) remasked_replace
      by (force simp: single_valued_def)
    ultimately show ?thesis
      using IH prems(1) remasked_replace by auto
  qed
qed


section \<open>Copying a run\<close>

definition left_after :: "byte option \<Rightarrow> str \<Rightarrow> byte option" where
  "left_after left s = (if s = [] then left else Some (last s))"

lemma left_after_Nil [simp]: "left_after left [] = left"
  by (simp add: left_after_def)

lemma left_after_Cons [simp]: "left_after left (b # s) = left_after (Some b) s"
  by (simp add: left_after_def)

lemma left_after_append [simp]: "left_after left (s @ t) = left_after (left_after left s) t"
  by (simp add: left_after_def)

lemma remasked_controls:
  "remasked strong ps left xs out \<Longrightarrow> remasked strong ps left (map Ctl cs @ xs) (cs @ out)"
  by (induction cs) (auto intro: remasked_control)

lemma remasked_skip:
  assumes "\<And>k p. k < length (visible_of us) \<Longrightarrow> p \<in> set ps \<Longrightarrow>
      \<not> must_mask strong (left_after left (take k (visible_of us)))
        (drop k (visible_of us) @ visible_of xs) p"
    and "remasked strong ps (left_after left (visible_of us)) xs out"
  shows "remasked strong ps left (us @ xs) (raw_of us @ out)"
  using assms
proof (induction us arbitrary: left)
  case (Cons x us)
  show ?case
  proof (cases x)
    case (Vis b)
    have "remasked strong ps (Some b) (us @ xs) (raw_of us @ out)"
    proof (rule Cons.IH)
      fix k p
      assume "k < length (visible_of us)" and "p \<in> set ps"
      with Cons.prems(1) [of "Suc k" p] Vis
      show "\<not> must_mask strong (left_after (Some b) (take k (visible_of us)))
          (drop k (visible_of us) @ visible_of xs) p"
        by simp
    qed (use Cons.prems(2) Vis in simp)
    moreover have "\<forall>p \<in> set ps. \<not> must_mask strong left (b # visible_of (us @ xs)) p"
      using Cons.prems(1) [of 0] Vis by simp
    ultimately show ?thesis using Vis by (simp add: remasked_keep)
  next
    case (Ctl c)
    then have "remasked strong ps left (us @ xs) (raw_of us @ out)"
      using Cons by simp
    with Ctl show ?thesis by (simp add: remasked_control)
  qed
qed simp

lemma remasked_copy:
  "remasked strong [] left (us @ []) (raw_of us @ [])"
  by (rule remasked_skip) (auto intro: remasked_end)

end
