(* ===== verification/Remask.thy ===== *)
theory Remask
  imports Views Masking
begin

text \<open>
  Re-masking, \<open>Recovery::remask\<close> and \<open>Recovery::remask_views\<close> of \<open>recovery.rs\<close>: sealed
  values that reappear in a text are replaced by their handles. The Aho-Corasick search with
  \<open>MatchKind::LeftmostLongest\<close> is a parameter.
\<close>


section \<open>Which values are re-masked\<close>

definition is_remaskable_echo :: "str \<Rightarrow> str \<Rightarrow> bool" where
  "is_remaskable_echo v placeholder =
     (let trimmed = trim v
      in if trimmed = [] then False
         else if trimmed = ''true'' \<or> trimmed = ''false'' \<or> trimmed = ''null'' then False
         else if 6 \<le> length trimmed then True
         else (case parse_placeholder placeholder of
                 Inl _ \<Rightarrow> False
               | Inr parts \<Rightarrow>
                   List.member [lbl_SECRET, lbl_KEYED_SECRET, lbl_OTP, lbl_CMD_PASSWORD,
                     lbl_URL_CREDENTIAL, lbl_PRIVATE_KEY] (pp_label parts) \<or>
                   is_sensitive_key_name (pp_label parts)))"

definition requires_token_boundaries :: "str \<Rightarrow> bool" where
  "requires_token_boundaries v \<longleftrightarrow> length (trim v) < 4"

definition short_value_has_token_boundaries :: "str \<Rightarrow> nat \<Rightarrow> nat \<Rightarrow> bool" where
  "short_value_has_token_boundaries s a b \<longleftrightarrow>
     \<not> (0 < a \<and> a - 1 < length s \<and> is_word_byte (s ! (a - 1))) \<and>
     \<not> (b < length s \<and> is_word_byte (s ! b))"

definition remask_placeholder_priority :: "str \<Rightarrow> nat" where
  "remask_placeholder_priority placeholder =
     (case parse_placeholder placeholder of
        Inl _ \<Rightarrow> 0
      | Inr parts \<Rightarrow>
          if pp_label parts = lbl_LIKELY_SECRET then 0
          else if pp_label parts = lbl_SECRET then 1
          else if pp_label parts = lbl_KEYED_SECRET then 2
          else 3)"

fun dedup_values :: "(str \<times> 'a) list \<Rightarrow> (str \<times> 'a) list" where
  "dedup_values (x # y # zs) =
     (if fst x = fst y then dedup_values (x # zs) else x # dedup_values (y # zs))"
| "dedup_values xs = xs"

definition sort_and_deduplicate_remask_pairs :: "(str \<times> str) list \<Rightarrow> (str \<times> str) list" where
  "sort_and_deduplicate_remask_pairs pairs =
     dedup_values
       (sort_key (\<lambda>(v, ph). (v, - int (remask_placeholder_priority ph), ph)) pairs)"


section \<open>Replacing\<close>

text \<open>
  The search: the patterns and the haystack give the start, the end and the pattern of a match.
\<close>

type_synonym find_longest = "str list \<Rightarrow> str \<Rightarrow> (nat \<times> nat \<times> nat) option"

text \<open>
  The loop with its two offsets; the fuel is the number of iterations it may take. \<open>None\<close> is
  running out of it, or a panic on a slice that is out of range or cuts a character.
\<close>

fun remask_loop ::
    "nat \<Rightarrow> find_longest \<Rightarrow> remask_pattern list \<Rightarrow> str \<Rightarrow> nat \<Rightarrow> nat \<Rightarrow> str option" where
  "remask_loop 0 search_for ps s cursor search = None"
| "remask_loop (Suc fuel) search_for ps s cursor search =
     Option.bind (str_slice s search (length s)) (\<lambda>hay.
       case search_for (map fst ps) hay of
         None \<Rightarrow> str_slice s cursor (length s)
       | Some (a, b, i) \<Rightarrow>
           let start = search + a; end = search + b; (v, replacement, guarded) = ps ! i
           in if guarded \<and> \<not> short_value_has_token_boundaries s start end
              then Option.bind (str_slice s start (length s)) (\<lambda>rest.
                case utf8_chars rest of
                  [] \<Rightarrow> None
                | c # _ \<Rightarrow> remask_loop fuel search_for ps s cursor (start + length c))
              else Option.bind (str_slice s cursor start) (\<lambda>kept.
                map_option (\<lambda>out. kept @ replacement @ out)
                  (remask_loop fuel search_for ps s end end)))"

text \<open>\<open>str::replace\<close> with a non-empty pattern.\<close>

function str_replace :: "str \<Rightarrow> str \<Rightarrow> str \<Rightarrow> str" where
  "str_replace s v replacement =
     (if v = [] then s
      else (case str_find v s of
              None \<Rightarrow> s
            | Some i \<Rightarrow> take i s @ replacement @ str_replace (drop (i + length v) s) v replacement))"
  by pat_completeness auto
termination
proof (relation "measure (\<lambda>(s, v, replacement). length s)")
  fix s v replacement :: str and i
  assume "v \<noteq> []" and "str_find v s = Some i"
  then show "((drop (i + length v) s, v, replacement), s, v, replacement)
      \<in> measure (\<lambda>(s, v, replacement). length s)"
    using str_find_Some [of v s i] sublist_at_bound [of v i s] by (cases v) auto
qed simp

declare str_replace.simps [simp del]

definition remask_pairs :: "crypto \<Rightarrow> recovery \<Rightarrow> (str \<times> str) list" where
  "remask_pairs cr rec =
     sort_and_deduplicate_remask_pairs
       (filter (\<lambda>(v, ph). is_remaskable_echo v ph)
         (List.map_filter (\<lambda>ph. map_option (\<lambda>v. (v, ph)) (reveal cr rec ph))
           (placeholders rec)))"

definition remask :: "crypto \<Rightarrow> find_longest \<Rightarrow> recovery \<Rightarrow> str \<Rightarrow> str option" where
  "remask cr search_for rec s =
     (let pairs = remask_pairs cr rec
      in if pairs = [] then Some s
         else if length pairs = 1 \<and> \<not> requires_token_boundaries (fst (hd pairs)) then
           Some (str_replace s (fst (hd pairs)) (snd (hd pairs)))
         else remask_loop (Suc (length s)) search_for
           (map (\<lambda>(v, ph). (v, ph, requires_token_boundaries v)) pairs) s 0 0)"


section \<open>Replacing with views\<close>

definition view_handle :: "str \<Rightarrow> str option" where
  "view_handle ph = map_option (\<lambda>base. base @ ''|base64>>'') (strip_suffix ''>>'' ph)"

definition view_pairs_of :: "crypto \<Rightarrow> base64_encoder \<Rightarrow> recovery \<Rightarrow> str \<Rightarrow> (str \<times> str \<times> nat) list" where
  "view_pairs_of cr b64 rec ph =
     (ph, ph, 2)
     # (case view_handle ph of Some vh \<Rightarrow> [(vh, vh, 2)] | None \<Rightarrow> [])
     @ (case reveal cr rec ph of
          None \<Rightarrow> []
        | Some v \<Rightarrow>
            (if is_remaskable_echo v ph then [(v, ph, 0)] else [])
            @ (case (view_rendered b64 v ''base64'', strip_suffix ''>>'' ph) of
                 (Some rendered, Some base) \<Rightarrow>
                   if exact_handle (base @ ''>>'')
                   then [(rendered, base @ ''|'' @ ''base64'' @ ''>>'', 1)] else []
               | _ \<Rightarrow> []))"

definition sort_view_pairs :: "(str \<times> str \<times> nat) list \<Rightarrow> (str \<times> str \<times> nat) list" where
  "sort_view_pairs =
     sort_key (\<lambda>(v, ph, priority). (v, - int priority,
       if priority = 0 then - int (remask_placeholder_priority ph) else 0, ph))"

definition remask_views ::
    "crypto \<Rightarrow> base64_encoder \<Rightarrow> find_longest \<Rightarrow> recovery \<Rightarrow> str \<Rightarrow> str option" where
  "remask_views cr b64 search_for rec s =
     (let pairs = sort_view_pairs
            (filter (\<lambda>(v, ph, priority). v \<noteq> [])
              (concat (map (view_pairs_of cr b64 rec) (placeholders rec))))
      in if pairs = [] then Some s
         else remask_loop (Suc (length s)) search_for
           (map (\<lambda>(v, ph, priority). (v, ph, priority = 0 \<and> requires_token_boundaries v)) pairs)
           s 0 0)"


section \<open>The contract of the search\<close>

text \<open>
  Leftmost-longest: no match means no pattern occurs; a match is an occurrence, no pattern
  occurs further left, and none that occurs there is longer. Among equal patterns the first is
  reported.
\<close>

locale longest_matcher =
  fixes search_for :: find_longest
  assumes none_iff: "search_for ps s = None \<longleftrightarrow> (\<forall>p \<in> set ps. \<forall>k. \<not> sublist_at p k s)"
    and match: "search_for ps s = Some (a, b, i) \<Longrightarrow>
      i < length ps \<and> sublist_at (ps ! i) a s \<and> b = a + length (ps ! i)"
    and leftmost: "search_for ps s = Some (a, b, i) \<Longrightarrow> p \<in> set ps \<Longrightarrow> k < a \<Longrightarrow>
      \<not> sublist_at p k s"
    and longest: "search_for ps s = Some (a, b, i) \<Longrightarrow> p \<in> set ps \<Longrightarrow> sublist_at p a s \<Longrightarrow>
      length p \<le> length (ps ! i)"
    and first: "search_for ps s = Some (a, b, i) \<Longrightarrow> j < i \<Longrightarrow> ps ! j \<noteq> ps ! i"


text \<open>A search that has these laws: try every offset, and every pattern there.\<close>

definition longer_match :: "str \<Rightarrow> nat \<times> str \<Rightarrow> (nat \<times> str) option \<Rightarrow> (nat \<times> str) option" where
  "longer_match s = (\<lambda>(i, p) best.
     if prefix p s \<and> (case best of None \<Rightarrow> True | Some (j, q) \<Rightarrow> length q < length p)
     then Some (i, p) else best)"

definition longest_prefix :: "str list \<Rightarrow> str \<Rightarrow> (nat \<times> str) option" where
  "longest_prefix ps s = fold (longer_match s) (enumerate 0 ps) None"

fun reference_longest :: find_longest where
  "reference_longest ps [] =
     (case longest_prefix ps [] of Some (i, p) \<Rightarrow> Some (0, length p, i) | None \<Rightarrow> None)"
| "reference_longest ps (c # s) =
     (case longest_prefix ps (c # s) of
        Some (i, p) \<Rightarrow> Some (0, length p, i)
      | None \<Rightarrow> map_option (\<lambda>(a, b, i). (Suc a, Suc b, i)) (reference_longest ps s))"

lemma longest_prefix_snoc:
  "longest_prefix (ps @ [p]) s = longer_match s (length ps, p) (longest_prefix ps s)"
  by (simp add: longest_prefix_def enumerate_append_eq)

lemma longest_prefix_spec:
  "case longest_prefix ps s of
     None \<Rightarrow> \<forall>p \<in> set ps. \<not> prefix p s
   | Some (i, p) \<Rightarrow> i < length ps \<and> p = ps ! i \<and> prefix p s \<and>
       (\<forall>q \<in> set ps. prefix q s \<longrightarrow> length q \<le> length p) \<and> (\<forall>j < i. ps ! j \<noteq> ps ! i)"
proof (induction ps rule: rev_induct)
  case (snoc p ps)
  show ?case
  proof (cases "longest_prefix ps s")
    case None
    with snoc show ?thesis
      by (auto simp: longest_prefix_snoc longer_match_def nth_append)
  next
    case (Some iq)
    obtain i q where iq: "iq = (i, q)" by (cases iq)
    show ?thesis
    proof (cases "prefix p s \<and> length q < length p")
      case True
      with snoc Some iq show ?thesis
        by (fastforce simp: longest_prefix_snoc longer_match_def nth_append)
    next
      case False
      with snoc Some iq show ?thesis
        by (auto simp: longest_prefix_snoc longer_match_def nth_append)
    qed
  qed
qed (simp add: longest_prefix_def)

lemma reference_longest_None:
  "reference_longest ps s = None \<longleftrightarrow> (\<forall>p \<in> set ps. \<forall>k. \<not> sublist_at p k s)"
proof (induction s)
  case Nil
  show ?case
    using longest_prefix_spec [of ps "[]"]
    by (auto simp: sublist_at_def split: option.splits dest: nth_mem)
next
  case (Cons c s)
  have "(\<forall>k. \<not> sublist_at p k (c # s)) \<longleftrightarrow> \<not> prefix p (c # s) \<and> (\<forall>k. \<not> sublist_at p k s)" for p
    by (metis not0_implies_Suc sublist_at_0 sublist_at_Cons_Suc)
  with Cons longest_prefix_spec [of ps "c # s"] show ?case
    by (auto split: option.splits)
qed

lemma reference_longest_Some:
  "reference_longest ps s = Some (a, b, i) \<Longrightarrow>
     i < length ps \<and> sublist_at (ps ! i) a s \<and> b = a + length (ps ! i) \<and>
     (\<forall>p \<in> set ps. (\<forall>k < a. \<not> sublist_at p k s) \<and>
        (sublist_at p a s \<longrightarrow> length p \<le> length (ps ! i))) \<and> (\<forall>j < i. ps ! j \<noteq> ps ! i)"
proof (induction s arbitrary: a b)
  case Nil
  with longest_prefix_spec [of ps "[]"] show ?case by (auto split: option.splits)
next
  case (Cons c s)
  show ?case
  proof (cases "longest_prefix ps (c # s)")
    case None
    with Cons.prems obtain a' b' where *: "a = Suc a'" "b = Suc b'"
      "reference_longest ps s = Some (a', b', i)"
      by auto
    from Cons.IH [OF *(3)] longest_prefix_spec [of ps "c # s"] None show ?thesis
      by (auto simp: * less_Suc_eq_0_disj)
  next
    case (Some x)
    with Cons.prems longest_prefix_spec [of ps "c # s"] show ?thesis
      by (auto split: option.splits)
  qed
qed

interpretation lm: longest_matcher reference_longest
  by unfold_locales (use reference_longest_None reference_longest_Some in blast)+



section \<open>The loop follows the specification\<close>

text \<open>
  The patterns of a call: valid, non-empty values; none that needs no boundaries is the
  beginning of one that does, so skipping the longest match loses none of them.
\<close>

definition patterns_ok :: "remask_pattern list \<Rightarrow> bool" where
  "patterns_ok ps \<longleftrightarrow> (\<forall>p \<in> set ps. utf8_valid (fst p) \<and> fst p \<noteq> []) \<and>
     (\<forall>p \<in> set ps. \<forall>q \<in> set ps. snd (snd p) \<longrightarrow> \<not> snd (snd q) \<longrightarrow> \<not> prefix (fst q) (fst p))"

text \<open>The patterns that can be reported: of equal values only the first.\<close>

definition reportable :: "remask_pattern list \<Rightarrow> remask_pattern list \<Rightarrow> bool" where
  "reportable ps qs \<longleftrightarrow> set qs \<subseteq> set ps \<and>
     (\<forall>i < length ps. (\<forall>j < i. fst (ps ! j) \<noteq> fst (ps ! i)) \<longrightarrow> ps ! i \<in> set qs)"

lemma must_mask_weak:
  "must_mask False left s p \<longleftrightarrow> prefix (fst p) s \<and> \<not> snd (snd p)"
  by (cases p) (auto simp: must_mask_def)

lemma no_match_inside_char:
  assumes "utf8_valid s" and "\<And>i. 0 < i \<Longrightarrow> i < n \<Longrightarrow> is_continuation (s ! i)"
    and "0 < k" and "k < n" and "k < length s" and "utf8_valid v" and "v \<noteq> []"
  shows "\<not> prefix v (drop k s)"
proof
  assume "prefix v (drop k s)"
  then have "hd v = s ! k"
    using assms(5,7) by (auto simp: prefix_def hd_drop_conv_nth [symmetric])
  with utf8_valid_hd [OF assms(6,7)] assms(2) [OF assms(3,4)] show False by simp
qed

lemma remasked_skip_text:
  assumes "\<And>k p. k < length t \<Longrightarrow> p \<in> set ps \<Longrightarrow> prefix (fst p) (drop k (t @ s)) \<Longrightarrow> snd (snd p)"
    and "\<And>left. remasked False ps left (map Vis s) out"
  shows "remasked False ps left (map Vis (t @ s)) (t @ out)"
proof -
  have "remasked False ps left (map Vis t @ map Vis s) (raw_of (map Vis t) @ out)"
    by (rule remasked_skip) (use assms in \<open>auto simp: must_mask_weak\<close>)
  then show ?thesis by simp
qed

lemma remasked_replace_text:
  assumes "(v, replacement, guarded) \<in> set ps" and "v \<noteq> []"
    and "\<And>p. p \<in> set ps \<Longrightarrow> prefix (fst p) (v @ s) \<Longrightarrow> length (fst p) \<le> length v"
    and "\<And>left. remasked False ps left (map Vis s) out"
  shows "remasked False ps left (map Vis (v @ s)) (replacement @ out)"
proof -
  have "remasked False ps left (map Vis v @ map Vis s) (replacement @ out)"
    by (rule remasked_replace [OF assms(1)])
      (use assms in \<open>auto simp: must_mask_weak spells_def last_map\<close>)
  then show ?thesis by simp
qed

context longest_matcher
begin

lemma match_split:
  assumes "search_for ps s = Some (a, b, i)"
  shows "i < length ps" "a + length (ps ! i) = b" "b \<le> length s" "drop a s = ps ! i @ drop b s"
proof -
  note m = match [OF assms]
  then show "i < length ps" "a + length (ps ! i) = b" "b \<le> length s"
    using sublist_at_bound by auto
  from m obtain t where "drop a s = ps ! i @ t" by (auto simp: sublist_at_def prefix_def)
  moreover from this have "drop b s = t"
    using m by (metis append_eq_conv_conj drop_drop add.commute)
  ultimately show "drop a s = ps ! i @ drop b s" by simp
qed

lemma before_match:
  assumes "search_for ps s = Some (a, b, i)" and "k < a" and "p \<in> set ps" and "a \<le> length s"
  shows "\<not> prefix p (drop k s)"
  using leftmost [OF assms(1,3,2)] assms(2,4) by (simp add: sublist_at_def)

lemma remask_loop_remasked:
  assumes ok: "patterns_ok ps" and rep: "reportable ps qs"
    and "utf8_valid s" and "utf8_valid (drop search s)" and "search \<le> length s"
    and "cursor \<le> search" and "is_char_boundary s cursor" and "length s - search < fuel"
  shows "\<exists>out. remask_loop fuel search_for ps s cursor search = Some (subtext s cursor search @ out) \<and>
    (\<forall>left. remasked False qs left (map Vis (drop search s)) out)"
  using assms(4-)
proof (induction fuel arbitrary: cursor search)
  case (Suc fuel)
  let ?t = "drop search s"
  have bound: "is_char_boundary s search"
    using Suc.prems by (auto intro: utf8_valid_boundary)
  then have hay: "str_slice s search (length s) = Some ?t"
    using Suc.prems by (simp add: str_slice_Some subtext_to_end)
  have cut: "str_slice s cursor (length s) = Some (subtext s cursor search @ ?t)"
    using Suc.prems subtext_append [of cursor search "length s" s]
    by (simp add: str_slice_Some subtext_to_end)
  show ?case
  proof (cases "search_for (map fst ps) ?t")
    case None
    then have none: "\<not> sublist_at (fst p) k ?t" if "p \<in> set ps" for p k
      using none_iff [of "map fst ps" ?t] that by auto
    have "remasked False qs left (map Vis (?t @ [])) (?t @ [])" for left
    proof (rule remasked_skip_text)
      fix k p
      assume "k < length ?t" "p \<in> set qs" "prefix (fst p) (drop k (?t @ []))"
      with none [of p k] rep show "snd (snd p)" by (auto simp: reportable_def sublist_at_def)
    qed (simp add: remasked_end)
    with None show ?thesis by (simp add: hay cut)
  next
    case (Some m)
    obtain a b i where m: "m = (a, b, i)" by (cases m)
    obtain v replacement guarded where pat: "ps ! i = (v, replacement, guarded)" by (cases "ps ! i")
    note found = Some [unfolded m]
    from match_split [OF found] have i: "i < length ps" by simp
    with match_split [OF found] pat have b: "a + length v = b" "b \<le> length ?t"
      and split: "drop a ?t = v @ drop b ?t"
      by auto
    have in_ps: "(v, replacement, guarded) \<in> set ps" using i pat by (metis nth_mem)
    with ok have v: "utf8_valid v" "v \<noteq> []" by (force simp: patterns_ok_def)+
    have "sublist_at v a ?t" using b split by (simp add: sublist_at_def)
    from utf8_occurrence [OF Suc.prems(1) v this]
    have at: "is_char_boundary ?t a" "is_char_boundary ?t b" using b by auto
    have starts: "utf8_valid (drop (search + a) s)" "utf8_valid (drop (search + b) s)"
      using utf8_valid_split(2) [OF Suc.prems(1)] at b by (auto simp: add.commute)
    have before: "\<not> prefix (fst p) (drop k ?t)" if "k < a" "p \<in> set ps" for k p
      using before_match [OF found that(1)] that(2) b by auto
    have most: "length (fst p) \<le> length v" if "p \<in> set ps" "prefix (fst p) (drop a ?t)" for p
      using longest [OF found, of "fst p"] that b i pat by (auto simp: sublist_at_def)
    show ?thesis
    proof (cases "guarded \<and> \<not> short_value_has_token_boundaries s (search + a) (search + b)")
      case True
      let ?u = "drop (search + a) s"
      have ne: "?u \<noteq> []" using split v by (auto simp: add.commute)
      from utf8_first_char [OF starts(1) ne] obtain n where n:
        "hd (utf8_chars ?u) = take n ?u" "0 < n" "n \<le> length ?u" "utf8_valid (drop n ?u)"
        "\<And>i. 0 < i \<Longrightarrow> i < n \<Longrightarrow> is_continuation (?u ! i)"
        by blast
      obtain c cs where cs: "utf8_chars ?u = c # cs"
        using ne by (cases "utf8_chars ?u") (metis concat_utf8_chars concat.simps(1), blast)
      with n have c: "length c = n" by simp
      let ?next = "search + a + n"
      have "\<exists>out. remask_loop fuel search_for ps s cursor ?next = Some (subtext s cursor ?next @ out) \<and>
          (\<forall>left. remasked False qs left (map Vis (drop ?next s)) out)"
        using Suc.prems n by (intro Suc.IH) (auto simp: add.commute add.left_commute)
      then obtain out where out: "remask_loop fuel search_for ps s cursor ?next =
          Some (subtext s cursor ?next @ out)"
        "\<And>left. remasked False qs left (map Vis (drop ?next s)) out"
        by blast
      have next_eq: "subtext s cursor ?next = subtext s cursor search @ take (a + n) ?t"
        using subtext_append [of cursor search ?next s] Suc.prems(3)
        by (simp add: subtext_def [of s search])
      have t: "?t = take (a + n) ?t @ drop ?next s"
        by (metis append_take_drop_id drop_drop add.assoc add.commute)
      have "remasked False qs left (map Vis (take (a + n) ?t @ drop ?next s)) (take (a + n) ?t @ out)"
        for left
      proof (rule remasked_skip_text [OF _ out(2)])
        fix k p
        assume k: "k < length (take (a + n) ?t)" and p: "p \<in> set qs"
          and pre: "prefix (fst p) (drop k (take (a + n) ?t @ drop ?next s))"
        from p rep have p': "p \<in> set ps" by (auto simp: reportable_def)
        from pre t have pre': "prefix (fst p) (drop k ?t)" by simp
        show "snd (snd p)"
        proof (cases k a rule: linorder_cases)
          case less
          with before p' pre' show ?thesis by blast
        next
          case equal
          with most [OF p'] pre' have "length (fst p) \<le> length v" by simp
          with pre' equal split have "prefix (fst p) v"
            by (metis prefix_length_prefix prefixI)
          with ok in_ps p' True show ?thesis by (fastforce simp: patterns_ok_def)
        next
          case greater
          have "\<not> prefix (fst p) (drop (k - a) ?u)"
            using ok p' greater k
            by (intro no_match_inside_char [OF starts(1) n(5)]) (auto simp: patterns_ok_def)
          with pre' greater show ?thesis by (simp add: add.commute)
        qed
      qed
      with t have "\<forall>left. remasked False qs left (map Vis ?t) (take (a + n) ?t @ out)" by simp
      moreover have "str_slice s (search + a) (length s) = Some ?u"
        using starts b Suc.prems(2)
        by (simp add: str_slice_Some subtext_to_end utf8_valid_boundary)
      ultimately show ?thesis
        using True found out(1) next_eq
        by (simp add: hay pat cs c Let_def)
    next
      case False
      let ?next = "search + b"
      have "search < search + b" using v b by (cases v) auto
      have "\<exists>out. remask_loop fuel search_for ps s ?next ?next = Some (subtext s ?next ?next @ out) \<and>
          (\<forall>left. remasked False qs left (map Vis (drop ?next s)) out)"
        using Suc.prems starts b(2) \<open>search < search + b\<close>
        by (intro Suc.IH) (auto intro: utf8_valid_boundary)
      then obtain out where out: "remask_loop fuel search_for ps s ?next ?next = Some out"
        "\<And>left. remasked False qs left (map Vis (drop ?next s)) out"
        by auto
      have "is_char_boundary s (search + a)"
        using starts(1) b Suc.prems(2) by (intro utf8_valid_boundary) auto
      then have kept: "str_slice s cursor (search + a) = Some (subtext s cursor search @ take a ?t)"
        using Suc.prems b subtext_append [of cursor search "search + a" s]
        by (simp add: str_slice_Some subtext_def [of s search])
      have "fst (ps ! j) \<noteq> fst (ps ! i)" if "j < i" for j
        using first [OF found that] that i by simp
      with rep i pat have in_qs: "(v, replacement, guarded) \<in> set qs"
        by (metis reportable_def)
      have rest: "remasked False qs left (map Vis (v @ drop b ?t)) (replacement @ out)" for left
        using in_qs v(2)
      proof (rule remasked_replace_text)
        fix p
        assume "p \<in> set qs" "prefix (fst p) (v @ drop b ?t)"
        with most [of p] rep split show "length (fst p) \<le> length v" by (auto simp: reportable_def)
      qed (use out(2) in \<open>simp add: add.commute\<close>)
      have t: "take a ?t @ (v @ drop b ?t) = ?t"
        by (metis split append_take_drop_id)
      have "remasked False qs left (map Vis (take a ?t @ (v @ drop b ?t))) (take a ?t @ replacement @ out)"
        for left
      proof (rule remasked_skip_text [OF _ rest])
        fix k p
        assume k: "k < length (take a ?t)" and p: "p \<in> set qs"
          and "prefix (fst p) (drop k (take a ?t @ (v @ drop b ?t)))"
        then have "prefix (fst p) (drop k ?t)" unfolding t by simp
        with before [of k p] k p rep show "snd (snd p)" by (auto simp: reportable_def)
      qed
      then have "\<forall>left. remasked False qs left (map Vis ?t) (take a ?t @ replacement @ out)"
        unfolding t by simp
      with False found kept out(1) show ?thesis
        by (auto simp: hay pat Let_def)
    qed
  qed
qed simp

end


section \<open>Re-masking a text\<close>

lemma dedup_values_set: "set (dedup_values xs) \<subseteq> set xs"
  by (induction xs rule: dedup_values.induct) auto

lemma dedup_values_distinct:
  "sorted (map fst xs) \<Longrightarrow> distinct (map fst (dedup_values xs))"
proof (induction xs rule: dedup_values.induct)
  case (1 x y zs)
  show ?case
  proof (cases "fst x = fst y")
    case False
    with 1 have "fst x \<notin> fst ` set (y # zs)" by (auto dest: order.antisym)
    moreover have "fst ` set (dedup_values (y # zs)) \<subseteq> fst ` set (y # zs)"
      using dedup_values_set by (rule image_mono)
    ultimately show ?thesis using 1 False by auto
  qed (use 1 in auto)
qed auto

lemma sorted_map_fst_key:
  assumes "sorted (map (\<lambda>x. (f x, g x)) xs)"
  shows "sorted (map f xs)"
  using assms by (induction xs) auto

lemma sort_pairs_distinct: "distinct (map fst (sort_and_deduplicate_remask_pairs pairs))"
proof -
  let ?key = "\<lambda>(v, ph). (v, - int (remask_placeholder_priority ph), ph)"
  have key: "?key = (\<lambda>x. (fst x, (- int (remask_placeholder_priority (snd x)), snd x)))"
    by (auto simp: fun_eq_iff)
  have "sorted (map ?key (sort_key ?key pairs))" by simp
  then have "sorted (map (\<lambda>x. (fst x, (- int (remask_placeholder_priority (snd x)), snd x)))
      (sort_key ?key pairs))"
    by (simp only: key)
  then have "sorted (map fst (sort_key ?key pairs))" by (rule sorted_map_fst_key)
  then show ?thesis
    unfolding sort_and_deduplicate_remask_pairs_def by (rule dedup_values_distinct)
qed

lemma remask_pairs_known:
  assumes "(v, ph) \<in> set (remask_pairs cr rec)"
  shows "reveal cr rec ph = Some v" "is_remaskable_echo v ph"
proof -
  have "(v, ph) \<in> set (filter (\<lambda>(v, ph). is_remaskable_echo v ph)
       (List.map_filter (\<lambda>ph. map_option (\<lambda>v. (v, ph)) (reveal cr rec ph)) (placeholders rec)))"
    using assms dedup_values_set
    unfolding remask_pairs_def sort_and_deduplicate_remask_pairs_def by fastforce
  then show "reveal cr rec ph = Some v" "is_remaskable_echo v ph"
    by (auto simp: map_filter_def)
qed

lemma reveal_valid: "reveal cr rec ph = Some v \<Longrightarrow> utf8_valid v"
  by (auto simp: reveal_def Let_def split: Option.bind_splits if_splits)

lemma is_remaskable_not_Nil: "is_remaskable_echo v ph \<Longrightarrow> v \<noteq> []"
  by (auto simp: is_remaskable_echo_def trim_def)

definition call_patterns :: "(str \<times> str) list \<Rightarrow> remask_pattern list" where
  "call_patterns = map (\<lambda>(v, ph). (v, ph, requires_token_boundaries v))"

lemma call_patterns_ok:
  assumes "\<And>v ph. (v, ph) \<in> set pairs \<Longrightarrow> utf8_valid v \<and> v \<noteq> []"
  shows "patterns_ok (call_patterns pairs)"
proof -
  have "\<not> prefix u v" if "utf8_valid u" "requires_token_boundaries v" "\<not> requires_token_boundaries u"
    for u v
    using that length_trim_prefix [of u] by (auto simp: requires_token_boundaries_def prefix_def)
      (metis le_less_trans not_less)
  with assms show ?thesis
    by (fastforce simp: patterns_ok_def call_patterns_def)
qed

lemma reportable_self: "reportable ps ps"
  by (simp add: reportable_def)

lemma sublist_at_split:
  "sublist_at v i s \<Longrightarrow> take i s @ v @ drop (i + length v) s = s"
  by (metis append_take_drop_id sublist_at_take drop_drop add.commute)

lemma remasked_text_end: "remasked strong ps left (map Vis []) []"
  by (simp add: remasked_end)

lemma remasked_unmatched:
  assumes "\<And>k p. p \<in> set ps \<Longrightarrow> \<not> sublist_at (fst p) k s"
  shows "remasked False ps left (map Vis s) s"
  using remasked_skip_text [of s ps "[]" "[]" left] assms remasked_text_end
  by (auto simp: sublist_at_def)

lemma str_replace_remasked:
  assumes "v \<noteq> []"
  shows "remasked False [(v, replacement, guarded)] left (map Vis s) (str_replace s v replacement)"
proof (induction "length s" arbitrary: s left rule: less_induct)
  case less
  show ?case
  proof (cases "str_find v s")
    case None
    then have "remasked False [(v, replacement, guarded)] left (map Vis s) s"
      by (intro remasked_unmatched) (auto simp: str_find_None)
    with None assms show ?thesis by (subst str_replace.simps) simp
  next
    case (Some i)
    let ?rest = "drop (i + length v) s" and ?ps = "[(v, replacement, guarded)]"
    from str_find_Some [OF Some] have at: "sublist_at v i s" and before: "\<forall>j < i. \<not> sublist_at v j s"
      by auto
    have "length ?rest < length s"
      using sublist_at_bound [OF at] assms by (cases v) auto
    then have rest: "remasked False ?ps left (map Vis ?rest) (str_replace ?rest v replacement)" for left
      by (rule less)
    have "remasked False ?ps left (map Vis (v @ ?rest)) (replacement @ str_replace ?rest v replacement)"
      for left
      by (rule remasked_replace_text [OF _ assms _ rest]) auto
    then have "remasked False ?ps left (map Vis (take i s @ v @ ?rest))
        (take i s @ replacement @ str_replace ?rest v replacement)"
    proof (intro remasked_skip_text)
      fix k p
      assume "k < length (take i s)" "p \<in> set ?ps" "prefix (fst p) (drop k (take i s @ v @ ?rest))"
      with before show "snd (snd p)"
        unfolding sublist_at_split [OF at] by (auto simp: sublist_at_def)
    qed
    with Some assms show ?thesis
      unfolding sublist_at_split [OF at] by (subst str_replace.simps) simp
  qed
qed

context longest_matcher
begin

lemma remask_remasked:
  assumes "utf8_valid s"
  shows "\<exists>out. remask cr search_for rec s = Some out \<and>
    remasked False (call_patterns (remask_pairs cr rec)) left (map Vis s) out"
proof -
  let ?pairs = "remask_pairs cr rec"
  have valid: "utf8_valid v \<and> v \<noteq> []" if "(v, ph) \<in> set ?pairs" for v ph
    using remask_pairs_known [OF that] by (simp add: reveal_valid is_remaskable_not_Nil)
  show ?thesis
  proof (cases "length ?pairs = 1 \<and> \<not> requires_token_boundaries (fst (hd ?pairs)) \<or> ?pairs = []")
    case True
    then show ?thesis
    proof (elim disjE)
      assume one: "length ?pairs = 1 \<and> \<not> requires_token_boundaries (fst (hd ?pairs))"
      then obtain v ph where p: "?pairs = [(v, ph)]" by (auto simp: length_Suc_conv)
      with valid have "v \<noteq> []" by auto
      then have "remasked False [(v, ph, False)] left (map Vis s) (str_replace s v ph)"
        by (rule str_replace_remasked)
      with one p show ?thesis by (auto simp: remask_def call_patterns_def)
    next
      assume "?pairs = []"
      then show ?thesis
        by (auto simp: remask_def call_patterns_def intro!: remasked_unmatched)
    qed
  next
    case False
    from remask_loop_remasked [OF call_patterns_ok reportable_self assms, of ?pairs 0 0
        "Suc (length s)"] valid assms
    obtain out where "remask_loop (Suc (length s)) search_for (call_patterns ?pairs) s 0 0 = Some out"
      "\<forall>left. remasked False (call_patterns ?pairs) left (map Vis s) out"
      by auto
    with False show ?thesis
      by (auto simp: remask_def call_patterns_def Let_def simp del: remask_loop.simps)
  qed
qed

end


section \<open>What is kept, and what comes back\<close>

lemma map_Vis_append:
  "map Vis s = zs @ xs \<Longrightarrow> \<exists>u t. s = u @ t \<and> zs = map Vis u \<and> xs = map Vis t"
  by (auto simp: map_eq_append_conv)

text \<open>A run that holds no value that needs no boundaries.\<close>

definition free_of :: "remask_pattern list \<Rightarrow> str \<Rightarrow> bool" where
  "free_of ps t \<longleftrightarrow> (\<forall>p \<in> set ps. \<not> snd (snd p) \<longrightarrow> fst p \<noteq> [] \<longrightarrow> \<not> sublist (fst p) t)"

lemma must_mask_plain: "\<not> snd (snd p) \<Longrightarrow> must_mask strong left s p \<longleftrightarrow> prefix (fst p) s"
  by (cases p) (simp add: must_mask_def)

lemma free_of_Nil [simp]: "free_of ps []"
  by (simp add: free_of_def)

lemma free_of_Cons:
  assumes "free_of ps t" and "\<forall>p \<in> set ps. \<not> must_mask strong left (b # t @ s) p"
  shows "free_of ps (b # t)"
  unfolding free_of_def
proof (intro ballI impI notI)
  fix p
  assume p: "p \<in> set ps" "\<not> snd (snd p)" "fst p \<noteq> []" and "sublist (fst p) (b # t)"
  then have "prefix (fst p) (b # t)"
    using assms(1) by (auto simp: free_of_def sublist_Cons_right)
  then have "prefix (fst p) ((b # t) @ s)" by (rule prefix_prefix)
  moreover have "\<not> must_mask strong left ((b # t) @ s) p"
    using assms(2) p(1) by simp
  ultimately show False using p(2) by (simp add: must_mask_plain)
qed

text \<open>A re-masking copies a run and then either ends or replaces one value.\<close>

lemma remasked_first:
  assumes "remasked strong ps left (map Vis s) out"
  shows "\<exists>t s' out'. s = t @ s' \<and> out = t @ out' \<and> free_of ps t \<and>
    (s' = [] \<and> out' = [] \<or>
     (\<exists>v replacement guarded s'' out'' left''. (v, replacement, guarded) \<in> set ps \<and> v \<noteq> [] \<and>
        s' = v @ s'' \<and> out' = replacement @ out'' \<and> remasked strong ps left'' (map Vis s'') out''))"
  using assms
proof (induction left "map Vis s" out arbitrary: s)
  case (remasked_keep left b xs out)
  then obtain s1 where s1: "s = b # s1" "xs = map Vis s1" by auto
  from remasked_keep.hyps(3) [OF s1(2)] obtain t s' out' where
    "s1 = t @ s'" "out = t @ out'" "free_of ps t" "s' = [] \<and> out' = [] \<or>
     (\<exists>v replacement guarded s'' out'' left''. (v, replacement, guarded) \<in> set ps \<and> v \<noteq> [] \<and>
        s' = v @ s'' \<and> out' = replacement @ out'' \<and> remasked strong ps left'' (map Vis s'') out'')"
    by blast
  moreover have "free_of ps (b # t)"
    by (rule free_of_Cons [OF calculation(3)])
      (use remasked_keep.hyps(1) s1 calculation(1) in \<open>simp add: s1\<close>)
  ultimately show ?case using s1 by (intro exI [of _ "b # t"] exI [of _ s'] exI [of _ out']) auto
next
  case (remasked_replace v replacement guarded zs left xs out)
  from map_Vis_append [OF sym [OF remasked_replace.hyps(6)]] obtain u t
    where "s = u @ t" "zs = map Vis u" "xs = map Vis t" by auto
  moreover from this remasked_replace.hyps(2) have "u = v" "v \<noteq> []" by (auto simp: spells_def)
  ultimately have "s = v @ t" "v \<noteq> []" "remasked strong ps (Some (last v)) (map Vis t) out"
    using remasked_replace.hyps(4) by simp_all
  with remasked_replace.hyps(1) show ?case
    by (metis append_Nil free_of_Nil)
qed auto

definition handles_ok :: "crypto \<Rightarrow> recovery \<Rightarrow> bool" where
  "handles_ok cr rec \<longleftrightarrow> (\<forall>ph \<in> set (placeholders rec). handle_shaped ph)"

lemma reveal_known: "reveal cr rec ph \<noteq> None \<Longrightarrow> ph \<in> set (placeholders rec)"
  by (auto simp: reveal_def placeholders_def bind_eq_Some_conv dest: map_of_SomeD)
    (metis fst_conv image_eqI map_of_SomeD)

lemma handle_shaped_prefix: "handle_shaped ph \<Longrightarrow> prefix ''<<'' (ph @ rest)"
  by (auto simp: handle_shaped_def)

lemma resolve_remasked:
  assumes ps: "\<And>v ph g. (v, ph, g) \<in> set ps \<Longrightarrow> reveal cr rec ph = Some v"
    and ok: "handles_ok cr rec" and s: "utf8_valid s"
    and fresh: "\<And>ph. ph \<in> set (placeholders rec) \<Longrightarrow> \<not> sublist ph s"
    and "remasked strong ps left (map Vis s) out"
  shows "resolve_text cr rec out = s"
  using s fresh assms(5)
proof (induction "length s" arbitrary: s out left rule: less_induct)
  case less
  from remasked_first [OF less.prems(3)] obtain t s' out' where
    eq: "s = t @ s'" "out = t @ out'" and rest: "s' = [] \<and> out' = [] \<or>
     (\<exists>v replacement guarded s'' out'' left''. (v, replacement, guarded) \<in> set ps \<and> v \<noteq> [] \<and>
        s' = v @ s'' \<and> out' = replacement @ out'' \<and> remasked strong ps left'' (map Vis s'') out'')"
    by blast
  have shaped: "reveal cr rec ph \<noteq> None \<Longrightarrow> handle_shaped ph" for ph
    using ok reveal_known by (auto simp: handles_ok_def)
  have no: "\<not> sublist ph t" if "reveal cr rec ph \<noteq> None" for ph
    using less.prems(2) [OF reveal_known [OF that]] eq(1)
    by (metis sublist_append_rightI sublist_order.order.trans sublist_appendI)
  from rest show ?case
  proof (elim disjE exE conjE)
    assume "s' = []" "out' = []"
    with eq less.prems(1) resolve_copies [of t cr rec "[]"] no shaped show ?case
      by (auto simp: resolve_text.simps)
  next
    fix v ph g s'' out'' left''
    assume in_ps: "(v, ph, g) \<in> set ps" and "v \<noteq> []" and s': "s' = v @ s''"
      and out': "out' = ph @ out''" and more: "remasked strong ps left'' (map Vis s'') out''"
    from ps [OF in_ps] have v: "reveal cr rec ph = Some v" "utf8_valid v" "handle_shaped ph"
      using shaped [of ph] by (auto simp: reveal_valid)
    have "sublist_at v (length t) s" using eq s' by (simp add: sublist_at_def)
    from utf8_occurrence [OF less.prems(1) v(2) \<open>v \<noteq> []\<close> this] eq s'
    have valid: "utf8_valid t" "utf8_valid s''"
      using utf8_valid_split [OF less.prems(1), of "length t"]
        utf8_valid_split(2) [OF less.prems(1), of "length t + length v"]
      by simp_all
    have "resolve_text cr rec out'' = s''"
    proof (rule less.hyps [OF _ valid(2) _ more])
      show "length s'' < length s" using eq s' \<open>v \<noteq> []\<close> by simp
      show "\<not> sublist ph s''" if "ph \<in> set (placeholders rec)" for ph
        using less.prems(2) [OF that] eq(1) s' by (metis sublist_append_leftI append.assoc
            sublist_order.order.trans)
    qed
    moreover have "resolve_text cr rec (t @ out') = t @ resolve_text cr rec out'"
      using valid(1) no shaped handle_shaped_prefix [OF v(3)] out'
      by (intro resolve_copies) auto
    ultimately show ?case
      using eq s' out' resolve_handle [OF v(3,1)] by simp
  qed
qed


text \<open>
  The pieces of a re-masked text: a kept run, a value and the handle that stands for it; then
  the kept rest.
\<close>

definition pieces_source :: "(str \<times> str \<times> str) list \<Rightarrow> str \<Rightarrow> str" where
  "pieces_source pieces rest = concat (map (\<lambda>(t, v, ph). t @ v) pieces) @ rest"

definition pieces_output :: "(str \<times> str \<times> str) list \<Rightarrow> str \<Rightarrow> str" where
  "pieces_output pieces rest = concat (map (\<lambda>(t, v, ph). t @ ph) pieces) @ rest"

lemma remasked_pieces:
  "remasked strong ps left (map Vis s) out \<Longrightarrow>
   \<exists>pieces rest. s = pieces_source pieces rest \<and> out = pieces_output pieces rest \<and> free_of ps rest \<and>
     (\<forall>(t, v, ph) \<in> set pieces. free_of ps t \<and> (\<exists>g. (v, ph, g) \<in> set ps))"
proof (induction "length s" arbitrary: s out left rule: less_induct)
  case less
  from remasked_first [OF less.prems] obtain t s' out' where
    eq: "s = t @ s'" "out = t @ out'" "free_of ps t" and rest: "s' = [] \<and> out' = [] \<or>
     (\<exists>v replacement guarded s'' out'' left''. (v, replacement, guarded) \<in> set ps \<and> v \<noteq> [] \<and>
        s' = v @ s'' \<and> out' = replacement @ out'' \<and> remasked strong ps left'' (map Vis s'') out'')"
    by blast
  from rest show ?case
  proof (elim disjE exE conjE)
    assume "s' = []" "out' = []"
    with eq show ?thesis
      by (intro exI [of _ "[]"] exI [of _ t]) (simp add: pieces_source_def pieces_output_def)
  next
    fix v ph g s'' out'' left''
    assume in_ps: "(v, ph, g) \<in> set ps" and "v \<noteq> []" and s': "s' = v @ s''"
      and out': "out' = ph @ out''" and more: "remasked strong ps left'' (map Vis s'') out''"
    have "length s'' < length s" using eq s' \<open>v \<noteq> []\<close> by simp
    from less.hyps [OF this more] obtain pieces tail where
      "s'' = pieces_source pieces tail" "out'' = pieces_output pieces tail" "free_of ps tail"
      "\<forall>(t, v, ph) \<in> set pieces. free_of ps t \<and> (\<exists>g. (v, ph, g) \<in> set ps)"
      by blast
    with eq s' out' in_ps show ?thesis
      by (intro exI [of _ "(t, v, ph) # pieces"] exI [of _ tail])
        (auto simp: pieces_source_def pieces_output_def)
  qed
qed

lemma call_patterns_known:
  "(v, ph, g) \<in> set (call_patterns (remask_pairs cr rec)) \<Longrightarrow> reveal cr rec ph = Some v"
  by (auto simp: call_patterns_def dest: remask_pairs_known(1))

definition remask_value :: "crypto \<Rightarrow> recovery \<Rightarrow> str \<Rightarrow> bool" where
  "remask_value cr rec v \<longleftrightarrow> (\<exists>ph. (v, ph) \<in> set (remask_pairs cr rec)) \<and> \<not> requires_token_boundaries v"

lemma free_of_call_patterns:
  "free_of (call_patterns (remask_pairs cr rec)) t \<Longrightarrow> remask_value cr rec v \<Longrightarrow> \<not> sublist v t"
  using remask_pairs_known(2) is_remaskable_not_Nil
  by (fastforce simp: free_of_def call_patterns_def remask_value_def)

text \<open>The pairs keep one handle for each value that is worth re-masking.\<close>

lemma dedup_values_keys: "fst ` set (dedup_values xs) = fst ` set xs"
  by (induction xs rule: dedup_values.induct) auto

lemma remask_value_iff:
  "remask_value cr rec v \<longleftrightarrow> \<not> requires_token_boundaries v \<and>
     (\<exists>ph \<in> set (placeholders rec). reveal cr rec ph = Some v \<and> is_remaskable_echo v ph)"
proof -
  let ?all = "filter (\<lambda>(v, ph). is_remaskable_echo v ph)
       (List.map_filter (\<lambda>ph. map_option (\<lambda>v. (v, ph)) (reveal cr rec ph)) (placeholders rec))"
  have "(\<exists>ph. (v, ph) \<in> set (remask_pairs cr rec)) \<longleftrightarrow> v \<in> fst ` set (remask_pairs cr rec)"
    by force
  also have "\<dots> \<longleftrightarrow> v \<in> fst ` set ?all"
    by (simp add: remask_pairs_def sort_and_deduplicate_remask_pairs_def dedup_values_keys)
  also have "\<dots> \<longleftrightarrow> (\<exists>ph \<in> set (placeholders rec). reveal cr rec ph = Some v \<and> is_remaskable_echo v ph)"
    by (force simp: map_filter_def)
  finally show ?thesis by (auto simp: remask_value_def)
qed


definition example_remask_store :: recovery where
  "example_remask_store =
     seal example_crypto [(''<<A_0123456789abcdef>>'', ''s3cret''),
       (''<<B_0123456789abcdef>>'', ''s3cret-9'')] ''k''"

lemma example_remask_placeholders:
  "placeholders example_remask_store = [''<<A_0123456789abcdef>>'', ''<<B_0123456789abcdef>>'']"
  by (simp add: placeholders_def example_remask_store_def seal_def Let_def)

lemma example_remask_pairs:
  "remask_pairs example_crypto example_remask_store =
     [(''s3cret'', ''<<A_0123456789abcdef>>''), (''s3cret-9'', ''<<B_0123456789abcdef>>'')]"
proof -
  have
    "reveal example_crypto example_remask_store ''<<A_0123456789abcdef>>'' = Some ''s3cret''"
    "reveal example_crypto example_remask_store ''<<B_0123456789abcdef>>'' = Some ''s3cret-9''"
    by (simp_all add: example_remask_store_def reveal_seal [OF keystream_ok_example]
        utf8_valid_ascii is_ascii_def)
  moreover have "is_remaskable_echo ''s3cret'' ''<<A_0123456789abcdef>>''"
    "is_remaskable_echo ''s3cret-9'' ''<<B_0123456789abcdef>>''"
    by code_simp+
  ultimately show ?thesis
    by (simp add: remask_pairs_def sort_and_deduplicate_remask_pairs_def map_filter_simps
        example_remask_placeholders)
qed

lemma example_remask_run:
  "remask example_crypto reference_longest example_remask_store ''is s3cret or s3cret-9'' =
     Some ''is <<A_0123456789abcdef>> or <<B_0123456789abcdef>>''"
proof -
  have "requires_token_boundaries ''s3cret'' = False" "requires_token_boundaries ''s3cret-9'' = False"
    by code_simp+
  moreover have "remask_loop (Suc (length ''is s3cret or s3cret-9'')) reference_longest
      [(''s3cret'', ''<<A_0123456789abcdef>>'', False),
       (''s3cret-9'', ''<<B_0123456789abcdef>>'', False)] ''is s3cret or s3cret-9'' 0 0 =
     Some ''is <<A_0123456789abcdef>> or <<B_0123456789abcdef>>''"
    by code_simp
  ultimately show ?thesis
    unfolding remask_def example_remask_pairs Let_def
    by (simp del: remask_loop.simps)
qed


text \<open>
  C33. Resolving undoes re-masking: when every known handle has the shape of one and none
  occurs in the text, resolving the re-masked text gives the text back, byte for byte.
\<close>

theorem resolve_inverts_remask:
  assumes "longest_matcher search_for" and "utf8_valid s" and "handles_ok cr rec"
    and "\<forall>ph \<in> set (placeholders rec). \<not> sublist ph s"
  shows "Option.bind (remask cr search_for rec s) (\<lambda>out. Some (resolve_text cr rec out)) = Some s"
proof -
  from longest_matcher.remask_remasked [OF assms(1,2), of cr rec None] obtain out
    where out: "remask cr search_for rec s = Some out"
      "remasked False (call_patterns (remask_pairs cr rec)) None (map Vis s) out"
    by blast
  from resolve_remasked [OF call_patterns_known assms(3,2) _ out(2)] assms(4) out(1)
  show ?thesis by simp
qed


lemma resolve_inverts_remask_witness:
  "Option.bind (remask example_crypto reference_longest example_remask_store ''is s3cret or s3cret-9'')
     (\<lambda>out. Some (resolve_text example_crypto example_remask_store out)) = Some ''is s3cret or s3cret-9''"
proof (rule resolve_inverts_remask [OF lm.longest_matcher_axioms])
  show "utf8_valid ''is s3cret or s3cret-9''" by (simp add: utf8_valid_ascii is_ascii_def)
  have "list_all handle_char ''A_0123456789abcdef''" "list_all handle_char ''B_0123456789abcdef''"
    by code_simp+
  then show "handles_ok example_crypto example_remask_store"
    by (auto simp: handles_ok_def example_remask_placeholders handle_shaped_def)
  show "\<forall>ph \<in> set (placeholders example_remask_store). \<not> sublist ph ''is s3cret or s3cret-9''"
    unfolding example_remask_placeholders by code_simp
qed

end
