(* ===== verification/Streaming.thy ===== *)
theory Streaming
  imports Remask "HOL-Library.Multiset"
begin

text \<open>
  The incremental re-masker, \<open>RecoveryStreamRemasker\<close> of \<open>recovery.rs\<close>: a buffer of raw
  bytes, the visible bytes among them with their raw offsets, and the patterns of the merged
  recovery maps. A \<open>Result\<close> of \<open>None\<close> is an out-of-range index, where the code panics.
\<close>


section \<open>State\<close>

record stream_pattern =
  pt_value :: str
  pt_placeholder :: str
  pt_boundaries :: bool
  pt_priority :: nat

record remasker =
  rm_patterns :: "stream_pattern list"
  rm_raw :: str
  rm_visible :: str
  rm_starts :: "nat list"
  rm_ends :: "nat list"
  rm_previous :: "byte option"

definition empty_remasker :: remasker where
  "empty_remasker =
     \<lparr>rm_patterns = [], rm_raw = [], rm_visible = [], rm_starts = [], rm_ends = [],
      rm_previous = None\<rparr>"


section \<open>Patterns\<close>

definition remask_placeholder_priority_bytes :: "str \<Rightarrow> nat" where
  "remask_placeholder_priority_bytes bytes =
     (if utf8_valid bytes then remask_placeholder_priority bytes else 0)"

definition identity_pattern :: "str \<Rightarrow> stream_pattern" where
  "identity_pattern handle =
     \<lparr>pt_value = handle, pt_placeholder = handle, pt_boundaries = False, pt_priority = 2\<rparr>"

fun of_option :: "'a option \<Rightarrow> 'a list" where
  "of_option None = []"
| "of_option (Some x) = [x]"

lemma set_of_option: "x \<in> set (of_option a) \<longleftrightarrow> a = Some x"
  by (cases a) auto

definition raw_pattern :: "str \<Rightarrow> str \<Rightarrow> stream_pattern option" where
  "raw_pattern v ph =
     (if is_remaskable_echo v ph
      then Some \<lparr>pt_value = v, pt_placeholder = ph,
             pt_boundaries = requires_token_boundaries v, pt_priority = 0\<rparr>
      else None)"

definition view_pattern :: "base64_encoder \<Rightarrow> str \<Rightarrow> str \<Rightarrow> stream_pattern option" where
  "view_pattern b64 v ph =
     do {
       base \<leftarrow> strip_suffix ''>>'' ph;
       if exact_handle (base @ ''>>'') then do {
         rendered \<leftarrow> view_rendered b64 v ''base64'';
         if rendered \<noteq> []
         then Some \<lparr>pt_value = rendered, pt_placeholder = base @ ''|'' @ ''base64'' @ ''>>'',
                pt_boundaries = False, pt_priority = 1\<rparr>
         else None }
       else None
     }"

definition incoming_patterns ::
    "base64_encoder \<Rightarrow> bool \<Rightarrow> str \<Rightarrow> str \<Rightarrow> stream_pattern list" where
  "incoming_patterns b64 include_views v ph =
     identity_pattern ph
     # of_option (map_option identity_pattern (view_handle ph))
     @ of_option (raw_pattern v ph)
     @ (if include_views then of_option (view_pattern b64 v ph) else [])"

definition pattern_key :: "stream_pattern \<Rightarrow> str \<times> int \<times> int \<times> str" where
  "pattern_key p =
     (pt_value p, - int (pt_priority p),
      if pt_priority p = 0 then - int (remask_placeholder_priority_bytes (pt_placeholder p)) else 0,
      pt_placeholder p)"

fun dedup_patterns :: "stream_pattern list \<Rightarrow> stream_pattern list" where
  "dedup_patterns (p # q # ps) =
     (if pt_value p = pt_value q then dedup_patterns (p # ps) else p # dedup_patterns (q # ps))"
| "dedup_patterns ps = ps"

definition merge_recovery_inner ::
    "crypto \<Rightarrow> base64_encoder \<Rightarrow> remasker \<Rightarrow> recovery \<Rightarrow> bool \<Rightarrow> remasker" where
  "merge_recovery_inner cr b64 rm rec include_views =
     (let incoming = concat (map (\<lambda>ph.
            case reveal cr rec ph of
              Some v \<Rightarrow> incoming_patterns b64 include_views v ph | None \<Rightarrow> []) (placeholders rec))
      in rm\<lparr>rm_patterns := dedup_patterns (sort_key pattern_key (rm_patterns rm @ incoming))\<rparr>)"

definition merge_recovery :: "crypto \<Rightarrow> base64_encoder \<Rightarrow> remasker \<Rightarrow> recovery \<Rightarrow> remasker" where
  "merge_recovery cr b64 rm rec = merge_recovery_inner cr b64 rm rec False"

definition merge_recovery_with_views ::
    "crypto \<Rightarrow> base64_encoder \<Rightarrow> remasker \<Rightarrow> recovery \<Rightarrow> remasker" where
  "merge_recovery_with_views cr b64 rm rec = merge_recovery_inner cr b64 rm rec True"

definition stream_remasker :: "crypto \<Rightarrow> base64_encoder \<Rightarrow> recovery \<Rightarrow> remasker" where
  "stream_remasker cr b64 rec = merge_recovery cr b64 empty_remasker rec"

definition stream_remasker_with_views :: "crypto \<Rightarrow> base64_encoder \<Rightarrow> recovery \<Rightarrow> remasker" where
  "stream_remasker_with_views cr b64 rec = merge_recovery_with_views cr b64 empty_remasker rec"


section \<open>The next candidate\<close>

datatype stream_candidate =
    Partial nat
  | Full nat nat nat

text \<open>
  One pattern at one start: the longest full match so far as its index and length, and whether
  some pattern may still match when more text arrives.
\<close>

definition weigh_pattern ::
    "remasker \<Rightarrow> bool \<Rightarrow> nat \<Rightarrow> nat \<times> stream_pattern \<Rightarrow>
     (nat \<times> nat) option \<times> bool \<Rightarrow> (nat \<times> nat) option \<times> bool" where
  "weigh_pattern rm force start = (\<lambda>(i, p) (longest, partial).
     let remaining = drop start (rm_visible rm);
         n = length (pt_value p);
         longer = (if (case longest of None \<Rightarrow> True | Some (j, l) \<Rightarrow> l < n)
                   then Some (i, n) else longest)
     in if n \<le> length remaining \<and> prefix (pt_value p) remaining then
          (if pt_boundaries p then
             let left = (if 0 < start \<and> start - 1 < length (rm_visible rm)
                         then Some (rm_visible rm ! (start - 1)) else rm_previous rm);
                 right = (if start + n < length (rm_visible rm)
                          then Some (rm_visible rm ! (start + n)) else None)
             in if (case left of Some b \<Rightarrow> is_word_byte b | None \<Rightarrow> False) then (longest, partial)
                else if (case right of Some b \<Rightarrow> is_word_byte b | None \<Rightarrow> False) then (longest, partial)
                else if right = None \<and> \<not> force then (longest, True)
                else (longer, partial)
           else (longer, partial))
        else if \<not> force \<and> length remaining < n \<and> prefix remaining (pt_value p)
        then (longest, True)
        else (longest, partial))"

fun candidate_from :: "remasker \<Rightarrow> bool \<Rightarrow> nat list \<Rightarrow> stream_candidate option" where
  "candidate_from rm force [] = None"
| "candidate_from rm force (start # starts) =
     (case fold (weigh_pattern rm force start)
             (enumerate 0 (rm_patterns rm)) (None, False) of
        (longest, partial) \<Rightarrow>
          if partial then Some (Partial start)
          else (case longest of
                  Some (i, n) \<Rightarrow> Some (Full start (start + n) i)
                | None \<Rightarrow> candidate_from rm force starts))"

definition first_candidate :: "remasker \<Rightarrow> bool \<Rightarrow> stream_candidate option" where
  "first_candidate rm force = candidate_from rm force [0..<length (rm_visible rm)]"


section \<open>Draining\<close>

definition clear_visible :: "remasker \<Rightarrow> remasker" where
  "clear_visible rm = rm\<lparr>rm_visible := [], rm_starts := [], rm_ends := []\<rparr>"

definition remove_visible_prefix :: "remasker \<Rightarrow> nat \<Rightarrow> nat \<Rightarrow> remasker" where
  "remove_visible_prefix rm visible raw =
     rm\<lparr>rm_previous := (if 0 < visible
          then (if visible - 1 < length (rm_visible rm)
                then Some (rm_visible rm ! (visible - 1)) else None)
          else rm_previous rm),
        rm_visible := drop visible (rm_visible rm),
        rm_starts := map (\<lambda>k. k - raw) (drop visible (rm_starts rm)),
        rm_ends := map (\<lambda>k. k - raw) (drop visible (rm_ends rm))\<rparr>"

definition discard_prefix :: "remasker \<Rightarrow> nat \<Rightarrow> nat \<Rightarrow> remasker" where
  "discard_prefix rm visible raw =
     remove_visible_prefix (rm\<lparr>rm_raw := drop raw (rm_raw rm)\<rparr>) visible raw"

definition emit_visible_prefix :: "remasker \<Rightarrow> nat \<Rightarrow> (str \<times> remasker) option" where
  "emit_visible_prefix rm visible =
     (if visible < length (rm_starts rm)
      then let raw = rm_starts rm ! visible
           in Some (take raw (rm_raw rm), discard_prefix rm visible raw)
      else None)"

definition flush :: "remasker \<Rightarrow> str \<times> remasker" where
  "flush rm =
     (rm_raw rm,
      clear_visible (rm\<lparr>rm_raw := [],
        rm_previous := (if rm_visible rm = [] then None else Some (last (rm_visible rm)))\<rparr>))"

definition prepend :: "str \<Rightarrow> (str \<times> 'a) option \<Rightarrow> (str \<times> 'a) option" where
  "prepend out = map_option (\<lambda>(rest, x). (out @ rest, x))"

fun drain_loop :: "nat \<Rightarrow> remasker \<Rightarrow> bool \<Rightarrow> (str \<times> remasker) option" where
  "drain_loop 0 rm force = None"
| "drain_loop (Suc fuel) rm force =
     (case first_candidate rm force of
        Some (Partial start) \<Rightarrow>
          if 0 < start then emit_visible_prefix rm start else Some ([], rm)
      | Some (Full start end i) \<Rightarrow>
          if 0 < start then
            (case emit_visible_prefix rm start of
               Some (out, rm') \<Rightarrow> prepend out (drain_loop fuel rm' force)
             | None \<Rightarrow> None)
          else if 0 < end \<and> end - 1 < length (rm_ends rm) \<and> i < length (rm_patterns rm) then
            prepend (pt_placeholder (rm_patterns rm ! i))
              (drain_loop fuel (discard_prefix rm end (rm_ends rm ! (end - 1))) force)
          else None
      | None \<Rightarrow> Some (flush rm))"

text \<open>
  Every iteration but the last removes a visible byte, so the fuel below is enough.
\<close>

definition drain_ready :: "remasker \<Rightarrow> bool \<Rightarrow> (str \<times> remasker) option" where
  "drain_ready rm force =
     (if rm_patterns rm = [] then Some (flush rm)
      else drain_loop (Suc (length (rm_visible rm))) rm force)"


section \<open>Events\<close>

fun append_visible :: "remasker \<Rightarrow> str \<Rightarrow> remasker" where
  "append_visible rm [] = rm"
| "append_visible rm (b # bytes) =
     append_visible (rm\<lparr>rm_raw := rm_raw rm @ [b], rm_visible := rm_visible rm @ [b],
       rm_starts := rm_starts rm @ [length (rm_raw rm)],
       rm_ends := rm_ends rm @ [length (rm_raw rm) + 1]\<rparr>) bytes"

definition push_text :: "remasker \<Rightarrow> str \<Rightarrow> (str \<times> remasker) option" where
  "push_text rm bytes = drain_ready (append_visible rm bytes) False"

definition push_control :: "remasker \<Rightarrow> str \<Rightarrow> (str \<times> remasker) option" where
  "push_control rm bytes = drain_ready (rm\<lparr>rm_raw := rm_raw rm @ bytes\<rparr>) False"

definition push_boundary_control :: "remasker \<Rightarrow> str \<Rightarrow> (str \<times> remasker) option" where
  "push_boundary_control rm bytes =
     map_option (\<lambda>(out, rm'). (out @ bytes, rm'\<lparr>rm_previous := None\<rparr>)) (drain_ready rm True)"

definition finish :: "remasker \<Rightarrow> (str \<times> remasker) option" where
  "finish rm = drain_ready rm True"


section \<open>Representation\<close>

text \<open>
  The buffers of a re-masker represent a stream of visible and control bytes: the raw bytes, the
  visible ones among them, and for each visible byte its raw range.
\<close>

fun vis_starts :: "nat \<Rightarrow> item list \<Rightarrow> nat list" where
  "vis_starts n [] = []"
| "vis_starts n (Vis b # xs) = n # vis_starts (Suc n) xs"
| "vis_starts n (Ctl b # xs) = vis_starts (Suc n) xs"

definition represents :: "remasker \<Rightarrow> item list \<Rightarrow> bool" where
  "represents rm xs \<longleftrightarrow> rm_raw rm = raw_of xs \<and> rm_visible rm = visible_of xs \<and>
     rm_starts rm = vis_starts 0 xs \<and> rm_ends rm = map Suc (vis_starts 0 xs)"

lemma length_raw_of [simp]: "length (raw_of xs) = length xs"
  by (induction xs rule: raw_of.induct) auto

lemma vis_starts_append [simp]:
  "vis_starts n (xs @ ys) = vis_starts n xs @ vis_starts (n + length xs) ys"
  by (induction n xs rule: vis_starts.induct) auto

lemma vis_starts_Vis [simp]: "vis_starts n (map Vis s) = [n..<n + length s]"
  by (induction s arbitrary: n) (simp_all add: upt_conv_Cons del: upt_Suc)

lemma vis_starts_Ctl [simp]: "vis_starts n (map Ctl s) = []"
  by (induction s arbitrary: n) auto

lemma length_vis_starts [simp]: "length (vis_starts n xs) = length (visible_of xs)"
  by (induction n xs rule: vis_starts.induct) auto

lemma vis_starts_shift: "vis_starts (n + m) xs = map (\<lambda>k. k + m) (vis_starts n xs)"
  by (induction n xs rule: vis_starts.induct) (auto simp flip: add_Suc)

lemma vis_starts_back: "map (\<lambda>k. k - m) (vis_starts m xs) = vis_starts 0 xs"
  using vis_starts_shift [of 0 m xs] by (simp add: comp_def)

lemma vis_starts_back_Suc: "map (\<lambda>k. Suc k - m) (vis_starts m xs) = map Suc (vis_starts 0 xs)"
  using vis_starts_shift [of 0 m xs] by (simp add: comp_def)

lemma represents_empty: "represents empty_remasker []"
  by (simp add: represents_def empty_remasker_def)

lemma represents_append_visible:
  "represents rm xs \<Longrightarrow> represents (append_visible rm s) (xs @ map Vis s)"
proof (induction s arbitrary: rm xs)
  case (Cons b s)
  then have "represents (rm\<lparr>rm_raw := rm_raw rm @ [b], rm_visible := rm_visible rm @ [b],
      rm_starts := rm_starts rm @ [length (rm_raw rm)],
      rm_ends := rm_ends rm @ [length (rm_raw rm) + 1]\<rparr>) (xs @ [Vis b])"
    by (simp add: represents_def)
  from Cons.IH [OF this] show ?case by simp
qed simp

lemma append_visible_frame [simp]:
  "rm_patterns (append_visible rm s) = rm_patterns rm"
  "rm_previous (append_visible rm s) = rm_previous rm"
  by (induction rm s rule: append_visible.induct) auto

lemma represents_append_control:
  "represents rm xs \<Longrightarrow> represents (rm\<lparr>rm_raw := rm_raw rm @ s\<rparr>) (xs @ map Ctl s)"
  by (simp add: represents_def)

lemma split_at_visible:
  "k < length (visible_of xs) \<Longrightarrow>
   \<exists>us b ys. xs = us @ Vis b # ys \<and> length (visible_of us) = k \<and> vis_starts n xs ! k = n + length us"
proof (induction n xs arbitrary: k rule: vis_starts.induct)
  case (2 n b xs)
  show ?case
  proof (cases k)
    case 0
    then show ?thesis by (intro exI [of _ "[]"]) auto
  next
    case (Suc j)
    with "2.prems" have "j < length (visible_of xs)" by simp
    from "2.IH" [OF this] obtain us c ys where "xs = us @ Vis c # ys"
      "length (visible_of us) = j" "vis_starts (Suc n) xs ! j = Suc n + length us"
      by blast
    with Suc show ?thesis by (intro exI [of _ "Vis b # us"]) auto
  qed
next
  case (3 n b xs)
  from "3.prems" have "k < length (visible_of xs)" by simp
  from "3.IH" [OF this] obtain us c ys where "xs = us @ Vis c # ys"
    "length (visible_of us) = k" "vis_starts (Suc n) xs ! k = Suc n + length us"
    by blast
  then show ?case by (intro exI [of _ "Ctl b # us"]) auto
qed simp

text \<open>Removing a prefix of the stream is what the offsets are shifted for.\<close>

lemma represents_discard:
  assumes "represents rm (us @ ys)"
  shows "represents (discard_prefix rm (length (visible_of us)) (length us)) ys"
  using assms
  by (simp add: represents_def discard_prefix_def remove_visible_prefix_def
      vis_starts_back vis_starts_back_Suc comp_def)

lemma discard_previous:
  assumes "represents rm (us @ ys)"
  shows "rm_previous (discard_prefix rm (length (visible_of us)) raw) =
    left_after (rm_previous rm) (visible_of us)"
  using assms
  by (cases "visible_of us" rule: rev_cases)
    (simp_all add: represents_def discard_prefix_def remove_visible_prefix_def left_after_def
      nth_append)

lemma emit_prefix:
  assumes "represents rm xs" and "k < length (visible_of xs)"
  obtains us b ys where "xs = us @ Vis b # ys" and "length (visible_of us) = k"
    and "emit_visible_prefix rm k = Some (raw_of us, discard_prefix rm k (length us))"
proof -
  from split_at_visible [OF assms(2), of 0] obtain us b ys
    where *: "xs = us @ Vis b # ys" "length (visible_of us) = k" "vis_starts 0 xs ! k = length us"
    by auto
  with assms have "emit_visible_prefix rm k = Some (raw_of us, discard_prefix rm k (length us))"
    by (simp add: emit_visible_prefix_def represents_def)
  with * that show ?thesis by blast
qed


section \<open>What a candidate says\<close>

definition pattern_of :: "stream_pattern \<Rightarrow> remask_pattern" where
  "pattern_of p = (pt_value p, pt_placeholder p, pt_boundaries p)"

definition patterns_of :: "remasker \<Rightarrow> remask_pattern list" where
  "patterns_of rm = map pattern_of (rm_patterns rm)"

definition left_of :: "remasker \<Rightarrow> nat \<Rightarrow> byte option" where
  "left_of rm start = (if 0 < start then Some (rm_visible rm ! (start - 1)) else rm_previous rm)"

text \<open>A pattern that matches at a start for good, and one that needs more text to decide.\<close>

definition full_at :: "remasker \<Rightarrow> bool \<Rightarrow> nat \<Rightarrow> stream_pattern \<Rightarrow> bool" where
  "full_at rm force start p \<longleftrightarrow> prefix (pt_value p) (drop start (rm_visible rm)) \<and>
     (pt_boundaries p \<longrightarrow>
        stands_alone (left_of rm start) (drop start (rm_visible rm)) (length (pt_value p)) \<and>
        (start + length (pt_value p) < length (rm_visible rm) \<or> force))"

definition waits_at :: "remasker \<Rightarrow> bool \<Rightarrow> nat \<Rightarrow> stream_pattern \<Rightarrow> bool" where
  "waits_at rm force start p \<longleftrightarrow> \<not> force \<and>
     (if prefix (pt_value p) (drop start (rm_visible rm))
      then pt_boundaries p \<and> start + length (pt_value p) = length (rm_visible rm) \<and>
        \<not> (\<exists>b. left_of rm start = Some b \<and> is_word_byte b)
      else prefix (drop start (rm_visible rm)) (pt_value p))"

lemma weigh_pattern_eq:
  assumes "start < length (rm_visible rm)"
  shows "weigh_pattern rm force start (i, p) (longest, partial) =
    (if full_at rm force start p \<and>
        (case longest of None \<Rightarrow> True | Some (j, l) \<Rightarrow> l < length (pt_value p))
     then Some (i, length (pt_value p)) else longest,
     partial \<or> waits_at rm force start p)"
proof (cases "prefix (pt_value p) (drop start (rm_visible rm))")
  case True
  then have "length (pt_value p) \<le> length (drop start (rm_visible rm))"
    by (rule prefix_length_le)
  moreover have "start + length (pt_value p) \<le> length (rm_visible rm)"
    using calculation assms by simp
  moreover have "start - 1 < length (rm_visible rm)"
    using assms by simp
  ultimately show ?thesis
    using True assms unfolding weigh_pattern_def full_at_def waits_at_def left_of_def stands_alone_def
    by (cases force; cases "pt_boundaries p"; cases "start = 0"; cases "rm_previous rm";
        cases "start + length (pt_value p) = length (rm_visible rm)")
      (auto simp: Let_def)
next
  case False
  have "length (drop start (rm_visible rm)) < length (pt_value p)"
    if "prefix (drop start (rm_visible rm)) (pt_value p)"
    using that False by (metis prefix_length_less prefix_order.eq_refl strict_prefixI)
  with False show ?thesis
    by (auto simp: weigh_pattern_def full_at_def waits_at_def Let_def)
qed


definition weighed ::
    "remasker \<Rightarrow> bool \<Rightarrow> nat \<Rightarrow> (nat \<times> stream_pattern) list \<Rightarrow> (nat \<times> nat) option \<times> bool \<Rightarrow> bool" where
  "weighed rm force start ips = (\<lambda>(longest, partial).
     (partial \<longleftrightarrow> (\<exists>(i, p) \<in> set ips. waits_at rm force start p)) \<and>
     (case longest of
        None \<Rightarrow> \<forall>(i, p) \<in> set ips. \<not> full_at rm force start p
      | Some (i, n) \<Rightarrow>
          (\<exists>p. (i, p) \<in> set ips \<and> full_at rm force start p \<and> n = length (pt_value p)) \<and>
          (\<forall>(j, p) \<in> set ips. full_at rm force start p \<longrightarrow> length (pt_value p) \<le> n)))"

lemma weighed_step:
  assumes "start < length (rm_visible rm)" and "weighed rm force start ips w"
  shows "weighed rm force start (ips @ [ip]) (weigh_pattern rm force start ip w)"
proof -
  obtain i p longest partial where eq: "ip = (i, p)" "w = (longest, partial)"
    by (cases ip; cases w)
  show ?thesis
  proof (cases longest)
    case None
    with assms(2) show ?thesis
      unfolding eq weigh_pattern_eq [OF assms(1)] by (auto simp: weighed_def)
  next
    case (Some jl)
    then obtain j l where "longest = Some (j, l)" by (cases jl) auto
    with assms(2) show ?thesis
      unfolding eq weigh_pattern_eq [OF assms(1)] weighed_def
      by (cases "full_at rm force start p"; cases "l < length (pt_value p)") fastforce+
  qed
qed

lemma weigh_fold:
  assumes "start < length (rm_visible rm)"
  shows "weighed rm force start ips (fold (weigh_pattern rm force start) ips (None, False))"
proof (induction ips rule: rev_induct)
  case (snoc ip ips)
  then show ?case by (simp add: weighed_step [OF assms])
qed (simp add: weighed_def)

text \<open>The patterns that decide nothing at a start.\<close>

definition passes :: "remasker \<Rightarrow> bool \<Rightarrow> nat \<Rightarrow> bool" where
  "passes rm force start \<longleftrightarrow>
     (\<forall>p \<in> set (rm_patterns rm). \<not> full_at rm force start p \<and> \<not> waits_at rm force start p)"

definition candidate_ok :: "remasker \<Rightarrow> bool \<Rightarrow> stream_candidate \<Rightarrow> bool" where
  "candidate_ok rm force c = (case c of
     Partial start \<Rightarrow> start < length (rm_visible rm) \<and> (\<forall>k < start. passes rm force k) \<and>
       (\<exists>p \<in> set (rm_patterns rm). waits_at rm force start p)
   | Full start end i \<Rightarrow> start < length (rm_visible rm) \<and> (\<forall>k < start. passes rm force k) \<and>
       i < length (rm_patterns rm) \<and> end = start + length (pt_value (rm_patterns rm ! i)) \<and>
       full_at rm force start (rm_patterns rm ! i) \<and>
       (\<forall>p \<in> set (rm_patterns rm). \<not> waits_at rm force start p \<and>
         (full_at rm force start p \<longrightarrow>
           length (pt_value p) \<le> length (pt_value (rm_patterns rm ! i)))))"

lemma weigh_all:
  assumes "start < length (rm_visible rm)"
    and "fold (weigh_pattern rm force start) (enumerate 0 (rm_patterns rm)) (None, False) =
      (longest, partial)"
  shows "(partial \<longleftrightarrow> (\<exists>p \<in> set (rm_patterns rm). waits_at rm force start p)) \<and>
    (case longest of
       None \<Rightarrow> \<forall>p \<in> set (rm_patterns rm). \<not> full_at rm force start p
     | Some (i, n) \<Rightarrow> i < length (rm_patterns rm) \<and>
         full_at rm force start (rm_patterns rm ! i) \<and> n = length (pt_value (rm_patterns rm ! i)) \<and>
         (\<forall>p \<in> set (rm_patterns rm). full_at rm force start p \<longrightarrow> length (pt_value p) \<le> n))"
proof -
  have "set (enumerate 0 (rm_patterns rm)) =
      {(i, rm_patterns rm ! i) |i. i < length (rm_patterns rm)}"
    by (auto simp: in_set_enumerate_eq)
  with weigh_fold [OF assms(1), of force "enumerate 0 (rm_patterns rm)"] assms(2) show ?thesis
    by (fastforce simp: weighed_def in_set_conv_nth split: option.splits)
qed

lemma candidate_from_spec:
  assumes "a \<le> length (rm_visible rm)" and "\<forall>k < a. passes rm force k"
  shows "case candidate_from rm force [a..<length (rm_visible rm)] of
      None \<Rightarrow> \<forall>k < length (rm_visible rm). passes rm force k
    | Some c \<Rightarrow> candidate_ok rm force c"
  using assms
proof (induction "length (rm_visible rm) - a" arbitrary: a)
  case (Suc n)
  then have less: "a < length (rm_visible rm)" by simp
  obtain longest partial where w:
    "fold (weigh_pattern rm force a) (enumerate 0 (rm_patterns rm)) (None, False) =
      (longest, partial)"
    by (cases "fold (weigh_pattern rm force a) (enumerate 0 (rm_patterns rm)) (None, False)")
  note spec = weigh_all [OF less w]
  have range: "[a..<length (rm_visible rm)] = a # [Suc a..<length (rm_visible rm)]"
    using less by (simp add: upt_conv_Cons)
  show ?case
  proof (cases "\<not> partial \<and> longest = None")
    case True
    with spec have "passes rm force a" by (auto simp: passes_def)
    with Suc.prems have "\<forall>k < Suc a. passes rm force k" by (auto simp: less_Suc_eq)
    with Suc.hyps(1) [of "Suc a"] Suc.hyps(2) less True show ?thesis
      by (simp add: range w)
  next
    case False
    with spec less Suc.prems show ?thesis
      by (auto simp: range w candidate_ok_def split: option.splits)
  qed
qed auto

lemma first_candidate_spec:
  "case first_candidate rm force of
     None \<Rightarrow> \<forall>k < length (rm_visible rm). passes rm force k
   | Some c \<Rightarrow> candidate_ok rm force c"
  unfolding first_candidate_def by (rule candidate_from_spec) simp_all


section \<open>Draining simulates the specification\<close>

text \<open>
  The re-masker remembers the last visible byte it released, or nothing; it never remembers a
  wrong one.
\<close>

definition previous_ok :: "remasker \<Rightarrow> byte option \<Rightarrow> bool" where
  "previous_ok rm left \<longleftrightarrow> rm_previous rm = None \<or> rm_previous rm = left"

lemma must_mask_seen:
  assumes must: "must_mask True left (drop k (rm_visible rm) @ later) (pattern_of p)"
    and "force \<Longrightarrow> later = []" and "k < length (rm_visible rm)"
    and left: "left_of rm k = left \<or> left_of rm k = None"
  shows "full_at rm force k p \<or> waits_at rm force k p"
proof (cases "prefix (pt_value p) (drop k (rm_visible rm))")
  case True
  then have len: "k + length (pt_value p) \<le> length (rm_visible rm)"
    using assms(3) prefix_length_le [OF True] by simp
  have "stands_alone left (drop k (rm_visible rm) @ later) (length (pt_value p))"
    if "pt_boundaries p"
    using must that by (simp add: must_mask_def pattern_of_def)
  with True len left assms(2) show ?thesis
    by (cases "k + length (pt_value p) = length (rm_visible rm)")
      (auto simp: full_at_def waits_at_def stands_alone_def nth_append)
next
  case False
  from must have "prefix (pt_value p) (drop k (rm_visible rm) @ later)"
    by (simp add: must_mask_def pattern_of_def)
  with False have "prefix (drop k (rm_visible rm)) (pt_value p)" "later \<noteq> []"
    by (auto simp: prefix_append)
  with False assms(2) show ?thesis by (auto simp: waits_at_def)
qed

lemma passes_must_mask:
  assumes "passes rm force k" and "k < length (rm_visible rm)" and "force \<Longrightarrow> later = []"
    and "previous_ok rm left" and "p \<in> set (patterns_of rm)"
  shows "\<not> must_mask True (left_after left (take k (rm_visible rm)))
    (drop k (rm_visible rm) @ later) p"
proof
  assume must: "must_mask True (left_after left (take k (rm_visible rm)))
    (drop k (rm_visible rm) @ later) p"
  from assms(5) obtain q where q: "q \<in> set (rm_patterns rm)" "p = pattern_of q"
    by (auto simp: patterns_of_def)
  have "left_after left (take k (rm_visible rm)) = Some (rm_visible rm ! (k - 1))" if "0 < k"
    using that assms(2) by (auto simp: left_after_def last_conv_nth)
  then have "left_of rm k = left_after left (take k (rm_visible rm)) \<or> left_of rm k = None"
    using assms(4) by (auto simp: left_of_def previous_ok_def left_after_def)
  from must_mask_seen [OF must [unfolded q(2)] assms(3,2) this] assms(1) q(1)
  show False by (auto simp: passes_def)
qed

definition simulates ::
    "remasker \<Rightarrow> bool \<Rightarrow> byte option \<Rightarrow> item list \<Rightarrow> str \<Rightarrow> byte option \<Rightarrow> item list \<Rightarrow> bool" where
  "simulates rm force left xs out left' ys \<longleftrightarrow>
     (\<forall>later w. (force \<longrightarrow> later = []) \<longrightarrow> remasked True (patterns_of rm) left' (ys @ later) w \<longrightarrow>
        remasked True (patterns_of rm) left (xs @ later) (out @ w))"

lemma simulates_trans:
  "simulates rm force left xs out left' ys \<Longrightarrow> simulates rm' force left' ys out' left'' zs \<Longrightarrow>
   patterns_of rm' = patterns_of rm \<Longrightarrow> simulates rm force left xs (out @ out') left'' zs"
  by (simp add: simulates_def)

lemma simulates_prefix:
  assumes "represents rm (us @ ys)" and "previous_ok rm left"
    and "\<forall>k < length (visible_of us). passes rm force k"
  shows "simulates rm force left (us @ ys) (raw_of us) (left_after left (visible_of us)) ys"
  unfolding simulates_def
proof (intro allI impI)
  fix later w
  assume later: "force \<longrightarrow> later = []"
    and rest: "remasked True (patterns_of rm) (left_after left (visible_of us)) (ys @ later) w"
  have "remasked True (patterns_of rm) left (us @ (ys @ later)) (raw_of us @ w)"
  proof (rule remasked_skip [OF _ rest])
    fix k p
    assume k: "k < length (visible_of us)" and p: "p \<in> set (patterns_of rm)"
    have "\<not> must_mask True (left_after left (take k (rm_visible rm)))
        (drop k (rm_visible rm) @ visible_of later) p"
    proof (rule passes_must_mask [OF _ _ _ assms(2) p])
      show "passes rm force k" using assms(3) k by blast
      show "k < length (rm_visible rm)" using k assms(1) by (simp add: represents_def)
      show "visible_of later = []" if force using that later by simp
    qed
    with k assms(1)
    show "\<not> must_mask True (left_after left (take k (visible_of us)))
        (drop k (visible_of us) @ visible_of (ys @ later)) p"
      by (simp add: represents_def)
  qed
  then show "remasked True (patterns_of rm) left ((us @ ys) @ later) (raw_of us @ w)" by simp
qed

lemma discard_prefix_frame [simp]:
  "rm_patterns (discard_prefix rm k raw) = rm_patterns rm"
  "rm_visible (discard_prefix rm k raw) = drop k (rm_visible rm)"
  by (simp_all add: discard_prefix_def remove_visible_prefix_def)

lemma patterns_of_cong: "rm_patterns rm = rm_patterns rm' \<Longrightarrow> patterns_of rm = patterns_of rm'"
  by (simp add: patterns_of_def)

lemma flush_simulates:
  assumes "represents rm xs" and "previous_ok rm left"
    and "\<forall>k < length (rm_visible rm). passes rm force k"
  shows "fst (flush rm) = raw_of xs" "represents (snd (flush rm)) []"
    "rm_patterns (snd (flush rm)) = rm_patterns rm"
    "previous_ok (snd (flush rm)) (left_after left (visible_of xs))"
    "simulates rm force left xs (raw_of xs) (left_after left (visible_of xs)) []"
  using assms simulates_prefix [of rm xs "[]" left force]
  by (auto simp: flush_def represents_def clear_visible_def previous_ok_def left_after_def)

lemma emit_simulates:
  assumes "represents rm xs" and "previous_ok rm left" and "0 < k" and "k < length (rm_visible rm)"
    and "\<forall>j < k. passes rm force j"
  obtains out rm' ys left' where "emit_visible_prefix rm k = Some (out, rm')"
    and "represents rm' ys" and "rm_patterns rm' = rm_patterns rm"
    and "rm_visible rm' = drop k (rm_visible rm)" and "rm_previous rm' = left_of rm k"
    and "previous_ok rm' left'" and "simulates rm force left xs out left' ys"
proof -
  from assms(1,4) have "k < length (visible_of xs)" by (simp add: represents_def)
  from emit_prefix [OF assms(1) this] obtain us b ys where xs: "xs = us @ Vis b # ys"
    and len: "length (visible_of us) = k"
    and emit: "emit_visible_prefix rm k = Some (raw_of us, discard_prefix rm k (length us))"
    by blast
  let ?rm = "discard_prefix rm k (length us)"
  have rep: "represents rm (us @ Vis b # ys)" using assms(1) xs by simp
  have "previous_ok ?rm (left_after left (visible_of us))"
    "rm_previous ?rm = left_of rm k"
    using discard_previous [OF rep, of "length us"] len assms(1,3) xs
    by (auto simp: previous_ok_def left_after_def left_of_def represents_def last_conv_nth nth_append)
  moreover have "simulates rm force left xs (raw_of us) (left_after left (visible_of us)) (Vis b # ys)"
    unfolding xs using rep assms(2) assms(5) len by (intro simulates_prefix) simp_all
  moreover have "represents ?rm (Vis b # ys)"
    using represents_discard [OF rep] len by simp
  ultimately show thesis
    using emit by (intro that) simp_all
qed

lemma replace_simulates:
  assumes "represents rm xs" and "previous_ok rm left"
    and "candidate_ok rm force (Full 0 end i)" and "pt_value (rm_patterns rm ! i) \<noteq> []"
  obtains rm' ys left' where "rm' = discard_prefix rm end (rm_ends rm ! (end - 1))"
    and "0 < end" and "end - 1 < length (rm_ends rm)"
    and "represents rm' ys" and "previous_ok rm' left'"
    and "simulates rm force left xs (pt_placeholder (rm_patterns rm ! i)) left' ys"
proof -
  let ?p = "rm_patterns rm ! i" and ?rm = "discard_prefix rm end (rm_ends rm ! (end - 1))"
  let ?v = "pt_value ?p"
  from assms(3) have i: "i < length (rm_patterns rm)" and e: "end = length ?v"
    and here: "prefix ?v (rm_visible rm)"
    and most: "\<forall>p \<in> set (rm_patterns rm). full_at rm force 0 p \<or> waits_at rm force 0 p \<longrightarrow>
      length (pt_value p) \<le> length ?v"
    and some: "0 < length (rm_visible rm)"
    by (auto simp: candidate_ok_def full_at_def)
  from assms(4) e have pos: "0 < end" by simp
  have le: "end \<le> length (rm_visible rm)" using here e by (simp add: prefix_length_le)
  with pos have less: "end - 1 < length (visible_of xs)"
    using assms(1) by (simp add: represents_def)
  from split_at_visible [OF less, of 0] obtain us b ys where xs: "xs = us @ Vis b # ys"
    and len: "length (visible_of us) = end - 1" and at: "vis_starts 0 xs ! (end - 1) = length us"
    by auto
  let ?zs = "us @ [Vis b]"
  have ends: "rm_ends rm ! (end - 1) = length ?zs"
    using assms(1) at less by (simp add: represents_def)
  have rep: "represents rm (?zs @ ys)" using assms(1) xs by simp
  have vis: "visible_of ?zs = ?v"
  proof -
    have "visible_of ?zs = take end (rm_visible rm)"
      using rep len pos by (simp add: represents_def)
    also have "\<dots> = ?v" using here e by (auto simp: prefix_def)
    finally show ?thesis .
  qed
  then have spells: "spells ?zs ?v" by (simp add: spells_def)
  have len2: "length (visible_of ?zs) = end" using vis e by simp
  have "simulates rm force left xs (pt_placeholder ?p) (Some (last ?v)) ys"
    unfolding simulates_def
  proof (intro allI impI)
    fix later w
    assume later: "force \<longrightarrow> later = []"
      and rest: "remasked True (patterns_of rm) (Some (last ?v)) (ys @ later) w"
    have "remasked True (patterns_of rm) left (?zs @ (ys @ later)) (pt_placeholder ?p @ w)"
    proof (rule remasked_replace [OF _ spells _ rest])
      show "(?v, pt_placeholder ?p, pt_boundaries ?p) \<in> set (patterns_of rm)"
        using i by (auto simp: patterns_of_def pattern_of_def)
      show "\<forall>p \<in> set (patterns_of rm). must_mask True left (?v @ visible_of (ys @ later)) p \<longrightarrow>
          length (fst p) \<le> length ?v"
      proof (intro ballI impI)
        fix p
        assume "p \<in> set (patterns_of rm)" and must: "must_mask True left (?v @ visible_of (ys @ later)) p"
        then obtain q where q: "q \<in> set (rm_patterns rm)" "p = pattern_of q"
          by (auto simp: patterns_of_def)
        have eq: "?v @ visible_of (ys @ later) = drop 0 (rm_visible rm) @ visible_of later"
          using rep vis by (simp add: represents_def)
        have "must_mask True left (drop 0 (rm_visible rm) @ visible_of later) (pattern_of q)"
          using must unfolding q(2) eq .
        then have "full_at rm force 0 q \<or> waits_at rm force 0 q"
          by (rule must_mask_seen)
            (use later some assms(2) in \<open>auto simp: left_of_def previous_ok_def\<close>)
        with most q show "length (fst p) \<le> length ?v" by (auto simp: pattern_of_def)
      qed
    qed
    then show "remasked True (patterns_of rm) left (xs @ later) (pt_placeholder ?p @ w)"
      by (simp add: xs)
  qed
  moreover have "represents ?rm ys"
    unfolding ends using represents_discard [OF rep] len2 by simp
  moreover have "previous_ok ?rm (Some (last ?v))"
    unfolding ends using discard_previous [OF rep, of "length ?zs"] assms(4)
    unfolding vis e by (simp add: previous_ok_def left_after_def)
  ultimately show thesis
    using that [of ?rm ys "Some (last ?v)"] pos less assms(1) by (simp add: represents_def)
qed


text \<open>A drained re-masker holds nothing, or waits for more text at its first visible byte.\<close>

definition settled :: "remasker \<Rightarrow> bool \<Rightarrow> bool" where
  "settled rm force \<longleftrightarrow> rm_raw rm = [] \<and> rm_visible rm = [] \<or>
     \<not> force \<and> 0 < length (rm_visible rm) \<and> (\<exists>p \<in> set (rm_patterns rm). waits_at rm force 0 p)"

definition drained ::
    "remasker \<Rightarrow> bool \<Rightarrow> byte option \<Rightarrow> item list \<Rightarrow> (str \<times> remasker) option \<Rightarrow> bool" where
  "drained rm force left xs result \<longleftrightarrow> (\<exists>out rm' ys left'.
     result = Some (out, rm') \<and> represents rm' ys \<and> previous_ok rm' left' \<and>
     rm_patterns rm' = rm_patterns rm \<and> settled rm' force \<and>
     simulates rm force left xs out left' ys)"

definition usable :: "remasker \<Rightarrow> bool" where
  "usable rm \<longleftrightarrow> (\<forall>p \<in> set (rm_patterns rm). pt_value p \<noteq> [])"

lemma usable_nth: "usable rm \<Longrightarrow> i < length (rm_patterns rm) \<Longrightarrow> pt_value (rm_patterns rm ! i) \<noteq> []"
  by (simp add: usable_def)

lemma drained_flush:
  assumes "represents rm xs" and "previous_ok rm left"
    and "\<forall>k < length (rm_visible rm). passes rm force k"
  shows "drained rm force left xs (Some (flush rm))"
  using flush_simulates [OF assms]
  unfolding drained_def settled_def
  by (intro exI [of _ "raw_of xs"] exI [of _ "snd (flush rm)"] exI [of _ "[]"]
      exI [of _ "left_after left (visible_of xs)"])
    (auto simp: represents_def prod_eq_iff)

lemma drained_trans:
  assumes "simulates rm force left xs out left' ys" and "rm_patterns rm' = rm_patterns rm"
    and "drained rm' force left' ys result"
  shows "drained rm force left xs (prepend out result)"
proof -
  from assms(3) obtain out' rm'' zs left'' where *: "result = Some (out', rm'')"
    "represents rm'' zs" "previous_ok rm'' left''" "rm_patterns rm'' = rm_patterns rm'"
    "settled rm'' force" "simulates rm' force left' ys out' left'' zs"
    by (auto simp: drained_def)
  from simulates_trans [OF assms(1) *(6)] assms(2)
  have "simulates rm force left xs (out @ out') left'' zs"
    by (simp add: patterns_of_def)
  with * assms(2) show ?thesis
    by (auto simp: drained_def prepend_def)
qed

lemma simulates_refl: "simulates rm force left xs [] left xs"
  by (simp add: simulates_def)

lemma drain_loop_drained:
  assumes "represents rm xs" and "previous_ok rm left" and "usable rm"
    and "length (rm_visible rm) < fuel"
  shows "drained rm force left xs (drain_loop fuel rm force)"
  using assms
proof (induction fuel arbitrary: rm xs left)
  case (Suc fuel)
  show ?case
  proof (cases "first_candidate rm force")
    case None
    with first_candidate_spec [of rm force] Suc.prems show ?thesis
      by (simp add: drained_flush)
  next
    case (Some c)
    with first_candidate_spec [of rm force] have ok: "candidate_ok rm force c" by simp
    show ?thesis
    proof (cases c)
      case (Partial k)
      with ok obtain p where p: "p \<in> set (rm_patterns rm)" "waits_at rm force k p"
        and k: "k < length (rm_visible rm)" "\<forall>j < k. passes rm force j"
        by (auto simp: candidate_ok_def)
      show ?thesis
      proof (cases "0 < k")
        case True
        from emit_simulates [OF Suc.prems(1,2) True k] obtain out rm' ys left'
          where *: "emit_visible_prefix rm k = Some (out, rm')" "represents rm' ys"
            "rm_patterns rm' = rm_patterns rm" "rm_visible rm' = drop k (rm_visible rm)"
            "rm_previous rm' = left_of rm k" "previous_ok rm' left'"
            "simulates rm force left xs out left' ys"
          by blast
        have "waits_at rm' force 0 p"
          using p(2) *(4,5) k(1)
          by (auto simp: waits_at_def left_of_def [of _ 0] split: if_split_asm)
        moreover have "p \<in> set (rm_patterns rm')" "0 < length (rm_visible rm')" "\<not> force"
          using * p k(1) by (auto simp: waits_at_def)
        ultimately have "settled rm' force"
          unfolding settled_def by blast
        with * show ?thesis
          by (auto simp: Some Partial True drained_def)
      next
        case False
        moreover have "\<not> force" using p(2) by (simp add: waits_at_def)
        ultimately have "settled rm force" using p k(1) unfolding settled_def by auto
        with Suc.prems False show ?thesis
          by (auto simp: Some Partial drained_def intro!: simulates_refl)
      qed
    next
      case (Full k e i)
      show ?thesis
      proof (cases "0 < k")
        case True
        from ok Full have k: "k < length (rm_visible rm)" "\<forall>j < k. passes rm force j"
          by (auto simp: candidate_ok_def)
        from emit_simulates [OF Suc.prems(1,2) True k] obtain out rm' ys left'
          where *: "emit_visible_prefix rm k = Some (out, rm')" "represents rm' ys"
            "rm_patterns rm' = rm_patterns rm" "rm_visible rm' = drop k (rm_visible rm)"
            "rm_previous rm' = left_of rm k"
            "previous_ok rm' left'" "simulates rm force left xs out left' ys"
          by blast
        with Suc.prems True k(1) have "drained rm' force left' ys (drain_loop fuel rm' force)"
          by (intro Suc.IH) (auto simp: usable_def)
        from drained_trans [OF *(7,3) this] show ?thesis
          by (simp add: Some Full True *(1))
      next
        case False
        with Full ok have full: "candidate_ok rm force (Full 0 e i)" by simp
        then have i: "i < length (rm_patterns rm)" and some: "rm_visible rm \<noteq> []"
          by (auto simp: candidate_ok_def)
        from replace_simulates [OF Suc.prems(1,2) full usable_nth [OF Suc.prems(3) i]]
        obtain rm' ys left' where *: "rm' = discard_prefix rm e (rm_ends rm ! (e - 1))" "0 < e"
          "e - 1 < length (rm_ends rm)" "represents rm' ys" "previous_ok rm' left'"
          "simulates rm force left xs (pt_placeholder (rm_patterns rm ! i)) left' ys"
          by blast
        moreover have "length (rm_visible rm) - e < fuel"
          using some *(2) Suc.prems(4) by (cases "rm_visible rm") auto
        ultimately have "drained rm' force left' ys (drain_loop fuel rm' force)"
          using Suc.prems by (intro Suc.IH) (auto simp: usable_def)
        from drained_trans [OF *(6) _ this] False i * show ?thesis
          by (simp add: Some Full)
      qed
    qed
  qed
qed simp

lemma drain_ready_drained:
  assumes "represents rm xs" and "previous_ok rm left" and "usable rm"
  shows "drained rm force left xs (drain_ready rm force)"
proof (cases "rm_patterns rm = []")
  case True
  then have "\<forall>k < length (rm_visible rm). passes rm force k" by (simp add: passes_def)
  from drained_flush [OF assms(1,2) this] True show ?thesis by (simp add: drain_ready_def)
next
  case False
  with drain_loop_drained [OF assms, of "Suc (length (rm_visible rm))" force] show ?thesis
    by (simp add: drain_ready_def del: drain_loop.simps)
qed


section \<open>Events\<close>

text \<open>
  A run: texts, control sequences and boundary controls in the order they arrive, then
  \<open>finish\<close>. The output is what the calls return, in order.
\<close>

datatype stream_event = Text str | Control str | Boundary str

fun stream_step :: "remasker \<Rightarrow> stream_event \<Rightarrow> (str \<times> remasker) option" where
  "stream_step rm (Text s) = push_text rm s"
| "stream_step rm (Control s) = push_control rm s"
| "stream_step rm (Boundary s) = push_boundary_control rm s"

fun stream_run :: "remasker \<Rightarrow> stream_event list \<Rightarrow> (str \<times> remasker) option" where
  "stream_run rm [] = finish rm"
| "stream_run rm (e # es) =
     (case stream_step rm e of
        Some (out, rm') \<Rightarrow> prepend out (stream_run rm' es)
      | None \<Rightarrow> None)"

text \<open>
  The specification of a run: the texts and controls between two boundaries form one stream,
  whatever the chunks were, and each such stream is re-masked as a whole.
\<close>

fun stream_spec ::
    "remask_pattern list \<Rightarrow> byte option \<Rightarrow> item list \<Rightarrow> stream_event list \<Rightarrow> str \<Rightarrow> bool" where
  "stream_spec ps left xs [] out = remasked True ps left xs out"
| "stream_spec ps left xs (Text s # es) out = stream_spec ps left (xs @ map Vis s) es out"
| "stream_spec ps left xs (Control s # es) out = stream_spec ps left (xs @ map Ctl s) es out"
| "stream_spec ps left xs (Boundary s # es) out =
     (\<exists>o1 o2. out = o1 @ s @ o2 \<and> remasked True ps left xs o1 \<and> stream_spec ps None [] es o2)"

lemma stream_spec_simulated:
  assumes "simulates rm False left xs out left' ys"
    and "stream_spec (patterns_of rm) left' (ys @ later) es w"
  shows "stream_spec (patterns_of rm) left (xs @ later) es (out @ w)"
  using assms(2)
proof (induction es arbitrary: later w)
  case Nil
  with assms(1) show ?case by (simp add: simulates_def)
next
  case (Cons e es)
  show ?case
  proof (cases e)
    case (Text s)
    with Cons.IH [of "later @ map Vis s" w] Cons.prems show ?thesis by simp
  next
    case (Control s)
    with Cons.IH [of "later @ map Ctl s" w] Cons.prems show ?thesis by simp
  next
    case (Boundary s)
    with Cons.prems obtain o1 o2 where "w = o1 @ s @ o2"
      "remasked True (patterns_of rm) left' (ys @ later) o1"
      "stream_spec (patterns_of rm) None [] es o2"
      by auto
    with assms(1) show ?thesis
      unfolding Boundary stream_spec.simps simulates_def
      by (intro exI [of _ "out @ o1"] exI [of _ o2]) simp
  qed
qed

lemma prepend_Some: "prepend out (Some (w, x)) = Some (out @ w, x)"
  by (simp add: prepend_def)

lemma stream_run_spec:
  assumes "represents rm xs" and "previous_ok rm left" and "usable rm"
  shows "\<exists>out rm'. stream_run rm es = Some (out, rm') \<and>
    stream_spec (patterns_of rm) left xs es out \<and>
    rm_patterns rm' = rm_patterns rm \<and> rm_raw rm' = [] \<and> rm_visible rm' = []"
  using assms
proof (induction es arbitrary: rm xs left)
  case Nil
  from drain_ready_drained [OF Nil.prems, of True] obtain out rm' ys left'
    where *: "drain_ready rm True = Some (out, rm')" "represents rm' ys"
      "rm_patterns rm' = rm_patterns rm" "settled rm' True" "simulates rm True left xs out left' ys"
    by (auto simp: drained_def)
  then have "ys = []" by (auto simp: settled_def represents_def)
  with * have "remasked True (patterns_of rm) left xs out"
    using remasked_end [of True "patterns_of rm" left']
    unfolding simulates_def by force
  with * show ?case by (auto simp: finish_def settled_def)
next
  case (Cons e es)
  have go: ?case
    if drain: "drained rm0 False left ys (stream_step rm e)" and same: "rm_patterns rm0 = rm_patterns rm"
      and spec: "\<And>w. stream_spec (patterns_of rm) left ys es w \<Longrightarrow>
          stream_spec (patterns_of rm) left xs (e # es) w" for rm0 ys
  proof -
    from drain obtain out rm' zs left' where *: "stream_step rm e = Some (out, rm')"
      "represents rm' zs" "previous_ok rm' left'" "rm_patterns rm' = rm_patterns rm"
      "simulates rm0 False left ys out left' zs"
      using same by (auto simp: drained_def)
    have ps: "patterns_of rm0 = patterns_of rm" "patterns_of rm' = patterns_of rm"
      using *(4) same by (simp_all add: patterns_of_def)
    from Cons.IH [OF *(2,3)] *(4) Cons.prems(3) obtain w rm'' where
      "stream_run rm' es = Some (w, rm'')" "stream_spec (patterns_of rm) left' zs es w"
      "rm_patterns rm'' = rm_patterns rm" "rm_raw rm'' = []" "rm_visible rm'' = []"
      by (auto simp: usable_def ps)
    with stream_spec_simulated [OF *(5), of "[]" es w] *(1) show ?thesis
      by (auto simp: ps prepend_Some intro: spec)
  qed
  show ?case
  proof (cases e)
    case (Text s)
    have "represents (append_visible rm s) (xs @ map Vis s)"
      by (rule represents_append_visible) (rule Cons.prems)
    with Cons.prems(2,3) have "drained (append_visible rm s) False left (xs @ map Vis s) (push_text rm s)"
      unfolding push_text_def by (intro drain_ready_drained) (auto simp: previous_ok_def usable_def)
    with Text show ?thesis
      by (intro go [of "append_visible rm s" "xs @ map Vis s"]) auto
  next
    case (Control s)
    have "drained (rm\<lparr>rm_raw := rm_raw rm @ s\<rparr>) False left (xs @ map Ctl s) (push_control rm s)"
      unfolding push_control_def using Cons.prems
      by (intro drain_ready_drained represents_append_control) (auto simp: previous_ok_def usable_def)
    with Control show ?thesis
      by (intro go [of "rm\<lparr>rm_raw := rm_raw rm @ s\<rparr>" "xs @ map Ctl s"]) auto
  next
    case (Boundary s)
    from drain_ready_drained [OF Cons.prems, of True] obtain out rm' ys left'
      where *: "drain_ready rm True = Some (out, rm')" "represents rm' ys"
        "rm_patterns rm' = rm_patterns rm" "settled rm' True" "simulates rm True left xs out left' ys"
      by (auto simp: drained_def)
    then have "ys = []" by (auto simp: settled_def represents_def)
    with * have first: "remasked True (patterns_of rm) left xs out"
      using remasked_end [of True "patterns_of rm" left']
      unfolding simulates_def by force
    have "represents (rm'\<lparr>rm_previous := None\<rparr>) []" "previous_ok (rm'\<lparr>rm_previous := None\<rparr>) None"
      "usable (rm'\<lparr>rm_previous := None\<rparr>)"
      using * \<open>ys = []\<close> Cons.prems(3) by (simp_all add: represents_def previous_ok_def usable_def)
    from Cons.IH [OF this] obtain w rm'' where
      "stream_run (rm'\<lparr>rm_previous := None\<rparr>) es = Some (w, rm'')"
      "stream_spec (patterns_of rm) None [] es w"
      "rm_patterns rm'' = rm_patterns rm" "rm_raw rm'' = []" "rm_visible rm'' = []"
      using *(3) by (auto simp: patterns_of_def)
    with first *(1) Boundary show ?thesis
      by (auto simp: push_boundary_control_def prepend_Some)
  qed
qed



section \<open>Merged patterns\<close>

lemma dedup_patterns_set: "set (dedup_patterns ps) \<subseteq> set ps"
  by (induction ps rule: dedup_patterns.induct) auto

lemma dedup_patterns_distinct:
  "sorted (map pt_value ps) \<Longrightarrow> distinct (map pt_value (dedup_patterns ps))"
proof (induction ps rule: dedup_patterns.induct)
  case (1 p q ps)
  show ?case
  proof (cases "pt_value p = pt_value q")
    case False
    with 1 have "pt_value p \<notin> pt_value ` set (q # ps)" by (auto dest: order.antisym)
    moreover have "pt_value ` set (dedup_patterns (q # ps)) \<subseteq> pt_value ` set (q # ps)"
      using dedup_patterns_set by (rule image_mono)
    ultimately show ?thesis using 1 False by auto
  qed (use 1 in auto)
qed auto

lemma dedup_patterns_first:
  "i < length ps \<Longrightarrow> (\<forall>j < i. pt_value (ps ! j) \<noteq> pt_value (ps ! i)) \<Longrightarrow> ps ! i \<in> set (dedup_patterns ps)"
proof (induction ps arbitrary: i rule: dedup_patterns.induct)
  case (1 p q ps)
  show ?case
  proof (cases "pt_value p = pt_value q")
    case True
    show ?thesis
    proof (cases i)
      case 0
      with 1(1) [OF True, of 0] True show ?thesis by simp
    next
      case (Suc j)
      then have "j \<noteq> 0" using "1.prems"(2) [rule_format, of 0] True by (cases j) auto
      then obtain l where l: "j = Suc l" by (cases j) auto
      have "\<forall>k < Suc l. pt_value ((p # ps) ! k) \<noteq> pt_value ((p # ps) ! Suc l)"
      proof (intro allI impI)
        fix k
        assume "k < Suc l"
        with "1.prems"(2) [rule_format, of "if k = 0 then 0 else Suc k"] Suc l
        show "pt_value ((p # ps) ! k) \<noteq> pt_value ((p # ps) ! Suc l)"
          by (cases k) auto
      qed
      with 1(1) [OF True, of "Suc l"] "1.prems"(1) Suc l True show ?thesis by simp
    qed
  next
    case False
    show ?thesis
    proof (cases i)
      case (Suc j)
      have "\<forall>k < j. pt_value ((q # ps) ! k) \<noteq> pt_value ((q # ps) ! j)"
        using "1.prems"(2) Suc by auto
      with 1(2) [OF False, of j] "1.prems"(1) Suc False show ?thesis by simp
    qed (use False in simp)
  qed
qed auto

lemma sorted_pattern_key: "sorted (map pt_value (sort_key pattern_key ps))"
proof -
  have "sorted (map pattern_key (sort_key pattern_key ps))" by simp
  moreover have "pattern_key = (\<lambda>p. (pt_value p, snd (pattern_key p)))"
    by (simp add: fun_eq_iff pattern_key_def)
  ultimately have "sorted (map (\<lambda>p. (pt_value p, snd (pattern_key p))) (sort_key pattern_key ps))"
    by metis
  then show ?thesis by (rule sorted_map_fst_key)
qed

lemma merged_patterns:
  "rm_patterns (merge_recovery_inner cr b64 rm rec views) = dedup_patterns (sort_key pattern_key
     (rm_patterns rm @ concat (map (\<lambda>ph. case reveal cr rec ph of
        Some v \<Rightarrow> incoming_patterns b64 views v ph | None \<Rightarrow> []) (placeholders rec))))"
  by (simp add: merge_recovery_inner_def)

lemma merged_single_valued: "single_valued (patterns_of (merge_recovery_inner cr b64 rm rec views))"
proof -
  have "distinct (map pt_value (rm_patterns (merge_recovery_inner cr b64 rm rec views)))"
    unfolding merged_patterns by (rule dedup_patterns_distinct [OF sorted_pattern_key])
  then show ?thesis
    by (auto simp: single_valued_def patterns_of_def pattern_of_def distinct_map inj_on_def)
qed

lemma incoming_values:
  assumes "p \<in> set (incoming_patterns b64 views v ph)" "ph \<noteq> []"
  shows "pt_value p \<noteq> []"
proof -
  consider "p = identity_pattern ph" | vh where "view_handle ph = Some vh" "p = identity_pattern vh"
    | "raw_pattern v ph = Some p" | "view_pattern b64 v ph = Some p"
    using assms(1) by (auto simp: incoming_patterns_def set_of_option split: if_split_asm)
  then show ?thesis
    using assms(2)
    by cases (auto simp: identity_pattern_def view_handle_def raw_pattern_def view_pattern_def
        is_remaskable_not_Nil split: if_split_asm Option.bind_split_asm)
qed

lemma merged_usable:
  assumes "usable rm" and "[] \<notin> set (placeholders rec)"
  shows "usable (merge_recovery_inner cr b64 rm rec views)"
  unfolding usable_def merged_patterns
proof
  fix p
  assume "p \<in> set (dedup_patterns (sort_key pattern_key
     (rm_patterns rm @ concat (map (\<lambda>ph. case reveal cr rec ph of
        Some v \<Rightarrow> incoming_patterns b64 views v ph | None \<Rightarrow> []) (placeholders rec)))))"
  then have "p \<in> set (rm_patterns rm) \<or> (\<exists>ph \<in> set (placeholders rec). \<exists>v.
      p \<in> set (incoming_patterns b64 views v ph))"
    using dedup_patterns_set by (fastforce split: option.splits)
  with assms show "pt_value p \<noteq> []"
    by (metis incoming_values usable_def)
qed

lemma merged_frame [simp]:
  "rm_raw (merge_recovery_inner cr b64 rm rec views) = rm_raw rm"
  "rm_visible (merge_recovery_inner cr b64 rm rec views) = rm_visible rm"
  "rm_starts (merge_recovery_inner cr b64 rm rec views) = rm_starts rm"
  "rm_ends (merge_recovery_inner cr b64 rm rec views) = rm_ends rm"
  "rm_previous (merge_recovery_inner cr b64 rm rec views) = rm_previous rm"
  by (simp_all add: merge_recovery_inner_def)

lemma represents_merged:
  "represents rm xs \<Longrightarrow> represents (merge_recovery_inner cr b64 rm rec views) xs"
  by (simp add: represents_def)


section \<open>Reachable states\<close>

text \<open>
  The states a re-masker can be in: the empty one, then any sequence of merges (of maps without
  an empty handle) and events.
\<close>

inductive reachable :: "crypto \<Rightarrow> base64_encoder \<Rightarrow> remasker \<Rightarrow> bool"
  for cr :: crypto and b64 :: base64_encoder where
  reachable_empty: "reachable cr b64 empty_remasker"
| reachable_merge:
    "reachable cr b64 rm \<Longrightarrow> [] \<notin> set (placeholders rec) \<Longrightarrow>
     reachable cr b64 (merge_recovery_inner cr b64 rm rec views)"
| reachable_step:
    "reachable cr b64 rm \<Longrightarrow> stream_step rm e = Some (out, rm') \<Longrightarrow> reachable cr b64 rm'"

lemma usable_cong: "rm_patterns rm = rm_patterns rm' \<Longrightarrow> usable rm = usable rm'"
  by (simp add: usable_def)

lemma previous_ok_self: "previous_ok rm (rm_previous rm)"
  by (simp add: previous_ok_def)

lemma stream_step_drained:
  assumes "represents rm xs" and "usable rm"
  shows "\<exists>out rm' ys. stream_step rm e = Some (out, rm') \<and> represents rm' ys \<and>
    rm_patterns rm' = rm_patterns rm \<and>
    settled rm' (case e of Boundary s \<Rightarrow> True | _ \<Rightarrow> False)"
proof (cases e)
  case (Text s)
  have "usable (append_visible rm s)" "previous_ok (append_visible rm s) (rm_previous rm)"
    using assms(2) by (simp_all add: usable_def previous_ok_def)
  from drain_ready_drained [where force = False, OF represents_append_visible [OF assms(1)] this(2,1)]
    Text
  show ?thesis by (auto simp: push_text_def drained_def)
next
  case (Control s)
  have "usable (rm\<lparr>rm_raw := rm_raw rm @ s\<rparr>)" "previous_ok (rm\<lparr>rm_raw := rm_raw rm @ s\<rparr>) (rm_previous rm)"
    using assms(2) by (simp_all add: usable_def previous_ok_def)
  from drain_ready_drained [where force = False, OF represents_append_control [OF assms(1)] this(2,1)]
    Control
  show ?thesis by (auto simp: push_control_def drained_def)
next
  case (Boundary s)
  from drain_ready_drained [OF assms(1) previous_ok_self assms(2), of True] obtain out rm' ys
    where "drain_ready rm True = Some (out, rm')" "represents rm' ys"
      "rm_patterns rm' = rm_patterns rm" "settled rm' True"
    by (auto simp: drained_def)
  with Boundary show ?thesis
    by (auto simp: push_boundary_control_def represents_def settled_def intro!: exI [of _ "[] :: item list"])
qed

lemma reachable_represents: "reachable cr b64 rm \<Longrightarrow> usable rm \<and> (\<exists>xs. represents rm xs)"
proof (induction rule: reachable.induct)
  case reachable_empty
  then show ?case
    using represents_empty by (auto simp: usable_def empty_remasker_def)
next
  case (reachable_merge rm rec views)
  then show ?case by (auto intro: merged_usable represents_merged)
next
  case (reachable_step rm e out rm')
  then obtain xs where xs: "represents rm xs" and "usable rm" by blast
  from stream_step_drained [OF this, of e] reachable_step(2) obtain ys
    where "represents rm' ys" "rm_patterns rm' = rm_patterns rm" by auto
  with \<open>usable rm\<close> usable_cong show ?case by blast
qed


section \<open>The stream and the whole text\<close>

text \<open>The patterns of \<open>remask_view_text\<close> as stream patterns.\<close>

definition pattern_of_pair :: "str \<times> str \<times> nat \<Rightarrow> stream_pattern" where
  "pattern_of_pair = (\<lambda>(v, ph, priority).
     \<lparr>pt_value = v, pt_placeholder = ph,
      pt_boundaries = (priority = 0 \<and> requires_token_boundaries v), pt_priority = priority\<rparr>)"

definition view_pairs :: "crypto \<Rightarrow> base64_encoder \<Rightarrow> recovery \<Rightarrow> (str \<times> str \<times> nat) list" where
  "view_pairs cr b64 rec =
     filter (\<lambda>(v, ph, priority). v \<noteq> []) (concat (map (view_pairs_of cr b64 rec) (placeholders rec)))"

text \<open>
  A map the two remaskers agree on: its handles are non-empty strings whose values can be
  revealed and, where they are re-masked, need no token boundaries.
\<close>

definition plain_map :: "crypto \<Rightarrow> recovery \<Rightarrow> bool" where
  "plain_map cr rec \<longleftrightarrow> (\<forall>ph \<in> set (placeholders rec). ph \<noteq> [] \<and> utf8_valid ph \<and>
     (\<exists>v. reveal cr rec ph = Some v \<and>
        (is_remaskable_echo v ph \<longrightarrow> \<not> requires_token_boundaries v)))"

lemma incoming_of_pairs:
  assumes "reveal cr rec ph = Some v" and "ph \<noteq> []"
  shows "incoming_patterns b64 True v ph =
    map pattern_of_pair (filter (\<lambda>(v, ph, priority). v \<noteq> []) (view_pairs_of cr b64 rec ph))"
proof -
  have vh: "vh \<noteq> []" if "view_handle ph = Some vh" for vh
    using that by (auto simp: view_handle_def)
  have "of_option (raw_pattern v ph) = map pattern_of_pair (filter (\<lambda>(v, ph, priority). v \<noteq> [])
      (if is_remaskable_echo v ph then [(v, ph, 0)] else []))"
    by (auto simp: raw_pattern_def pattern_of_pair_def is_remaskable_not_Nil)
  moreover have "of_option (view_pattern b64 v ph) = map pattern_of_pair (filter (\<lambda>(v, ph, priority). v \<noteq> [])
      (case (view_rendered b64 v ''base64'', strip_suffix ''>>'' ph) of
         (Some rendered, Some base) \<Rightarrow>
           if exact_handle (base @ ''>>'') then [(rendered, base @ ''|'' @ ''base64'' @ ''>>'', 1)] else []
       | _ \<Rightarrow> []))"
    by (cases "strip_suffix ''>>'' ph"; cases "view_rendered b64 v ''base64''")
      (simp_all add: view_pattern_def pattern_of_pair_def)
  moreover have "of_option (map_option identity_pattern (view_handle ph)) =
      map pattern_of_pair (filter (\<lambda>(v, ph, priority). v \<noteq> [])
        (case view_handle ph of Some vh \<Rightarrow> [(vh, vh, 2)] | None \<Rightarrow> []))"
    using vh by (cases "view_handle ph") (auto simp: identity_pattern_def pattern_of_pair_def)
  moreover have "identity_pattern ph = pattern_of_pair (ph, ph, 2)"
    by (simp add: identity_pattern_def pattern_of_pair_def)
  ultimately show ?thesis
    using assms by (simp add: incoming_patterns_def view_pairs_of_def)
qed

lemma view_pairs_placeholder_valid:
  assumes "plain_map cr rec" and "(v, ph, priority) \<in> set (view_pairs cr b64 rec)" and "priority = 0"
  shows "utf8_valid ph"
  using assms
  by (auto simp: view_pairs_def view_pairs_of_def plain_map_def split: option.splits if_splits)

lemma pattern_key_pair:
  assumes "priority = 0 \<Longrightarrow> utf8_valid ph"
  shows "pattern_key (pattern_of_pair (v, ph, priority)) =
    (v, - int priority, if priority = 0 then - int (remask_placeholder_priority ph) else 0, ph)"
  using assms by (simp add: pattern_key_def pattern_of_pair_def remask_placeholder_priority_bytes_def)

lemma incoming_of_map:
  assumes "plain_map cr rec"
  shows "concat (map (\<lambda>ph. case reveal cr rec ph of
      Some v \<Rightarrow> incoming_patterns b64 True v ph | None \<Rightarrow> []) (placeholders rec)) =
    map pattern_of_pair (view_pairs cr b64 rec)"
proof -
  have "map (\<lambda>ph. case reveal cr rec ph of
      Some v \<Rightarrow> incoming_patterns b64 True v ph | None \<Rightarrow> []) (placeholders rec) =
    map (\<lambda>ph. map pattern_of_pair (filter (\<lambda>(v, ph, priority). v \<noteq> []) (view_pairs_of cr b64 rec ph)))
      (placeholders rec)"
    using assms incoming_of_pairs [of cr rec] by (fastforce simp: plain_map_def)
  then have "concat (map (\<lambda>ph. case reveal cr rec ph of
      Some v \<Rightarrow> incoming_patterns b64 True v ph | None \<Rightarrow> []) (placeholders rec)) =
    concat (map (\<lambda>ph. map pattern_of_pair (filter (\<lambda>(v, ph, priority). v \<noteq> []) (view_pairs_of cr b64 rec ph)))
      (placeholders rec))"
    by (rule arg_cong)
  then show ?thesis
    by (simp add: view_pairs_def filter_concat map_concat comp_def del: list.map_cong)
qed

lemma sorted_patterns_of_map:
  assumes "plain_map cr rec"
  shows "sort_key pattern_key (map pattern_of_pair (view_pairs cr b64 rec)) =
    map pattern_of_pair (sort_view_pairs (view_pairs cr b64 rec))"
proof (rule sort_key_inj_key_eq)
  let ?pairs = "view_pairs cr b64 rec"
  let ?key = "\<lambda>(v, ph, priority). (v, - int priority,
       if priority = 0 then - int (remask_placeholder_priority ph) else 0, ph)"
  show "mset (map pattern_of_pair ?pairs) = mset (map pattern_of_pair (sort_view_pairs ?pairs))"
    by (simp add: sort_view_pairs_def)
  show "inj_on pattern_key (set (map pattern_of_pair ?pairs))"
    by (auto simp: inj_on_def pattern_key_def pattern_of_pair_def)
  have "map (pattern_key \<circ> pattern_of_pair) (sort_view_pairs ?pairs) = map ?key (sort_view_pairs ?pairs)"
  proof (rule map_cong [OF refl])
    fix x
    assume "x \<in> set (sort_view_pairs ?pairs)"
    then have "x \<in> set ?pairs" by (simp add: sort_view_pairs_def)
    moreover obtain v ph priority where "x = (v, ph, priority)" by (cases x rule: prod_cases3)
    ultimately show "(pattern_key \<circ> pattern_of_pair) x = ?key x"
      using view_pairs_placeholder_valid [OF assms, of v ph priority b64]
      by (cases "priority = 0") (simp_all add: pattern_key_pair)
  qed
  moreover have "sorted (map ?key (sort_view_pairs ?pairs))"
    by (simp add: sort_view_pairs_def)
  ultimately show "sorted (map pattern_key (map pattern_of_pair (sort_view_pairs ?pairs)))"
    by (simp only: list.map_comp)
qed

lemma view_pairs_unguarded:
  assumes "plain_map cr rec" and "(v, ph, priority) \<in> set (view_pairs cr b64 rec)"
  shows "\<not> (priority = 0 \<and> requires_token_boundaries v)"
  using assms
  by (auto simp: view_pairs_def view_pairs_of_def plain_map_def split: option.splits if_splits)

lemma strip_suffix_valid: "utf8_valid (base @ ''>>'') \<Longrightarrow> utf8_valid base"
  using utf8_boundary_after_ascii(1) [of "base @ ''>>''" "length base"]
    utf8_valid_split(1) [of "base @ ''>>''" "length base"]
  by (simp add: is_ascii_def)

lemma view_pairs_valid:
  assumes "plain_map cr rec" and "\<And>v. utf8_valid (b64_encode b64 v)"
    and "(v, ph, priority) \<in> set (view_pairs cr b64 rec)"
  shows "utf8_valid v \<and> v \<noteq> []"
proof -
  from assms(3) obtain h where h: "h \<in> set (placeholders rec)" "(v, ph, priority) \<in> set (view_pairs_of cr b64 rec h)"
    and "v \<noteq> []"
    by (auto simp: view_pairs_def)
  from h(1) assms(1) obtain w where w: "utf8_valid h" "reveal cr rec h = Some w"
    by (auto simp: plain_map_def)
  have vh: "utf8_valid vh" if handle: "view_handle h = Some vh" for vh
  proof -
    from handle obtain base where base: "strip_suffix ''>>'' h = Some base" "vh = base @ ''|base64>>''"
      by (auto simp: view_handle_def)
    with w(1) have "utf8_valid base" by (metis strip_suffix_Some strip_suffix_valid)
    with base show ?thesis by (simp add: utf8_valid_append utf8_valid_ascii is_ascii_def)
  qed
  from h(2) w vh reveal_valid [OF w(2)] assms(2) \<open>v \<noteq> []\<close> show ?thesis
    by (auto simp: view_pairs_of_def view_rendered_def split: option.splits if_splits)
qed


lemma whole_remasked:
  assumes "longest_matcher search_for" and "plain_map cr rec" and "\<And>v. utf8_valid (b64_encode b64 v)"
    and "utf8_valid s"
  shows "\<exists>out. remask_views cr b64 search_for rec s = Some out \<and>
    remasked False (patterns_of (stream_remasker_with_views cr b64 rec)) None (map Vis s) out"
proof -
  let ?pairs = "sort_view_pairs (view_pairs cr b64 rec)"
  let ?qs = "patterns_of (stream_remasker_with_views cr b64 rec)"
  have rm: "rm_patterns (stream_remasker_with_views cr b64 rec) = dedup_patterns (map pattern_of_pair ?pairs)"
    unfolding stream_remasker_with_views_def merge_recovery_with_views_def merged_patterns
      incoming_of_map [OF assms(2)]
    using sorted_patterns_of_map [OF assms(2), of b64] by (simp add: empty_remasker_def)
  let ?ps = "map (\<lambda>(v, ph, priority). (v, ph, priority = 0 \<and> requires_token_boundaries v)) ?pairs"
  have ps: "?ps = map pattern_of (map pattern_of_pair ?pairs)"
    by (auto simp: pattern_of_def pattern_of_pair_def)
  have "patterns_ok ?ps"
  proof -
    have "utf8_valid v \<and> v \<noteq> [] \<and> \<not> (priority = 0 \<and> requires_token_boundaries v)"
      if "(v, ph, priority) \<in> set ?pairs" for v ph priority
      using view_pairs_valid [OF assms(2,3)] view_pairs_unguarded [OF assms(2)] that
      by (simp add: sort_view_pairs_def)
    then show ?thesis by (fastforce simp: patterns_ok_def)
  qed
  moreover have "reportable ?ps ?qs"
    unfolding reportable_def ps patterns_of_def rm
  proof (intro conjI allI impI)
    show "set (map pattern_of (dedup_patterns (map pattern_of_pair ?pairs))) \<subseteq>
        set (map pattern_of (map pattern_of_pair ?pairs))"
      unfolding set_map [of pattern_of] by (intro image_mono dedup_patterns_set)
    fix i
    assume "i < length (map pattern_of (map pattern_of_pair ?pairs))"
      and "\<forall>j < i. fst (map pattern_of (map pattern_of_pair ?pairs) ! j) \<noteq>
        fst (map pattern_of (map pattern_of_pair ?pairs) ! i)"
    then have "map pattern_of_pair ?pairs ! i \<in> set (dedup_patterns (map pattern_of_pair ?pairs))"
      by (intro dedup_patterns_first) (auto simp: pattern_of_def)
    with \<open>i < _\<close> show "map pattern_of (map pattern_of_pair ?pairs) ! i \<in>
        set (map pattern_of (dedup_patterns (map pattern_of_pair ?pairs)))"
      by (metis image_eqI length_map list.set_map nth_map)
  qed
  ultimately have loop: "\<exists>out. remask_loop (Suc (length s)) search_for ?ps s 0 0 = Some out \<and>
      remasked False ?qs None (map Vis s) out"
    using longest_matcher.remask_loop_remasked [OF assms(1), of ?ps ?qs s 0 0 "Suc (length s)"] assms(4)
    by auto
  show ?thesis
  proof (cases "?pairs = []")
    case True
    then have "rm_patterns (stream_remasker_with_views cr b64 rec) = []"
      using rm by (cases ?pairs) simp_all
    then have "remasked False ?qs None (map Vis s) s"
      by (intro remasked_unmatched) (simp add: patterns_of_def)
    with True show ?thesis
      by (simp add: remask_views_def view_pairs_def)
  next
    case False
    with loop show ?thesis
      by (simp add: remask_views_def view_pairs_def Let_def del: remask_loop.simps)
  qed
qed

lemma stream_texts_spec:
  "stream_spec ps left xs (map Text chunks) out \<longleftrightarrow> remasked True ps left (xs @ map Vis (concat chunks)) out"
  by (induction chunks arbitrary: xs) simp_all

lemma plain_map_unguarded:
  assumes "plain_map cr rec"
  shows "unguarded (patterns_of (stream_remasker_with_views cr b64 rec))"
proof -
  have "\<not> pt_boundaries p" if "p \<in> set (rm_patterns (stream_remasker_with_views cr b64 rec))" for p
  proof -
    from that have "p \<in> set (map pattern_of_pair (view_pairs cr b64 rec))"
      using dedup_patterns_set
      unfolding stream_remasker_with_views_def merge_recovery_with_views_def merged_patterns
        incoming_of_map [OF assms]
      by (fastforce simp: empty_remasker_def)
    then show ?thesis
      using view_pairs_unguarded [OF assms] by (force simp: pattern_of_pair_def)
  qed
  then show ?thesis by (auto simp: unguarded_def patterns_of_def pattern_of_def)
qed


section \<open>Properties\<close>

definition fresh_remasker :: "crypto \<Rightarrow> base64_encoder \<Rightarrow> recovery \<Rightarrow> bool \<Rightarrow> remasker" where
  "fresh_remasker cr b64 rec views = merge_recovery_inner cr b64 empty_remasker rec views"

lemma fresh_remasker_ok:
  assumes "[] \<notin> set (placeholders rec)"
  shows "represents (fresh_remasker cr b64 rec views) []" "usable (fresh_remasker cr b64 rec views)"
    "previous_ok (fresh_remasker cr b64 rec views) None"
proof -
  have "usable empty_remasker" by (simp add: usable_def empty_remasker_def)
  from merged_usable [OF this assms] show "usable (fresh_remasker cr b64 rec views)"
    by (simp add: fresh_remasker_def)
  show "represents (fresh_remasker cr b64 rec views) []"
    unfolding fresh_remasker_def by (rule represents_merged [OF represents_empty])
  show "previous_ok (fresh_remasker cr b64 rec views) None"
    by (simp add: fresh_remasker_def previous_ok_def empty_remasker_def)
qed

lemma fresh_remasker_run:
  assumes "[] \<notin> set (placeholders rec)"
  shows "\<exists>out rm'. stream_run (fresh_remasker cr b64 rec views) es = Some (out, rm') \<and>
    stream_spec (patterns_of (fresh_remasker cr b64 rec views)) None [] es out"
proof -
  note ok = fresh_remasker_ok [OF assms, of cr b64 views]
  from stream_run_spec [OF ok(1,3,2)] show ?thesis by blast
qed

text \<open>A concrete map, its patterns and a run for the witnesses below.\<close>

definition example_stream :: recovery where
  "example_stream = seal example_crypto [(''<<A_0123456789abcdef>>'', ''s3cret'')] ''k''"

lemma example_stream_placeholders: "placeholders example_stream = [''<<A_0123456789abcdef>>'']"
  by (simp add: placeholders_def example_stream_def seal_def Let_def)

lemma example_stream_fresh: "[] \<notin> set (placeholders example_stream)"
  by (simp add: example_stream_placeholders)

lemma example_stream_reveal:
  "reveal example_crypto example_stream ''<<A_0123456789abcdef>>'' = Some ''s3cret''"
  by (simp add: example_stream_def reveal_seal [OF keystream_ok_example] utf8_valid_ascii is_ascii_def)

text \<open>
  C34. The stream re-masker refines its specification: for any sequence of texts, control
  sequences and boundaries the run returns, and its output is, between boundaries, a strong
  re-masking of everything that arrived there, however it was cut into chunks: no known value
  survives where it begins, not even a short one that stands alone.
\<close>

theorem stream_refines_spec:
  assumes "[] \<notin> set (placeholders rec)"
  shows "\<exists>out rm'. stream_run (fresh_remasker cr b64 rec views) es = Some (out, rm') \<and>
    stream_spec (patterns_of (fresh_remasker cr b64 rec views)) None [] es out"
  using assms by (rule fresh_remasker_run)

lemma stream_refines_spec_witness:
  "\<exists>out rm'. stream_run (fresh_remasker example_crypto example_base64 example_stream True)
       [Text ''a s3c'', Control ''['', Text ''ret b''] = Some (out, rm') \<and>
     stream_spec (patterns_of (fresh_remasker example_crypto example_base64 example_stream True)) None []
       [Text ''a s3c'', Control ''['', Text ''ret b''] out"
  by (rule stream_refines_spec [OF example_stream_fresh])

text \<open>
  C35. Streaming and whole-text re-masking agree: for a map whose re-masked values need no
  token boundaries, the concatenated output for any cutting of a text into chunks is what
  \<open>remask_views\<close> returns for the text.
\<close>

theorem stream_matches_whole:
  assumes "longest_matcher search_for" and "plain_map cr rec" and "\<forall>v. utf8_valid (b64_encode b64 v)"
    and "utf8_valid (concat chunks)"
  shows "map_option fst (stream_run (stream_remasker_with_views cr b64 rec) (map Text chunks)) =
    remask_views cr b64 search_for rec (concat chunks)"
proof -
  have eq: "stream_remasker_with_views cr b64 rec = fresh_remasker cr b64 rec True"
    by (simp add: stream_remasker_with_views_def merge_recovery_with_views_def fresh_remasker_def)
  have "[] \<notin> set (placeholders rec)" using assms(2) by (auto simp: plain_map_def)
  from fresh_remasker_run [OF this, of cr b64 True "map Text chunks"]
  obtain out rm' where out: "stream_run (stream_remasker_with_views cr b64 rec) (map Text chunks) = Some (out, rm')"
    "remasked True (patterns_of (stream_remasker_with_views cr b64 rec)) None (map Vis (concat chunks)) out"
    by (auto simp: eq stream_texts_spec)
  from whole_remasked [OF assms(1,2) _ assms(4)] assms(3) obtain out' where
    whole: "remask_views cr b64 search_for rec (concat chunks) = Some out'"
    "remasked False (patterns_of (stream_remasker_with_views cr b64 rec)) None (map Vis (concat chunks)) out'"
    by blast
  have "single_valued (patterns_of (stream_remasker_with_views cr b64 rec))"
    unfolding stream_remasker_with_views_def merge_recovery_with_views_def by (rule merged_single_valued)
  from remasked_deterministic [OF out(2) _ plain_map_unguarded [OF assms(2)] this whole(2)]
  have "out = out'" by (simp add: list_all_iff)
  with out(1) whole(1) show ?thesis by simp
qed

definition example_encoder :: base64_encoder where
  "example_encoder = \<lparr>b64_encode = map (\<lambda>c. CHR ''x''), b64_encode_len = (\<lambda>n. n)\<rparr>"

lemma stream_matches_whole_witness:
  "map_option fst (stream_run (stream_remasker_with_views example_crypto example_encoder example_stream)
      (map Text [''a s3c'', ''ret b''])) =
   remask_views example_crypto example_encoder reference_longest example_stream
     (concat [''a s3c'', ''ret b''])"
proof (rule stream_matches_whole [OF lm.longest_matcher_axioms])
  have "requires_token_boundaries ''s3cret'' = False" by code_simp
  then show "plain_map example_crypto example_stream"
    by (simp add: plain_map_def example_stream_placeholders example_stream_reveal
        utf8_valid_ascii is_ascii_def)
  show "\<forall>v. utf8_valid (b64_encode example_encoder v)"
    by (auto simp: example_encoder_def list_all_iff is_ascii_def intro!: utf8_valid_ascii)
  show "utf8_valid (concat [''a s3c'', ''ret b''])"
    by (simp add: utf8_valid_ascii is_ascii_def)
qed

definition example_remasker :: remasker where
  "example_remasker = fresh_remasker example_crypto example_encoder example_stream True"

lemma example_remasker_reachable: "reachable example_crypto example_encoder example_remasker"
  unfolding example_remasker_def fresh_remasker_def
  by (rule reachable_merge [OF reachable_empty example_stream_fresh])

text \<open>
  C34. The buffers of every reachable re-masker are consistent: one raw range of one byte per
  visible byte, in order, inside the raw bytes and holding that byte; and no pattern is empty.
\<close>

definition well_formed :: "remasker \<Rightarrow> bool" where
  "well_formed rm \<longleftrightarrow> length (rm_starts rm) = length (rm_visible rm) \<and>
     rm_ends rm = map Suc (rm_starts rm) \<and> sorted_wrt (<) (rm_starts rm) \<and>
     (\<forall>k < length (rm_visible rm). rm_starts rm ! k < length (rm_raw rm) \<and>
        rm_raw rm ! (rm_starts rm ! k) = rm_visible rm ! k) \<and>
     (\<forall>p \<in> set (rm_patterns rm). pt_value p \<noteq> [])"

lemma vis_starts_sorted: "sorted_wrt (<) (vis_starts n xs) \<and> (\<forall>k \<in> set (vis_starts n xs). n \<le> k)"
  by (induction n xs rule: vis_starts.induct) (auto simp: Suc_le_eq intro: less_imp_le)

lemma represents_well_formed:
  assumes "represents rm xs" and "usable rm"
  shows "well_formed rm"
proof -
  have "rm_starts rm ! k < length (rm_raw rm) \<and> rm_raw rm ! (rm_starts rm ! k) = rm_visible rm ! k"
    if "k < length (rm_visible rm)" for k
  proof -
    from that assms(1) split_at_visible [of k xs 0] obtain us b ys where
      "xs = us @ Vis b # ys" "length (visible_of us) = k" "vis_starts 0 xs ! k = length us"
      by (auto simp: represents_def)
    with assms(1) show ?thesis
      by (simp add: represents_def nth_append)
  qed
  with assms vis_starts_sorted [of 0 xs] show ?thesis
    by (simp add: well_formed_def represents_def usable_def)
qed

theorem stream_buffers_consistent:
  assumes "reachable cr b64 rm"
  shows "well_formed rm"
  using reachable_represents [OF assms] represents_well_formed by blast

lemma stream_buffers_consistent_witness: "well_formed example_remasker"
  by (rule stream_buffers_consistent [OF example_remasker_reachable])



text \<open>
  The delay is bounded: the visible bytes a re-masker still holds after a text or a
  control sequence are the beginning of a known value, so it never holds more than the longest
  value; when no value can begin there, it holds nothing.
\<close>

theorem stream_pending_bounded:
  assumes "reachable cr b64 rm" and "stream_step rm e = Some (out, rm')"
  shows "rm_raw rm' = [] \<and> rm_visible rm' = [] \<or>
    (\<exists>p \<in> set (rm_patterns rm'). prefix (rm_visible rm') (pt_value p) \<and>
       length (rm_visible rm') \<le> length (pt_value p))"
proof -
  from reachable_represents [OF assms(1)] obtain xs where xs: "represents rm xs" "usable rm" by blast
  from stream_step_drained [OF xs, of e] assms(2)
  have "settled rm' (case e of Boundary s \<Rightarrow> True | _ \<Rightarrow> False)" by auto
  moreover have "prefix (rm_visible rm') (pt_value p)" if "waits_at rm' force 0 p" for p force
    using that by (auto simp: waits_at_def prefix_def split: if_splits)
  ultimately show ?thesis
    unfolding settled_def by (metis prefix_length_le)
qed

lemma stream_pending_bounded_witness:
  "\<exists>out rm'. stream_step example_remasker (Text ''a s3c'') = Some (out, rm') \<and>
    (rm_raw rm' = [] \<and> rm_visible rm' = [] \<or>
     (\<exists>p \<in> set (rm_patterns rm'). prefix (rm_visible rm') (pt_value p) \<and>
        length (rm_visible rm') \<le> length (pt_value p)))"
proof -
  have "represents example_remasker []" "usable example_remasker"
    unfolding example_remasker_def using fresh_remasker_ok [OF example_stream_fresh] by simp_all
  from stream_step_drained [OF this, of "Text ''a s3c''"] obtain out rm' where
    "stream_step example_remasker (Text ''a s3c'') = Some (out, rm')"
    by blast
  with stream_pending_bounded [OF example_remasker_reachable this] show ?thesis by blast
qed

lemma remasked_nothing:
  assumes "remasked strong ps left xs out" and "\<forall>p \<in> set ps. \<not> sublist (fst p) (visible_of xs)"
  shows "out = raw_of xs"
  using assms
proof (induction rule: remasked.induct)
  case (remasked_keep left b xs out)
  then show ?case by (auto simp: sublist_Cons_right)
next
  case (remasked_replace v replacement guarded zs left xs out)
  then show ?case by (force simp: spells_visible)
qed auto

text \<open>
  Finishing releases everything: afterwards the re-masker is empty, and what it releases
  is a re-masking of what it held; when it held no known value, exactly the raw bytes it held.
\<close>

theorem stream_finish_releases:
  assumes "reachable cr b64 rm"
  shows "\<exists>out rm'. finish rm = Some (out, rm') \<and> rm_raw rm' = [] \<and> rm_visible rm' = [] \<and>
    ((\<forall>p \<in> set (rm_patterns rm). \<not> sublist (pt_value p) (rm_visible rm)) \<longrightarrow> out = rm_raw rm)"
proof -
  from reachable_represents [OF assms] obtain xs where xs: "represents rm xs" "usable rm" by blast
  from stream_run_spec [OF xs(1) previous_ok_self xs(2), of "[]"] obtain out rm' where
    *: "finish rm = Some (out, rm')" "remasked True (patterns_of rm) (rm_previous rm) xs out"
      "rm_raw rm' = []" "rm_visible rm' = []"
    by auto
  have "out = rm_raw rm" if "\<forall>p \<in> set (rm_patterns rm). \<not> sublist (pt_value p) (rm_visible rm)"
    using remasked_nothing [OF *(2)] that xs(1)
    by (auto simp: represents_def patterns_of_def pattern_of_def)
  with * show ?thesis by blast
qed


lemma stream_finish_releases_witness:
  "\<exists>out rm'. finish example_remasker = Some (out, rm') \<and> rm_raw rm' = [] \<and> rm_visible rm' = []"
  using stream_finish_releases [OF example_remasker_reachable] by blast


text \<open>
  The re-masker forgets the left neighbour of a short value whenever its buffer empties: a
  control sequence after a word makes a short value that continues the word look as if it stood
  alone, so it is replaced, though the same visible text in one chunk is left as it is.
\<close>

definition short_remasker :: remasker where
  "short_remasker = empty_remasker\<lparr>rm_patterns :=
     [\<lparr>pt_value = ''42'', pt_placeholder = ''<<OTP>>'', pt_boundaries = True, pt_priority = 0\<rparr>]\<rparr>"

theorem stream_forgets_left_neighbour:
  "map_option fst (stream_run short_remasker [Text ''a'', Control ''['', Text ''42'']) =
     Some ''a[<<OTP>>'' \<and>
   map_option fst (stream_run short_remasker [Text ''a42'']) = Some ''a42''"
  by code_simp

end
