(* ===== verification/Normalize.thy ===== *)
theory Normalize
  imports Utf8 Model Interval Codec
begin

text \<open>
  Detection normalization, \<open>normalize.rs\<close>: the text a detector sees, with a map back to the
  raw bytes. A \<open>NormalizedView\<close> decodes percent, HTML-numeric, quoted-printable and source
  escapes of ASCII bytes, drops zero-width and bidirectional controls, and applies NFKC
  character by character. NFKC and NFC (the \<open>unicode_normalization\<close> crate) are parameters.
\<close>


section \<open>Characters and digits\<close>

definition n_id_cow :: "(str \<Rightarrow> str) \<Rightarrow> str \<Rightarrow> str" where
  "n_id_cow n_id s = (if all_ascii s then s else n_id s)"

text \<open>U+200B to U+200D and U+FEFF; U+202A to U+202E and U+2066 to U+2069.\<close>

definition is_zero_width :: "str \<Rightarrow> bool" where
  "is_zero_width ch =
     (case ch of
        [a, b, c] \<Rightarrow>
          code a = 226 \<and> code b = 128 \<and> byte_between 139 141 c \<or>
          code a = 239 \<and> code b = 187 \<and> code c = 191
      | _ \<Rightarrow> False)"

definition is_bidi :: "str \<Rightarrow> bool" where
  "is_bidi ch =
     (case ch of
        [a, b, c] \<Rightarrow>
          code a = 226 \<and>
          (code b = 128 \<and> byte_between 170 174 c \<or> code b = 129 \<and> byte_between 166 169 c)
      | _ \<Rightarrow> False)"

definition hex_val :: "byte \<Rightarrow> nat option" where
  "hex_val b =
     (if is_ascii_digit b then Some (code b - 48)
      else if byte_between 97 102 b then Some (code b - 97 + 10)
      else if byte_between 65 70 b then Some (code b - 65 + 10)
      else None)"

text \<open>The byte of two hex digits, when it is ASCII.\<close>

definition hex_ascii :: "byte \<Rightarrow> byte \<Rightarrow> byte option" where
  "hex_ascii a b =
     do {
       hi \<leftarrow> hex_val a;
       lo \<leftarrow> hex_val b;
       let byte = (push_bit 4 hi OR lo :: nat);
       if byte < 128 then Some (char_of byte) else None
     }"


section \<open>Escapes\<close>

definition html_digit :: "nat \<Rightarrow> byte \<Rightarrow> nat option" where
  "html_digit radix b =
     (if is_ascii_digit b then Some (code b - 48)
      else if radix = 16 then hex_val b
      else None)"

text \<open>The digits of a reference: the value and the bytes read, or \<open>None\<close> on \<open>u32\<close> overflow.\<close>

fun html_digits :: "nat \<Rightarrow> str \<Rightarrow> nat \<Rightarrow> nat \<Rightarrow> (nat \<times> nat) option" where
  "html_digits radix [] v n = Some (v, n)"
| "html_digits radix (b # bs) v n =
     (case html_digit radix b of
        None \<Rightarrow> Some (v, n)
      | Some d \<Rightarrow>
          if v * radix < 2 ^ 32 \<and> v * radix + d < 2 ^ 32
          then html_digits radix bs (v * radix + d) (Suc n) else None)"

definition html_numeric_escape :: "str \<Rightarrow> nat \<Rightarrow> (byte \<times> nat) option" where
  "html_numeric_escape bytes start =
     (if \<not> (start + 2 \<le> length bytes \<and> take 2 (drop start bytes) = ''&#'') then None
      else
        let marked = start + 2 < length bytes \<and> bytes ! (start + 2) \<in> {CHR ''x'', CHR ''X''};
            radix = (if marked then 16 else 10);
            digits_start = (if marked then start + 3 else start + 2)
        in case html_digits radix (drop digits_start bytes) 0 0 of
             None \<Rightarrow> None
           | Some (v, n) \<Rightarrow>
               let i = digits_start + n
               in if n = 0 \<or> \<not> (i < length bytes \<and> bytes ! i = CHR '';'') \<or> 127 < v then None
                  else Some (char_of v, i + 1))"

definition hex_pair_at :: "str \<Rightarrow> nat \<Rightarrow> bool" where
  "hex_pair_at bytes i \<longleftrightarrow> hex_val (bytes ! i) \<noteq> None \<and> hex_val (bytes ! (i + 1)) \<noteq> None"

definition qp_escape_at :: "str \<Rightarrow> nat \<Rightarrow> bool" where
  "qp_escape_at bytes i \<longleftrightarrow> i + 2 < length bytes \<and> bytes ! i = CHR ''='' \<and> hex_pair_at bytes (i + 1)"

function qp_run :: "str \<Rightarrow> nat \<Rightarrow> nat \<Rightarrow> nat \<times> nat" where
  "qp_run bytes i escapes =
     (if qp_escape_at bytes i then qp_run bytes (i + 3) (Suc escapes) else (i, escapes))"
  by pat_completeness auto
termination
  by (relation "measure (\<lambda>(bytes, i, escapes). length bytes - i)") (auto simp: qp_escape_at_def)

declare qp_run.simps [simp del]

lemma qp_run_le: "i \<le> fst (qp_run bytes i escapes)"
proof (induction bytes i escapes rule: qp_run.induct)
  case (1 bytes i escapes)
  then show ?case by (subst qp_run.simps) fastforce
qed

function quoted_printable_runs_from :: "str \<Rightarrow> nat \<Rightarrow> byte_range list" where
  "quoted_printable_runs_from bytes i =
     (if i + 2 < length bytes then
        (if \<not> qp_escape_at bytes i then quoted_printable_runs_from bytes (i + 1)
         else
           let (e, escapes) = qp_run bytes (i + 3) 1
           in (if 4 \<le> escapes then [range_new i e] else []) @ quoted_printable_runs_from bytes e)
      else [])"
  by pat_completeness auto
termination
proof (relation "measure (\<lambda>(bytes, i). length bytes - i)")
  fix bytes i x e escapes
  assume "i + 2 < length bytes" "x = qp_run bytes (i + 3) 1" "(e, escapes) = x"
  moreover from this have "i + 3 \<le> e" using qp_run_le [of "i + 3" bytes 1] by (metis fst_conv)
  ultimately show "((bytes, e), (bytes, i)) \<in> measure (\<lambda>(bytes, i). length bytes - i)" by simp
qed auto

declare quoted_printable_runs_from.simps [simp del]

definition quoted_printable_runs :: "str \<Rightarrow> byte_range list" where
  "quoted_printable_runs bytes = quoted_printable_runs_from bytes 0"

text \<open>Each escape form at an offset: the decoded byte and the offset after it.\<close>

definition percent_escape :: "str \<Rightarrow> nat \<Rightarrow> (byte \<times> nat) option" where
  "percent_escape bytes i =
     (if bytes ! i = CHR ''%'' \<and> i + 2 < length bytes
      then map_option (\<lambda>b. (b, i + 3)) (hex_ascii (bytes ! (i + 1)) (bytes ! (i + 2))) else None)"

definition quoted_printable_escape :: "bool \<Rightarrow> str \<Rightarrow> nat \<Rightarrow> (byte \<times> nat) option" where
  "quoted_printable_escape in_run bytes i =
     (if in_run \<and> bytes ! i = CHR ''='' \<and> i + 2 < length bytes
      then map_option (\<lambda>b. (b, i + 3)) (hex_ascii (bytes ! (i + 1)) (bytes ! (i + 2))) else None)"

definition unicode_escape :: "str \<Rightarrow> nat \<Rightarrow> (byte \<times> nat) option" where
  "unicode_escape bytes i =
     (if i + 5 < length bytes \<and> bytes ! (i + 1) = CHR ''u'' \<and> bytes ! (i + 2) = CHR ''0'' \<and>
         bytes ! (i + 3) = CHR ''0''
      then map_option (\<lambda>b. (b, i + 6)) (hex_ascii (bytes ! (i + 4)) (bytes ! (i + 5))) else None)"

definition hex_escape :: "str \<Rightarrow> nat \<Rightarrow> (byte \<times> nat) option" where
  "hex_escape bytes i =
     (if i + 3 < length bytes \<and> bytes ! (i + 1) \<in> {CHR ''x'', CHR ''X''}
      then map_option (\<lambda>b. (b, i + 4)) (hex_ascii (bytes ! (i + 2)) (bytes ! (i + 3))) else None)"

definition is_octal :: "byte \<Rightarrow> bool" where
  "is_octal b = byte_between 48 55 b"

definition octal_escape :: "str \<Rightarrow> nat \<Rightarrow> (byte \<times> nat) option" where
  "octal_escape bytes i =
     (if i + 3 < length bytes \<and> list_all is_octal (take 3 (drop (i + 1) bytes))
      then
        let v = (code (bytes ! (i + 1)) - 48) * 64 + (code (bytes ! (i + 2)) - 48) * 8 +
                (code (bytes ! (i + 3)) - 48)
        in if v \<le> 127 then Some (char_of v, i + 4) else None
      else None)"

definition or_else :: "'a option \<Rightarrow> 'a option \<Rightarrow> 'a option" where
  "or_else a b = (case a of None \<Rightarrow> b | Some x \<Rightarrow> Some x)"

text \<open>The escape at an offset, in the order the code tries them.\<close>

definition escape_at :: "bool \<Rightarrow> str \<Rightarrow> nat \<Rightarrow> (byte \<times> nat) option" where
  "escape_at in_run bytes i =
     or_else (percent_escape bytes i)
     (or_else (if bytes ! i = CHR ''&'' then html_numeric_escape bytes i else None)
     (or_else (quoted_printable_escape in_run bytes i)
        (if bytes ! i = CHR 0x5C
         then or_else (unicode_escape bytes i) (or_else (hex_escape bytes i) (octal_escape bytes i))
         else None)))"


section \<open>The view\<close>

record seg =
  sg_norm :: byte_range
  sg_raw :: byte_range

record normalized_view =
  nv_region :: region
  nv_source :: str
  nv_norm :: str
  nv_segs :: "seg list"
  nv_identity :: bool

definition push_ascii_escape :: "str \<Rightarrow> seg list \<Rightarrow> byte \<Rightarrow> byte_range \<Rightarrow> str \<times> seg list" where
  "push_ascii_escape norm segs b raw =
     (norm @ [b], segs @ [\<lparr>sg_norm = range_new (length norm) (length norm + 1), sg_raw = raw\<rparr>])"

text \<open>An escape that \<open>is_identity_detection_slice\<close> looks for at a percent sign or a backslash.\<close>

definition marks_escape :: "str \<Rightarrow> nat \<Rightarrow> bool" where
  "marks_escape bytes i \<longleftrightarrow>
     bytes ! i = CHR ''%'' \<and> i + 2 < length bytes \<and> hex_pair_at bytes (i + 1) \<or>
     bytes ! i = CHR 0x5C \<and>
       (i + 5 < length bytes \<and> bytes ! (i + 1) = CHR ''u'' \<and> bytes ! (i + 2) = CHR ''0'' \<and>
          bytes ! (i + 3) = CHR ''0'' \<and> hex_pair_at bytes (i + 4) \<or>
        i + 3 < length bytes \<and> bytes ! (i + 1) \<in> {CHR ''x'', CHR ''X''} \<and>
          hex_pair_at bytes (i + 2) \<or>
        i + 3 < length bytes \<and> list_all is_octal (take 3 (drop (i + 1) bytes)))"

definition is_identity_detection_slice :: "str \<Rightarrow> bool" where
  "is_identity_detection_slice bytes \<longleftrightarrow>
     all_ascii bytes \<and> quoted_printable_runs bytes = [] \<and>
     list_all (\<lambda>i. bytes ! i = CHR ''&'' \<longrightarrow> html_numeric_escape bytes i = None)
       [0..<length bytes] \<and>
     list_all (\<lambda>i. \<not> marks_escape bytes i) [0..<length bytes]"

lemma html_numeric_escape_end: "html_numeric_escape bytes i = Some (b, e) \<Longrightarrow> i < e \<and> e \<le> length bytes"
  by (auto simp: html_numeric_escape_def Let_def split: if_splits option.splits)

lemma escape_at_end: "i < length bytes \<Longrightarrow> escape_at in_run bytes i = Some (b, e) \<Longrightarrow> i < e \<and> e \<le> length bytes"
  unfolding escape_at_def or_else_def
  using html_numeric_escape_end [of bytes i b e]
  by (auto simp: percent_escape_def quoted_printable_escape_def unicode_escape_def hex_escape_def
      octal_escape_def Let_def split: option.splits if_splits)

lemma hd_utf8_chars: "s \<noteq> [] \<Longrightarrow> 0 < length (hd (utf8_chars s)) \<and> length (hd (utf8_chars s)) \<le> length s"
proof -
  assume s: "s \<noteq> []"
  have "hd (utf8_chars s) = take (case utf8_next s of None \<Rightarrow> 1 | Some n \<Rightarrow> n) s"
    using s by (subst utf8_chars.simps) (simp add: Let_def)
  then show ?thesis
    using s utf8_next_bounds [of s] by (cases s) (auto split: option.splits)
qed

lemma next_char_less:
  assumes "i < length bytes"
  shows "length bytes - (i + length (hd (utf8_chars (drop i bytes)))) < length bytes - i"
  using hd_utf8_chars [of "drop i bytes"] assms by (cases "hd (utf8_chars (drop i bytes))") auto

text \<open>
  The loop over the bytes of the slice: \<open>base\<close> is its offset in the raw text, \<open>runs\<close> the
  quoted-printable runs not yet passed.
\<close>

function build_loop ::
    "(str \<Rightarrow> str) \<Rightarrow> nat \<Rightarrow> str \<Rightarrow> byte_range list \<Rightarrow> nat \<Rightarrow> str \<Rightarrow> seg list \<Rightarrow> str \<times> seg list" where
  "build_loop nfkc base bytes runs i norm segs =
     (if i < length bytes then
        let runs = dropWhile (\<lambda>r. rend r \<le> i) runs;
            in_run = (case runs of [] \<Rightarrow> False | r # _ \<Rightarrow> rstart r \<le> i \<and> i < rend r)
        in case escape_at in_run bytes i of
             Some (b, e) \<Rightarrow>
               (case push_ascii_escape norm segs b (range_new (base + i) (base + e)) of
                  (norm, segs) \<Rightarrow> build_loop nfkc base bytes runs e norm segs)
           | None \<Rightarrow>
               let ch = hd (utf8_chars (drop i bytes));
                   e = i + length ch;
                   folded = nfkc ch
               in if is_zero_width ch \<or> is_bidi ch
                  then build_loop nfkc base bytes runs e norm segs
                  else if folded = [] then build_loop nfkc base bytes runs e norm segs
                  else build_loop nfkc base bytes runs e (norm @ folded)
                    (segs @ [\<lparr>sg_norm = range_new (length norm) (length norm + length folded),
                              sg_raw = range_new (base + i) (base + e)\<rparr>])
      else (norm, segs))"
  by pat_completeness auto

termination
  by (relation "measure (\<lambda>(nfkc, base, bytes, runs, i, norm, segs). length bytes - i)")
    (auto intro: next_char_less dest: escape_at_end)

declare build_loop.simps [simp del]


definition identity_view :: "region \<Rightarrow> str \<Rightarrow> str \<Rightarrow> normalized_view" where
  "identity_view region raw piece =
     \<lparr>nv_region = region, nv_source = raw, nv_norm = piece, nv_segs = [], nv_identity = True\<rparr>"

definition folded_view :: "(str \<Rightarrow> str) \<Rightarrow> region \<Rightarrow> str \<Rightarrow> str \<Rightarrow> normalized_view" where
  "folded_view nfkc region raw piece =
     (case build_loop nfkc (rstart (region_span region)) piece (quoted_printable_runs piece) 0 [] [] of
        (norm, segs) \<Rightarrow>
          \<lparr>nv_region = region, nv_source = raw, nv_norm = norm, nv_segs = segs, nv_identity = False\<rparr>)"

text \<open>\<open>None\<close> is the panic of slicing the raw text at the region.\<close>

definition view_build :: "(str \<Rightarrow> str) \<Rightarrow> region \<Rightarrow> str \<Rightarrow> normalized_view option" where
  "view_build nfkc region raw =
     map_option (\<lambda>piece.
       if is_identity_detection_slice piece then identity_view region raw piece
       else folded_view nfkc region raw piece)
     (str_slice raw (rstart (region_span region)) (rend (region_span region)))"

definition raw_detection_view :: "normalized_view \<Rightarrow> normalized_view option" where
  "raw_detection_view v =
     map_option (identity_view (nv_region v) (nv_source v))
       (str_slice (nv_source v) (rstart (region_span (nv_region v))) (rend (region_span (nv_region v))))"

definition raw_start_at :: "normalized_view \<Rightarrow> nat \<Rightarrow> nat" where
  "raw_start_at v pos =
     (let idx = partition_point (\<lambda>s. rend (sg_norm s) \<le> pos) (nv_segs v)
      in if idx < length (nv_segs v) then rstart (sg_raw (nv_segs v ! idx))
         else rend (region_span (nv_region v)))"

definition raw_end_at :: "normalized_view \<Rightarrow> nat \<Rightarrow> nat" where
  "raw_end_at v pos =
     (let idx = partition_point (\<lambda>s. rstart (sg_norm s) < pos) (nv_segs v)
      in if 0 < idx \<and> idx - 1 < length (nv_segs v) then rend (sg_raw (nv_segs v ! (idx - 1)))
         else rstart (region_span (nv_region v)))"

definition to_raw :: "normalized_view \<Rightarrow> byte_range \<Rightarrow> byte_range" where
  "to_raw v norm =
     (let span = region_span (nv_region v)
      in if nv_identity v then
           let start = rstart span + rstart norm; end = rstart span + rend norm
           in range_new start (min (max end start) (rend span))
         else
           let start = raw_start_at v (rstart norm); end = raw_end_at v (rend norm)
           in range_new start (max end start))"

definition to_norm :: "normalized_view \<Rightarrow> byte_range \<Rightarrow> byte_range option" where
  "to_norm v raw =
     (let span = region_span (nv_region v)
      in if rstart raw < rstart span \<or> rend span < rend raw \<or> rend raw < rstart raw then None
         else if nv_identity v then
           Some (range_new (rstart raw - rstart span) (rend raw - rstart span))
         else
           let start_idx = partition_point (\<lambda>s. rend (sg_raw s) \<le> rstart raw) (nv_segs v);
               end_idx = partition_point (\<lambda>s. rstart (sg_raw s) < rend raw) (nv_segs v);
               start = (if start_idx < length (nv_segs v)
                        then rstart (sg_norm (nv_segs v ! start_idx)) else length (nv_norm v));
               end = (if 0 < end_idx \<and> end_idx - 1 < length (nv_segs v)
                      then rend (sg_norm (nv_segs v ! (end_idx - 1))) else start)
           in if start \<le> end then Some (range_new start end) else None)"


section \<open>The segments of a view\<close>

text \<open>
  The segments tile the normalized text, in order and without gaps, and their raw ranges are
  non-empty, in order, disjoint, on character boundaries and inside the region.
\<close>

definition seg_order :: "seg \<Rightarrow> seg \<Rightarrow> bool" where
  "seg_order s t \<longleftrightarrow> rend (sg_norm s) \<le> rstart (sg_norm t) \<and> rend (sg_raw s) \<le> rstart (sg_raw t)"

definition seg_ok :: "nat \<Rightarrow> str \<Rightarrow> seg \<Rightarrow> bool" where
  "seg_ok base bytes s \<longleftrightarrow> rstart (sg_norm s) < rend (sg_norm s) \<and>
     base \<le> rstart (sg_raw s) \<and> rstart (sg_raw s) < rend (sg_raw s) \<and>
     rend (sg_raw s) \<le> base + length bytes \<and>
     is_char_boundary bytes (rstart (sg_raw s) - base) \<and> is_char_boundary bytes (rend (sg_raw s) - base)"

definition tiles :: "seg list \<Rightarrow> nat \<Rightarrow> bool" where
  "tiles segs n \<longleftrightarrow> (\<forall>k < n. \<exists>s \<in> set segs. rstart (sg_norm s) \<le> k \<and> k < rend (sg_norm s)) \<and>
     (\<forall>s \<in> set segs. rend (sg_norm s) \<le> n)"

definition segs_ok :: "nat \<Rightarrow> str \<Rightarrow> seg list \<Rightarrow> nat \<Rightarrow> nat \<Rightarrow> bool" where
  "segs_ok base bytes segs n i \<longleftrightarrow> sorted_wrt seg_order segs \<and> list_all (seg_ok base bytes) segs \<and>
     tiles segs n \<and> (\<forall>s \<in> set segs. rend (sg_raw s) \<le> base + i)"

lemma segs_ok_Nil: "segs_ok base bytes [] 0 0"
  by (simp add: segs_ok_def tiles_def)

lemma segs_ok_snoc:
  assumes "segs_ok base bytes segs n i" and "0 < m" and "i < e" and "e \<le> length bytes"
    and "is_char_boundary bytes i" and "is_char_boundary bytes e"
  shows "segs_ok base bytes
    (segs @ [\<lparr>sg_norm = range_new n (n + m), sg_raw = range_new (base + i) (base + e)\<rparr>]) (n + m) e"
proof -
  have "\<exists>s \<in> set segs \<union> {\<lparr>sg_norm = range_new n (n + m), sg_raw = range_new (base + i) (base + e)\<rparr>}.
      rstart (sg_norm s) \<le> k \<and> k < rend (sg_norm s)" if "k < n + m" for k
    using assms(1) that by (cases "k < n") (auto simp: segs_ok_def tiles_def range_new_def)
  with assms show ?thesis
    by (force simp: segs_ok_def tiles_def sorted_wrt_append seg_order_def seg_ok_def range_new_def)
qed

lemma segs_ok_mono: "segs_ok base bytes segs n i \<Longrightarrow> i \<le> e \<Longrightarrow> segs_ok base bytes segs n e"
  by (fastforce simp: segs_ok_def)


lemma hex_val_ascii: "hex_val b = Some v \<Longrightarrow> is_ascii b \<and> v < 16"
  by (auto simp: hex_val_def ascii_class_defs split: if_splits)

lemma hex_ascii_digits: "hex_ascii a b = Some c \<Longrightarrow> is_ascii a \<and> is_ascii b"
  by (auto simp: hex_ascii_def Let_def bind_eq_Some_conv dest: hex_val_ascii split: if_splits)

lemma octal_ascii: "is_octal b \<Longrightarrow> is_ascii b"
  by (auto simp: is_octal_def ascii_class_defs)

lemma html_last_ascii:
  assumes "html_numeric_escape bytes i = Some (b, e)"
  shows "\<exists>k. e = Suc k \<and> is_ascii (bytes ! k)"
proof -
  from assms have "\<exists>k. e = k + 1 \<and> bytes ! k = CHR '';''"
    unfolding html_numeric_escape_def Let_def by (auto simp: ac_simps split: if_splits option.splits)
  then show ?thesis by (auto simp: is_ascii_def)
qed

lemma escape_last_ascii:
  assumes "i < length bytes" and "escape_at in_run bytes i = Some (b, e)"
  shows "\<exists>k. e = Suc k \<and> is_ascii (bytes ! k)"
proof -
  have octal: "is_ascii (bytes ! (i + 3))"
    if "i + 3 < length bytes" "list_all is_octal (take 3 (drop (i + 1) bytes))"
  proof -
    have "bytes ! (i + 3) = take 3 (drop (i + 1) bytes) ! 2"
      using that(1) by (simp add: numeral_3_eq_3)
    moreover have "2 < length (take 3 (drop (i + 1) bytes))" using that(1) by simp
    ultimately show ?thesis using that(2) octal_ascii by (metis list_all_length)
  qed
  have two: "e = i + 3 \<Longrightarrow> is_ascii (bytes ! (i + 2)) \<Longrightarrow> ?thesis"
    and four: "e = i + 4 \<Longrightarrow> is_ascii (bytes ! (i + 3)) \<Longrightarrow> ?thesis"
    and six: "e = i + 6 \<Longrightarrow> is_ascii (bytes ! (i + 5)) \<Longrightarrow> ?thesis"
    by (rule exI [of _ "i + 2"], simp) (rule exI [of _ "i + 3"], simp, rule exI [of _ "i + 5"], simp)
  consider "percent_escape bytes i = Some (b, e)" | "html_numeric_escape bytes i = Some (b, e)"
    | "quoted_printable_escape in_run bytes i = Some (b, e)" | "unicode_escape bytes i = Some (b, e)"
    | "hex_escape bytes i = Some (b, e)" | "octal_escape bytes i = Some (b, e)"
    using assms(2) by (auto simp: escape_at_def or_else_def split: option.splits if_splits)
  then show ?thesis
  proof cases
    case 1
    then show ?thesis
      by (intro two) (auto simp: percent_escape_def dest: hex_ascii_digits split: if_splits)
  next
    case 2
    then show ?thesis by (rule html_last_ascii)
  next
    case 3
    then show ?thesis
      by (intro two) (auto simp: quoted_printable_escape_def dest: hex_ascii_digits split: if_splits)
  next
    case 4
    then show ?thesis
      by (intro six) (auto simp: unicode_escape_def dest: hex_ascii_digits split: if_splits)
  next
    case 5
    then show ?thesis
      by (intro four) (auto simp: hex_escape_def dest: hex_ascii_digits split: if_splits)
  next
    case 6
    with octal show ?thesis
      by (intro four) (auto simp: octal_escape_def Let_def split: if_splits)
  qed
qed

lemma boundary_after_escape:
  assumes "utf8_valid bytes" and "i < length bytes" and "escape_at in_run bytes i = Some (b, e)"
  shows "is_char_boundary bytes e" and "i < e" and "e \<le> length bytes"
proof -
  from escape_at_end [OF assms(2,3)] show e: "i < e" "e \<le> length bytes" by auto
  with escape_last_ascii [OF assms(2,3)] utf8_boundary_after_ascii(2) [OF assms(1)]
  show "is_char_boundary bytes e" by auto
qed

lemma boundary_after_char:
  assumes "utf8_valid bytes" and "i < length bytes" and "is_char_boundary bytes i"
  shows "is_char_boundary bytes (i + length (hd (utf8_chars (drop i bytes))))"
    and "i < i + length (hd (utf8_chars (drop i bytes)))"
    and "i + length (hd (utf8_chars (drop i bytes))) \<le> length bytes"
proof -
  have "utf8_valid (drop i bytes)" using utf8_valid_split(2) [OF assms(1,3)] assms(2) by simp
  moreover have "drop i bytes \<noteq> []" using assms(2) by simp
  ultimately obtain n where n: "hd (utf8_chars (drop i bytes)) = take n (drop i bytes)" "0 < n"
    "n \<le> length (drop i bytes)" "utf8_valid (drop n (drop i bytes))"
    by (rule utf8_first_char)
  then have len: "length (hd (utf8_chars (drop i bytes))) = n" by simp
  show "i < i + length (hd (utf8_chars (drop i bytes)))"
    "i + length (hd (utf8_chars (drop i bytes))) \<le> length bytes"
    using len n assms(2) by auto
  then show "is_char_boundary bytes (i + length (hd (utf8_chars (drop i bytes))))"
    using n(4) len by (intro utf8_valid_boundary) (auto simp: add.commute)
qed

lemma build_loop_segs:
  assumes "utf8_valid bytes"
  shows "segs_ok base bytes segs (length norm) i \<Longrightarrow> i \<le> length bytes \<Longrightarrow> is_char_boundary bytes i \<Longrightarrow>
    build_loop nfkc base bytes runs i norm segs = (norm', segs') \<Longrightarrow>
    segs_ok base bytes segs' (length norm') (length bytes)"
  using assms
proof (induction nfkc base bytes runs i norm segs rule: build_loop.induct)
  case (1 nfkc base bytes runs i norm segs)
  show ?case
  proof (cases "i < length bytes")
    case False
    with "1.prems" show ?thesis by (subst (asm) build_loop.simps) auto
  next
    case True
    define runs' where "runs' = dropWhile (\<lambda>r. rend r \<le> i) runs"
    define in_run where "in_run = (case runs' of [] \<Rightarrow> False | r # _ \<Rightarrow> rstart r \<le> i \<and> i < rend r)"
    let ?ch = "hd (utf8_chars (drop i bytes))"
    note step = "1.prems"(4) [unfolded build_loop.simps [of nfkc base bytes runs i norm segs] Let_def,
      folded runs'_def, folded in_run_def]
    show ?thesis
    proof (cases "escape_at in_run bytes i")
      case (Some be)
      obtain b e where be: "be = (b, e)" by (cases be)
      note adv = boundary_after_escape [OF "1.prems"(5) True Some [unfolded be]]
      have "segs_ok base bytes
          (segs @ [\<lparr>sg_norm = range_new (length norm) (length norm + 1),
                   sg_raw = range_new (base + i) (base + e)\<rparr>]) (length norm + 1) e"
        using "1.prems" adv by (intro segs_ok_snoc) auto
      then show ?thesis
        using "1.IH"(4) [OF True runs'_def in_run_def Some sym [OF be] sym [OF push_ascii_escape_def]]
          step True Some be adv "1.prems"(5)
        by (auto simp: push_ascii_escape_def)
    next
      case None
      note adv = boundary_after_char [OF "1.prems"(5) True "1.prems"(3)]
      show ?thesis
      proof (cases "is_zero_width ?ch \<or> is_bidi ?ch \<or> nfkc ?ch = []")
        case drop: True
        have "segs_ok base bytes segs (length norm) (i + length ?ch)"
          using "1.prems"(1) adv(2) by (auto intro: segs_ok_mono)
        then show ?thesis
          using "1.IH"(1-2) [OF True runs'_def in_run_def None refl refl refl]
            step True None drop adv "1.prems"(5)
          by (auto split: if_splits)
      next
        case keep: False
        have "segs_ok base bytes
            (segs @ [\<lparr>sg_norm = range_new (length norm) (length norm + length (nfkc ?ch)),
                     sg_raw = range_new (base + i) (base + (i + length ?ch))\<rparr>])
            (length norm + length (nfkc ?ch)) (i + length ?ch)"
          using "1.prems" adv keep by (intro segs_ok_snoc) auto
        then show ?thesis
          using "1.IH"(3) [OF True runs'_def in_run_def None refl refl refl]
            step True None keep adv "1.prems"(5)
          by (auto split: if_splits)
      qed
    qed
  qed
qed



section \<open>Mapping ranges\<close>

lemma partition_point_eq:
  assumes "i \<le> length xs" and "\<And>j. j < i \<Longrightarrow> P (xs ! j)" and "i < length xs \<Longrightarrow> \<not> P (xs ! i)"
  shows "partition_point P xs = i"
  unfolding partition_point_def using takeWhile_eq_take_P_nth [of i xs P] assms by simp

lemma seg_order_nth:
  assumes "sorted_wrt seg_order segs" and "list_all (seg_ok base bytes) segs" and "i < j" and "j < length segs"
  shows "rend (sg_norm (segs ! i)) \<le> rstart (sg_norm (segs ! j))"
    and "rend (sg_raw (segs ! i)) \<le> rstart (sg_raw (segs ! j))"
    and "rstart (sg_norm (segs ! i)) < rend (sg_norm (segs ! i))"
    and "rstart (sg_raw (segs ! i)) < rend (sg_raw (segs ! i))"
  using sorted_wrt_nth_less [OF assms(1,3,4)] assms(2-4)
  by (auto simp: seg_order_def seg_ok_def list_all_length)

text \<open>The two binary searches find the segment that holds a position.\<close>

lemma norm_position:
  assumes ok: "segs_ok base bytes segs n m" and i: "i < length segs"
    and "rstart (sg_norm (segs ! i)) \<le> k" and "k < rend (sg_norm (segs ! i))"
  shows "partition_point (\<lambda>s. rend (sg_norm s) \<le> k) segs = i"
    and "partition_point (\<lambda>s. rstart (sg_norm s) < Suc k) segs = Suc i"
proof -
  have order: "sorted_wrt seg_order segs" "list_all (seg_ok base bytes) segs"
    using ok by (simp_all add: segs_ok_def)
  show "partition_point (\<lambda>s. rend (sg_norm s) \<le> k) segs = i"
    using seg_order_nth(1) [OF order _ i] assms by (intro partition_point_eq) fastforce+
  have "rstart (sg_norm (segs ! j)) < Suc k" if "j < Suc i" for j
    using seg_order_nth(1,3) [OF order _ i, of j] that assms by (cases "j = i") fastforce+
  moreover have "\<not> rstart (sg_norm (segs ! Suc i)) < Suc k" if "Suc i < length segs"
    using seg_order_nth(1) [OF order _ that, of i] assms by simp
  ultimately show "partition_point (\<lambda>s. rstart (sg_norm s) < Suc k) segs = Suc i"
    using i by (intro partition_point_eq) auto
qed

lemma raw_position:
  assumes ok: "segs_ok base bytes segs n m" and i: "i < length segs"
  shows "partition_point (\<lambda>s. rend (sg_raw s) \<le> rstart (sg_raw (segs ! i))) segs = i"
    and "partition_point (\<lambda>s. rstart (sg_raw s) < rend (sg_raw (segs ! i))) segs = Suc i"
proof -
  have order: "sorted_wrt seg_order segs" "list_all (seg_ok base bytes) segs"
    using ok by (simp_all add: segs_ok_def)
  have self: "rstart (sg_raw (segs ! i)) < rend (sg_raw (segs ! i))"
    using order(2) i by (auto simp: list_all_length seg_ok_def)
  show "partition_point (\<lambda>s. rend (sg_raw s) \<le> rstart (sg_raw (segs ! i))) segs = i"
    using seg_order_nth(2) [OF order _ i] i self by (intro partition_point_eq) auto
  have "rstart (sg_raw (segs ! j)) < rend (sg_raw (segs ! i))" if "j < Suc i" for j
    using seg_order_nth(2,4) [OF order _ i, of j] that self by (cases "j = i") fastforce+
  moreover have "\<not> rstart (sg_raw (segs ! Suc i)) < rend (sg_raw (segs ! i))" if "Suc i < length segs"
    using seg_order_nth(2) [OF order _ that, of i] by simp
  ultimately show "partition_point (\<lambda>s. rstart (sg_raw s) < rend (sg_raw (segs ! i))) segs = Suc i"
    using i by (intro partition_point_eq) auto
qed

definition folded_ok :: "normalized_view \<Rightarrow> str \<Rightarrow> bool" where
  "folded_ok v piece \<longleftrightarrow> \<not> nv_identity v \<and>
     rend (region_span (nv_region v)) = rstart (region_span (nv_region v)) + length piece \<and>
     segs_ok (rstart (region_span (nv_region v))) piece (nv_segs v) (length (nv_norm v)) (length piece)"

lemma tile_at:
  assumes "segs_ok base bytes segs n m" and "k < n"
  obtains i where "i < length segs" "rstart (sg_norm (segs ! i)) \<le> k" "k < rend (sg_norm (segs ! i))"
proof -
  from assms have "\<exists>s \<in> set segs. rstart (sg_norm s) \<le> k \<and> k < rend (sg_norm s)"
    by (simp add: segs_ok_def tiles_def)
  then show thesis using that by (auto simp: in_set_conv_nth)
qed

text \<open>A range maps to the raw bytes from its first segment to its last.\<close>

lemma to_raw_segments:
  assumes ok: "folded_ok v piece" and "rstart r < rend r" and "rend r \<le> length (nv_norm v)"
  obtains i j where "i \<le> j" and "j < length (nv_segs v)"
    and "rstart (sg_norm (nv_segs v ! i)) \<le> rstart r" and "rstart r < rend (sg_norm (nv_segs v ! i))"
    and "rstart (sg_norm (nv_segs v ! j)) < rend r" and "rend r \<le> rend (sg_norm (nv_segs v ! j))"
    and "to_raw v r = range_new (rstart (sg_raw (nv_segs v ! i))) (rend (sg_raw (nv_segs v ! j)))"
proof -
  let ?base = "rstart (region_span (nv_region v))"
  from ok have segs: "segs_ok ?base piece (nv_segs v) (length (nv_norm v)) (length piece)"
    and id: "\<not> nv_identity v"
    by (simp_all add: folded_ok_def)
  have order: "sorted_wrt seg_order (nv_segs v)" "list_all (seg_ok ?base piece) (nv_segs v)"
    using segs by (simp_all add: segs_ok_def)
  from tile_at [OF segs, of "rstart r"] assms(2,3) obtain i where
    i: "i < length (nv_segs v)" "rstart (sg_norm (nv_segs v ! i)) \<le> rstart r"
      "rstart r < rend (sg_norm (nv_segs v ! i))"
    by auto
  have "rend r - 1 < length (nv_norm v)" using assms(2,3) by simp
  from tile_at [OF segs this] obtain j where
    j: "j < length (nv_segs v)" "rstart (sg_norm (nv_segs v ! j)) \<le> rend r - 1"
      "rend r - 1 < rend (sg_norm (nv_segs v ! j))"
    by blast
  have le: "i \<le> j"
  proof (rule ccontr)
    assume "\<not> i \<le> j"
    with seg_order_nth(1) [OF order _ i(1), of j] i j assms(2) show False by simp
  qed
  have "raw_start_at v (rstart r) = rstart (sg_raw (nv_segs v ! i))"
    using norm_position(1) [OF segs i] i(1) by (simp add: raw_start_at_def)
  moreover have "raw_end_at v (rend r) = rend (sg_raw (nv_segs v ! j))"
    using norm_position(2) [OF segs j] j(1) assms(2) by (simp add: raw_end_at_def)
  moreover have "rstart (sg_raw (nv_segs v ! j)) < rend (sg_raw (nv_segs v ! j))"
    using order(2) j(1) by (simp add: list_all_length seg_ok_def)
  moreover from this have "rstart (sg_raw (nv_segs v ! i)) \<le> rend (sg_raw (nv_segs v ! j))"
    using seg_order_nth(2,4) [OF order _ j(1), of i] le
    by (cases "i = j") auto
  ultimately have "to_raw v r = range_new (rstart (sg_raw (nv_segs v ! i))) (rend (sg_raw (nv_segs v ! j)))"
    using id by (simp add: to_raw_def Let_def max_def)
  with le i j assms(2) show thesis by (intro that) auto
qed

lemma folded_view_ok:
  assumes "str_slice raw (rstart (region_span region)) (rend (region_span region)) = Some piece"
    and "utf8_valid raw"
  shows "folded_ok (folded_view nfkc region raw piece) piece"
proof -
  from assms have "utf8_valid piece"
    by (auto simp: str_slice_Some intro: utf8_valid_subtext)
  moreover obtain norm segs where
    "build_loop nfkc (rstart (region_span region)) piece (quoted_printable_runs piece) 0 [] [] = (norm, segs)"
    by fastforce
  ultimately show ?thesis
    using build_loop_segs [of piece "rstart (region_span region)" "[]" "[]" 0 nfkc] segs_ok_Nil assms(1)
    by (auto simp: folded_ok_def folded_view_def str_slice_Some)
qed

lemma folded_view_frame [simp]:
  "nv_region (folded_view nfkc region raw piece) = region"
  "\<not> nv_identity (folded_view nfkc region raw piece)"
  by (simp_all add: folded_view_def split: prod.split)

lemma view_cases:
  assumes "view_build nfkc region raw = Some v" and "utf8_valid raw"
  obtains piece where "str_slice raw (rstart (region_span region)) (rend (region_span region)) = Some piece"
    and "nv_region v = region"
    and "nv_identity v \<and> all_ascii piece \<and> nv_norm v = piece \<and> nv_segs v = [] \<or> folded_ok v piece"
proof -
  from assms(1) obtain piece where piece:
    "str_slice raw (rstart (region_span region)) (rend (region_span region)) = Some piece"
    "v = (if is_identity_detection_slice piece then identity_view region raw piece
          else folded_view nfkc region raw piece)"
    by (auto simp: view_build_def)
  with folded_view_ok [OF piece(1) assms(2)] show thesis
    by (intro that [OF piece(1)]) (auto simp: identity_view_def is_identity_detection_slice_def)
qed

text \<open>Boundaries of the slice are boundaries of the raw text.\<close>

lemma boundary_in_slice:
  assumes "str_slice raw a b = Some piece" and "is_char_boundary piece k" and "k \<le> length piece"
  shows "is_char_boundary raw (a + k)"
  using assms
  by (cases "k = 0"; cases "k = length piece")
    (auto simp: str_slice_Some is_char_boundary_def subtext_def min_def split: if_splits)



section \<open>Properties\<close>

text \<open>A concrete region for the witnesses: a percent escape between plain characters.\<close>

definition example_region :: "nat \<Rightarrow> region" where
  "example_region n =
     \<lparr>region_span = range_new 0 n,
      region_ctx = \<lparr>ctx_path = None, ctx_key = None, ctx_hints = [], ctx_kind = PlainText,
                    ctx_format = KText\<rparr>\<rparr>"

definition example_escaped :: str where
  "example_escaped = ''a%2db''"

definition example_view :: normalized_view where
  "example_view = \<lparr>nv_region = example_region 5, nv_source = example_escaped, nv_norm = ''a-b'',
     nv_segs = [\<lparr>sg_norm = range_new 0 1, sg_raw = range_new 0 1\<rparr>,
       \<lparr>sg_norm = range_new 1 2, sg_raw = range_new 1 4\<rparr>,
       \<lparr>sg_norm = range_new 2 3, sg_raw = range_new 4 5\<rparr>], nv_identity = False\<rparr>"

lemma example_view_build: "view_build (\<lambda>c. c) (example_region 5) example_escaped = Some example_view"
  by code_simp

lemma to_raw_covers:
  assumes "view_build nfkc region raw = Some v" and "utf8_valid raw"
    and "rstart r < rend r" and "rend r \<le> length (nv_norm v)"
  shows "\<not> range_is_empty (to_raw v r) \<and> range_contains (region_span region) (to_raw v r) \<and>
    is_char_boundary raw (rstart (to_raw v r)) \<and> is_char_boundary raw (rend (to_raw v r)) \<and>
    (\<forall>s \<in> set (nv_segs v). range_overlaps (sg_norm s) r \<longrightarrow> range_contains (to_raw v r) (sg_raw s))"
proof -
  let ?base = "rstart (region_span region)"
  from view_cases [OF assms(1,2)] obtain piece where
    piece: "str_slice raw ?base (rend (region_span region)) = Some piece"
    and reg: "nv_region v = region"
    and shape: "nv_identity v \<and> all_ascii piece \<and> nv_norm v = piece \<and> nv_segs v = [] \<or> folded_ok v piece"
    by blast
  have span: "rend (region_span region) = ?base + length piece"
    using piece by (auto simp: str_slice_Some)
  from shape show ?thesis
  proof
    assume id: "nv_identity v \<and> all_ascii piece \<and> nv_norm v = piece \<and> nv_segs v = []"
    then have raw: "to_raw v r = range_new (?base + rstart r) (?base + rend r)"
      using assms(3,4) span reg by (simp add: to_raw_def Let_def)
    have "is_char_boundary raw (?base + k)" if "k \<le> length piece" for k
      using boundary_in_slice [OF piece is_char_boundary_ascii that] id that by blast
    with id assms(3,4) span show ?thesis
      unfolding raw by (simp add: range_defs)
  next
    assume ok: "folded_ok v piece"
    from to_raw_segments [OF ok assms(3,4)] obtain i j where
      ij: "i \<le> j" "j < length (nv_segs v)"
        "rstart (sg_norm (nv_segs v ! i)) \<le> rstart r" "rstart r < rend (sg_norm (nv_segs v ! i))"
        "rstart (sg_norm (nv_segs v ! j)) < rend r" "rend r \<le> rend (sg_norm (nv_segs v ! j))"
      and raw: "to_raw v r = range_new (rstart (sg_raw (nv_segs v ! i))) (rend (sg_raw (nv_segs v ! j)))"
      by blast
    from ok reg have segs: "sorted_wrt seg_order (nv_segs v)" "list_all (seg_ok ?base piece) (nv_segs v)"
      by (simp_all add: folded_ok_def segs_ok_def)
    have each: "seg_ok ?base piece (nv_segs v ! k)" if "k < length (nv_segs v)" for k
      using segs(2) that by (simp add: list_all_length)
    have boundary: "is_char_boundary raw k"
      if "?base \<le> k" "k \<le> ?base + length piece" "is_char_boundary piece (k - ?base)" for k
      using boundary_in_slice [OF piece that(3)] that(1,2) by simp
    have ends: "rstart (sg_raw (nv_segs v ! k)) \<le> rstart (sg_raw (nv_segs v ! l)) \<and>
        rend (sg_raw (nv_segs v ! k)) \<le> rend (sg_raw (nv_segs v ! l))"
      if "k \<le> l" "l < length (nv_segs v)" for k l
      using seg_order_nth(2,4) [OF segs _ that(2), of k] that each [OF that(2)]
      by (cases "k = l") (auto simp: seg_ok_def)
    have "range_contains (to_raw v r) (sg_raw s)" if s: "s \<in> set (nv_segs v)" "range_overlaps (sg_norm s) r" for s
    proof -
      from s(1) obtain k where k: "k < length (nv_segs v)" "s = nv_segs v ! k" by (auto simp: in_set_conv_nth)
      have "i \<le> k"
      proof (rule ccontr)
        assume "\<not> i \<le> k"
        with seg_order_nth(1) [OF segs, of k i] ij s(2) k show False by (auto simp: range_overlaps_def)
      qed
      moreover have "k \<le> j"
      proof (rule ccontr)
        assume "\<not> k \<le> j"
        with seg_order_nth(1) [OF segs, of j k] ij s(2) k show False by (auto simp: range_overlaps_def)
      qed
      ultimately show ?thesis
        using ends k ij(2) by (simp add: raw range_contains_def range_new_def)
    qed
    moreover have "seg_ok ?base piece (nv_segs v ! i)" "seg_ok ?base piece (nv_segs v ! j)"
      using each ij by auto
    ultimately show ?thesis
      using ends [OF ij(1,2)] boundary unfolding raw span
      by (auto simp: seg_ok_def range_defs raw span)
  qed
qed



text \<open>
  Mapping to raw coordinates and back loses nothing: the raw range of a normalized range
  maps back to a normalized range that contains it and covers the same raw bytes.
\<close>

theorem view_roundtrip:
  assumes "view_build nfkc region raw = Some v" and "utf8_valid raw"
    and "rstart r < rend r" and "rend r \<le> length (nv_norm v)"
  shows "\<exists>q. to_norm v (to_raw v r) = Some q \<and> range_contains q r \<and> rend q \<le> length (nv_norm v) \<and>
    to_raw v q = to_raw v r"
proof -
  let ?base = "rstart (region_span region)"
  from view_cases [OF assms(1,2)] obtain piece where
    piece: "str_slice raw ?base (rend (region_span region)) = Some piece"
    and reg: "nv_region v = region"
    and shape: "nv_identity v \<and> all_ascii piece \<and> nv_norm v = piece \<and> nv_segs v = [] \<or> folded_ok v piece"
    by blast
  have span: "rend (region_span region) = ?base + length piece"
    using piece by (auto simp: str_slice_Some)
  from shape show ?thesis
  proof
    assume id: "nv_identity v \<and> all_ascii piece \<and> nv_norm v = piece \<and> nv_segs v = []"
    then have "to_raw v r = range_new (?base + rstart r) (?base + rend r)"
      using assms(3,4) span reg by (simp add: to_raw_def Let_def)
    moreover from this have "to_norm v (to_raw v r) = Some r"
      using id assms(3,4) span reg by (simp add: to_norm_def Let_def range_new_def)
    ultimately show ?thesis using assms(4) by (auto simp: range_contains_def)
  next
    assume ok: "folded_ok v piece"
    from to_raw_segments [OF ok assms(3,4)] obtain i j where
      ij: "i \<le> j" "j < length (nv_segs v)"
        "rstart (sg_norm (nv_segs v ! i)) \<le> rstart r" "rstart r < rend (sg_norm (nv_segs v ! i))"
        "rstart (sg_norm (nv_segs v ! j)) < rend r" "rend r \<le> rend (sg_norm (nv_segs v ! j))"
      and raw: "to_raw v r = range_new (rstart (sg_raw (nv_segs v ! i))) (rend (sg_raw (nv_segs v ! j)))"
      by blast
    from ok reg have segs: "segs_ok ?base piece (nv_segs v) (length (nv_norm v)) (length piece)"
      by (simp add: folded_ok_def)
    let ?q = "range_new (rstart (sg_norm (nv_segs v ! i))) (rend (sg_norm (nv_segs v ! j)))"
    have i: "i < length (nv_segs v)" using ij by simp
    have seg: "seg_ok ?base piece (nv_segs v ! i)" "seg_ok ?base piece (nv_segs v ! j)"
      using segs i ij(2) by (auto simp: segs_ok_def list_all_length)
    from to_raw_covers [OF assms] have within: "range_contains (region_span region) (to_raw v r)"
      "\<not> range_is_empty (to_raw v r)"
      by auto
    have "to_norm v (to_raw v r) = Some ?q"
      using ok within raw_position(1) [OF segs i] raw_position(2) [OF segs ij(2)] ij reg assms(3)
      by (auto simp: to_norm_def Let_def raw range_new_def range_contains_def range_is_empty_def folded_ok_def)
    moreover have "range_contains ?q r" using ij by (simp add: range_contains_def range_new_def)
    moreover have qn: "rend ?q \<le> length (nv_norm v)"
      using segs ij(2) by (simp add: segs_ok_def tiles_def range_new_def)
    moreover have "to_raw v ?q = to_raw v r"
    proof -
      from ok have id: "\<not> nv_identity v" by (simp add: folded_ok_def)
      obtain m where m: "rend (sg_norm (nv_segs v ! j)) = Suc m" "rstart (sg_norm (nv_segs v ! j)) \<le> m"
        using seg(2) by (cases "rend (sg_norm (nv_segs v ! j))") (auto simp: seg_ok_def)
      have "raw_start_at v (rstart ?q) = rstart (sg_raw (nv_segs v ! i))"
        using norm_position(1) [OF segs i, of "rstart ?q"] seg(1) i
        by (simp add: raw_start_at_def range_new_def seg_ok_def)
      moreover have "raw_end_at v (rend ?q) = rend (sg_raw (nv_segs v ! j))"
        using norm_position(2) [OF segs ij(2) m(2)] m(1) ij(2)
        by (simp add: raw_end_at_def range_new_def)
      moreover have "rstart (sg_raw (nv_segs v ! i)) < rend (sg_raw (nv_segs v ! j))"
        using within(2) by (simp add: raw range_is_empty_def range_new_def)
      ultimately have "to_raw v ?q = range_new (rstart (sg_raw (nv_segs v ! i))) (rend (sg_raw (nv_segs v ! j)))"
        using id by (simp add: to_raw_def Let_def max_def)
      with raw show ?thesis by simp
    qed
    ultimately show ?thesis by blast
  qed
qed

lemma view_roundtrip_witness:
  "\<exists>q. to_norm example_view (to_raw example_view (range_new 1 2)) = Some q \<and>
    range_contains q (range_new 1 2) \<and> to_raw example_view q = to_raw example_view (range_new 1 2)"
proof -
  have "utf8_valid example_escaped" by code_simp
  from view_roundtrip [OF example_view_build this, of "range_new 1 2"] show ?thesis
    by (auto simp: example_view_def range_new_def)
qed


section \<open>The identity fast path\<close>

lemma hex_ascii_pair:
  "\<not> hex_pair_at bytes i \<Longrightarrow> j = Suc i \<Longrightarrow> hex_ascii (bytes ! i) (bytes ! j) = None"
  by (cases "hex_val (bytes ! i)"; cases "hex_val (bytes ! Suc i)")
    (auto simp: hex_ascii_def hex_pair_at_def)

lemma no_escape:
  assumes "is_identity_detection_slice bytes" and "i < length bytes"
  shows "escape_at False bytes i = None"
proof -
  have marks: "\<not> marks_escape bytes i"
    and html: "bytes ! i = CHR ''&'' \<Longrightarrow> html_numeric_escape bytes i = None"
    using assms by (auto simp: is_identity_detection_slice_def list_all_iff)
  have "percent_escape bytes i = None"
    using marks hex_ascii_pair [of bytes "i + 1" "i + 2"]
    by (simp add: percent_escape_def marks_escape_def)
  moreover have "bytes ! i = CHR 0x5C \<Longrightarrow> unicode_escape bytes i = None"
    using marks hex_ascii_pair [of bytes "i + 4" "i + 5"]
    by (simp add: unicode_escape_def marks_escape_def)
  moreover have "bytes ! i = CHR 0x5C \<Longrightarrow> hex_escape bytes i = None"
    using marks hex_ascii_pair [of bytes "i + 2" "i + 3"]
    by (auto simp: hex_escape_def marks_escape_def)
  moreover have "bytes ! i = CHR 0x5C \<Longrightarrow> octal_escape bytes i = None"
    using marks by (auto simp: octal_escape_def marks_escape_def)
  moreover have "quoted_printable_escape False bytes i = None"
    by (simp add: quoted_printable_escape_def)
  ultimately show ?thesis using html by (simp add: escape_at_def or_else_def)
qed

definition unit_segs :: "nat \<Rightarrow> nat \<Rightarrow> nat \<Rightarrow> seg list" where
  "unit_segs base i n =
     map (\<lambda>k. \<lparr>sg_norm = range_new k (k + 1), sg_raw = range_new (base + k) (base + k + 1)\<rparr>) [i..<n]"

lemma build_loop_identity:
  assumes "is_identity_detection_slice bytes" and "\<forall>c. is_ascii c \<longrightarrow> nfkc [c] = [c]"
  shows "i \<le> length bytes \<Longrightarrow> length norm = i \<Longrightarrow>
    build_loop nfkc base bytes [] i norm segs = (norm @ drop i bytes, segs @ unit_segs base i (length bytes))"
proof (induction "length bytes - i" arbitrary: i norm segs)
  case 0
  then show ?case by (subst build_loop.simps) (simp add: unit_segs_def)
next
  case (Suc n)
  then have i: "i < length bytes" by simp
  then have ascii: "is_ascii (bytes ! i)"
    using assms(1) by (simp add: is_identity_detection_slice_def list_all_length)
  have dropi: "drop i bytes = bytes ! i # drop (Suc i) bytes" using i by (rule Cons_nth_drop_Suc [symmetric])
  have ch: "hd (utf8_chars (drop i bytes)) = [bytes ! i]"
    unfolding dropi using ascii by simp
  have "build_loop nfkc base bytes [] i norm segs =
      build_loop nfkc base bytes [] (Suc i) (norm @ [bytes ! i])
        (segs @ [\<lparr>sg_norm = range_new i (i + 1), sg_raw = range_new (base + i) (base + i + 1)\<rparr>])"
    using i no_escape [OF assms(1) i] assms(2) ascii Suc.prems(2)
    by (subst build_loop.simps)
      (simp add: Let_def ch is_zero_width_def is_bidi_def)
  also have "\<dots> = (norm @ drop i bytes, segs @ unit_segs base i (length bytes))"
    using Suc.hyps(1) [of "Suc i" "norm @ [bytes ! i]"] Suc.hyps(2) Suc.prems i
    by (simp add: unit_segs_def upt_conv_Cons dropi)
  finally show ?case .
qed

lemma nth_unit_segs:
  "k < n \<Longrightarrow> unit_segs base 0 n ! k =
     \<lparr>sg_norm = range_new k (k + 1), sg_raw = range_new (base + k) (base + k + 1)\<rparr>"
  by (simp add: unit_segs_def)

lemma length_unit_segs [simp]: "length (unit_segs base 0 n) = n"
  by (simp add: unit_segs_def)

text \<open>
  The fast path is exact: when a slice passes \<open>is_identity_detection_slice\<close>, the full
  normalization would have produced the slice itself and the same raw range for every
  non-empty range of it. (NFKC maps an ASCII character to itself.)
\<close>

theorem identity_view_exact:
  assumes "str_slice raw (rstart (region_span region)) (rend (region_span region)) = Some piece"
    and "utf8_valid raw" and "is_identity_detection_slice piece"
    and "\<forall>c. is_ascii c \<longrightarrow> nfkc [c] = [c]"
  shows "nv_norm (folded_view nfkc region raw piece) = nv_norm (identity_view region raw piece) \<and>
    (\<forall>r :: byte_range. rstart r < rend r \<longrightarrow> rend r \<le> length piece \<longrightarrow>
       to_raw (folded_view nfkc region raw piece) r = to_raw (identity_view region raw piece) r)"
proof (intro conjI allI impI)
  let ?v = "folded_view nfkc region raw piece"
  let ?base = "rstart (region_span region)"
  have qp: "quoted_printable_runs piece = []"
    using assms(3) by (simp add: is_identity_detection_slice_def)
  have built: "build_loop nfkc ?base piece [] 0 [] [] = (piece, unit_segs ?base 0 (length piece))"
    using build_loop_identity [OF assms(3,4), of 0 "[]" ?base "[]"] by simp
  then show norm: "nv_norm ?v = nv_norm (identity_view region raw piece)"
    by (simp add: folded_view_def identity_view_def qp)
  fix r :: byte_range
  assume r: "rstart r < rend r" "rend r \<le> length piece"
  have segs: "nv_segs ?v = unit_segs ?base 0 (length piece)"
    using built by (simp add: folded_view_def qp)
  have span: "rend (region_span region) = ?base + length piece"
    using assms(1) by (auto simp: str_slice_Some)
  from to_raw_segments [OF folded_view_ok [OF assms(1,2)], of r nfkc] r norm
  obtain i j where "i \<le> j" "j < length (nv_segs ?v)"
    "rstart (sg_norm (nv_segs ?v ! i)) \<le> rstart r" "rstart r < rend (sg_norm (nv_segs ?v ! i))"
    "rstart (sg_norm (nv_segs ?v ! j)) < rend r" "rend r \<le> rend (sg_norm (nv_segs ?v ! j))"
    "to_raw ?v r = range_new (rstart (sg_raw (nv_segs ?v ! i))) (rend (sg_raw (nv_segs ?v ! j)))"
    by (auto simp: identity_view_def)
  then have "i = rstart r" "Suc j = rend r"
    "to_raw ?v r = range_new (?base + i) (?base + j + 1)"
    by (simp_all add: segs nth_unit_segs range_new_def)
  moreover from this have "?base + j + 1 = ?base + rend r" by simp
  ultimately have "to_raw ?v r = range_new (?base + rstart r) (?base + rend r)" by (simp only:)
  moreover have "to_raw (identity_view region raw piece) r = range_new (?base + rstart r) (?base + rend r)"
    using r span by (simp add: to_raw_def identity_view_def Let_def)
  ultimately show "to_raw ?v r = to_raw (identity_view region raw piece) r" by simp
qed

lemma identity_view_exact_witness:
  "nv_norm (folded_view (\<lambda>c. c) (example_region 3) ''a-b'' ''a-b'') =
     nv_norm (identity_view (example_region 3) ''a-b'' ''a-b'') \<and>
   to_raw (folded_view (\<lambda>c. c) (example_region 3) ''a-b'' ''a-b'') (range_new 1 3) =
     to_raw (identity_view (example_region 3) ''a-b'' ''a-b'') (range_new 1 3)"
proof -
  have "str_slice ''a-b'' (rstart (region_span (example_region 3)))
      (rend (region_span (example_region 3))) = Some ''a-b''" by code_simp
  moreover have "utf8_valid ''a-b''" "is_identity_detection_slice ''a-b''" by code_simp+
  ultimately show ?thesis
    using identity_view_exact [of "''a-b''" "example_region 3" "''a-b''" "\<lambda>c. c"]
    by (simp add: range_new_def)
qed

end
