(* ===== verification/Frozen.thy ===== *)
theory Frozen
  imports Recovery Interval
begin

text \<open>
  The scanner for placeholders that a document already holds, \<open>scan_placeholders\<close> of
  \<open>pipeline/mod.rs\<close>: masking leaves the ranges it reports alone.
\<close>


section \<open>Existing placeholders\<close>

text \<open>
  \<open>PLACEHOLDER_RE\<close>: the classes between the brackets contain no bracket, so a match runs to the
  first closing bracket, and the expression is a property of what lies between.
\<close>

definition length_hint_tail :: "str \<Rightarrow> bool" where
  "length_hint_tail s \<longleftrightarrow>
     (case strip_prefix ''_len'' s of
        Some d \<Rightarrow> d \<noteq> [] \<and> list_all is_ascii_digit d | None \<Rightarrow> False) \<or>
     (case Option.bind (strip_prefix ''_length_'' s) (strip_suffix ''_chars'') of
        Some d \<Rightarrow> d \<noteq> [] \<and> list_all is_ascii_digit d | None \<Rightarrow> False) \<or>
     (case Option.bind (strip_prefix ''_length_at_least_'' s) (strip_suffix ''_chars'') of
        Some d \<Rightarrow> d \<noteq> [] \<and> list_all is_ascii_digit d | None \<Rightarrow> False)"

definition hash_tail :: "str \<Rightarrow> bool" where
  "hash_tail s \<longleftrightarrow>
     list_ex (\<lambda>n. n \<le> length s \<and> list_all is_lower_hex (take n s) \<and>
       (drop n s = [] \<or> length_hint_tail (drop n s))) [16, 64]"

definition placeholder_inner :: "str \<Rightarrow> bool" where
  "placeholder_inner s \<longleftrightarrow>
     list_ex (\<lambda>i. is_ascii_uppercase (hd s) \<and> list_all is_label_char (take i s) \<and>
       s ! i = CHR ''_'' \<and> hash_tail (drop (Suc i) s)) [1..<length s]"

text \<open>The length of a match at the start of a text.\<close>

definition placeholder_match :: "str \<Rightarrow> nat option" where
  "placeholder_match s =
     (if prefix ''<<'' s then
        (case str_find ''>>'' (drop 2 s) of
           Some i \<Rightarrow> if placeholder_inner (take i (drop 2 s)) then Some (i + 4) else None
         | None \<Rightarrow> None)
      else None)"

function scan_placeholders_from :: "nat \<Rightarrow> str \<Rightarrow> byte_range list" where
  "scan_placeholders_from k s =
     (if s = [] then []
      else case placeholder_match s of
             Some n \<Rightarrow> range_new k (k + n) # scan_placeholders_from (k + n) (drop n s)
           | None \<Rightarrow> scan_placeholders_from (Suc k) (tl s))"
  by pat_completeness auto
termination
  by (relation "measure (\<lambda>(k, s). length s)")
    (auto simp: placeholder_match_def split: if_splits option.splits)

declare scan_placeholders_from.simps [simp del]

definition scan_placeholders :: "str \<Rightarrow> byte_range list" where
  "scan_placeholders raw = scan_placeholders_from 0 raw"


section \<open>What the scanner accepts\<close>

lemma length_hint_tail_chars: "length_hint_tail s \<Longrightarrow> list_all handle_char s"
proof -
  assume "length_hint_tail s"
  then consider d where "s = ''_len'' @ d" "list_all is_ascii_digit d"
    | d where "s = ''_length_'' @ d @ ''_chars''" "list_all is_ascii_digit d"
    | d where "s = ''_length_at_least_'' @ d @ ''_chars''" "list_all is_ascii_digit d"
    by (auto simp: length_hint_tail_def strip_prefix_Some strip_suffix_Some bind_eq_Some_conv
        split: option.splits)
  moreover have digits: "list_all handle_char d" if "list_all is_ascii_digit d" for d
    using that digit_handle by (auto simp: list_all_iff)
  ultimately show ?thesis
  proof cases
    case 1
    with digits show ?thesis by (simp add: handle_char_code)
  next
    case 2
    with digits show ?thesis by (simp add: handle_char_code)
  next
    case 3
    with digits show ?thesis by (simp add: handle_char_code)
  qed
qed

lemma hash_tail_chars: "hash_tail s \<Longrightarrow> list_all handle_char s"
proof -
  assume "hash_tail s"
  then obtain n where n: "list_all is_lower_hex (take n s)"
    "drop n s = [] \<or> length_hint_tail (drop n s)"
    by (auto simp: hash_tail_def)
  have "list_all handle_char (take n s)"
    using n(1) is_lower_hex_handle by (auto simp: list_all_iff)
  moreover have "list_all handle_char (drop n s)"
    using n(2) length_hint_tail_chars by auto
  ultimately have "list_all handle_char (take n s @ drop n s)"
    by (simp only: list_all_append)
  then show ?thesis by simp
qed

lemma placeholder_inner_split:
  assumes "placeholder_inner s"
  obtains label tail where "s = label @ ''_'' @ tail" "label_ok label" "hash_tail tail"
proof -
  from assms obtain i where i: "1 \<le> i" "i < length s" "is_ascii_uppercase (hd s)"
    "list_all is_label_char (take i s)" "s ! i = CHR ''_''" "hash_tail (drop (Suc i) s)"
    by (auto simp: placeholder_inner_def list_ex_iff)
  have "s = take i s @ ''_'' @ drop (Suc i) s"
    using i(2,5) id_take_nth_drop [of i s] by simp
  moreover have "label_ok (take i s)"
    using i(1,2,3,4) by (cases s) (auto simp: label_ok_iff take_Cons split: nat.splits)
  ultimately show ?thesis using that i(6) by blast
qed

lemma placeholder_inner_chars: "placeholder_inner s \<Longrightarrow> list_all handle_char s"
proof (erule placeholder_inner_split)
  fix label tail assume s: "s = label @ ''_'' @ tail" "label_ok label" "hash_tail tail"
  have "list_all handle_char label"
    using s(2) is_label_char_handle by (auto simp: label_ok_iff list_all_iff is_label_char_def)
  with s hash_tail_chars [OF s(3)] show "list_all handle_char s"
    by (simp add: handle_char_code)
qed

lemma placeholder_innerI:
  assumes "label_ok label" and "hash_tail tail"
  shows "placeholder_inner (label @ ''_'' @ tail)"
proof -
  have "label \<noteq> []" "is_ascii_uppercase (hd (label @ ''_'' @ tail))" "list_all is_label_char label"
    using assms(1) by (auto simp: label_ok_iff hd_append is_label_char_def)
  then show ?thesis
    using assms(2) unfolding placeholder_inner_def list_ex_iff
    by (intro bexI [of _ "length label"]) (auto simp: Suc_le_eq)
qed

lemma rendered_inner: "label_ok label \<Longrightarrow> hash_ok hash \<Longrightarrow> placeholder_inner (handle_inner label hash n)"
proof -
  assume ok: "label_ok label" "hash_ok hash"
  let ?tail = "case n of None \<Rightarrow> [] | Some k \<Rightarrow> ''_length_'' @ show_nat (unat k) @ ''_chars''"
  have "length_hint_tail (''_length_'' @ show_nat k @ ''_chars'')" for k
  proof -
    have "list_all is_ascii_digit (show_nat k)" using show_nat_digits by (auto simp: list_all_iff)
    then show ?thesis
      unfolding length_hint_tail_def strip_prefix_append Option.bind.bind_lunit strip_suffix_append
        option.case by simp
  qed
  then have "hash_tail (hash @ ?tail)"
    using ok(2) unfolding hash_ok_iff hash_tail_def list_ex_iff
    by (intro bexI [of _ "length hash"]) (auto split: option.splits)
  from placeholder_innerI [OF ok(1) this] show ?thesis
    by (simp add: handle_inner_def split: option.splits)
qed

lemma placeholder_match_Some:
  assumes "placeholder_match s = Some n"
  obtains inner rest where "s = ''<<'' @ inner @ ''>>'' @ rest" "n = length inner + 4"
    "placeholder_inner inner"
proof -
  from assms obtain i where i: "prefix ''<<'' s" "str_find ''>>'' (drop 2 s) = Some i"
    "placeholder_inner (take i (drop 2 s))" "n = i + 4"
    by (auto simp: placeholder_match_def split: if_splits option.splits)
  from i(1) obtain t where t: "s = ''<<'' @ t" by (auto simp: prefix_def)
  with i(2) have "sublist_at ''>>'' i t" using str_find_Some by fastforce
  then obtain rest where "t = take i t @ ''>>'' @ rest" "i \<le> length t"
    by (metis append_take_drop_id prefix_def sublist_at_def)
  then show ?thesis using that [of "take i t" rest] t i(3,4) by simp
qed

lemma sublist_at_nth: "sublist_at (c # pat) j s \<Longrightarrow> s ! j = c"
  by (auto simp: sublist_at_def prefix_def intro: nth_via_drop)

lemma placeholder_match_append:
  assumes "placeholder_inner inner"
  shows "placeholder_match ((''<<'' @ inner @ ''>>'') @ rest) = Some (length inner + 4)"
proof -
  have no: "\<not> sublist_at ''>>'' j (inner @ ''>>'' @ rest)" if "j < length inner" for j
  proof -
    have "(inner @ ''>>'' @ rest) ! j = inner ! j" using that by (simp add: nth_append)
    moreover have "handle_char (inner ! j)"
      using placeholder_inner_chars [OF assms] that by (simp add: list_all_length)
    ultimately have "(inner @ ''>>'' @ rest) ! j \<noteq> CHR ''>''" using handle_char_not by auto
    then show ?thesis using sublist_at_nth [of "CHR ''>''" "''>''" j "inner @ ''>>'' @ rest"] by blast
  qed
  have "str_find ''>>'' (inner @ ''>>'' @ rest) = Some (length inner)"
    by (rule str_find_eqI) (use no in \<open>auto simp: sublist_at_def\<close>)
  then show ?thesis using assms by (simp add: placeholder_match_def)
qed

text \<open>A match that starts earlier ends before a placeholder begins.\<close>

lemma placeholder_match_before:
  assumes "placeholder_match (pre @ ''<<'' @ post) = Some n" and "pre \<noteq> []"
  shows "n \<le> length pre"
proof (rule ccontr)
  assume "\<not> n \<le> length pre"
  from assms(1) obtain inner rest where eq: "pre @ ''<<'' @ post = ''<<'' @ inner @ ''>>'' @ rest"
    and n: "n = length inner + 4" and "placeholder_inner inner"
    by (rule placeholder_match_Some)
  note chars = placeholder_inner_chars [OF this(3)]
  let ?t = "''<<'' @ inner @ ''>>''"
  have nth: "(pre @ ''<<'' @ post) ! k = ?t ! k" if "k < n" for k
  proof -
    have "pre @ ''<<'' @ post = ?t @ rest" using eq by simp
    then show ?thesis using that n by (simp only: nth_append) simp
  qed
  have open_bracket: "(pre @ ''<<'' @ post) ! length pre = CHR ''<''"
      "(pre @ ''<<'' @ post) ! Suc (length pre) = CHR ''<''"
    by (simp_all add: nth_append)
  have "inner \<noteq> []" using \<open>placeholder_inner inner\<close> by (auto simp: placeholder_inner_def)
  then have n5: "5 \<le> n" using n by (cases inner) auto
  have "1 \<le> length pre" using assms(2) by (cases pre) auto
  then consider "length pre = 1" | "2 \<le> length pre" by linarith
  then show False
  proof cases
    case 1
    with n5 have "?t ! 2 = CHR ''<''" using nth [of 2] open_bracket(2) by (simp add: numeral_2_eq_2)
    then show False using angle_nth [of 2 inner] chars by simp
  next
    case 2
    then have "?t ! length pre = CHR ''<''"
      using nth [of "length pre"] open_bracket(1) \<open>\<not> n \<le> length pre\<close> by simp
    then show False
      using angle_nth [of "length pre" inner] chars 2 \<open>\<not> n \<le> length pre\<close> n by simp
  qed
qed

lemma scan_finds_placeholder:
  assumes "placeholder_inner inner" and "h = ''<<'' @ inner @ ''>>''"
  shows "range_new (k + length pre) (k + length pre + length h)
    \<in> set (scan_placeholders_from k (pre @ h @ post))"
proof (induction pre arbitrary: k rule: length_induct)
  case (1 pre)
  show ?case
  proof (cases "pre = []")
    case True
    with placeholder_match_append [OF assms(1), of post] assms(2) show ?thesis
      by (subst scan_placeholders_from.simps) (simp add: add.commute [of 4] numeral_eq_Suc)
  next
    case False
    show ?thesis
    proof (cases "placeholder_match (pre @ h @ post)")
      case None
      from 1 [rule_format, of "tl pre" "Suc k"] False None show ?thesis
        by (subst scan_placeholders_from.simps) (cases pre; simp)
    next
      case (Some n)
      have le: "n \<le> length pre"
        using placeholder_match_before [OF _ False, of "inner @ ''>>'' @ post"] Some assms(2) by simp
      have pos: "0 < n" using placeholder_match_Some [OF Some] by (metis add_gr_0 zero_less_numeral)
      from 1 [rule_format, of "drop n pre" "k + n"] False le pos
      have "range_new (k + length pre) (k + length pre + length h)
          \<in> set (scan_placeholders_from (k + n) (drop n pre @ h @ post))" by simp
      with False le Some show ?thesis by (subst scan_placeholders_from.simps) simp
    qed
  qed
qed

lemma scan_from_sound:
  "r \<in> set (scan_placeholders_from k s) \<Longrightarrow>
     \<exists>pre inner post. s = pre @ (''<<'' @ inner @ ''>>'') @ post \<and> placeholder_inner inner \<and>
       rstart r = k + length pre \<and> rend r = rstart r + length inner + 4"
proof (induction k s rule: scan_placeholders_from.induct)
  case (1 k s)
  show ?case
  proof (cases "s = []")
    case True
    with "1.prems" show ?thesis by (simp add: scan_placeholders_from.simps)
  next
    case False
    show ?thesis
    proof (cases "placeholder_match s")
      case None
      with "1.prems" False have "r \<in> set (scan_placeholders_from (Suc k) (tl s))"
        by (subst (asm) scan_placeholders_from.simps) simp
      from "1.IH"(1) [OF False None this] obtain pre inner post where
        "tl s = pre @ (''<<'' @ inner @ ''>>'') @ post" "placeholder_inner inner"
        "rstart r = Suc k + length pre" "rend r = rstart r + length inner + 4" by blast
      then have "s = (hd s # pre) @ (''<<'' @ inner @ ''>>'') @ post \<and> placeholder_inner inner \<and>
          rstart r = k + length (hd s # pre) \<and> rend r = rstart r + length inner + 4"
        using False by (cases s) auto
      then show ?thesis by blast
    next
      case (Some n)
      obtain inner rest where m: "s = ''<<'' @ inner @ ''>>'' @ rest" "n = length inner + 4"
        "placeholder_inner inner" using placeholder_match_Some [OF Some] .
      from "1.prems" False Some consider "r = range_new k (k + n)"
        | "r \<in> set (scan_placeholders_from (k + n) (drop n s))"
        by (subst (asm) scan_placeholders_from.simps) auto
      then show ?thesis
      proof cases
        case 1
        then have "s = [] @ (''<<'' @ inner @ ''>>'') @ rest \<and> placeholder_inner inner \<and>
            rstart r = k + length ([] :: str) \<and> rend r = rstart r + length inner + 4"
          using m by (simp add: range_new_def)
        then show ?thesis by blast
      next
        case 2
        from "1.IH"(2) [OF False Some this] obtain pre inner' post where p:
          "drop n s = pre @ (''<<'' @ inner' @ ''>>'') @ post" "placeholder_inner inner'"
          "rstart r = k + n + length pre" "rend r = rstart r + length inner' + 4" by blast
        have "n \<le> length s" using m by simp
        then have "s = (take n s @ pre) @ (''<<'' @ inner' @ ''>>'') @ post \<and> placeholder_inner inner' \<and>
            rstart r = k + length (take n s @ pre) \<and> rend r = rstart r + length inner' + 4"
          using p append_take_drop_id [of n s] by simp
        then show ?thesis by blast
      qed
    qed
  qed
qed

lemma scan_from_separated:
  "sorted_wrt (\<lambda>a b. rend a \<le> rstart b) (scan_placeholders_from k s)"
proof (induction k s rule: scan_placeholders_from.induct)
  case (1 k s)
  show ?case
  proof (cases "s = [] \<or> placeholder_match s = None")
    case True
    with 1 show ?thesis by (subst scan_placeholders_from.simps) auto
  next
    case False
    then obtain n where n: "s \<noteq> []" "placeholder_match s = Some n" by auto
    from 1(2) [OF n] scan_from_sound [of _ "k + n" "drop n s"] n show ?thesis
      by (subst scan_placeholders_from.simps) (fastforce simp: range_new_def)
  qed
qed

lemma scan_disjoint: "disjoint_ranges (scan_placeholders s)"
  unfolding disjoint_ranges_def scan_placeholders_def
  by (rule sorted_wrt_mono_rel [OF _ scan_from_separated]) (auto simp: range_overlaps_def)

end
