(* ===== verification/Engine.thy ===== *)
theory Engine
  imports Merge Sweep Frozen Normalize Policy
begin

text \<open>
  The masking engine, \<open>pipeline/mod.rs\<close>: parsing into regions, detection to a bounded fixpoint,
  classification by policy and guard, merging, sweeping, relabelling and rendering, and the
  builder that puts an engine together. Detectors and parsers are trait objects in the code;
  here they are fields of the engine. \<open>None\<close> is a panic.
\<close>


section \<open>Configuration and results\<close>

record config =
  cf_key :: str
  cf_identity_key :: str
  cf_locale :: str
  cf_disclose_length :: bool

definition config_new :: "str \<Rightarrow> config" where
  "config_new key =
     \<lparr>cf_key = key, cf_identity_key = key, cf_locale = ''en'', cf_disclose_length = False\<rparr>"

definition with_identity_key :: "config \<Rightarrow> str \<Rightarrow> config" where
  "with_identity_key c k = c\<lparr>cf_identity_key := k\<rparr>"

definition insecure_testing :: config where
  "insecure_testing = config_new (replicate 32 (CHR 0x07))"

record residual_note =
  rs_category :: category
  rs_source :: detector_id

record masked_item =
  mi_category :: category
  mi_label :: str
  mi_confidence :: confidence
  mi_source :: detector_id

record summary =
  sm_masked_count :: nat
  sm_residual :: "residual_note list"
  sm_collisions :: "str list"
  sm_parser_fallback :: bool

record mask_result =
  mr_masked :: str
  mr_recovery :: recovery
  mr_segments :: "render_segment list"
  mr_items :: "masked_item list"
  mr_summary :: summary

record analysis_result =
  ar_items :: "masked_item list"
  ar_residual :: "residual_note list"
  ar_parser_fallback :: bool

record span_analysis_result =
  sa_spans :: "span list"
  sa_residual :: "residual_note list"
  sa_parser_fallback :: bool

text \<open>What the engine uses of other crates: NFKC and NFC, the multi-pattern search, the ciphers.\<close>

record externals =
  ex_nfkc :: "str \<Rightarrow> str"
  ex_n_id :: "str \<Rightarrow> str"
  ex_search :: find_overlapping
  ex_hmac :: hmac_fun
  ex_crypto :: crypto

type_synonym detector = "normalized_view \<Rightarrow> span list"
type_synonym parser = "str \<Rightarrow> region list option"

record engine =
  en_parsers :: "(kind \<times> parser) list"
  en_fallback :: parser
  en_detectors :: "detector list"
  en_policy :: policy
  en_guard :: "guard option"
  en_disabled :: "str list"


section \<open>Detection\<close>

fun concat_options :: "'a list option list \<Rightarrow> 'a list option" where
  "concat_options [] = Some []"
| "concat_options (x # xs) = Option.bind x (\<lambda>a. map_option (\<lambda>b. a @ b) (concat_options xs))"

definition detect_regions :: "externals \<Rightarrow> engine \<Rightarrow> region list \<Rightarrow> str \<Rightarrow> span list option" where
  "detect_regions ex en regions work =
     concat_options (map (\<lambda>region.
       map_option (\<lambda>v. concat (map (\<lambda>d. d v) (en_detectors en)))
         (view_build (ex_nfkc ex) region work)) regions)"

definition in_text :: "str \<Rightarrow> span \<Rightarrow> bool" where
  "in_text work s \<longleftrightarrow> rstart (sp_range s) \<le> rend (sp_range s) \<and> rend (sp_range s) \<le> length work \<and>
     is_char_boundary work (rstart (sp_range s)) \<and> is_char_boundary work (rend (sp_range s))"

definition touches_word :: "str \<Rightarrow> span \<Rightarrow> bool" where
  "touches_word b s \<longleftrightarrow>
     0 < rstart (sp_range s) \<and> is_ascii_alphanumeric (b ! (rstart (sp_range s) - 1)) \<or>
     rend (sp_range s) < length b \<and> is_ascii_alphanumeric (b ! rend (sp_range s))"

definition blank_span :: "span \<Rightarrow> str \<Rightarrow> str" where
  "blank_span s work =
     take (rstart (sp_range s)) work
     @ replicate (rend (sp_range s) - rstart (sp_range s)) (CHR '' '')
     @ drop (rend (sp_range s)) work"

fun detect_passes ::
    "externals \<Rightarrow> engine \<Rightarrow> region list \<Rightarrow> nat \<Rightarrow> span list \<Rightarrow> byte_range list \<Rightarrow> str \<Rightarrow>
     span list option" where
  "detect_passes ex en regions 0 spans seen work = Some spans"
| "detect_passes ex en regions (Suc n) spans seen work =
     Option.bind (detect_regions ex en regions work) (\<lambda>all.
       let found = filter (\<lambda>s. sp_range s \<notin> set seen) (filter (in_text work) all);
           more = list_ex (touches_word work) found
       in if found = [] then Some spans
          else if more
          then detect_passes ex en regions n (spans @ found) (seen @ map sp_range found)
                 (fold blank_span found work)
          else Some (spans @ found))"

text \<open>Four passes.\<close>

definition detect_fixpoint :: "externals \<Rightarrow> engine \<Rightarrow> ir \<Rightarrow> span list option" where
  "detect_fixpoint ex en ir = detect_passes ex en (ir_regions ir) 4 [] [] (ir_raw ir)"


section \<open>Classification\<close>

definition enabled_spans :: "engine \<Rightarrow> span list \<Rightarrow> span list" where
  "enabled_spans en spans =
     (if en_disabled en \<noteq> [] then filter (\<lambda>s. sp_label s \<notin> set (en_disabled en)) spans else spans)"

text \<open>Whether the guard spares a candidate; the slice of the text may panic.\<close>

definition spared :: "engine \<Rightarrow> str \<Rightarrow> span \<Rightarrow> bool option" where
  "spared en raw s =
     (if is_context_free s then
        (case en_guard en of
           None \<Rightarrow> Some False
         | Some g \<Rightarrow> map_option g (str_slice raw (rstart (sp_range s)) (rend (sp_range s))))
      else Some False)"

fun classify_spans ::
    "engine \<Rightarrow> str \<Rightarrow> span list \<Rightarrow> (span list \<times> residual_note list) option" where
  "classify_spans en raw [] = Some ([], [])"
| "classify_spans en raw (s # spans) =
     do {
       benign \<leftarrow> spared en raw s;
       (to_mask, residual) \<leftarrow> classify_spans en raw spans;
       Some (if benign then (to_mask, residual)
             else case en_policy en s of
               Mask \<Rightarrow> (s # to_mask, residual)
             | Warn \<Rightarrow>
                 (to_mask, \<lparr>rs_category = sp_category s, rs_source = sp_source s\<rparr> # residual)
             | Keep \<Rightarrow> (to_mask, residual)
             | Drop \<Rightarrow> (to_mask, residual))
     }"


section \<open>Relabelling\<close>

definition SECRET_VALUE_HINT :: str where
  "SECRET_VALUE_HINT = ''pentect:secret-value''"

definition env_label_char :: "str \<Rightarrow> byte" where
  "env_label_char ch =
     (case ch of
        [c] \<Rightarrow> if is_ascii_alphanumeric c \<or> c = CHR ''_'' then to_ascii_uppercase c else CHR ''_''
      | _ \<Rightarrow> CHR ''_'')"

definition env_placeholder_label :: "str \<Rightarrow> str" where
  "env_placeholder_label key =
     (let label = map env_label_char (utf8_chars key)
      in case label of
           c # _ \<Rightarrow> if is_ascii_uppercase c then label else ''ENV_'' @ label
         | [] \<Rightarrow> ''ENV_'')"

definition names_its_value :: "region \<Rightarrow> bool" where
  "names_its_value region \<longleftrightarrow>
     (case ctx_format (region_ctx region) of
        KEnv \<Rightarrow> True
      | KOther name \<Rightarrow> prefix ''structured'' name
      | _ \<Rightarrow> False) \<or>
     SECRET_VALUE_HINT \<in> set (ctx_hints (region_ctx region))"

fun env_key :: "region list \<Rightarrow> byte_range \<Rightarrow> str option" where
  "env_key [] r = None"
| "env_key (region # regions) r =
     (if names_its_value region \<and> range_contains (region_span region) r \<and>
         ctx_key (region_ctx region) \<noteq> None
      then ctx_key (region_ctx region) else env_key regions r)"

definition relabel_env_spans :: "span list \<Rightarrow> region list \<Rightarrow> span list" where
  "relabel_env_spans spans regions =
     map (\<lambda>s. case env_key regions (sp_range s) of
         Some key \<Rightarrow> s\<lparr>sp_label := env_placeholder_label key\<rparr> | None \<Rightarrow> s) spans"


section \<open>Masking\<close>

text \<open>The part that \<open>masked_spans\<close> and \<open>mask_supplied_spans\<close> share.\<close>

definition finish_spans ::
    "externals \<Rightarrow> engine \<Rightarrow> ir \<Rightarrow> span list \<Rightarrow> (span list \<times> residual_note list) option" where
  "finish_spans ex en ir spans =
     do {
       (to_mask, residual) \<leftarrow> classify_spans en (ir_raw ir) (enabled_spans en spans);
       swept \<leftarrow> identity_sweep (ex_search ex) (ex_n_id ex) (ir_raw ir)
         (merge to_mask (ir_protected ir)) (ir_protected ir) (ir_regions ir);
       Some (relabel_env_spans swept (ir_regions ir), residual)
     }"

definition masked_spans ::
    "externals \<Rightarrow> engine \<Rightarrow> ir \<Rightarrow> (span list \<times> residual_note list) option" where
  "masked_spans ex en ir = Option.bind (detect_fixpoint ex en ir) (finish_spans ex en ir)"

definition mask_supplied_spans ::
    "externals \<Rightarrow> engine \<Rightarrow> ir \<Rightarrow> span list \<Rightarrow> (span list \<times> residual_note list) option" where
  "mask_supplied_spans ex en ir spans = finish_spans ex en ir (filter (in_text (ir_raw ir)) spans)"

definition masked_items :: "span list \<Rightarrow> masked_item list" where
  "masked_items spans =
     map (\<lambda>s. \<lparr>mi_category = sp_category s, mi_label = sp_label s, mi_confidence = sp_confidence s,
               mi_source = sp_source s\<rparr>) spans"

definition assemble_result ::
    "externals \<Rightarrow> config \<Rightarrow> ir \<Rightarrow> bool \<Rightarrow> span list \<times> residual_note list \<Rightarrow> mask_result option" where
  "assemble_result ex cfg ir fell_back = (\<lambda>(swept, residual).
     map_option (\<lambda>rendered.
       \<lparr>mr_masked = rn_masked rendered,
        mr_recovery = seal (ex_crypto ex) (rn_map rendered) (cf_key cfg),
        mr_segments = rn_segments rendered,
        mr_items = masked_items swept,
        mr_summary = \<lparr>sm_masked_count = length (rn_map rendered), sm_residual = residual,
          sm_collisions = rn_collisions rendered, sm_parser_fallback = fell_back\<rparr>\<rparr>)
     (render (ex_hmac ex) (ir_raw ir) (cf_identity_key cfg) swept (cf_disclose_length cfg)))"

definition mask_ir :: "externals \<Rightarrow> engine \<Rightarrow> ir \<Rightarrow> config \<Rightarrow> mask_result option" where
  "mask_ir ex en ir cfg = Option.bind (masked_spans ex en ir) (assemble_result ex cfg ir False)"


section \<open>Parsing\<close>

definition make_ir :: "str \<Rightarrow> region list \<Rightarrow> byte_range list \<Rightarrow> ir" where
  "make_ir raw regions protected =
     \<lparr>ir_raw = raw, ir_regions = regions, ir_protected = protected\<rparr>"

definition secret_file_regions :: "kind \<Rightarrow> str \<Rightarrow> str \<Rightarrow> region list" where
  "secret_file_regions kind label raw =
     (if raw = [] then []
      else [\<lparr>region_span = range_new 0 (length raw),
             region_ctx = \<lparr>ctx_path = None, ctx_key = Some label, ctx_hints = [SECRET_VALUE_HINT],
               ctx_kind = Body, ctx_format = kind\<rparr>\<rparr>])"

definition secret_file_label :: "kind \<Rightarrow> str option" where
  "secret_file_label kind =
     (case kind of KOther name \<Rightarrow> strip_prefix ''secret-file:'' name | _ \<Rightarrow> None)"

definition parse_raw_with_protected ::
    "engine \<Rightarrow> kind \<Rightarrow> str \<Rightarrow> byte_range list \<Rightarrow> ir \<times> bool" where
  "parse_raw_with_protected en kind raw protected =
     (case secret_file_label kind of
        Some label \<Rightarrow> (make_ir raw (secret_file_regions kind label raw) protected, False)
      | None \<Rightarrow>
          let fallback = (case en_fallback en raw of Some regions \<Rightarrow> regions | None \<Rightarrow> [])
          in case map_of (en_parsers en) kind of
               Some p \<Rightarrow>
                 (case p raw of
                    Some regions \<Rightarrow> (make_ir raw regions protected, False)
                  | None \<Rightarrow> (make_ir raw fallback protected, True))
             | None \<Rightarrow> (make_ir raw fallback protected, False))"

definition parse_raw :: "engine \<Rightarrow> kind \<Rightarrow> str \<Rightarrow> ir \<times> bool" where
  "parse_raw en kind raw = parse_raw_with_protected en kind raw (scan_placeholders raw)"

definition parse_input :: "engine \<Rightarrow> input \<Rightarrow> ir \<times> bool" where
  "parse_input en inp = parse_raw en (input_kind inp) (input_data inp)"

text \<open>\<open>analysis_regions_for_kind\<close> of \<open>parse/mod.rs\<close> is the argument \<open>quick\<close>.\<close>

definition parse_for_analysis ::
    "(str \<Rightarrow> kind \<Rightarrow> region list option) \<Rightarrow> engine \<Rightarrow> input \<Rightarrow> ir \<times> bool" where
  "parse_for_analysis quick en inp =
     (let raw = input_data inp; protected = scan_placeholders raw
      in case quick raw (input_kind inp) of
           Some regions \<Rightarrow> (make_ir raw regions protected, False)
         | None \<Rightarrow> parse_raw_with_protected en (input_kind inp) raw protected)"


section \<open>Entry points\<close>

definition engine_mask :: "externals \<Rightarrow> engine \<Rightarrow> input \<Rightarrow> config \<Rightarrow> mask_result option" where
  "engine_mask ex en inp cfg =
     (case parse_input en inp of (ir, fell_back) \<Rightarrow>
        map_option (\<lambda>r. r\<lparr>mr_summary := (mr_summary r)\<lparr>sm_parser_fallback := fell_back\<rparr>\<rparr>)
          (mask_ir ex en ir cfg))"

definition engine_analyze :: "externals \<Rightarrow> engine \<Rightarrow> input \<Rightarrow> analysis_result option" where
  "engine_analyze ex en inp =
     (case parse_input en inp of (ir, fell_back) \<Rightarrow>
        map_option (\<lambda>(spans, residual).
          \<lparr>ar_items = masked_items spans, ar_residual = residual, ar_parser_fallback = fell_back\<rparr>)
          (masked_spans ex en ir))"

definition analyze_spans ::
    "(str \<Rightarrow> kind \<Rightarrow> region list option) \<Rightarrow> externals \<Rightarrow> engine \<Rightarrow> input \<Rightarrow> span_analysis_result option"
  where
  "analyze_spans quick ex en inp =
     (case parse_for_analysis quick en inp of (ir, fell_back) \<Rightarrow>
        map_option (\<lambda>(spans, residual).
          \<lparr>sa_spans = spans, sa_residual = residual, sa_parser_fallback = fell_back\<rparr>)
          (masked_spans ex en ir))"

definition add_path :: "str \<Rightarrow> region \<Rightarrow> region" where
  "add_path path region =
     (if ctx_path (region_ctx region) = None
      then region\<lparr>region_ctx := (region_ctx region)\<lparr>ctx_path := Some path\<rparr>\<rparr> else region)"

definition analyze_spans_with_path ::
    "(str \<Rightarrow> kind \<Rightarrow> region list option) \<Rightarrow> externals \<Rightarrow> engine \<Rightarrow> input \<Rightarrow> str \<Rightarrow>
     span_analysis_result option" where
  "analyze_spans_with_path quick ex en inp path =
     (case parse_for_analysis quick en inp of (ir, fell_back) \<Rightarrow>
        map_option (\<lambda>(spans, residual).
          \<lparr>sa_spans = spans, sa_residual = residual, sa_parser_fallback = fell_back\<rparr>)
          (masked_spans ex en (ir\<lparr>ir_regions := map (add_path path) (ir_regions ir)\<rparr>)))"

definition mask_context :: "externals \<Rightarrow> engine \<Rightarrow> str \<Rightarrow> context_rec \<Rightarrow> config \<Rightarrow> mask_result option"
  where
  "mask_context ex en data ctx cfg =
     mask_ir ex en (make_ir data
       [\<lparr>region_span = range_new 0 (length data), region_ctx = ctx\<rparr>] (scan_placeholders data)) cfg"

definition mask_regions ::
    "externals \<Rightarrow> engine \<Rightarrow> str \<Rightarrow> region list \<Rightarrow> config \<Rightarrow> mask_result option" where
  "mask_regions ex en raw regions cfg =
     mask_ir ex en (make_ir raw regions (scan_placeholders raw)) cfg"

definition mask_spans ::
    "externals \<Rightarrow> engine \<Rightarrow> input \<Rightarrow> span list \<Rightarrow> config \<Rightarrow> mask_result option" where
  "mask_spans ex en inp spans cfg =
     (case parse_input en inp of (ir, fell_back) \<Rightarrow>
        Option.bind (mask_supplied_spans ex en ir spans) (assemble_result ex cfg ir fell_back))"

end
