(* ===== verification/Guarantees.thy ===== *)
theory Guarantees
  imports Engine
begin

text \<open>
  What the masking engine guarantees as a whole: the stages of \<open>pipeline/mod.rs\<close> composed. Each
  lemma lifts the result of one stage (merge, sweep, relabelling, rendering) through the ones
  after it.
\<close>


section \<open>Labels\<close>

definition label_fits :: "nat \<Rightarrow> str \<Rightarrow> bool" where
  "label_fits n l \<longleftrightarrow> label_ok l \<and> length l \<le> n"

lemma env_label_char_ok: "is_label_char (env_label_char ch)"
proof -
  have "is_label_char (to_ascii_uppercase c)" if "is_ascii_alphanumeric c \<or> c = CHR ''_''" for c
  proof (cases "is_ascii_lowercase c")
    case True
    then have "65 \<le> code c - 32 \<and> code c - 32 \<le> 90" by (auto simp: ascii_class_defs)
    with True show ?thesis
      using code_char_of [of "code c - 32"] by (simp add: to_ascii_uppercase_def is_label_char_code)
  next
    case False
    with that show ?thesis
      by (auto simp: to_ascii_uppercase_def is_label_char_def is_ascii_alphanumeric_def
          is_ascii_alphabetic_def)
  qed
  moreover have "is_label_char (CHR ''_'')" by (simp add: is_label_char_def)
  ultimately show ?thesis by (auto simp: env_label_char_def split: list.splits)
qed

lemma length_utf8_chars: "length (utf8_chars s) \<le> length s"
proof (induction s rule: utf8_chars.induct)
  case (1 s)
  then show ?case
    using utf8_next_bounds [of s]
    by (subst utf8_chars.simps; cases s) (fastforce split: option.splits list.splits)+
qed

lemma env_label_fits: "length key \<le> n \<Longrightarrow> label_fits (n + 4) (env_placeholder_label key)"
proof -
  assume key: "length key \<le> n"
  define label where "label = map env_label_char (utf8_chars key)"
  have chars: "list_all is_label_char label"
    using env_label_char_ok by (simp add: label_def list_all_iff)
  have len: "length label \<le> n"
    using length_utf8_chars [of key] key by (simp add: label_def)
  have prefixed: "label_ok (''ENV_'' @ label)" "label_ok ''ENV_''"
    using chars by (simp_all add: label_ok_iff is_label_char_code ascii_class_defs)
  have out: "env_placeholder_label key = (case label of
        c # _ \<Rightarrow> if is_ascii_uppercase c then label else ''ENV_'' @ label | [] \<Rightarrow> ''ENV_'')"
    unfolding env_placeholder_label_def Let_def label_def ..
  show ?thesis
  proof (cases label)
    case Nil
    with out prefixed show ?thesis by (simp add: label_fits_def)
  next
    case (Cons c cs)
    have "label_ok label" if "is_ascii_uppercase c"
      using that chars Cons by (simp add: label_ok_iff)
    with Cons out prefixed(1) len show ?thesis by (auto simp: label_fits_def)
  qed
qed


section \<open>Classification\<close>

lemma in_text_slice: "in_text raw s \<longleftrightarrow> span_text raw s \<noteq> None"
  by (auto simp: in_text_def span_text_def str_slice_def)

lemma classify_spans_total:
  "\<forall>s \<in> set spans. in_text raw s \<Longrightarrow> classify_spans en raw spans \<noteq> None"
proof (induction spans)
  case (Cons s spans)
  then have "spared en raw s \<noteq> None"
    by (auto simp: spared_def in_text_slice span_text_def split: option.splits)
  with Cons show ?case by auto
qed simp

lemma classify_spans_masks:
  "classify_spans en raw spans = Some (to_mask, residual) \<Longrightarrow>
     to_mask = filter (\<lambda>s. spared en raw s = Some False \<and> en_policy en s = Mask) spans"
proof (induction spans arbitrary: to_mask residual)
  case (Cons s spans)
  from Cons.prems obtain benign tm rs where
    "spared en raw s = Some benign" "classify_spans en raw spans = Some (tm, rs)"
    "(to_mask, residual) = (if benign then (tm, rs)
       else case en_policy en s of Mask \<Rightarrow> (s # tm, rs)
         | Warn \<Rightarrow> (tm, \<lparr>rs_category = sp_category s, rs_source = sp_source s\<rparr> # rs)
         | Keep \<Rightarrow> (tm, rs) | Drop \<Rightarrow> (tm, rs))"
    by (auto simp: bind_eq_Some_conv)
  with Cons.IH show ?case by (auto split: action.splits if_splits)
qed simp

lemma enabled_spans_set:
  "set (enabled_spans en spans) = {s \<in> set spans. sp_label s \<notin> set (en_disabled en)}"
  by (auto simp: enabled_spans_def)


section \<open>From accepted findings to masked spans\<close>

lemma relabel_ranges [simp]: "map sp_range (relabel_env_spans spans regions) = map sp_range spans"
  by (simp add: relabel_env_spans_def split: option.splits)

lemma bytes_of_spans_ranges: "map sp_range xs = map sp_range ys \<Longrightarrow> bytes_of_spans xs = bytes_of_spans ys"
proof -
  have "bytes_of_spans xs = \<Union> (bytes_of ` set (map sp_range xs))" for xs
    by (simp add: bytes_of_spans_def)
  then show "map sp_range xs = map sp_range ys \<Longrightarrow> bytes_of_spans xs = bytes_of_spans ys" by metis
qed

lemma finish_spans_Some:
  assumes "finish_spans ex en ir spans = Some (out, residual)"
  obtains to_mask swept where
    "to_mask = filter (\<lambda>s. spared en (ir_raw ir) s = Some False \<and> en_policy en s = Mask)
       (enabled_spans en spans)"
    "identity_sweep (ex_search ex) (ex_n_id ex) (ir_raw ir)
       (merge to_mask (ir_protected ir)) (ir_protected ir) (ir_regions ir) = Some swept"
    "out = relabel_env_spans swept (ir_regions ir)"
  using assms by (auto simp: finish_spans_def bind_eq_Some_conv dest: classify_spans_masks)

text \<open>Every source of a masked span is one of the findings the policy masks.\<close>

definition accepted_spans :: "engine \<Rightarrow> str \<Rightarrow> span list \<Rightarrow> span list" where
  "accepted_spans en raw spans =
     filter (\<lambda>s. spared en raw s = Some False \<and> en_policy en s = Mask) (enabled_spans en spans)"

lemma sweep_accepts_text:
  "sweep_rep n_id raw accepted rep = Some rep' \<Longrightarrow> s \<in> set accepted \<Longrightarrow> span_text raw s \<noteq> None"
proof (induction accepted arbitrary: rep)
  case (Cons a accepted)
  from Cons.prems(1) obtain ok v where "span_text raw a = Some v"
    "sweep_rep n_id raw accepted (if ok then rep_insert n_id v a rep else rep) = Some rep'"
    by (rule sweep_rep_Cons)
  with Cons show ?case by auto
qed simp

lemma swept_copy_in_text:
  assumes "utf8_valid raw" and "swept_copy raw regions a s"
  shows "in_text raw s"
proof -
  obtain v where v: "span_text raw a = Some v" "v \<noteq> []"
    "sublist_at v (rstart (sp_range s)) raw" "rend (sp_range s) = rstart (sp_range s) + length v"
    using assms(2) by (auto simp: swept_copy_def)
  have "utf8_valid v" using slice_valid [OF assms(1)] v(1) by (simp add: span_text_def)
  from utf8_occurrence [OF assms(1) this v(2,3)] v(4) show ?thesis by (simp add: in_text_def)
qed

lemma merged_in_text:
  assumes "\<forall>s \<in> set spans. in_text raw s" and "m \<in> set (merge spans protected)"
  shows "in_text raw m"
proof -
  from merge_member(1,2) [OF assms(2)] obtain a b where "a \<in> set spans" "b \<in> set spans"
    "rstart (sp_range m) = rstart (sp_range a)" "rend (sp_range m) = rend (sp_range b)" by blast
  with assms(1) merge_solid [OF assms(2)] show ?thesis
    by (simp add: in_text_def range_is_empty_def)
qed

text \<open>The result of \<open>finish_spans\<close> is well placed: no overlap, nothing empty, all on boundaries.\<close>

definition well_placed :: "str \<Rightarrow> byte_range list \<Rightarrow> span list \<Rightarrow> bool" where
  "well_placed raw protected spans \<longleftrightarrow>
     disjoint_ranges (map sp_range spans @ protected) \<and>
     (\<forall>s \<in> set spans. solid s \<and> in_text raw s)"

lemma well_placed_ranges:
  assumes "map sp_range xs = map sp_range ys"
  shows "well_placed raw protected xs = well_placed raw protected ys"
proof -
  have "(\<forall>s \<in> set zs. solid s \<and> in_text raw s) \<longleftrightarrow>
      (\<forall>r \<in> set (map sp_range zs). \<not> range_is_empty r \<and> rstart r \<le> rend r \<and> rend r \<le> length raw \<and>
         is_char_boundary raw (rstart r) \<and> is_char_boundary raw (rend r))" for zs
    by (auto simp: in_text_def)
  from this [of xs] this [of ys] show ?thesis unfolding well_placed_def assms by simp
qed

lemma sweep_well_placed:
  assumes "overlapping_matcher search" and "utf8_valid raw"
    and "disjoint_ranges protected" and "\<forall>p \<in> set protected. \<not> range_is_empty p"
    and swept: "identity_sweep search n_id raw (merge to_mask protected) protected regions = Some out"
  shows "well_placed raw protected out"
proof -
  let ?m = "merge to_mask protected"
  have disj: "disjoint_ranges (map sp_range ?m @ protected)" by (rule merge_disjoint [OF assms(3,4)])
  have solid_m: "\<forall>r \<in> set (map sp_range ?m @ protected). \<not> range_is_empty r"
    using merge_solid assms(4) by fastforce
  obtain new where new: "set out = set ?m \<union> set new"
    "\<forall>s \<in> set new. \<exists>a \<in> set ?m. is_sweepable_identity raw a = Some True \<and> swept_copy raw regions a s"
    using overlapping_matcher.sweep_sound [OF assms(1) swept] by blast
  obtain rep where "sweep_rep n_id raw ?m [] = Some rep"
    using swept by (auto simp: identity_sweep_def)
  then have "in_text raw m" if "m \<in> set ?m" for m
    using that sweep_accepts_text in_text_slice by blast
  moreover have "in_text raw s \<and> solid s" if "s \<in> set new" for s
    using new(2) that swept_copy_in_text [OF assms(2)]
    by (fastforce simp: swept_copy_def range_is_empty_def)
  ultimately have "\<forall>s \<in> set out. solid s \<and> in_text raw s"
    using new(1) merge_solid by auto
  moreover have "disjoint_ranges (map sp_range out @ protected)"
    by (rule overlapping_matcher.sweep_disjoint [OF assms(1) swept disj solid_m])
  ultimately show ?thesis by (simp add: well_placed_def)
qed

lemma finish_well_placed:
  assumes "overlapping_matcher (ex_search ex)" and "utf8_valid (ir_raw ir)"
    and "disjoint_ranges (ir_protected ir)" and "\<forall>p \<in> set (ir_protected ir). \<not> range_is_empty p"
    and "finish_spans ex en ir spans = Some (out, residual)"
  shows "well_placed (ir_raw ir) (ir_protected ir) out"
proof -
  from assms(5) obtain to_mask swept where
    "identity_sweep (ex_search ex) (ex_n_id ex) (ir_raw ir)
       (merge to_mask (ir_protected ir)) (ir_protected ir) (ir_regions ir) = Some swept"
    "out = relabel_env_spans swept (ir_regions ir)" by (rule finish_spans_Some)
  with sweep_well_placed [OF assms(1-4)] show ?thesis
    by (simp add: well_placed_ranges [OF relabel_ranges])
qed

lemma finish_total:
  assumes "\<forall>s \<in> set spans. in_text (ir_raw ir) s"
  shows "finish_spans ex en ir spans \<noteq> None"
proof -
  have enabled: "\<forall>s \<in> set (enabled_spans en spans). in_text (ir_raw ir) s"
    using assms by (simp add: enabled_spans_set)
  then obtain to_mask residual where c:
    "classify_spans en (ir_raw ir) (enabled_spans en spans) = Some (to_mask, residual)"
    using classify_spans_total by fastforce
  then have "\<forall>s \<in> set to_mask. in_text (ir_raw ir) s"
    using enabled by (auto dest: classify_spans_masks)
  from merged_in_text [OF this]
  have "sweep_rep (ex_n_id ex) (ir_raw ir) (merge to_mask (ir_protected ir)) [] \<noteq> None"
    by (intro sweep_total) (use in_text_slice in blast)
  with c show ?thesis by (auto simp: finish_spans_def identity_sweep_def)
qed

text \<open>Nothing the sweep or the relabelling does uncovers a byte.\<close>

lemma finish_covers:
  assumes "overlapping_matcher (ex_search ex)"
    and "finish_spans ex en ir spans = Some (out, residual)"
  shows "bytes_of_spans (merge_kept (accepted_spans en (ir_raw ir) spans) (ir_protected ir))
    \<subseteq> bytes_of_spans out"
proof -
  from assms(2) obtain to_mask swept where f: "to_mask = accepted_spans en (ir_raw ir) spans"
    "identity_sweep (ex_search ex) (ex_n_id ex) (ir_raw ir)
       (merge to_mask (ir_protected ir)) (ir_protected ir) (ir_regions ir) = Some swept"
    "out = relabel_env_spans swept (ir_regions ir)"
    unfolding accepted_spans_def by (rule finish_spans_Some)
  from overlapping_matcher.sweep_sound [OF assms(1) f(2)]
  have "set (merge to_mask (ir_protected ir)) \<subseteq> set swept" by blast
  then have "bytes_of_spans (merge to_mask (ir_protected ir)) \<subseteq> bytes_of_spans swept"
    unfolding bytes_of_spans_def by blast
  also have "bytes_of_spans swept = bytes_of_spans out"
    unfolding f(3) by (rule bytes_of_spans_ranges) simp
  finally show ?thesis by (simp add: merge_covers_bytes f(1))
qed

lemma canonical_category_label_fits: "label_fits 400 (canonical_category_label c)"
  by (cases c; simp only:; code_simp)

lemma env_key_region:
  "env_key regions r = Some key \<Longrightarrow> \<exists>rg \<in> set regions. ctx_key (region_ctx rg) = Some key"
  by (induction regions) (auto split: if_splits)

lemma finish_labels:
  assumes "overlapping_matcher (ex_search ex)"
    and "finish_spans ex en ir spans = Some (out, residual)"
    and "\<forall>s \<in> set spans. label_fits 400 (sp_label s)"
    and "\<forall>rg \<in> set (ir_regions ir). \<forall>key. ctx_key (region_ctx rg) = Some key \<longrightarrow> length key \<le> 396"
  shows "\<forall>s \<in> set out. label_fits 400 (sp_label s)"
proof -
  from assms(2) obtain to_mask swept where
    f: "to_mask = filter (\<lambda>s. spared en (ir_raw ir) s = Some False \<and> en_policy en s = Mask)
       (enabled_spans en spans)"
    "identity_sweep (ex_search ex) (ex_n_id ex) (ir_raw ir)
       (merge to_mask (ir_protected ir)) (ir_protected ir) (ir_regions ir) = Some swept"
    "out = relabel_env_spans swept (ir_regions ir)" by (rule finish_spans_Some)
  have m: "label_fits 400 (sp_label s)" if "s \<in> set (merge to_mask (ir_protected ir))" for s
    using merge_member(3) [OF that] assms(3) canonical_category_label_fits f(1)
    by (auto simp: enabled_spans_set)
  have "label_fits 400 (sp_label s)" if "s \<in> set swept" for s
  proof -
    from overlapping_matcher.sweep_sound [OF assms(1) f(2)] that
    obtain a where "a \<in> set (merge to_mask (ir_protected ir))" "sp_label s = sp_label a"
      unfolding swept_copy_def by (metis UnE span.select_convs(3) span.surjective span.update_convs(1,5))
    with m show ?thesis by simp
  qed
  moreover have "label_fits 400 (env_placeholder_label key)"
    if "env_key (ir_regions ir) r = Some key" for r key
    using env_label_fits [of key 396] env_key_region [OF that] assms(4) by auto
  ultimately show ?thesis
    by (auto simp: f(3) relabel_env_spans_def split: option.splits)
qed


section \<open>Detection\<close>

definition in_bounds :: "str \<Rightarrow> byte_range \<Rightarrow> bool" where
  "in_bounds raw r \<longleftrightarrow> rstart r \<le> rend r \<and> rend r \<le> length raw \<and>
     is_char_boundary raw (rstart r) \<and> is_char_boundary raw (rend r)"

lemma in_text_bounds: "in_text raw s \<longleftrightarrow> in_bounds raw (sp_range s)"
  by (simp add: in_text_def in_bounds_def)

text \<open>
  Blanking a finding keeps the length of the text and every character boundary; the blanks are
  ASCII, so it can only add boundaries, inside the finding.
\<close>

lemma length_blank_span [simp]: "in_text work s \<Longrightarrow> length (blank_span s work) = length work"
  by (auto simp: blank_span_def in_text_def)

lemma blank_span_nth:
  assumes "in_text work s" and "k < length work"
  shows "blank_span s work ! k =
    (if rstart (sp_range s) \<le> k \<and> k < rend (sp_range s) then CHR '' '' else work ! k)"
proof -
  have le: "rstart (sp_range s) \<le> rend (sp_range s)" "rend (sp_range s) \<le> length work"
    using assms(1) by (auto simp: in_text_def)
  consider "k < rstart (sp_range s)" | "rstart (sp_range s) \<le> k" "k < rend (sp_range s)"
    | "rend (sp_range s) \<le> k" by linarith
  then show ?thesis
    using le assms(2) by cases (auto simp: blank_span_def nth_append)
qed

lemma blank_span_boundary:
  assumes "in_text work s" and "is_char_boundary work k"
  shows "is_char_boundary (blank_span s work) k"
proof -
  have "\<not> is_continuation (CHR '' '')" by code_simp
  then show ?thesis
    using assms blank_span_nth [OF assms(1), of k] by (auto simp: is_char_boundary_def split: if_splits)
qed

lemma blank_span_in_bounds:
  "in_text work s \<Longrightarrow> in_bounds work r \<Longrightarrow> in_bounds (blank_span s work) r"
  by (simp add: in_bounds_def blank_span_boundary)

lemma blank_all:
  assumes "\<forall>s \<in> set found. in_text work s"
  shows "length (fold blank_span found work) = length work \<and>
    (\<forall>r. in_bounds work r \<longrightarrow> in_bounds (fold blank_span found work) r) \<and>
    (all_ascii work \<longrightarrow> all_ascii (fold blank_span found work))"
  using assms
proof (induction found arbitrary: work)
  case (Cons s found)
  have s: "in_text work s" using Cons.prems by simp
  have "\<forall>t \<in> set found. in_text (blank_span s work) t"
    using Cons.prems blank_span_in_bounds [OF s] by (auto simp: in_text_bounds)
  moreover have "is_ascii (CHR '' '')" by code_simp
  then have "all_ascii (blank_span s work)" if "all_ascii work"
    using that by (auto simp: blank_span_def list_all_iff dest: in_set_takeD in_set_dropD)
  ultimately show ?case
    using Cons.IH [of "blank_span s work"] s blank_span_in_bounds [OF s] by auto
qed simp

lemma concat_options_map:
  "(\<forall>x \<in> set xs. f x \<noteq> None) \<Longrightarrow> concat_options (map f xs) \<noteq> None"
  by (induction xs) auto

lemma detect_regions_total:
  "\<forall>rg \<in> set regions. in_bounds work (region_span rg) \<Longrightarrow> detect_regions ex en regions work \<noteq> None"
  unfolding detect_regions_def
  by (rule concat_options_map) (auto simp: view_build_def str_slice_def in_bounds_def)

lemma detect_passes_total:
  "\<forall>rg \<in> set regions. in_bounds work (region_span rg) \<Longrightarrow>
     detect_passes ex en regions n spans seen work \<noteq> None"
proof (induction n arbitrary: spans seen work)
  case (Suc n)
  obtain all where all: "detect_regions ex en regions work = Some all"
    using detect_regions_total [OF Suc.prems] by auto
  let ?found = "filter (\<lambda>s. sp_range s \<notin> set seen) (filter (in_text work) all)"
  have "\<forall>rg \<in> set regions. in_bounds (fold blank_span ?found work) (region_span rg)"
    using blank_all [of ?found work] Suc.prems by auto
  from Suc.IH [OF this] show ?case by (auto simp: all Let_def)
qed simp

text \<open>Every pass adds to what the earlier ones found, and stays within the text.\<close>

lemma detect_passes_Suc:
  assumes "detect_passes ex en regions (Suc n) spans seen work = Some out"
  obtains all found where "detect_regions ex en regions work = Some all"
    "found = filter (\<lambda>s. sp_range s \<notin> set seen) (filter (in_text work) all)"
    "out = spans @ found \<or> detect_passes ex en regions n (spans @ found)
       (seen @ map sp_range found) (fold blank_span found work) = Some out"
proof -
  from assms obtain all where all: "detect_regions ex en regions work = Some all"
    by (auto simp: bind_eq_Some_conv)
  let ?found = "filter (\<lambda>s. sp_range s \<notin> set seen) (filter (in_text work) all)"
  from assms all have "out = spans @ ?found \<or> detect_passes ex en regions n (spans @ ?found)
       (seen @ map sp_range ?found) (fold blank_span ?found work) = Some out"
    by (auto simp: Let_def split: if_splits)
  with all show thesis using that by blast
qed

lemma detect_passes_grows:
  "detect_passes ex en regions n spans seen work = Some out \<Longrightarrow> set spans \<subseteq> set out"
proof (induction n arbitrary: spans seen work)
  case (Suc n)
  from Suc.prems show ?case
    by (rule detect_passes_Suc) (use Suc.IH in fastforce)
qed simp

lemma detect_fixpoint_first_pass:
  assumes "detect_fixpoint ex en ir = Some out"
    and "detect_regions ex en (ir_regions ir) (ir_raw ir) = Some all"
    and "s \<in> set all" and "in_text (ir_raw ir) s"
  shows "s \<in> set out"
proof -
  from assms(1) have "detect_passes ex en (ir_regions ir) (Suc 3) [] [] (ir_raw ir) = Some out"
    by (simp add: detect_fixpoint_def del: detect_passes.simps)
  then show ?thesis
  proof (rule detect_passes_Suc)
    fix all' found
    assume "detect_regions ex en (ir_regions ir) (ir_raw ir) = Some all'"
      and "found = filter (\<lambda>s. sp_range s \<notin> set []) (filter (in_text (ir_raw ir)) all')"
      and out: "out = [] @ found \<or> detect_passes ex en (ir_regions ir) 3 ([] @ found)
        ([] @ map sp_range found) (fold blank_span found (ir_raw ir)) = Some out"
    then have "s \<in> set found" using assms(2-4) by simp
    with out detect_passes_grows show ?thesis by fastforce
  qed
qed

lemma detect_passes_bounds:
  assumes "detect_passes ex en regions n spans seen work = Some out"
    and "s \<in> set out"
  shows "s \<in> set spans \<or> rstart (sp_range s) \<le> rend (sp_range s) \<and> rend (sp_range s) \<le> length work"
  using assms
proof (induction n arbitrary: spans seen work)
  case (Suc n)
  from Suc.prems(1) show ?case
  proof (rule detect_passes_Suc)
    fix all found
    assume f: "found = filter (\<lambda>s. sp_range s \<notin> set seen) (filter (in_text work) all)"
      and out: "out = spans @ found \<or> detect_passes ex en regions n (spans @ found)
        (seen @ map sp_range found) (fold blank_span found work) = Some out"
    have len: "length (fold blank_span found work) = length work"
      using blank_all [of found work] f by auto
    have found: "rstart (sp_range t) \<le> rend (sp_range t) \<and> rend (sp_range t) \<le> length work"
      if "t \<in> set found" for t using that f by (auto simp: in_text_def)
    from out show ?case
    proof
      assume "detect_passes ex en regions n (spans @ found)
        (seen @ map sp_range found) (fold blank_span found work) = Some out"
      from Suc.IH [OF this Suc.prems(2)] len found show ?case by auto
    qed (use Suc.prems(2) found in auto)
  qed
qed simp

lemma ascii_in_text:
  assumes "all_ascii raw" and "rstart (sp_range s) \<le> rend (sp_range s)"
    and "rend (sp_range s) \<le> length raw"
  shows "in_text raw s"
  using assms is_char_boundary_ascii [OF assms(1)] by (simp add: in_text_def)

lemma scan_solid: "p \<in> set (scan_placeholders raw) \<Longrightarrow> \<not> range_is_empty p"
  unfolding scan_placeholders_def using scan_from_sound by (fastforce simp: range_is_empty_def)

lemma masked_spans_well_placed:
  assumes "overlapping_matcher (ex_search ex)" and "utf8_valid (ir_raw ir)"
    and "disjoint_ranges (ir_protected ir)" and "\<forall>p \<in> set (ir_protected ir). \<not> range_is_empty p"
    and "masked_spans ex en ir = Some (spans, residual)"
  shows "well_placed (ir_raw ir) (ir_protected ir) spans"
proof -
  from assms(5) obtain found where "finish_spans ex en ir found = Some (spans, residual)"
    by (auto simp: masked_spans_def bind_eq_Some_conv)
  then show ?thesis by (rule finish_well_placed [OF assms(1-4)])
qed


section \<open>Rendering the masked spans\<close>

lemma placed_sublist: "v \<in> snd ` set (placed_values raw spans) \<Longrightarrow> sublist v raw"
proof -
  assume "v \<in> snd ` set (placed_values raw spans)"
  then obtain s where v: "v \<in> set (value_parts s (value_of raw s))"
    by (auto simp: placed_values_def)
  have "sublist (value_of raw s) raw"
    unfolding value_of_def subtext_def
    by (metis prefix_imp_sublist sublist_order.order_trans suffix_drop suffix_imp_sublist take_is_prefix)
  moreover have "sublist v (value_of raw s)"
  proof (cases "v = value_of raw s")
    case False
    then obtain l d where "split_email (value_of raw s) = Some (l, d)" "v = l \<or> v = d"
      using v by (auto simp: value_parts_def split: option.splits if_splits)
    then have eq: "value_of raw s = l @ ''@'' @ d" using split_email_parts by blast
    have "sublist l (l @ ''@'' @ d)" "sublist d ((l @ ''@'') @ d)"
      by (rule sublist_append_rightI, rule sublist_append_leftI)
    then show ?thesis using \<open>v = l \<or> v = d\<close> eq by auto
  qed simp
  ultimately show ?thesis by (rule sublist_order.order_trans [rotated])
qed

text \<open>The key material the renderer needs: 32 bytes, no collision on the texts of a document.\<close>

definition hmac_fits :: "hmac_fun \<Rightarrow> str \<Rightarrow> str \<Rightarrow> bool" where
  "hmac_fits hmac key raw \<longleftrightarrow>
     (\<forall>v. length (hmac key v) = 32) \<and> inj_on (hmac key) {v. sublist v raw}"

lemma assemble_total:
  assumes "well_placed (ir_raw ir) protected spans" and "utf8_valid (ir_raw ir)"
    and "hmac_fits (ex_hmac ex) (cf_identity_key cfg) (ir_raw ir)"
  shows "assemble_result ex cfg ir fell_back (spans, residual) \<noteq> None"
proof -
  have "render (ex_hmac ex) (ir_raw ir) (cf_identity_key cfg) spans (cf_disclose_length cfg) \<noteq> None"
  proof (rule render_returns)
    show "length (ex_hmac ex (cf_identity_key cfg) v) = 32" for v
      using assms(3) by (simp add: hmac_fits_def)
    show "\<forall>s \<in> set spans. span_text (ir_raw ir) s \<noteq> None"
      using assms(1) in_text_slice by (auto simp: well_placed_def)
    show "inj_on (ex_hmac ex (cf_identity_key cfg)) (snd ` set (placed_values (ir_raw ir) spans))"
      using assms(3) placed_sublist unfolding hmac_fits_def by (blast intro: inj_on_subset)
  qed (rule assms(2))
  then show ?thesis by (auto simp: assemble_result_def)
qed

lemma detect_passes_from:
  assumes "detect_passes ex en regions n spans seen work = Some out" and "s \<in> set out"
  shows "s \<in> set spans \<or> (\<exists>d \<in> set (en_detectors en). \<exists>v. s \<in> set (d v))"
  using assms
proof (induction n arbitrary: spans seen work)
  case (Suc n)
  have regions: "\<exists>d \<in> set (en_detectors en). \<exists>v. t \<in> set (d v)"
    if "concat_options (map (\<lambda>region. map_option (\<lambda>v. concat (map (\<lambda>d. d v) (en_detectors en)))
          (view_build (ex_nfkc ex) region work)) rs) = Some all" "t \<in> set all" for t all rs
    using that by (induction rs arbitrary: all) (auto simp: bind_eq_Some_conv, blast)
  from Suc.prems(1) show ?case
  proof (rule detect_passes_Suc)
    fix all found
    assume "detect_regions ex en regions work = Some all"
      and "found = filter (\<lambda>s. sp_range s \<notin> set seen) (filter (in_text work) all)"
      and out: "out = spans @ found \<or> detect_passes ex en regions n (spans @ found)
        (seen @ map sp_range found) (fold blank_span found work) = Some out"
    then have found: "\<exists>d \<in> set (en_detectors en). \<exists>v. t \<in> set (d v)" if "t \<in> set found" for t
      using regions that by (auto simp: detect_regions_def)
    from out show ?case
    proof
      assume "detect_passes ex en regions n (spans @ found)
        (seen @ map sp_range found) (fold blank_span found work) = Some out"
      from Suc.IH [OF this Suc.prems(2)] found show ?case by auto
    qed (use Suc.prems(2) found in auto)
  qed
qed simp

lemma no_marker_no_wrapper:
  assumes "\<forall>p \<in> set EXPLICIT_SECRET_PREFIXES. \<not> sublist p raw"
  shows "explicit_wrapper_bounds raw s = None"
proof -
  have "\<not> (\<exists>p \<in> set EXPLICIT_SECRET_PREFIXES. str_slice raw i j = Some p)" for i j
    using assms slice_sublist by blast
  then show ?thesis by (auto simp: explicit_wrapper_bounds_def find_None_iff)
qed

lemma parse_input_ir:
  "parse_input en inp = (ir, fell_back) \<Longrightarrow>
     ir_raw ir = input_data inp \<and> ir_protected ir = scan_placeholders (input_data inp)"
  by (auto simp: parse_input_def parse_raw_def parse_raw_with_protected_def make_ir_def Let_def
      split: option.splits)

lemma engine_mask_ir:
  assumes "engine_mask ex en inp cfg = Some r" and "parse_input en inp = (ir, fell_back)"
  obtains spans residual r' where "masked_spans ex en ir = Some (spans, residual)"
    "assemble_result ex cfg ir False (spans, residual) = Some r'"
    "mr_recovery r = mr_recovery r'" "mr_masked r = mr_masked r'"
  using assms by (auto simp: engine_mask_def mask_ir_def bind_eq_Some_conv)

lemma assemble_restores:
  assumes "assemble_result ex cfg ir fell_back (spans, residual) = Some r"
    and "keystream_ok (ex_crypto ex)" and "\<And>v. length (ex_hmac ex (cf_identity_key cfg) v) = 32"
    and "utf8_valid (ir_raw ir)" and "\<forall>s \<in> set spans. label_fits 400 (sp_label s)"
    and "\<forall>p \<in> set EXPLICIT_SECRET_PREFIXES. \<not> sublist p (ir_raw ir)"
    and "\<forall>ph \<in> set (placeholders (mr_recovery r)). \<not> sublist ph (ir_raw ir)"
  shows "restore (ex_crypto ex) (mr_recovery r) (mr_masked r) = ir_raw ir"
proof -
  from assms(1) obtain rn where rn:
    "render (ex_hmac ex) (ir_raw ir) (cf_identity_key cfg) spans (cf_disclose_length cfg) = Some rn"
    "mr_recovery r = seal (ex_crypto ex) (rn_map rn) (cf_key cfg)" "mr_masked r = rn_masked rn"
    by (auto simp: assemble_result_def)
  have "\<forall>ph \<in> set (map fst (rn_map rn)). \<not> sublist ph (ir_raw ir)"
    using assms(7) unfolding rn(2)
    by (simp add: placeholders_def seal_def Let_def case_prod_unfold comp_def)
  from restore_rendered [OF rn(1) assms(2) assms(3) assms(4) _ this, of "cf_key cfg"] assms(5)
  have "(\<forall>s \<in> set spans. explicit_wrapper_bounds (ir_raw ir) s = None) \<longrightarrow> ?thesis"
    unfolding rn(2,3) label_fits_def by blast
  with no_marker_no_wrapper [OF assms(6)] show ?thesis by blast
qed


section \<open>A concrete engine\<close>

definition example_externals :: externals where
  "example_externals =
     \<lparr>ex_nfkc = (\<lambda>c. c), ex_n_id = (\<lambda>v. v), ex_search = reference_find, ex_hmac = example_hmac,
      ex_crypto = example_crypto\<rparr>"

definition example_engine :: engine where
  "example_engine =
     \<lparr>en_parsers = [], en_fallback = (\<lambda>raw. Some example_regions),
      en_detectors = [\<lambda>v. [example_hit 2 10 Rule]], en_policy = mask_all, en_guard = None,
      en_disabled = []\<rparr>"

definition example_input :: input where
  "example_input = \<lparr>input_kind = KText, input_data = example_text\<rparr>"

definition example_config :: config where
  "example_config = config_new ''#''"

lemma example_matcher: "overlapping_matcher (ex_search example_externals)"
  using reference.overlapping_matcher_axioms by (simp add: example_externals_def)

text \<open>A key byte that does not occur in the text makes the example HMAC injective on it.\<close>

lemma example_hmac_fits:
  assumes "c \<notin> set raw" and "length raw < 32"
  shows "hmac_fits example_hmac [c] raw"
proof -
  have "inj_on (example_hmac [c]) {v. sublist v raw}"
  proof (rule inj_on_inverseI [where g = "takeWhile (\<lambda>b. b \<noteq> c)"])
    fix v assume "v \<in> {v. sublist v raw}"
    then have v: "c \<notin> set v" "length v < 32"
      using assms set_mono_sublist [of v raw] sublist_length_le [of v raw] by auto
    then obtain k where k: "32 - length v = Suc k" by (metis Suc_diff_Suc)
    have "example_hmac [c] v = v @ c # take k (replicate 32 (CHR ''0''))"
      using v(2) k by (simp add: example_hmac_def)
    moreover have "takeWhile (\<lambda>b. b \<noteq> c) (v @ c # w) = v" for w
      using v(1) by (subst takeWhile_append2) auto
    ultimately show "takeWhile (\<lambda>b. b \<noteq> c) (example_hmac [c] v) = v" by simp
  qed
  moreover have "length (example_hmac [c] v) = 32" for v
    by (auto simp: example_hmac_def min_def)
  ultimately show ?thesis by (simp add: hmac_fits_def)
qed

lemma example_fits: "hmac_fits (ex_hmac example_externals) (cf_identity_key example_config) example_text"
proof -
  have "CHR ''#'' \<notin> set example_text" "length example_text < 32" by code_simp+
  from example_hmac_fits [OF this] show ?thesis
    by (simp add: example_externals_def example_config_def config_new_def)
qed

definition example_ir :: ir where
  "example_ir = make_ir example_text example_regions (scan_placeholders example_text)"

lemma example_masked_spans:
  "masked_spans example_externals example_engine example_ir =
     Some ([example_hit 2 10 Rule, example_hit 13 21 Sweep], [])"
  by code_simp


section \<open>Properties\<close>

text \<open>
  C20. A label made from a key name is always a well-formed placeholder label, whatever bytes the
  key holds, so a handle with it parses and is recognised again.
\<close>

theorem env_label_well_formed: "label_ok (env_placeholder_label key)"
  using env_label_fits [of key "length key"] by (simp add: label_fits_def)

text \<open>
  C19. Every handle the renderer emits is frozen wherever it stands in a later document: the
  scanner reports its exact range, and no masked span of the engine shares a byte with it, so
  masking a masked text again leaves the handles as they are.
\<close>

theorem handles_frozen:
  assumes "label_ok label" and "hash_ok hash" and "h = render_placeholder label hash len"
    and "overlapping_matcher (ex_search ex)" and "utf8_valid (pre @ h @ post)"
    and "masked_spans ex en (make_ir (pre @ h @ post) regions (scan_placeholders (pre @ h @ post))) =
      Some (spans, residual)"
  shows "range_new (length pre) (length pre + length h) \<in> set (scan_placeholders (pre @ h @ post)) \<and>
    bytes_of_spans spans \<inter> {length pre ..< length pre + length h} = {}"
proof -
  let ?doc = "pre @ h @ post"
  have frozen: "range_new (length pre) (length pre + length h) \<in> set (scan_placeholders ?doc)"
    using scan_finds_placeholder [OF rendered_inner [OF assms(1,2), of len], of h 0 pre post] assms(3)
    by (simp add: scan_placeholders_def render_inner)
  have "well_placed ?doc (scan_placeholders ?doc) spans"
    using masked_spans_well_placed [OF assms(4) _ _ _ assms(6)] assms(5) scan_disjoint scan_solid
    by (simp add: make_ir_def)
  then have "bytes_of (sp_range s) \<inter> bytes_of p = {}"
    if "s \<in> set spans" "p \<in> set (scan_placeholders ?doc)" for s p
    using that scan_solid [OF that(2)] range_overlaps_bytes [of "sp_range s" p]
    by (auto simp: well_placed_def disjoint_ranges_def sorted_wrt_append)
  moreover have "bytes_of (range_new (length pre) (length pre + length h)) =
      {length pre ..< length pre + length h}" by (simp add: bytes_of_def range_new_def)
  ultimately have "bytes_of_spans spans \<inter> {length pre ..< length pre + length h} = {}"
    using frozen unfolding bytes_of_spans_def by blast
  with frozen show ?thesis by blast
qed

definition example_pre :: str where
  "example_pre = ''k AKIA1234 ''"

definition example_handle :: str where
  "example_handle = ''<<KEY_0123456789abcdef>>''"

definition example_again :: str where
  "example_again = example_pre @ example_handle @ example_pre"

lemma handles_frozen_witness:
  "range_new 11 35 \<in> set (scan_placeholders example_again) \<and>
     bytes_of_spans [example_hit 2 10 Rule, example_hit 37 45 Sweep] \<inter> {11 ..< 35} = {}"
proof -
  have len: "length example_pre = 11" "length example_handle = 24" by code_simp+
  have "range_new (length example_pre) (length example_pre + length example_handle)
      \<in> set (scan_placeholders (example_pre @ example_handle @ example_pre)) \<and>
    bytes_of_spans [example_hit 2 10 Rule, example_hit 37 45 Sweep] \<inter>
      {length example_pre ..< length example_pre + length example_handle} = {}"
  proof (rule handles_frozen [OF _ _ _ example_matcher])
    show "example_handle = render_placeholder ''KEY'' ''0123456789abcdef'' None" by code_simp
    show "masked_spans example_externals example_engine
        (make_ir (example_pre @ example_handle @ example_pre)
          [(hd example_regions)\<lparr>region_span := range_new 0 46\<rparr>]
          (scan_placeholders (example_pre @ example_handle @ example_pre))) =
      Some ([example_hit 2 10 Rule, example_hit 37 45 Sweep], [])"
      by code_simp
  qed code_simp+
  then show ?thesis unfolding len example_again_def by simp
qed



text \<open>Findings that reach the overlap resolution, and what survives it.\<close>

lemma kept_masked:
  assumes "overlapping_matcher (ex_search ex)" and "finish_spans ex en ir found = Some (spans, residual)"
    and "k \<in> set (merge_kept (accepted_spans en (ir_raw ir) found) (ir_protected ir))"
  shows "bytes_of (sp_range k) \<subseteq> bytes_of_spans spans"
  using finish_covers [OF assms(1,2)] assms(3) by (auto simp: bytes_of_spans_def)

lemma finding_unprotected:
  assumes "overlapping_matcher (ex_search ex)"
    and "masked_spans ex en (make_ir raw regions (scan_placeholders raw)) = Some (spans, residual)"
    and "detect_regions ex en regions raw = Some all" and "s \<in> set all" and "in_text raw s"
    and "\<not> range_is_empty (sp_range s)" and "sp_label s \<notin> set (en_disabled en)"
    and "spared en raw s = Some False" and "en_policy en s = Mask"
    and "\<forall>p \<in> set (scan_placeholders raw). rend p < rstart (sp_range s) \<or> rend (sp_range s) < rstart p"
  shows "\<exists>found. finish_spans ex en (make_ir raw regions (scan_placeholders raw)) found = Some (spans, residual) \<and>
    s \<in> set (merge_unprotected (accepted_spans en raw found) (scan_placeholders raw))"
proof -
  let ?protected = "scan_placeholders raw" and ?ir = "make_ir raw regions (scan_placeholders raw)"
  from assms(2) obtain found where found: "detect_fixpoint ex en ?ir = Some found"
    "finish_spans ex en ?ir found = Some (spans, residual)"
    by (auto simp: masked_spans_def bind_eq_Some_conv)
  have "s \<in> set found"
    using detect_fixpoint_first_pass [OF found(1)] assms(3,4,5) by (simp add: make_ir_def)
  then have "s \<in> set (accepted_spans en raw found)"
    using assms(7-9) by (simp add: accepted_spans_def enabled_spans_set)
  moreover have "\<not> range_overlaps p (sp_range s)" "rstart (sp_range s) \<notin> {rstart p, rend p}"
    "rend (sp_range s) \<notin> {rstart p, rend p}" if p: "p \<in> set ?protected" for p
    using assms(6,10) p scan_solid [OF p]
    by (auto simp: range_overlaps_def range_is_empty_def)
  ultimately have "s \<in> set (merge_unprotected (accepted_spans en raw found) ?protected)"
    using assms(6) unfolding merge_unprotected_iff [OF scan_disjoint] by blast
  with found(2) show ?thesis by blast
qed

text \<open>A finding of an explicit marker is never given up.\<close>

lemma explicit_finding_masked:
  assumes "overlapping_matcher (ex_search ex)"
    and "masked_spans ex en (make_ir raw regions (scan_placeholders raw)) = Some (spans, residual)"
    and "detect_regions ex en regions raw = Some all" and "s \<in> set all" and "in_text raw s"
    and "\<not> range_is_empty (sp_range s)" and "sp_label s \<notin> set (en_disabled en)"
    and "spared en raw s = Some False" and "en_policy en s = Mask"
    and "\<forall>p \<in> set (scan_placeholders raw). rend p < rstart (sp_range s) \<or> rend (sp_range s) < rstart p"
    and "sp_source s = Explicit"
  shows "bytes_of (sp_range s) \<subseteq> bytes_of_spans spans"
proof -
  from finding_unprotected [OF assms(1-10)] obtain found where
    found: "finish_spans ex en (make_ir raw regions (scan_placeholders raw)) found = Some (spans, residual)"
      "s \<in> set (merge_unprotected (accepted_spans en raw found) (scan_placeholders raw))" by blast
  have "s \<in> set (merge_kept (accepted_spans en raw found) (scan_placeholders raw))"
    unfolding merge_kept_def by (rule merge_explicit_keeps [OF found(2) assms(11)])
  then show ?thesis using kept_masked [OF assms(1) found(1)] by (simp add: make_ir_def)
qed

lemma finding_masked:
  assumes "overlapping_matcher (ex_search ex)"
    and "masked_spans ex en (make_ir raw regions (scan_placeholders raw)) = Some (spans, residual)"
    and "detect_regions ex en regions raw = Some all" and "s \<in> set all" and "in_text raw s"
    and "\<not> range_is_empty (sp_range s)" and "sp_label s \<notin> set (en_disabled en)"
    and "spared en raw s = Some False" and "en_policy en s = Mask"
    and "\<forall>p \<in> set (scan_placeholders raw). rend p < rstart (sp_range s) \<or> rend (sp_range s) < rstart p"
  shows "bytes_of (sp_range s) \<subseteq> bytes_of_spans spans \<or>
    (\<exists>e :: span. sp_source e = Explicit \<and> range_overlaps (sp_range e) (sp_range s) \<and>
       bytes_of (sp_range e) \<subseteq> bytes_of_spans spans)"
proof -
  let ?protected = "scan_placeholders raw"
  from finding_unprotected [OF assms] obtain found where
    found: "finish_spans ex en (make_ir raw regions ?protected) found = Some (spans, residual)"
    and s: "s \<in> set (merge_unprotected (accepted_spans en raw found) ?protected)" by blast
  let ?kept = "merge_kept (accepted_spans en raw found) ?protected"
  have masked: "bytes_of (sp_range k) \<subseteq> bytes_of_spans spans" if "k \<in> set ?kept" for k
    using kept_masked [OF assms(1) found] that by (simp add: make_ir_def)
  show ?thesis
  proof (cases "s \<in> set ?kept")
    case True
    with masked show ?thesis by blast
  next
    case False
    then obtain e where "e \<in> set (merge_unprotected (accepted_spans en raw found) ?protected)"
      "sp_source e = Explicit" "range_overlaps (sp_range e) (sp_range s)"
      using s by (fastforce simp: merge_kept_def merge_explicit_def Let_def ri.ranges_new
          dest!: ri.overlaps_sound)
    moreover from this have "e \<in> set ?kept" unfolding merge_kept_def by (intro merge_explicit_keeps)
    ultimately show ?thesis using masked by blast
  qed
qed



text \<open>
  Masking with supplied findings never panics: whatever ranges a caller supplies for whatever
  valid UTF-8 text and regions, ranges out of bounds or inside a character are dropped and the
  rest of the pipeline returns a result.
\<close>

theorem mask_spans_total:
  assumes "overlapping_matcher (ex_search ex)" and "utf8_valid (input_data inp)"
    and "hmac_fits (ex_hmac ex) (cf_identity_key cfg) (input_data inp)"
  shows "mask_spans ex en inp spans cfg \<noteq> None"
proof -
  obtain ir fell_back where ir: "parse_input en inp = (ir, fell_back)" by force
  note parsed = parse_input_ir [OF ir]
  obtain out residual where out:
    "finish_spans ex en ir (filter (in_text (ir_raw ir)) spans) = Some (out, residual)"
    using finish_total [of "filter (in_text (ir_raw ir)) spans" ir ex en] by auto
  have "well_placed (ir_raw ir) (ir_protected ir) out"
    using finish_well_placed [OF assms(1) _ _ _ out] assms(2) parsed scan_disjoint scan_solid by simp
  from assemble_total [OF this] assms(2,3) parsed out show ?thesis
    by (simp add: mask_spans_def ir mask_supplied_spans_def)
qed

lemma mask_spans_total_witness:
  "mask_spans example_externals example_engine example_input
     [example_hit 2 10 Rule, example_hit 40 9 Rule] example_config \<noteq> None"
proof (rule mask_spans_total [OF example_matcher])
  show "utf8_valid (input_data example_input)" by code_simp
  show "hmac_fits (ex_hmac example_externals) (cf_identity_key example_config)
      (input_data example_input)" using example_fits by (simp add: example_input_def)
qed

text \<open>
  Masking an ASCII document never panics, whatever its detectors return: with regions inside
  the text, parsing, the repeated detection, classification, the merge, the sweep and the
  rendering all return.
\<close>

lemma engine_mask_total:
  assumes "overlapping_matcher (ex_search ex)" and "all_ascii (input_data inp)"
    and "hmac_fits (ex_hmac ex) (cf_identity_key cfg) (input_data inp)"
    and "\<forall>rg \<in> set (ir_regions (fst (parse_input en inp))).
      rstart (region_span rg) \<le> rend (region_span rg) \<and> rend (region_span rg) \<le> length (input_data inp)"
  shows "engine_mask ex en inp cfg \<noteq> None"
proof -
  obtain ir fell_back where ir: "parse_input en inp = (ir, fell_back)" by force
  note parsed = parse_input_ir [OF ir]
  have valid: "utf8_valid (input_data inp)" by (rule utf8_valid_ascii [OF assms(2)])
  have "\<forall>rg \<in> set (ir_regions ir). in_bounds (ir_raw ir) (region_span rg)"
    using assms(2,4) parsed
    by (auto simp: ir in_bounds_def intro!: is_char_boundary_ascii intro: le_trans)
  from detect_passes_total [OF this] obtain found where found: "detect_fixpoint ex en ir = Some found"
    unfolding detect_fixpoint_def by fastforce
  then have "\<forall>s \<in> set found. in_text (ir_raw ir) s"
    unfolding detect_fixpoint_def using detect_passes_bounds ascii_in_text assms(2) parsed
    by fastforce
  from finish_total [OF this] obtain out residual where
    "finish_spans ex en ir found = Some (out, residual)" by fastforce
  with found have out: "masked_spans ex en ir = Some (out, residual)" by (simp add: masked_spans_def)
  have "well_placed (ir_raw ir) (ir_protected ir) out"
    using masked_spans_well_placed [OF assms(1) _ _ _ out] valid parsed scan_disjoint scan_solid
    by simp
  from assemble_total [OF this] assms(3) valid parsed out show ?thesis
    by (simp add: engine_mask_def ir mask_ir_def)
qed

text \<open>
  C2. Masking loses nothing, end to end: resolving the masked text with the recovery map of the
  same result gives the input back, byte for byte. The labels of the detectors are well formed
  and, like the key names of the regions, fit the resolver's search window; the input holds no
  explicit marker and none of the handles it is given.
\<close>

theorem masking_restores:
  assumes "engine_mask ex en inp cfg = Some r"
    and "overlapping_matcher (ex_search ex)" and "keystream_ok (ex_crypto ex)"
    and "\<And>v. length (ex_hmac ex (cf_identity_key cfg) v) = 32" and "utf8_valid (input_data inp)"
    and "\<forall>d \<in> set (en_detectors en). \<forall>v. \<forall>s \<in> set (d v). label_ok (sp_label s) \<and> length (sp_label s) \<le> 400"
    and "\<forall>rg \<in> set (ir_regions (fst (parse_input en inp))). \<forall>key.
      ctx_key (region_ctx rg) = Some key \<longrightarrow> length key \<le> 396"
    and "\<forall>p \<in> set EXPLICIT_SECRET_PREFIXES. \<not> sublist p (input_data inp)"
    and "\<forall>ph \<in> set (placeholders (mr_recovery r)). \<not> sublist ph (input_data inp)"
  shows "restore (ex_crypto ex) (mr_recovery r) (mr_masked r) = input_data inp"
proof -
  obtain ir fell_back where ir: "parse_input en inp = (ir, fell_back)" by force
  note parsed = parse_input_ir [OF ir]
  from assms(1) ir obtain spans residual r' where r':
    "masked_spans ex en ir = Some (spans, residual)"
    "assemble_result ex cfg ir False (spans, residual) = Some r'"
    "mr_recovery r = mr_recovery r'" "mr_masked r = mr_masked r'" by (rule engine_mask_ir)
  from r'(1) obtain found where found: "detect_fixpoint ex en ir = Some found"
    "finish_spans ex en ir found = Some (spans, residual)"
    by (auto simp: masked_spans_def bind_eq_Some_conv)
  have "\<forall>s \<in> set found. label_fits 400 (sp_label s)"
    using found(1) assms(6) detect_passes_from unfolding detect_fixpoint_def label_fits_def
    by fastforce
  from finish_labels [OF assms(2) found(2) this] assms(7) ir
  have "\<forall>s \<in> set spans. label_fits 400 (sp_label s)" by simp
  from assemble_restores [OF r'(2) assms(3,4) _ this] assms(5,8,9) parsed r'(3,4)
  show ?thesis by simp
qed

definition example_result :: mask_result where
  "example_result =
     the (engine_mask example_externals example_engine example_input example_config)"

lemma example_engine_mask:
  "engine_mask example_externals example_engine example_input example_config = Some example_result"
proof -
  have "engine_mask example_externals example_engine example_input example_config \<noteq> None"
    by code_simp
  then show ?thesis by (auto simp: example_result_def)
qed

lemma masking_restores_witness:
  "restore example_crypto (mr_recovery example_result) (mr_masked example_result) = example_text"
proof -
  have "restore (ex_crypto example_externals) (mr_recovery example_result) (mr_masked example_result)
      = input_data example_input"
  proof (rule masking_restores [OF example_engine_mask example_matcher])
    show "keystream_ok (ex_crypto example_externals)"
      using keystream_ok_example by (simp add: example_externals_def)
    show "length (ex_hmac example_externals (cf_identity_key example_config) v) = 32" for v
      by (simp add: example_externals_def example_hmac_def)
    have "label_ok (sp_label (example_hit 2 10 Rule))" by code_simp
    then show "\<forall>d \<in> set (en_detectors example_engine). \<forall>v. \<forall>s \<in> set (d v).
        label_ok (sp_label s) \<and> length (sp_label s) \<le> 400"
      by (simp add: example_engine_def example_hit_def)
    have "ir_regions (fst (parse_input example_engine example_input)) = example_regions" by code_simp
    then show "\<forall>rg \<in> set (ir_regions (fst (parse_input example_engine example_input))). \<forall>key.
        ctx_key (region_ctx rg) = Some key \<longrightarrow> length key \<le> 396"
      by (simp add: example_regions_def)
  qed code_simp+
  then show ?thesis by (simp add: example_externals_def example_input_def)
qed

text \<open>
  A later pass may find a range inside a character that an earlier pass blanked: the boundary
  check is against the blanked text, the slice for the guard against the original one.
\<close>

definition inner_byte_engine :: engine where
  "inner_byte_engine =
     \<lparr>en_parsers = [],
      en_fallback = (\<lambda>raw. Some [(hd example_regions)\<lparr>region_span := range_new 0 4\<rparr>]),
      en_detectors = [\<lambda>v. [example_hit 1 3 Rule, example_hit 1 2 DecodeOpaque]],
      en_policy = mask_all, en_guard = Some shape_guard, en_disabled = []\<rparr>"

lemma later_pass_panics:
  "utf8_valid [CHR ''a'', CHR 0xC3, CHR 0xA9, CHR ''b''] \<and>
   engine_mask example_externals inner_byte_engine
     \<lparr>input_kind = KText, input_data = [CHR ''a'', CHR 0xC3, CHR 0xA9, CHR ''b'']\<rparr>
     example_config = None"
  by code_simp

end
