(* ===== verification/Builder.thy ===== *)
theory Builder
  imports Engine
begin

text \<open>
  Putting an engine together: \<open>EngineBuilder\<close> and the constructors of \<open>pipeline/mod.rs\<close>, the
  decoder limits of \<open>detect/decode.rs\<close> and the plain-text parser of \<open>parse/mod.rs\<close>. The built-in
  parsers and detectors are trait objects; a \<open>builtin_set\<close> names the one of each kind.
\<close>


section \<open>Decoder limits\<close>

record decode_config =
  dc_enabled :: bool
  dc_max_depth :: "nat option"
  dc_min_bytes :: nat
  dc_max_bytes :: "nat option"
  dc_max_inflate_bytes :: "nat option"
  dc_mask_unknown :: bool
  dc_unknown_min_bytes :: nat

definition DEFAULT_MIN_DECODE_BYTES :: nat where
  "DEFAULT_MIN_DECODE_BYTES = 16"

definition DEFAULT_MAX_DECODE_BYTES :: nat where
  "DEFAULT_MAX_DECODE_BYTES = 256 * 1024"

definition DEFAULT_DECODE_DEPTH :: nat where
  "DEFAULT_DECODE_DEPTH = 3"

definition DEFAULT_MAX_INFLATE_BYTES :: nat where
  "DEFAULT_MAX_INFLATE_BYTES = 8 * 1024 * 1024"

definition decode_config_default :: decode_config where
  "decode_config_default =
     \<lparr>dc_enabled = True, dc_max_depth = Some DEFAULT_DECODE_DEPTH,
      dc_min_bytes = DEFAULT_MIN_DECODE_BYTES, dc_max_bytes = Some DEFAULT_MAX_DECODE_BYTES,
      dc_max_inflate_bytes = Some DEFAULT_MAX_INFLATE_BYTES, dc_mask_unknown = False,
      dc_unknown_min_bytes = DEFAULT_MIN_OPAQUE_RUN\<rparr>"

definition decode_config_validate :: "decode_config \<Rightarrow> str + decode_config" where
  "decode_config_validate c =
     (if dc_enabled c \<and> dc_max_depth c = Some 0
      then Inl ''decode.max_depth must be positive or unlimited''
      else if dc_min_bytes c = 0 then Inl ''decode.min_bytes must be positive''
      else if (case dc_max_bytes c of Some m \<Rightarrow> m < dc_min_bytes c | None \<Rightarrow> False)
      then Inl ''decode.max_bytes must be at least decode.min_bytes''
      else if dc_max_inflate_bytes c = Some 0
      then Inl ''decode.max_inflate_bytes must be positive or unlimited''
      else if dc_mask_unknown c \<and> dc_unknown_min_bytes c < dc_min_bytes c
      then Inl ''decode.unknown_min_bytes must be at least decode.min_bytes''
      else Inr c)"

definition profile_decode_config :: "profile_knobs \<Rightarrow> decode_config" where
  "profile_decode_config knobs =
     decode_config_default\<lparr>dc_mask_unknown := mask_unknown_codec knobs,
       dc_unknown_min_bytes := min_opaque_run knobs\<rparr>"


section \<open>The built-in parsers and detectors\<close>

definition text_parser :: parser where
  "text_parser raw =
     Some [\<lparr>region_span = range_new 0 (length raw),
            region_ctx = \<lparr>ctx_path = None, ctx_key = None, ctx_hints = [], ctx_kind = PlainText,
              ctx_format = KText\<rparr>\<rparr>]"

record builtin_set =
  bs_json :: parser
  bs_ndjson :: parser
  bs_env :: parser
  bs_structured_generic :: parser
  bs_structured_aws :: parser
  bs_structured_kubeconfig :: parser
  bs_structured_npm :: parser
  bs_structured_pypi :: parser
  bs_credsweeper :: detector
  bs_pentect_temp :: detector
  bs_explicit :: detector
  bs_url :: detector
  bs_cli_credential :: detector
  bs_jwt :: detector
  bs_key_value :: detector
  bs_auth_code :: detector
  bs_bip39 :: detector
  bs_decode :: "decode_config \<Rightarrow> detector"
  bs_sensitive_key :: detector
  bs_env_value :: detector
  bs_structural :: detector


section \<open>The builder\<close>

record engine_builder =
  eb_parsers :: "(kind \<times> parser) list"
  eb_detectors :: "detector list"
  eb_policy :: "policy option"
  eb_guard :: "guard option"
  eb_disabled :: "str list"

definition builder_new :: engine_builder where
  "builder_new =
     \<lparr>eb_parsers = [], eb_detectors = [], eb_policy = None, eb_guard = None, eb_disabled = []\<rparr>"

definition builder_parser :: "kind \<Rightarrow> parser \<Rightarrow> engine_builder \<Rightarrow> engine_builder" where
  "builder_parser kind p b = b\<lparr>eb_parsers := eb_parsers b @ [(kind, p)]\<rparr>"

definition builder_detector :: "detector \<Rightarrow> engine_builder \<Rightarrow> engine_builder" where
  "builder_detector d b = b\<lparr>eb_detectors := eb_detectors b @ [d]\<rparr>"

definition builder_policy :: "policy \<Rightarrow> engine_builder \<Rightarrow> engine_builder" where
  "builder_policy p b = b\<lparr>eb_policy := Some p\<rparr>"

definition builder_guard :: "guard \<Rightarrow> engine_builder \<Rightarrow> engine_builder" where
  "builder_guard g b = b\<lparr>eb_guard := Some g\<rparr>"

definition builder_disable_labels :: "str list \<Rightarrow> engine_builder \<Rightarrow> engine_builder" where
  "builder_disable_labels labels b = b\<lparr>eb_disabled := eb_disabled b @ labels\<rparr>"

definition builder_build :: "engine_builder \<Rightarrow> engine" where
  "builder_build b =
     \<lparr>en_parsers = eb_parsers b, en_fallback = text_parser, en_detectors = eb_detectors b,
      en_policy = (case eb_policy b of Some p \<Rightarrow> p | None \<Rightarrow> mask_all), en_guard = eb_guard b,
      en_disabled = eb_disabled b\<rparr>"

definition structured_parsers :: "builtin_set \<Rightarrow> engine_builder \<Rightarrow> engine_builder" where
  "structured_parsers s b =
     builder_parser (KOther ''structured:pypi'') (bs_structured_pypi s)
       (builder_parser (KOther ''structured:npm'') (bs_structured_npm s)
          (builder_parser (KOther ''structured:kubeconfig'') (bs_structured_kubeconfig s)
             (builder_parser (KOther ''structured:aws'') (bs_structured_aws s)
                (builder_parser (KOther ''structured'') (bs_structured_generic s) b))))"

definition stack_parsers :: "builtin_set \<Rightarrow> engine_builder \<Rightarrow> engine_builder" where
  "stack_parsers s b =
     builder_parser KHar (bs_json s)
       (structured_parsers s
          (builder_parser KEnv (bs_env s)
             (builder_parser KNdjson (bs_ndjson s)
                (builder_parser KJson (bs_json s) b))))"

definition standard_stack_with_decode ::
    "builtin_set \<Rightarrow> decode_config \<Rightarrow> engine_builder \<Rightarrow> engine_builder" where
  "standard_stack_with_decode s decode b =
     fold builder_detector
       [bs_credsweeper s, bs_pentect_temp s, bs_explicit s, bs_url s, bs_cli_credential s,
        bs_jwt s, bs_key_value s, bs_auth_code s, bs_bip39 s, bs_decode s decode,
        bs_sensitive_key s, bs_env_value s, bs_structural s]
       (stack_parsers s b)"

definition standard_stack :: "builtin_set \<Rightarrow> profile_knobs \<Rightarrow> engine_builder \<Rightarrow> engine_builder" where
  "standard_stack s knobs b = standard_stack_with_decode s (profile_decode_config knobs) b"

definition secret_scan_stack_with_decode ::
    "builtin_set \<Rightarrow> decode_config \<Rightarrow> engine_builder \<Rightarrow> engine_builder" where
  "secret_scan_stack_with_decode s decode b =
     fold builder_detector
       [bs_explicit s, bs_credsweeper s, bs_pentect_temp s, bs_jwt s, bs_key_value s, bs_url s,
        bs_bip39 s, bs_decode s decode, bs_env_value s, bs_sensitive_key s]
       (stack_parsers s b)"

definition secret_scan_stack :: "builtin_set \<Rightarrow> profile_knobs \<Rightarrow> engine_builder \<Rightarrow> engine_builder" where
  "secret_scan_stack s knobs b = secret_scan_stack_with_decode s (profile_decode_config knobs) b"


section \<open>Constructors\<close>

text \<open>A rule pack: its detector and the labels it turns off.\<close>

record pack =
  pk_rules :: detector
  pk_disable :: "str list"

definition with_pack :: "pack \<Rightarrow> engine_builder \<Rightarrow> engine_builder" where
  "with_pack p b = builder_disable_labels (pk_disable p) (builder_detector (pk_rules p) b)"

definition engine_default :: "builtin_set \<Rightarrow> engine" where
  "engine_default s =
     builder_build (builder_policy mask_all (standard_stack s (profile_knobs_of Strict) builder_new))"

definition with_profile_and_decode_config :: "builtin_set \<Rightarrow> profile \<Rightarrow> decode_config \<Rightarrow> engine" where
  "with_profile_and_decode_config s profile decode =
     builder_build (builder_guard shape_guard (builder_policy (profile_policy profile)
       (standard_stack_with_decode s decode builder_new)))"

definition with_profile :: "builtin_set \<Rightarrow> profile \<Rightarrow> engine" where
  "with_profile s profile =
     with_profile_and_decode_config s profile (profile_decode_config (profile_knobs_of profile))"

definition with_profile_unguarded :: "builtin_set \<Rightarrow> profile \<Rightarrow> engine" where
  "with_profile_unguarded s profile =
     builder_build (builder_guard no_guard (builder_policy (profile_policy profile)
       (standard_stack s (profile_knobs_of profile) builder_new)))"

definition with_profile_and_packs_and_decode_config ::
    "builtin_set \<Rightarrow> profile \<Rightarrow> pack list \<Rightarrow> bool \<Rightarrow> decode_config \<Rightarrow> engine" where
  "with_profile_and_packs_and_decode_config s profile packs aggressive decode =
     builder_build (builder_guard (if aggressive then no_guard else shape_guard)
       (builder_policy (profile_policy profile)
         (fold with_pack packs (standard_stack_with_decode s decode builder_new))))"

definition with_profile_and_packs :: "builtin_set \<Rightarrow> profile \<Rightarrow> pack list \<Rightarrow> bool \<Rightarrow> engine" where
  "with_profile_and_packs s profile packs aggressive =
     with_profile_and_packs_and_decode_config s profile packs aggressive
       (profile_decode_config (profile_knobs_of profile))"

definition secret_scan_with_profile_packs_and_decode_config ::
    "builtin_set \<Rightarrow> profile \<Rightarrow> pack list \<Rightarrow> decode_config \<Rightarrow> engine" where
  "secret_scan_with_profile_packs_and_decode_config s profile packs decode =
     builder_build (builder_guard shape_guard (builder_policy (profile_policy profile)
       (fold with_pack packs (secret_scan_stack_with_decode s decode builder_new))))"

definition secret_scan_with_profile_and_packs :: "builtin_set \<Rightarrow> profile \<Rightarrow> pack list \<Rightarrow> engine" where
  "secret_scan_with_profile_and_packs s profile packs =
     secret_scan_with_profile_packs_and_decode_config s profile packs
       (profile_decode_config (profile_knobs_of profile))"


section \<open>What the constructors give\<close>

lemmas builder_defs =
  builder_new_def builder_parser_def builder_detector_def builder_policy_def builder_guard_def
  builder_disable_labels_def builder_build_def

lemma profile_decode_config_valid:
  "decode_config_validate (profile_decode_config (profile_knobs_of p)) =
     Inr (profile_decode_config (profile_knobs_of p))"
  by (cases p) (simp_all add: decode_config_validate_def profile_decode_config_def
      decode_config_default_def DEFAULT_DECODE_DEPTH_def DEFAULT_MIN_DECODE_BYTES_def
      DEFAULT_MAX_DECODE_BYTES_def DEFAULT_MAX_INFLATE_BYTES_def DEFAULT_MIN_OPAQUE_RUN_def)

lemma with_packs_frame:
  "eb_parsers (fold with_pack packs b) = eb_parsers b"
  "eb_policy (fold with_pack packs b) = eb_policy b"
  "eb_guard (fold with_pack packs b) = eb_guard b"
  "eb_detectors (fold with_pack packs b) = eb_detectors b @ map pk_rules packs"
  "eb_disabled (fold with_pack packs b) = eb_disabled b @ concat (map pk_disable packs)"
  by (induction packs arbitrary: b) (simp_all add: with_pack_def builder_defs)

text \<open>Packs only add: the built-in detectors stay, and a label is off only when a pack says so.\<close>

lemma with_packs_engine:
  "en_detectors (with_profile_and_packs_and_decode_config s p packs aggressive decode) =
     en_detectors (with_profile_and_decode_config s p decode) @ map pk_rules packs"
  "en_parsers (with_profile_and_packs_and_decode_config s p packs aggressive decode) =
     en_parsers (with_profile_and_decode_config s p decode)"
  "en_disabled (with_profile_and_packs_and_decode_config s p packs aggressive decode) =
     concat (map pk_disable packs)"
  by (simp_all add: with_profile_and_packs_and_decode_config_def with_profile_and_decode_config_def
      with_packs_frame builder_defs standard_stack_with_decode_def stack_parsers_def
      structured_parsers_def)

lemma stack_parser_lookup:
  "map_of (en_parsers (with_profile s p)) KJson = Some (bs_json s)"
  "map_of (en_parsers (with_profile s p)) KHar = Some (bs_json s)"
  "map_of (en_parsers (with_profile s p)) KNdjson = Some (bs_ndjson s)"
  "map_of (en_parsers (with_profile s p)) KEnv = Some (bs_env s)"
  "map_of (en_parsers (with_profile s p)) KText = None"
  by (simp_all add: with_profile_def with_profile_and_decode_config_def builder_defs
      standard_stack_with_decode_def stack_parsers_def structured_parsers_def)

lemma built_policy_anchored:
  "\<not> is_context_free s \<Longrightarrow> en_policy (with_profile builtins p) s = Mask"
  by (simp add: with_profile_def with_profile_and_decode_config_def builder_defs
      profile_policy_def)

end
