(* ===== verification/Checksum.thy ===== *)
theory Checksum
  imports Utf8
begin

text \<open>
  The numeric checksum validators of \<open>detect/validate.rs\<close>. Digits are numbers below 10. A weight
  over a text of unbounded length is kept in 32 bits as in the code; the others run over a
  fixed number of digits and stay far below the width they are computed in. The functions that
  slice a \<open>&str\<close> return an option: \<open>None\<close> is a panic.
\<close>


section \<open>Digits\<close>

definition digits :: "str \<Rightarrow> nat list" where
  "digits s = map (\<lambda>b. code b - 48) (filter is_ascii_digit s)"

definition all_same :: "nat list \<Rightarrow> bool" where
  "all_same d \<longleftrightarrow> (case d of [] \<Rightarrow> False | f # _ \<Rightarrow> list_all (\<lambda>x. x = f) d)"

definition wsum :: "nat list \<Rightarrow> int list \<Rightarrow> int" where
  "wsum d w = sum_list (map (\<lambda>(a, b). int a * b) (zip d w))"


section \<open>Luhn\<close>

definition luhn_value :: "bool \<Rightarrow> nat \<Rightarrow> nat" where
  "luhn_value double x =
     (if double then (let v = x * 2 in if 9 < v then v - 9 else v) else x)"

fun luhn_loop :: "32 word \<Rightarrow> bool \<Rightarrow> nat list \<Rightarrow> 32 word" where
  "luhn_loop weight double [] = weight"
| "luhn_loop weight double (x # xs) = luhn_loop (weight + of_nat (luhn_value double x)) (\<not> double) xs"

definition luhn_digits :: "nat list \<Rightarrow> bool" where
  "luhn_digits d \<longleftrightarrow> d \<noteq> [] \<and> luhn_loop 0 False (rev d) mod 10 = 0"

definition luhn :: "str \<Rightarrow> bool" where
  "luhn s = luhn_digits (digits s)"

definition us_npi :: "str \<Rightarrow> bool" where
  "us_npi s \<longleftrightarrow> length (digits s) = 10 \<and> luhn_digits ([8, 0, 8, 4, 0] @ digits s)"

definition ca_sin :: "str \<Rightarrow> bool" where
  "ca_sin s \<longleftrightarrow> length (digits s) = 9 \<and> luhn s"


section \<open>Weighted sums\<close>

definition aba_routing :: "str \<Rightarrow> bool" where
  "aba_routing s \<longleftrightarrow>
     (let d = digits s
      in length d = 9 \<and> d ! 0 \<in> {0, 1, 2, 3, 6, 7, 8} \<and>
         sum_list (map2 (*) d [3, 7, 1, 3, 7, 1, 3, 7, 1]) mod 10 = 0)"

definition uk_nhs :: "str \<Rightarrow> bool" where
  "uk_nhs s \<longleftrightarrow>
     (let d = digits s
      in length d = 10 \<and>
         (let r = wsum (take 9 d) [10, 9, 8, 7, 6, 5, 4, 3, 2] mod 11; check = (11 - r) mod 11
          in check \<noteq> 10 \<and> check = int (d ! 9)))"

definition pl_pesel :: "str \<Rightarrow> bool" where
  "pl_pesel s \<longleftrightarrow>
     (let d = digits s
      in length d = 11 \<and> \<not> all_same d \<and>
         (let r = wsum (take 10 d) [1, 3, 7, 9, 1, 3, 7, 9, 1, 3] mod 10
          in (10 - r) mod 10 = int (d ! 10)))"

definition au_tfn :: "str \<Rightarrow> bool" where
  "au_tfn s \<longleftrightarrow>
     (let d = digits s in length d = 9 \<and> wsum d [1, 4, 3, 7, 5, 8, 6, 9, 10] mod 11 = 0)"

definition kr_rrn :: "str \<Rightarrow> bool" where
  "kr_rrn s \<longleftrightarrow>
     (let d = digits s
      in length d = 13 \<and>
         (let r = wsum (take 12 d) [2, 3, 4, 5, 6, 7, 8, 9, 2, 3, 4, 5] mod 11
          in (11 - r) mod 10 = int (d ! 12)))"

definition nl_bsn :: "str \<Rightarrow> bool" where
  "nl_bsn s \<longleftrightarrow>
     (let d = (if length (digits s) = 8 then 0 # digits s else digits s)
      in length d = 9 \<and>
         (let weight = wsum d [9, 8, 7, 6, 5, 4, 3, 2, -1] in weight \<noteq> 0 \<and> weight mod 11 = 0))"

definition jp_my_number :: "str \<Rightarrow> bool" where
  "jp_my_number s \<longleftrightarrow>
     (let d = digits s
      in length d = 12 \<and> \<not> all_same d \<and>
         (let weight = sum_list (map (\<lambda>n. int (d ! (11 - n)) * (if n \<le> 6 then int n + 1 else int n - 5))
                [1..<12]);
              r = weight mod 11
          in (if r \<le> 1 then 0 else 11 - r) = int (d ! 11)))"

definition au_abn :: "str \<Rightarrow> bool" where
  "au_abn s \<longleftrightarrow>
     (let d = digits s
      in length d = 11 \<and> d ! 0 \<noteq> 0 \<and>
         wsum (d[0 := d ! 0 - 1]) [10, 1, 3, 5, 7, 9, 11, 13, 15, 17, 19] mod 89 = 0)"

definition au_medicare :: "str \<Rightarrow> bool" where
  "au_medicare s \<longleftrightarrow>
     (let d = digits s
      in 9 \<le> length d \<and> 2 \<le> d ! 0 \<and> d ! 0 \<le> 6 \<and>
         wsum (take 8 d) [1, 3, 7, 9, 1, 3, 7, 9] mod 10 = int (d ! 8))"

definition cpf_digit :: "nat list \<Rightarrow> nat \<Rightarrow> int \<Rightarrow> int" where
  "cpf_digit d len start_w =
     (let weight = sum_list (map (\<lambda>i. int (d ! i) * (start_w - int i)) [0..<len]);
          r = (weight * 10) mod 11
      in if r = 10 then 0 else r)"

definition br_cpf :: "str \<Rightarrow> bool" where
  "br_cpf s \<longleftrightarrow>
     (let d = digits s
      in length d = 11 \<and> \<not> all_same d \<and>
         cpf_digit d 9 10 = int (d ! 9) \<and> cpf_digit d 10 11 = int (d ! 10))"

definition cnpj_digit :: "nat list \<Rightarrow> int list \<Rightarrow> int" where
  "cnpj_digit d w = (let r = wsum (take (length w) d) w mod 11 in if r < 2 then 0 else 11 - r)"

definition br_cnpj :: "str \<Rightarrow> bool" where
  "br_cnpj s \<longleftrightarrow>
     (let d = digits s
      in length d = 14 \<and> \<not> all_same d \<and>
         cnpj_digit d [5, 4, 3, 2, 9, 8, 7, 6, 5, 4, 3, 2] = int (d ! 12) \<and>
         cnpj_digit d [6, 5, 4, 3, 2, 9, 8, 7, 6, 5, 4, 3, 2] = int (d ! 13))"

definition au_acn :: "str \<Rightarrow> bool" where
  "au_acn s \<longleftrightarrow>
     (let d = digits s
      in length d = 9 \<and>
         (10 - sum_list (map2 (*) (take 8 d) [8, 7, 6, 5, 4, 3, 2, 1]) mod 10) mod 10 = d ! 8)"

definition us_ssn :: "str \<Rightarrow> bool" where
  "us_ssn s \<longleftrightarrow>
     (let d = digits s
      in length d = 9 \<and>
         (let area = d ! 0 * 100 + d ! 1 * 10 + d ! 2;
              group = d ! 3 * 10 + d ! 4;
              serial = d ! 5 * 1000 + d ! 6 * 100 + d ! 7 * 10 + d ! 8
          in area \<noteq> 0 \<and> area \<noteq> 666 \<and> area < 900 \<and> group \<noteq> 0 \<and> serial \<noteq> 0))"

definition tax_counts :: "nat list \<Rightarrow> nat list" where
  "tax_counts d = map (\<lambda>v. length (filter (\<lambda>x. x = v) (take 10 d))) [0..<10]"

definition tax_structural :: "nat list \<Rightarrow> bool" where
  "tax_structural d \<longleftrightarrow>
     (let counts = tax_counts d;
          twos = length (filter (\<lambda>c. c = 2) counts);
          threes = length (filter (\<lambda>c. c = 3) counts);
          ones = length (filter (\<lambda>c. c = 1) counts)
      in twos = 1 \<and> threes = 0 \<and> ones = 8 \<or>
         threes = 1 \<and> twos = 0 \<and> ones = 7 \<and>
           (let val = length (takeWhile (\<lambda>c. c \<noteq> 3) counts);
                pos = filter (\<lambda>i. d ! i = val) [0..<10]
            in \<not> (pos ! 1 = pos ! 0 + 1 \<and> pos ! 2 = pos ! 1 + 1)))"

definition tax_product :: "int \<Rightarrow> nat \<Rightarrow> int" where
  "tax_product product x =
     (let sm = (int x + product) mod 10; sm = (if sm = 0 then 10 else sm) in (sm * 2) mod 11)"

definition de_tax_id :: "str \<Rightarrow> bool" where
  "de_tax_id s \<longleftrightarrow>
     (let d = digits s
      in length d = 11 \<and> d ! 0 \<noteq> 0 \<and> tax_structural d \<and>
         (11 - foldl tax_product 10 (take 10 d)) mod 10 = int (d ! 10))"


section \<open>IBAN\<close>

definition IBAN_LEN :: "(str \<times> nat) list" where
  "IBAN_LEN = [
     (''AD'', 24), (''AE'', 23), (''AL'', 28), (''AT'', 20), (''AZ'', 28), (''BA'', 20),
     (''BE'', 16), (''BG'', 22), (''BH'', 22), (''BR'', 29), (''BY'', 28), (''CH'', 21),
     (''CR'', 22), (''CY'', 28), (''CZ'', 24), (''DE'', 22), (''DK'', 18), (''DO'', 28),
     (''EE'', 20), (''EG'', 29), (''ES'', 24), (''FI'', 18), (''FO'', 18), (''FR'', 27),
     (''GB'', 22), (''GE'', 22), (''GI'', 23), (''GL'', 18), (''GR'', 27), (''GT'', 28),
     (''HR'', 21), (''HU'', 28), (''IE'', 22), (''IL'', 23), (''IS'', 26), (''IT'', 27),
     (''JO'', 30), (''KW'', 30), (''KZ'', 20), (''LB'', 28), (''LC'', 32), (''LI'', 21),
     (''LT'', 20), (''LU'', 20), (''LV'', 21), (''MC'', 27), (''MD'', 24), (''ME'', 22),
     (''MK'', 19), (''MR'', 27), (''MT'', 31), (''MU'', 30), (''NL'', 18), (''NO'', 15),
     (''PK'', 24), (''PL'', 28), (''PS'', 29), (''PT'', 25), (''QA'', 29), (''RO'', 24),
     (''RS'', 22), (''SA'', 24), (''SE'', 24), (''SI'', 19), (''SK'', 24), (''SM'', 27),
     (''TN'', 24), (''TR'', 26), (''UA'', 29), (''VA'', 22), (''VG'', 24), (''XK'', 20)]"

fun mod97_loop :: "nat \<Rightarrow> str \<Rightarrow> nat option" where
  "mod97_loop m [] = Some m"
| "mod97_loop m (c # s) =
     (if is_ascii_digit c then mod97_loop ((m * 10 + (code c - 48)) mod 97) s
      else if is_ascii_uppercase c then mod97_loop ((m * 100 + (code c - 65 + 10)) mod 97) s
      else None)"

definition iban_canon :: "str \<Rightarrow> str" where
  "iban_canon s = map to_ascii_uppercase (filter is_ascii_alphanumeric s)"

definition iban_mod97 :: "str \<Rightarrow> bool" where
  "iban_mod97 s \<longleftrightarrow>
     (let canon = iban_canon s
      in 15 \<le> length canon \<and> length canon \<le> 34 \<and>
         list_ex (\<lambda>(c, l). c = take 2 canon \<and> l = length canon) IBAN_LEN \<and>
         mod97_loop 0 (drop 4 canon @ take 4 canon) = Some 1)"


section \<open>Verhoeff\<close>

definition verhoeff_d :: "nat list list" where
  "verhoeff_d = [
     [0, 1, 2, 3, 4, 5, 6, 7, 8, 9],
     [1, 2, 3, 4, 0, 6, 7, 8, 9, 5],
     [2, 3, 4, 0, 1, 7, 8, 9, 5, 6],
     [3, 4, 0, 1, 2, 8, 9, 5, 6, 7],
     [4, 0, 1, 2, 3, 9, 5, 6, 7, 8],
     [5, 9, 8, 7, 6, 0, 4, 3, 2, 1],
     [6, 5, 9, 8, 7, 1, 0, 4, 3, 2],
     [7, 6, 5, 9, 8, 2, 1, 0, 4, 3],
     [8, 7, 6, 5, 9, 3, 2, 1, 0, 4],
     [9, 8, 7, 6, 5, 4, 3, 2, 1, 0]]"

definition verhoeff_p :: "nat list list" where
  "verhoeff_p = [
     [0, 1, 2, 3, 4, 5, 6, 7, 8, 9],
     [1, 5, 7, 6, 2, 8, 3, 0, 9, 4],
     [5, 8, 0, 3, 7, 9, 6, 1, 4, 2],
     [8, 9, 1, 6, 0, 4, 3, 5, 2, 7],
     [9, 4, 5, 3, 1, 2, 6, 8, 7, 0],
     [4, 2, 8, 6, 5, 7, 3, 9, 0, 1],
     [2, 7, 9, 3, 8, 0, 6, 4, 1, 5],
     [7, 0, 4, 6, 9, 1, 3, 2, 5, 8]]"

fun verhoeff_loop :: "nat \<Rightarrow> nat \<Rightarrow> nat list \<Rightarrow> nat" where
  "verhoeff_loop i c [] = c"
| "verhoeff_loop i c (x # xs) =
     verhoeff_loop (Suc i) (verhoeff_d ! c ! (verhoeff_p ! (i mod 8) ! x)) xs"

definition verhoeff :: "str \<Rightarrow> bool" where
  "verhoeff s \<longleftrightarrow>
     (let d = digits s
      in length d = 12 \<and> 2 \<le> d ! 0 \<and> \<not> all_same d \<and> verhoeff_loop 0 0 (rev d) = 0)"


section \<open>Control letters\<close>

definition sg_nric_fin :: "str \<Rightarrow> bool option" where
  "sg_nric_fin s =
     (let t = trim s
      in if length t \<noteq> 9 then Some False
         else
           let prefix = to_ascii_uppercase (t ! 0); check = to_ascii_uppercase (t ! 8)
           in map_option (\<lambda>body.
                list_all is_ascii_digit body \<and>
                (let weight = wsum (map (\<lambda>c. code c - 48) body) [2, 7, 6, 5, 4, 3, 2]
                           + (if prefix \<in> {CHR ''T'', CHR ''G''} then 4
                              else if prefix = CHR ''M'' then 3 else 0);
                     r = nat (weight mod 11)
                 in if prefix \<in> {CHR ''S'', CHR ''T''} then ''JZIHGFEDCBA'' ! r = check
                    else if prefix \<in> {CHR ''F'', CHR ''G''} then ''XWUTRQPNMLK'' ! r = check
                    else if prefix = CHR ''M'' then ''KLJNPQRTUWX'' ! r = check
                    else False)) (str_slice t 1 8))"

definition us_dea :: "str \<Rightarrow> bool option" where
  "us_dea s =
     (let t = trim s
      in if length t \<noteq> 9 \<or> \<not> is_ascii_alphabetic (t ! 0) then Some False
         else if \<not> List.member ''ABCDEFGHJKLMPRSTUX'' (to_ascii_uppercase (t ! 0)) \<or>
                 \<not> (is_ascii_alphabetic (t ! 1) \<or> t ! 1 = CHR ''9'') then Some False
         else map_option (\<lambda>body.
                list_all is_ascii_digit body \<and>
                (let d = map (\<lambda>c. code c - 48) body
                 in (d ! 0 + d ! 2 + d ! 4 + 2 * (d ! 1 + d ! 3 + d ! 5)) mod 10 = d ! 6))
              (str_slice t 2 (length t)))"

definition CONTROL_LETTERS :: str where
  "CONTROL_LETTERS = ''TRWAGMYFPDXBNJZSQVHLCKE''"

definition es_control :: "str \<Rightarrow> byte \<Rightarrow> bool" where
  "es_control number letter \<longleftrightarrow>
     (case parse_u32_std number of
        None \<Rightarrow> False
      | Some n \<Rightarrow> n \<noteq> -1 \<and> CONTROL_LETTERS ! unat (n mod 23) = letter)"

definition es_nif :: "str \<Rightarrow> bool option" where
  "es_nif s =
     (let t = map to_ascii_uppercase (trim s)
      in if length t \<noteq> 9 \<or> \<not> list_all is_ascii_digit (take 8 t) then Some False
         else map_option (\<lambda>number. es_control number (t ! 8)) (str_slice t 0 8))"

definition es_nie :: "str \<Rightarrow> bool option" where
  "es_nie s =
     (let t = map to_ascii_uppercase (trim s)
      in if length t \<noteq> 9 \<or> \<not> list_all is_ascii_digit (take 7 (drop 1 t)) then Some False
         else case map_of [(CHR ''X'', CHR ''0''), (CHR ''Y'', CHR ''1''), (CHR ''Z'', CHR ''2'')]
                (t ! 0) of
           None \<Rightarrow> Some False
         | Some lead \<Rightarrow>
             map_option (\<lambda>number. es_control (lead # number) (t ! 8)) (str_slice t 1 8))"

definition HETU_CTRL :: str where
  "HETU_CTRL = ''0123456789ABCDEFHJKLMNPRSTUVWXY''"

definition fi_hetu :: "str \<Rightarrow> bool" where
  "fi_hetu s \<longleftrightarrow>
     (let t = trim s
      in length t = 11 \<and> list_all is_ascii_digit (take 6 t) \<and>
         list_all is_ascii_digit (take 3 (drop 7 t)) \<and>
         List.member ''+-YXWVUABCDEF'' (to_ascii_uppercase (t ! 6)) \<and>
         (let n = foldl (\<lambda>n b. n * 10 + (code b - 48)) 0 (take 6 t @ take 3 (drop 7 t))
          in HETU_CTRL ! (n mod 31) = to_ascii_uppercase (t ! 10)))"

definition fiscal_odd :: "nat list" where
  "fiscal_odd =
     [1, 0, 5, 7, 9, 13, 15, 17, 19, 21,
      1, 0, 5, 7, 9, 13, 15, 17, 19, 21, 2, 4, 18, 20, 11, 3, 6, 8, 12, 14, 16, 10, 22, 25, 24, 23]"

definition fiscal_idx :: "byte \<Rightarrow> nat" where
  "fiscal_idx c = (if is_ascii_digit c then code c - 48 else code c - 65 + 10)"

definition it_codice_fiscale :: "str \<Rightarrow> bool" where
  "it_codice_fiscale s \<longleftrightarrow>
     (let t = map to_ascii_uppercase (trim s)
      in length t = 16 \<and> list_all is_ascii_alphanumeric t \<and>
         (let weight = sum_list (map (\<lambda>i. let j = fiscal_idx (t ! i)
                in if i mod 2 = 0 then fiscal_odd ! j else if j < 10 then j else j - 10) [0..<15])
          in char_of (65 + weight mod 26) = t ! 15))"

text \<open>\<open>str::parse::<u64>\<close> on digits.\<close>

definition parse_u64_std :: "str \<Rightarrow> nat option" where
  "parse_u64_std s =
     (let d = (case s of c # r \<Rightarrow> if c = CHR ''+'' then r else s | [] \<Rightarrow> [])
      in if d = [] then None
         else (case read_digits 0 d of
                 None \<Rightarrow> None | Some n \<Rightarrow> if n < 2 ^ 64 then Some n else None))"

definition nir_text :: "str \<Rightarrow> str" where
  "nir_text s =
     concat (map (map to_ascii_uppercase) (filter (\<lambda>c. \<not> is_whitespace_char c) (utf8_chars s)))"

definition nir_body :: "str \<Rightarrow> str option" where
  "nir_body t =
     do {
       dept \<leftarrow> str_slice t 5 7;
       if dept = ''2A'' \<or> dept = ''2B'' then
         do {
           a \<leftarrow> str_slice t 0 5;
           b \<leftarrow> str_slice t 7 13;
           Some (a @ (if dept = ''2A'' then ''19'' else ''18'') @ b)
         }
       else str_slice t 0 13
     }"

definition fr_nir :: "str \<Rightarrow> bool option" where
  "fr_nir s =
     (let t = nir_text s
      in if length t \<noteq> 15 \<or> \<not> list_all is_ascii_digit (take 2 (drop 13 t)) then Some False
         else
           do {
             body \<leftarrow> nir_body t;
             if length body \<noteq> 13 \<or> \<not> list_all is_ascii_digit body then Some False
             else
               do {
                 key \<leftarrow> str_slice t 13 15;
                 Some (case (parse_u64_std body, parse_u64_std key) of
                     (Some n, Some given) \<Rightarrow> given = 97 - n mod 97
                   | _ \<Rightarrow> False)
               }
           })"

definition GSTIN_CH :: str where
  "GSTIN_CH = ''0123456789ABCDEFGHIJKLMNOPQRSTUVWXYZ''"

definition gstin_value :: "byte \<Rightarrow> nat" where
  "gstin_value c =
     (let i = length (takeWhile (\<lambda>x. x \<noteq> c) GSTIN_CH) in if i < length GSTIN_CH then i else 0)"

fun gstin_loop :: "nat \<Rightarrow> nat \<Rightarrow> str \<Rightarrow> nat" where
  "gstin_loop acc factor [] = acc"
| "gstin_loop acc factor (c # s) =
     (let p = gstin_value c * factor
      in gstin_loop (acc + p div 36 + p mod 36) (if factor = 2 then 1 else 2) s)"

definition in_gstin :: "str \<Rightarrow> bool" where
  "in_gstin s \<longleftrightarrow>
     (let t = map to_ascii_uppercase (trim s)
      in length t = 15 \<and> list_all is_ascii_alphanumeric t \<and>
         GSTIN_CH ! ((36 - gstin_loop 0 2 (rev (take 14 t)) mod 36) mod 36) = t ! 14)"


section \<open>Texts and their digits\<close>

lemma digits_append: "digits (p @ q) = digits p @ digits q"
  by (simp add: digits_def)

lemma digits_Cons:
  "digits (c # s) = (if is_ascii_digit c then (code c - 48) # digits s else digits s)"
  by (simp add: digits_def)

lemma length_digits_le: "length (digits s) \<le> length s"
  by (simp add: digits_def length_filter_le)

lemma digits_less: "x \<in> set (digits s) \<Longrightarrow> x < 10"
  by (auto simp: digits_def is_ascii_digit_def byte_between_def)

lemma digit_less: "is_ascii_digit c \<Longrightarrow> code c - 48 < 10"
  by (auto simp: is_ascii_digit_def byte_between_def)

lemma digit_inj: "is_ascii_digit c \<Longrightarrow> is_ascii_digit c' \<Longrightarrow> c \<noteq> c' \<Longrightarrow> code c - 48 \<noteq> code c' - 48"
  unfolding is_ascii_digit_def byte_between_def code_eq_iff [symmetric] by linarith

text \<open>
  A checksum detects substitutions when changing one digit of an accepted text to another digit
  always makes it rejected, and transpositions when swapping two different adjacent digits does.
\<close>

definition detects_substitution :: "(str \<Rightarrow> bool) \<Rightarrow> bool" where
  "detects_substitution V \<longleftrightarrow>
     (\<forall>p c c' q. is_ascii_digit c \<and> is_ascii_digit c' \<and> c \<noteq> c' \<and> V (p @ c # q) \<longrightarrow> \<not> V (p @ c' # q))"

definition detects_transposition_but :: "str set \<Rightarrow> (str \<Rightarrow> bool) \<Rightarrow> bool" where
  "detects_transposition_but X V \<longleftrightarrow>
     (\<forall>p c c' q. is_ascii_digit c \<and> is_ascii_digit c' \<and> c \<noteq> c' \<and> [c, c'] \<notin> X \<and>
        V (p @ c # c' # q) \<longrightarrow> \<not> V (p @ c' # c # q))"

abbreviation detects_transposition :: "(str \<Rightarrow> bool) \<Rightarrow> bool" where
  "detects_transposition \<equiv> detects_transposition_but {}"

text \<open>On lists of digits: \<open>checks F\<close> holds when \<open>F\<close> tells apart two lists that differ in one place.\<close>

definition separates :: "(nat list \<Rightarrow> bool) \<Rightarrow> bool" where
  "separates F \<longleftrightarrow>
     (\<forall>xs a b ys. (\<forall>x \<in> set (xs @ a # b # ys). x < 10) \<longrightarrow> a \<noteq> b \<longrightarrow> F (xs @ a # ys) \<longrightarrow>
        \<not> F (xs @ b # ys))"

definition separates_swap :: "(nat list \<Rightarrow> bool) \<Rightarrow> bool" where
  "separates_swap F \<longleftrightarrow>
     (\<forall>xs a b ys. (\<forall>x \<in> set (xs @ a # b # ys). x < 10) \<longrightarrow> a \<noteq> b \<longrightarrow> F (xs @ a # b # ys) \<longrightarrow>
        \<not> F (xs @ b # a # ys))"

lemma separatesD:
  "separates F \<Longrightarrow> \<forall>x \<in> set (xs @ a # b # ys). x < 10 \<Longrightarrow> a \<noteq> b \<Longrightarrow> F (xs @ a # ys) \<Longrightarrow>
     \<not> F (xs @ b # ys)"
  unfolding separates_def by blast

lemma separates_detects:
  assumes "separates F" and "\<And>s. V s \<Longrightarrow> F (digits s)"
  shows "detects_substitution V"
  unfolding detects_substitution_def
proof (intro allI impI)
  fix p c c' q
  assume c: "is_ascii_digit c \<and> is_ascii_digit c' \<and> c \<noteq> c' \<and> V (p @ c # q)"
  then have "F (digits p @ (code c - 48) # digits q)"
    using assms(2) [of "p @ c # q"] by (simp add: digits_append digits_Cons)
  then have "\<not> F (digits p @ (code c' - 48) # digits q)"
    using c digit_inj [of c c'] digits_less digit_less
    by (intro separatesD [OF assms(1)]) auto
  then show "\<not> V (p @ c' # q)"
    using c assms(2) [of "p @ c' # q"] by (auto simp: digits_append digits_Cons)
qed


lemma separates_swapD:
  "separates_swap F \<Longrightarrow> \<forall>x \<in> set (xs @ a # b # ys). x < 10 \<Longrightarrow> a \<noteq> b \<Longrightarrow> F (xs @ a # b # ys) \<Longrightarrow>
     \<not> F (xs @ b # a # ys)"
  unfolding separates_swap_def by blast

lemma separates_swap_detects:
  assumes "separates_swap F" and "\<And>s. V s \<Longrightarrow> F (digits s)"
  shows "detects_transposition V"
  unfolding detects_transposition_but_def
proof (intro allI impI)
  fix p c c' q
  assume c: "is_ascii_digit c \<and> is_ascii_digit c' \<and> c \<noteq> c' \<and> [c, c'] \<notin> {} \<and> V (p @ c # c' # q)"
  then have "F (digits p @ (code c - 48) # (code c' - 48) # digits q)"
    using assms(2) [of "p @ c # c' # q"] by (simp add: digits_append digits_Cons)
  then have "\<not> F (digits p @ (code c' - 48) # (code c - 48) # digits q)"
    using c digit_inj [of c c'] digits_less digit_less
    by (intro separates_swapD [OF assms(1)]) auto
  then show "\<not> V (p @ c' # c # q)"
    using c assms(2) [of "p @ c' # c # q"] by (auto simp: digits_append digits_Cons)
qed

text \<open>A weaker check separates what a stronger one does.\<close>

lemma separates_mono:
  assumes "separates F" and "\<And>d. G d \<Longrightarrow> F d"
  shows "separates G"
  using assms unfolding separates_def by blast

lemma separates_swap_mono:
  assumes "separates_swap F" and "\<And>d. G d \<Longrightarrow> F d"
  shows "separates_swap G"
  using assms unfolding separates_swap_def by blast


section \<open>Weighted sums tell digits apart\<close>

lemma wsum_Nil [simp]: "wsum [] w = 0" "wsum d [] = 0"
  by (simp_all add: wsum_def)

lemma wsum_Cons [simp]: "wsum (x # d) (w # ws) = int x * w + wsum d ws"
  by (simp add: wsum_def)

lemma wsum_update:
  "length xs < length w \<Longrightarrow>
     wsum (xs @ a # ys) w - wsum (xs @ b # ys) w = (int a - int b) * w ! length xs"
proof (induction xs arbitrary: w)
  case Nil
  then show ?case by (cases w) (simp_all add: algebra_simps)
next
  case (Cons x xs)
  then show ?case by (cases w) auto
qed

text \<open>A weight tells digits apart when no difference of two digits is lost modulo \<open>m\<close>.\<close>

definition tells_digits :: "int \<Rightarrow> int \<Rightarrow> bool" where
  "tells_digits m v \<longleftrightarrow> list_all (\<lambda>d. (d * v) mod m \<noteq> 0) [1, 2, 3, 4, 5, 6, 7, 8, 9]"

lemma tells_differ:
  fixes a b :: nat
  assumes "tells_digits m v" and "a \<noteq> b" and "a < 10" and "b < 10"
  shows "\<not> m dvd (int a - int b) * v"
proof -
  have pos: "\<not> m dvd d * v" if "0 < d" "d < 10" for d
  proof -
    from that have "d \<in> set [1, 2, 3, 4, 5, 6, 7, 8, 9]" by auto
    with assms(1) show ?thesis
      unfolding tells_digits_def list_all_iff dvd_eq_mod_eq_0 by (rule bspec)
  qed
  show ?thesis
  proof (cases "b < a")
    case True
    with pos [of "int a - int b"] assms(3) show ?thesis by simp
  next
    case False
    with assms have "\<not> m dvd (int b - int a) * v" by (intro pos) auto
    moreover have "(int b - int a) * v = - ((int a - int b) * v)" by (simp add: algebra_simps)
    ultimately show ?thesis by simp
  qed
qed

lemma wsum_separates:
  assumes "list_all (tells_digits m) w"
  shows "separates (\<lambda>d. length d \<le> length w \<and> wsum d w mod m = k)"
  unfolding separates_def
proof (intro allI impI notI)
  fix xs a b ys
  assume low: "\<forall>x \<in> set (xs @ a # b # ys). x < (10 :: nat)" and ne: "a \<noteq> b"
    and A: "length (xs @ a # ys) \<le> length w \<and> wsum (xs @ a # ys) w mod m = k"
    and B: "length (xs @ b # ys) \<le> length w \<and> wsum (xs @ b # ys) w mod m = k"
  from A B have "wsum (xs @ a # ys) w mod m = wsum (xs @ b # ys) w mod m" by simp
  then have "m dvd wsum (xs @ a # ys) w - wsum (xs @ b # ys) w" by (simp only: mod_eq_dvd_iff)
  also have "\<dots> = (int a - int b) * w ! length xs" using A by (intro wsum_update) simp
  finally show False
    using tells_differ [of m "w ! length xs" a b] assms low ne A by (simp add: list_all_length)
qed

lemma wsum_swap:
  "Suc (length xs) < length w \<Longrightarrow>
     wsum (xs @ a # b # ys) w - wsum (xs @ b # a # ys) w =
       (int a - int b) * (w ! length xs - w ! Suc (length xs))"
proof (induction xs arbitrary: w)
  case Nil
  then show ?case by (cases w; cases "tl w") (simp_all add: algebra_simps)
next
  case (Cons x xs)
  then show ?case by (cases w) auto
qed

definition swap_weights :: "int list \<Rightarrow> int list" where
  "swap_weights w = map2 (-) w (tl w)"

lemma wsum_separates_swap:
  assumes "list_all (tells_digits m) (swap_weights w)"
  shows "separates_swap (\<lambda>d. length d \<le> length w \<and> wsum d w mod m = k)"
  unfolding separates_swap_def
proof (intro allI impI notI)
  fix xs a b ys
  assume low: "\<forall>x \<in> set (xs @ a # b # ys). x < (10 :: nat)" and ne: "a \<noteq> b"
    and A: "length (xs @ a # b # ys) \<le> length w \<and> wsum (xs @ a # b # ys) w mod m = k"
    and B: "length (xs @ b # a # ys) \<le> length w \<and> wsum (xs @ b # a # ys) w mod m = k"
  let ?i = "length xs"
  from A B have "wsum (xs @ a # b # ys) w mod m = wsum (xs @ b # a # ys) w mod m" by simp
  then have "m dvd wsum (xs @ a # b # ys) w - wsum (xs @ b # a # ys) w"
    by (simp only: mod_eq_dvd_iff)
  also have "\<dots> = (int a - int b) * (w ! ?i - w ! Suc ?i)" using A by (intro wsum_swap) simp
  also have "w ! ?i - w ! Suc ?i = swap_weights w ! ?i"
    using A by (simp add: swap_weights_def nth_tl Suc_le_eq less_diff_conv)
  finally have "m dvd (int a - int b) * swap_weights w ! ?i" .
  moreover have "?i < length (swap_weights w)" using A by (auto simp: swap_weights_def)
  then have "tells_digits m (swap_weights w ! ?i)" using assms unfolding list_all_length by blast
  ultimately show False using tells_differ [of m "swap_weights w ! ?i" a b] low ne by simp
qed

text \<open>A check digit compared with the complement of a weighted sum is one more weight.\<close>

lemma wsum_snoc: "length xs = length w \<Longrightarrow> wsum (xs @ [x]) (w @ [v]) = wsum xs w + int x * v"
  by (simp add: wsum_def)

lemma wsum_check:
  assumes "length w = n" and "length d = Suc n" and "0 < m"
    and "(m - wsum (take n d) w mod m) mod m = int (d ! n)"
  shows "wsum d (w @ [1]) mod m = 0"
proof -
  have d: "d = take n d @ [d ! n]"
    using assms(2) by (metis take_Suc_conv_app_nth lessI order_refl take_all)
  have "wsum d (w @ [1]) = wsum (take n d @ [d ! n]) (w @ [1])" by (simp only: d [symmetric])
  also have "\<dots> = wsum (take n d) w + int (d ! n)"
    using assms(1,2) by (simp add: wsum_snoc)
  also have "\<dots> mod m = (wsum (take n d) w + (m - wsum (take n d) w)) mod m"
    by (metis assms(4) mod_add_right_eq mod_diff_right_eq)
  finally show ?thesis by simp
qed

lemma map2_wsum: "int (sum_list (map2 (*) d w)) = wsum d (map int w)"
  by (induction d w rule: list_induct2') (simp_all add: wsum_def)

lemma aba_check:
  assumes "aba_routing s"
  shows "length (digits s) \<le> 9 \<and> wsum (digits s) [3, 7, 1, 3, 7, 1, 3, 7, 1] mod 10 = 0"
proof -
  let ?w = "[3, 7, 1, 3, 7, 1, 3, 7, 1] :: nat list"
  have a: "length (digits s) = 9" "sum_list (map2 (*) (digits s) ?w) mod 10 = 0"
    using assms by (simp_all only: aba_routing_def Let_def)
  have "wsum (digits s) (map int ?w) mod 10 = int (sum_list (map2 (*) (digits s) ?w) mod 10)"
    unfolding map2_wsum [symmetric] by (simp only: of_nat_mod of_nat_numeral)
  then show ?thesis unfolding a(2) using a(1) by simp
qed

lemma nhs_check: "uk_nhs s \<Longrightarrow> length (digits s) \<le> 10 \<and>
    wsum (digits s) [10, 9, 8, 7, 6, 5, 4, 3, 2, 1] mod 11 = 0"
  using wsum_check [of "[10, 9, 8, 7, 6, 5, 4, 3, 2]" 9 "digits s" 11]
  by (simp add: uk_nhs_def Let_def)

lemma pesel_check: "pl_pesel s \<Longrightarrow> length (digits s) \<le> 11 \<and>
    wsum (digits s) [1, 3, 7, 9, 1, 3, 7, 9, 1, 3, 1] mod 10 = 0"
  using wsum_check [of "[1, 3, 7, 9, 1, 3, 7, 9, 1, 3]" 10 "digits s" 10]
  by (simp add: pl_pesel_def Let_def)

lemma tfn_check: "au_tfn s \<Longrightarrow> length (digits s) \<le> 9 \<and>
    wsum (digits s) [1, 4, 3, 7, 5, 8, 6, 9, 10] mod 11 = 0"
  by (simp add: au_tfn_def Let_def)

lemma abn_check:
  assumes "au_abn s"
  shows "length (digits s) \<le> 11 \<and>
    wsum (digits s) [10, 1, 3, 5, 7, 9, 11, 13, 15, 17, 19] mod 89 = 10"
proof -
  let ?d = "digits s" and ?w = "[10, 1, 3, 5, 7, 9, 11, 13, 15, 17, 19] :: int list"
  from assms have d: "length ?d = 11" "?d ! 0 \<noteq> 0" "wsum (?d[0 := ?d ! 0 - 1]) ?w mod 89 = 0"
    by (simp_all add: au_abn_def Let_def)
  from d(1) obtain x xs where x: "?d = x # xs" by (cases ?d) auto
  then have "wsum ?d ?w = wsum (?d[0 := ?d ! 0 - 1]) ?w + 10" using d(2) by simp
  then have "wsum ?d ?w mod 89 = (wsum (?d[0 := ?d ! 0 - 1]) ?w mod 89 + 10) mod 89"
    by (simp add: mod_add_left_eq)
  with d show ?thesis by simp
qed

lemma bsn_check:
  "nl_bsn s \<Longrightarrow>
     length (digits s) = 9 \<and> wsum (digits s) [9, 8, 7, 6, 5, 4, 3, 2, -1] mod 11 = 0 \<or>
     length (digits s) = 8 \<and> wsum (digits s) [8, 7, 6, 5, 4, 3, 2, -1] mod 11 = 0"
  by (auto simp: nl_bsn_def Let_def split: if_splits)


section \<open>The Luhn sum\<close>

fun luhn_sum :: "bool \<Rightarrow> nat list \<Rightarrow> nat" where
  "luhn_sum double [] = 0"
| "luhn_sum double (x # xs) = luhn_value double x + luhn_sum (\<not> double) xs"

lemma luhn_loop_sum: "luhn_loop w double xs = w + of_nat (luhn_sum double xs)"
  by (induction w double xs rule: luhn_loop.induct) simp_all

lemma luhn_value_less: "x < 10 \<Longrightarrow> luhn_value double x < 10"
  by (auto simp: luhn_value_def Let_def)

lemma luhn_value_inj: "a < 10 \<Longrightarrow> b < 10 \<Longrightarrow> luhn_value double a = luhn_value double b \<Longrightarrow> a = b"
  by (cases double) (auto simp: luhn_value_def Let_def split: if_splits, presburger+)

lemma luhn_sum_bound: "\<forall>x \<in> set xs. x < 10 \<Longrightarrow> luhn_sum double xs \<le> 9 * length xs"
proof (induction double xs rule: luhn_sum.induct)
  case (2 double x xs)
  then have "luhn_value double x < 10" by (intro luhn_value_less) simp
  with 2 show ?case by simp
qed simp

lemma luhn_sum_append:
  "luhn_sum double (xs @ ys) = luhn_sum double xs + luhn_sum (double \<noteq> odd (length xs)) ys"
  by (induction double xs rule: luhn_sum.induct) auto

text \<open>Below the bound the sum does not wrap, and the check is about the number itself.\<close>

lemma luhn_digits_iff:
  assumes "\<forall>x \<in> set d. x < 10" and "length d < 2 ^ 28"
  shows "luhn_digits d \<longleftrightarrow> d \<noteq> [] \<and> luhn_sum False (rev d) mod 10 = 0"
proof -
  let ?n = "luhn_sum False (rev d)"
  have "?n \<le> 9 * length d" using luhn_sum_bound [of "rev d" False] assms(1) by simp
  then have "?n < 2 ^ LENGTH(32)" using assms(2) by simp
  then have "unat (of_nat ?n :: 32 word) = ?n" by (simp add: unat_of_nat)
  then have "unat ((of_nat ?n :: 32 word) mod 10) = ?n mod 10" by (simp add: unat_mod)
  then have "(of_nat ?n :: 32 word) mod 10 = 0 \<longleftrightarrow> ?n mod 10 = 0"
    by (metis unat_eq_zero)
  then show ?thesis by (simp add: luhn_digits_def luhn_loop_sum)
qed

lemma mod_10_cancel:
  fixes x y :: nat
  assumes "(u + x + v) mod 10 = 0" and "(u + y + v) mod 10 = 0" and "x < 10" and "y < 10"
  shows "x = y"
proof -
  have "int x + int (u + v) = int (u + x + v)" "int y + int (u + v) = int (u + y + v)" by simp_all
  then have "(int x + int (u + v)) mod 10 = (int y + int (u + v)) mod 10"
    using assms(1,2) by (metis of_nat_mod of_nat_numeral)
  then have "10 dvd int x - int y" by (simp add: mod_eq_dvd_iff)
  with assms(3,4) show ?thesis by presburger
qed

lemma mod_10_same:
  fixes x y :: nat
  assumes "(u + x + v) mod 10 = 0" and "(u + y + v) mod 10 = 0"
  shows "x mod 10 = y mod 10"
proof -
  have "(u + x mod 10 + v) mod 10 = 0" "(u + y mod 10 + v) mod 10 = 0"
    using assms by (metis mod_add_left_eq mod_add_right_eq)+
  then show ?thesis by (rule mod_10_cancel) simp_all
qed

lemma luhn_separates: "separates (\<lambda>d. length d < 2 ^ 28 \<and> luhn_digits d)"
  unfolding separates_def
proof (intro allI impI notI)
  fix xs a b ys
  assume low: "\<forall>x \<in> set (xs @ a # b # ys). x < (10 :: nat)" and ne: "a \<noteq> b"
    and A: "length (xs @ a # ys) < 2 ^ 28 \<and> luhn_digits (xs @ a # ys)"
    and B: "length (xs @ b # ys) < 2 ^ 28 \<and> luhn_digits (xs @ b # ys)"
  let ?dbl = "False \<noteq> odd (length (rev ys))"
  let ?u = "luhn_sum False (rev ys)" and ?v = "luhn_sum (\<not> ?dbl) (rev xs)"
  have sums: "(?u + luhn_value ?dbl c + ?v) mod 10 = 0"
    if "length (xs @ c # ys) < 2 ^ 28 \<and> luhn_digits (xs @ c # ys)" "c \<in> {a, b}" for c
  proof -
    have "luhn_sum False (rev (xs @ c # ys)) mod 10 = 0"
      using that low luhn_digits_iff [of "xs @ c # ys"] by auto
    then show ?thesis by (simp add: luhn_sum_append add.assoc)
  qed
  have "(?u + luhn_value ?dbl a + ?v) mod 10 = 0" "(?u + luhn_value ?dbl b + ?v) mod 10 = 0"
    by (rule sums [OF A], simp) (rule sums [OF B], simp)
  moreover have "luhn_value ?dbl a < 10" "luhn_value ?dbl b < 10"
    using low luhn_value_less by auto
  ultimately have "luhn_value ?dbl a = luhn_value ?dbl b" by (rule mod_10_cancel)
  then have "a = b" by (rule luhn_value_inj [rotated 2]) (use low in auto)
  then show False using ne by simp
qed


section \<open>The Verhoeff tables\<close>

definition vd :: "nat \<Rightarrow> nat \<Rightarrow> nat" where
  "vd c x = verhoeff_d ! c ! x"

definition vp :: "nat \<Rightarrow> nat \<Rightarrow> nat" where
  "vp i x = verhoeff_p ! (i mod 8) ! x"

lemma verhoeff_loop_step [simp]: "verhoeff_loop i c (x # xs) = verhoeff_loop (Suc i) (vd c (vp i x)) xs"
  by (simp add: vd_def vp_def)

declare verhoeff_loop.simps(2) [simp del]

definition all_below :: "nat \<Rightarrow> (nat \<Rightarrow> bool) \<Rightarrow> bool" where
  "all_below n P \<longleftrightarrow> list_all P [0..<n]"

lemma all_below_iff: "all_below n P \<longleftrightarrow> (\<forall>x < n. P x)"
  by (auto simp: all_below_def list_all_iff)

lemma vd_group:
  "all_below 10 (\<lambda>c. all_below 10 (\<lambda>x. vd c x < 10))"
  "all_below 10 (\<lambda>c. distinct (map (vd c) [0..<10]))"
  "all_below 10 (\<lambda>x. distinct (map (\<lambda>c. vd c x) [0..<10]))"
  "all_below 10 (\<lambda>c. all_below 10 (\<lambda>x. all_below 10 (\<lambda>y. vd (vd c x) y = vd c (vd x y))))"
  by code_simp+

lemma vp_permutation:
  "all_below 8 (\<lambda>i. all_below 10 (\<lambda>x. vp i x < 10))"
  "all_below 8 (\<lambda>i. distinct (map (vp i) [0..<10]))"
  by code_simp+

lemma v_swap:
  "all_below 8 (\<lambda>i. all_below 10 (\<lambda>a. all_below 10 (\<lambda>b.
     a \<noteq> b \<longrightarrow> vd (vp i a) (vp (Suc i) b) \<noteq> vd (vp i b) (vp (Suc i) a))))"
  by code_simp

lemma distinct_map_inj: "distinct (map f [0..<n]) \<Longrightarrow> a < n \<Longrightarrow> b < n \<Longrightarrow> f a = f b \<Longrightarrow> a = b"
  by (auto simp: distinct_map inj_on_def)

lemma vd_less: "c < 10 \<Longrightarrow> x < 10 \<Longrightarrow> vd c x < 10"
  using vd_group(1) by (simp add: all_below_iff)

lemma vd_inj: "c < 10 \<Longrightarrow> x < 10 \<Longrightarrow> y < 10 \<Longrightarrow> vd c x = vd c y \<Longrightarrow> x = y"
  using vd_group(2) distinct_map_inj [of "vd c" 10 x y] by (simp add: all_below_iff)

lemma vd_inj_left: "c < 10 \<Longrightarrow> c' < 10 \<Longrightarrow> x < 10 \<Longrightarrow> vd c x = vd c' x \<Longrightarrow> c = c'"
  using vd_group(3) distinct_map_inj [of "\<lambda>c. vd c x" 10 c c'] by (simp add: all_below_iff)

lemma vd_assoc: "c < 10 \<Longrightarrow> x < 10 \<Longrightarrow> y < 10 \<Longrightarrow> vd (vd c x) y = vd c (vd x y)"
  using vd_group(4) by (simp add: all_below_iff)

lemma vp_mod: "vp (i mod 8) x = vp i x" "vp (Suc (i mod 8)) x = vp (Suc i) x"
  by (simp_all add: vp_def mod_Suc_eq)

lemma vp_less: "x < 10 \<Longrightarrow> vp i x < 10"
  using vp_permutation(1) vp_mod(1) [of i x] by (metis all_below_iff mod_less_divisor zero_less_numeral)

lemma vp_inj: "x < 10 \<Longrightarrow> y < 10 \<Longrightarrow> vp i x = vp i y \<Longrightarrow> x = y"
  using vp_permutation(2) distinct_map_inj [of "vp (i mod 8)" 10 x y]
  by (simp add: all_below_iff vp_mod)

lemma vp_swap:
  assumes "a < 10" and "b < 10" and "a \<noteq> b"
  shows "vd (vp i a) (vp (Suc i) b) \<noteq> vd (vp i b) (vp (Suc i) a)"
proof -
  have "i mod 8 < 8" by simp
  with v_swap assms have
    "vd (vp (i mod 8) a) (vp (Suc (i mod 8)) b) \<noteq> vd (vp (i mod 8) b) (vp (Suc (i mod 8)) a)"
    unfolding all_below_iff by blast
  then show ?thesis unfolding vp_mod .
qed

lemma verhoeff_loop_less:
  "c < 10 \<Longrightarrow> \<forall>x \<in> set xs. x < 10 \<Longrightarrow> verhoeff_loop i c xs < 10"
  by (induction xs arbitrary: i c) (simp_all add: vd_less vp_less)

lemma verhoeff_loop_inj:
  "c < 10 \<Longrightarrow> c' < 10 \<Longrightarrow> \<forall>x \<in> set xs. x < 10 \<Longrightarrow>
     verhoeff_loop i c xs = verhoeff_loop i c' xs \<Longrightarrow> c = c'"
proof (induction xs arbitrary: i c c')
  case (Cons x xs)
  have "vd c (vp i x) = vd c' (vp i x)"
    by (rule Cons.IH [of _ _ "Suc i"]) (use Cons.prems in \<open>auto simp: vd_less vp_less\<close>)
  then show ?case using Cons.prems by (intro vd_inj_left [of c c' "vp i x"]) (auto simp: vp_less)
qed simp

lemma verhoeff_loop_append:
  "verhoeff_loop i c (xs @ ys) = verhoeff_loop (i + length xs) (verhoeff_loop i c xs) ys"
  by (induction xs arbitrary: i c) simp_all

lemma verhoeff_separates: "separates (\<lambda>d. verhoeff_loop 0 0 (rev d) = 0)"
  unfolding separates_def
proof (intro allI impI notI)
  fix xs a b ys
  assume low: "\<forall>x \<in> set (xs @ a # b # ys). x < (10 :: nat)" and ne: "a \<noteq> b"
    and A: "verhoeff_loop 0 0 (rev (xs @ a # ys)) = 0"
    and B: "verhoeff_loop 0 0 (rev (xs @ b # ys)) = 0"
  let ?c = "verhoeff_loop 0 0 (rev ys)" and ?i = "length ys"
  have c: "?c < 10" by (rule verhoeff_loop_less) (use low in auto)
  have "vd ?c (vp ?i a) = vd ?c (vp ?i b)"
    by (rule verhoeff_loop_inj [of _ _ "rev xs" "Suc ?i"])
      (use A B low c in \<open>auto simp: verhoeff_loop_append vd_less vp_less\<close>)
  then have "vp ?i a = vp ?i b" by (rule vd_inj [rotated 3]) (use low c in \<open>auto simp: vp_less\<close>)
  then have "a = b" by (rule vp_inj [rotated 2]) (use low in auto)
  with ne show False by simp
qed

lemma verhoeff_separates_swap: "separates_swap (\<lambda>d. verhoeff_loop 0 0 (rev d) = 0)"
  unfolding separates_swap_def
proof (intro allI impI notI)
  fix xs a b ys
  assume low: "\<forall>x \<in> set (xs @ a # b # ys). x < (10 :: nat)" and ne: "a \<noteq> b"
    and A: "verhoeff_loop 0 0 (rev (xs @ a # b # ys)) = 0"
    and B: "verhoeff_loop 0 0 (rev (xs @ b # a # ys)) = 0"
  let ?c = "verhoeff_loop 0 0 (rev ys)" and ?i = "length ys"
  have c: "?c < 10" by (rule verhoeff_loop_less) (use low in auto)
  have ab: "a < 10" "b < 10" using low by auto
  note small = vd_less vp_less c ab
  have "vd (vd ?c (vp ?i b)) (vp (Suc ?i) a) = vd (vd ?c (vp ?i a)) (vp (Suc ?i) b)"
    by (rule verhoeff_loop_inj [of _ _ "rev xs" "Suc (Suc ?i)"])
      (use A B low in \<open>auto simp: verhoeff_loop_append small\<close>)
  then have "vd ?c (vd (vp ?i b) (vp (Suc ?i) a)) = vd ?c (vd (vp ?i a) (vp (Suc ?i) b))"
    by (simp add: small vd_assoc)
  then have "vd (vp ?i b) (vp (Suc ?i) a) = vd (vp ?i a) (vp (Suc ?i) b)"
    by (rule vd_inj [rotated 3]) (simp_all add: small)
  with vp_swap [OF ab(2,1) ne [symmetric], of ?i] show False by (rule notE)
qed


section \<open>What the schemes detect\<close>

text \<open>The weights of the schemes tell digits apart, and so do the differences of adjacent weights.\<close>

lemma weights_tell:
  "list_all (tells_digits 10) [3, 7, 1, 3, 7, 1, 3, 7, 1]"
  "list_all (tells_digits 11) [10, 9, 8, 7, 6, 5, 4, 3, 2, 1]"
  "list_all (tells_digits 10) [1, 3, 7, 9, 1, 3, 7, 9, 1, 3, 1]"
  "list_all (tells_digits 11) [1, 4, 3, 7, 5, 8, 6, 9, 10]"
  "list_all (tells_digits 89) [10, 1, 3, 5, 7, 9, 11, 13, 15, 17, 19]"
  "list_all (tells_digits 11) [9, 8, 7, 6, 5, 4, 3, 2, -1]"
  "list_all (tells_digits 11) [8, 7, 6, 5, 4, 3, 2, -1]"
  by code_simp+

lemma weight_steps_tell:
  "list_all (tells_digits 11) (swap_weights [10, 9, 8, 7, 6, 5, 4, 3, 2, 1])"
  "list_all (tells_digits 11) (swap_weights [1, 4, 3, 7, 5, 8, 6, 9, 10])"
  "list_all (tells_digits 89) (swap_weights [10, 1, 3, 5, 7, 9, 11, 13, 15, 17, 19])"
  "list_all (tells_digits 11) (swap_weights [9, 8, 7, 6, 5, 4, 3, 2, -1])"
  "list_all (tells_digits 11) (swap_weights [8, 7, 6, 5, 4, 3, 2, -1])"
  by code_simp+

lemma separates_either:
  assumes "separates F" and "separates G" and "\<And>d. F d \<Longrightarrow> length d = n"
    and "\<And>d. G d \<Longrightarrow> length d = k" and "n \<noteq> k"
  shows "separates (\<lambda>d. F d \<or> G d)"
  unfolding separates_def
proof (intro allI impI notI)
  fix xs a b ys
  assume low: "\<forall>x \<in> set (xs @ a # b # ys). x < (10 :: nat)" "a \<noteq> b"
    and A: "F (xs @ a # ys) \<or> G (xs @ a # ys)" and B: "F (xs @ b # ys) \<or> G (xs @ b # ys)"
  have "length (xs @ a # ys) = length (xs @ b # ys)" by simp
  then have "F (xs @ a # ys) \<and> F (xs @ b # ys) \<or> G (xs @ a # ys) \<and> G (xs @ b # ys)"
    using A B assms(3-5) by metis
  then show False using separatesD [OF assms(1) low] separatesD [OF assms(2) low] by blast
qed

lemma separates_swap_either:
  assumes "separates_swap F" and "separates_swap G" and "\<And>d. F d \<Longrightarrow> length d = n"
    and "\<And>d. G d \<Longrightarrow> length d = k" and "n \<noteq> k"
  shows "separates_swap (\<lambda>d. F d \<or> G d)"
  unfolding separates_swap_def
proof (intro allI impI notI)
  fix xs a b ys
  assume low: "\<forall>x \<in> set (xs @ a # b # ys). x < (10 :: nat)" "a \<noteq> b"
    and A: "F (xs @ a # b # ys) \<or> G (xs @ a # b # ys)" and B: "F (xs @ b # a # ys) \<or> G (xs @ b # a # ys)"
  have "length (xs @ a # b # ys) = length (xs @ b # a # ys)" by simp
  then have "F (xs @ a # b # ys) \<and> F (xs @ b # a # ys) \<or> G (xs @ a # b # ys) \<and> G (xs @ b # a # ys)"
    using A B assms(3-5) by metis
  then show False using separates_swapD [OF assms(1) low] separates_swapD [OF assms(2) low] by blast
qed

lemma bsn_separates:
  "separates (\<lambda>d. length d = 9 \<and> wsum d [9, 8, 7, 6, 5, 4, 3, 2, -1] mod 11 = 0 \<or>
     length d = 8 \<and> wsum d [8, 7, 6, 5, 4, 3, 2, -1] mod 11 = 0)"
  by (rule separates_either)
    (auto intro: separates_mono [OF wsum_separates [OF weights_tell(6), of 0]]
      separates_mono [OF wsum_separates [OF weights_tell(7), of 0]])

lemma bsn_separates_swap:
  "separates_swap (\<lambda>d. length d = 9 \<and> wsum d [9, 8, 7, 6, 5, 4, 3, 2, -1] mod 11 = 0 \<or>
     length d = 8 \<and> wsum d [8, 7, 6, 5, 4, 3, 2, -1] mod 11 = 0)"
  by (rule separates_swap_either)
    (auto intro: separates_swap_mono [OF wsum_separates_swap [OF weight_steps_tell(4), of 0]]
      separates_swap_mono [OF wsum_separates_swap [OF weight_steps_tell(5), of 0]])

lemma npi_separates: "separates (\<lambda>d. length d = 10 \<and> luhn_digits ([8, 0, 8, 4, 0] @ d))"
  unfolding separates_def
proof (intro allI impI)
  fix xs a b ys
  assume "\<forall>x \<in> set (xs @ a # b # ys). x < (10 :: nat)" "a \<noteq> b"
    "length (xs @ a # ys) = 10 \<and> luhn_digits ([8, 0, 8, 4, 0] @ xs @ a # ys)"
  with separatesD [OF luhn_separates, of "[8, 0, 8, 4, 0] @ xs" a b ys]
  show "\<not> (length (xs @ b # ys) = 10 \<and> luhn_digits ([8, 0, 8, 4, 0] @ xs @ b # ys))" by auto
qed

lemma luhn_swap:
  assumes "\<forall>x \<in> set (xs @ a # b # ys). x < 10" and "{a, b} \<noteq> {0, 9}" and "a \<noteq> b"
    and "length (xs @ a # b # ys) < 2 ^ 28" and "luhn_digits (xs @ a # b # ys)"
  shows "\<not> luhn_digits (xs @ b # a # ys)"
proof
  assume B: "luhn_digits (xs @ b # a # ys)"
  let ?dbl = "odd (length ys)"
  let ?u = "luhn_sum False (rev ys)" and ?v = "luhn_sum ?dbl (rev xs)"
  have "(?u + (luhn_value ?dbl y + luhn_value (\<not> ?dbl) x) + ?v) mod 10 = 0"
    if "luhn_digits (xs @ x # y # ys)" "{x, y} = {a, b}" for x y
  proof -
    have "\<forall>z \<in> set (xs @ x # y # ys). z < 10" "length (xs @ x # y # ys) < 2 ^ 28"
      using assms(1,4) that(2) by auto
    with that(1) have "luhn_sum False (rev (xs @ x # y # ys)) mod 10 = 0"
      using luhn_digits_iff by blast
    then show ?thesis by (simp add: luhn_sum_append add.assoc)
  qed
  note this [OF assms(5) refl] this [OF B insert_commute]
  then have eq: "(luhn_value ?dbl b + luhn_value (\<not> ?dbl) a) mod 10 =
      (luhn_value ?dbl a + luhn_value (\<not> ?dbl) b) mod 10" by (rule mod_10_same)
  have "all_below 10 (\<lambda>a. all_below 10 (\<lambda>b. a \<noteq> b \<longrightarrow> {a, b} \<noteq> {0, 9} \<longrightarrow>
      (luhn_value dbl b + luhn_value (\<not> dbl) a) mod 10 \<noteq>
      (luhn_value dbl a + luhn_value (\<not> dbl) b) mod 10))" for dbl
    by (cases dbl; simp only:; code_simp)
  note this [of ?dbl, unfolded all_below_iff, rule_format, of a b]
  with eq assms(1-3) show False by simp
qed


section \<open>The number an IBAN stands for\<close>

text \<open>ISO 13616: the rearranged characters, letters replaced by 10 to 35, as one decimal number.\<close>

fun iban_number :: "nat \<Rightarrow> str \<Rightarrow> nat" where
  "iban_number n [] = n"
| "iban_number n (c # s) =
     (if is_ascii_digit c then iban_number (n * 10 + (code c - 48)) s
      else iban_number (n * 100 + (code c - 55)) s)"

lemma mod97_loop_number:
  assumes "list_all (\<lambda>c. is_ascii_digit c \<or> is_ascii_uppercase c) s"
  shows "mod97_loop (n mod 97) s = Some (iban_number n s mod 97)"
  using assms
proof (induction n s rule: iban_number.induct)
  case (2 n c s)
  show ?case
  proof (cases "is_ascii_digit c")
    case True
    have "(n mod 97 * 10 + (code c - 48)) mod 97 = (n * 10 + (code c - 48)) mod 97"
      by (metis mod_add_left_eq mod_mult_left_eq)
    with 2 True show ?thesis by simp
  next
    case False
    then have upper: "is_ascii_uppercase c" using 2 by simp
    then have c: "code c - 65 + 10 = code c - 55" by (auto simp: ascii_class_defs)
    have "(n mod 97 * 100 + (code c - 55)) mod 97 = (n * 100 + (code c - 55)) mod 97"
      by (metis mod_add_left_eq mod_mult_left_eq)
    with 2 False upper c show ?thesis by simp
  qed
qed simp

lemma iban_canon_chars: "list_all (\<lambda>c. is_ascii_digit c \<or> is_ascii_uppercase c) (iban_canon s)"
proof -
  have "is_ascii_digit (to_ascii_uppercase c) \<or> is_ascii_uppercase (to_ascii_uppercase c)"
    if "is_ascii_alphanumeric c" for c
  proof (cases "is_ascii_lowercase c")
    case True
    then have "65 \<le> code c - 32" "code c - 32 \<le> 90" by (auto simp: ascii_class_defs)
    with True show ?thesis
      using code_char_of [of "code c - 32"]
      by (simp add: to_ascii_uppercase_def is_ascii_uppercase_def byte_between_def)
  next
    case False
    with that show ?thesis
      by (auto simp: to_ascii_uppercase_def is_ascii_alphanumeric_def is_ascii_alphabetic_def)
  qed
  then show ?thesis by (auto simp: iban_canon_def list_all_iff)
qed


section \<open>Where a slice panics\<close>

lemma utf8_chars_valid: "utf8_valid s \<Longrightarrow> c \<in> set (utf8_chars s) \<Longrightarrow> utf8_valid c"
proof (induction s rule: utf8_valid.induct)
  case (1 s)
  show ?case
  proof (cases "s = []")
    case True
    with "1.prems" show ?thesis by simp
  next
    case False
    with "1.prems"(1) obtain n where n: "utf8_next s = Some n" "utf8_valid (drop n s)"
      by (rule utf8_valid_step)
    have "utf8_valid (take n s)"
      using utf8_next_take [OF n(1)] by (subst utf8_valid.simps) simp
    moreover have "utf8_chars s = take n s # utf8_chars (drop n s)"
      using False n(1) by (subst utf8_chars.simps) (simp add: Let_def)
    ultimately show ?thesis using "1.IH" [OF n] "1.prems"(2) by auto
  qed
qed

lemma utf8_valid_concat: "\<forall>c \<in> set cs. utf8_valid c \<Longrightarrow> utf8_valid (concat cs)"
  by (induction cs) (simp_all add: utf8_valid_append)

lemma trim_valid: "utf8_valid s \<Longrightarrow> utf8_valid (trim s)"
  unfolding trim_def
  by (rule utf8_valid_concat) (auto dest!: set_dropWhileD dest: utf8_chars_valid)

lemma is_ascii_upper [simp]: "is_ascii (to_ascii_uppercase c) = is_ascii c"
  using code_char_of [of "code c - 32"]
  by (auto simp: to_ascii_uppercase_def ascii_class_defs)

lemma is_continuation_ascii: "is_ascii c \<Longrightarrow> \<not> is_continuation c"
  by (auto simp: is_continuation_def ascii_class_defs)

lemma is_continuation_upper [simp]: "is_continuation (to_ascii_uppercase c) = is_continuation c"
proof (cases "is_ascii c")
  case True
  then show ?thesis using is_continuation_ascii [of c] is_continuation_ascii [of "to_ascii_uppercase c"]
    by simp
next
  case False
  then have "\<not> is_ascii_lowercase c" by (auto simp: ascii_class_defs)
  then show ?thesis by (simp add: to_ascii_uppercase_def)
qed

lemma is_char_boundary_upper [simp]:
  "is_char_boundary (map to_ascii_uppercase t) k = is_char_boundary t k"
  by (auto simp: is_char_boundary_def)

lemma boundary_after:
  assumes "utf8_valid t" and "k < length t" and "is_ascii (t ! k)"
  shows "is_char_boundary t (Suc k)"
  by (rule utf8_boundary_after_ascii(2) [OF assms])

lemma digit_ascii: "is_ascii_digit c \<Longrightarrow> is_ascii c"
  by (auto simp: ascii_class_defs)

lemma slice_None: "a \<le> b \<Longrightarrow> b \<le> length t \<Longrightarrow>
    str_slice t a b = None \<longleftrightarrow> \<not> (is_char_boundary t a \<and> is_char_boundary t b)"
  by (simp add: str_slice_def)

lemma dea_total:
  assumes "utf8_valid s"
  shows "us_dea s \<noteq> None"
proof -
  have "str_slice (trim s) 2 (length (trim s)) \<noteq> None"
    if "length (trim s) = 9" "is_ascii_alphabetic (trim s ! 1) \<or> trim s ! 1 = CHR ''9''"
  proof -
    have "is_ascii (CHR ''9'')" by code_simp
    with that(2) have "is_ascii (trim s ! 1)" by (auto simp: ascii_class_defs)
    then have "is_char_boundary (trim s) (Suc 1)"
      using that(1) by (intro boundary_after [OF trim_valid [OF assms]]) simp_all
    with that(1) show ?thesis
      using is_char_boundary_length [of "trim s"] by (subst slice_None) (simp_all add: numeral_2_eq_2)
  qed
  then show ?thesis by (auto simp: us_dea_def Let_def)
qed

lemma nif_total:
  assumes "utf8_valid s"
  shows "es_nif s \<noteq> None"
proof -
  let ?t = "map to_ascii_uppercase (trim s)"
  have "str_slice ?t 0 8 \<noteq> None" if t: "length ?t = 9" "list_all is_ascii_digit (take 8 ?t)"
  proof -
    have "is_ascii_digit (?t ! 7)" using t by (simp add: list_all_length)
    then have "is_ascii (trim s ! 7)" using t(1) digit_ascii by fastforce
    then have "is_char_boundary (trim s) (Suc 7)"
      using t(1) by (intro boundary_after [OF trim_valid [OF assms]]) simp_all
    with t(1) show ?thesis by (subst slice_None) simp_all
  qed
  then show ?thesis by (auto simp: es_nif_def Let_def simp del: length_map)
qed

lemma nie_total:
  assumes "utf8_valid s"
  shows "es_nie s \<noteq> None"
proof -
  let ?t = "map to_ascii_uppercase (trim s)"
  have "str_slice ?t 1 8 \<noteq> None" if t: "length ?t = 9" "list_all is_ascii_digit (take 7 (drop 1 ?t))"
    "?t ! 0 \<in> {CHR ''X'', CHR ''Y'', CHR ''Z''}"
  proof -
    have "take 7 (drop 1 ?t) ! 6 \<in> set (take 7 (drop 1 ?t))" using t(1) by (intro nth_mem) simp
    with t(2) have "is_ascii_digit (take 7 (drop 1 ?t) ! 6)" unfolding list_all_iff by blast
    then have "is_ascii_digit (?t ! 7)" using t(1) by simp
    then have seven: "is_ascii (trim s ! 7)" using t(1) digit_ascii by fastforce
    have "is_ascii (CHR ''X'')" "is_ascii (CHR ''Y'')" "is_ascii (CHR ''Z'')" by code_simp+
    then have "is_ascii (?t ! 0)" using t(3) by auto
    then have "is_ascii (trim s ! 0)" using t(1) by simp
    then have "is_char_boundary (trim s) (Suc 0)" "is_char_boundary (trim s) (Suc 7)"
      using t(1) seven by (intro boundary_after [OF trim_valid [OF assms]]; simp)+
    with t(1) show ?thesis by (subst slice_None) simp_all
  qed
  then show ?thesis
    by (auto simp: es_nie_def Let_def map_of_eq_None_iff simp del: length_map split: option.splits
        dest!: map_of_SomeD)
qed

lemma nir_parts:
  assumes "length t = 15" and "list_all is_ascii_digit (take 2 (drop 13 t))"
  shows "is_char_boundary t 13" and "str_slice t 13 15 \<noteq> None"
proof -
  have "t ! 13 \<in> set (take 2 (drop 13 t))"
    using assms(1) by (auto simp: in_set_conv_nth intro!: exI [of _ 0])
  then have "is_ascii_digit (t ! 13)" using assms(2) by (auto simp: list_all_iff)
  then show b: "is_char_boundary t 13"
    using assms(1) by (auto simp: is_char_boundary_def is_continuation_def ascii_class_defs)
  have "is_char_boundary t 15" using is_char_boundary_length [of t] assms(1) by simp
  with b show "str_slice t 13 15 \<noteq> None" using assms(1) by (simp add: str_slice_def)
qed

lemma nir_body_None:
  assumes "length t = 15" and "list_all is_ascii_digit (take 2 (drop 13 t))"
  shows "nir_body t = None \<longleftrightarrow> \<not> (is_char_boundary t 5 \<and> is_char_boundary t 7)"
  using nir_parts [OF assms] assms(1)
  by (auto simp: nir_body_def str_slice_def bind_eq_None_conv)


section \<open>Properties\<close>

lemma luhn_detects_swap:
  "detects_transposition_but {''09'', ''90''} (\<lambda>s. length s < 2 ^ 28 \<and> luhn s)"
  unfolding detects_transposition_but_def
proof (intro allI impI)
  fix p c c' q
  assume c: "is_ascii_digit c \<and> is_ascii_digit c' \<and> c \<noteq> c' \<and> [c, c'] \<notin> {''09'', ''90''} \<and>
    length (p @ c # c' # q) < 2 ^ 28 \<and> luhn (p @ c # c' # q)"
  let ?a = "code c - 48" and ?b = "code c' - 48"
  have digit: "d = CHR ''0''" if "is_ascii_digit d" "code d - 48 = 0" for d
    using that unfolding code_eq_iff [symmetric] by (auto simp: ascii_class_defs)
  have nine: "d = CHR ''9''" if "is_ascii_digit d" "code d - 48 = 9" for d
    using that unfolding code_eq_iff [symmetric] by (auto simp: ascii_class_defs)
  have "{?a, ?b} \<noteq> {0, 9}"
    using c digit nine by (auto simp: doubleton_eq_iff)
  moreover have "?a \<noteq> ?b" using c digit_inj by blast
  moreover have "luhn_digits (digits p @ ?a # ?b # digits q)"
    using c by (auto simp: luhn_def digits_append digits_Cons)
  moreover have "length (digits p @ ?a # ?b # digits q) < 2 ^ 28"
    using c length_digits_le [of p] length_digits_le [of q] by simp
  moreover have "\<forall>x \<in> set (digits p @ ?a # ?b # digits q). x < 10"
    using c digits_less digit_less by auto
  ultimately have "\<not> luhn_digits (digits p @ ?b # ?a # digits q)" by (intro luhn_swap) auto
  then show "\<not> (length (p @ c' # c # q) < 2 ^ 28 \<and> luhn (p @ c' # c # q))"
    using c by (auto simp: luhn_def digits_append digits_Cons)
qed


text \<open>
  Swapping two different adjacent digits of an accepted number makes it rejected: for Verhoeff
  and for the weighted sums whose neighbouring weights differ suitably, and for Luhn except where
  0 and 9 are swapped.
\<close>

theorem checksums_detect_transposition:
  "list_all detects_transposition [verhoeff, uk_nhs, au_tfn, nl_bsn, au_abn] \<and>
   detects_transposition_but {''09'', ''90''} (\<lambda>s. length s < 2 ^ 28 \<and> luhn s)"
proof -
  have "detects_transposition verhoeff"
    by (rule separates_swap_detects [OF verhoeff_separates_swap]) (simp add: verhoeff_def Let_def)
  moreover have "detects_transposition uk_nhs"
    by (rule separates_swap_detects [OF wsum_separates_swap [OF weight_steps_tell(1), of 0]])
      (auto dest!: nhs_check)
  moreover have "detects_transposition au_tfn"
    by (rule separates_swap_detects [OF wsum_separates_swap [OF weight_steps_tell(2), of 0]])
      (auto dest!: tfn_check)
  moreover have "detects_transposition au_abn"
    by (rule separates_swap_detects [OF wsum_separates_swap [OF weight_steps_tell(3), of 10]])
      (auto dest!: abn_check)
  moreover have "detects_transposition nl_bsn"
    by (rule separates_swap_detects [OF bsn_separates_swap bsn_check])
  ultimately show ?thesis using luhn_detects_swap by simp
qed

text \<open>
  The streaming IBAN check is the check of ISO 13616 on the whole number: an accepted text has
  an admitted length and a country with that length, and its rearranged characters, read as one
  decimal number, are 1 modulo 97.
\<close>

theorem iban_mod97_iff:
  "iban_mod97 s \<longleftrightarrow>
     15 \<le> length (iban_canon s) \<and> length (iban_canon s) \<le> 34 \<and>
     (take 2 (iban_canon s), length (iban_canon s)) \<in> set IBAN_LEN \<and>
     iban_number 0 (drop 4 (iban_canon s) @ take 4 (iban_canon s)) mod 97 = 1"
proof -
  let ?c = "iban_canon s"
  have "list_all (\<lambda>c. is_ascii_digit c \<or> is_ascii_uppercase c) (drop 4 ?c @ take 4 ?c)"
    using iban_canon_chars [of s] by (auto simp: list_all_iff dest: in_set_takeD in_set_dropD)
  from mod97_loop_number [OF this, of 0]
  have "mod97_loop 0 (drop 4 ?c @ take 4 ?c) = Some (iban_number 0 (drop 4 ?c @ take 4 ?c) mod 97)"
    by simp
  then show ?thesis
    unfolding iban_mod97_def Let_def list_ex_iff by (auto simp del: One_nat_def)
qed

text \<open>
  Which validators panic, and where: the Spanish and American ones slice only where they have
  checked for ASCII bytes. The French and the Singaporean one slice a text of the right length
  without that check, and panic exactly when one of their offsets lies inside a character.
\<close>

theorem validators_panic_exactly:
  assumes "utf8_valid s"
  shows "us_dea s \<noteq> None \<and> es_nif s \<noteq> None \<and> es_nie s \<noteq> None \<and>
   (fr_nir s = None \<longleftrightarrow>
      length (nir_text s) = 15 \<and> list_all is_ascii_digit (take 2 (drop 13 (nir_text s))) \<and>
      \<not> (is_char_boundary (nir_text s) 5 \<and> is_char_boundary (nir_text s) 7)) \<and>
   (sg_nric_fin s = None \<longleftrightarrow>
      length (trim s) = 9 \<and> \<not> (is_char_boundary (trim s) 1 \<and> is_char_boundary (trim s) 8))"
proof -
  have "fr_nir s = None \<longleftrightarrow>
      length (nir_text s) = 15 \<and> list_all is_ascii_digit (take 2 (drop 13 (nir_text s))) \<and>
      \<not> (is_char_boundary (nir_text s) 5 \<and> is_char_boundary (nir_text s) 7)"
    using nir_body_None [of "nir_text s"] nir_parts(2) [of "nir_text s"]
    by (auto simp: fr_nir_def Let_def bind_eq_None_conv)
  moreover have "sg_nric_fin s = None \<longleftrightarrow>
      length (trim s) = 9 \<and> \<not> (is_char_boundary (trim s) 1 \<and> is_char_boundary (trim s) 8)"
    using slice_None [of 1 8 "trim s"] by (auto simp: sg_nric_fin_def Let_def)
  ultimately show ?thesis using dea_total nif_total nie_total assms by blast
qed

definition example_panics :: "str \<times> str" where
  "example_panics =
     (''1800'' @ [CHR 0xC3, CHR 0xA9] @ ''475091125'', ''S'' @ replicate 6 (CHR ''1'') @ [CHR 0xC3, CHR 0xA9])"

end
