(* ===== verification/Address.thy ===== *)
theory Address
  imports Checksum "HOL-Library.Word"
begin

unbundle bit_operations_syntax

text \<open>
  The validators of \<open>detect/validate.rs\<close> for addresses and key material: Base58Check, Bech32,
  EIP-55, IPv4, IPv6 and BIP-39 phrases. The Base58, SHA-256, Keccak and BIP-39 crates and the
  Unicode tables are parameters; the address parsers of \<open>std::net\<close> are written out.
\<close>


section \<open>Base58Check\<close>

datatype base58_alphabet = Bitcoin | Ripple

type_synonym base58 = "base58_alphabet \<Rightarrow> str \<Rightarrow> str option"
type_synonym digest = "str \<Rightarrow> str"

definition base58check :: "base58 \<Rightarrow> digest \<Rightarrow> str \<Rightarrow> base58_alphabet \<Rightarrow> str option" where
  "base58check b58 sha s alphabet =
     Option.bind (b58 alphabet s) (\<lambda>raw.
       if length raw < 5 then None
       else
         let payload = take (length raw - 4) raw; checksum = drop (length raw - 4) raw
         in if take 4 (sha (sha payload)) = checksum then Some payload else None)"

definition has_version :: "nat \<Rightarrow> nat set \<Rightarrow> str option \<Rightarrow> bool" where
  "has_version n versions d \<longleftrightarrow>
     (case d of None \<Rightarrow> False | Some d \<Rightarrow> length d = n \<and> code (d ! 0) \<in> versions)"

definition btc_address :: "base58 \<Rightarrow> digest \<Rightarrow> str \<Rightarrow> bool" where
  "btc_address b58 sha s = has_version 21 {0, 5} (base58check b58 sha s Bitcoin)"

definition ltc_address :: "base58 \<Rightarrow> digest \<Rightarrow> str \<Rightarrow> bool" where
  "ltc_address b58 sha s = has_version 21 {0x30, 0x32, 5} (base58check b58 sha s Bitcoin)"

definition xrp_address :: "base58 \<Rightarrow> digest \<Rightarrow> str \<Rightarrow> bool" where
  "xrp_address b58 sha s = has_version 21 {0} (base58check b58 sha s Ripple)"

definition wif :: "base58 \<Rightarrow> digest \<Rightarrow> str \<Rightarrow> bool" where
  "wif b58 sha s \<longleftrightarrow>
     (case base58check b58 sha s Bitcoin of
        None \<Rightarrow> False
      | Some d \<Rightarrow> code (d ! 0) = 0x80 \<and>
          (length d = 33 \<or> length d = 34 \<and> code (d ! 33) = 1))"


section \<open>Bech32\<close>

definition BECH32_CHARSET :: str where
  "BECH32_CHARSET = ''qpzry9x8gf2tvdw0s3jn54khce6mua7l''"

definition bech32_gen :: "32 word list" where
  "bech32_gen = [0x3b6a57b2, 0x26508e6d, 0x1ea119fa, 0x3d4233dd, 0x2a1462b3]"

definition bech32_step :: "32 word \<Rightarrow> nat \<Rightarrow> 32 word" where
  "bech32_step chk v =
     foldl (\<lambda>c i. if bit (drop_bit 25 chk) i then c XOR bech32_gen ! i else c)
       (push_bit 5 (chk AND 0x1ffffff) XOR of_nat v) [0, 1, 2, 3, 4]"

definition bech32_polymod :: "nat list \<Rightarrow> 32 word" where
  "bech32_polymod values = foldl bech32_step 1 values"

definition index_of :: "byte \<Rightarrow> str \<Rightarrow> nat option" where
  "index_of c cs = (let i = length (takeWhile (\<lambda>x. x \<noteq> c) cs) in if i < length cs then Some i else None)"

fun bech32_data :: "str \<Rightarrow> nat list option" where
  "bech32_data [] = Some []"
| "bech32_data (c # s) =
     (case index_of c BECH32_CHARSET of
        None \<Rightarrow> None | Some v \<Rightarrow> map_option ((#) v) (bech32_data s))"

definition bech32_hrp :: "nat list" where
  "bech32_hrp = map (\<lambda>c. code c div 32) ''bc'' @ [0] @ map (\<lambda>c. code c mod 32) ''bc''"

definition bech32_expected :: "nat list \<Rightarrow> 32 word" where
  "bech32_expected data = (if data ! 0 = 0 then 1 else 0x2bc830a3)"

definition btc_bech32 :: "str \<Rightarrow> bool" where
  "btc_bech32 s \<longleftrightarrow>
     \<not> (list_ex is_ascii_uppercase s \<and> list_ex is_ascii_lowercase s) \<and>
     (let t = map to_ascii_lowercase s
      in 8 \<le> length t \<and> length t \<le> 90 \<and> prefix ''bc1'' t \<and>
         (case bech32_data (drop 3 t) of
            None \<Rightarrow> False
          | Some data \<Rightarrow> 6 \<le> length data \<and>
              bech32_polymod (bech32_hrp @ data) = bech32_expected data))"


section \<open>EIP-55\<close>

definition eip55_nibble :: "str \<Rightarrow> nat \<Rightarrow> nat" where
  "eip55_nibble hash i =
     (let b = code (hash ! (i div 2)) in if i mod 2 = 0 then b div 16 else b mod 16)"

definition eth_address :: "digest \<Rightarrow> str \<Rightarrow> bool" where
  "eth_address keccak s \<longleftrightarrow>
     (case (case strip_prefix ''0x'' s of Some b \<Rightarrow> Some b | None \<Rightarrow> strip_prefix ''0X'' s) of
        None \<Rightarrow> False
      | Some body \<Rightarrow>
          length body = 40 \<and> list_all is_ascii_hexdigit body \<and>
          (if list_ex is_ascii_uppercase body \<and> list_ex is_ascii_lowercase body then
             let hash = keccak (map to_ascii_lowercase body)
             in list_all (\<lambda>i. is_ascii_alphabetic (body ! i) \<longrightarrow>
                  (8 \<le> eip55_nibble hash i) = is_ascii_uppercase (body ! i)) [0..<40]
           else True))"


section \<open>IP addresses\<close>

function count_matches :: "'a list \<Rightarrow> 'a list \<Rightarrow> nat" where
  "count_matches pat s =
     (if s = [] then 0
      else if prefix pat s then Suc (count_matches pat (drop (max 1 (length pat)) s))
      else count_matches pat (tl s))"
  by pat_completeness auto
termination
  by (relation "measure (\<lambda>(pat, s). length s)") auto

declare count_matches.simps [simp del]

definition ipv6 :: "str \<Rightarrow> bool" where
  "ipv6 s \<longleftrightarrow>
     (let s = hd (split_on (CHR ''%'') s); s = hd (split_on (CHR ''/'') s)
      in str_contains s '':'' \<and> \<not> str_contains s '':::'' \<and> s \<noteq> ''::'' \<and>
         (let compressed = count_matches ''::'' s; groups = split_on (CHR '':'') s;
              nonempty = length (filter (\<lambda>g. g \<noteq> []) groups)
          in compressed \<le> 1 \<and>
             list_all (\<lambda>g. g = [] \<or> length g \<le> 4 \<and> list_all is_ascii_hexdigit g) groups \<and>
             (if compressed = 0 then nonempty = 8 \<and> list_all (\<lambda>g. g \<noteq> []) groups
              else nonempty \<le> 7)))"

text \<open>
  \<open>read_number\<close> of \<open>std::net\<close>: all digits that follow, at most \<open>n\<close> of them, without a leading
  zero unless that is allowed.
\<close>

definition hex_digit_value :: "byte \<Rightarrow> nat" where
  "hex_digit_value c =
     (if is_ascii_digit c then code c - 48
      else if byte_between 97 102 c then code c - 87 else code c - 55)"

definition read_number :: "bool \<Rightarrow> nat \<Rightarrow> str \<Rightarrow> (nat \<times> str) option" where
  "read_number hex n s =
     (let digit = (if hex then is_ascii_hexdigit else is_ascii_digit);
          ds = takeWhile digit s;
          v = foldl (\<lambda>v c. v * (if hex then 16 else 10) + hex_digit_value c) 0 ds
      in if ds = [] \<or> n < length ds then None
         else if \<not> hex \<and> (256 \<le> v \<or> hd ds = CHR ''0'' \<and> 1 < length ds) then None
         else Some (v, drop (length ds) s))"

definition read_separated :: "byte \<Rightarrow> nat \<Rightarrow> (str \<Rightarrow> ('a \<times> str) option) \<Rightarrow> str \<Rightarrow> ('a \<times> str) option" where
  "read_separated sep i p s =
     (if i = 0 then p s
      else case s of c # r \<Rightarrow> if c = sep then p r else None | [] \<Rightarrow> None)"

fun read_octets :: "nat \<Rightarrow> nat \<Rightarrow> str \<Rightarrow> (nat list \<times> str) option" where
  "read_octets 0 i s = Some ([], s)"
| "read_octets (Suc n) i s =
     do {
       (v, s) \<leftarrow> read_separated (CHR ''.'') i (read_number False 3) s;
       (vs, s) \<leftarrow> read_octets n (Suc i) s;
       Some (v # vs, s)
     }"

definition parse_ipv4 :: "str \<Rightarrow> nat list option" where
  "parse_ipv4 s =
     (if 15 < length s then None
      else case read_octets 4 0 s of Some (v, []) \<Rightarrow> Some v | _ \<Rightarrow> None)"

definition ipv4_non_loopback :: "str \<Rightarrow> bool" where
  "ipv4_non_loopback s \<longleftrightarrow>
     (let host = (case split_once ''/'' s of Some (host, _) \<Rightarrow> host | None \<Rightarrow> s)
      in case parse_ipv4 host of None \<Rightarrow> False | Some octets \<Rightarrow> octets ! 0 \<noteq> 127)"

text \<open>
  \<open>read_groups\<close>: up to \<open>limit\<close> groups from the index \<open>i\<close> on; an embedded IPv4 address counts for
  two and ends the groups.
\<close>

fun read_groups :: "nat \<Rightarrow> nat \<Rightarrow> nat \<Rightarrow> str \<Rightarrow> nat list \<times> bool \<times> str" where
  "read_groups 0 limit i s = ([], False, s)"
| "read_groups (Suc n) limit i s =
     (case (if Suc i < limit then read_separated (CHR '':'') i (read_octets 4 0) s else None) of
        Some (v, r) \<Rightarrow> ([v ! 0 * 256 + v ! 1, v ! 2 * 256 + v ! 3], True, r)
      | None \<Rightarrow>
          (case read_separated (CHR '':'') i (read_number True 4) s of
             Some (g, r) \<Rightarrow>
               (case read_groups n limit (Suc i) r of (gs, v4, r) \<Rightarrow> (g # gs, v4, r))
           | None \<Rightarrow> ([], False, s)))"

definition parse_ipv6 :: "str \<Rightarrow> nat list option" where
  "parse_ipv6 s =
     (case read_groups 8 8 0 s of (head, head_v4, r) \<Rightarrow>
        if length head = 8 then (if r = [] then Some head else None)
        else if head_v4 then None
        else case strip_prefix ''::'' r of
               None \<Rightarrow> None
             | Some r \<Rightarrow>
                 let limit = 8 - (length head + 1)
                 in case read_groups limit limit 0 r of (tail, _, r) \<Rightarrow>
                      if r = [] then
                        Some (head @ replicate (8 - length head - length tail) 0 @ tail)
                      else None)"

definition ipv6_non_loopback :: "str \<Rightarrow> bool" where
  "ipv6_non_loopback s \<longleftrightarrow>
     ipv6 s \<and>
     (let without_prefix = (case split_once ''/'' s of Some (host, _) \<Rightarrow> host | None \<Rightarrow> s);
          without_zone =
            (case split_once ''%'' without_prefix of Some (host, _) \<Rightarrow> host | None \<Rightarrow> without_prefix)
      in case parse_ipv6 without_zone of
           None \<Rightarrow> False | Some groups \<Rightarrow> groups \<noteq> [0, 0, 0, 0, 0, 0, 0, 1])"


section \<open>BIP-39 phrases\<close>

text \<open>\<open>str::split_whitespace\<close>.\<close>

fun split_chars :: "str list \<Rightarrow> str \<Rightarrow> str list" where
  "split_chars [] w = (if w = [] then [] else [w])"
| "split_chars (c # cs) w =
     (if is_whitespace_char c then (if w = [] then split_chars cs [] else w # split_chars cs [])
      else split_chars cs (w @ c))"

definition split_whitespace :: "str \<Rightarrow> str list" where
  "split_whitespace s = split_chars (utf8_chars s) []"

fun join_str :: "str \<Rightarrow> str list \<Rightarrow> str" where
  "join_str sep [] = []"
| "join_str sep [w] = w"
| "join_str sep (w # v # ws) = w @ sep @ join_str sep (v # ws)"

text \<open>
  The BIP-39 crate: Unicode normalization and lower case, and for each language its word set and
  the parser that verifies the checksum.
\<close>

record bip39_crate =
  bip_normalize :: "str \<Rightarrow> str"
  bip_lowercase :: "str \<Rightarrow> str"
  bip_languages :: "((str \<Rightarrow> bool) \<times> (str \<Rightarrow> bool)) list"

definition bip39_window_valid :: "bip39_crate \<Rightarrow> str list \<Rightarrow> bool" where
  "bip39_window_valid b words \<longleftrightarrow>
     list_ex (\<lambda>(wordset, parses). list_all wordset words \<and> parses (join_str '' '' words))
       (bip_languages b)"

definition bip39_mnemonic :: "bip39_crate \<Rightarrow> str \<Rightarrow> bool" where
  "bip39_mnemonic b s \<longleftrightarrow>
     (let words = map (bip_lowercase b) (split_whitespace (bip_normalize b s))
      in list_ex (\<lambda>len. len \<le> length words \<and> list_ex (bip39_window_valid b) (windows len words))
           [24, 21, 18, 15, 12])"

definition bip39_mnemonic_window :: "bip39_crate \<Rightarrow> str list \<Rightarrow> bool" where
  "bip39_mnemonic_window b words \<longleftrightarrow>
     List.member [12, 15, 18, 21, 24] (length words) \<and>
     bip39_window_valid b (map (\<lambda>w. bip_lowercase b (bip_normalize b w)) words)"

definition bip39_language_mask :: "bip39_crate \<Rightarrow> str \<Rightarrow> 16 word" where
  "bip39_language_mask b word =
     (let w = bip_lowercase b (bip_normalize b word)
      in foldl (\<lambda>mask (i, wordset, _). if wordset w then mask OR push_bit i 1 else mask) 0
           (enumerate 0 (bip_languages b)))"


section \<open>Bech32 tells apart any two addresses that differ in one symbol\<close>

definition bech32_mix :: "32 word \<Rightarrow> 32 word" where
  "bech32_mix head =
     foldl (\<lambda>c i. if bit head i then c XOR bech32_gen ! i else c) 0 [0, 1, 2, 3, 4]"

lemma foldl_xor:
  fixes a :: "'a::len word"
  shows "foldl (\<lambda>c i. if P i then c XOR g i else c) a is =
    a XOR foldl (\<lambda>c i. if P i then c XOR g i else c) 0 is"
proof (induction "is" arbitrary: a)
  case (Cons i "is")
  show ?case
    using Cons.IH [of "a XOR g i"] Cons.IH [of "g i"] Cons.IH [of a] by (simp add: xor.assoc)
qed simp

lemma bech32_step_mix:
  "bech32_step chk v =
     push_bit 5 (take_bit 25 chk) XOR of_nat v XOR bech32_mix (drop_bit 25 chk)"
proof -
  have "(0x1ffffff :: 32 word) = mask 25" by (simp add: mask_eq_exp_minus_1)
  then show ?thesis
    unfolding bech32_step_def bech32_mix_def
    by (subst foldl_xor) (simp only: take_bit_eq_mask xor.assoc)
qed

lemma xor_cancel:
  fixes a :: "'a::len word"
  shows "a XOR b = a XOR c \<longleftrightarrow> b = c" and "b XOR a = c XOR a \<longleftrightarrow> b = c"
  by (metis xor.assoc xor.left_neutral xor_self_eq, metis xor.assoc xor.right_neutral xor_self_eq)

lemma mix_table:
  "distinct (map (\<lambda>t. take_bit 5 (bech32_mix (of_nat t))) [0..<32])"
  by code_simp

lemma gen_small: "list_all (\<lambda>g. take_bit 30 g = g) bech32_gen"
  by code_simp

lemma mix_small: "take_bit 30 (bech32_mix t) = bech32_mix t"
proof -
  have "take_bit 30 (foldl (\<lambda>c i. if bit t i then c XOR bech32_gen ! i else c) a is) =
      foldl (\<lambda>c i. if bit t i then c XOR bech32_gen ! i else c) a is"
    if "take_bit 30 a = a" "set is \<subseteq> {..< 5}" for a "is"
    using that
  proof (induction "is" arbitrary: a)
    case (Cons i "is")
    have "take_bit 30 (bech32_gen ! i) = bech32_gen ! i"
      using gen_small Cons.prems(2) by (simp add: list_all_length bech32_gen_def)
    then have "take_bit 30 (if bit t i then a XOR bech32_gen ! i else a) =
        (if bit t i then a XOR bech32_gen ! i else a)"
      using Cons.prems(1) by simp
    from Cons.IH [OF this] Cons.prems(2) show ?case by simp
  qed simp
  from this [of 0 "[0, 1, 2, 3, 4]"] show ?thesis by (simp add: bech32_mix_def)
qed

lemma symbol_small:
  assumes "v < 32"
  shows "take_bit 5 (of_nat v :: 32 word) = of_nat v"
proof -
  have "take_bit 5 v = v" using assms by (simp add: take_bit_nat_eq_self_iff)
  then show ?thesis by (metis take_bit_of_nat)
qed

lemma step_low:
  assumes "v < 32"
  shows "take_bit 5 (bech32_step chk v) = of_nat v XOR take_bit 5 (bech32_mix (drop_bit 25 chk))"
  by (simp add: bech32_step_mix symbol_small assms take_bit_push_bit)

lemma take_bit_30_5:
  fixes a :: "32 word"
  assumes "take_bit 5 a = a"
  shows "take_bit 30 a = a"
proof -
  have "take_bit 30 (take_bit 5 a) = take_bit 5 a" by (simp only: take_bit_take_bit) simp
  then show ?thesis by (simp only: assms)
qed

lemma step_small:
  assumes "v < 32"
  shows "take_bit 30 (bech32_step chk v) = bech32_step chk v"
  using take_bit_30_5 [OF symbol_small [OF assms]] mix_small
  by (simp add: bech32_step_mix take_bit_push_bit)

lemma top_small:
  fixes chk :: "32 word"
  assumes "take_bit 30 chk = chk"
  shows "unat (drop_bit 25 chk) < 32"
proof -
  have "take_bit 5 (drop_bit 25 chk) = drop_bit 25 (take_bit 30 chk)"
    by (simp add: take_bit_drop_bit)
  then have "take_bit 5 (drop_bit 25 chk) = drop_bit 25 chk" by (simp only: assms)
  then have "take_bit 5 (unat (drop_bit 25 chk)) = unat (drop_bit 25 chk)"
    by (metis unsigned_take_bit_eq)
  then show ?thesis by (simp add: take_bit_nat_eq_self_iff)
qed

lemma mix_separates:
  assumes "take_bit 30 a = a" and "take_bit 30 b = b"
    and "take_bit 5 (bech32_mix (drop_bit 25 a)) = take_bit 5 (bech32_mix (drop_bit 25 b))"
  shows "drop_bit 25 a = drop_bit 25 b"
proof -
  let ?i = "unat (drop_bit 25 a)" and ?j = "unat (drop_bit 25 b)"
  let ?row = "map (\<lambda>t. take_bit 5 (bech32_mix (of_nat t))) [0..<32]"
  have small: "?i < 32" "?j < 32" using top_small assms(1,2) by blast+
  then have row: "?row ! ?i = ?row ! ?j" using assms(3) by simp
  from small have "?i < length ?row" "?j < length ?row" by simp_all
  from nth_eq_iff_index_eq [OF mix_table this] row have "?i = ?j" by blast
  then show ?thesis by (simp only: word_unat_eq_iff)
qed

lemma step_inj:
  assumes "take_bit 30 a = a" and "take_bit 30 b = b" and "v < 32"
    and eq: "bech32_step a v = bech32_step b v"
  shows "a = b"
proof -
  have mix: "take_bit 5 (bech32_mix (drop_bit 25 a)) = take_bit 5 (bech32_mix (drop_bit 25 b))"
    using step_low [OF assms(3), of a] step_low [OF assms(3), of b] eq by (simp add: xor_cancel)
  from mix_separates [OF assms(1,2) mix] have top: "drop_bit 25 a = drop_bit 25 b" .
  with eq have "push_bit 5 (take_bit 25 a) = push_bit 5 (take_bit 25 b)"
    by (simp only: bech32_step_mix xor_cancel)
  then have "drop_bit 5 (push_bit 5 (take_bit 25 a)) = drop_bit 5 (push_bit 5 (take_bit 25 b))"
    by simp
  moreover have "drop_bit 5 (push_bit 5 (take_bit 25 w)) = take_bit 25 w" for w :: "32 word"
    by (rule bit_word_eqI) (auto simp: bit_simps)
  ultimately have "take_bit 25 a = take_bit 25 b" by simp
  with top show ?thesis by (metis bits_ident)
qed

lemma step_symbol_inj:
  assumes "bech32_step a v = bech32_step a w" and "v < 32" and "w < 32"
  shows "v = w"
proof -
  have "(of_nat v :: 32 word) = of_nat w"
    using assms(1) by (simp only: bech32_step_mix xor_cancel)
  then have "unat (of_nat v :: 32 word) = unat (of_nat w :: 32 word)" by simp
  then show ?thesis using assms(2,3) by (simp add: unat_of_nat)
qed

lemma foldl_step_inj:
  assumes "list_all (\<lambda>v. v < 32) vs" and "take_bit 30 a = a" and "take_bit 30 b = b"
    and "foldl bech32_step a vs = foldl bech32_step b vs"
  shows "a = b"
  using assms
proof (induction vs arbitrary: a b)
  case (Cons v vs)
  from Cons.prems(1) have v: "v < 32" and vs: "list_all (\<lambda>v. v < 32) vs" by auto
  from Cons.IH [OF vs step_small [OF v] step_small [OF v]] Cons.prems(4)
  have "bech32_step a v = bech32_step b v" by simp
  from step_inj [OF Cons.prems(2,3) v this] show ?case .
qed simp

lemma polymod_separates:
  assumes "list_all (\<lambda>v. v < 32) (p @ v # q)" and "w < 32" and "v \<noteq> w"
  shows "bech32_polymod (p @ v # q) \<noteq> bech32_polymod (p @ w # q)"
proof
  assume eq: "bech32_polymod (p @ v # q) = bech32_polymod (p @ w # q)"
  let ?a = "foldl bech32_step 1 p"
  have "bech32_step ?a v = bech32_step ?a w"
    using foldl_step_inj [of q "bech32_step ?a v" "bech32_step ?a w"] eq assms step_small
    by (simp add: bech32_polymod_def)
  then show False using step_symbol_inj assms by auto
qed

lemma index_of_Some: "index_of c cs = Some i \<Longrightarrow> i < length cs \<and> cs ! i = c"
  using nth_length_takeWhile [of "\<lambda>x. x \<noteq> c" cs] by (auto simp: index_of_def Let_def split: if_splits)

lemma bech32_data_append:
  "bech32_data (s @ t) =
     Option.bind (bech32_data s) (\<lambda>a. map_option (\<lambda>b. a @ b) (bech32_data t))"
  by (induction s) (auto split: option.splits simp: option.map_comp comp_def map_option_case)

lemma bech32_data_length: "bech32_data s = Some data \<Longrightarrow> length data = length s"
  by (induction s arbitrary: data) (auto split: option.splits)

lemma bech32_data_small: "bech32_data s = Some data \<Longrightarrow> list_all (\<lambda>v. v < 32) data"
proof (induction s arbitrary: data)
  case (Cons c s)
  then show ?case
    using index_of_Some [of c BECH32_CHARSET]
    by (auto simp: BECH32_CHARSET_def split: option.splits)
qed simp

lemma bech32_data_split:
  assumes "bech32_data (p @ c # q) = Some data"
  obtains dp v dq where "data = dp @ v # dq" "bech32_data p = Some dp"
    "index_of c BECH32_CHARSET = Some v" "bech32_data q = Some dq" "length dp = length p"
  using assms bech32_data_length [of p]
  by (auto simp: bech32_data_append bind_eq_Some_conv split: option.splits)

lemma bech32_hrp_small: "list_all (\<lambda>v. v < 32) bech32_hrp"
  by code_simp

text \<open>
  C23. Bech32 detects every single-symbol error: an address that is accepted is rejected again
  when one symbol after the version symbol is replaced by another one, upper and lower case
  counted as the same symbol.
\<close>

theorem bech32_detects_substitution:
  assumes "btc_bech32 (p @ c # q)" and "4 \<le> length p"
    and "to_ascii_lowercase c \<noteq> to_ascii_lowercase d"
  shows "\<not> btc_bech32 (p @ d # q)"
proof
  assume changed: "btc_bech32 (p @ d # q)"
  let ?low = "map to_ascii_lowercase"
  have three: "drop 3 (?low (p @ x # q)) = drop 3 (?low p) @ to_ascii_lowercase x # ?low q" for x
    using assms(2) by simp
  from assms(1) obtain data where data: "bech32_data (drop 3 (?low (p @ c # q))) = Some data"
    "bech32_polymod (bech32_hrp @ data) = bech32_expected data"
    by (auto simp: btc_bech32_def Let_def split: option.splits)
  from changed obtain data' where data': "bech32_data (drop 3 (?low (p @ d # q))) = Some data'"
    "bech32_polymod (bech32_hrp @ data') = bech32_expected data'"
    by (auto simp: btc_bech32_def Let_def split: option.splits)
  from data(1) obtain dp v dq where split: "data = dp @ v # dq" "bech32_data (drop 3 (?low p)) = Some dp"
    "index_of (to_ascii_lowercase c) BECH32_CHARSET = Some v" "bech32_data (?low q) = Some dq"
    "length dp = length (drop 3 (?low p))"
    unfolding three by (rule bech32_data_split)
  from data'(1) obtain w where w: "data' = dp @ w # dq"
    "index_of (to_ascii_lowercase d) BECH32_CHARSET = Some w"
    unfolding three by (rule bech32_data_split) (use split in auto)
  from assms(2) split(5) obtain z zs where "dp = z # zs" by (cases dp) auto
  then have "bech32_expected data = bech32_expected data'" by (simp add: split w bech32_expected_def)
  with data(2) data'(2) have "bech32_polymod ((bech32_hrp @ dp) @ v # dq) =
      bech32_polymod ((bech32_hrp @ dp) @ w # dq)" by (simp add: split w)
  moreover have "list_all (\<lambda>v. v < 32) ((bech32_hrp @ dp) @ v # dq)" "w < 32"
    using bech32_hrp_small bech32_data_small [OF data(1)] bech32_data_small [OF data'(1)]
    by (auto simp: split w)
  moreover have "v \<noteq> w" using index_of_Some [OF split(3)] index_of_Some [OF w(2)] assms(3) by auto
  ultimately show False using polymod_separates by blast
qed

lemma bech32_detects_substitution_witness:
  "\<not> btc_bech32 (''bc1qw508d6qejxtdg4y5r3zarvary0c5xw7kv8f3t'' @ CHR ''5'' # [])"
proof (rule bech32_detects_substitution)
  show "btc_bech32 (''bc1qw508d6qejxtdg4y5r3zarvary0c5xw7kv8f3t'' @ CHR ''4'' # [])" by code_simp
qed code_simp+

end
