(* ===== verification/Validate.thy ===== *)
theory Validate
  imports Address
begin

text \<open>
  The rest of \<open>detect/validate.rs\<close>: the shape checks for credentials (local user names, Basic and
  Bearer tokens, Twilio keys, SQL passwords, database URLs) and the \<open>Validator\<close> enum that names
  every check for the rule packs. \<open>None\<close> of \<open>accepts\<close> is a panic of the validator.
\<close>


section \<open>Local user names and Basic credentials\<close>

text \<open>\<open>char::is_control\<close>: the characters of the category Cc.\<close>

definition is_control_char :: "str \<Rightarrow> bool" where
  "is_control_char ch =
     (case ch of
        [a] \<Rightarrow> code a < 32 \<or> code a = 127
      | [a, b] \<Rightarrow> code a = 194 \<and> code b < 160
      | _ \<Rightarrow> False)"

definition path_forbidden :: "str \<Rightarrow> bool" where
  "path_forbidden ch \<longleftrightarrow> ch \<in> set (map (\<lambda>c. [c]) ([CHR 0x5C] @ ''/:'' @ [CHR 0x22] @ ''<>|?*''))"

definition shared_home_names :: "str list" where
  "shared_home_names = [''all users'', ''default'', ''default user'', ''public'', ''shared'']"

definition local_username :: "str \<Rightarrow> bool" where
  "local_username s \<longleftrightarrow>
     (let name = trim s
      in \<not> (name = [] \<or> 64 < length name) \<and>
         \<not> (name = ''.'' \<or> name = ''..'') \<and>
         \<not> list_all (\<lambda>ch. ch = ''.'' \<or> is_whitespace_char ch) (utf8_chars name) \<and>
         \<not> list_ex (\<lambda>ch. is_control_char ch \<or> path_forbidden ch) (utf8_chars name) \<and>
         map to_ascii_lowercase name \<notin> set shared_home_names)"

text \<open>The decoder \<open>BASE64\<close> of the \<open>data_encoding\<close> crate is a parameter.\<close>

definition basic_auth_token68 :: "(str \<Rightarrow> str option) \<Rightarrow> str \<Rightarrow> bool" where
  "basic_auth_token68 BASE64 s \<longleftrightarrow>
     (let token = trim s
      in \<not> (length token < 8 \<or> length token mod 4 = 1 \<or>
            \<not> list_all (\<lambda>b. is_ascii_alphanumeric b \<or> b \<in> set ''+/='') token) \<and>
         (let padded = (if length token mod 4 = 0 then token
                        else if length token mod 4 = 2 then token @ ''=='' else token @ ''='')
          in case BASE64 padded of
               None \<Rightarrow> False
             | Some decoded \<Rightarrow>
                 (case index_of (CHR '':'') decoded of
                    None \<Rightarrow> False
                  | Some colon \<Rightarrow> 0 < colon \<and> colon + 1 < length decoded)))"


section \<open>Twilio keys, SQL passwords and Bearer tokens\<close>

definition twilio_api_key :: "str \<Rightarrow> bool" where
  "twilio_api_key s =
     (case strip_prefix ''SK'' s of
        None \<Rightarrow> False
      | Some body \<Rightarrow> length body = 32 \<and> list_all is_ascii_hexdigit body \<and>
          list_ex (\<lambda>b. to_ascii_lowercase b \<noteq> to_ascii_lowercase (body ! 0)) body)"

definition sql_clause_words :: "str list" where
  "sql_clause_words =
     [''null'', ''none'', ''default'', ''password'', ''expire'', ''expired'', ''lock'', ''locked'',
      ''unlock'', ''unlocked'', ''required'', ''optional'', ''temporary'', ''tablespace'', ''users'']"

definition sql_normalized :: "str \<Rightarrow> str" where
  "sql_normalized s =
     trim (trim_matches (\<lambda>b. code b = 39 \<or> code b = 34 \<or> b = CHR ''`'') (trim s))"

definition sql_password_value :: "str \<Rightarrow> bool" where
  "sql_password_value s \<longleftrightarrow>
     (let value = trim s
      in \<not> (\<not> (1 \<le> length value \<and> length value \<le> 512) \<or>
            list_ex (\<lambda>b. code b = 13 \<or> code b = 10) value) \<and>
         (let normalized = sql_normalized s
          in \<not> (normalized = [] \<or>
                list_ex (\<lambda>b. b \<in> set ''<>{}[]*'') normalized \<or>
                \<not> list_ex is_ascii_alphanumeric normalized \<or>
                str_contains normalized ''`'' \<or>
                str_contains normalized '' + '' \<or>
                prefix ''+'' normalized \<or>
                suffix ''+'' normalized \<or>
                normalized \<in> set [''%s'', ''%v'', ''%q'', ''%d''] \<or>
                prefix ''%%'' normalized \<and> suffix ''%%'' normalized) \<and>
             map to_ascii_lowercase normalized \<notin> set sql_clause_words))"

definition bearer_placeholder_char :: "str \<Rightarrow> byte" where
  "bearer_placeholder_char ch =
     (case ch of
        [c] \<Rightarrow> if is_ascii_alphanumeric c then to_ascii_lowercase c else CHR ''_''
      | _ \<Rightarrow> CHR ''_'')"

definition is_placeholder_bearer_token :: "str \<Rightarrow> bool" where
  "is_placeholder_bearer_token token \<longleftrightarrow>
     (let normalized = map bearer_placeholder_char (utf8_chars token);
          parts = filter (\<lambda>part. part \<noteq> []) (split_on (CHR ''_'') normalized)
      in parts \<noteq> [] \<and>
         (list_ex (\<lambda>part. part \<in> set [''your'', ''example'', ''placeholder'', ''redacted'', ''dummy'',
            ''sample'']) parts \<or>
          list_all (\<lambda>part. part \<in> set [''x'', ''token'', ''access'', ''bearer'', ''value'']) parts))"

definition is_token_punct :: "byte \<Rightarrow> bool" where
  "is_token_punct b \<longleftrightarrow> b \<in> set ''._-~+/=''"

definition bearer_token :: "str \<Rightarrow> bool" where
  "bearer_token s \<longleftrightarrow>
     (let token = trim s
      in \<not> (\<not> (20 \<le> length token \<and> length token \<le> 4096) \<or>
            list_ex is_ascii_whitespace token \<or>
            \<not> list_all (\<lambda>b. is_ascii_alphanumeric b \<or> is_token_punct b) token) \<and>
         (let has_alpha = list_ex is_ascii_alphabetic token;
              has_digit = list_ex is_ascii_digit token;
              has_token_punct = list_ex is_token_punct token
          in \<not> (\<not> has_alpha \<or> \<not> (has_digit \<or> has_token_punct)) \<and>
             \<not> is_placeholder_bearer_token token))"


section \<open>Database URLs\<close>

definition userinfo_part_is_template_or_redaction :: "str \<Rightarrow> bool" where
  "userinfo_part_is_template_or_redaction part \<longleftrightarrow>
     trim part = [] \<or> list_ex (\<lambda>b. b \<in> set ''[]{}<>*'') (trim part)"

definition userinfo_is_template_or_redaction :: "str \<Rightarrow> bool" where
  "userinfo_is_template_or_redaction userinfo \<longleftrightarrow>
     userinfo_part_is_template_or_redaction userinfo \<or>
     list_ex userinfo_part_is_template_or_redaction (split_on (CHR '':'') userinfo)"

definition doc_token_step :: "str \<Rightarrow> str \<Rightarrow> str" where
  "doc_token_step out ch =
     (case ch of
        [c] \<Rightarrow> if is_ascii_alphanumeric c then out @ [to_ascii_lowercase c]
               else if \<not> suffix ''_'' out then out @ ''_'' else out
      | _ \<Rightarrow> if \<not> suffix ''_'' out then out @ ''_'' else out)"

definition normalize_doc_db_token :: "str \<Rightarrow> str" where
  "normalize_doc_db_token v =
     trim_matches (\<lambda>b. b = CHR ''_'') (foldl doc_token_step [] (utf8_chars (trim v)))"

definition db_user_is_placeholder :: "str \<Rightarrow> bool" where
  "db_user_is_placeholder user \<longleftrightarrow>
     normalize_doc_db_token user \<in> set [''user'', ''username'', ''uname'', ''test'', ''testuser'',
       ''root'', ''admin'', ''my_user'', ''myuser'']"

definition db_password_is_placeholder :: "str \<Rightarrow> bool" where
  "db_password_is_placeholder password \<longleftrightarrow>
     normalize_doc_db_token password \<in> set [''pass'', ''password'', ''passwd'', ''pwd'', ''secret'',
       ''test'', ''testpwd'', ''xxxx'', ''my_password'', ''mypassword'']"

definition userinfo_parts_are_documentation_placeholders :: "str \<Rightarrow> str \<Rightarrow> bool" where
  "userinfo_parts_are_documentation_placeholders user password \<longleftrightarrow>
     db_user_is_placeholder user \<and> db_password_is_placeholder password"

definition is_port :: "str \<Rightarrow> bool" where
  "is_port port \<longleftrightarrow> port \<noteq> [] \<and> list_all is_ascii_digit port"

definition db_host_without_port :: "str \<Rightarrow> str" where
  "db_host_without_port h =
     (let host = trim_matches (\<lambda>b. code b = 34 \<or> code b = 39 \<or> b = CHR ''`'') (trim h)
      in if prefix ''['' host then
           (case rsplit_once '']:'' host of
              None \<Rightarrow> host
            | Some (without_closing_bracket, port) \<Rightarrow>
                if is_port port then take (length without_closing_bracket + 1) host else host)
         else
           (case rsplit_once '':'' host of
              None \<Rightarrow> host
            | Some (without_port, port) \<Rightarrow>
                if is_port port \<and> \<not> str_contains without_port '':'' then without_port else host))"

definition documentation_hosts :: "str list" where
  "documentation_hosts =
     [''localhost'', ''127.0.0.1'', ''::1'', ''host'', ''server'', ''remotehost'', ''postgres'',
      ''postgreshost.com'', ''path.to.some-url'']"

definition db_single_host_is_documentation_target :: "str \<Rightarrow> bool" where
  "db_single_host_is_documentation_target h \<longleftrightarrow>
     (let host = map to_ascii_lowercase (trim_matches (\<lambda>b. b \<in> set ''[]'') (trim h))
      in host \<noteq> [] \<and>
         (host \<in> set documentation_hosts \<or>
          suffix ''.example.com'' host \<or> suffix ''.example.org'' host \<or>
          suffix ''.example.net'' host \<or>
          host = ''example.com'' \<or> host = ''example.org'' \<or> host = ''example.net'' \<or>
          suffix ''.test'' host \<or>
          list_ex (\<lambda>label. label = ''test'' \<or> prefix ''test-'' label \<or> suffix ''-test'' label)
            (split_on (CHR ''.'') host)))"

definition db_host_is_documentation_target :: "str \<Rightarrow> bool" where
  "db_host_is_documentation_target host \<longleftrightarrow>
     list_all (\<lambda>h. db_single_host_is_documentation_target (db_host_without_port h))
       (split_on (CHR '','') host)"

definition db_connection_string :: "str \<Rightarrow> bool" where
  "db_connection_string s =
     (case split_once ''://'' s of
        None \<Rightarrow> False
      | Some (_, rest) \<Rightarrow>
          (case rsplit_once ''@'' (trim (hd (split_on (CHR ''/'') rest))) of
             None \<Rightarrow> False
           | Some (userinfo, host) \<Rightarrow>
               \<not> (host = [] \<or> userinfo_is_template_or_redaction userinfo) \<and>
               (case split_once '':'' userinfo of
                  None \<Rightarrow> False
                | Some (user, password) \<Rightarrow>
                    \<not> (user = [] \<or> password = [] \<or>
                       userinfo_part_is_template_or_redaction user \<or>
                       userinfo_part_is_template_or_redaction password) \<and>
                    \<not> (db_host_is_documentation_target host \<and>
                       userinfo_parts_are_documentation_placeholders user password))))"


section \<open>The validators by name\<close>

datatype validator =
    VNone | Luhn | UsNpi | CaSin | AbaRouting | IbanMod97 | UkNhs | PlPesel | AuTfn | KrRrn | NlBsn
  | JpMyNumber | AuAbn | AuMedicare | BrCpf | BrCnpj | SgNricFin | UsDea | EsNif | EsNie | DeTaxId
  | Verhoeff | BtcAddress | LtcAddress | XrpAddress | Wif | UsSsn | BtcBech32 | EthAddress | Bip39
  | Ipv4NonLoopback | Ipv6 | Ipv6NonLoopback | FiHetu | ItFiscalCode | FrNir | AuAcn | InGstin
  | LocalUsername | BasicAuthToken68 | DbConnectionString | BearerToken | SqlPasswordValue
  | TwilioApiKey

definition validator_names :: "(str \<times> validator) list" where
  "validator_names =
     [(''none'', VNone), (''luhn'', Luhn), (''us_npi'', UsNpi), (''ca_sin'', CaSin),
      (''aba_routing'', AbaRouting), (''iban_mod97'', IbanMod97), (''uk_nhs'', UkNhs),
      (''pl_pesel'', PlPesel), (''au_tfn'', AuTfn), (''kr_rrn'', KrRrn), (''nl_bsn'', NlBsn),
      (''jp_my_number'', JpMyNumber), (''au_abn'', AuAbn), (''au_medicare'', AuMedicare),
      (''br_cpf'', BrCpf), (''br_cnpj'', BrCnpj), (''sg_nric_fin'', SgNricFin), (''us_dea'', UsDea),
      (''es_nif'', EsNif), (''es_nie'', EsNie), (''de_tax_id'', DeTaxId), (''verhoeff'', Verhoeff),
      (''btc_address'', BtcAddress), (''ltc_address'', LtcAddress), (''xrp_address'', XrpAddress),
      (''wif'', Wif), (''us_ssn'', UsSsn), (''btc_bech32'', BtcBech32),
      (''eth_address'', EthAddress), (''bip39'', Bip39), (''ipv4_non_loopback'', Ipv4NonLoopback),
      (''ipv6'', Ipv6), (''ipv6_non_loopback'', Ipv6NonLoopback), (''fi_hetu'', FiHetu),
      (''it_codice_fiscale'', ItFiscalCode), (''fr_nir'', FrNir), (''au_acn'', AuAcn),
      (''in_gstin'', InGstin), (''local_username'', LocalUsername),
      (''basic_auth_token68'', BasicAuthToken68), (''db_connection_string'', DbConnectionString),
      (''bearer_token'', BearerToken), (''sql_password_value'', SqlPasswordValue),
      (''twilio_api_key'', TwilioApiKey)]"

definition validator_from_name :: "str \<Rightarrow> validator option" where
  "validator_from_name name = map_of validator_names name"

text \<open>The crates the validators call.\<close>

record validator_crates =
  vc_base58 :: base58
  vc_sha256 :: digest
  vc_keccak :: digest
  vc_bip39 :: bip39_crate
  vc_base64 :: "str \<Rightarrow> str option"

fun accepts :: "validator_crates \<Rightarrow> validator \<Rightarrow> str \<Rightarrow> bool option" where
  "accepts vc VNone s = Some True"
| "accepts vc Luhn s = Some (luhn s)"
| "accepts vc UsNpi s = Some (us_npi s)"
| "accepts vc CaSin s = Some (ca_sin s)"
| "accepts vc AbaRouting s = Some (aba_routing s)"
| "accepts vc IbanMod97 s = Some (iban_mod97 s)"
| "accepts vc UkNhs s = Some (uk_nhs s)"
| "accepts vc PlPesel s = Some (pl_pesel s)"
| "accepts vc AuTfn s = Some (au_tfn s)"
| "accepts vc KrRrn s = Some (kr_rrn s)"
| "accepts vc NlBsn s = Some (nl_bsn s)"
| "accepts vc JpMyNumber s = Some (jp_my_number s)"
| "accepts vc AuAbn s = Some (au_abn s)"
| "accepts vc AuMedicare s = Some (au_medicare s)"
| "accepts vc BrCpf s = Some (br_cpf s)"
| "accepts vc BrCnpj s = Some (br_cnpj s)"
| "accepts vc SgNricFin s = sg_nric_fin s"
| "accepts vc UsDea s = us_dea s"
| "accepts vc EsNif s = es_nif s"
| "accepts vc EsNie s = es_nie s"
| "accepts vc DeTaxId s = Some (de_tax_id s)"
| "accepts vc Verhoeff s = Some (verhoeff s)"
| "accepts vc BtcAddress s = Some (btc_address (vc_base58 vc) (vc_sha256 vc) s)"
| "accepts vc LtcAddress s = Some (ltc_address (vc_base58 vc) (vc_sha256 vc) s)"
| "accepts vc XrpAddress s = Some (xrp_address (vc_base58 vc) (vc_sha256 vc) s)"
| "accepts vc Wif s = Some (wif (vc_base58 vc) (vc_sha256 vc) s)"
| "accepts vc UsSsn s = Some (us_ssn s)"
| "accepts vc BtcBech32 s = Some (btc_bech32 s)"
| "accepts vc EthAddress s = Some (eth_address (vc_keccak vc) s)"
| "accepts vc Bip39 s = Some (bip39_mnemonic (vc_bip39 vc) s)"
| "accepts vc Ipv4NonLoopback s = Some (ipv4_non_loopback s)"
| "accepts vc Ipv6 s = Some (ipv6 s)"
| "accepts vc Ipv6NonLoopback s = Some (ipv6_non_loopback s)"
| "accepts vc FiHetu s = Some (fi_hetu s)"
| "accepts vc ItFiscalCode s = Some (it_codice_fiscale s)"
| "accepts vc FrNir s = fr_nir s"
| "accepts vc AuAcn s = Some (au_acn s)"
| "accepts vc InGstin s = Some (in_gstin s)"
| "accepts vc LocalUsername s = Some (local_username s)"
| "accepts vc BasicAuthToken68 s = Some (basic_auth_token68 (vc_base64 vc) s)"
| "accepts vc DbConnectionString s = Some (db_connection_string s)"
| "accepts vc BearerToken s = Some (bearer_token s)"
| "accepts vc SqlPasswordValue s = Some (sql_password_value s)"
| "accepts vc TwilioApiKey s = Some (twilio_api_key s)"


section \<open>Trimming\<close>

lemma dropWhile_list_ex: "(\<And>x. W x \<Longrightarrow> \<not> Q x) \<Longrightarrow> list_ex Q (dropWhile W xs) = list_ex Q xs"
  by (induction xs) auto

text \<open>Trimming drops white space only, so it keeps what no white-space character contains.\<close>

lemma trim_list_ex:
  assumes "\<And>ch. is_whitespace_char ch \<Longrightarrow> \<not> list_ex P ch"
  shows "list_ex P (trim s) = list_ex P s"
proof -
  have ex_concat: "list_ex P (concat xs) = list_ex (list_ex P) xs" for xs
    by (induction xs) auto
  have ex_rev: "list_ex Q (rev xs) = list_ex Q xs" for Q :: "str \<Rightarrow> bool" and xs
    by (simp add: list_ex_iff)
  have "list_ex P (trim s) = list_ex (list_ex P) (utf8_chars s)"
    unfolding trim_def ex_concat ex_rev
    by (simp add: dropWhile_list_ex [of is_whitespace_char] assms ex_rev)
  also have "\<dots> = list_ex P s" by (metis ex_concat concat_utf8_chars)
  finally show ?thesis .
qed

lemma whitespace_bytes:
  "is_whitespace_char ch \<Longrightarrow> b \<in> set ch \<Longrightarrow> code b \<le> 32 \<or> 128 \<le> code b"
  by (auto simp: is_whitespace_char_def byte_between_def split: list.splits if_splits)

lemma trim_keeps_visible:
  assumes "\<And>b. P b \<Longrightarrow> 32 < code b \<and> code b < 128"
  shows "list_ex P (trim s) = list_ex P s"
  using whitespace_bytes assms by (intro trim_list_ex) (fastforce simp: list_ex_iff)

lemma trim_not_Nil: "32 < code b \<Longrightarrow> code b < 128 \<Longrightarrow> b \<in> set s \<Longrightarrow> trim s \<noteq> []"
  using trim_keeps_visible [of "\<lambda>x. x = b" s] by (auto simp: list_ex_iff)


section \<open>What a database URL must be\<close>

definition is_template_mark :: "byte \<Rightarrow> bool" where
  "is_template_mark b \<longleftrightarrow> b \<in> set ''[]{}<>*''"

lemma part_is_template:
  "userinfo_part_is_template_or_redaction part \<longleftrightarrow> trim part = [] \<or> list_ex is_template_mark part"
proof -
  have "userinfo_part_is_template_or_redaction part \<longleftrightarrow>
      trim part = [] \<or> list_ex is_template_mark (trim part)"
    by (simp add: userinfo_part_is_template_or_redaction_def is_template_mark_def [abs_def])
  moreover have "list_ex is_template_mark (trim part) = list_ex is_template_mark part"
    by (rule trim_keeps_visible) (auto simp: is_template_mark_def)
  ultimately show ?thesis by simp
qed

lemma whole_not_blank:
  assumes "trim s = []"
  shows "split_on (CHR '':'') s = [s]"
  using trim_not_Nil [of "CHR '':''" s] assms by (intro split_on_none) auto

text \<open>
  A password is checked piece by piece between its colons; that covers the check of the whole.
\<close>

lemma password_pieces:
  "list_ex userinfo_part_is_template_or_redaction (split_on (CHR '':'') password) \<longleftrightarrow>
     userinfo_part_is_template_or_redaction password \<or>
     list_ex (\<lambda>piece. trim piece = []) (split_on (CHR '':'') password)"
proof -
  have "list_ex userinfo_part_is_template_or_redaction ps \<longleftrightarrow>
      list_ex (\<lambda>piece. trim piece = []) ps \<or> list_ex (list_ex is_template_mark) ps" for ps
    by (induction ps) (auto simp: part_is_template)
  moreover have "list_ex (list_ex is_template_mark) (split_on (CHR '':'') password) \<longleftrightarrow>
      list_ex is_template_mark password"
    by (rule split_on_list_ex) (simp add: is_template_mark_def)
  ultimately show ?thesis
    by (cases "trim password = []") (auto simp: part_is_template whole_not_blank)
qed

lemma userinfo_template:
  assumes "CHR '':'' \<notin> set user"
  shows "userinfo_is_template_or_redaction (user @ '':'' @ password) \<longleftrightarrow>
    userinfo_part_is_template_or_redaction user \<or>
    list_ex userinfo_part_is_template_or_redaction (split_on (CHR '':'') password)"
proof -
  have "trim (user @ '':'' @ password) \<noteq> []" by (rule trim_not_Nil [of "CHR '':''"]) auto
  moreover have "list_ex is_template_mark (user @ '':'' @ password) \<longleftrightarrow>
      list_ex is_template_mark user \<or> list_ex is_template_mark password"
    by (simp add: is_template_mark_def)
  ultimately show ?thesis
    using password_pieces [of password] split_on_first [OF assms, of password]
    by (auto simp: userinfo_is_template_or_redaction_def part_is_template)
qed

text \<open>
  Which database URLs count as a credential: a URL with a user, a password and a host is
  accepted exactly when the host is not empty, neither the user nor a piece of the password
  between colons is blank or holds a template mark, and it is not the documentation of a
  placeholder user and password on a documentation host.
\<close>

theorem db_url_accepted_iff:
  assumes "CHR '':'' \<notin> set scheme" and "CHR '':'' \<notin> set user" and "CHR ''@'' \<notin> set host"
    and "CHR ''/'' \<notin> set (user @ password @ host)" and "path = [] \<or> hd path = CHR ''/''"
    and "trim (user @ '':'' @ password @ ''@'' @ host) = user @ '':'' @ password @ ''@'' @ host"
  shows "db_connection_string (scheme @ ''://'' @ user @ '':'' @ password @ ''@'' @ host @ path) \<longleftrightarrow>
    host \<noteq> [] \<and> \<not> userinfo_part_is_template_or_redaction user \<and>
    \<not> list_ex userinfo_part_is_template_or_redaction (split_on (CHR '':'') password) \<and>
    \<not> (db_host_is_documentation_target host \<and> db_user_is_placeholder user \<and>
       db_password_is_placeholder password)"
proof -
  let ?authority = "user @ '':'' @ password @ ''@'' @ host"
  have head: "hd (split_on (CHR ''/'') (?authority @ path)) = ?authority"
  proof (cases path)
    case Nil
    then show ?thesis using assms(4) by (simp add: split_on_none)
  next
    case (Cons x xs)
    with assms(5) have "x = CHR ''/''" by simp
    with Cons show ?thesis using assms(4) split_on_first [of "CHR ''/''" ?authority xs] by simp
  qed
  have url: "split_once ''://'' (scheme @ ''://'' @ ?authority @ path) = Some (scheme, ?authority @ path)"
    using split_once_first [OF assms(1), of "''//''" "?authority @ path"] by simp
  have at: "rsplit_once ''@'' ?authority = Some (user @ '':'' @ password, host)"
    using rsplit_once_single [OF assms(3), of "user @ '':'' @ password"] by simp
  have colon: "split_once '':'' (user @ '':'' @ password) = Some (user, password)"
    using split_once_first [OF assms(2), of "[]" password] by simp
  have blank: "userinfo_part_is_template_or_redaction []"
    by (simp add: part_is_template trim_def)
  have "db_connection_string (scheme @ ''://'' @ ?authority @ path) \<longleftrightarrow>
    host \<noteq> [] \<and> \<not> userinfo_is_template_or_redaction (user @ '':'' @ password) \<and>
    \<not> userinfo_part_is_template_or_redaction user \<and>
    \<not> userinfo_part_is_template_or_redaction password \<and>
    \<not> (db_host_is_documentation_target host \<and>
       userinfo_parts_are_documentation_placeholders user password)"
    unfolding db_connection_string_def url
    by (simp add: head [simplified] assms(6) [simplified] at [simplified] colon [simplified])
      (use blank in auto)
  then show ?thesis
    unfolding userinfo_template [OF assms(2)] userinfo_parts_are_documentation_placeholders_def
    using password_pieces [of password] by auto
qed

lemma db_url_accepted_iff_witness:
  "db_connection_string
     (''mysql'' @ ''://'' @ ''svc'' @ '':'' @ ''p4ss'' @ ''@'' @ ''db.internal'' @ ''/app'')"
proof -
  have "trim (''svc'' @ '':'' @ ''p4ss'' @ ''@'' @ ''db.internal'') =
      ''svc'' @ '':'' @ ''p4ss'' @ ''@'' @ ''db.internal''" by code_simp
  from db_url_accepted_iff [OF _ _ _ _ _ this, of "''mysql''" "''/app''"]
  have "db_connection_string
     (''mysql'' @ ''://'' @ ''svc'' @ '':'' @ ''p4ss'' @ ''@'' @ ''db.internal'' @ ''/app'') \<longleftrightarrow>
    ''db.internal'' \<noteq> '''' \<and> \<not> userinfo_part_is_template_or_redaction ''svc'' \<and>
    \<not> list_ex userinfo_part_is_template_or_redaction (split_on (CHR '':'') ''p4ss'') \<and>
    \<not> (db_host_is_documentation_target ''db.internal'' \<and> db_user_is_placeholder ''svc'' \<and>
       db_password_is_placeholder ''p4ss'')" by simp
  moreover have "\<not> db_user_is_placeholder ''svc''"
    "\<not> userinfo_part_is_template_or_redaction ''svc''"
    "\<not> list_ex userinfo_part_is_template_or_redaction (split_on (CHR '':'') ''p4ss'')" by code_simp+
  ultimately show ?thesis by simp
qed

text \<open>A concrete password that ends in a colon is therefore taken for a template.\<close>

lemma db_url_password_with_colon:
  "\<not> db_connection_string ''mysql://svc:p4ss:@db.internal/app''"
  by code_simp


section \<open>Panics\<close>


definition example_crates :: validator_crates where
  "example_crates =
     \<lparr>vc_base58 = (\<lambda>_ _. None), vc_sha256 = (\<lambda>s. s), vc_keccak = (\<lambda>s. s),
      vc_bip39 = \<lparr>bip_normalize = (\<lambda>s. s), bip_lowercase = (\<lambda>s. s), bip_languages = []\<rparr>,
      vc_base64 = (\<lambda>_. None)\<rparr>"


lemma validator_names_distinct:
  "distinct (map fst validator_names)" and "distinct (map snd validator_names)"
  by code_simp+

end
