(* ===== verification/Json.thy ===== *)
theory Json
  imports Engine
begin

text \<open>
  The JSON region parser, \<open>parse/json.rs\<close>: a hand-written recursive descent that reports one
  region per string value. The cursor \<open>i\<close> of the code is kept with the bytes from it on. The
  mutual recursion of \<open>value\<close>, \<open>object\<close> and \<open>array\<close> runs on fuel; that twice the length of the
  text is enough is shown below.
\<close>


section \<open>String contents\<close>

text \<open>\<open>char::to_digit(16)\<close> on the encoding of a character.\<close>

definition hex_digit_of :: "str \<Rightarrow> nat option" where
  "hex_digit_of ch =
     (case ch of
        [c] \<Rightarrow>
          (if is_ascii_digit c then Some (code c - 48)
           else if byte_between 97 102 c then Some (code c - 97 + 10)
           else if byte_between 65 70 c then Some (code c - 65 + 10)
           else None)
      | _ \<Rightarrow> None)"

fun read_hex :: "nat \<Rightarrow> nat \<Rightarrow> str list \<Rightarrow> (nat \<times> str list) option" where
  "read_hex 0 v chars = Some (v, chars)"
| "read_hex (Suc n) v [] = None"
| "read_hex (Suc n) v (ch # chars) =
     (case hex_digit_of ch of None \<Rightarrow> None | Some d \<Rightarrow> read_hex n (v * 16 + d) chars)"

text \<open>\<open>char::from_u32\<close> and the encoding of the character; surrogates are no characters.\<close>

definition encode_scalar :: "nat \<Rightarrow> str option" where
  "encode_scalar v =
     (if v < 0x80 then Some [char_of v]
      else if v < 0x800 then Some [char_of (0xC0 + v div 64), char_of (0x80 + v mod 64)]
      else if 0xD800 \<le> v \<and> v \<le> 0xDFFF then None
      else if v < 0x10000 then
        Some [char_of (0xE0 + v div 4096), char_of (0x80 + v div 64 mod 64), char_of (0x80 + v mod 64)]
      else if v \<le> 0x10FFFF then
        Some [char_of (0xF0 + v div 262144), char_of (0x80 + v div 4096 mod 64),
          char_of (0x80 + v div 64 mod 64), char_of (0x80 + v mod 64)]
      else None)"

text \<open>The character of an escape and the characters after it.\<close>

definition unicode_escape_char :: "str list \<Rightarrow> (str \<times> str list) option" where
  "unicode_escape_char chars =
     (case read_hex 4 0 chars of
        None \<Rightarrow> None
      | Some (v, chars) \<Rightarrow>
          if 0xD800 \<le> v \<and> v \<le> 0xDBFF then
            (case chars of
               b # u # chars \<Rightarrow>
                 (if b \<noteq> [CHR 0x5C] \<or> u \<noteq> ''u'' then None
                  else case read_hex 4 0 chars of
                      None \<Rightarrow> None
                    | Some (low, chars) \<Rightarrow>
                        if 0xDC00 \<le> low \<and> low \<le> 0xDFFF
                        then map_option (\<lambda>c. (c, chars))
                          (encode_scalar (0x10000 + (v - 0xD800) * 1024 + (low - 0xDC00)))
                        else None)
             | _ \<Rightarrow> None)
          else map_option (\<lambda>c. (c, chars)) (encode_scalar v))"

definition escaped_char :: "str list \<Rightarrow> (str \<times> str list) option" where
  "escaped_char chars =
     (case chars of
        [] \<Rightarrow> None
      | e # chars \<Rightarrow>
          (if e = [CHR 0x22] then Some ([CHR 0x22], chars)
           else if e = [CHR 0x5C] then Some ([CHR 0x5C], chars)
           else if e = ''/'' then Some (''/'', chars)
           else if e = ''b'' then Some ([CHR 0x08], chars)
           else if e = ''f'' then Some ([CHR 0x0C], chars)
           else if e = ''n'' then Some ([CHR 0x0A], chars)
           else if e = ''r'' then Some ([CHR 0x0D], chars)
           else if e = ''t'' then Some ([CHR 0x09], chars)
           else if e = ''u'' then unicode_escape_char chars
           else None))"

lemma read_hex_shorter: "read_hex n v chars = Some (w, rest) \<Longrightarrow> length rest \<le> length chars"
  by (induction n v chars rule: read_hex.induct) (auto split: option.splits)

lemma escaped_char_shorter:
  assumes "escaped_char chars = Some (c, rest)"
  shows "length rest < length chars"
proof -
  obtain e cs where cs: "chars = e # cs" using assms by (cases chars) (auto simp: escaped_char_def)
  have "length rest \<le> length cs" if "unicode_escape_char cs = Some (c, rest)"
    using that unfolding unicode_escape_char_def
    by (auto split: option.splits if_splits list.splits dest!: read_hex_shorter)
  then show ?thesis using assms cs by (auto simp: escaped_char_def split: if_splits)
qed

function decode_json_chars :: "str list \<Rightarrow> str option" where
  "decode_json_chars [] = Some []"
| "decode_json_chars (ch # chars) =
     (if ch \<noteq> [CHR 0x5C] then map_option (\<lambda>out. ch @ out) (decode_json_chars chars)
      else case escaped_char chars of
          None \<Rightarrow> None
        | Some (c, rest) \<Rightarrow> map_option (\<lambda>out. c @ out) (decode_json_chars rest))"
  by pat_completeness auto
termination
  by (relation "measure length") (auto dest: escaped_char_shorter)

definition decode_json_string :: "str \<Rightarrow> str option" where
  "decode_json_string raw =
     (if CHR 0x5C \<notin> set raw then Some raw else decode_json_chars (utf8_chars raw))"


section \<open>The cursor\<close>

definition JSON_MAX_DEPTH :: nat where
  "JSON_MAX_DEPTH = 128"

datatype json_region_mode = JsonMode | ToolResultMode

definition is_sibling_hint_key :: "str \<Rightarrow> bool" where
  "is_sibling_hint_key key \<longleftrightarrow> list_ex (eq_ascii_ci key) [''name'', ''key'', ''env'']"

record json_cursor =
  js_i :: nat
  js_rest :: str
  js_out :: "region list"

definition json_advance :: "nat \<Rightarrow> json_cursor \<Rightarrow> json_cursor" where
  "json_advance n p = p\<lparr>js_i := js_i p + n, js_rest := drop n (js_rest p)\<rparr>"

definition json_push :: "region \<Rightarrow> json_cursor \<Rightarrow> json_cursor" where
  "json_push r p = p\<lparr>js_out := js_out p @ [r]\<rparr>"

definition json_peek :: "json_cursor \<Rightarrow> byte option" where
  "json_peek p = (case js_rest p of [] \<Rightarrow> None | c # _ \<Rightarrow> Some c)"

definition is_json_ws :: "byte \<Rightarrow> bool" where
  "is_json_ws c \<longleftrightarrow> c = CHR '' '' \<or> code c = 9 \<or> code c = 10 \<or> code c = 13"

definition json_skip_ws :: "json_cursor \<Rightarrow> json_cursor" where
  "json_skip_ws p = json_advance (length (takeWhile is_json_ws (js_rest p))) p"

definition json_format :: "json_region_mode \<Rightarrow> kind" where
  "json_format m = (case m of JsonMode \<Rightarrow> KJson | ToolResultMode \<Rightarrow> KToolResult)"

definition json_region ::
    "json_region_mode \<Rightarrow> str option \<Rightarrow> str list \<Rightarrow> region_kind \<Rightarrow> byte_range \<Rightarrow> region" where
  "json_region m key hints k r =
     \<lparr>region_span = r,
      region_ctx = \<lparr>ctx_path = None, ctx_key = key, ctx_hints = hints, ctx_kind = k,
        ctx_format = json_format m\<rparr>\<rparr>"

text \<open>How many bytes after a backslash belong to the escape.\<close>

definition skip_escape :: "str \<Rightarrow> nat option" where
  "skip_escape s =
     (case s of
        [] \<Rightarrow> None
      | c # _ \<Rightarrow> if c = CHR ''u'' then (if length s < 5 then None else Some 5) else Some 1)"

text \<open>The length of a string literal from its first byte to the closing quote.\<close>

function string_len :: "str \<Rightarrow> nat option" where
  "string_len [] = None"
| "string_len (c # s) =
     (if c = CHR 0x22 then Some 0
      else if c = CHR 0x5C then
        (case skip_escape s of
           None \<Rightarrow> None
         | Some k \<Rightarrow> map_option (\<lambda>n. 1 + k + n) (string_len (drop k s)))
      else map_option Suc (string_len s))"
  by pat_completeness auto
termination
  by (relation "measure length") auto

definition json_string_range :: "json_cursor \<Rightarrow> (byte_range \<times> json_cursor) option" where
  "json_string_range p =
     (let p = json_advance 1 p
      in map_option (\<lambda>n. (range_new (js_i p) (js_i p + n), json_advance (n + 1) p))
           (string_len (js_rest p)))"

definition json_string :: "json_cursor \<Rightarrow> (byte_range \<times> str \<times> json_cursor) option" where
  "json_string p =
     Option.bind (json_string_range p) (\<lambda>(range, q).
       let raw = take (rend range - rstart range) (drop 1 (js_rest p))
       in if utf8_valid raw then map_option (\<lambda>text. (range, text, q)) (decode_json_string raw)
          else None)"


section \<open>Values\<close>

datatype 'a parse = OutOfFuel | Rejected | Parsed 'a

fun parse_of :: "'a option \<Rightarrow> 'a parse" where
  "parse_of None = Rejected"
| "parse_of (Some x) = Parsed x"

fun parse_then :: "'a parse \<Rightarrow> ('a \<Rightarrow> 'b parse) \<Rightarrow> 'b parse" where
  "parse_then OutOfFuel f = OutOfFuel"
| "parse_then Rejected f = Rejected"
| "parse_then (Parsed x) f = f x"

lemma parse_then_cong [fundef_cong]:
  "x = y \<Longrightarrow> (\<And>a. y = Parsed a \<Longrightarrow> f a = g a) \<Longrightarrow> parse_then x f = parse_then y g"
  by (cases y) auto

definition json_literal :: "str \<Rightarrow> json_cursor \<Rightarrow> json_cursor parse" where
  "json_literal lit p =
     (if prefix lit (js_rest p) then Parsed (json_advance (length lit) p) else Rejected)"

definition is_number_byte :: "byte \<Rightarrow> bool" where
  "is_number_byte c \<longleftrightarrow> is_ascii_digit c \<or> c \<in> set ''.eE+-''"

definition number_len :: "str \<Rightarrow> nat" where
  "number_len s =
     (let sign = (if prefix ''-'' s then 1 else 0)
      in sign + length (takeWhile is_number_byte (drop sign s)))"

definition json_number ::
    "json_region_mode \<Rightarrow> bool \<Rightarrow> str option \<Rightarrow> str list \<Rightarrow> json_cursor \<Rightarrow> json_cursor parse" where
  "json_number m primitives key hints p =
     (let n = number_len (js_rest p)
      in if n = 0 then Rejected
         else
           let q = json_advance n p
           in Parsed (if primitives
                then json_push (json_region m key hints JsonValue (range_new (js_i p) (js_i q))) q
                else q))"

definition json_string_value ::
    "json_region_mode \<Rightarrow> str option \<Rightarrow> str list \<Rightarrow> json_cursor \<Rightarrow> json_cursor parse" where
  "json_string_value m key hints p =
     parse_of (map_option (\<lambda>(range, q). json_push (json_region m key hints JsonValue range) q)
       (json_string_range p))"

text \<open>A key of an object with the white space and the colon after it.\<close>

definition json_key :: "json_region_mode \<Rightarrow> json_cursor \<Rightarrow> (str \<times> json_cursor) parse" where
  "json_key m p =
     (let p = json_skip_ws p
      in if json_peek p \<noteq> Some (CHR 0x22) then Rejected
         else case json_string p of
             None \<Rightarrow> Rejected
           | Some (r, key, p) \<Rightarrow>
               let p = (if m = ToolResultMode then json_push (json_region m None [] JsonKey r) p else p);
                   p = json_skip_ws p
               in if json_peek p \<noteq> Some (CHR '':'') then Rejected
                  else Parsed (key, json_skip_ws (json_advance 1 p)))"

definition json_sibling ::
    "json_region_mode \<Rightarrow> str \<Rightarrow> json_cursor \<Rightarrow> (str \<times> json_cursor) parse" where
  "json_sibling m key p =
     parse_of (map_option (\<lambda>(range, text, q).
       (text, json_push (json_region m (Some key) [] JsonValue range) q)) (json_string p))"

text \<open>The hints of the siblings go to the regions of the members called \<open>value\<close>.\<close>

definition add_hints :: "str list \<Rightarrow> region \<Rightarrow> region" where
  "add_hints hints r =
     (case ctx_key (region_ctx r) of
        Some key \<Rightarrow>
          if eq_ascii_ci key ''value''
          then r\<lparr>region_ctx := (region_ctx r)\<lparr>ctx_hints := ctx_hints (region_ctx r) @ hints\<rparr>\<rparr> else r
      | None \<Rightarrow> r)"

definition hint_values :: "str list \<Rightarrow> (nat \<times> nat) list \<Rightarrow> region list \<Rightarrow> region list" where
  "hint_values hints values out =
     (if hints = [] then out
      else foldl (\<lambda>out (start, end).
          take start out @ map (add_hints hints) (take (end - start) (drop start out)) @ drop end out)
        out values)"

text \<open>What a value begins with: a non-empty object or array, or else its result.\<close>

datatype json_head = ObjectHead json_cursor | ArrayHead json_cursor | Leaf "json_cursor parse"

definition json_open :: "byte \<Rightarrow> (json_cursor \<Rightarrow> json_head) \<Rightarrow> json_cursor \<Rightarrow> json_head" where
  "json_open close head p =
     (let p = json_skip_ws (json_advance 1 p)
      in if json_peek p = Some close then Leaf (Parsed (json_advance 1 p)) else head p)"

definition json_begin ::
    "json_region_mode \<Rightarrow> bool \<Rightarrow> str option \<Rightarrow> str list \<Rightarrow> nat \<Rightarrow> json_cursor \<Rightarrow> json_head" where
  "json_begin m primitives key hints depth p =
     (if JSON_MAX_DEPTH < depth then Leaf Rejected
      else
        let p = json_skip_ws p
        in case json_peek p of
             None \<Rightarrow> Leaf Rejected
           | Some c \<Rightarrow>
               if c = CHR ''{'' then json_open (CHR ''}'') ObjectHead p
               else if c = CHR ''['' then json_open (CHR '']'') ArrayHead p
               else if c = CHR 0x22 then Leaf (json_string_value m key hints p)
               else if c = CHR ''t'' then Leaf (json_literal ''true'' p)
               else if c = CHR ''f'' then Leaf (json_literal ''false'' p)
               else if c = CHR ''n'' then Leaf (json_literal ''null'' p)
               else Leaf (json_number m primitives key hints p))"

text \<open>After a member or an element: a comma, the closing bracket, or anything else.\<close>

datatype json_next = Again json_cursor | Close json_cursor | Broken

definition json_after :: "byte \<Rightarrow> json_cursor \<Rightarrow> json_next" where
  "json_after close p =
     (let p = json_skip_ws p
      in case json_peek p of
           None \<Rightarrow> Broken
         | Some c \<Rightarrow>
             if c = CHR '','' then Again (json_advance 1 p)
             else if c = close then Close (json_advance 1 p) else Broken)"

text \<open>
  The loop of \<open>object\<close> carries the hints and the ranges of output regions of the members called
  \<open>value\<close>; both are used when the object closes.
\<close>

type_synonym json_members = "str list \<times> (nat \<times> nat) list"

definition note_value :: "str \<Rightarrow> json_cursor \<Rightarrow> json_members \<Rightarrow> json_cursor \<Rightarrow> json_members \<times> json_cursor"
  where
  "note_value key p ms q =
     ((fst ms,
       if eq_ascii_ci key ''value'' then snd ms @ [(length (js_out p), length (js_out q))] else snd ms),
      q)"

definition note_sibling :: "json_members \<Rightarrow> str \<times> json_cursor \<Rightarrow> json_members \<times> json_cursor" where
  "note_sibling ms = (\<lambda>(text, q). ((fst ms @ [text], snd ms), q))"

definition finish_object :: "json_members \<Rightarrow> json_cursor \<Rightarrow> json_cursor" where
  "finish_object ms p = p\<lparr>js_out := hint_values (fst ms) (snd ms) (js_out p)\<rparr>"

definition is_sibling_member :: "str \<Rightarrow> json_cursor \<Rightarrow> bool" where
  "is_sibling_member key p \<longleftrightarrow> is_sibling_hint_key key \<and> json_peek p = Some (CHR 0x22)"

function (sequential) json_value ::
    "json_region_mode \<Rightarrow> bool \<Rightarrow> nat \<Rightarrow> str option \<Rightarrow> str list \<Rightarrow> nat \<Rightarrow> json_cursor \<Rightarrow> json_cursor parse"
  and json_object ::
    "json_region_mode \<Rightarrow> bool \<Rightarrow> nat \<Rightarrow> nat \<Rightarrow> json_members \<Rightarrow> json_cursor \<Rightarrow> json_cursor parse"
  and json_array ::
    "json_region_mode \<Rightarrow> bool \<Rightarrow> nat \<Rightarrow> str option \<Rightarrow> str list \<Rightarrow> nat \<Rightarrow> json_cursor \<Rightarrow> json_cursor parse"
  where
  "json_value m primitives 0 key hints depth p = OutOfFuel"
| "json_value m primitives (Suc fuel) key hints depth p =
     (case json_begin m primitives key hints depth p of
        Leaf result \<Rightarrow> result
      | ObjectHead p \<Rightarrow> json_object m primitives fuel (depth + 1) ([], []) p
      | ArrayHead p \<Rightarrow> json_array m primitives fuel key hints (depth + 1) p)"
| "json_object m primitives 0 depth ms p = OutOfFuel"
| "json_object m primitives (Suc fuel) depth ms p =
     parse_then (json_key m p) (\<lambda>(key, p).
     parse_then
       (if is_sibling_member key p
        then parse_then (json_sibling m key p) (\<lambda>found. Parsed (note_sibling ms found))
        else parse_then (json_value m primitives fuel (Some key) [] depth p) (\<lambda>q.
          Parsed (note_value key p ms q)))
       (\<lambda>(ms, p). case json_after (CHR ''}'') p of
            Again p \<Rightarrow> json_object m primitives fuel depth ms p
          | Close p \<Rightarrow> Parsed (finish_object ms p)
          | Broken \<Rightarrow> Rejected))"
| "json_array m primitives 0 key hints depth p = OutOfFuel"
| "json_array m primitives (Suc fuel) key hints depth p =
     parse_then (json_value m primitives fuel key hints depth p) (\<lambda>p.
       case json_after (CHR '']'') p of
         Again p \<Rightarrow> json_array m primitives fuel key hints depth p
       | Close p \<Rightarrow> Parsed p
       | Broken \<Rightarrow> Rejected)"
  by pat_completeness auto
termination
  by (relation "measure (case_sum (\<lambda>(m, primitives, fuel, key, hints, depth, p). fuel)
    (case_sum (\<lambda>(m, primitives, fuel, depth, ms, p). fuel)
      (\<lambda>(m, primitives, fuel, key, hints, depth, p). fuel)))") auto


section \<open>Documents\<close>

definition BOM :: str where
  "BOM = [CHR 0xEF, CHR 0xBB, CHR 0xBF]"

definition json_start :: "str \<Rightarrow> json_cursor" where
  "json_start raw =
     json_skip_ws (json_advance (if prefix BOM raw then 3 else 0) \<lparr>js_i = 0, js_rest = raw, js_out = []\<rparr>)"

text \<open>Enough fuel for any text.\<close>

definition json_fuel :: "str \<Rightarrow> nat" where
  "json_fuel raw = 2 * length raw + 2"

definition parse_json_regions_with :: "str \<Rightarrow> json_region_mode \<Rightarrow> bool \<Rightarrow> region list option" where
  "parse_json_regions_with raw m primitives =
     (case json_value m primitives (json_fuel raw) None [] 0 (json_start raw) of
        Parsed p \<Rightarrow> if js_rest (json_skip_ws p) = [] then Some (js_out p) else None
      | _ \<Rightarrow> None)"

definition parse_json_regions :: "str \<Rightarrow> region list option" where
  "parse_json_regions raw = parse_json_regions_with raw JsonMode False"

definition parse_json_analysis_regions :: "str \<Rightarrow> region list option" where
  "parse_json_analysis_regions raw = parse_json_regions_with raw JsonMode True"

definition parse_tool_result_regions :: "str \<Rightarrow> region list option" where
  "parse_tool_result_regions raw = parse_json_regions_with raw ToolResultMode False"

definition parse_tool_result_analysis_regions :: "str \<Rightarrow> region list option" where
  "parse_tool_result_analysis_regions raw = parse_json_regions_with raw ToolResultMode True"

definition shift_region :: "nat \<Rightarrow> region \<Rightarrow> region" where
  "shift_region start r =
     r\<lparr>region_span := range_new (rstart (region_span r) + start) (rend (region_span r) + start)\<rparr>"

text \<open>The loop over the lines: \<open>start\<close> is the offset of the next one.\<close>

fun ndjson_loop :: "bool \<Rightarrow> nat \<Rightarrow> str list \<Rightarrow> bool \<Rightarrow> region list \<Rightarrow> region list option" where
  "ndjson_loop primitives start [] saw_line out = (if saw_line then Some out else None)"
| "ndjson_loop primitives start (line # lines) saw_line out =
     (let text = strip_cr line
      in if trim text = [] then ndjson_loop primitives (start + length line + 1) lines saw_line out
         else case parse_json_regions_with text JsonMode primitives of
             None \<Rightarrow> None
           | Some regions \<Rightarrow>
               ndjson_loop primitives (start + length line + 1) lines True
                 (out @ map (shift_region start) regions))"

definition parse_ndjson_regions_with :: "str \<Rightarrow> bool \<Rightarrow> region list option" where
  "parse_ndjson_regions_with raw primitives =
     ndjson_loop primitives 0 (split_on (CHR 0x0A) raw) False []"

definition parse_ndjson_regions :: "str \<Rightarrow> region list option" where
  "parse_ndjson_regions raw = parse_ndjson_regions_with raw False"

definition parse_ndjson_analysis_regions :: "str \<Rightarrow> region list option" where
  "parse_ndjson_analysis_regions raw = parse_ndjson_regions_with raw True"

end
