(* ===== verification/JsonFacts.thy ===== *)
theory JsonFacts
  imports Json
begin

text \<open>
  What the JSON region parser guarantees: every step consumes input, so twice the length of the
  text is enough fuel and more fuel changes nothing; and the regions come in order, lie on
  character boundaries and are the insides of string literals.
\<close>


section \<open>Progress and fuel\<close>

abbreviation left :: "json_cursor \<Rightarrow> nat" where
  "left p \<equiv> length (js_rest p)"

lemma string_len_bound: "string_len s = Some n \<Longrightarrow> n < length s \<and> s ! n = CHR 0x22"
proof (induction s arbitrary: n rule: string_len.induct)
  case (2 c s)
  consider "c = CHR 0x22" | "c = CHR 0x5C" | "c \<noteq> CHR 0x22" "c \<noteq> CHR 0x5C" by blast
  then show ?case
  proof cases
    case 2
    with "2.prems" obtain k m where k: "skip_escape s = Some k" "string_len (drop k s) = Some m"
      "n = 1 + k + m" by (auto split: option.splits)
    from "2.IH"(1) [OF _ 2 k(1) k(2)] 2 have "m < length s - k" "drop k s ! m = CHR 0x22" by auto
    with k(3) show ?thesis by (auto simp: nth_append)
  qed (use 2 in auto)
qed simp

lemma advance_left: "left (json_advance n p) = left p - n"
  by (simp add: json_advance_def)

lemma push_left [simp]: "left (json_push r p) = left p"
  by (simp add: json_push_def)

lemma skip_ws_left: "left (json_skip_ws p) \<le> left p"
  by (simp add: json_skip_ws_def advance_left)

lemma peek_left: "json_peek p = Some c \<Longrightarrow> 0 < left p"
  by (auto simp: json_peek_def split: list.splits)

lemma string_range_left: "json_string_range p = Some (r, q) \<Longrightarrow> left q < left p"
  using string_len_bound by (fastforce simp: json_string_range_def Let_def advance_left)

lemma string_left: "json_string p = Some (r, text, q) \<Longrightarrow> left q < left p"
  using string_range_left
  by (fastforce simp: json_string_def bind_eq_Some_conv Let_def split: if_splits)

lemma number_len_le: "number_len s \<le> length s"
  using length_takeWhile_le [of is_number_byte "drop 1 s"]
  by (cases s) (auto simp: number_len_def Let_def length_takeWhile_le)

lemma after_skip:
  assumes "json_peek (json_skip_ws p) = Some c"
  shows "left (json_advance 1 (json_skip_ws p)) < left p"
proof -
  have "0 < left (json_skip_ws p)" using peek_left [OF assms] .
  with skip_ws_left [of p] show ?thesis unfolding advance_left by linarith
qed

lemma peek_pred: "json_peek (json_skip_ws p) = Some c \<Longrightarrow> left (json_skip_ws p) - 1 < left p"
  using after_skip [of p c] by (simp add: advance_left)

lemma open_cases:
  obtains (head) q where "json_open close head p = head q" "left q \<le> left p - 1"
  | (empty) q where "json_open close head p = Leaf (Parsed q)" "left q \<le> left p - 1"
proof -
  let ?q = "json_skip_ws (json_advance 1 p)"
  have "left ?q \<le> left p - 1" using skip_ws_left [of "json_advance 1 p"] by (simp add: advance_left)
  moreover from this have "left (json_advance 1 ?q) \<le> left p - 1" by (simp add: advance_left)
  moreover have "json_open close head p = (if json_peek ?q = Some close
      then Leaf (Parsed (json_advance 1 ?q)) else head ?q)" by (simp add: json_open_def Let_def)
  ultimately show thesis using that by (cases "json_peek ?q = Some close") auto
qed

lemma literal_left: "json_literal lit p = Parsed q \<Longrightarrow> lit \<noteq> [] \<Longrightarrow> left q < left p"
  using prefix_length_le [of lit "js_rest p"]
  by (cases lit) (auto simp: json_literal_def advance_left split: if_splits)

lemma number_left: "json_number m primitives key hints p = Parsed q \<Longrightarrow> left q < left p"
  using number_len_le [of "js_rest p"]
  by (auto simp: json_number_def Let_def advance_left split: if_splits)

lemma string_value_left: "json_string_value m key hints p = Parsed q \<Longrightarrow> left q < left p"
  using string_range_left [of p] by (cases "json_string_range p") (auto simp: json_string_value_def)

lemma leaf_fuel:
  "json_literal lit p \<noteq> OutOfFuel" "json_number m primitives key hints p \<noteq> OutOfFuel"
  "json_string_value m key hints p \<noteq> OutOfFuel"
  by (auto simp: json_literal_def json_number_def Let_def)
    (cases "json_string_range p"; simp add: json_string_value_def)

lemma begin_cases:
  obtains (reject) "json_begin m primitives key hints depth p = Leaf Rejected"
  | (object) "json_peek (json_skip_ws p) = Some (CHR ''{'')"
      "json_begin m primitives key hints depth p = json_open (CHR ''}'') ObjectHead (json_skip_ws p)"
  | (array) "json_peek (json_skip_ws p) = Some (CHR ''['')"
      "json_begin m primitives key hints depth p = json_open (CHR '']'') ArrayHead (json_skip_ws p)"
  | (string) "json_peek (json_skip_ws p) = Some (CHR 0x22)"
      "json_begin m primitives key hints depth p = Leaf (json_string_value m key hints (json_skip_ws p))"
  | (literal) lit where "lit \<in> {''true'', ''false'', ''null''}"
      "json_begin m primitives key hints depth p = Leaf (json_literal lit (json_skip_ws p))"
  | (number) "json_begin m primitives key hints depth p =
      Leaf (json_number m primitives key hints (json_skip_ws p))"
proof (cases "JSON_MAX_DEPTH < depth")
  case True
  then show thesis by (intro reject) (simp add: json_begin_def)
next
  case False
  show thesis
  proof (cases "json_peek (json_skip_ws p)")
    case None
    then show thesis by (intro reject) (simp add: json_begin_def Let_def)
  next
    case (Some c)
    let ?p = "json_skip_ws p"
    have b: "json_begin m primitives key hints depth p =
       (if c = CHR ''{'' then json_open (CHR ''}'') ObjectHead ?p
        else if c = CHR ''['' then json_open (CHR '']'') ArrayHead ?p
        else if c = CHR 0x22 then Leaf (json_string_value m key hints ?p)
        else if c = CHR ''t'' then Leaf (json_literal ''true'' ?p)
        else if c = CHR ''f'' then Leaf (json_literal ''false'' ?p)
        else if c = CHR ''n'' then Leaf (json_literal ''null'' ?p)
        else Leaf (json_number m primitives key hints ?p))"
      using False by (simp only: json_begin_def Let_def Some option.case if_False)
    consider "c = CHR ''{''" | "c = CHR ''[''" | "c = CHR 0x22" | "c = CHR ''t''" | "c = CHR ''f''"
      | "c = CHR ''n''" | "c \<notin> {CHR ''{'', CHR ''['', CHR 0x22, CHR ''t'', CHR ''f'', CHR ''n''}"
      by blast
    then show thesis
    proof cases
      case 1
      show thesis by (rule object) (use 1 Some b in simp_all)
    next
      case 2
      show thesis by (rule array) (use 2 Some b in simp_all)
    next
      case 3
      show thesis by (rule string) (use 3 Some b in simp_all)
    next
      case 4
      show thesis by (rule literal [of "''true''"]) (use 4 b in simp_all)
    next
      case 5
      show thesis by (rule literal [of "''false''"]) (use 5 b in simp_all)
    next
      case 6
      show thesis by (rule literal [of "''null''"]) (use 6 b in simp_all)
    next
      case 7
      show thesis by (rule number) (use 7 b in simp)
    qed
  qed
qed

lemma begin_left:
  shows "json_begin m primitives key hints depth p = ObjectHead q \<Longrightarrow> left q < left p"
    and "json_begin m primitives key hints depth p = ArrayHead q \<Longrightarrow> left q < left p"
    and "json_begin m primitives key hints depth p = Leaf (Parsed q) \<Longrightarrow> left q < left p"
    and "json_begin m primitives key hints depth p \<noteq> Leaf OutOfFuel"
proof -
  let ?b = "json_begin m primitives key hints depth p" and ?p = "json_skip_ws p"
  have "(\<forall>q. ?b = ObjectHead q \<or> ?b = ArrayHead q \<or> ?b = Leaf (Parsed q) \<longrightarrow> left q < left p) \<and>
      ?b \<noteq> Leaf OutOfFuel"
  proof (cases rule: begin_cases [of m primitives key hints depth p])
    case object
    show ?thesis
      using peek_pred [OF object(1)] unfolding object(2)
      by (cases rule: open_cases [of "CHR ''}''" ObjectHead ?p]) auto
  next
    case array
    show ?thesis
      using peek_pred [OF array(1)] unfolding array(2)
      by (cases rule: open_cases [of "CHR '']''" ArrayHead ?p]) auto
  next
    case (literal lit)
    then have "lit \<noteq> []" by auto
    then show ?thesis
      by (auto simp: literal(2) leaf_fuel intro: less_le_trans [OF literal_left skip_ws_left])
  next
    case string
    then show ?thesis
      by (auto simp: leaf_fuel intro: less_le_trans [OF string_value_left skip_ws_left])
  next
    case number
    then show ?thesis
      by (auto simp: leaf_fuel intro: less_le_trans [OF number_left skip_ws_left])
  qed simp
  then show "?b = ObjectHead q \<Longrightarrow> left q < left p" "?b = ArrayHead q \<Longrightarrow> left q < left p"
    "?b = Leaf (Parsed q) \<Longrightarrow> left q < left p" "?b \<noteq> Leaf OutOfFuel" by blast+
qed

lemma key_left:
  assumes "json_key m p = Parsed (key, q)"
  shows "left q < left p"
proof -
  from assms obtain r p' where "json_string (json_skip_ws p) = Some (r, key, p')"
    "q = json_skip_ws (json_advance 1 (json_skip_ws
       (if m = ToolResultMode then json_push (json_region m None [] JsonKey r) p' else p')))"
    by (auto simp: json_key_def Let_def split: if_splits option.splits)
  then have "left p' < left (json_skip_ws p)" "left q \<le> left p'"
    using string_left skip_ws_left
    by (fastforce simp: advance_left intro: le_trans [OF skip_ws_left] le_trans [OF diff_le_self])+
  with skip_ws_left [of p] show ?thesis by linarith
qed

lemma key_fuel: "json_key m p \<noteq> OutOfFuel"
  by (auto simp: json_key_def Let_def split: option.splits)

lemma sibling_left: "json_sibling m key p = Parsed (text, q) \<Longrightarrow> left q < left p"
  using string_left [of p] by (cases "json_string p") (auto simp: json_sibling_def)

lemma sibling_fuel: "json_sibling m key p \<noteq> OutOfFuel"
  by (cases "json_string p") (auto simp: json_sibling_def)

lemma after_left:
  shows "json_after close p = Again q \<Longrightarrow> left q < left p"
    and "json_after close p = Close q \<Longrightarrow> left q < left p"
  using after_skip [of p] by (auto simp: json_after_def Let_def split: option.splits if_splits)

lemma parse_then_Parsed: "parse_then x f = Parsed y \<longleftrightarrow> (\<exists>a. x = Parsed a \<and> f a = Parsed y)"
  by (cases x) auto

lemma parse_then_fuel:
  "parse_then x f = OutOfFuel \<longleftrightarrow> x = OutOfFuel \<or> (\<exists>a. x = Parsed a \<and> f a = OutOfFuel)"
  by (cases x) auto

lemma finish_left [simp]: "left (finish_object ms p) = left p"
  by (simp add: finish_object_def)

text \<open>The member of an object after its key.\<close>

definition json_member ::
    "json_region_mode \<Rightarrow> bool \<Rightarrow> nat \<Rightarrow> nat \<Rightarrow> json_members \<Rightarrow> str \<Rightarrow> json_cursor \<Rightarrow>
     (json_members \<times> json_cursor) parse" where
  "json_member m primitives fuel depth ms key p =
     (if is_sibling_member key p
      then parse_then (json_sibling m key p) (\<lambda>found. Parsed (note_sibling ms found))
      else parse_then (json_value m primitives fuel (Some key) [] depth p) (\<lambda>q.
        Parsed (note_value key p ms q)))"

lemma json_object_Suc:
  "json_object m primitives (Suc fuel) depth ms p =
     parse_then (json_key m p) (\<lambda>(key, p).
     parse_then (json_member m primitives fuel depth ms key p)
       (\<lambda>(ms, p). case json_after (CHR ''}'') p of
            Again p \<Rightarrow> json_object m primitives fuel depth ms p
          | Close p \<Rightarrow> Parsed (finish_object ms p)
          | Broken \<Rightarrow> Rejected))"
  by (simp add: json_member_def)

declare json_object.simps(2) [simp del]

lemmas json_steps = json_value.simps json_object.simps(1) json_object_Suc json_array.simps

lemma json_object_cases:
  assumes "json_object m primitives (Suc fuel) depth ms p = Parsed q"
  obtains (again) key p1 ms1 p2 p3 where "json_key m p = Parsed (key, p1)"
    "json_member m primitives fuel depth ms key p1 = Parsed (ms1, p2)"
    "json_after (CHR ''}'') p2 = Again p3" "json_object m primitives fuel depth ms1 p3 = Parsed q"
  | (close) key p1 ms1 p2 p3 where "json_key m p = Parsed (key, p1)"
    "json_member m primitives fuel depth ms key p1 = Parsed (ms1, p2)"
    "json_after (CHR ''}'') p2 = Close p3" "q = finish_object ms1 p3"
proof -
  from assms obtain key p1 ms1 p2 where k: "json_key m p = Parsed (key, p1)"
    "json_member m primitives fuel depth ms key p1 = Parsed (ms1, p2)"
    "(case json_after (CHR ''}'') p2 of
        Again p \<Rightarrow> json_object m primitives fuel depth ms1 p
      | Close p \<Rightarrow> Parsed (finish_object ms1 p)
      | Broken \<Rightarrow> Rejected) = Parsed q"
    unfolding json_object_Suc by (fastforce simp: parse_then_Parsed)
  then show thesis using again close by (cases "json_after (CHR ''}'') p2") auto
qed

lemma json_member_cases:
  assumes "json_member m primitives fuel depth ms key p = Parsed (ms1, q)"
  obtains (sibling) v where "is_sibling_member key p" "json_sibling m key p = Parsed (v, q)"
    "ms1 = (fst ms @ [v], snd ms)"
  | (val) "\<not> is_sibling_member key p"
    "json_value m primitives fuel (Some key) [] depth p = Parsed q"
    "ms1 = fst (note_value key p ms q)"
  using assms by (auto simp: json_member_def parse_then_Parsed note_sibling_def note_value_def
      split: if_splits)

lemma json_array_cases:
  assumes "json_array m primitives (Suc fuel) key hints depth p = Parsed q"
  obtains (again) p1 p2 where "json_value m primitives fuel key hints depth p = Parsed p1"
    "json_after (CHR '']'') p1 = Again p2" "json_array m primitives fuel key hints depth p2 = Parsed q"
  | (close) p1 where "json_value m primitives fuel key hints depth p = Parsed p1"
    "json_after (CHR '']'') p1 = Close q"
proof -
  from assms obtain p1 where k: "json_value m primitives fuel key hints depth p = Parsed p1"
    "(case json_after (CHR '']'') p1 of
        Again p \<Rightarrow> json_array m primitives fuel key hints depth p
      | Close p \<Rightarrow> Parsed p
      | Broken \<Rightarrow> Rejected) = Parsed q"
    unfolding json_array.simps parse_then_Parsed by auto
  then show thesis using again close by (cases "json_after (CHR '']'') p1") auto
qed

lemma json_value_cases:
  assumes "json_value m primitives (Suc fuel) key hints depth p = Parsed q"
  obtains (leaf) "json_begin m primitives key hints depth p = Leaf (Parsed q)"
  | (object) p1 where "json_begin m primitives key hints depth p = ObjectHead p1"
    "json_object m primitives fuel (depth + 1) ([], []) p1 = Parsed q"
  | (array) p1 where "json_begin m primitives key hints depth p = ArrayHead p1"
    "json_array m primitives fuel key hints (depth + 1) p1 = Parsed q"
  using assms by (auto simp: json_steps split: json_head.split_asm)

lemma json_progress:
  "json_value m primitives fuel key hints depth p = Parsed q \<Longrightarrow> left q < left p"
  "json_object m primitives fuel depth ms p = Parsed q \<Longrightarrow> left q < left p"
  "json_array m primitives fuel key hints depth p = Parsed q \<Longrightarrow> left q < left p"
proof (induction fuel arbitrary: key hints depth p q ms)
  case (Suc fuel)
  have member: "left p2 < left p1"
    if "json_member m primitives fuel depth ms key p1 = Parsed (ms1, p2)" for depth ms key p1 ms1 p2
    using that by (cases rule: json_member_cases) (auto dest: sibling_left Suc.IH(1))
  {
    case 1
    then show ?case
      by (cases rule: json_value_cases)
        (auto dest: begin_left(1,2,3) Suc.IH(2,3) intro: less_trans)
  next
    case 2
    then show ?case
      by (cases rule: json_object_cases)
        (auto dest!: key_left member after_left Suc.IH(2))
  next
    case 3
    then show ?case
      by (cases rule: json_array_cases) (auto dest!: after_left Suc.IH(1,3))
  }
qed simp_all

lemma json_enough_fuel:
  "2 * left p < fuel \<Longrightarrow> json_value m primitives fuel key hints depth p \<noteq> OutOfFuel"
  "2 * left p < fuel \<Longrightarrow> json_object m primitives fuel depth ms p \<noteq> OutOfFuel"
  "2 * left p + 1 < fuel \<Longrightarrow> json_array m primitives fuel key hints depth p \<noteq> OutOfFuel"
proof (induction fuel arbitrary: key hints depth p ms)
  case (Suc fuel)
  {
    case 1
    show ?case
    proof (cases "json_begin m primitives key hints depth p")
      case (Leaf r)
      then show ?thesis using begin_left(4) [of m primitives key hints depth p] by (auto simp: json_steps)
    next
      case (ObjectHead q)
      then show ?thesis using begin_left(1) [OF ObjectHead] Suc.IH(2) [of q] 1 by (simp add: json_steps)
    next
      case (ArrayHead q)
      then show ?thesis using begin_left(2) [OF ArrayHead] Suc.IH(3) [of q] 1 by (simp add: json_steps)
    qed
  next
    case 2
    have member: "json_member m primitives fuel depth ms key p1 \<noteq> OutOfFuel"
      if "left p1 < left p" for key p1
      using Suc.IH(1) [of p1] that 2
      by (auto simp: json_member_def parse_then_fuel sibling_fuel)
    have again: "json_object m primitives fuel depth ms1 p3 \<noteq> OutOfFuel"
      if "left p1 < left p" "json_member m primitives fuel depth ms key p1 = Parsed (ms1, p2)"
        "json_after (CHR ''}'') p2 = Again p3" for key p1 ms1 p2 p3
    proof -
      from that(2) have "left p2 < left p1"
        by (cases rule: json_member_cases) (auto dest: sibling_left json_progress(1))
      with after_left(1) [OF that(3)] that(1) 2 show ?thesis by (intro Suc.IH(2)) linarith
    qed
    show ?case
      unfolding json_object_Suc
      by (auto simp: parse_then_fuel key_fuel split: json_next.splits
          dest: key_left member again)
  next
    case 3
    then show ?case
      using Suc.IH(1) [of p]
      by (auto simp: json_steps parse_then_fuel split: json_next.splits
          dest!: after_left(1) json_progress(1) intro!: Suc.IH(3))
  }
qed simp_all

text \<open>More fuel does not change a result.\<close>

lemma json_more_fuel:
  "json_value m primitives fuel key hints depth p \<noteq> OutOfFuel \<Longrightarrow>
     json_value m primitives (Suc fuel) key hints depth p = json_value m primitives fuel key hints depth p"
  "json_object m primitives fuel depth ms p \<noteq> OutOfFuel \<Longrightarrow>
     json_object m primitives (Suc fuel) depth ms p = json_object m primitives fuel depth ms p"
  "json_array m primitives fuel key hints depth p \<noteq> OutOfFuel \<Longrightarrow>
     json_array m primitives (Suc fuel) key hints depth p = json_array m primitives fuel key hints depth p"
proof (induction fuel arbitrary: key hints depth p ms)
  case (Suc fuel)
  have cong: "parse_then x f = parse_then y g"
    if "parse_then y g \<noteq> OutOfFuel" "y \<noteq> OutOfFuel \<Longrightarrow> x = y"
      "\<And>a. y = Parsed a \<Longrightarrow> g a \<noteq> OutOfFuel \<Longrightarrow> f a = g a"
    for x y :: "'x parse" and f g :: "'x \<Rightarrow> 'y parse"
    using that by (cases y) auto
  have member: "json_member m primitives (Suc fuel) depth ms key p1 = json_member m primitives fuel depth ms key p1"
    if "json_member m primitives fuel depth ms key p1 \<noteq> OutOfFuel" for depth ms key p1
    using that Suc.IH(1) unfolding json_member_def by (auto simp: parse_then_fuel)
  {
    case 1
    then show ?case
      using Suc.IH(2,3) by (subst (1 2) json_value.simps) (auto simp: json_steps split: json_head.splits)
  next
    case 2
    then show ?case
      unfolding json_object_Suc [of m primitives "Suc fuel" depth ms p]
        json_object_Suc [of m primitives fuel depth ms p]
      by (auto intro!: cong member Suc.IH(2) split: json_next.splits)
  next
    case 3
    then show ?case
      unfolding json_array.simps(2) [of m primitives "Suc fuel" key hints depth p]
        json_array.simps(2) [of m primitives fuel key hints depth p]
      by (auto simp del: json_value.simps json_array.simps intro!: cong Suc.IH(1,3)
          split: json_next.splits)
  }
qed simp_all


section \<open>Where the regions lie\<close>

text \<open>A region is the inside of a string literal, or in the analysis mode a number.\<close>

definition literal_at :: "str \<Rightarrow> byte_range \<Rightarrow> bool" where
  "literal_at b r \<longleftrightarrow>
     0 < rstart r \<and> rstart r \<le> length b \<and> b ! (rstart r - 1) = CHR 0x22 \<and> rstart r \<le> rend r \<and>
     string_len (drop (rstart r) b) = Some (rend r - rstart r)"

definition number_at :: "str \<Rightarrow> byte_range \<Rightarrow> bool" where
  "number_at b r \<longleftrightarrow>
     rstart r < rend r \<and> rend r \<le> length b \<and> list_all is_number_byte (subtext b (rstart r) (rend r))"

definition placed_in :: "str \<Rightarrow> bool \<Rightarrow> nat \<Rightarrow> byte_range list \<Rightarrow> bool" where
  "placed_in b primitives hi rs \<longleftrightarrow>
     sorted_wrt (\<lambda>r s. rend r \<le> rstart s) rs \<and>
     list_all (\<lambda>r. rend r \<le> hi \<and> (literal_at b r \<or> primitives \<and> number_at b r)) rs"

definition cursor_ok :: "str \<Rightarrow> bool \<Rightarrow> json_cursor \<Rightarrow> bool" where
  "cursor_ok b primitives p \<longleftrightarrow>
     js_i p \<le> length b \<and> js_rest p = drop (js_i p) b \<and>
     placed_in b primitives (js_i p) (map region_span (js_out p))"

text \<open>A step that keeps the cursor in order and only adds regions.\<close>

definition onward :: "str \<Rightarrow> bool \<Rightarrow> json_cursor \<Rightarrow> json_cursor \<Rightarrow> bool" where
  "onward b primitives p q \<longleftrightarrow>
     (cursor_ok b primitives p \<longrightarrow>
      cursor_ok b primitives q \<and> length (js_out p) \<le> length (js_out q))"

lemma onward_trans [trans]: "onward b pr p q \<Longrightarrow> onward b pr q r \<Longrightarrow> onward b pr p r"
  by (auto simp: onward_def)

lemma placed_in_mono: "placed_in b pr hi rs \<Longrightarrow> hi \<le> hi' \<Longrightarrow> placed_in b pr hi' rs"
  unfolding placed_in_def list_all_iff by (meson le_trans)

lemma onward_advance: "n \<le> left p \<Longrightarrow> onward b pr p (json_advance n p)"
  by (auto simp: onward_def cursor_ok_def json_advance_def add.commute intro: placed_in_mono)

lemma onward_skip_ws: "onward b pr p (json_skip_ws p)"
  by (simp add: json_skip_ws_def onward_advance length_takeWhile_le)

lemma onward_peek: "json_peek p = Some c \<Longrightarrow> onward b pr p (json_advance 1 p)"
  using peek_left [of p c] by (intro onward_advance) linarith

lemma placed_in_snoc:
  assumes "placed_in b pr lo rs" and "lo \<le> rstart r" and "rend r \<le> hi" and "lo \<le> hi"
    and "literal_at b r \<or> pr \<and> number_at b r"
  shows "placed_in b pr hi (rs @ [r])"
  using assms unfolding placed_in_def list_all_iff sorted_wrt_append by (force intro: le_trans)

lemma range_new_fields [simp]: "rstart (range_new a c) = a" "rend (range_new a c) = c"
  by (simp_all add: range_new_def)

text \<open>Scanning a literal and reporting it.\<close>

lemma onward_string:
  assumes "json_peek p = Some (CHR 0x22)" and "json_string_range p = Some (r, q)"
  shows "onward b pr p q" and "onward b pr p (json_push (json_region m key hints k r) q)"
proof -
  have range: "string_len (drop 1 (js_rest p)) = Some (rend r - rstart r)" "rstart r \<le> rend r"
    "rstart r = Suc (js_i p)" "q = json_advance (Suc (rend r - rstart r)) (json_advance 1 p)"
    using assms(2) by (auto simp: json_string_range_def Let_def json_advance_def)
  have fits: "rend r - rstart r < left p - 1" using string_len_bound [OF range(1)] by simp
  show "onward b pr p q"
    unfolding range(4) using fits
    by (intro onward_trans [OF onward_peek [OF assms(1)] onward_advance]) (simp add: advance_left)
  moreover have "cursor_ok b pr (json_push (json_region m key hints k r) q)"
    if ok: "cursor_ok b pr p" "cursor_ok b pr q"
  proof -
    have rest: "js_rest p = drop (js_i p) b" "js_i p < length b" "b ! js_i p = CHR 0x22"
      using ok(1) assms(1) by (auto simp: cursor_ok_def json_peek_def split: list.splits)
        (metis drop_all linorder_not_le list.simps(3), metis hd_drop_conv_nth list.sel(1) drop_all
          linorder_not_le list.simps(3))
    then have "literal_at b r" using range by (auto simp: literal_at_def)
    moreover have "js_i q = Suc (rend r)" "js_out q = js_out p"
      using range by (simp_all add: json_advance_def)
    ultimately show ?thesis
      using ok range(3) placed_in_snoc [of b pr "js_i p" "map region_span (js_out p)" r "js_i q"] range(2)
      by (auto simp: cursor_ok_def json_push_def json_region_def)
  qed
  ultimately show "onward b pr p (json_push (json_region m key hints k r) q)"
    by (auto simp: onward_def json_push_def)
qed

lemma json_string_range_of: "json_string p = Some (r, text, q) \<Longrightarrow> json_string_range p = Some (r, q)"
  by (auto simp: json_string_def bind_eq_Some_conv Let_def split: if_splits)

lemma onward_string_value:
  assumes "json_peek p = Some (CHR 0x22)" and "json_string_value m key hints p = Parsed q"
  shows "onward b pr p q"
  using onward_string(2) [OF assms(1)] assms(2)
  by (cases "json_string_range p") (auto simp: json_string_value_def)

lemma onward_sibling:
  assumes "is_sibling_member key p" and "json_sibling m key p = Parsed (v, q)"
  shows "onward b pr p q"
  using assms onward_string(2) json_string_range_of
  by (cases "json_string p") (auto simp: json_sibling_def is_sibling_member_def)

lemma onward_literal: "json_literal lit p = Parsed q \<Longrightarrow> onward b pr p q"
  by (auto simp: json_literal_def dest: prefix_length_le intro: onward_advance split: if_splits)

lemma number_len_bytes: "list_all is_number_byte (take (number_len s) s)"
proof (cases s)
  case (Cons c t)
  have "list_all is_number_byte (takeWhile is_number_byte u)" for u
    by (auto simp: list_all_iff dest: set_takeWhileD)
  moreover have "take (length (takeWhile is_number_byte u)) u = takeWhile is_number_byte u" for u
    by (metis takeWhile_eq_take)
  ultimately show ?thesis using Cons by (auto simp: number_len_def Let_def is_number_byte_def)
qed (simp add: number_len_def)

lemma onward_number:
  assumes "json_number m pr key hints p = Parsed q"
  shows "onward b pr p q"
proof -
  let ?n = "number_len (js_rest p)" let ?a = "json_advance ?n p"
  have n: "0 < ?n" "q = (if pr then json_push
      (json_region m key hints JsonValue (range_new (js_i p) (js_i ?a))) ?a else ?a)"
    using assms by (auto simp: json_number_def Let_def split: if_splits)
  have a: "onward b pr p ?a" using number_len_le by (rule onward_advance)
  have "cursor_ok b pr q" if ok: "cursor_ok b pr p" "cursor_ok b pr ?a" "pr"
  proof -
    have "number_at b (range_new (js_i p) (js_i ?a))"
      using ok n(1) number_len_bytes [of "js_rest p"] number_len_le [of "js_rest p"]
      by (auto simp: number_at_def cursor_ok_def json_advance_def subtext_def)
    then show ?thesis
      using ok n placed_in_snoc [of b pr "js_i p" "map region_span (js_out p)"
          "range_new (js_i p) (js_i ?a)" "js_i ?a"]
      by (auto simp: cursor_ok_def json_push_def json_region_def json_advance_def)
  qed
  with a show ?thesis by (auto simp: onward_def n(2) json_push_def)
qed

lemma onward_open:
  assumes "json_peek p = Some c"
  shows "json_open close head p = head q \<Longrightarrow> inj head \<Longrightarrow> (\<And>r. head q \<noteq> Leaf r) \<Longrightarrow> onward b pr p q"
    and "json_open close head p = Leaf (Parsed q) \<Longrightarrow> (\<And>q r. head q \<noteq> Leaf r) \<Longrightarrow> onward b pr p q"
proof -
  let ?q = "json_skip_ws (json_advance 1 p)"
  have q: "onward b pr p ?q" using onward_peek [OF assms] onward_skip_ws by (rule onward_trans)
  have split: "json_open close head p = (if json_peek ?q = Some close
      then Leaf (Parsed (json_advance 1 ?q)) else head ?q)" by (simp add: json_open_def Let_def)
  show "onward b pr p q" if "json_open close head p = head q" "inj head" "\<And>r. head q \<noteq> Leaf r"
    using q that unfolding split by (metis injD)
  show "onward b pr p q" if "json_open close head p = Leaf (Parsed q)" "\<And>q r. head q \<noteq> Leaf r"
    using q that onward_peek onward_trans unfolding split
    by (cases "json_peek ?q = Some close") fastforce+
qed

lemma onward_begin:
  shows "json_begin m pr key hints depth p = ObjectHead q \<Longrightarrow> onward b pr p q"
    and "json_begin m pr key hints depth p = ArrayHead q \<Longrightarrow> onward b pr p q"
    and "json_begin m pr key hints depth p = Leaf (Parsed q) \<Longrightarrow> onward b pr p q"
proof -
  let ?b = "json_begin m pr key hints depth p" and ?p = "json_skip_ws p"
  have skip: "onward b pr p ?p" by (rule onward_skip_ws)
  have "?b = ObjectHead q \<or> ?b = ArrayHead q \<or> ?b = Leaf (Parsed q) \<longrightarrow> onward b pr ?p q"
  proof (cases rule: begin_cases [of m pr key hints depth p])
    case object
    show ?thesis
      using onward_open [OF object(1), of "CHR ''}''" ObjectHead q b pr] unfolding object(2)
      by (auto simp: inj_def json_open_def Let_def)
  next
    case array
    show ?thesis
      using onward_open [OF array(1), of "CHR '']''" ArrayHead q b pr] unfolding array(2)
      by (auto simp: inj_def json_open_def Let_def)
  qed (auto intro: onward_string_value onward_literal onward_number)
  then show "?b = ObjectHead q \<Longrightarrow> onward b pr p q" "?b = ArrayHead q \<Longrightarrow> onward b pr p q"
    "?b = Leaf (Parsed q) \<Longrightarrow> onward b pr p q" using onward_trans [OF skip] by blast+
qed

lemma onward_after:
  shows "json_after close p = Again q \<Longrightarrow> onward b pr p q"
    and "json_after close p = Close q \<Longrightarrow> onward b pr p q"
  using onward_trans [OF onward_skip_ws onward_peek]
  by (auto simp: json_after_def Let_def split: option.splits if_splits)

lemma onward_key:
  assumes "json_key m p = Parsed (key, q)"
  shows "onward b pr p q"
proof -
  from assms obtain r p' where s: "json_peek (json_skip_ws p) = Some (CHR 0x22)"
    "json_string (json_skip_ws p) = Some (r, key, p')"
    and p': "json_peek (json_skip_ws (if m = ToolResultMode then json_push (json_region m None [] JsonKey r) p' else p'))
      = Some (CHR '':'')"
    and q: "q = json_skip_ws (json_advance 1 (json_skip_ws
       (if m = ToolResultMode then json_push (json_region m None [] JsonKey r) p' else p')))"
    by (auto simp: json_key_def Let_def split: if_splits option.splits)
  let ?p' = "if m = ToolResultMode then json_push (json_region m None [] JsonKey r) p' else p'"
  have "onward b pr p (json_skip_ws p)" by (rule onward_skip_ws)
  also have "onward b pr (json_skip_ws p) ?p'"
    using onward_string [OF s(1) json_string_range_of [OF s(2)]] by simp
  also have "onward b pr ?p' (json_skip_ws ?p')" by (rule onward_skip_ws)
  also have "onward b pr (json_skip_ws ?p') (json_advance 1 (json_skip_ws ?p'))"
    by (rule onward_peek [OF p'])
  also have "onward b pr (json_advance 1 (json_skip_ws ?p')) q" unfolding q by (rule onward_skip_ws)
  finally show ?thesis .
qed

lemma add_hints_span [simp]: "region_span (add_hints hints r) = region_span r"
  by (auto simp: add_hints_def split: option.splits)

lemma hint_values_spans:
  assumes "list_all (\<lambda>(s, e). s \<le> e) values"
  shows "map region_span (hint_values hints values out) = map region_span out"
proof -
  have one: "map region_span (take s out @ map (add_hints hints) (take (e - s) (drop s out)) @ drop e out)
      = map region_span out" if "s \<le> e" for s e and out :: "region list"
  proof -
    have "take s out @ take (e - s) (drop s out) @ drop e out = out"
      using that by (metis append_assoc append_take_drop_id le_add_diff_inverse take_add)
    from arg_cong [OF this, of "map region_span"] show ?thesis by (simp add: comp_def)
  qed
  have "map region_span (foldl (\<lambda>out (start, end). take start out
      @ map (add_hints hints) (take (end - start) (drop start out)) @ drop end out) out values) =
      map region_span out"
    using assms
  proof (induction "values" arbitrary: out)
    case (Cons v vs)
    obtain s e where v: "v = (s, e)" "s \<le> e" using Cons.prems by (cases v) auto
    from Cons.IH [of "take s out @ map (add_hints hints) (take (e - s) (drop s out)) @ drop e out"]
    show ?case using Cons.prems one [OF v(2)] by (simp add: v)
  qed simp
  then show ?thesis by (simp add: hint_values_def)
qed

lemma onward_finish:
  assumes "list_all (\<lambda>(s, e). s \<le> e) (snd ms)"
  shows "onward b pr p (finish_object ms p)"
proof -
  note spans = hint_values_spans [OF assms, of "fst ms" "js_out p"]
  moreover from arg_cong [OF this, of length]
  have "length (hint_values (fst ms) (snd ms) (js_out p)) = length (js_out p)" by simp
  ultimately show ?thesis by (simp add: onward_def cursor_ok_def finish_object_def)
qed

lemma json_onward:
  "json_value m pr fuel key hints depth p = Parsed q \<Longrightarrow> onward b pr p q"
  "json_object m pr fuel depth ms p = Parsed q \<Longrightarrow> cursor_ok b pr p \<Longrightarrow>
     list_all (\<lambda>(s, e). s \<le> e) (snd ms) \<Longrightarrow> onward b pr p q"
  "json_array m pr fuel key hints depth p = Parsed q \<Longrightarrow> onward b pr p q"
proof (induction fuel arbitrary: key hints depth p q ms)
  case (Suc fuel)
  have member: "onward b pr p1 p2 \<and> (cursor_ok b pr p1 \<longrightarrow> list_all (\<lambda>(s, e). s \<le> e) (snd ms1))"
    if "json_member m pr fuel depth ms key p1 = Parsed (ms1, p2)"
      "list_all (\<lambda>(s, e). s \<le> e) (snd ms)" for depth ms key p1 ms1 p2
    using that(1)
  proof (cases rule: json_member_cases)
    case (sibling v)
    then show ?thesis using onward_sibling that(2) by auto
  next
    case val
    from Suc.IH(1) [OF val(2)] val(3) that(2) show ?thesis
      by (auto simp: note_value_def onward_def)
  qed
  {
    case 1
    then show ?case
    proof (cases rule: json_value_cases)
      case leaf
      then show ?thesis by (rule onward_begin(3))
    next
      case (object p1)
      have "onward b pr p p1" by (rule onward_begin(1) [OF object(1)])
      then show ?thesis using Suc.IH(2) [OF object(2)] by (auto simp: onward_def)
    next
      case (array p1)
      from onward_begin(2) [OF array(1)] Suc.IH(3) [OF array(2)] show ?thesis by (rule onward_trans)
    qed
  next
    case 2
    from 2(1) show ?case
    proof (cases rule: json_object_cases)
      case (again k p1 ms1 p2 p3)
      from onward_key [OF again(1), of b pr] 2(2) have ok1: "cursor_ok b pr p1" by (simp add: onward_def)
      note m = member [OF again(2) 2(3)]
      have step: "onward b pr p p3"
        using onward_key [OF again(1)] m onward_after(1) [OF again(3)] by (blast intro: onward_trans)
      with 2(2) have "cursor_ok b pr p3" by (simp add: onward_def)
      from Suc.IH(2) [OF again(4) this] m ok1 step show ?thesis by (blast intro: onward_trans)
    next
      case (close k p1 ms1 p2 p3)
      from onward_key [OF close(1), of b pr] 2(2) have ok1: "cursor_ok b pr p1" by (simp add: onward_def)
      note m = member [OF close(2) 2(3)]
      have "onward b pr p p3"
        using onward_key [OF close(1)] m onward_after(2) [OF close(3)] by (blast intro: onward_trans)
      with onward_finish m ok1 show ?thesis unfolding close(4) by (blast intro: onward_trans)
    qed
  next
    case 3
    then show ?case
      by (cases rule: json_array_cases)
        (blast intro: onward_trans Suc.IH(1,3) onward_after)+
  }
qed simp_all

lemma json_start_ok:
  "cursor_ok raw pr (json_start raw)"
proof -
  let ?p = "\<lparr>js_i = 0, js_rest = raw, js_out = []\<rparr>"
  have "cursor_ok raw pr ?p" by (simp add: cursor_ok_def placed_in_def)
  moreover have "onward raw pr ?p (json_start raw)"
    unfolding json_start_def
    by (rule onward_trans [OF onward_advance onward_skip_ws])
      (auto simp: BOM_def dest: prefix_length_le)
  ultimately show ?thesis by (simp add: onward_def)
qed

lemma json_regions_in_order:
  assumes "parse_json_regions_with raw m pr = Some rs"
  shows "placed_in raw pr (length raw) (map region_span rs)"
proof -
  from assms obtain p where p: "json_value m pr (json_fuel raw) None [] 0 (json_start raw) = Parsed p"
    "rs = js_out p"
    by (auto simp: parse_json_regions_with_def split: parse.splits if_splits)
  have "cursor_ok raw pr p" using json_onward(1) [OF p(1), of raw] json_start_ok by (simp add: onward_def)
  then show ?thesis unfolding p(2) cursor_ok_def by (blast intro: placed_in_mono)
qed

section \<open>Regions of a valid text\<close>

definition region_in :: "str \<Rightarrow> byte_range \<Rightarrow> bool" where
  "region_in raw r \<longleftrightarrow>
     rstart r \<le> rend r \<and> rend r \<le> length raw \<and> is_char_boundary raw (rstart r) \<and>
     is_char_boundary raw (rend r)"

lemma quote_boundaries:
  assumes "utf8_valid raw" and "i < length raw" and "raw ! i = CHR 0x22"
  shows "is_char_boundary raw i" "is_char_boundary raw (Suc i)"
  using utf8_boundary_after_ascii [OF assms(1,2)] assms(3) by (simp_all add: is_ascii_def)

lemma literal_in:
  assumes "utf8_valid raw" and "literal_at raw r"
  shows "region_in raw r"
proof -
  note lit = assms(2) [unfolded literal_at_def]
  then have "rend r - rstart r < length (drop (rstart r) raw)"
    "drop (rstart r) raw ! (rend r - rstart r) = CHR 0x22"
    using string_len_bound by blast+
  with lit have "rend r < length raw" "raw ! rend r = CHR 0x22" by auto
  moreover have "is_char_boundary raw (Suc (rstart r - 1))"
    using lit quote_boundaries(2) [OF assms(1), of "rstart r - 1"] \<open>rend r < length raw\<close> by auto
  ultimately show ?thesis
    using quote_boundaries(1) [OF assms(1)] lit by (simp add: region_in_def)
qed

lemma number_byte_ascii: "is_number_byte c \<Longrightarrow> is_ascii c"
  by (auto simp: is_number_byte_def is_ascii_digit_def byte_between_def is_ascii_def)

lemma number_in:
  assumes "utf8_valid raw" and "number_at raw r"
  shows "region_in raw r"
proof -
  note num = assms(2) [unfolded number_at_def]
  have ascii: "is_ascii (raw ! (rstart r + k))" if "k < rend r - rstart r" for k
    using num that number_byte_ascii by (auto simp: list_all_length subtext_def)
  have "is_char_boundary raw (rstart r)"
    using utf8_boundary_after_ascii(1) [OF assms(1), of "rstart r"] ascii [of 0] num by simp
  moreover have "is_char_boundary raw (Suc (rend r - 1))"
    using ascii [of "rend r - 1 - rstart r"] num
    by (intro utf8_boundary_after_ascii(2) [OF assms(1)]) auto
  ultimately show ?thesis using num by (simp add: region_in_def)
qed

lemma start_left: "left (json_start raw) \<le> length raw"
  unfolding json_start_def by (rule order.trans [OF skip_ws_left]) (simp add: advance_left)

lemma placed_region_in:
  assumes "placed_in raw pr hi rs" and "utf8_valid raw" and "r \<in> set rs"
  shows "region_in raw r"
  using assms literal_in number_in by (auto simp: placed_in_def list_all_iff)


section \<open>NDJSON\<close>

lemma skip_escape_append: "skip_escape s = Some k \<Longrightarrow> skip_escape (s @ t) = Some k \<and> k \<le> length s"
  by (cases s) (auto simp: skip_escape_def split: if_splits)

lemma string_len_append: "string_len s = Some n \<Longrightarrow> string_len (s @ t) = Some n"
proof (induction s arbitrary: n rule: string_len.induct)
  case (2 c s)
  consider "c = CHR 0x22" | "c = CHR 0x5C" | "c \<noteq> CHR 0x22" "c \<noteq> CHR 0x5C" by blast
  then show ?case
  proof cases
    case 2
    with "2.prems" obtain k m where k: "skip_escape s = Some k" "string_len (drop k s) = Some m"
      "n = 1 + k + m" by (auto split: option.splits)
    from "2.IH"(1) [OF _ 2 k(1) k(2)] 2 have "string_len (drop k s @ t) = Some m" by simp
    then show ?thesis using 2 k skip_escape_append [OF k(1), of t] by simp
  qed (use 2 in auto)
qed simp

lemma literal_at_shift:
  assumes "literal_at piece r"
  shows "literal_at (pre @ piece @ post) (range_new (rstart r + length pre) (rend r + length pre))"
proof -
  note lit = assms [unfolded literal_at_def]
  then have "string_len (drop (rstart r) piece @ post) = Some (rend r - rstart r)"
    using string_len_append by blast
  with lit show ?thesis by (auto simp: literal_at_def nth_append)
qed

lemma number_at_shift:
  assumes "number_at piece r"
  shows "number_at (pre @ piece @ post) (range_new (rstart r + length pre) (rend r + length pre))"
  using assms by (auto simp: number_at_def subtext_def)

lemma placed_in_shift:
  assumes "placed_in piece pr hi rs"
  shows "placed_in (pre @ piece @ post) pr (hi + length pre)
    (map (\<lambda>r. range_new (rstart r + length pre) (rend r + length pre)) rs)"
  using assms literal_at_shift number_at_shift
  by (auto simp: placed_in_def list_all_iff sorted_wrt_map)

lemma placed_in_append:
  assumes "placed_in b pr lo rs" and "placed_in b pr hi ss" and "lo \<le> hi"
    and "list_all (\<lambda>s. lo \<le> rstart s) ss"
  shows "placed_in b pr hi (rs @ ss)"
  using assms unfolding placed_in_def list_all_iff sorted_wrt_append by (force intro: le_trans)


lemma ndjson_loop_placed:
  assumes "ndjson_loop pr (length pre) lines saw out = Some rs"
    and "placed_in raw pr lo (map region_span out)" and "lo \<le> length pre"
    and "raw = pre @ join_on (CHR 0x0A) lines"
  shows "placed_in raw pr (length raw) (map region_span rs)"
  using assms
proof (induction lines arbitrary: pre saw out lo)
  case Nil
  then show ?case by (auto split: if_splits intro: placed_in_mono)
next
  case (Cons line lines)
  obtain t where t: "line = strip_cr line @ t" using strip_cr_prefix by blast
  obtain post where post: "raw = pre @ line @ post"
    using Cons.prems(4) by (cases "lines = []") (auto simp: join_on_Cons)
  obtain out' saw' where step: "ndjson_loop pr (length pre + length line + 1) lines saw' out' = Some rs"
    "placed_in raw pr (length pre + length line) (map region_span out')"
  proof (cases "trim (strip_cr line) = []")
    case True
    show thesis
      by (rule that [of saw out]) (use Cons.prems True placed_in_mono in \<open>auto simp: Let_def\<close>)
  next
    case False
    then obtain regions where regions: "parse_json_regions_with (strip_cr line) JsonMode pr = Some regions"
      "ndjson_loop pr (length pre + length line + 1) lines True
         (out @ map (shift_region (length pre)) regions) = Some rs"
      using Cons.prems(1) by (auto simp: Let_def split: option.splits)
    have eq: "map (\<lambda>r. range_new (rstart r + length pre) (rend r + length pre)) (map region_span regions)
        = map region_span (map (shift_region (length pre)) regions)" by (simp add: shift_region_def)
    have "pre @ strip_cr line @ t @ post = raw" using post t by (metis append_assoc)
    with placed_in_shift [OF json_regions_in_order [OF regions(1)], of pre "t @ post"]
    have "placed_in raw pr (length (strip_cr line) + length pre)
        (map region_span (map (shift_region (length pre)) regions))" by (simp only: eq)
    then have "placed_in raw pr (length pre + length line)
        (map region_span (map (shift_region (length pre)) regions))"
      using arg_cong [OF t, of length] by (auto intro: placed_in_mono)
    from placed_in_append [OF Cons.prems(2) this] Cons.prems(3)
    have "placed_in raw pr (length pre + length line)
        (map region_span (out @ map (shift_region (length pre)) regions))"
      by (simp add: list_all_iff shift_region_def)
    with regions(2) show thesis by (rule that)
  qed
  show ?case
  proof (cases "lines = []")
    case True
    with step have "rs = out'" by (auto split: if_splits)
    with step(2) show ?thesis using post by (auto intro: placed_in_mono)
  next
    case False
    then have "raw = (pre @ line @ [CHR 0x0A]) @ join_on (CHR 0x0A) lines"
      using Cons.prems(4) by (simp add: join_on_Cons)
    from Cons.IH [OF _ step(2) _ this] step(1) show ?thesis by simp
  qed
qed

lemma ndjson_regions_in_order:
  assumes "parse_ndjson_regions_with raw pr = Some rs"
  shows "placed_in raw pr (length raw) (map region_span rs)"
  using assms ndjson_loop_placed [of pr "[]" "split_on (CHR 0x0A) raw" False "[]" rs raw 0]
  by (simp add: parse_ndjson_regions_with_def join_split_on placed_in_def)


section \<open>Properties\<close>

text \<open>
  The JSON parser always comes to a result, and the result does not depend on the fuel: with
  twice the length of the text, or anything more, the recursion never runs out.
\<close>

theorem json_parser_terminates:
  assumes "json_fuel raw \<le> fuel"
  shows "json_value m primitives fuel None [] 0 (json_start raw) =
      json_value m primitives (json_fuel raw) None [] 0 (json_start raw) \<and>
    json_value m primitives fuel None [] 0 (json_start raw) \<noteq> OutOfFuel"
  using assms
proof (induction fuel rule: dec_induct)
  case base
  show ?case using start_left [of raw] by (intro conjI refl json_enough_fuel(1)) (simp add: json_fuel_def)
next
  case (step fuel)
  then show ?case using json_more_fuel(1) by metis
qed

lemma json_parser_terminates_witness:
  "json_value JsonMode False 9 None [] 0 (json_start ''[1]'') =
     json_value JsonMode False (json_fuel ''[1]'') None [] 0 (json_start ''[1]'') \<and>
   json_value JsonMode False 9 None [] 0 (json_start ''[1]'') \<noteq> OutOfFuel"
  by (rule json_parser_terminates) code_simp

text \<open>
  Where the regions of a JSON or NDJSON text lie: in order and apart from each other, on
  character boundaries, and each is the inside of a string literal, from its opening quote to
  its first unescaped quote, or in the analysis mode a number. Keys, brackets and separators are
  in no region.
\<close>

theorem json_regions_placed:
  assumes "utf8_valid raw"
    and "parse_json_regions_with raw m primitives = Some rs \<or> parse_ndjson_regions_with raw primitives = Some rs"
  shows "sorted_wrt (\<lambda>r s. rend (region_span r) \<le> rstart (region_span s)) rs \<and>
    list_all (\<lambda>r. region_in raw (region_span r) \<and>
      (literal_at raw (region_span r) \<or> primitives \<and> number_at raw (region_span r))) rs"
proof -
  from assms(2) have placed: "placed_in raw primitives (length raw) (map region_span rs)"
    using json_regions_in_order ndjson_regions_in_order by blast
  then show ?thesis
    using placed_region_in [OF placed assms(1)]
    by (auto simp: placed_in_def list_all_iff sorted_wrt_map)
qed

definition example_json :: str where
  "example_json = ''{'' @ [CHR 0x22] @ ''a'' @ [CHR 0x22] @ '':'' @ [CHR 0x22] @ ''x'' @ [CHR 0x22] @ ''}''"

lemma json_regions_placed_witness:
  "region_in example_json (range_new 6 7) \<and> literal_at example_json (range_new 6 7)"
proof -
  have "parse_json_regions_with example_json JsonMode False =
      Some [json_region JsonMode (Some ''a'') [] JsonValue (range_new 6 7)]" by code_simp
  moreover have "utf8_valid example_json" by code_simp
  ultimately show ?thesis
    using json_regions_placed [of example_json JsonMode False
      "[json_region JsonMode (Some ''a'') [] JsonValue (range_new 6 7)]"]
    by (simp add: json_region_def)
qed

end
