(* ===== verification/JsonGrammar.thy ===== *)
theory JsonGrammar
  imports JsonFacts
begin

text \<open>
  The JSON grammar as an inductive relation between documents and their texts, and the regions
  the parser must report for a document: one per string, in document order, with the key it
  stands under and the hints of its siblings. The parser is shown to report exactly these.
\<close>


section \<open>Documents and their texts\<close>

datatype jtree =
    TString str | TNumber str | TLiteral str | TList "jtree list" | TObject "(str \<times> jtree) list"

abbreviation ws :: "str \<Rightarrow> bool" where
  "ws w \<equiv> list_all is_json_ws w"

text \<open>What can stand between two quotes.\<close>

definition literal_body :: "str \<Rightarrow> bool" where
  "literal_body a \<longleftrightarrow> string_len (a @ [CHR 0x22]) = Some (length a)"

definition quoted :: "str \<Rightarrow> str" where
  "quoted a = CHR 0x22 # a @ [CHR 0x22]"

inductive json_text :: "jtree \<Rightarrow> str \<Rightarrow> bool"
  and json_elements :: "jtree list \<Rightarrow> str \<Rightarrow> bool"
  and json_members :: "(str \<times> jtree) list \<Rightarrow> str \<Rightarrow> bool"
  where
  text_string: "literal_body a \<Longrightarrow> json_text (TString a) (quoted a)"
| text_number: "n \<noteq> [] \<Longrightarrow> number_len n = length n \<Longrightarrow> json_text (TNumber n) n"
| text_literal: "lit \<in> {''true'', ''false'', ''null''} \<Longrightarrow> json_text (TLiteral lit) lit"
| text_empty_list: "ws w \<Longrightarrow> json_text (TList []) (''['' @ w @ '']'')"
| text_list: "ws w \<Longrightarrow> json_elements vs t \<Longrightarrow> json_text (TList vs) (''['' @ w @ t @ '']'')"
| text_empty_object: "ws w \<Longrightarrow> json_text (TObject []) (''{'' @ w @ ''}'')"
| text_object: "ws w \<Longrightarrow> json_members ms t \<Longrightarrow> json_text (TObject ms) (''{'' @ w @ t @ ''}'')"
| elements_last: "json_text v s \<Longrightarrow> ws w \<Longrightarrow> json_elements [v] (s @ w)"
| elements_more: "json_text v s \<Longrightarrow> ws w \<Longrightarrow> ws w' \<Longrightarrow> json_elements vs t \<Longrightarrow>
    json_elements (v # vs) (s @ w @ '','' @ w' @ t)"
| members_last: "literal_body k \<Longrightarrow> ws w1 \<Longrightarrow> ws w2 \<Longrightarrow> json_text v s \<Longrightarrow> ws w \<Longrightarrow>
    json_members [(k, v)] (quoted k @ w1 @ '':'' @ w2 @ s @ w)"
| members_more: "literal_body k \<Longrightarrow> ws w1 \<Longrightarrow> ws w2 \<Longrightarrow> json_text v s \<Longrightarrow> ws w \<Longrightarrow> ws w' \<Longrightarrow>
    json_members ms t \<Longrightarrow>
    json_members ((k, v) # ms) (quoted k @ w1 @ '':'' @ w2 @ s @ w @ '','' @ w' @ t)"


section \<open>What the parser must report\<close>

definition is_hint_member :: "str \<Rightarrow> jtree \<Rightarrow> bool" where
  "is_hint_member k v \<longleftrightarrow>
     (case (decode_json_string k, v) of (Some key, TString _) \<Rightarrow> is_sibling_hint_key key | _ \<Rightarrow> False)"

definition decodes :: "str \<Rightarrow> bool" where
  "decodes a \<longleftrightarrow> utf8_valid a \<and> decode_json_string a \<noteq> None"

text \<open>Keys and hints decode, and the nesting stays within the limit.\<close>

fun admitted :: "nat \<Rightarrow> jtree \<Rightarrow> bool" where
  "admitted d (TList vs) \<longleftrightarrow> d \<le> JSON_MAX_DEPTH \<and> list_all (admitted (d + 1)) vs"
| "admitted d (TObject ms) \<longleftrightarrow> d \<le> JSON_MAX_DEPTH \<and>
     list_all (\<lambda>(k, v). decodes k \<and> (if is_hint_member k v
       then (case v of TString a \<Rightarrow> decodes a | _ \<Rightarrow> False) else admitted (d + 1) v)) ms"
| "admitted d _ \<longleftrightarrow> d \<le> JSON_MAX_DEPTH"

text \<open>A reported value: its kind, key, hints and text.\<close>

type_synonym reading = "region_kind \<times> str option \<times> str list \<times> str"

definition hint_reading :: "str list \<Rightarrow> reading \<Rightarrow> reading" where
  "hint_reading hs = (\<lambda>(kind, key, hints, t).
     (kind, key,
      if (case key of Some k \<Rightarrow> eq_ascii_ci k ''value'' | None \<Rightarrow> False) then hints @ hs else hints, t))"

definition member_hints :: "(str \<times> jtree) list \<Rightarrow> str list" where
  "member_hints ms = concat (map (\<lambda>(k, v).
     if is_hint_member k v
     then (case v of TString a \<Rightarrow> [the (decode_json_string a)] | _ \<Rightarrow> []) else []) ms)"

definition is_value_member :: "str \<Rightarrow> bool" where
  "is_value_member k \<longleftrightarrow> eq_ascii_ci (the (decode_json_string k)) ''value''"

fun readings :: "json_region_mode \<Rightarrow> bool \<Rightarrow> str option \<Rightarrow> jtree \<Rightarrow> reading list" where
  "readings m pr key (TString a) = [(JsonValue, key, [], a)]"
| "readings m pr key (TNumber n) = (if pr then [(JsonValue, key, [], n)] else [])"
| "readings m pr key (TLiteral lit) = []"
| "readings m pr key (TList vs) = concat (map (readings m pr key) vs)"
| "readings m pr key (TObject ms) =
     concat (map (\<lambda>(k, v).
       (if m = ToolResultMode then [(JsonKey, None, [], k)] else [])
       @ map (if is_value_member k then hint_reading (member_hints ms) else id)
           (readings m pr (Some (the (decode_json_string k))) v)) ms)"


section \<open>The cursor at an offset\<close>

definition cursor :: "str \<Rightarrow> nat \<Rightarrow> region list \<Rightarrow> json_cursor" where
  "cursor b i out = \<lparr>js_i = i, js_rest = drop i b, js_out = out\<rparr>"

definition reading_of :: "str \<Rightarrow> region \<Rightarrow> reading" where
  "reading_of b r =
     (ctx_kind (region_ctx r), ctx_key (region_ctx r), ctx_hints (region_ctx r),
      subtext b (rstart (region_span r)) (rend (region_span r)))"

lemma cursor_fields [simp]:
  "js_i (cursor b i out) = i" "js_rest (cursor b i out) = drop i b" "js_out (cursor b i out) = out"
  by (simp_all add: cursor_def)

lemma advance_cursor [simp]: "json_advance n (cursor b i out) = cursor b (i + n) out"
  by (simp add: json_advance_def cursor_def add.commute)

lemma push_cursor [simp]: "json_push r (cursor b i out) = cursor b i (out @ [r])"
  by (simp add: json_push_def cursor_def)

lemma peek_cursor: "drop i b = c # t \<Longrightarrow> json_peek (cursor b i out) = Some c"
  by (simp add: json_peek_def)

lemma drop_more: "drop i b = s @ t \<Longrightarrow> drop (i + length s) b = t"
  by (metis append_eq_conv_conj drop_drop add.commute)

text \<open>A text that does not go on with white space.\<close>

definition stops :: "(byte \<Rightarrow> bool) \<Rightarrow> str \<Rightarrow> bool" where
  "stops P t \<longleftrightarrow> (case t of [] \<Rightarrow> True | c # _ \<Rightarrow> \<not> P c)"

lemma takeWhile_stops: "list_all P w \<Longrightarrow> stops P t \<Longrightarrow> takeWhile P (w @ t) = w"
  by (induction w) (auto simp: stops_def split: list.splits)

lemma skip_ws_cursor:
  "drop i b = w @ t \<Longrightarrow> ws w \<Longrightarrow> stops is_json_ws t \<Longrightarrow>
     json_skip_ws (cursor b i out) = cursor b (i + length w) out"
  by (simp add: json_skip_ws_def takeWhile_stops)

lemma skip_ws_stays: "drop i b = c # t \<Longrightarrow> \<not> is_json_ws c \<Longrightarrow> json_skip_ws (cursor b i out) = cursor b i out"
  using skip_ws_cursor [of i b "[]" "c # t"] by (simp add: stops_def)

lemma string_range_cursor:
  assumes "drop i b = quoted a @ t" and "literal_body a"
  shows "json_string_range (cursor b i out) =
    Some (range_new (i + 1) (i + 1 + length a), cursor b (i + length (quoted a)) out)"
proof -
  have "drop (i + 1) b = (a @ [CHR 0x22]) @ t"
    using drop_more [of i b "[CHR 0x22]"] assms(1) by (simp add: quoted_def)
  then have "string_len (drop (i + 1) b) = Some (length a)"
    using string_len_append assms(2) unfolding literal_body_def by metis
  then show ?thesis by (simp add: json_string_range_def Let_def quoted_def)
qed

lemma string_cursor:
  assumes "drop i b = quoted a @ t" and "literal_body a" and "decodes a"
  shows "json_string (cursor b i out) =
    Some (range_new (i + 1) (i + 1 + length a), the (decode_json_string a),
      cursor b (i + length (quoted a)) out)"
  using string_range_cursor [OF assms(1,2), of out] assms
  by (auto simp: json_string_def Let_def decodes_def quoted_def)

lemma reading_of_string:
  assumes "drop i b = quoted a @ t"
  shows "reading_of b (json_region m key hints k (range_new (i + 1) (i + 1 + length a))) = (k, key, hints, a)"
  using drop_more [of i b "[CHR 0x22]"] assms
  by (simp add: reading_of_def json_region_def subtext_def quoted_def)


section \<open>Single steps\<close>

lemma number_len_append:
  assumes "number_len n = length n" and "n \<noteq> []" and "stops is_number_byte t"
  shows "number_len (n @ t) = length n"
proof -
  obtain c n' where n: "n = c # n'" using assms(2) by (cases n) auto
  have run: "length (takeWhile is_number_byte (u @ t)) = length u"
    if "length (takeWhile is_number_byte u) = length u" for u
  proof -
    have "takeWhile is_number_byte u = u" using that by (metis takeWhile_eq_take take_all order_refl)
    then have "list_all is_number_byte u" by (auto simp: list_all_iff takeWhile_eq_all_conv)
    with takeWhile_stops assms(3) show ?thesis by metis
  qed
  show ?thesis
    using assms(1) run [of n'] run [of "c # n'"] by (auto simp: n number_len_def Let_def split: if_splits)
qed

lemma number_head:
  "number_len (c # n) = Suc (length n) \<Longrightarrow> is_number_byte c"
  using length_takeWhile_le [of is_number_byte n]
  by (auto simp: number_len_def Let_def is_number_byte_def split: if_splits)

lemma json_text_head:
  assumes "json_text v s"
  obtains c t where "s = c # t" "\<not> is_json_ws c" "c \<notin> set '',]}:''"
    "c = CHR 0x22 \<longleftrightarrow> (\<exists>a. v = TString a)"
  using assms
proof (cases rule: json_text.cases)
  case text_number
  then obtain c n' where n: "s = c # n'" by (cases s) auto
  then have "is_number_byte c" using text_number number_head by simp
  then have "c \<notin> {CHR '' '', CHR '','', CHR '']'', CHR ''}'', CHR '':'', CHR 0x22}"
    "\<not> is_json_ws c"
    by (auto simp: is_number_byte_def is_ascii_digit_def byte_between_def is_json_ws_def)
  then show thesis using that [of c n'] n text_number by auto
qed (auto simp: quoted_def is_json_ws_def intro: that)

lemma begin_at:
  assumes "drop i b = c # t" and "\<not> is_json_ws c" and "d \<le> JSON_MAX_DEPTH"
  shows "json_begin m pr key hints d (cursor b i out) =
     (let p = cursor b i out
      in if c = CHR ''{'' then json_open (CHR ''}'') ObjectHead p
         else if c = CHR ''['' then json_open (CHR '']'') ArrayHead p
         else if c = CHR 0x22 then Leaf (json_string_value m key hints p)
         else if c = CHR ''t'' then Leaf (json_literal ''true'' p)
         else if c = CHR ''f'' then Leaf (json_literal ''false'' p)
         else if c = CHR ''n'' then Leaf (json_literal ''null'' p)
         else Leaf (json_number m pr key hints p))"
  unfolding json_begin_def Let_def
  by (simp only: skip_ws_stays [OF assms(1,2)] peek_cursor [OF assms(1)] option.case if_not_P
      assms(3) linorder_not_less [symmetric])
    (use assms(3) in simp)

lemma after_at:
  assumes "drop i b = w @ c # t" and "ws w" and "\<not> is_json_ws c"
  shows "json_after close (cursor b i out) =
    (if c = CHR '','' then Again (cursor b (i + length w + 1) out)
     else if c = close then Close (cursor b (i + length w + 1) out) else Broken)"
proof -
  have "json_skip_ws (cursor b i out) = cursor b (i + length w) out"
    using assms by (intro skip_ws_cursor) (auto simp: stops_def)
  moreover have "drop (i + length w) b = c # t" using drop_more [OF assms(1)] .
  ultimately show ?thesis by (simp add: json_after_def Let_def peek_cursor)
qed

lemma open_at:
  assumes "drop i b = x # w @ c # t" and "ws w" and "\<not> is_json_ws c"
  shows "json_open close head (cursor b i out) =
    (if c = close then Leaf (Parsed (cursor b (i + length w + 2) out))
     else head (cursor b (i + length w + 1) out))"
proof -
  have "drop (i + 1) b = w @ c # t" using drop_more [of i b "[x]"] assms(1) by simp
  then have "json_skip_ws (cursor b (i + 1) out) = cursor b (i + 1 + length w) out"
    "drop (i + 1 + length w) b = c # t"
    using assms skip_ws_cursor [of "i + 1" b w "c # t"] drop_more [of "i + 1" b w]
    by (simp_all add: stops_def)
  then show ?thesis by (simp add: json_open_def Let_def peek_cursor)
qed


section \<open>Hints of siblings\<close>

type_synonym 'a segment = "bool \<times> 'a list"

fun segment_ranges :: "nat \<Rightarrow> 'a segment list \<Rightarrow> (nat \<times> nat) list" where
  "segment_ranges n [] = []"
| "segment_ranges n ((marked, rs) # segs) =
     (if marked then [(n, n + length rs)] else []) @ segment_ranges (n + length rs) segs"

definition hinted :: "str list \<Rightarrow> region segment \<Rightarrow> region list" where
  "hinted hs = (\<lambda>(marked, rs). if marked then map (add_hints hs) rs else rs)"

lemma hinted_Pair [simp]:
  "hinted hs (marked, rs) = (if marked then map (add_hints hs) rs else rs)"
  by (simp add: hinted_def)

lemma add_no_hints [simp]: "add_hints [] r = r"
  by (auto simp: add_hints_def split: option.splits)

lemma segment_ranges_append:
  "segment_ranges n (xs @ ys) = segment_ranges n xs @ segment_ranges (n + length (concat (map snd xs))) ys"
  by (induction n xs rule: segment_ranges.induct) (auto simp: add.assoc)

lemma hint_segments:
  "foldl (\<lambda>out (start, end).
      take start out @ map (add_hints hs) (take (end - start) (drop start out)) @ drop end out)
     (pre @ concat (map snd segs)) (segment_ranges (length pre) segs) =
   pre @ concat (map (hinted hs) segs)"
proof (induction segs arbitrary: pre)
  case (Cons seg segs)
  obtain marked rs where seg: "seg = (marked, rs)" by (cases seg)
  from Cons.IH [of "pre @ (if marked then map (add_hints hs) rs else rs)"]
  show ?case by (auto simp: seg add.commute)
qed simp

lemma hint_values_segments:
  "hint_values hs (segment_ranges (length pre) segs) (pre @ concat (map snd segs)) =
     pre @ concat (map (hinted hs) segs)"
proof (cases "hs = []")
  case True
  have "hinted [] = (snd :: region segment \<Rightarrow> region list)" by (auto simp: fun_eq_iff map_idI)
  with True show ?thesis by (simp add: hint_values_def)
qed (simp add: hint_values_def hint_segments)

lemma reading_of_hints: "reading_of b (add_hints hs r) = hint_reading hs (reading_of b r)"
  by (auto simp: reading_of_def hint_reading_def add_hints_def split: option.splits)

lemma sibling_is_no_value: "is_sibling_hint_key key \<Longrightarrow> \<not> eq_ascii_ci key ''value''"
  by (auto simp: is_sibling_hint_key_def eq_ascii_ci_def)


section \<open>The parser on the texts of the grammar\<close>

lemma value_ws:
  assumes "drop i b = w @ c # t" and "ws w" and "\<not> is_json_ws c"
  shows "json_value m pr fuel key hints d (cursor b i out) =
      json_value m pr fuel key hints d (cursor b (i + length w) out)"
    and "json_array m pr fuel key hints d (cursor b i out) =
      json_array m pr fuel key hints d (cursor b (i + length w) out)"
    and "json_object m pr fuel d ms (cursor b i out) =
      json_object m pr fuel d ms (cursor b (i + length w) out)"
proof -
  have skip: "json_skip_ws (cursor b i out) = cursor b (i + length w) out"
    using assms by (intro skip_ws_cursor) (auto simp: stops_def)
  have stay: "json_skip_ws (cursor b (i + length w) out) = cursor b (i + length w) out"
    by (rule skip_ws_stays [OF drop_more [OF assms(1)] assms(3)])
  have beg: "json_begin m pr key hints d (cursor b i out) =
      json_begin m pr key hints d (cursor b (i + length w) out)" for key hints d
    unfolding json_begin_def skip stay ..
  show val: "json_value m pr fuel key hints d (cursor b i out) =
      json_value m pr fuel key hints d (cursor b (i + length w) out)" for fuel
    by (cases fuel) (simp_all add: beg)
  show "json_array m pr fuel key hints d (cursor b i out) =
      json_array m pr fuel key hints d (cursor b (i + length w) out)"
    by (cases fuel) (simp_all only: json_array.simps val)
  have "json_key m (cursor b i out) = json_key m (cursor b (i + length w) out)"
    unfolding json_key_def skip stay ..
  then show "json_object m pr fuel d ms (cursor b i out) =
      json_object m pr fuel d ms (cursor b (i + length w) out)"
    by (cases fuel) (simp_all add: json_steps)
qed

definition value_ok :: "json_region_mode \<Rightarrow> bool \<Rightarrow> str \<Rightarrow> jtree \<Rightarrow> str \<Rightarrow> bool" where
  "value_ok m pr b v s \<longleftrightarrow> (\<forall>i out rest fuel key d.
     drop i b = s @ rest \<longrightarrow> stops is_number_byte rest \<longrightarrow> admitted d v \<longrightarrow>
     json_value m pr fuel key [] d (cursor b i out) \<noteq> OutOfFuel \<longrightarrow>
     (\<exists>rs. json_value m pr fuel key [] d (cursor b i out) =
         Parsed (cursor b (i + length s) (out @ rs)) \<and>
       map (reading_of b) rs = readings m pr key v))"

definition elements_ok :: "json_region_mode \<Rightarrow> bool \<Rightarrow> str \<Rightarrow> jtree list \<Rightarrow> str \<Rightarrow> bool" where
  "elements_ok m pr b vs t \<longleftrightarrow> (\<forall>i out rest fuel key d.
     drop i b = t @ '']'' @ rest \<longrightarrow> list_all (admitted d) vs \<longrightarrow>
     json_array m pr fuel key [] d (cursor b i out) \<noteq> OutOfFuel \<longrightarrow>
     (\<exists>rs. json_array m pr fuel key [] d (cursor b i out) =
         Parsed (cursor b (i + length t + 1) (out @ rs)) \<and>
       map (reading_of b) rs = concat (map (readings m pr key) vs)))"

definition member_admitted :: "nat \<Rightarrow> str \<times> jtree \<Rightarrow> bool" where
  "member_admitted d = (\<lambda>(k, v). decodes k \<and>
     (if is_hint_member k v then (case v of TString a \<Rightarrow> decodes a | _ \<Rightarrow> False) else admitted d v))"

definition member_readings ::
    "json_region_mode \<Rightarrow> bool \<Rightarrow> (str \<times> jtree) list \<Rightarrow> reading segment list" where
  "member_readings m pr ms = concat (map (\<lambda>(k, v).
     (if m = ToolResultMode then [(False, [(JsonKey, None, [], k)])] else [])
     @ [(is_value_member k, readings m pr (Some (the (decode_json_string k))) v)]) ms)"

definition members_ok :: "json_region_mode \<Rightarrow> bool \<Rightarrow> str \<Rightarrow> (str \<times> jtree) list \<Rightarrow> str \<Rightarrow> bool" where
  "members_ok m pr b ms t \<longleftrightarrow> (\<forall>i pre segs0 hs0 rest fuel d.
     drop i b = t @ ''}'' @ rest \<longrightarrow> list_all (member_admitted d) ms \<longrightarrow>
     json_object m pr fuel d (hs0, segment_ranges (length pre) segs0)
       (cursor b i (pre @ concat (map snd segs0))) \<noteq> OutOfFuel \<longrightarrow>
     (\<exists>segs. json_object m pr fuel d (hs0, segment_ranges (length pre) segs0)
         (cursor b i (pre @ concat (map snd segs0))) =
         Parsed (cursor b (i + length t + 1)
           (pre @ concat (map (hinted (hs0 @ member_hints ms)) (segs0 @ segs)))) \<and>
       map (map_prod id (map (reading_of b))) segs = member_readings m pr ms))"

lemma value_okD:
  assumes "value_ok m pr b v s" and "drop i b = s @ rest" and "stops is_number_byte rest"
    and "admitted d v" and "json_value m pr fuel key [] d (cursor b i out) \<noteq> OutOfFuel"
  obtains rs where "json_value m pr fuel key [] d (cursor b i out) =
      Parsed (cursor b (i + length s) (out @ rs))"
    "map (reading_of b) rs = readings m pr key v"
  using assms unfolding value_ok_def by blast

lemma elements_okD:
  assumes "elements_ok m pr b vs t" and "drop i b = t @ '']'' @ rest" and "list_all (admitted d) vs"
    and "json_array m pr fuel key [] d (cursor b i out) \<noteq> OutOfFuel"
  obtains rs where "json_array m pr fuel key [] d (cursor b i out) =
      Parsed (cursor b (i + length t + 1) (out @ rs))"
    "map (reading_of b) rs = concat (map (readings m pr key) vs)"
  using assms unfolding elements_ok_def by blast

lemma admitted_depth: "admitted d v \<Longrightarrow> d \<le> JSON_MAX_DEPTH"
  by (cases v) auto

lemma value_ok_string:
  assumes "literal_body a"
  shows "value_ok m pr b (TString a) (quoted a)"
  unfolding value_ok_def
proof (intro allI impI)
  fix i out rest fuel key d
  assume at: "drop i b = quoted a @ rest" and d: "admitted d (TString a)"
    and fuel: "json_value m pr fuel key [] d (cursor b i out) \<noteq> OutOfFuel"
  then obtain n where n: "fuel = Suc n" by (cases fuel) auto
  let ?r = "json_region m key [] JsonValue (range_new (i + 1) (i + 1 + length a))"
  have "json_value m pr fuel key [] d (cursor b i out) = Parsed (cursor b (i + length (quoted a)) (out @ [?r]))"
    using begin_at [of i b "CHR 0x22" "a @ [CHR 0x22] @ rest" d m pr key "[]" out] at d
      string_range_cursor [OF at assms, of out]
    by (simp add: n json_string_value_def quoted_def is_json_ws_def)
  moreover have "map (reading_of b) [?r] = readings m pr key (TString a)"
    using reading_of_string [OF at, of m key "[]" JsonValue] by simp
  ultimately show "\<exists>rs. json_value m pr fuel key [] d (cursor b i out) =
      Parsed (cursor b (i + length (quoted a)) (out @ rs)) \<and>
      map (reading_of b) rs = readings m pr key (TString a)" by blast
qed

lemma value_ok_number:
  assumes "n \<noteq> []" and "number_len n = length n"
  shows "value_ok m pr b (TNumber n) n"
  unfolding value_ok_def
proof (intro allI impI)
  fix i out rest fuel key d
  assume at: "drop i b = n @ rest" and stop: "stops is_number_byte rest" and d: "admitted d (TNumber n)"
    and fuel: "json_value m pr fuel key [] d (cursor b i out) \<noteq> OutOfFuel"
  then obtain k where k: "fuel = Suc k" by (cases fuel) auto
  obtain c n' where n: "n = c # n'" using assms(1) by (cases n) auto
  then have "is_number_byte c" using number_head assms(2) by simp
  then have c: "\<not> is_json_ws c"
    "c \<notin> {CHR ''{'', CHR ''['', CHR 0x22, CHR ''t'', CHR ''f'', CHR ''n''}"
    by (auto simp: is_number_byte_def is_ascii_digit_def byte_between_def is_json_ws_def)
  let ?r = "json_region m key [] JsonValue (range_new i (i + length n))"
  have len: "number_len (drop i b) = length n"
    unfolding at by (rule number_len_append [OF assms(2,1) stop])
  have "json_value m pr fuel key [] d (cursor b i out) =
      Parsed (cursor b (i + length n) (out @ (if pr then [?r] else [])))"
    using begin_at [of i b c "n' @ rest" d m pr key "[]" out] at d c len assms(1)
    by (simp add: k n json_number_def Let_def)
  moreover have "reading_of b ?r = (JsonValue, key, [], n)"
    using at by (simp add: reading_of_def json_region_def subtext_def)
  then have "map (reading_of b) (if pr then [?r] else []) = readings m pr key (TNumber n)" by simp
  ultimately show "\<exists>rs. json_value m pr fuel key [] d (cursor b i out) =
      Parsed (cursor b (i + length n) (out @ rs)) \<and>
      map (reading_of b) rs = readings m pr key (TNumber n)" by blast
qed

lemma value_ok_literal:
  assumes "lit \<in> {''true'', ''false'', ''null''}"
  shows "value_ok m pr b (TLiteral lit) lit"
  unfolding value_ok_def
proof (intro allI impI)
  fix i out rest fuel key d
  assume at: "drop i b = lit @ rest" and d: "admitted d (TLiteral lit)"
    and fuel: "json_value m pr fuel key [] d (cursor b i out) \<noteq> OutOfFuel"
  then obtain k where k: "fuel = Suc k" by (cases fuel) auto
  obtain c l where lit: "lit = c # l" using assms by auto
  have "json_value m pr fuel key [] d (cursor b i out) = Parsed (cursor b (i + length lit) out)"
    using begin_at [of i b c "l @ rest" d m pr key "[]" out] at d assms lit
    by (auto simp: k json_literal_def is_json_ws_def)
  then show "\<exists>rs. json_value m pr fuel key [] d (cursor b i out) =
      Parsed (cursor b (i + length lit) (out @ rs)) \<and>
      map (reading_of b) rs = readings m pr key (TLiteral lit)" by simp
qed

lemma value_ok_list_empty:
  assumes "ws w"
  shows "value_ok m pr b (TList []) (''['' @ w @ '']'')"
    and "value_ok m pr b (TObject []) (''{'' @ w @ ''}'')"
proof -
  have "\<exists>rs. json_value m pr fuel key [] d (cursor b i out) =
      Parsed (cursor b (i + length (x # w @ [y])) (out @ rs)) \<and> rs = []"
    if at: "drop i b = x # w @ [y] @ rest" and xy: "(x, y) = (CHR ''['', CHR '']'') \<or> (x, y) = (CHR ''{'', CHR ''}'')"
      and d: "d \<le> JSON_MAX_DEPTH" and fuel: "json_value m pr fuel key [] d (cursor b i out) \<noteq> OutOfFuel"
    for i out rest fuel key d x y
  proof -
    obtain k where k: "fuel = Suc k" using fuel by (cases fuel) auto
    have "\<not> is_json_ws x" "\<not> is_json_ws y" using xy by (auto simp: is_json_ws_def)
    then show ?thesis
      using begin_at [of i b x "w @ [y] @ rest" d m pr key "[]" out] at xy d
        open_at [of i b x w y rest _ _ out] assms
      by (auto simp: k Let_def)
  qed
  from this [of _ "CHR ''[''" "CHR '']''"] this [of _ "CHR ''{''" "CHR ''}''"]
  show "value_ok m pr b (TList []) (''['' @ w @ '']'')" "value_ok m pr b (TObject []) (''{'' @ w @ ''}'')"
    unfolding value_ok_def by fastforce+
qed

lemma elements_head:
  assumes "json_elements vs t"
  obtains c u where "t = c # u" "\<not> is_json_ws c" "c \<notin> set '',]}:''"
  using assms by (cases rule: json_elements.cases) (auto elim!: json_text_head)

lemma members_head:
  assumes "json_members ms t"
  obtains u where "t = CHR 0x22 # u"
  using assms by (cases rule: json_members.cases) (auto simp: quoted_def)

lemma value_ok_list:
  assumes "ws w" and "json_elements vs t" and "elements_ok m pr b vs t"
  shows "value_ok m pr b (TList vs) (''['' @ w @ t @ '']'')"
  unfolding value_ok_def
proof (intro allI impI)
  fix i out rest fuel key d
  assume at: "drop i b = (''['' @ w @ t @ '']'') @ rest" and d: "admitted d (TList vs)"
    and fuel: "json_value m pr fuel key [] d (cursor b i out) \<noteq> OutOfFuel"
  then obtain k where k: "fuel = Suc k" by (cases fuel) auto
  obtain c u where c: "t = c # u" "\<not> is_json_ws c" "c \<notin> set '',]}:''" using elements_head [OF assms(2)] .
  have step: "json_value m pr fuel key [] d (cursor b i out) =
      json_array m pr k key [] (d + 1) (cursor b (i + length w + 1) out)"
    using begin_at [of i b "CHR ''[''" "w @ t @ '']'' @ rest" d m pr key "[]" out] at d
      open_at [of i b "CHR ''[''" w c "u @ '']'' @ rest" "CHR '']''" ArrayHead out] assms(1) c
    by (simp add: k Let_def is_json_ws_def)
  have "drop (i + length w + 1) b = t @ '']'' @ rest"
    using drop_more [of i b "''['' @ w"] at by (simp add: add.commute)
  moreover have "list_all (admitted (d + 1)) vs" using d by simp
  moreover have "json_array m pr k key [] (d + 1) (cursor b (i + length w + 1) out) \<noteq> OutOfFuel"
    using fuel step by simp
  ultimately obtain rs where "json_array m pr k key [] (d + 1) (cursor b (i + length w + 1) out) =
      Parsed (cursor b (i + length w + 1 + length t + 1) (out @ rs))"
    "map (reading_of b) rs = concat (map (readings m pr key) vs)"
    by (rule elements_okD [OF assms(3)])
  then show "\<exists>rs. json_value m pr fuel key [] d (cursor b i out) =
      Parsed (cursor b (i + length (''['' @ w @ t @ '']'')) (out @ rs)) \<and>
      map (reading_of b) rs = readings m pr key (TList vs)"
    unfolding step by (intro exI [of _ rs]) (simp add: add.commute add.left_commute)
qed

lemma ws_stops_number: "ws w \<Longrightarrow> c \<in> set '',]}'' \<Longrightarrow> stops is_number_byte (w @ c # t)"
  by (cases w) (auto simp: stops_def is_json_ws_def is_number_byte_def is_ascii_digit_def byte_between_def)

lemma elements_ok_last:
  assumes "json_text v s" and "value_ok m pr b v s" and "ws w"
  shows "elements_ok m pr b [v] (s @ w)"
  unfolding elements_ok_def
proof (intro allI impI)
  fix i out rest fuel key d
  assume at: "drop i b = (s @ w) @ '']'' @ rest" and d: "list_all (admitted d) [v]"
    and fuel: "json_array m pr fuel key [] d (cursor b i out) \<noteq> OutOfFuel"
  then obtain k where k: "fuel = Suc k" by (cases fuel) auto
  from fuel have "json_value m pr k key [] d (cursor b i out) \<noteq> OutOfFuel" by (auto simp: k)
  moreover have "drop i b = s @ w @ CHR '']'' # rest" using at by simp
  moreover have "stops is_number_byte (w @ CHR '']'' # rest)" by (rule ws_stops_number [OF assms(3)]) simp
  moreover have "admitted d v" using d by simp
  ultimately obtain rs where rs: "json_value m pr k key [] d (cursor b i out) =
      Parsed (cursor b (i + length s) (out @ rs))" "map (reading_of b) rs = readings m pr key v"
    by (metis value_okD [OF assms(2)])
  have "drop (i + length s) b = w @ CHR '']'' # rest" using drop_more at by simp
  from after_at [OF this assms(3), of "CHR '']''" "out @ rs"]
  have "json_array m pr fuel key [] d (cursor b i out) =
      Parsed (cursor b (i + length (s @ w) + 1) (out @ rs))"
    using rs(1) by (simp add: k is_json_ws_def add.assoc del: json_value.simps)
  with rs(2) show "\<exists>rs. json_array m pr fuel key [] d (cursor b i out) =
      Parsed (cursor b (i + length (s @ w) + 1) (out @ rs)) \<and>
      map (reading_of b) rs = concat (map (readings m pr key) [v])" by auto
qed

lemma elements_ok_more:
  assumes "json_text v s" and "value_ok m pr b v s" and "ws w" and "ws w'" and "json_elements vs t"
    and "elements_ok m pr b vs t"
  shows "elements_ok m pr b (v # vs) (s @ w @ '','' @ w' @ t)"
  unfolding elements_ok_def
proof (intro allI impI)
  fix i out rest fuel key d
  assume at: "drop i b = (s @ w @ '','' @ w' @ t) @ '']'' @ rest" and d: "list_all (admitted d) (v # vs)"
    and fuel: "json_array m pr fuel key [] d (cursor b i out) \<noteq> OutOfFuel"
  then obtain k where k: "fuel = Suc k" by (cases fuel) auto
  from fuel have "json_value m pr k key [] d (cursor b i out) \<noteq> OutOfFuel" by (auto simp: k)
  moreover have "drop i b = s @ w @ CHR '','' # w' @ t @ '']'' @ rest" using at by simp
  moreover have "stops is_number_byte (w @ CHR '','' # w' @ t @ '']'' @ rest)"
    by (rule ws_stops_number [OF assms(3)]) simp
  moreover have "admitted d v" using d by simp
  ultimately obtain rs where rs: "json_value m pr k key [] d (cursor b i out) =
      Parsed (cursor b (i + length s) (out @ rs))" "map (reading_of b) rs = readings m pr key v"
    by (metis value_okD [OF assms(2)])
  have here: "drop (i + length s) b = w @ CHR '','' # w' @ t @ '']'' @ rest"
    using drop_more at by simp
  let ?i = "i + length s + length w + 1"
  from after_at [OF here assms(3), of "CHR '']''" "out @ rs"]
  have step: "json_array m pr fuel key [] d (cursor b i out) =
      json_array m pr k key [] d (cursor b ?i (out @ rs))"
    using rs(1) by (simp add: k is_json_ws_def del: json_value.simps)
  obtain c u where c: "t = c # u" "\<not> is_json_ws c" using elements_head [OF assms(5)] by metis
  have tail: "drop ?i b = w' @ t @ '']'' @ rest"
    using drop_more [of "i + length s" b "w @ [CHR '','']"] here by (simp add: add.assoc)
  then have "drop ?i b = w' @ c # u @ '']'' @ rest" using c by simp
  note skip = value_ws(2) [OF this assms(4) c(2), of m pr k key "[]" d "out @ rs"]
  have "drop (?i + length w') b = t @ '']'' @ rest" by (rule drop_more [OF tail])
  moreover have "list_all (admitted d) vs" using d by simp
  moreover have "json_array m pr k key [] d (cursor b (?i + length w') (out @ rs)) \<noteq> OutOfFuel"
    using fuel step skip by simp
  ultimately obtain ss where ss: "json_array m pr k key [] d (cursor b (?i + length w') (out @ rs)) =
      Parsed (cursor b (?i + length w' + length t + 1) ((out @ rs) @ ss))"
    "map (reading_of b) ss = concat (map (readings m pr key) vs)"
    by (rule elements_okD [OF assms(6)])
  then show "\<exists>rs. json_array m pr fuel key [] d (cursor b i out) =
      Parsed (cursor b (i + length (s @ w @ '','' @ w' @ t) + 1) (out @ rs)) \<and>
      map (reading_of b) rs = concat (map (readings m pr key) (v # vs))"
    unfolding step skip using rs(2)
    by (intro exI [of _ "rs @ ss"]) (simp add: add.commute add.left_commute)
qed


section \<open>Objects\<close>

definition key_segment :: "json_region_mode \<Rightarrow> nat \<Rightarrow> str \<Rightarrow> region segment list" where
  "key_segment m i k =
     (if m = ToolResultMode
      then [(False, [json_region m None [] JsonKey (range_new (i + 1) (i + 1 + length k))])] else [])"

lemma key_segment_ranges [simp]:
  "segment_ranges n (segs @ key_segment m i k) = segment_ranges n segs"
  by (simp add: key_segment_def segment_ranges_append)

lemma key_at:
  assumes "drop i b = quoted k @ w1 @ '':'' @ w2 @ c # u" and "literal_body k" and "decodes k"
    and "ws w1" and "ws w2" and "\<not> is_json_ws c"
  shows "json_key m (cursor b i out) =
    Parsed (the (decode_json_string k),
      cursor b (i + length (quoted k @ w1 @ '':'' @ w2)) (out @ concat (map snd (key_segment m i k))))"
proof -
  have q: "drop i b = CHR 0x22 # k @ [CHR 0x22] @ w1 @ '':'' @ w2 @ c # u"
    using assms(1) by (simp add: quoted_def)
  have stay: "json_skip_ws (cursor b i out) = cursor b i out"
    by (rule skip_ws_stays [OF q]) (simp add: is_json_ws_def)
  let ?j = "i + length (quoted k)"
  have colon: "drop ?j b = w1 @ CHR '':'' # w2 @ c # u" using drop_more assms(1) by simp
  then have skip: "json_skip_ws (cursor b ?j out) = cursor b (?j + length w1) out" for out
    using assms(4) by (intro skip_ws_cursor) (auto simp: stops_def is_json_ws_def)
  have at_colon: "drop (?j + length w1) b = CHR '':'' # w2 @ c # u" by (rule drop_more [OF colon])
  then have "drop (?j + length w1 + 1) b = w2 @ c # u"
    using drop_more [of "?j + length w1" b "'':''"] by simp
  then have skip2: "json_skip_ws (cursor b (?j + length w1 + 1) out) =
      cursor b (?j + length w1 + 1 + length w2) out" for out
    using assms(5,6) by (intro skip_ws_cursor) (auto simp: stops_def)
  have peek: "json_peek (cursor b (?j + length w1) out) = Some (CHR '':'')" for out
    by (rule peek_cursor [OF at_colon])
  show ?thesis
    unfolding json_key_def Let_def stay
    using string_cursor [OF assms(1-3), of out] skip2 skip peek
    by (simp add: peek_cursor [OF q] key_segment_def add.assoc)
qed

lemma hint_member_text:
  assumes "is_hint_member k v" and "json_text v s"
  obtains a where "v = TString a" "s = quoted a" "literal_body a"
    "is_sibling_hint_key (the (decode_json_string k))"
  using assms by (cases v) (auto simp: is_hint_member_def elim: json_text.cases split: option.splits)

lemma sibling_member_at:
  assumes "drop i b = s @ u" and "json_text v s" and "decodes k"
  shows "is_sibling_member (the (decode_json_string k)) (cursor b i out) \<longleftrightarrow> is_hint_member k v"
proof -
  obtain c t where "s = c # t" "c = CHR 0x22 \<longleftrightarrow> (\<exists>a. v = TString a)"
    using json_text_head [OF assms(2)] .
  then show ?thesis
    using assms(1,3) peek_cursor [of i b c "t @ u"]
    by (cases v) (auto simp: is_sibling_member_def is_hint_member_def decodes_def)
qed

lemma member_at:
  assumes "drop i b = s @ u" and "stops is_number_byte u" and "json_text v s" and "value_ok m pr b v s"
    and "member_admitted d (k, v)"
    and "json_member m pr n d (hs, segment_ranges (length pre) segs) (the (decode_json_string k))
      (cursor b i (pre @ concat (map snd segs))) \<noteq> OutOfFuel"
  obtains seg where
    "json_member m pr n d (hs, segment_ranges (length pre) segs) (the (decode_json_string k))
       (cursor b i (pre @ concat (map snd segs))) =
     Parsed ((hs @ member_hints [(k, v)], segment_ranges (length pre) (segs @ [seg])),
       cursor b (i + length s) (pre @ concat (map snd (segs @ [seg]))))"
    "map_prod id (map (reading_of b)) seg =
     (is_value_member k, readings m pr (Some (the (decode_json_string k))) v)"
proof (cases "is_hint_member k v")
  case True
  then obtain a where a: "v = TString a" "s = quoted a" "literal_body a"
    "is_sibling_hint_key (the (decode_json_string k))"
    using hint_member_text assms(3) by metis
  let ?key = "the (decode_json_string k)"
  let ?r = "json_region m (Some ?key) [] JsonValue (range_new (i + 1) (i + 1 + length a))"
  have "decodes a" "decodes k" using assms(5) True a(1) by (auto simp: member_admitted_def)
  moreover have at: "drop i b = quoted a @ u" using assms(1) a by simp
  ultimately have "json_member m pr n d (hs, segment_ranges (length pre) segs) ?key
       (cursor b i (pre @ concat (map snd segs))) =
     Parsed ((hs @ member_hints [(k, v)], segment_ranges (length pre) (segs @ [(False, [?r])])),
       cursor b (i + length s) (pre @ concat (map snd (segs @ [(False, [?r])]))))"
    using sibling_member_at [OF assms(1,3)] True string_cursor [OF at a(3)] a(1,2)
    by (simp add: json_member_def json_sibling_def note_sibling_def member_hints_def
        segment_ranges_append)
  moreover have "map_prod id (map (reading_of b)) (False, [?r]) =
     (is_value_member k, readings m pr (Some ?key) v)"
    using reading_of_string [OF at] sibling_is_no_value [OF a(4)] a(1) by (simp add: is_value_member_def)
  ultimately show thesis by (rule that)
next
  case False
  let ?key = "the (decode_json_string k)"
  let ?out = "pre @ concat (map snd segs)"
  have "decodes k" "admitted d v" using assms(5) False by (auto simp: member_admitted_def)
  then have step: "json_member m pr n d (hs, segment_ranges (length pre) segs) ?key (cursor b i ?out) =
      parse_then (json_value m pr n (Some ?key) [] d (cursor b i ?out))
        (\<lambda>q. Parsed (note_value ?key (cursor b i ?out) (hs, segment_ranges (length pre) segs) q))"
    using sibling_member_at [OF assms(1,3)] False by (simp add: json_member_def)
  then have "json_value m pr n (Some ?key) [] d (cursor b i ?out) \<noteq> OutOfFuel" using assms(6) by auto
  with \<open>admitted d v\<close> obtain rs where rs: "json_value m pr n (Some ?key) [] d (cursor b i ?out) =
      Parsed (cursor b (i + length s) (?out @ rs))"
    "map (reading_of b) rs = readings m pr (Some ?key) v"
    by (metis value_okD [OF assms(4,1,2)])
  let ?seg = "(is_value_member k, rs)"
  have "json_member m pr n d (hs, segment_ranges (length pre) segs) ?key (cursor b i ?out) =
     Parsed ((hs @ member_hints [(k, v)], segment_ranges (length pre) (segs @ [?seg])),
       cursor b (i + length s) (pre @ concat (map snd (segs @ [?seg]))))"
    using False by (simp add: step rs(1) note_value_def is_value_member_def member_hints_def
        segment_ranges_append)
  moreover have "map_prod id (map (reading_of b)) ?seg =
     (is_value_member k, readings m pr (Some ?key) v)" using rs(2) by simp
  ultimately show thesis by (rule that)
qed

text \<open>One member of an object with what follows it.\<close>

lemma member_step:
  assumes at: "drop i b = quoted k @ w1 @ '':'' @ w2 @ s @ w @ c # u" and c: "c \<in> set '',}''"
    and k: "literal_body k" "ws w1" "ws w2" "ws w"
    and v: "json_text v s" "value_ok m pr b v s" "member_admitted d (k, v)"
    and fuel: "json_object m pr (Suc n) d (hs, segment_ranges (length pre) segs)
      (cursor b i (pre @ concat (map snd segs))) \<noteq> OutOfFuel"
  obtains new where
    "json_object m pr (Suc n) d (hs, segment_ranges (length pre) segs)
       (cursor b i (pre @ concat (map snd segs))) =
     (let ms = (hs @ member_hints [(k, v)], segment_ranges (length pre) (segs @ new));
          p = cursor b (i + length (quoted k @ w1 @ '':'' @ w2 @ s @ w) + 1)
            (pre @ concat (map snd (segs @ new)))
      in if c = CHR '','' then json_object m pr n d ms p else Parsed (finish_object ms p))"
    "map (map_prod id (map (reading_of b))) new = member_readings m pr [(k, v)]"
proof -
  let ?key = "the (decode_json_string k)"
  let ?segs = "segs @ key_segment m i k"
  let ?j = "i + length (quoted k @ w1 @ '':'' @ w2)"
  have dec: "decodes k" using v(3) by (simp add: member_admitted_def)
  obtain x t where x: "s = x # t" "\<not> is_json_ws x" using json_text_head [OF v(1)] .
  have "drop i b = quoted k @ w1 @ '':'' @ w2 @ x # t @ w @ c # u" using at x by simp
  note key = key_at [OF this k(1) dec k(2,3) x(2), of m "pre @ concat (map snd segs)"]
  have key: "json_key m (cursor b i (pre @ concat (map snd segs))) =
      Parsed (?key, cursor b ?j (pre @ concat (map snd ?segs)))"
    unfolding key by simp
  have here: "drop ?j b = s @ w @ c # u"
    using drop_more [of i b "quoted k @ w1 @ '':'' @ w2"] at by simp
  have stop: "stops is_number_byte (w @ c # u)" using ws_stops_number k(4) c by auto
  have "json_member m pr n d (hs, segment_ranges (length pre) ?segs) ?key
      (cursor b ?j (pre @ concat (map snd ?segs))) \<noteq> OutOfFuel"
    using fuel by (auto simp: json_object_Suc key)
  then obtain seg where seg:
    "json_member m pr n d (hs, segment_ranges (length pre) ?segs) ?key
       (cursor b ?j (pre @ concat (map snd ?segs))) =
     Parsed ((hs @ member_hints [(k, v)], segment_ranges (length pre) (?segs @ [seg])),
       cursor b (?j + length s) (pre @ concat (map snd (?segs @ [seg]))))"
    "map_prod id (map (reading_of b)) seg = (is_value_member k, readings m pr (Some ?key) v)"
    by (rule member_at [OF here stop v])
  let ?new = "key_segment m i k @ [seg]"
  have "drop (?j + length s) b = w @ c # u" by (rule drop_more [OF here])
  moreover have "\<not> is_json_ws c" using c by (auto simp: is_json_ws_def)
  ultimately have after: "json_after (CHR ''}'') (cursor b (?j + length s) out) =
    (if c = CHR '','' then Again (cursor b (?j + length s + length w + 1) out)
     else Close (cursor b (?j + length s + length w + 1) out))" for out
    using after_at [OF _ k(4)] c by auto
  have "map (map_prod id (map (reading_of b))) ?new = member_readings m pr [(k, v)]"
    using seg(2) reading_of_string at by (auto simp: key_segment_def member_readings_def)
  moreover have "json_object m pr (Suc n) d (hs, segment_ranges (length pre) segs)
       (cursor b i (pre @ concat (map snd segs))) =
     (let ms = (hs @ member_hints [(k, v)], segment_ranges (length pre) (segs @ ?new));
          p = cursor b (i + length (quoted k @ w1 @ '':'' @ w2 @ s @ w) + 1)
            (pre @ concat (map snd (segs @ ?new)))
      in if c = CHR '','' then json_object m pr n d ms p else Parsed (finish_object ms p))"
    using seg(1) after by (simp add: json_object_Suc key Let_def add.assoc)
  ultimately show thesis by (rule that [rotated])
qed

lemma finish_segments:
  "finish_object (hs, segment_ranges (length pre) segs) (cursor b i (pre @ concat (map snd segs))) =
     cursor b i (pre @ concat (map (hinted hs) segs))"
  using hint_values_segments [of hs pre segs] by (simp add: finish_object_def cursor_def)

lemma members_ok_last:
  assumes "literal_body k" and "ws w1" and "ws w2" and "json_text v s" and "value_ok m pr b v s"
    and "ws w"
  shows "members_ok m pr b [(k, v)] (quoted k @ w1 @ '':'' @ w2 @ s @ w)"
  unfolding members_ok_def
proof (intro allI impI)
  fix i and pre :: "region list" and segs0 hs0 rest fuel d
  let ?t = "quoted k @ w1 @ '':'' @ w2 @ s @ w"
  assume at: "drop i b = ?t @ ''}'' @ rest" and d: "list_all (member_admitted d) [(k, v)]"
    and fuel: "json_object m pr fuel d (hs0, segment_ranges (length pre) segs0)
       (cursor b i (pre @ concat (map snd segs0))) \<noteq> OutOfFuel"
  then obtain n where n: "fuel = Suc n" by (cases fuel) auto
  have here: "drop i b = quoted k @ w1 @ '':'' @ w2 @ s @ w @ CHR ''}'' # rest" using at by simp
  have c: "CHR ''}'' \<in> set '',}''" by simp
  have adm: "member_admitted d (k, v)" using d by simp
  obtain new where
    "json_object m pr fuel d (hs0, segment_ranges (length pre) segs0)
       (cursor b i (pre @ concat (map snd segs0))) =
     (let ms = (hs0 @ member_hints [(k, v)], segment_ranges (length pre) (segs0 @ new));
          p = cursor b (i + length ?t + 1) (pre @ concat (map snd (segs0 @ new)))
      in if CHR ''}'' = CHR '','' then json_object m pr n d ms p else Parsed (finish_object ms p))"
    "map (map_prod id (map (reading_of b))) new = member_readings m pr [(k, v)]"
    unfolding n by (rule member_step [OF here c assms(1-3,6,4,5) adm fuel [unfolded n]])
  then show "\<exists>segs. json_object m pr fuel d (hs0, segment_ranges (length pre) segs0)
         (cursor b i (pre @ concat (map snd segs0))) =
         Parsed (cursor b (i + length ?t + 1)
           (pre @ concat (map (hinted (hs0 @ member_hints [(k, v)])) (segs0 @ segs)))) \<and>
       map (map_prod id (map (reading_of b))) segs = member_readings m pr [(k, v)]"
    using finish_segments [of "hs0 @ member_hints [(k, v)]" pre "segs0 @ new" b "i + length ?t + 1"]
    by (intro exI [of _ new]) (simp add: Let_def)
qed

lemma members_append:
  "member_hints (xs @ ys) = member_hints xs @ member_hints ys"
  "member_readings m pr (xs @ ys) = member_readings m pr xs @ member_readings m pr ys"
  by (simp_all add: member_hints_def member_readings_def)

lemma members_okD:
  assumes "members_ok m pr b ms t" and "drop i b = t @ ''}'' @ rest"
    and "list_all (member_admitted d) ms"
    and "json_object m pr fuel d (hs0, segment_ranges (length pre) segs0)
       (cursor b i (pre @ concat (map snd segs0))) \<noteq> OutOfFuel"
  obtains segs where "json_object m pr fuel d (hs0, segment_ranges (length pre) segs0)
         (cursor b i (pre @ concat (map snd segs0))) =
         Parsed (cursor b (i + length t + 1)
           (pre @ concat (map (hinted (hs0 @ member_hints ms)) (segs0 @ segs))))"
    "map (map_prod id (map (reading_of b))) segs = member_readings m pr ms"
  using assms unfolding members_ok_def by blast

lemma members_ok_more:
  assumes "literal_body k" and "ws w1" and "ws w2" and "json_text v s" and "value_ok m pr b v s"
    and "ws w" and "ws w'" and "json_members ms t" and "members_ok m pr b ms t"
  shows "members_ok m pr b ((k, v) # ms) (quoted k @ w1 @ '':'' @ w2 @ s @ w @ '','' @ w' @ t)"
  unfolding members_ok_def
proof (intro allI impI)
  fix i and pre :: "region list" and segs0 hs0 rest fuel d
  let ?h = "quoted k @ w1 @ '':'' @ w2 @ s @ w"
  let ?t = "quoted k @ w1 @ '':'' @ w2 @ s @ w @ '','' @ w' @ t"
  assume at: "drop i b = ?t @ ''}'' @ rest" and d: "list_all (member_admitted d) ((k, v) # ms)"
    and fuel: "json_object m pr fuel d (hs0, segment_ranges (length pre) segs0)
       (cursor b i (pre @ concat (map snd segs0))) \<noteq> OutOfFuel"
  then obtain n where n: "fuel = Suc n" by (cases fuel) auto
  let ?i = "i + length ?h + 1"
  let ?hs = "hs0 @ member_hints [(k, v)]"
  have here: "drop i b = quoted k @ w1 @ '':'' @ w2 @ s @ w @ CHR '','' # w' @ t @ ''}'' @ rest" using at by simp
  have c: "CHR '','' \<in> set '',}''" by simp
  have adm: "member_admitted d (k, v)" using d by simp
  obtain new where
    "json_object m pr fuel d (hs0, segment_ranges (length pre) segs0)
       (cursor b i (pre @ concat (map snd segs0))) =
     (let ms = (?hs, segment_ranges (length pre) (segs0 @ new));
          p = cursor b ?i (pre @ concat (map snd (segs0 @ new)))
      in if CHR '','' = CHR '','' then json_object m pr n d ms p else Parsed (finish_object ms p))"
    and new: "map (map_prod id (map (reading_of b))) new = member_readings m pr [(k, v)]"
    unfolding n by (rule member_step [OF here c assms(1-3,6,4,5) adm fuel [unfolded n]])
  then have step: "json_object m pr fuel d (hs0, segment_ranges (length pre) segs0)
       (cursor b i (pre @ concat (map snd segs0))) =
     json_object m pr n d (?hs, segment_ranges (length pre) (segs0 @ new))
       (cursor b ?i (pre @ concat (map snd (segs0 @ new))))"
    by (simp add: Let_def)
  obtain u where u: "t = CHR 0x22 # u" using members_head [OF assms(8)] .
  have tail: "drop ?i b = w' @ t @ ''}'' @ rest"
    using drop_more [of i b "?h @ '',''"] at by (simp add: add.assoc)
  then have "drop ?i b = w' @ CHR 0x22 # u @ ''}'' @ rest" using u by simp
  note skip = value_ws(3) [OF this assms(7), of m pr n d]
  have more_fuel: "json_object m pr n d (?hs, segment_ranges (length pre) (segs0 @ new))
       (cursor b (?i + length w') (pre @ concat (map snd (segs0 @ new)))) \<noteq> OutOfFuel"
    using fuel step skip by (simp add: is_json_ws_def)
  have more: "drop (?i + length w') b = t @ ''}'' @ rest" by (rule drop_more [OF tail])
  have adms: "list_all (member_admitted d) ms" using d by simp
  obtain segs where
    "json_object m pr n d (?hs, segment_ranges (length pre) (segs0 @ new))
         (cursor b (?i + length w') (pre @ concat (map snd (segs0 @ new)))) =
         Parsed (cursor b (?i + length w' + length t + 1)
           (pre @ concat (map (hinted (?hs @ member_hints ms)) ((segs0 @ new) @ segs))))"
    and segs: "map (map_prod id (map (reading_of b))) segs = member_readings m pr ms"
    by (rule members_okD [OF assms(9) more adms more_fuel])
  then have "json_object m pr fuel d (hs0, segment_ranges (length pre) segs0)
         (cursor b i (pre @ concat (map snd segs0))) =
      Parsed (cursor b (i + length ?t + 1)
        (pre @ concat (map (hinted (hs0 @ member_hints ((k, v) # ms))) (segs0 @ new @ segs))))"
    using step skip members_append(1) [of "[(k, v)]" ms]
    by (simp add: is_json_ws_def add.assoc add.commute [of 1])
  moreover have "map (map_prod id (map (reading_of b))) (new @ segs) = member_readings m pr ((k, v) # ms)"
    using new segs members_append(2) [of m pr "[(k, v)]" ms] by simp
  ultimately show "\<exists>segs. json_object m pr fuel d (hs0, segment_ranges (length pre) segs0)
         (cursor b i (pre @ concat (map snd segs0))) =
         Parsed (cursor b (i + length ?t + 1)
           (pre @ concat (map (hinted (hs0 @ member_hints ((k, v) # ms))) (segs0 @ segs)))) \<and>
       map (map_prod id (map (reading_of b))) segs = member_readings m pr ((k, v) # ms)" by blast
qed

lemma concat_map_concat: "concat (map f (concat xss)) = concat (map (\<lambda>xs. concat (map f xs)) xss)"
  by (induction xss) auto

lemma readings_of_segments:
  assumes "map (map_prod id (map (reading_of b))) segs = member_readings m pr ms"
  shows "map (reading_of b) (concat (map (hinted (member_hints ms)) segs)) = readings m pr key (TObject ms)"
proof -
  define hs where "hs = member_hints ms"
  define f :: "reading segment \<Rightarrow> reading list"
    where "f = (\<lambda>(marked, rs). map (if marked then hint_reading hs else id) rs)"
  have "map (reading_of b) (hinted hs seg) = f (map_prod id (map (reading_of b)) seg)" for seg
    by (cases seg) (simp add: f_def reading_of_hints)
  then have "map (reading_of b) (concat (map (hinted hs) segs)) =
      concat (map f (map (map_prod id (map (reading_of b))) segs))"
    by (simp add: map_concat comp_def)
  also have "\<dots> = concat (map f (member_readings m pr ms))" unfolding assms ..
  also have "\<dots> = concat (map (\<lambda>(k, v). concat (map f
     ((if m = ToolResultMode then [(False, [(JsonKey, None, [], k)])] else [])
      @ [(is_value_member k, readings m pr (Some (the (decode_json_string k))) v)]))) ms)"
    unfolding member_readings_def concat_map_concat by (simp add: comp_def case_prod_unfold)
  also have "\<dots> = readings m pr key (TObject ms)"
    unfolding readings.simps hs_def [symmetric]
    by (rule arg_cong [of _ _ concat], rule map_cong) (auto simp: f_def)
  finally show ?thesis by (simp add: hs_def)
qed

lemma value_ok_object:
  assumes "ws w" and "json_members ms t" and "members_ok m pr b ms t"
  shows "value_ok m pr b (TObject ms) (''{'' @ w @ t @ ''}'')"
  unfolding value_ok_def
proof (intro allI impI)
  fix i out rest fuel key d
  assume at: "drop i b = (''{'' @ w @ t @ ''}'') @ rest" and d: "admitted d (TObject ms)"
    and fuel: "json_value m pr fuel key [] d (cursor b i out) \<noteq> OutOfFuel"
  then obtain k where k: "fuel = Suc k" by (cases fuel) auto
  obtain u where u: "t = CHR 0x22 # u" using members_head [OF assms(2)] .
  let ?i = "i + length w + 1"
  let ?none = "[] :: region segment list"
  have step: "json_value m pr fuel key [] d (cursor b i out) =
      json_object m pr k (d + 1) ([], segment_ranges (length out) ?none)
        (cursor b ?i (out @ concat (map snd ?none)))"
    using begin_at [of i b "CHR ''{''" "w @ t @ ''}'' @ rest" d m pr key "[]" out] at d
      open_at [of i b "CHR ''{''" w "CHR 0x22" "u @ ''}'' @ rest" "CHR ''}''" ObjectHead out] assms(1) u
    by (simp add: k Let_def is_json_ws_def)
  have here: "drop ?i b = t @ ''}'' @ rest"
    using drop_more [of i b "''{'' @ w"] at by (simp add: add.commute)
  have adm: "list_all (member_admitted (d + 1)) ms" using d
    by (auto simp: member_admitted_def list_all_iff split: if_splits)
  obtain segs where segs: "json_object m pr k (d + 1) ([], segment_ranges (length out) ?none)
        (cursor b ?i (out @ concat (map snd ?none))) =
      Parsed (cursor b (?i + length t + 1)
        (out @ concat (map (hinted ([] @ member_hints ms)) (?none @ segs))))"
    "map (map_prod id (map (reading_of b))) segs = member_readings m pr ms"
    by (rule members_okD [OF assms(3) here adm fuel [unfolded step]])
  have len: "?i + length t + 1 = i + length (''{'' @ w @ t @ ''}'')" by simp
  show "\<exists>rs. json_value m pr fuel key [] d (cursor b i out) =
      Parsed (cursor b (i + length (''{'' @ w @ t @ ''}'')) (out @ rs)) \<and>
      map (reading_of b) rs = readings m pr key (TObject ms)"
    unfolding step segs(1) len using readings_of_segments [OF segs(2)]
    by (intro exI [of _ "concat (map (hinted (member_hints ms)) segs)"]) simp
qed

lemma value_ok_text:
  "json_text v s \<Longrightarrow> value_ok m pr b v s"
  "json_elements vs t \<Longrightarrow> elements_ok m pr b vs t"
  "json_members ms t \<Longrightarrow> members_ok m pr b ms t"
proof (induction rule: json_text_json_elements_json_members.inducts)
qed (simp_all add: value_ok_string value_ok_number value_ok_literal value_ok_list_empty value_ok_list
    value_ok_object elements_ok_last elements_ok_more members_ok_last members_ok_more
    del: append_assoc append.simps)


section \<open>The regions of a document\<close>

lemma text_has_no_bom:
  assumes "json_text v s" and "ws w"
  shows "\<not> prefix BOM (w @ s @ t)"
proof (cases w)
  case Nil
  from assms(1) show ?thesis
  proof (cases rule: json_text.cases)
    case text_number
    then obtain c n where "s = c # n" "is_number_byte c" using number_head by (cases s) auto
    then show ?thesis
      using Nil by (auto simp: BOM_def is_number_byte_def is_ascii_digit_def byte_between_def)
  qed (auto simp: Nil BOM_def quoted_def)
next
  case (Cons c w')
  then show ?thesis using assms(2) by (auto simp: BOM_def is_json_ws_def)
qed

lemma document_start:
  assumes "json_text v s" and "ws w" and "raw = b @ w @ s @ t" and "b \<in> {[], BOM}"
  shows "json_start raw = cursor raw (length (b @ w)) []"
proof -
  obtain c u where c: "s = c # u" "\<not> is_json_ws c" using json_text_head [OF assms(1)] by metis
  have "prefix BOM raw \<longleftrightarrow> b = BOM" using text_has_no_bom [OF assms(1,2)] assms(3,4) by auto
  then have "json_advance (if prefix BOM raw then 3 else 0) \<lparr>js_i = 0, js_rest = raw, js_out = []\<rparr> =
      cursor raw (length b) []"
    using assms(4) by (auto simp: BOM_def json_advance_def cursor_def numeral_3_eq_3)
  moreover have "drop (length b) raw = w @ s @ t" using assms(3) by simp
  then have "json_skip_ws (cursor raw (length b) []) = cursor raw (length b + length w) []"
    using assms(2) c by (intro skip_ws_cursor) (auto simp: stops_def)
  ultimately show ?thesis by (simp add: json_start_def)
qed


text \<open>The example of the parser's own test: a name next to its value.\<close>

lemma literal_bodies:
  "literal_body ''name''" "literal_body ''value''" "literal_body ''API_KEY''" "literal_body ''s3cret''"
  by (simp_all add: literal_body_def)

lemma sibling_document:
  "json_text (TObject [(''name'', TString ''API_KEY''), (''value'', TString ''s3cret'')])
     (''{'' @ [] @ (quoted ''name'' @ [] @ '':'' @ '' '' @ quoted ''API_KEY'' @ [] @ '','' @ [] @
       (quoted ''value'' @ [] @ '':'' @ [] @ quoted ''s3cret'' @ [])) @ ''}'')"
  by (intro text_object members_more members_last text_string literal_bodies) (simp_all add: is_json_ws_def)


end
