(* ===== verification/Parsers.thy ===== *)
theory Parsers
  imports Json
begin

text \<open>
  The region parsers of \<open>parse/mod.rs\<close>: JSON with the secrets of Kubernetes and Terraform
  documents, NDJSON, tool results, dotenv files and line-oriented configuration. The document
  tree of \<open>serde_json\<close> and the Unicode table of \<open>char::is_alphanumeric\<close> are parameters. Slices
  are taken at line feeds, separators and trimmed ends, where they cannot panic.
\<close>


section \<open>JSON documents with declared secrets\<close>

text \<open>\<open>serde_json::Value\<close>.\<close>

datatype json_doc =
    JNull | JBool bool | JNumber str | JText str | JList "json_doc list" | JMap "(str \<times> json_doc) list"

type_synonym serde_json = "str \<Rightarrow> json_doc option"

fun json_get :: "str \<Rightarrow> json_doc \<Rightarrow> json_doc option" where
  "json_get key (JMap m) = map_of m key"
| "json_get key _ = None"

fun collect_true_leaf_keys :: "json_doc \<Rightarrow> str list"
  and collect_true_entry_keys :: "str \<times> json_doc \<Rightarrow> str list" where
  "collect_true_leaf_keys (JMap m) = concat (map collect_true_entry_keys m)"
| "collect_true_leaf_keys (JList ds) = concat (map collect_true_leaf_keys ds)"
| "collect_true_leaf_keys _ = []"
| "collect_true_entry_keys (key, child) =
     (if child = JBool True then [key] else collect_true_leaf_keys child)"

fun collect_terraform_sensitive_keys :: "json_doc \<Rightarrow> str list" where
  "collect_terraform_sensitive_keys (JMap m) =
     (case map_of m ''sensitive_values'' of
        Some sensitive \<Rightarrow> collect_true_leaf_keys sensitive | None \<Rightarrow> [])
     @ concat (map (\<lambda>(_, child). collect_terraform_sensitive_keys child) m)"
| "collect_terraform_sensitive_keys (JList ds) = concat (map collect_terraform_sensitive_keys ds)"
| "collect_terraform_sensitive_keys _ = []"

definition kubernetes_secret_keys :: "json_doc \<Rightarrow> str list" where
  "kubernetes_secret_keys document =
     (case json_get ''kind'' document of
        Some (JText kind) \<Rightarrow>
          if eq_ascii_ci kind ''secret'' then
            concat (map (\<lambda>container.
              (case json_get container document of Some (JMap m) \<Rightarrow> map fst m | _ \<Rightarrow> []))
              [''data'', ''stringData''])
          else []
      | _ \<Rightarrow> [])"

definition push_hint :: "str \<Rightarrow> region \<Rightarrow> region" where
  "push_hint hint r =
     r\<lparr>region_ctx := (region_ctx r)\<lparr>ctx_hints := ctx_hints (region_ctx r) @ [hint]\<rparr>\<rparr>"

definition mark_json_secret_schema :: "serde_json \<Rightarrow> str \<Rightarrow> region list \<Rightarrow> region list" where
  "mark_json_secret_schema serde raw regions =
     (if \<not> str_contains raw ''sensitive_values'' \<and>
         \<not> str_contains raw ([CHR 0x22] @ ''kind'' @ [CHR 0x22]) then regions
      else case serde raw of
          None \<Rightarrow> regions
        | Some document \<Rightarrow>
            let secret_keys = kubernetes_secret_keys document @ collect_terraform_sensitive_keys document
            in if secret_keys = [] then regions
               else map (\<lambda>r. case ctx_key (region_ctx r) of
                   Some key \<Rightarrow> if key \<in> set secret_keys then push_hint SECRET_VALUE_HINT r else r
                 | None \<Rightarrow> r) regions)"

definition json_parser :: "serde_json \<Rightarrow> parser" where
  "json_parser serde raw =
     map_option (mark_json_secret_schema serde raw) (parse_json_regions raw)"

definition ndjson_parser :: parser where
  "ndjson_parser raw = parse_ndjson_regions raw"

definition tool_result_parser :: parser where
  "tool_result_parser raw = parse_tool_result_regions raw"

definition analysis_regions_for_kind :: "str \<Rightarrow> kind \<Rightarrow> region list option" where
  "analysis_regions_for_kind raw kind =
     (case kind of
        KJson \<Rightarrow> parse_json_analysis_regions raw
      | KHar \<Rightarrow> parse_json_analysis_regions raw
      | KNdjson \<Rightarrow> parse_ndjson_analysis_regions raw
      | KToolResult \<Rightarrow> parse_tool_result_analysis_regions raw
      | _ \<Rightarrow> None)"


section \<open>Lines and quotes\<close>

definition line_end_at :: "str \<Rightarrow> nat \<Rightarrow> nat" where
  "line_end_at raw pos = pos + length (takeWhile (\<lambda>c. c \<noteq> CHR 0x0A) (drop pos raw))"

definition trim_end_crs :: "str \<Rightarrow> str" where
  "trim_end_crs s = rev (dropWhile (\<lambda>c. code c = 13) (rev s))"

definition BOM_char :: str where
  "BOM_char = BOM"

fun trim_start_boms :: "nat \<Rightarrow> str \<Rightarrow> str" where
  "trim_start_boms 0 s = s"
| "trim_start_boms (Suc n) s = (if prefix BOM_char s then trim_start_boms n (drop 3 s) else s)"

definition is_blank :: "byte \<Rightarrow> bool" where
  "is_blank c \<longleftrightarrow> c = CHR '' '' \<or> code c = 9"

definition matching_quote_contents :: "str \<Rightarrow> str option" where
  "matching_quote_contents v =
     (let strip = (\<lambda>q. Option.bind (strip_prefix [q] v) (strip_suffix [q]))
      in if prefix [CHR 0x27] v \<or> suffix [CHR 0x27] v then strip (CHR 0x27)
         else if prefix [CHR 0x22] v \<or> suffix [CHR 0x22] v then strip (CHR 0x22)
         else Some v)"

text \<open>\<open>char::is_alphanumeric\<close> outside ASCII is the table \<open>alnum\<close>.\<close>

definition is_key_char :: "(str \<Rightarrow> bool) \<Rightarrow> str \<Rightarrow> bool" where
  "is_key_char alnum ch \<longleftrightarrow>
     (case ch of
        [c] \<Rightarrow> is_ascii_alphanumeric c \<or> c \<in> set ''_.-''
      | _ \<Rightarrow> alnum ch)"

fun closing_quote_from :: "bool \<Rightarrow> nat \<Rightarrow> str list \<Rightarrow> nat option" where
  "closing_quote_from escaped i [] = None"
| "closing_quote_from escaped i (ch # chars) =
     (if escaped then closing_quote_from False (i + length ch) chars
      else if ch = [CHR 0x5C] then closing_quote_from True (i + length ch) chars
      else if ch = [CHR 0x22] then Some i
      else closing_quote_from False (i + length ch) chars)"

definition closing_double_quote :: "str \<Rightarrow> nat option" where
  "closing_double_quote v = closing_quote_from False 0 (utf8_chars v)"

text \<open>The first \<open>#\<close> after white space; at the start of the value only when \<open>first\<close> says so.\<close>

fun comment_from :: "bool \<Rightarrow> nat \<Rightarrow> str list \<Rightarrow> nat option" where
  "comment_from after_space i [] = None"
| "comment_from after_space i (ch # chars) =
     (if ch = ''#'' \<and> after_space then Some i
      else comment_from (is_whitespace_char ch) (i + length ch) chars)"

definition inline_env_comment_start :: "str \<Rightarrow> nat option" where
  "inline_env_comment_start v = comment_from True 0 (utf8_chars v)"


section \<open>Dotenv files\<close>

definition strip_env_command_prefix :: "str \<Rightarrow> str \<Rightarrow> str option" where
  "strip_env_command_prefix v pre =
     Option.bind (strip_prefix pre v) (\<lambda>rest.
       let trimmed = dropWhile is_blank rest
       in if length trimmed < length rest then Some trimmed else None)"

fun env_colon_from :: "nat \<Rightarrow> str \<Rightarrow> nat option" where
  "env_colon_from i [] = None"
| "env_colon_from i (c # s) =
     (if c = CHR '':'' \<and> (case s of [] \<Rightarrow> False | d # _ \<Rightarrow> is_blank d) then Some i
      else env_colon_from (Suc i) s)"

definition env_separator :: "str \<Rightarrow> nat option" where
  "env_separator v =
     (case str_find ''='' v of Some eq \<Rightarrow> Some eq | None \<Rightarrow> env_colon_from 0 v)"

text \<open>The value of a line: where it begins and ends, relative to its own start.\<close>

definition env_value_span :: "str \<Rightarrow> nat \<times> nat" where
  "env_value_span v =
     (case v of
        [] \<Rightarrow> (0, 0)
      | c # after \<Rightarrow>
          (if c = CHR 0x22 then
             (1, 1 + (case closing_double_quote after of Some i \<Rightarrow> i | None \<Rightarrow> length after))
           else if c = CHR 0x27 then
             (1, 1 + (case str_find [CHR 0x27] after of Some i \<Rightarrow> i | None \<Rightarrow> length after))
           else
             (0, length (trim_end (take (case inline_env_comment_start v of
                Some i \<Rightarrow> i | None \<Rightarrow> length v) v)))))"

definition strip_env_commands :: "str \<Rightarrow> str" where
  "strip_env_commands body =
     (let body = (case strip_env_command_prefix body ''export'' of
                    Some rest \<Rightarrow> rest
                  | None \<Rightarrow> (case strip_env_command_prefix body ''set'' of
                               Some rest \<Rightarrow> rest | None \<Rightarrow> body))
      in case strip_prefix ''$env:'' body of Some rest \<Rightarrow> rest | None \<Rightarrow> body)"

definition parse_env_line :: "(str \<Rightarrow> bool) \<Rightarrow> str \<Rightarrow> nat \<Rightarrow> nat \<Rightarrow> (str \<times> byte_range) option" where
  "parse_env_line alnum raw start end =
     (let line = trim_end_crs (subtext raw start end);
          bom = (if start = 0 \<and> prefix BOM_char line then 3 else 0);
          first = trim_start (drop bom line)
      in if first = [] \<or> prefix ''#'' first then None
         else
           let body = strip_env_commands first
           in case env_separator body of
                None \<Rightarrow> None
              | Some separator \<Rightarrow>
                  let key = trim (take separator body)
                  in if key = [] \<or> \<not> list_all (is_key_char alnum) (utf8_chars key) then None
                     else
                       let v = dropWhile is_blank (drop (separator + 1) body);
                           vstart = length line - length v
                       in case env_value_span v of
                            (a, b) \<Rightarrow>
                              if vstart + b \<le> vstart + a then None
                              else Some (key, range_new (start + (vstart + a)) (start + (vstart + b))))"

text \<open>The line that ends a multiline value: its start and its end.\<close>

function env_terminator :: "str \<Rightarrow> str \<Rightarrow> bool \<Rightarrow> nat \<Rightarrow> (nat \<times> nat) option" where
  "env_terminator raw delimiter strip_tabs pos =
     (if pos \<le> length raw then
        let end = line_end_at raw pos;
            line = trim_end_crs (subtext raw pos end);
            terminator = (if strip_tabs then dropWhile (\<lambda>c. code c = 9) line else line)
        in if terminator = delimiter then Some (pos, end)
           else if end = length raw then None
           else env_terminator raw delimiter strip_tabs (end + 1)
      else None)"
  by pat_completeness auto
termination
  by (relation "measure (\<lambda>(raw, delimiter, strip_tabs, pos). Suc (length raw) - pos)")
    (auto simp: line_end_at_def)

declare env_terminator.simps [simp del]

definition parse_env_multiline ::
    "(str \<Rightarrow> bool) \<Rightarrow> str \<Rightarrow> nat \<Rightarrow> nat \<Rightarrow> (str \<times> byte_range \<times> nat) option" where
  "parse_env_multiline alnum raw start line_end =
     (let header = trim (subtext raw start line_end);
          header = trim_start_boms (length header) header
      in case split_once ''<<'' header of
           None \<Rightarrow> None
         | Some (key, raw_delimiter) \<Rightarrow>
             let key = trim key;
                 raw_delimiter = trim raw_delimiter;
                 strip_tabs = prefix ''-'' raw_delimiter;
                 delimiter = trim (case strip_prefix ''-'' raw_delimiter of
                   Some d \<Rightarrow> d | None \<Rightarrow> raw_delimiter)
             in case matching_quote_contents delimiter of
                  None \<Rightarrow> None
                | Some delimiter \<Rightarrow>
                    if key = [] \<or> delimiter = [] \<or> list_ex is_whitespace_char (utf8_chars delimiter) \<or>
                       \<not> list_all (is_key_char alnum) (utf8_chars key) then None
                    else
                      let value_start = line_end + 1
                      in case env_terminator raw delimiter strip_tabs value_start of
                           None \<Rightarrow> None
                         | Some (pos, end) \<Rightarrow>
                             let value_end =
                               (if suffix [CHR 0x0D, CHR 0x0A] (take pos raw) then pos - 2
                                else if suffix [CHR 0x0A] (take pos raw) then pos - 1 else pos)
                             in if value_end \<le> value_start then None
                                else Some (key, range_new value_start value_end, end + 1))"

definition env_region :: "str \<Rightarrow> byte_range \<Rightarrow> region" where
  "env_region key r =
     \<lparr>region_span = r,
      region_ctx = \<lparr>ctx_path = None, ctx_key = Some key, ctx_hints = [], ctx_kind = Body,
        ctx_format = KEnv\<rparr>\<rparr>"

lemma env_terminator_from: "env_terminator raw d t pos = Some (a, b) \<Longrightarrow> pos \<le> a \<and> a \<le> b"
proof (induction raw d t pos rule: env_terminator.induct)
  case (1 raw d t pos)
  show ?case
    using "1.prems" "1.IH" by (subst (asm) env_terminator.simps)
      (fastforce simp: Let_def line_end_at_def split: if_splits)
qed

lemma parse_env_multiline_next:
  "parse_env_multiline alnum raw start line_end = Some (key, r, next) \<Longrightarrow> line_end < next"
  by (auto simp: parse_env_multiline_def Let_def dest!: env_terminator_from
      split: option.splits prod.splits if_splits)

function env_loop :: "(str \<Rightarrow> bool) \<Rightarrow> str \<Rightarrow> nat \<Rightarrow> region list" where
  "env_loop alnum raw pos =
     (if pos < length raw then
        let line_end = line_end_at raw pos
        in case parse_env_multiline alnum raw pos line_end of
             Some (key, r, next) \<Rightarrow> env_region key r # env_loop alnum raw next
           | None \<Rightarrow>
               (case parse_env_line alnum raw pos line_end of
                  Some (key, r) \<Rightarrow> env_region key r # env_loop alnum raw (line_end + 1)
                | None \<Rightarrow> env_loop alnum raw (line_end + 1))
      else [])"
  by pat_completeness auto
termination
  by (relation "measure (\<lambda>(alnum, raw, pos). length raw - pos)")
    (auto simp: line_end_at_def dest!: parse_env_multiline_next)

declare env_loop.simps [simp del]

definition env_parser :: "(str \<Rightarrow> bool) \<Rightarrow> parser" where
  "env_parser alnum raw = Some (env_loop alnum raw 0)"


section \<open>Dotenv documents\<close>

definition strict_env_key :: "str \<Rightarrow> bool" where
  "strict_env_key key \<longleftrightarrow>
     (case utf8_chars key of
        [] \<Rightarrow> False
      | first # rest \<Rightarrow>
          list_ex (\<lambda>c. first = [c] \<and> (is_ascii_uppercase c \<or> c = CHR ''_'')) first \<and>
          list_all (\<lambda>ch. list_ex (\<lambda>c. ch = [c] \<and>
            (is_ascii_uppercase c \<or> is_ascii_digit c \<or> c = CHR ''_'')) ch) rest)"

text \<open>Whether a line counts as an assignment; blank lines and comments count as nothing.\<close>

function dotenv_counts :: "(str \<Rightarrow> bool) \<Rightarrow> str \<Rightarrow> nat \<Rightarrow> nat \<times> nat \<Rightarrow> nat \<times> nat" where
  "dotenv_counts alnum raw pos counts =
     (if pos < length raw then
        let line_end = line_end_at raw pos;
            trimmed = trim (subtext raw pos line_end);
            (assignments, meaningful) = counts
        in dotenv_counts alnum raw (line_end + 1)
             (if trimmed = [] \<or> prefix ''#'' trimmed then counts
              else
                ((case parse_env_line alnum raw pos line_end of
                    Some (key, _) \<Rightarrow> if strict_env_key key then assignments + 1 else assignments
                  | None \<Rightarrow> assignments),
                 meaningful + 1))
      else counts)"
  by pat_completeness auto
termination
  by (relation "measure (\<lambda>(alnum, raw, pos, counts). length raw - pos)") (auto simp: line_end_at_def)

declare dotenv_counts.simps [simp del]

definition looks_like_dotenv_document :: "(str \<Rightarrow> bool) \<Rightarrow> str \<Rightarrow> bool" where
  "looks_like_dotenv_document alnum raw \<longleftrightarrow>
     (case dotenv_counts alnum raw 0 (0, 0) of
        (assignments, meaningful) \<Rightarrow> 2 \<le> assignments \<and> assignments = meaningful)"


section \<open>Line-oriented configuration\<close>

datatype structured_schema = SGeneric | SAws | SKubeconfig | SNpm | SPypi

definition is_schema_secret_key :: "structured_schema \<Rightarrow> str \<Rightarrow> bool" where
  "is_schema_secret_key schema key \<longleftrightarrow>
     (let lower = map to_ascii_lowercase
      in case schema of
           SGeneric \<Rightarrow> False
         | SAws \<Rightarrow> lower key \<in> set [''aws_access_key_id'', ''aws_secret_access_key'', ''aws_session_token'']
         | SKubeconfig \<Rightarrow>
             lower key \<in> set [''token'', ''password'', ''client-key-data'', ''id-token'', ''refresh-token'']
         | SNpm \<Rightarrow>
             lower (dropWhile (\<lambda>c. c = CHR ''_'') key)
               \<in> set [''auth_token'', ''authtoken'', ''password'', ''auth'']
         | SPypi \<Rightarrow> eq_ascii_ci key ''password'')"

definition structured_format :: "structured_schema \<Rightarrow> kind" where
  "structured_format schema =
     KOther (case schema of
       SGeneric \<Rightarrow> ''structured'' | SAws \<Rightarrow> ''structured:aws''
     | SKubeconfig \<Rightarrow> ''structured:kubeconfig'' | SNpm \<Rightarrow> ''structured:npm''
     | SPypi \<Rightarrow> ''structured:pypi'')"

definition yaml_scalar_without_quotes :: "str \<Rightarrow> str" where
  "yaml_scalar_without_quotes v =
     (let v = trim v
      in if length v < 2 then v
         else if (hd v = CHR 0x22 \<and> last v = CHR 0x22) \<or> (hd v = CHR 0x27 \<and> last v = CHR 0x27)
         then butlast (tl v) else v)"

definition is_kubernetes_secret :: "str \<Rightarrow> bool" where
  "is_kubernetes_secret raw \<longleftrightarrow>
     list_ex (\<lambda>line. case strip_prefix ''kind:'' (trim line) of
         Some v \<Rightarrow> eq_ascii_ci (yaml_scalar_without_quotes v) ''secret'' | None \<Rightarrow> False)
       (str_lines raw)"

text \<open>A colon ends a key only before white space or at the end.\<close>

fun structured_colon_from :: "nat \<Rightarrow> str list \<Rightarrow> nat option" where
  "structured_colon_from i [] = None"
| "structured_colon_from i (ch # chars) =
     (if ch = '':'' \<and> (case chars of [] \<Rightarrow> True | next # _ \<Rightarrow> is_whitespace_char next) then Some i
      else structured_colon_from (i + length ch) chars)"

definition structured_separator :: "str \<Rightarrow> nat option" where
  "structured_separator v =
     (case (str_find ''='' v, structured_colon_from 0 (utf8_chars v)) of
        (Some a, Some b) \<Rightarrow> Some (if a < b then a else b)
      | (Some a, None) \<Rightarrow> Some a
      | (None, b) \<Rightarrow> b)"

definition semantic_structured_key :: "str \<Rightarrow> str" where
  "semantic_structured_key key =
     (if prefix ''//'' key then
        (case rsplit_once '':'' key of
           Some (_, auth_key) \<Rightarrow>
             (let k = dropWhile (\<lambda>c. c = CHR ''_'') auth_key
              in if k = ''authToken'' then ''AUTH_TOKEN''
                 else if k = ''password'' then ''PASSWORD''
                 else if k = ''auth'' then ''AUTH'' else k)
         | None \<Rightarrow> key)
      else key)"

definition structured_scalar_span :: "str \<Rightarrow> nat \<Rightarrow> nat \<Rightarrow> byte_range" where
  "structured_scalar_span raw start end =
     (case subtext raw start end of
        [] \<Rightarrow> range_new start end
      | c # after \<Rightarrow>
          (if c = CHR 0x22 then
             range_new (start + 1)
               (case closing_double_quote after of Some i \<Rightarrow> start + 1 + i | None \<Rightarrow> end)
           else if c = CHR 0x27 then
             range_new (start + 1)
               (case str_find [CHR 0x27] after of Some i \<Rightarrow> start + 1 + i | None \<Rightarrow> end)
           else
             (case comment_from False 0 (utf8_chars (c # after)) of
                Some i \<Rightarrow> range_new start (start + length (trim_end (take i (c # after))))
              | None \<Rightarrow> range_new start end)))"

definition is_yaml_block_indicator :: "str \<Rightarrow> bool" where
  "is_yaml_block_indicator v \<longleftrightarrow> trim v \<in> set [''|'', ''|-'', ''|+'', ''>'', ''>-'', ''>+'']"

definition indent_of :: "str \<Rightarrow> nat" where
  "indent_of line = length (takeWhile is_blank line)"

function yaml_block_end :: "str \<Rightarrow> nat \<Rightarrow> nat \<Rightarrow> nat \<Rightarrow> nat" where
  "yaml_block_end raw parent_indent pos end =
     (if pos < length raw then
        let line_end = line_end_at raw pos;
            line = trim_end_crs (subtext raw pos line_end)
        in if trim line = [] then yaml_block_end raw parent_indent (line_end + 1) end
           else if indent_of line \<le> parent_indent then end
           else yaml_block_end raw parent_indent (line_end + 1) line_end
      else end)"
  by pat_completeness auto
termination
  by (relation "measure (\<lambda>(raw, parent_indent, pos, end). length raw - pos)") (auto simp: line_end_at_def)

declare yaml_block_end.simps [simp del]

definition yaml_block_span :: "str \<Rightarrow> nat \<Rightarrow> nat \<Rightarrow> byte_range option" where
  "yaml_block_span raw pos parent_indent =
     (let end = yaml_block_end raw parent_indent pos pos
      in if pos < end then Some (range_new pos end) else None)"

definition plain_structured_line :: "structured_schema \<Rightarrow> nat \<Rightarrow> str \<Rightarrow> region list" where
  "plain_structured_line schema start line =
     (if line = [] then []
      else [\<lparr>region_span = range_new start (start + length line),
             region_ctx = \<lparr>ctx_path = None, ctx_key = None, ctx_hints = [], ctx_kind = PlainText,
               ctx_format = structured_format schema\<rparr>\<rparr>])"

text \<open>The YAML keys above a line, innermost last, and the INI section.\<close>

record structured_scope =
  ss_stack :: "(nat \<times> str) list"
  ss_section :: "str option"

fun pop_deeper :: "nat \<Rightarrow> (nat \<times> str) list \<Rightarrow> (nat \<times> str) list" where
  "pop_deeper indent stack = rev (dropWhile (\<lambda>(level, _). indent \<le> level) (rev stack))"

fun join_path :: "str list \<Rightarrow> str" where
  "join_path [] = []"
| "join_path [key] = key"
| "join_path (key # keys) = key @ ''.'' @ join_path keys"

definition structured_path :: "structured_scope \<Rightarrow> str \<Rightarrow> str" where
  "structured_path sc key =
     (let path = (case ss_section sc of Some s \<Rightarrow> [s] | None \<Rightarrow> []) @ map snd (ss_stack sc) @ [key]
      in join_path path)"

definition structured_hints :: "structured_schema \<Rightarrow> bool \<Rightarrow> (nat \<times> str) list \<Rightarrow> str \<Rightarrow> str list" where
  "structured_hints schema kubernetes_secret stack key =
     (if kubernetes_secret \<and> stack \<noteq> [] \<and> snd (last stack) \<in> set [''data'', ''stringData'']
      then [SECRET_VALUE_HINT] else [])
     @ (if is_schema_secret_key schema key then [SECRET_VALUE_HINT] else [])"

definition structured_region ::
    "structured_schema \<Rightarrow> bool \<Rightarrow> structured_scope \<Rightarrow> str \<Rightarrow> byte_range \<Rightarrow> region list" where
  "structured_region schema kubernetes_secret sc key span =
     (if range_is_empty span then []
      else [\<lparr>region_span = span,
             region_ctx = \<lparr>ctx_path = Some (structured_path sc key), ctx_key = Some key,
               ctx_hints = structured_hints schema kubernetes_secret (ss_stack sc) key,
               ctx_kind = JsonValue, ctx_format = structured_format schema\<rparr>\<rparr>])"

text \<open>
  A key with its value \<open>v\<close>, the rest of the line: the scope after it, the regions it adds and
  where the next line begins.
\<close>

definition structured_value ::
    "structured_schema \<Rightarrow> bool \<Rightarrow> str \<Rightarrow> nat \<Rightarrow> str \<Rightarrow> str \<Rightarrow> str \<Rightarrow> structured_scope \<Rightarrow>
     structured_scope \<times> region list \<times> nat" where
  "structured_value schema kubernetes_secret raw pos line key v sc =
     (let line_end = line_end_at raw pos;
          indent = indent_of line;
          sc = sc\<lparr>ss_stack := pop_deeper indent (ss_stack sc)\<rparr>
      in if v = [] then (sc\<lparr>ss_stack := ss_stack sc @ [(indent, key)]\<rparr>, [], line_end + 1)
         else if is_yaml_block_indicator v then
           (case yaml_block_span raw (line_end + 1) indent of
              None \<Rightarrow> (sc, [], line_end + 1)
            | Some span \<Rightarrow>
                (sc, structured_region schema kubernetes_secret sc key span,
                 min (rend span + 1) (length raw)))
         else
           let scalar_start = pos + (length line - length v)
           in (sc,
               structured_region schema kubernetes_secret sc key
                 (structured_scalar_span raw scalar_start (scalar_start + length v)),
               line_end + 1))"

text \<open>One line.\<close>

definition structured_step ::
    "structured_schema \<Rightarrow> bool \<Rightarrow> str \<Rightarrow> nat \<Rightarrow> structured_scope \<Rightarrow> structured_scope \<times> region list \<times> nat"
  where
  "structured_step schema kubernetes_secret raw pos sc =
     (let line_end = line_end_at raw pos;
          line = trim_end_crs (subtext raw pos line_end);
          trimmed = trim line;
          plain = (sc, plain_structured_line schema pos line, line_end + 1)
      in if trimmed = [] then (sc, [], line_end + 1)
         else if hd trimmed \<in> set ''#;'' then plain
         else if hd trimmed = CHR ''['' \<and> last trimmed = CHR '']''
         then (\<lparr>ss_stack = [], ss_section = Some (trim (butlast (tl trimmed)))\<rparr>, [], line_end + 1)
         else
           let indent = indent_of line;
               body_offset = indent + (if prefix ''- '' (drop indent line) then 2 else 0);
               body = drop body_offset line
           in case structured_separator body of
                None \<Rightarrow> plain
              | Some separator \<Rightarrow>
                  let raw_key = trim_matches (\<lambda>c. code c = 34 \<or> code c = 39) (trim (take separator body))
                  in if raw_key = [] then plain
                     else structured_value schema kubernetes_secret raw pos line
                       (semantic_structured_key raw_key)
                       (dropWhile is_blank (drop (body_offset + separator + 1) line)) sc)"

lemma yaml_block_end_le: "end \<le> length raw \<or> length raw < pos \<Longrightarrow>
    yaml_block_end raw parent_indent pos end \<le> max end (length raw)"
proof (induction raw parent_indent pos "end" rule: yaml_block_end.induct)
  case (1 raw parent_indent pos "end")
  have "line_end_at raw pos \<le> length raw" if "pos < length raw"
    using that length_takeWhile_le [of "\<lambda>c. c \<noteq> CHR 0x0A" "drop pos raw"] by (simp add: line_end_at_def)
  with 1 show ?case by (subst yaml_block_end.simps) (auto simp: Let_def)
qed

lemma yaml_block_span_bounds:
  assumes "yaml_block_span raw pos parent_indent = Some span" and "pos \<le> Suc (length raw)"
  shows "rstart span = pos" "pos < rend span" "rend span \<le> length raw"
proof -
  have span: "span = range_new pos (yaml_block_end raw parent_indent pos pos)"
    "pos < yaml_block_end raw parent_indent pos pos"
    using assms(1) by (auto simp: yaml_block_span_def Let_def split: if_splits)
  then show "rstart span = pos" "pos < rend span" by (simp_all add: range_new_def)
  have "pos \<le> length raw"
    using span(2) yaml_block_end.simps [of raw parent_indent pos pos] by (cases "pos < length raw") auto
  with yaml_block_end_le [of pos raw pos parent_indent] show "rend span \<le> length raw"
    by (simp add: span(1) range_new_def)
qed

lemma structured_value_next:
  assumes "structured_value schema ks raw pos line key v sc = (sc', regions, n)" and "pos < length raw"
  shows "pos < n"
proof -
  let ?e = "line_end_at raw pos"
  have e: "pos \<le> ?e" "?e \<le> length raw"
    using assms(2) length_takeWhile_le [of "\<lambda>c. c \<noteq> CHR 0x0A" "drop pos raw"]
    by (auto simp: line_end_at_def)
  have "pos < min (rend span + 1) (length raw)"
    if "yaml_block_span raw (?e + 1) k = Some span" for span k
    using yaml_block_span_bounds [OF that] e by simp
  with e assms(1) show ?thesis
    by (auto simp: structured_value_def Let_def split: if_splits option.splits)
qed

lemma structured_step_cases:
  assumes "structured_step schema ks raw pos sc = (sc', regions, n)"
  obtains (skip) "regions = []" "n = line_end_at raw pos + 1"
  | (plain) "regions = plain_structured_line schema pos (trim_end_crs (subtext raw pos (line_end_at raw pos)))"
      "n = line_end_at raw pos + 1"
  | (val) key k where "structured_value schema ks raw pos
      (trim_end_crs (subtext raw pos (line_end_at raw pos))) key
      (dropWhile is_blank (drop k (trim_end_crs (subtext raw pos (line_end_at raw pos))))) sc = (sc', regions, n)"
  using assms unfolding structured_step_def Let_def
  by (simp split: if_split_asm option.split_asm)

lemma structured_step_next:
  assumes "structured_step schema ks raw pos sc = (sc', regions, n)" and "pos < length raw"
  shows "pos < n"
  using assms(1)
proof (cases rule: structured_step_cases)
  case val
  then show ?thesis by (rule structured_value_next [OF _ assms(2)])
qed (simp_all add: line_end_at_def)

function structured_loop ::
    "structured_schema \<Rightarrow> bool \<Rightarrow> str \<Rightarrow> nat \<Rightarrow> structured_scope \<Rightarrow> region list" where
  "structured_loop schema kubernetes_secret raw pos sc =
     (if pos < length raw then
        (case structured_step schema kubernetes_secret raw pos sc of
           (sc, regions, next) \<Rightarrow> regions @ structured_loop schema kubernetes_secret raw next sc)
      else [])"
  by pat_completeness auto
termination
  by (relation "measure (\<lambda>(schema, kubernetes_secret, raw, pos, sc). length raw - pos)")
    (auto dest!: structured_step_next [OF sym])

declare structured_loop.simps [simp del]

definition structured_parser :: "structured_schema \<Rightarrow> parser" where
  "structured_parser schema raw =
     Some (structured_loop schema (is_kubernetes_secret raw) raw 0 \<lparr>ss_stack = [], ss_section = None\<rparr>)"

end
