(* ===== verification/ParserFacts.thy ===== *)
theory ParserFacts
  imports Parsers JsonFacts Guarantees Builder
begin

text \<open>
  What the configuration parsers guarantee: their regions come in order, stay apart and lie in
  the text. Together with the facts on JSON this gives the engine with the built-in parsers.
\<close>


section \<open>Bounds of single lines\<close>

lemma line_end_bounds: "pos \<le> length raw \<Longrightarrow> pos \<le> line_end_at raw pos \<and> line_end_at raw pos \<le> length raw"
  using length_takeWhile_le [of "\<lambda>c. c \<noteq> CHR 0x0A" "drop pos raw"] by (simp add: line_end_at_def)

lemma trim_end_crs_le: "length (trim_end_crs s) \<le> length s"
  using length_dropWhile_le [of "\<lambda>c. code c = 13" "rev s"] by (simp add: trim_end_crs_def)

lemma length_concat_rev: "length (concat (rev xs)) = length (concat xs)"
  by (simp add: length_concat rev_map [symmetric])

lemma length_concat_dropWhile: "length (concat (dropWhile P xs)) \<le> length (concat xs)"
  by (induction xs) auto

lemma trim_end_le: "length (trim_end s) \<le> length s"
  using length_concat_dropWhile [of is_whitespace_char "rev (utf8_chars s)"]
  by (simp add: trim_end_def length_concat_rev)

lemma trim_start_le: "length (trim_start s) \<le> length s"
  using length_concat_dropWhile [of is_whitespace_char "utf8_chars s"] by (simp add: trim_start_def)

lemma closing_quote_bound:
  "closing_quote_from escaped i chars = Some k \<Longrightarrow> i \<le> k \<and> k < i + length (concat chars)"
  by (induction escaped i chars rule: closing_quote_from.induct) (force split: if_splits)+

lemma closing_double_quote_bound: "closing_double_quote v = Some k \<Longrightarrow> k < length v"
  using closing_quote_bound [of False 0 "utf8_chars v" k] by (simp add: closing_double_quote_def)

lemma comment_bound: "comment_from b i chars = Some k \<Longrightarrow> i \<le> k \<and> k \<le> i + length (concat chars)"
  by (induction b i chars rule: comment_from.induct) (force split: if_splits)+

lemma str_find_bound: "str_find pat s = Some i \<Longrightarrow> i + length pat \<le> length s"
  using str_find_Some sublist_at_bound by blast

lemma env_value_span_bound:
  "env_value_span v = (a, b) \<Longrightarrow> a \<le> Suc 0 \<and> b \<le> length v"
  using closing_double_quote_bound [of "tl v"] str_find_bound [of "[CHR 0x27]" "tl v"]
    trim_end_le [of "take (case inline_env_comment_start v of Some i \<Rightarrow> i | None \<Rightarrow> length v) v"]
  by (auto simp: env_value_span_def split: list.splits if_splits option.splits)

lemma parse_env_line_bounds:
  assumes "parse_env_line alnum raw start end = Some (key, r)" and "start \<le> end" and "end \<le> length raw"
  shows "start \<le> rstart r \<and> rstart r < rend r \<and> rend r \<le> end"
proof -
  let ?line = "trim_end_crs (subtext raw start end)"
  have "length ?line \<le> end - start"
    using trim_end_crs_le [of "subtext raw start end"] assms(2,3) by simp
  moreover obtain v a b where "length v \<le> length ?line" "env_value_span v = (a, b)"
    "length ?line - length v + a < length ?line - length v + b"
    "r = range_new (start + (length ?line - length v + a)) (start + (length ?line - length v + b))"
  proof -
    let ?bom = "if start = 0 \<and> prefix BOM_char ?line then 3 else 0"
    let ?first = "trim_start (drop ?bom ?line)"
    from assms(1) obtain separator where
      "env_separator (strip_env_commands ?first) = Some separator"
      and r: "(case env_value_span (dropWhile is_blank (drop (separator + 1) (strip_env_commands ?first))) of
         (a, b) \<Rightarrow> let vstart = length ?line - length (dropWhile is_blank (drop (separator + 1) (strip_env_commands ?first)))
         in if vstart + b \<le> vstart + a then None
            else Some (trim (take separator (strip_env_commands ?first)),
              range_new (start + (vstart + a)) (start + (vstart + b)))) = Some (key, r)"
      unfolding parse_env_line_def Let_def by (auto split: if_splits option.splits prod.splits)
    let ?v = "dropWhile is_blank (drop (separator + 1) (strip_env_commands ?first))"
    have commands: "length (strip_env_commands s) \<le> length s" for s
      by (auto simp: strip_env_commands_def strip_env_command_prefix_def strip_prefix_Some Let_def
          bind_eq_Some_conv split: option.splits if_splits)
    have "length ?v \<le> length (strip_env_commands ?first)"
      using length_dropWhile_le [of is_blank "drop (separator + 1) (strip_env_commands ?first)"] by simp
    also have "\<dots> \<le> length ?first" by (rule commands)
    also have "\<dots> \<le> length ?line" using trim_start_le [of "drop ?bom ?line"] by simp
    finally show thesis using r that [of ?v] by (auto simp: Let_def split: prod.splits if_splits)
  qed
  ultimately show ?thesis using env_value_span_bound [of v a b] by (auto simp: range_new_def)
qed

lemma env_terminator_bounds:
  "env_terminator raw d t pos = Some (a, b) \<Longrightarrow> pos \<le> a \<and> a \<le> b \<and> b \<le> length raw"
proof (induction raw d t pos rule: env_terminator.induct)
  case (1 raw d t pos)
  show ?case
    using "1.prems" "1.IH" line_end_bounds [of pos raw] by (subst (asm) env_terminator.simps)
      (fastforce simp: Let_def split: if_splits)
qed

lemma parse_env_multiline_bounds:
  assumes "parse_env_multiline alnum raw start line_end = Some (key, r, nxt)"
  shows "line_end < rstart r \<and> rstart r < rend r \<and> rend r \<le> length raw \<and> rend r < nxt"
  using assms env_terminator_bounds
  by (fastforce simp: parse_env_multiline_def Let_def range_new_def
      split: option.splits prod.splits if_splits)


section \<open>Regions in order\<close>

text \<open>The spans lie one after the other between two offsets.\<close>

definition spans_between :: "nat \<Rightarrow> nat \<Rightarrow> region list \<Rightarrow> bool" where
  "spans_between lo hi rs \<longleftrightarrow>
     sorted_wrt (\<lambda>r s. rend (region_span r) \<le> rstart (region_span s)) rs \<and>
     list_all (\<lambda>r. lo \<le> rstart (region_span r) \<and> rstart (region_span r) \<le> rend (region_span r) \<and>
       rend (region_span r) \<le> hi) rs"

lemma spans_between_Nil [simp]: "spans_between lo hi []"
  by (simp add: spans_between_def)

lemma spans_between_append:
  assumes "spans_between lo m rs" and "spans_between m' hi ss" and "m \<le> m'" and "m \<le> hi" and "lo \<le> m'"
  shows "spans_between lo hi (rs @ ss)"
  using assms unfolding spans_between_def list_all_iff sorted_wrt_append by (force intro: le_trans)

lemma spans_between_single:
  "spans_between lo hi [r] \<longleftrightarrow>
     lo \<le> rstart (region_span r) \<and> rstart (region_span r) \<le> rend (region_span r) \<and>
     rend (region_span r) \<le> hi"
  by (simp add: spans_between_def)

lemma env_region_span [simp]: "region_span (env_region key r) = r"
  by (simp add: env_region_def)

lemma env_loop_regions: "spans_between pos (length raw) (env_loop alnum raw pos)"
proof (induction alnum raw pos rule: env_loop.induct)
  case (1 alnum raw pos)
  let ?e = "line_end_at raw pos"
  show ?case
  proof (cases "pos < length raw")
    case True
    then have e: "pos \<le> ?e" "?e \<le> length raw" using line_end_bounds by simp_all
    show ?thesis
    proof (cases "parse_env_multiline alnum raw pos ?e")
      case (Some x)
      then obtain key r nxt where m: "parse_env_multiline alnum raw pos ?e = Some (key, r, nxt)"
        by (cases x) auto
      have "spans_between nxt (length raw) (env_loop alnum raw nxt)"
        using "1.IH"(3) [OF True refl m refl refl] .
      moreover have "spans_between pos (rend r) [env_region key r]"
        using parse_env_multiline_bounds [OF m] e by (simp add: spans_between_single)
      ultimately have "spans_between pos (length raw) ([env_region key r] @ env_loop alnum raw nxt)"
        using parse_env_multiline_bounds [OF m] e
        by (intro spans_between_append [of pos "rend r" _ nxt]) simp_all
      with True m show ?thesis by (subst env_loop.simps) (simp add: Let_def)
    next
      case None
      have rest: "spans_between (?e + 1) (length raw) (env_loop alnum raw (?e + 1))"
        using "1.IH"(1,2) True None by (cases "parse_env_line alnum raw pos ?e") auto
      show ?thesis
      proof (cases "parse_env_line alnum raw pos ?e")
        case (Some x)
        then obtain key r where l: "parse_env_line alnum raw pos ?e = Some (key, r)" by (cases x) auto
        from parse_env_line_bounds [OF this e] rest e
        have "spans_between pos (length raw) ([env_region key r] @ env_loop alnum raw (?e + 1))"
          by (intro spans_between_append [where m = "rend r"]) (auto simp: spans_between_single)
        with True None l show ?thesis by (subst env_loop.simps) (simp add: Let_def)
      next
        case None
        from spans_between_append [OF spans_between_Nil rest, of pos pos] e
        have "spans_between pos (length raw) (env_loop alnum raw (?e + 1))" by simp
        with True None \<open>parse_env_multiline alnum raw pos ?e = None\<close> show ?thesis
          by (subst env_loop.simps) (simp add: Let_def)
      qed
    qed
  qed (subst env_loop.simps; simp)
qed

lemma structured_scalar_span_bounds:
  assumes "start < end" and "end \<le> length raw"
  shows "start \<le> rstart (structured_scalar_span raw start end) \<and>
    rstart (structured_scalar_span raw start end) \<le> rend (structured_scalar_span raw start end) \<and>
    rend (structured_scalar_span raw start end) \<le> end"
proof -
  have len: "length (subtext raw start end) = end - start" using assms by simp
  then obtain c after where cs: "subtext raw start end = c # after" using assms(1)
    by (cases "subtext raw start end") auto
  with len have "length after = end - start - 1" by simp
  then show ?thesis
    using assms cs closing_double_quote_bound [of after] str_find_bound [of "[CHR 0x27]" after]
      trim_end_le [of "take i (c # after)" for i] comment_bound [of False 0 "utf8_chars (c # after)"]
    by (auto simp: structured_scalar_span_def range_new_def split: option.splits)
      (metis (no_types, opaque_lifting) add.commute add_le_imp_le_diff le_diff_conv le_trans length_take
        list.size(4) min.bounded_iff Suc_diff_Suc Suc_eq_plus1 Nat.le_diff_conv2 less_imp_le min.cobounded1 min.cobounded2)+
qed

lemma structured_region_between:
  "lo \<le> rstart s \<Longrightarrow> rend s \<le> hi \<Longrightarrow> spans_between lo hi (structured_region schema ks sc key s)"
  by (auto simp: structured_region_def spans_between_single range_is_empty_def)

lemma structured_value_regions:
  assumes "structured_value schema ks raw pos line key v sc = (sc', regions, n)" and "pos < length raw"
    and "pos + length line \<le> line_end_at raw pos" and "length v \<le> length line"
  shows "spans_between pos (min n (length raw)) regions"
proof -
  let ?e = "line_end_at raw pos" let ?start = "pos + (length line - length v)"
  have e: "pos \<le> ?e" "?e \<le> length raw" using line_end_bounds assms(2) by simp_all
  have scalar: "pos \<le> rstart s \<and> rend s \<le> min (?e + 1) (length raw)"
    if "v \<noteq> []" "s = structured_scalar_span raw ?start (?start + length v)" for s
  proof -
    have "?start + length v = pos + length line" using assms(4) by simp
    moreover have "0 < length v" using that(1) by simp
    ultimately have "?start < ?start + length v" "?start + length v \<le> ?e" using assms(3) by linarith+
    with structured_scalar_span_bounds [of ?start "?start + length v" raw] e
    show ?thesis unfolding that(2) by (meson le_add1 le_trans min.boundedI)
  qed
  have block: "pos \<le> rstart s \<and> rend s \<le> min (min (rend s + 1) (length raw)) (length raw)"
    if "yaml_block_span raw (?e + 1) k = Some s" for k s
    using yaml_block_span_bounds [OF that] e by simp
  show ?thesis
  proof (cases "v = []")
    case True
    then show ?thesis using assms(1) by (auto simp: structured_value_def Let_def)
  next
    case v: False
    show ?thesis
    proof (cases "is_yaml_block_indicator v")
      case True
      then show ?thesis
        using assms(1) v block [of "indent_of line"]
        by (cases "yaml_block_span raw (?e + 1) (indent_of line)")
          (auto simp: structured_value_def Let_def intro: structured_region_between)
    next
      case False
      then show ?thesis
        using assms(1) v scalar [OF v refl]
        by (auto simp: structured_value_def Let_def intro: structured_region_between)
    qed
  qed
qed

lemma structured_step_regions:
  assumes "structured_step schema ks raw pos sc = (sc', regions, n)" and "pos < length raw"
  shows "spans_between pos (min n (length raw)) regions"
proof -
  let ?line = "trim_end_crs (subtext raw pos (line_end_at raw pos))"
  have e: "pos \<le> line_end_at raw pos" "line_end_at raw pos \<le> length raw"
    using line_end_bounds assms(2) by simp_all
  then have line: "pos + length ?line \<le> line_end_at raw pos"
    using trim_end_crs_le [of "subtext raw pos (line_end_at raw pos)"] by simp
  from assms(1) show ?thesis
  proof (cases rule: structured_step_cases)
    case plain
    then show ?thesis
      using line e by (simp add: plain_structured_line_def spans_between_single range_new_def)
  next
    case (val key k)
    have "length (dropWhile is_blank (drop k ?line)) \<le> length ?line"
      using length_dropWhile_le [of is_blank "drop k ?line"] by simp
    from structured_value_regions [OF val assms(2) line this] show ?thesis .
  qed simp
qed

lemma structured_loop_regions: "spans_between pos (length raw) (structured_loop schema ks raw pos sc)"
proof (induction schema ks raw pos sc rule: structured_loop.induct)
  case (1 schema ks raw pos sc)
  show ?case
  proof (cases "pos < length raw")
    case True
    obtain sc' regions n where step: "structured_step schema ks raw pos sc = (sc', regions, n)"
      by (cases "structured_step schema ks raw pos sc") auto
    have rest: "spans_between n (length raw) (structured_loop schema ks raw n sc')"
      using "1.IH" [OF True step [symmetric] refl] .
    have "spans_between pos (length raw) (regions @ structured_loop schema ks raw n sc')"
    proof (cases "n \<le> length raw")
      case True
      then show ?thesis
        using structured_step_next [OF step \<open>pos < length raw\<close>]
        by (intro spans_between_append [OF structured_step_regions [OF step \<open>pos < length raw\<close>] rest]) auto
    next
      case False
      then have "structured_loop schema ks raw n sc' = []" by (subst structured_loop.simps) simp
      then show ?thesis
        using structured_step_regions [OF step \<open>pos < length raw\<close>] False by (simp add: min_absorb2)
    qed
    with True step show ?thesis by (subst structured_loop.simps) simp
  qed (subst structured_loop.simps; simp)
qed


section \<open>The built-in parsers\<close>

definition with_parsers :: "serde_json \<Rightarrow> (str \<Rightarrow> bool) \<Rightarrow> builtin_set \<Rightarrow> builtin_set" where
  "with_parsers serde alnum s =
     s\<lparr>bs_json := json_parser serde, bs_ndjson := ndjson_parser, bs_env := env_parser alnum,
       bs_structured_generic := structured_parser SGeneric,
       bs_structured_aws := structured_parser SAws,
       bs_structured_kubeconfig := structured_parser SKubeconfig,
       bs_structured_npm := structured_parser SNpm,
       bs_structured_pypi := structured_parser SPypi\<rparr>"

lemma placed_in_bounds:
  assumes "placed_in raw pr hi (map region_span rs)"
  shows "spans_between 0 hi rs"
  using assms
  by (auto simp: placed_in_def spans_between_def list_all_iff sorted_wrt_map literal_at_def number_at_def)

lemma push_hint_span [simp]: "region_span (push_hint h r) = region_span r"
  by (simp add: push_hint_def)

lemma mark_schema_spans: "map region_span (mark_json_secret_schema serde raw rs) = map region_span rs"
  by (auto simp: mark_json_secret_schema_def Let_def split: option.splits)

lemma spans_between_cong:
  "map region_span rs = map region_span ss \<Longrightarrow> spans_between lo hi rs = spans_between lo hi ss"
proof -
  have "spans_between lo hi rs \<longleftrightarrow> sorted_wrt (\<lambda>r s. rend r \<le> rstart s) (map region_span rs) \<and>
      list_all (\<lambda>r. lo \<le> rstart r \<and> rstart r \<le> rend r \<and> rend r \<le> hi) (map region_span rs)" for rs
    by (simp add: spans_between_def sorted_wrt_map list.pred_map comp_def)
  then show "map region_span rs = map region_span ss \<Longrightarrow> ?thesis" by simp
qed

text \<open>A parser whose regions lie in order in every text it accepts.\<close>

definition orderly :: "parser \<Rightarrow> bool" where
  "orderly p \<longleftrightarrow> (\<forall>raw rs. p raw = Some rs \<longrightarrow> spans_between 0 (length raw) rs)"

lemma json_orderly: "orderly (json_parser serde)"
  using json_regions_in_order placed_in_bounds spans_between_cong [OF mark_schema_spans]
  by (fastforce simp: orderly_def json_parser_def parse_json_regions_def)

lemma ndjson_orderly: "orderly ndjson_parser"
  using ndjson_regions_in_order placed_in_bounds
  by (fastforce simp: orderly_def ndjson_parser_def parse_ndjson_regions_def)

lemma tool_result_orderly: "orderly tool_result_parser"
  using json_regions_in_order placed_in_bounds
  by (fastforce simp: orderly_def tool_result_parser_def parse_tool_result_regions_def)

lemma env_orderly: "orderly (env_parser alnum)"
  using env_loop_regions by (auto simp: orderly_def env_parser_def)

lemma structured_orderly: "orderly (structured_parser schema)"
  using structured_loop_regions by (auto simp: orderly_def structured_parser_def)

lemma text_orderly: "orderly text_parser"
  by (auto simp: orderly_def text_parser_def spans_between_single range_new_def)

lemmas parsers_orderly =
  json_orderly ndjson_orderly tool_result_orderly env_orderly structured_orderly text_orderly

text \<open>What an engine whose parsers are orderly hands to the detectors.\<close>

lemma parse_raw_orderly:
  assumes "\<forall>(k, p) \<in> set (en_parsers en). orderly p" and "orderly (en_fallback en)"
    and "parse_raw_with_protected en kind raw protected = (ir, fell_back)"
  shows "spans_between 0 (length raw) (ir_regions ir)"
proof -
  have fallback: "spans_between 0 (length raw) (case en_fallback en raw of Some regions \<Rightarrow> regions | None \<Rightarrow> [])"
    using assms(2) by (auto simp: orderly_def split: option.splits)
  have "spans_between 0 (length raw) rs" if "map_of (en_parsers en) kind = Some p" "p raw = Some rs" for p rs
    using assms(1) map_of_SomeD [OF that(1)] that(2) by (fastforce simp: orderly_def)
  moreover have "spans_between 0 (length raw) (secret_file_regions kind label raw)" for label
    by (simp add: secret_file_regions_def spans_between_single range_new_def)
  ultimately show ?thesis
    using assms(3) fallback
    by (auto simp: parse_raw_with_protected_def make_ir_def Let_def split: option.splits)
qed

lemma stack_parsers_orderly:
  "\<forall>(k, p) \<in> set (eb_parsers (stack_parsers (with_parsers serde alnum s) builder_new)). orderly p"
  by (simp add: stack_parsers_def structured_parsers_def builder_defs with_parsers_def parsers_orderly)

lemma detectors_keep_parsers:
  "eb_parsers (fold builder_detector ds b) = eb_parsers b"
  by (induction ds arbitrary: b) (simp_all add: builder_defs)

lemma stack_keeps_parsers:
  "eb_parsers (standard_stack_with_decode s d b) = eb_parsers (stack_parsers s b)"
  "eb_parsers (secret_scan_stack_with_decode s d b) = eb_parsers (stack_parsers s b)"
  unfolding standard_stack_with_decode_def secret_scan_stack_with_decode_def
  by (rule detectors_keep_parsers)+

lemma standard_engine_orderly:
  "\<forall>(k, p) \<in> set (en_parsers (with_profile_and_packs_and_decode_config
      (with_parsers serde alnum s) profile packs aggressive decode)). orderly p"
  "\<forall>(k, p) \<in> set (en_parsers (secret_scan_with_profile_packs_and_decode_config
      (with_parsers serde alnum s) profile packs decode)). orderly p"
  using stack_parsers_orderly [of serde alnum s]
  by (simp_all add: with_profile_and_packs_and_decode_config_def
      secret_scan_with_profile_packs_and_decode_config_def stack_keeps_parsers with_packs_frame
      builder_build_def builder_policy_def builder_guard_def)

lemma orderly_engine_returns:
  assumes "\<forall>(k, p) \<in> set (en_parsers en). orderly p" and "orderly (en_fallback en)"
    and "overlapping_matcher (ex_search ex)" and "all_ascii (input_data inp)"
    and "hmac_fits (ex_hmac ex) (cf_identity_key cfg) (input_data inp)"
  shows "engine_mask ex en inp cfg \<noteq> None"
proof (rule engine_mask_total [OF assms(3,4,5)])
  obtain ir fell_back where "parse_input en inp = (ir, fell_back)" by force
  with parse_raw_orderly [OF assms(1,2)]
  have "spans_between 0 (length (input_data inp)) (ir_regions (fst (parse_input en inp)))"
    by (auto simp: parse_input_def parse_raw_def)
  then show "\<forall>rg \<in> set (ir_regions (fst (parse_input en inp))).
      rstart (region_span rg) \<le> rend (region_span rg) \<and> rend (region_span rg) \<le> length (input_data inp)"
    by (auto simp: spans_between_def list_all_iff)
qed


section \<open>Properties\<close>

text \<open>
  The regions of the configuration parsers: dotenv files and line-oriented configuration
  give regions in order, apart from each other and inside the text, for every input and schema.
\<close>

theorem config_regions_placed:
  "\<exists>env structured.
     env_parser alnum raw = Some env \<and> structured_parser schema raw = Some structured \<and>
     spans_between 0 (length raw) env \<and> spans_between 0 (length raw) structured"
  using env_orderly [of alnum] structured_orderly [of schema]
  by (simp add: orderly_def env_parser_def structured_parser_def)


definition example_builtins :: builtin_set where
  "example_builtins =
     \<lparr>bs_json = text_parser, bs_ndjson = text_parser, bs_env = text_parser,
      bs_structured_generic = text_parser, bs_structured_aws = text_parser,
      bs_structured_kubeconfig = text_parser, bs_structured_npm = text_parser,
      bs_structured_pypi = text_parser, bs_credsweeper = (\<lambda>v. [example_hit 2 10 Rule]),
      bs_pentect_temp = (\<lambda>v. []), bs_explicit = (\<lambda>v. []), bs_url = (\<lambda>v. []),
      bs_cli_credential = (\<lambda>v. []), bs_jwt = (\<lambda>v. []), bs_key_value = (\<lambda>v. []),
      bs_auth_code = (\<lambda>v. []), bs_bip39 = (\<lambda>v. []), bs_decode = (\<lambda>c v. []),
      bs_sensitive_key = (\<lambda>v. []), bs_env_value = (\<lambda>v. []), bs_structural = (\<lambda>v. [])\<rparr>"


end
