(* ===== verification/ToolInput.thy ===== *)
theory ToolInput
  imports Views
begin

text \<open>
  \<open>crates/pentect-runtime/src/handle_views.rs\<close>: the validation boundary for handles in tool inputs.
  An input is scanned as a whole, the surface it goes to decides which views it may use, and only
  then are the handles replaced: by a resolver the caller supplies, or by the sealed map.
\<close>


section \<open>Surfaces, views and errors\<close>

datatype tool_kind = ToolData | ToolPassiveData | ToolRawFile | ToolCode | ToolPatch | ToolUnknown

datatype handle_view = HandleRaw | HandleBase64

datatype tool_error =
    UnknownSurface | MalformedView | UnsupportedView | UnknownHandle | RecoveryDisabled
  | RecoverySourceChanged | RecoverySourceUnavailable | RecoveryScopeChanged
  | RecoveryStoreUnavailable | RecoveryLimitExceeded | RecoveryTransactionFinalized
  | ToolOutputTooLarge

fun tool_error_message :: "tool_error \<Rightarrow> str" where
  "tool_error_message UnknownSurface = ''protected handle use is unsupported for this tool surface''"
| "tool_error_message MalformedView = ''protected handle view is malformed''"
| "tool_error_message UnsupportedView = ''protected handle view is unsupported for this operation''"
| "tool_error_message UnknownHandle =
     ''protected handle is unavailable in this session; reread the original input''"
| "tool_error_message RecoveryDisabled =
     ''file recovery is disabled; reread the original input in this session''"
| "tool_error_message RecoverySourceChanged =
     ''protected handle source has changed; reread it to obtain a new handle''"
| "tool_error_message RecoverySourceUnavailable =
     ''protected handle source cannot be read; restore access or reread the original input''"
| "tool_error_message RecoveryScopeChanged =
     ''protected handle belongs to a different identity scope; reread the original input in this session''"
| "tool_error_message RecoveryStoreUnavailable =
     ''protected handle recovery store is unavailable; restart the protected session and reread the original input''"
| "tool_error_message RecoveryLimitExceeded =
     ''protected handle recovery exceeds this response's read limit; reread only the required sources''"
| "tool_error_message RecoveryTransactionFinalized =
     ''protected tool input recovery transaction is already finalized''"
| "tool_error_message ToolOutputTooLarge = ''protected tool input is too large after restoration''"

record validated_input =
  vi_text :: str
  vi_executed :: bool

type_synonym view_resolver = "str \<Rightarrow> handle_view \<Rightarrow> tool_error + str"

definition MAX_RESTORED_TOOL_INPUT_BYTES :: nat where
  "MAX_RESTORED_TOOL_INPUT_BYTES = 32 * 1024 * 1024"

text \<open>Rust's \<open>?\<close>: an error ends the function.\<close>

fun and_then :: "'e + 'a \<Rightarrow> ('a \<Rightarrow> 'e + 'b) \<Rightarrow> 'e + 'b" where
  "and_then (Inl e) f = Inl e"
| "and_then (Inr x) f = f x"

lemma and_then_Inr: "and_then r f = Inr y \<longleftrightarrow> (\<exists>x. r = Inr x \<and> f x = Inr y)"
  by (cases r) auto

lemma and_then_Inl: "and_then r f = Inl e \<longleftrightarrow> r = Inl e \<or> (\<exists>x. r = Inr x \<and> f x = Inl e)"
  by (cases r) auto

lemma and_then_cong [fundef_cong]:
  "r = r' \<Longrightarrow> (\<And>x. r' = Inr x \<Longrightarrow> f x = g x) \<Longrightarrow> and_then r f = and_then r' g"
  by (cases r') auto


section \<open>Validation\<close>

definition scan_views :: "str \<Rightarrow> tool_error + view_token list" where
  "scan_views input =
     (case scan_recovery_views input of Inl _ \<Rightarrow> Inl MalformedView | Inr spans \<Rightarrow> Inr spans)"

fun handle_view_from_core :: "view_kind \<Rightarrow> handle_view" where
  "handle_view_from_core RawView = HandleRaw"
| "handle_view_from_core Base64View = HandleBase64"

fun validate_surface :: "tool_kind \<Rightarrow> view_token list \<Rightarrow> tool_error + unit" where
  "validate_surface k [] = Inr ()"
| "validate_surface k (span # spans) =
     (case k of
        ToolUnknown \<Rightarrow> Inl UnknownSurface
      | _ \<Rightarrow>
          if vt_kind span \<in> {RawView, Base64View} then validate_surface k spans
          else Inl UnsupportedView)"

text \<open>The bytes a raw value may consist of inside code or a patch.\<close>

definition raw_code_byte :: "byte \<Rightarrow> bool" where
  "raw_code_byte b \<longleftrightarrow> is_ascii_alphanumeric b \<or> b \<in> set ''_./:@+=,-''"

definition raw_code_representation_supported :: "str \<Rightarrow> bool" where
  "raw_code_representation_supported v \<longleftrightarrow> v \<noteq> [] \<and> list_all raw_code_byte v"

definition validate_rendered :: "tool_kind \<Rightarrow> view_kind \<Rightarrow> str \<Rightarrow> tool_error + unit" where
  "validate_rendered k view rendered =
     (if k \<in> {ToolCode, ToolPatch} \<and> view = RawView \<and> \<not> raw_code_representation_supported rendered
      then Inl UnsupportedView else Inr ())"

definition checked_append :: "str \<Rightarrow> str \<Rightarrow> tool_error + str" where
  "checked_append output v =
     (if MAX_RESTORED_TOOL_INPUT_BYTES < length output + length v then Inl ToolOutputTooLarge
      else Inr (output @ v))"


section \<open>Processing an input\<close>

fun process_spans ::
    "view_resolver \<Rightarrow> tool_kind \<Rightarrow> str \<Rightarrow> view_token list \<Rightarrow> nat \<Rightarrow> str \<Rightarrow> tool_error + str" where
  "process_spans resolver k input [] cursor output = checked_append output (drop cursor input)"
| "process_spans resolver k input (span # spans) cursor output =
     and_then (checked_append output (subtext input cursor (vt_start span))) (\<lambda>output.
     and_then (resolver (vt_handle span) (handle_view_from_core (vt_kind span))) (\<lambda>rendered.
     and_then (validate_rendered k (vt_kind span) rendered) (\<lambda>_.
     and_then (checked_append output rendered) (\<lambda>output.
       process_spans resolver k input spans (vt_end span) output))))"

definition process_tool_input :: "str \<Rightarrow> tool_kind \<Rightarrow> view_resolver \<Rightarrow> tool_error + validated_input" where
  "process_tool_input input k resolver =
     and_then (scan_views input) (\<lambda>spans.
     and_then (validate_surface k spans) (\<lambda>_.
     and_then (process_spans resolver k input spans 0 []) (\<lambda>output.
       Inr \<lparr>vi_text = output, vi_executed = False\<rparr>)))"

fun tool_error_of_view :: "view_error \<Rightarrow> tool_error" where
  "tool_error_of_view ViewMalformed = MalformedView"
| "tool_error_of_view ViewUnknownHandle = UnknownHandle"
| "tool_error_of_view ViewUnknownView = MalformedView"
| "tool_error_of_view ViewOutputTooLarge = ToolOutputTooLarge"

fun validate_raw_values :: "crypto \<Rightarrow> recovery \<Rightarrow> tool_kind \<Rightarrow> view_token list \<Rightarrow> tool_error + unit" where
  "validate_raw_values cr rec k [] = Inr ()"
| "validate_raw_values cr rec k (span # spans) =
     and_then
       (if vt_kind span = RawView
        then validate_rendered k (vt_kind span) (resolve_text cr rec (vt_handle span)) else Inr ())
       (\<lambda>_. validate_raw_values cr rec k spans)"

definition process_recovery_tool_input ::
    "crypto \<Rightarrow> base64_encoder \<Rightarrow> str \<Rightarrow> tool_kind \<Rightarrow> recovery \<Rightarrow> tool_error + validated_input" where
  "process_recovery_tool_input cr b64 input k rec =
     and_then (scan_views input) (\<lambda>spans.
     and_then (validate_surface k spans) (\<lambda>_.
     if \<not> list_all (\<lambda>span. vt_handle span \<in> set (placeholders rec)) spans then Inl UnknownHandle
     else and_then (validate_raw_values cr rec k spans) (\<lambda>_.
       case resolve_with_views cr b64 rec input of
         Inl e \<Rightarrow> Inl (tool_error_of_view e)
       | Inr output \<Rightarrow> Inr \<lparr>vi_text = output, vi_executed = False\<rparr>)))"


section \<open>Which surface a tool argument is\<close>

definition classify_tool_input_field :: "str \<Rightarrow> str \<Rightarrow> tool_kind" where
  "classify_tool_input_field tool_name field_name =
     (let tool = map (\<lambda>c. if c = CHR ''-'' then CHR ''_'' else c) (ascii_lower tool_name);
          field = ascii_lower field_name
      in if tool \<in> {''bash'', ''shell'', ''powershell'', ''exec'', ''exec_command'', ''run_command'',
              ''terminal''}
         then (if field \<in> {''command'', ''cmd'', ''script''} then ToolCode
               else if field \<in> {''cwd'', ''workdir'', ''working_directory''} then ToolData
               else ToolUnknown)
         else if tool \<in> {''apply_patch'', ''patch''}
         then (if field \<in> {''patch'', ''patchtext'', ''input'', ''command''} then ToolPatch
               else ToolUnknown)
         else if tool \<in> {''edit'', ''edit_file'', ''multiedit'', ''multi_edit''}
         then (if field \<in> {''old_string'', ''oldstring'', ''old_text'', ''oldtext'', ''new_string'',
                   ''newstring'', ''new_text'', ''newtext''} then ToolRawFile
               else if field \<in> {''path'', ''file_path'', ''filepath''} then ToolData
               else ToolUnknown)
         else if tool \<in> {''write'', ''write_file'', ''create_file''}
         then (if field \<in> {''content'', ''data'', ''text''} then ToolRawFile
               else if field \<in> {''path'', ''file_path'', ''filepath''} then ToolData
               else ToolUnknown)
         else if tool \<in> {''read'', ''read_file''} \<and> field \<in> {''path'', ''file_path'', ''filepath''}
         then ToolData
         else ToolUnknown)"


section \<open>What an accepted input becomes\<close>

definition surface_ok :: "tool_kind \<Rightarrow> view_token list \<Rightarrow> bool" where
  "surface_ok k spans \<longleftrightarrow> k \<noteq> ToolUnknown \<or> spans = []"

lemma validate_surface_iff [simp]: "validate_surface k spans = Inr u \<longleftrightarrow> surface_ok k spans"
proof (induction spans)
  case (Cons span spans)
  have "vt_kind span \<in> {RawView, Base64View}" by (cases "vt_kind span") auto
  with Cons show ?case by (cases k) (auto simp: surface_ok_def)
qed (simp add: surface_ok_def)

definition rendered_ok :: "tool_kind \<Rightarrow> view_kind \<Rightarrow> str \<Rightarrow> bool" where
  "rendered_ok k view v \<longleftrightarrow>
     k \<in> {ToolCode, ToolPatch} \<longrightarrow> view = RawView \<longrightarrow> raw_code_representation_supported v"

lemma validate_rendered_iff [simp]: "validate_rendered k view v = Inr u \<longleftrightarrow> rendered_ok k view v"
  by (auto simp: validate_rendered_def rendered_ok_def)

lemma checked_append_iff:
  "checked_append output v = Inr r \<longleftrightarrow>
     r = output @ v \<and> length output + length v \<le> MAX_RESTORED_TOOL_INPUT_BYTES"
  by (auto simp: checked_append_def)

definition resolved :: "view_resolver \<Rightarrow> view_token \<Rightarrow> tool_error + str" where
  "resolved resolver span = resolver (vt_handle span) (handle_view_from_core (vt_kind span))"

definition resolves :: "view_resolver \<Rightarrow> tool_kind \<Rightarrow> view_token \<Rightarrow> bool" where
  "resolves resolver k span \<longleftrightarrow> (\<exists>v. resolved resolver span = Inr v \<and> rendered_ok k (vt_kind span) v)"

lemma process_spans_iff:
  "process_spans resolver k input spans cursor acc = Inr out \<longleftrightarrow>
     list_all (resolves resolver k) spans \<and>
     out = acc @ substituted (\<lambda>span. projr (resolved resolver span)) input cursor spans \<and>
     length out \<le> MAX_RESTORED_TOOL_INPUT_BYTES"
proof (induction spans arbitrary: cursor acc)
  case (Cons span spans)
  show ?case
  proof (cases "resolved resolver span")
    case (Inr v)
    then show ?thesis
      using Cons.IH [of "vt_end span" "acc @ subtext input cursor (vt_start span) @ v"]
      by (auto simp: and_then_Inr checked_append_iff resolves_def resolved_def)
  qed (auto simp: and_then_Inr resolves_def resolved_def)
qed (auto simp: checked_append_iff)

lemma scan_views_iff: "scan_views input = Inr spans \<longleftrightarrow> scan_recovery_views input = Inr spans"
  by (auto simp: scan_views_def split: sum.splits)

text \<open>
  A tool input is accepted exactly when it scans, its surface may hold handles, every view
  resolves to a text the surface admits and the result fits; then every view is replaced, all
  other text is kept, and nothing has been executed.
\<close>

theorem process_tool_input_iff:
  "process_tool_input input k resolver = Inr v \<longleftrightarrow>
     (\<exists>spans. scan_recovery_views input = Inr spans \<and> surface_ok k spans \<and>
        list_all (resolves resolver k) spans \<and>
        v = \<lparr>vi_text = substituted (\<lambda>span. projr (resolved resolver span)) input 0 spans,
             vi_executed = False\<rparr> \<and>
        length (vi_text v) \<le> MAX_RESTORED_TOOL_INPUT_BYTES)"
  by (auto simp: process_tool_input_def and_then_Inr scan_views_iff process_spans_iff)


section \<open>The sealed map as resolver\<close>

definition map_resolver :: "crypto \<Rightarrow> base64_encoder \<Rightarrow> recovery \<Rightarrow> view_resolver" where
  "map_resolver cr b64 rec handle view =
     (case reveal cr rec handle of
        None \<Rightarrow> Inl UnknownHandle
      | Some v \<Rightarrow> Inr (case view of HandleRaw \<Rightarrow> v | HandleBase64 \<Rightarrow> b64_encode b64 v))"

lemma resolved_map:
  "resolved (map_resolver cr b64 rec) span =
     (if reveal cr rec (vt_handle span) = None then Inl UnknownHandle
      else Inr (token_value cr b64 rec span))"
  by (cases "vt_kind span") (auto simp: resolved_def map_resolver_def token_value_def split: option.splits)

lemma find_from_loop_first:
  assumes "find_from_loop hay needle limit i = Some j" and "i \<le> k" and "k < j"
  shows "subtext hay k (k + length needle) \<noteq> needle"
  using assms
proof (induction hay needle limit i rule: find_from_loop.induct)
  case (1 hay needle limit i)
  then show ?case by (cases "k = i") (auto simp: find_from_loop.simps [of hay needle limit i] split: if_splits)
qed

lemma find_from_limited_cut:
  assumes "find_from_limited s a needle m = Some j"
  shows "find_from_limited (take (j + length needle) s) a needle m = Some j"
proof -
  let ?t = "take (j + length needle) s"
  note loop = assms [unfolded find_from_limited_def]
  have needle: "needle \<noteq> []" "\<not> length s \<le> a" using loop by (auto split: if_splits)
  note f = find_from_limited_Some [OF assms]
  have sub: "subtext ?t k (k + length needle) = subtext s k (k + length needle)" if "k \<le> j" for k
    using that by (simp add: subtext_def drop_take min_def)
  have l: "find_from_loop s needle (min (length s) (a + m)) a = Some j" using loop needle by simp
  have "find_from_loop ?t needle (min (length ?t) (a + m)) a = Some j"
  proof (rule find_from_loop_hit)
    show "subtext ?t j (j + length needle) = needle" using f(3) sub by simp
    show "j + length needle \<le> min (length ?t) (a + m)" using find_from_loop_Some [OF l] by simp
    show "a \<le> j" by (rule f(1))
    show "subtext ?t k (k + length needle) \<noteq> needle" if "a \<le> k" "k < j" for k
      using find_from_loop_first [OF l that] sub that by simp
  qed
  moreover have "\<not> length ?t \<le> a" using f(1,2) needle by (cases needle) auto
  ultimately show ?thesis using needle(1) unfolding find_from_limited_def by simp
qed

text \<open>The resolver on a text that is one handle.\<close>

lemma resolve_one_handle:
  assumes "opens_handle s" and "find_from_limited s 2 ''>>'' MAX_PLACEHOLDER_BYTES = Some close"
    and "reveal cr rec (take (close + 2) s) = Some v"
  shows "resolve_text cr rec (take (close + 2) s) = v"
proof -
  let ?h = "take (close + 2) s"
  note tok = take_token [OF assms(1,2)]
  have "prefix ''<<'' ?h" using tok(1) by simp
  moreover have "find_from_limited ?h 2 ''>>'' MAX_PLACEHOLDER_BYTES = Some close"
    using find_from_limited_cut [OF assms(2)] by simp
  ultimately show ?thesis
    using assms(3) tok by (subst resolve_text.simps) (auto simp: resolve_text.simps [of cr rec "[]"] split: list.splits)
qed

lemma scan_loop_found:
  assumes "scan_loop i s tokens = Inr res" and "t \<in> set res" and "t \<notin> set tokens"
  shows "\<exists>s' close. opens_handle s' \<and>
    find_from_limited s' 2 ''>>'' MAX_PLACEHOLDER_BYTES = Some close \<and>
    classify_token s' close = Inr (Some (vt_handle t, vt_kind t))"
  using assms
proof (induction i s tokens rule: scan_loop.induct)
  case (1 i s tokens)
  note prems = "1.prems"(1) [unfolded scan_loop.simps [of i s tokens]]
  show ?case
  proof (cases s)
    case Nil
    then show ?thesis using prems "1.prems"(2,3) by simp
  next
    case (Cons b u)
    show ?thesis
    proof (cases "opens_handle s")
      case False
      then show ?thesis using prems "1.IH"(1) "1.prems" Cons by auto
    next
      case True
      show ?thesis
      proof (cases "find_from_limited s 2 ''>>'' MAX_PLACEHOLDER_BYTES")
        case None
        then show ?thesis using prems "1.IH"(2) "1.prems" True Cons by (auto split: if_splits)
      next
        case (Some close)
        show ?thesis
        proof (cases "classify_token s close")
          case (Inl e)
          then show ?thesis using prems True Cons Some by simp
        next
          case (Inr found)
          show ?thesis
          proof (cases found)
            case None
            then show ?thesis using prems "1.IH"(3) "1.prems" True Cons Some Inr by auto
          next
            case (Some hk)
            obtain handle kind where hk: "hk = (handle, kind)" by (cases hk)
            let ?u = "\<lparr>vt_start = i, vt_end = i + (close + 2), vt_handle = handle, vt_kind = kind\<rparr>"
            have "\<not> MAX_RECOVERY_VIEW_TOKENS \<le> length tokens"
              and rest: "scan_loop (i + (close + 2)) (drop (close + 2) s) (tokens @ [?u]) = Inr res"
              using prems True Cons \<open>find_from_limited s 2 _ _ = Some close\<close> Inr Some hk
              by (auto split: if_splits)
            show ?thesis
            proof (cases "t = ?u")
              case True
              then have "classify_token s close = Inr (Some (vt_handle t, vt_kind t))"
                using Inr Some hk by simp
              then show ?thesis
                using \<open>opens_handle s\<close> \<open>find_from_limited s 2 _ _ = Some close\<close> by blast
            next
              case False
              then have "t \<notin> set (tokens @ [?u])" using "1.prems"(3) by simp
              with "1.IH"(4) [OF Cons _ \<open>find_from_limited s 2 _ _ = Some close\<close> Inr Some hk [symmetric]
                \<open>\<not> MAX_RECOVERY_VIEW_TOKENS \<le> length tokens\<close> rest "1.prems"(2)] True
              show ?thesis by simp
            qed
          qed
        qed
      qed
    qed
  qed
qed

lemma resolve_raw_token:
  assumes "scan_recovery_views input = Inr spans" and "span \<in> set spans" and "vt_kind span = RawView"
    and "reveal cr rec (vt_handle span) = Some v"
  shows "resolve_text cr rec (vt_handle span) = v"
proof -
  have "scan_loop 0 input [] = Inr spans" using assms(1) by (simp add: scan_recovery_views_def split: if_splits)
  then obtain s' close where s': "opens_handle s'"
    "find_from_limited s' 2 ''>>'' MAX_PLACEHOLDER_BYTES = Some close"
    "classify_token s' close = Inr (Some (vt_handle span, vt_kind span))"
    using assms(2) by (auto dest: scan_loop_found)
  then have "vt_handle span = take (close + 2) s'"
    using assms(3) by (auto simp: classify_token_def view_kind_of_def Let_def split: option.splits if_splits prod.splits)
  then show ?thesis using resolve_one_handle [OF s'(1,2)] assms(4) by simp
qed

lemma revealed_known: "reveal cr rec ph \<noteq> None \<Longrightarrow> ph \<in> set (placeholders rec)"
  by (cases "map_of (rc_map rec) ph") (auto simp: reveal_def placeholders_def dest: map_of_SomeD intro: rev_image_eqI)

lemma validate_raw_values_iff:
  "validate_raw_values cr rec k spans = Inr u \<longleftrightarrow>
     list_all (\<lambda>span. vt_kind span = RawView \<longrightarrow> rendered_ok k RawView (resolve_text cr rec (vt_handle span)))
       spans"
  by (induction spans) (auto simp: and_then_Inr)

lemma process_recovery_iff:
  assumes "base64_ok b64"
  shows "process_recovery_tool_input cr b64 input k rec = Inr v \<longleftrightarrow>
     (\<exists>spans. scan_recovery_views input = Inr spans \<and> surface_ok k spans \<and>
        list_all (resolves (map_resolver cr b64 rec) k) spans \<and>
        v = \<lparr>vi_text = substituted (token_value cr b64 rec) input 0 spans, vi_executed = False\<rparr> \<and>
        length (vi_text v) \<le> MAX_RESTORED_TOOL_INPUT_BYTES)"
proof (cases "scan_recovery_views input")
  case (Inl e)
  then show ?thesis by (simp add: process_recovery_tool_input_def and_then_Inr scan_views_iff)
next
  case (Inr spans)
  have resolves: "resolves (map_resolver cr b64 rec) k span \<longleftrightarrow>
      reveal cr rec (vt_handle span) \<noteq> None \<and>
      (vt_kind span = RawView \<longrightarrow> rendered_ok k RawView (resolve_text cr rec (vt_handle span)))"
    if "span \<in> set spans" for span
    using resolve_raw_token [OF Inr that, of cr rec]
    by (cases "vt_kind span")
      (auto simp: resolves_def resolved_map token_value_def rendered_ok_def split: option.splits)
  have "process_recovery_tool_input cr b64 input k rec = Inr v \<longleftrightarrow>
      surface_ok k spans \<and> list_all (\<lambda>span. vt_handle span \<in> set (placeholders rec)) spans \<and>
      validate_raw_values cr rec k spans = Inr () \<and>
      (\<exists>out. resolve_with_views cr b64 rec input = Inr out \<and> v = \<lparr>vi_text = out, vi_executed = False\<rparr>)"
    using Inr by (auto simp: process_recovery_tool_input_def and_then_Inr scan_views_iff split: sum.splits)
  also have "(\<exists>out. resolve_with_views cr b64 rec input = Inr out \<and> v = \<lparr>vi_text = out, vi_executed = False\<rparr>) \<longleftrightarrow>
      (\<forall>span \<in> set spans. reveal cr rec (vt_handle span) \<noteq> None) \<and>
      v = \<lparr>vi_text = substituted (token_value cr b64 rec) input 0 spans, vi_executed = False\<rparr> \<and>
      length (vi_text v) \<le> MAX_RESTORED_TOOL_INPUT_BYTES"
  proof -
    have "\<forall>t \<in> set spans. vt_start t \<le> length input"
      using scan_tokens_ok [OF Inr] by (auto simp: tokens_ok_def token_exact_def list_all_iff)
    note iff = resolve_tokens_iff [OF assms this, of cr rec MAX_RECOVERY_VIEW_OUTPUT_BYTES 0 "[]"]
    have limit: "MAX_RESTORED_TOOL_INPUT_BYTES = MAX_RECOVERY_VIEW_OUTPUT_BYTES"
      by (simp add: MAX_RECOVERY_VIEW_OUTPUT_BYTES_def MAX_RESTORED_TOOL_INPUT_BYTES_def)
    show ?thesis
      by (auto simp: resolve_with_views_def resolve_view_text_bounded_def Inr iff limit)
  qed
  finally have "process_recovery_tool_input cr b64 input k rec = Inr v \<longleftrightarrow>
      surface_ok k spans \<and> list_all (resolves (map_resolver cr b64 rec) k) spans \<and>
      v = \<lparr>vi_text = substituted (token_value cr b64 rec) input 0 spans, vi_executed = False\<rparr> \<and>
      length (vi_text v) \<le> MAX_RESTORED_TOOL_INPUT_BYTES"
    using resolves revealed_known [of cr rec] unfolding validate_raw_values_iff list_all_iff by blast
  with Inr show ?thesis by simp
qed

lemma substituted_cong:
  "(\<And>t. t \<in> set tokens \<Longrightarrow> f t = g t) \<Longrightarrow> substituted f s cursor tokens = substituted g s cursor tokens"
  by (induction tokens arbitrary: cursor) auto

text \<open>
  C5. The two processors agree: resolving through the sealed map gives a result exactly when the
  generic processor gives it with the map as its resolver.
\<close>

theorem tool_processors_agree:
  assumes "base64_ok b64"
  shows "process_recovery_tool_input cr b64 input k rec = Inr v \<longleftrightarrow>
    process_tool_input input k (map_resolver cr b64 rec) = Inr v"
proof -
  let ?filled = "\<lambda>span. projr (resolved (map_resolver cr b64 rec) span)"
  have "substituted ?filled input 0 spans = substituted (token_value cr b64 rec) input 0 spans"
    if "list_all (resolves (map_resolver cr b64 rec) k) spans" for spans
    using that by (intro substituted_cong) (auto simp: list_all_iff resolves_def resolved_map split: if_splits)
  then show ?thesis
    unfolding process_recovery_iff [OF assms] process_tool_input_iff by metis
qed


section \<open>Code and patches\<close>

definition base64_byte :: "byte \<Rightarrow> bool" where
  "base64_byte b \<longleftrightarrow> is_ascii_alphanumeric b \<or> b \<in> set ''+/=''"

definition base64_alphabet :: "base64_encoder \<Rightarrow> bool" where
  "base64_alphabet b64 \<longleftrightarrow> (\<forall>v. list_all base64_byte (b64_encode b64 v))"

lemma base64_raw: "base64_byte b \<Longrightarrow> raw_code_byte b"
  by (auto simp: base64_byte_def raw_code_byte_def)

lemma filter_substituted:
  assumes "\<And>t. t \<in> set tokens \<Longrightarrow> list_all P (f t)"
  shows "filter (\<lambda>c. \<not> P c) (substituted f s cursor tokens) =
    filter (\<lambda>c. \<not> P c) (substituted (\<lambda>_. []) s cursor tokens)"
  using assms
proof (induction tokens arbitrary: cursor)
  case (Cons t tokens)
  then have "filter (\<lambda>c. \<not> P c) (f t) = []" by (auto simp: list_all_iff filter_empty_conv)
  with Cons show ?case by simp
qed simp

text \<open>
  C4. A handle cannot smuggle syntax into code or a patch: whatever the sealed values are, the bytes
  of an accepted input outside the conservative alphabet are, in order, those the author of the
  input wrote between the handles.
\<close>

theorem code_inputs_conservative:
  assumes "base64_ok b64" and "base64_alphabet b64" and "k \<in> {ToolCode, ToolPatch}"
    and "scan_recovery_views input = Inr spans"
    and "process_recovery_tool_input cr b64 input k rec = Inr v"
  shows "filter (\<lambda>c. \<not> raw_code_byte c) (vi_text v) =
    filter (\<lambda>c. \<not> raw_code_byte c) (substituted (\<lambda>_. []) input 0 spans)"
proof -
  have shown: "vi_text v = substituted (token_value cr b64 rec) input 0 spans"
    and ok: "list_all (resolves (map_resolver cr b64 rec) k) spans"
    using assms(5) unfolding process_recovery_iff [OF assms(1)] by (auto simp: assms(4))
  have "list_all raw_code_byte (token_value cr b64 rec span)" if "span \<in> set spans" for span
  proof -
    have "resolves (map_resolver cr b64 rec) k span" using that ok by (simp add: list_all_iff)
    then have known: "reveal cr rec (vt_handle span) \<noteq> None"
      and fine: "rendered_ok k (vt_kind span) (token_value cr b64 rec span)"
      unfolding resolves_def resolved_map by (simp_all split: if_splits)
    show ?thesis
    proof (cases "vt_kind span")
      case RawView
      with fine assms(3) show ?thesis
        by (auto simp: rendered_ok_def raw_code_representation_supported_def)
    next
      case Base64View
      then have "token_value cr b64 rec span = b64_encode b64 (the (reveal cr rec (vt_handle span)))"
        using known by (auto simp: token_value_def)
      then show ?thesis
        using assms(2) list.pred_mono_strong [of base64_byte _ raw_code_byte] base64_raw
        by (simp add: base64_alphabet_def)
    qed
  qed
  then show ?thesis unfolding shown by (rule filter_substituted)
qed

text \<open>An encoder with two letters for each byte.\<close>

definition nibbles :: str where
  "nibbles = ''abcdefghijklmnop''"

definition nibble_base64 :: base64_encoder where
  "nibble_base64 =
     \<lparr>b64_encode = (\<lambda>v. concat (map (\<lambda>c. [nibbles ! (code c div 16), nibbles ! (code c mod 16)]) v)),
      b64_encode_len = (\<lambda>n. 2 * n)\<rparr>"

lemma nibble_base64_ok: "base64_ok nibble_base64"
proof -
  have "length (b64_encode nibble_base64 v) = 2 * length v" for v
    by (induction v) (simp_all add: nibble_base64_def)
  then show ?thesis by (simp add: base64_ok_def) (simp add: nibble_base64_def)
qed

lemma nibble_base64_alphabet: "base64_alphabet nibble_base64"
proof -
  have "list_all base64_byte nibbles" by code_simp
  moreover have "length nibbles = 16" by (simp add: nibbles_def)
  ultimately have "base64_byte (nibbles ! n)" if "n < 16" for n using that by (simp add: list_all_length)
  moreover have "code c div 16 < 16" "code c mod 16 < 16" for c
    using code_less_256 [of c] by linarith+
  ultimately show ?thesis by (simp add: base64_alphabet_def nibble_base64_def list_all_iff)
qed

lemma example_scan_views: "scan_recovery_views example_views = Inr example_tokens"
  using example_scan
  by (simp add: scan_recovery_views_def MAX_RECOVERY_VIEW_INPUT_BYTES_def example_views_def)

lemma example_value: "reveal example_crypto example_store ''<<X_0123456789abcdef>>'' = Some ''secret''"
  by code_simp

lemma nibble_secret: "b64_encode nibble_base64 ''secret'' = ''hdgfgdhcgfhe''"
  by (simp add: nibble_base64_def nibbles_def)

lemma example_processed:
  "process_recovery_tool_input example_crypto nibble_base64 example_views ToolCode example_store =
     Inr \<lparr>vi_text = ''a secret b hdgfgdhcgfhe'', vi_executed = False\<rparr>"
proof -
  have value_of: "token_value example_crypto nibble_base64 example_store t =
      (case vt_kind t of RawView \<Rightarrow> ''secret'' | Base64View \<Rightarrow> ''hdgfgdhcgfhe'')"
    and known: "reveal example_crypto example_store (vt_handle t) \<noteq> None"
    if "t \<in> set example_tokens" for t
    using that example_value nibble_secret by (auto simp: example_tokens_def token_value_def)
  have fine: "rendered_ok ToolCode k ''secret''" for k by (cases k; code_simp)
  have "list_all (resolves (map_resolver example_crypto nibble_base64 example_store) ToolCode) example_tokens"
    using known value_of fine
    by (auto simp: list_all_iff resolves_def resolved_map rendered_ok_def split: view_kind.splits)
  moreover have "substituted (token_value example_crypto nibble_base64 example_store) example_views 0 example_tokens =
      ''a secret b hdgfgdhcgfhe''"
  proof -
    have "substituted (token_value example_crypto nibble_base64 example_store) example_views 0 example_tokens =
      substituted (\<lambda>t. case vt_kind t of RawView \<Rightarrow> ''secret'' | Base64View \<Rightarrow> ''hdgfgdhcgfhe'')
        example_views 0 example_tokens"
      by (rule substituted_cong) (rule value_of)
    also have "\<dots> = ''a secret b hdgfgdhcgfhe''" by code_simp
    finally show ?thesis .
  qed
  ultimately show ?thesis
    unfolding process_recovery_iff [OF nibble_base64_ok]
    by (intro exI [of _ example_tokens])
      (simp add: example_scan_views surface_ok_def MAX_RESTORED_TOOL_INPUT_BYTES_def)
qed

lemma tool_processors_agree_witness:
  "process_tool_input example_views ToolCode (map_resolver example_crypto nibble_base64 example_store) =
     Inr \<lparr>vi_text = ''a secret b hdgfgdhcgfhe'', vi_executed = False\<rparr>"
  using tool_processors_agree [OF nibble_base64_ok] example_processed by blast

lemma code_inputs_conservative_witness:
  "filter (\<lambda>c. \<not> raw_code_byte c) ''a secret b hdgfgdhcgfhe'' = ''   ''"
proof -
  have "filter (\<lambda>c. \<not> raw_code_byte c) (substituted (\<lambda>_. []) example_views 0 example_tokens) = ''   ''"
    by code_simp
  then show ?thesis
    using code_inputs_conservative [OF nibble_base64_ok nibble_base64_alphabet _ example_scan_views
        example_processed] by simp
qed

end
