(* ===== verification/FilePointers.thy ===== *)
theory FilePointers
  imports ToolInput Engine Persist
begin

unbundle bit_operations_syntax

text \<open>
  \<open>crates/pentect-runtime/src/file_pointer_manager.rs\<close> and \<open>secure_io.rs\<close>: recovery hints for
  handles whose values came from a file. A record points into the file; the value is read again,
  and only from a file with the recorded size and digest. The file system, the clock, random
  bytes and the JSON encoding of the index are parameters.
\<close>


section \<open>Records and files\<close>

type_synonym u64 = "64 word"

record pointer_record =
  fp_handle :: str
  fp_path :: str
  fp_size :: u64
  fp_hash :: str
  fp_offset :: u64
  fp_length :: u64
  fp_label :: str
  fp_created :: u64

record pointer_index =
  ix_version :: "32 word"
  ix_records :: "pointer_record list"

definition MAX_RECOVERY_SOURCE_BYTES :: u64 where
  "MAX_RECOVERY_SOURCE_BYTES = 64 * 1024 * 1024"

definition MAX_RECOVERY_VALUE_BYTES :: nat where
  "MAX_RECOVERY_VALUE_BYTES = 32 * 1024 * 1024"

definition INDEX_VERSION :: "32 word" where
  "INDEX_VERSION = 1"

definition MAX_RECORDS :: nat where
  "MAX_RECORDS = 4096"

definition MAX_INDEX_BYTES :: nat where
  "MAX_INDEX_BYTES = 4 * 1024 * 1024"

definition ENV_ALIAS_LABEL :: str where
  "ENV_ALIAS_LABEL = ''PENTECT_ENV_ALIAS''"

definition empty_index :: pointer_index where
  "empty_index = \<lparr>ix_version = INDEX_VERSION, ix_records = []\<rparr>"

text \<open>\<open>u64::saturating_add\<close> and \<open>usize::saturating_add\<close>.\<close>

definition sat_add :: "u64 \<Rightarrow> u64 \<Rightarrow> u64" where
  "sat_add a b = (if a + b < a then - 1 else a + b)"

definition sat_add_usize :: "nat \<Rightarrow> nat \<Rightarrow> nat" where
  "sat_add_usize a b = min (a + b) (2 ^ 64 - 1)"

definition hex_lower :: "str \<Rightarrow> str" where
  "hex_lower s =
     concat (map (\<lambda>b. [hex_digit_char (drop_bit 4 (code b)), hex_digit_char (code b AND 15)]) s)"

definition sha256_hex :: "crypto \<Rightarrow> str \<Rightarrow> str" where
  "sha256_hex cr bytes = hex_lower (sha256 cr bytes)"

text \<open>
  A file as \<open>metadata\<close> and as an opened descriptor see it; between the two calls it may have
  changed. An opened file has its own metadata and the bytes up to its end, if it can be read.
\<close>

record file_meta =
  fm_is_file :: bool
  fm_len :: u64

record filesystem =
  fs_metadata :: "str \<Rightarrow> file_meta option"
  fs_open :: "str \<Rightarrow> (file_meta \<times> str option) option"

text \<open>The callers drop the message of an error.\<close>

definition read_bounded_bytes :: "filesystem \<Rightarrow> str \<Rightarrow> u64 \<Rightarrow> str option" where
  "read_bounded_bytes fs path max_bytes =
     (case fs_open fs path of
        None \<Rightarrow> None
      | Some (meta, content) \<Rightarrow>
          if \<not> fm_is_file meta then None
          else if max_bytes < fm_len meta then None
          else
            (case content of
               None \<Rightarrow> None
             | Some all \<Rightarrow>
                 let bytes = take (unat max_bytes + 1) all
                 in if unat max_bytes < length bytes then None else Some bytes))"

definition read_verified_file_for_tool ::
    "crypto \<Rightarrow> filesystem \<Rightarrow> pointer_record \<Rightarrow> tool_error + str" where
  "read_verified_file_for_tool cr fs r =
     (case fs_metadata fs (fp_path r) of
        None \<Rightarrow> Inl RecoverySourceUnavailable
      | Some meta \<Rightarrow>
          if \<not> fm_is_file meta then Inl RecoverySourceUnavailable
          else if fm_len meta \<noteq> fp_size r then Inl RecoverySourceChanged
          else if MAX_RECOVERY_SOURCE_BYTES < fp_size r then Inl RecoveryLimitExceeded
          else
            (case read_bounded_bytes fs (fp_path r) (fp_size r) of
               None \<Rightarrow> Inl RecoverySourceUnavailable
             | Some bytes \<Rightarrow>
                 if word_of_nat (length bytes) \<noteq> fp_size r \<or> sha256_hex cr bytes \<noteq> fp_hash r
                 then Inl RecoverySourceChanged else Inr bytes))"

definition read_verified_file :: "crypto \<Rightarrow> filesystem \<Rightarrow> pointer_record \<Rightarrow> str option" where
  "read_verified_file cr fs r =
     (case read_verified_file_for_tool cr fs r of Inl _ \<Rightarrow> None | Inr bytes \<Rightarrow> Some bytes)"

definition slice_record_value :: "str \<Rightarrow> pointer_record \<Rightarrow> str option" where
  "slice_record_value bytes r =
     (let start = unat (fp_offset r); len = unat (fp_length r)
      in if 2 ^ 64 \<le> start + len \<or> length bytes < start + len then None
         else
           let slice = subtext bytes start (start + len)
           in if utf8_valid slice then Some slice else None)"


section \<open>Recovering the handles of a tool input\<close>

record file_batch =
  fb_index :: pointer_index
  fb_files :: "(str \<times> (str \<times> str)) list"
  fb_values :: "(str \<times> str) list"
  fb_source_bytes :: u64
  fb_value_bytes :: nat

definition batch_new :: "bool \<Rightarrow> pointer_index \<Rightarrow> tool_error + file_batch" where
  "batch_new enabled index =
     (if \<not> enabled then Inl RecoveryDisabled
      else Inr \<lparr>fb_index = index, fb_files = [], fb_values = [], fb_source_bytes = 0,
             fb_value_bytes = 0\<rparr>)"

type_synonym 'a batch_result = "file_batch \<times> (tool_error + 'a)"

definition load_source ::
    "crypto \<Rightarrow> filesystem \<Rightarrow> pointer_record \<Rightarrow> file_batch \<Rightarrow> unit batch_result" where
  "load_source cr fs r b =
     (if map_of (fb_files b) (fp_path r) \<noteq> None then (b, Inr ())
      else
        let b = b\<lparr>fb_source_bytes := sat_add (fb_source_bytes b) (fp_size r)\<rparr>
        in if MAX_RECOVERY_SOURCE_BYTES < fb_source_bytes b then (b, Inl RecoveryLimitExceeded)
           else
             (case read_verified_file_for_tool cr fs r of
                Inl e \<Rightarrow> (b, Inl e)
              | Inr bytes \<Rightarrow>
                  (b\<lparr>fb_files := (fp_path r, (bytes, fp_hash r)) # fb_files b\<rparr>, Inr ())))"

definition extract_value ::
    "hmac_fun \<Rightarrow> str \<Rightarrow> pointer_record \<Rightarrow> str \<Rightarrow> file_batch \<Rightarrow> unit batch_result" where
  "extract_value hmac identity_key r handle b =
     (let (bytes, hash) = the (map_of (fb_files b) (fp_path r))
      in if hash \<noteq> fp_hash r \<or> word_of_nat (length bytes) \<noteq> fp_size r
         then (b, Inl RecoverySourceChanged)
         else
           let b = b\<lparr>fb_value_bytes := sat_add_usize (fb_value_bytes b) (unat (fp_length r))\<rparr>
           in if MAX_RECOVERY_VALUE_BYTES < fb_value_bytes b then (b, Inl RecoveryLimitExceeded)
              else
                (case slice_record_value bytes r of
                   None \<Rightarrow> (b, Inl RecoverySourceChanged)
                 | Some v \<Rightarrow>
                     (case parse_placeholder (fp_handle r) of
                        Inl _ \<Rightarrow> (b, Inl UnknownHandle)
                      | Inr parts \<Rightarrow>
                          if \<not> matches_identity_hash hmac identity_key (pp_hash parts) v
                          then (b, Inl RecoveryScopeChanged)
                          else (b\<lparr>fb_values := fb_values b @ [(handle, v)]\<rparr>, Inr ()))))"

definition recover_span ::
    "crypto \<Rightarrow> hmac_fun \<Rightarrow> filesystem \<Rightarrow> str list \<Rightarrow> str \<Rightarrow> str \<Rightarrow> file_batch \<Rightarrow> unit batch_result"
  where
  "recover_span cr hmac fs known identity_key handle b =
     (if handle \<in> set known \<or> map_of (fb_values b) handle \<noteq> None then (b, Inr ())
      else
        (case find (\<lambda>r. fp_handle r = handle) (ix_records (fb_index b)) of
           None \<Rightarrow> (b, Inl UnknownHandle)
         | Some r \<Rightarrow>
             (case load_source cr fs r b of
                (b, Inl e) \<Rightarrow> (b, Inl e)
              | (b, Inr _) \<Rightarrow> extract_value hmac identity_key r handle b)))"

fun recover_spans ::
    "crypto \<Rightarrow> hmac_fun \<Rightarrow> filesystem \<Rightarrow> str list \<Rightarrow> str \<Rightarrow> view_token list \<Rightarrow> file_batch \<Rightarrow>
     unit batch_result" where
  "recover_spans cr hmac fs known identity_key [] b = (b, Inr ())"
| "recover_spans cr hmac fs known identity_key (span # spans) b =
     (case recover_span cr hmac fs known identity_key (vt_handle span) b of
        (b, Inl e) \<Rightarrow> (b, Inl e)
      | (b, Inr _) \<Rightarrow> recover_spans cr hmac fs known identity_key spans b)"

definition staged :: "crypto \<Rightarrow> file_batch \<Rightarrow> str \<Rightarrow> recovery" where
  "staged cr b key = seal cr (fb_values b) key"

definition batch_recover ::
    "crypto \<Rightarrow> hmac_fun \<Rightarrow> filesystem \<Rightarrow> str \<Rightarrow> recovery \<Rightarrow> str \<Rightarrow> str \<Rightarrow> file_batch \<Rightarrow>
     recovery batch_result" where
  "batch_recover cr hmac fs input known key identity_key b =
     (case scan_recovery_views input of
        Inl _ \<Rightarrow> (b, Inl MalformedView)
      | Inr spans \<Rightarrow>
          (case recover_spans cr hmac fs (placeholders known) identity_key spans b of
             (b, Inl e) \<Rightarrow> (b, Inl e)
           | (b, Inr _) \<Rightarrow> (b, Inr (seal cr (fb_values b) key))))"


section \<open>Recovering without limits\<close>

text \<open>\<open>find_from\<close> has no bound; handles are collected in order, each once.\<close>

function handles_loop :: "str \<Rightarrow> str list \<Rightarrow> str list" where
  "handles_loop s out =
     (if length s < 2 then out
      else if prefix ''<<'' s then
        (case str_find ''>>'' (drop 2 s) of
           Some k \<Rightarrow>
             let handle = take (k + 4) s
             in handles_loop (drop (k + 4) s)
                  (if (case parse_placeholder handle of Inr _ \<Rightarrow> True | Inl _ \<Rightarrow> False) \<and> handle \<notin> set out
                   then out @ [handle] else out)
         | None \<Rightarrow> handles_loop (drop 1 s) out)
      else handles_loop (drop 1 s) out)"
  by pat_completeness auto
termination
  by (relation "measure (\<lambda>(s, out). length s)") auto

declare handles_loop.simps [simp del]

definition handles_in_text :: "str \<Rightarrow> str list" where
  "handles_in_text input = handles_loop input []"

definition recover_from_file ::
    "crypto \<Rightarrow> filesystem \<Rightarrow> str \<Rightarrow> pointer_record list \<Rightarrow> (str \<times> str) list \<Rightarrow> (str \<times> str) list" where
  "recover_from_file cr fs path records recovered =
     (case records of
        [] \<Rightarrow> recovered
      | first # _ \<Rightarrow>
          (case read_verified_file cr fs first of
             None \<Rightarrow> recovered
           | Some bytes \<Rightarrow>
               if list_ex (\<lambda>r. fp_size r \<noteq> fp_size first \<or> fp_hash r \<noteq> fp_hash first \<or> fp_path r \<noteq> path)
                 records
               then recovered
               else fold (\<lambda>r recovered. case slice_record_value bytes r of
                   None \<Rightarrow> recovered | Some v \<Rightarrow> AList.update (fp_handle r) v recovered)
                 records recovered))"

text \<open>The records of the handles, grouped by path; a later record of a handle hides an earlier one.\<close>

definition records_by_path :: "pointer_record list \<Rightarrow> str list \<Rightarrow> (str \<times> pointer_record list) list" where
  "records_by_path records handles =
     (let found = List.map_filter (\<lambda>h. map_of (rev (map (\<lambda>r. (fp_handle r, r)) records)) h) handles
      in map (\<lambda>p. (p, filter (\<lambda>r. fp_path r = p) found)) (sort (remdups (map fp_path found))))"

definition recover_text :: "crypto \<Rightarrow> filesystem \<Rightarrow> bool \<Rightarrow> pointer_index \<Rightarrow> str \<Rightarrow> str \<Rightarrow> recovery option" where
  "recover_text cr fs enabled index input key =
     (if \<not> enabled then None
      else
        let handles = handles_in_text input
        in if handles = [] \<or> ix_records index = [] then None
           else
             let recovered = fold (\<lambda>(path, records). recover_from_file cr fs path records)
               (records_by_path (ix_records index) handles) []
             in if recovered = [] then None else Some (seal cr recovered key))"

definition handle_length :: "crypto \<Rightarrow> filesystem \<Rightarrow> bool \<Rightarrow> pointer_index \<Rightarrow> str \<Rightarrow> nat option" where
  "handle_length cr fs enabled index handle =
     (if \<not> enabled then None
      else
        Option.bind (find (\<lambda>r. fp_handle r = handle) (ix_records index)) (\<lambda>r.
        Option.bind (read_verified_file cr fs r) (\<lambda>bytes.
        map_option (\<lambda>v. length (utf8_chars v)) (slice_record_value bytes r))))"


section \<open>Registering the handles of a masked file\<close>

definition upsert_record :: "pointer_record list \<Rightarrow> pointer_record \<Rightarrow> pointer_record list \<times> bool" where
  "upsert_record records r =
     (if r \<in> set records then (records, False)
      else (filter (\<lambda>e. fp_handle e \<noteq> fp_handle r) records @ [r], True))"

definition trim_index :: "pointer_record list \<Rightarrow> pointer_record list" where
  "trim_index records =
     (let sorted = sort_key fp_created records
      in drop (length sorted - MAX_RECORDS) sorted)"

text \<open>The handles worth a record, with their labels and values.\<close>

definition pending_records :: "crypto \<Rightarrow> mask_result \<Rightarrow> (str \<times> str \<times> str) list" where
  "pending_records cr result =
     List.map_filter (\<lambda>handle.
       case parse_placeholder handle of
         Inl _ \<Rightarrow> None
       | Inr parts \<Rightarrow>
           if pp_label parts = ENV_ALIAS_LABEL \<or> handle \<in> set (sm_collisions (mr_summary result)) then None
           else
             let v = resolve_text cr (mr_recovery result) handle
             in if v = [] \<or> v = handle then None else Some (handle, pp_label parts, v))
       (placeholders (mr_recovery result))"

text \<open>
  The patterns are the distinct values; the offset of a pattern is where the search first reports
  it. \<open>None\<close> when the automaton cannot be built.
\<close>

type_synonym automaton_builder = "str list \<Rightarrow> (str \<Rightarrow> (nat \<times> byte_range) list) option"

definition value_offset :: "automaton_builder \<Rightarrow> str \<Rightarrow> str list \<Rightarrow> str \<Rightarrow> nat option" where
  "value_offset build source patterns v =
     (case build patterns of
        None \<Rightarrow> None
      | Some search \<Rightarrow>
          map_option (\<lambda>(i, r). rstart r) (find (\<lambda>(i, r). patterns ! i = v) (search source)))"

definition records_for_result ::
    "crypto \<Rightarrow> automaton_builder \<Rightarrow> str \<Rightarrow> str \<Rightarrow> u64 \<Rightarrow> mask_result \<Rightarrow> pointer_record list" where
  "records_for_result cr build path source created_at result =
     (let pending = pending_records cr result;
          patterns = rev (remdups (rev (map (\<lambda>(handle, label, v). v) pending)))
      in List.map_filter (\<lambda>(handle, label, v).
           map_option (\<lambda>offset.
             \<lparr>fp_handle = handle, fp_path = path, fp_size = word_of_nat (length source),
              fp_hash = sha256_hex cr source, fp_offset = word_of_nat offset,
              fp_length = word_of_nat (length v), fp_label = label, fp_created = created_at\<rparr>)
             (value_offset build source patterns v)) pending)"


section \<open>The stored index\<close>

definition ENVELOPE_MAGIC :: str where
  "ENVELOPE_MAGIC = ''PNFPM1''"

definition NONCE_BYTES :: nat where
  "NONCE_BYTES = 12"

definition TAG_BYTES :: nat where
  "TAG_BYTES = 32"

definition envelope_overhead :: nat where
  "envelope_overhead = length ENVELOPE_MAGIC + NONCE_BYTES + TAG_BYTES"

definition derived_key :: "crypto \<Rightarrow> str \<Rightarrow> str \<Rightarrow> str" where
  "derived_key cr key domain = sha256 cr (domain @ key)"

definition apply_keystream :: "crypto \<Rightarrow> str \<Rightarrow> str \<Rightarrow> str \<Rightarrow> str" where
  "apply_keystream cr buf key nonce =
     map2 xor_byte buf
       (keystream cr (derived_key cr key ''pentect-file-pointer-manager-stream-v1'') nonce (length buf))"

definition auth_tag :: "crypto \<Rightarrow> str \<Rightarrow> str \<Rightarrow> str \<Rightarrow> str" where
  "auth_tag cr key nonce ciphertext =
     hmac_sha256 cr (derived_key cr key ''pentect-file-pointer-manager-mac-v1'')
       (ENVELOPE_MAGIC @ nonce @ ciphertext)"

definition constant_time_eq :: "str \<Rightarrow> str \<Rightarrow> bool" where
  "constant_time_eq a b \<longleftrightarrow>
     length a = length b \<and> fold (\<lambda>(x, y) diff. diff OR (code x XOR code y)) (zip a b) (0 :: nat) = 0"

definition encrypt_payload :: "crypto \<Rightarrow> str \<Rightarrow> str \<Rightarrow> str \<Rightarrow> str" where
  "encrypt_payload cr nonce plaintext key =
     (let ciphertext = apply_keystream cr plaintext key nonce
      in ENVELOPE_MAGIC @ nonce @ auth_tag cr key nonce ciphertext @ ciphertext)"

definition decrypt_payload :: "crypto \<Rightarrow> str \<Rightarrow> str \<Rightarrow> str option" where
  "decrypt_payload cr bytes key =
     (if length bytes < envelope_overhead \<or> \<not> prefix ENVELOPE_MAGIC bytes then None
      else
        let nonce_start = length ENVELOPE_MAGIC;
            tag_start = nonce_start + NONCE_BYTES;
            ciphertext_start = tag_start + TAG_BYTES;
            nonce = subtext bytes nonce_start tag_start;
            tag = subtext bytes tag_start ciphertext_start;
            ciphertext = drop ciphertext_start bytes
        in if \<not> constant_time_eq tag (auth_tag cr key nonce ciphertext) then None
           else Some (apply_keystream cr ciphertext key nonce))"

text \<open>The two files of the manager, and \<open>serde_json\<close> on the index.\<close>

record pointer_store =
  ps_index :: "str option"
  ps_key :: "str option"

record index_codec =
  ic_encode :: "pointer_index \<Rightarrow> str"
  ic_decode :: "str \<Rightarrow> pointer_index option"

text \<open>\<open>manager_key\<close> with a fresh key for the file that does not exist yet.\<close>

definition manager_key :: "str option \<Rightarrow> pointer_store \<Rightarrow> str + (str option \<times> pointer_store)" where
  "manager_key create st =
     (case ps_key st of
        Some key \<Rightarrow>
          if length key = 32 then Inr (Some key, st)
          else Inl ''file pointer manager key has wrong length''
      | None \<Rightarrow>
          (case create of
             None \<Rightarrow> Inr (None, st)
           | Some fresh \<Rightarrow> Inr (Some fresh, st\<lparr>ps_key := Some fresh\<rparr>)))"

definition load_index :: "crypto \<Rightarrow> index_codec \<Rightarrow> pointer_store \<Rightarrow> pointer_index" where
  "load_index cr ic st =
     (case ps_index st of
        None \<Rightarrow> empty_index
      | Some bytes \<Rightarrow>
          if MAX_INDEX_BYTES < length bytes then empty_index
          else
            (case manager_key None st of
               Inr (Some key, _) \<Rightarrow>
                 (case Option.bind (decrypt_payload cr bytes key) (ic_decode ic) of
                    Some index \<Rightarrow> if ix_version index = INDEX_VERSION then index else empty_index
                  | None \<Rightarrow> empty_index)
             | _ \<Rightarrow> empty_index))"

text \<open>The oldest records go until the encoded index fits.\<close>

fun fit_index :: "index_codec \<Rightarrow> 32 word \<Rightarrow> pointer_record list \<Rightarrow> pointer_record list" where
  "fit_index ic version [] = []"
| "fit_index ic version (r # records) =
     (if MAX_INDEX_BYTES - envelope_overhead
           < length (ic_encode ic \<lparr>ix_version = version, ix_records = r # records\<rparr>)
      then fit_index ic version records else r # records)"

definition save_index ::
    "crypto \<Rightarrow> index_codec \<Rightarrow> str \<Rightarrow> str \<Rightarrow> pointer_index \<Rightarrow> pointer_store \<Rightarrow> str + pointer_store" where
  "save_index cr ic fresh_key nonce index st =
     (let records = fit_index ic (ix_version index) (trim_index (ix_records index));
          bytes = ic_encode ic \<lparr>ix_version = ix_version index, ix_records = records\<rparr>
      in case manager_key (Some fresh_key) st of
           Inl e \<Rightarrow> Inl e
         | Inr (None, st) \<Rightarrow> Inl ''file pointer manager key unavailable''
         | Inr (Some key, st) \<Rightarrow> Inr (st\<lparr>ps_index := Some (encrypt_payload cr nonce bytes key)\<rparr>))"

text \<open>The records of a file go into the index one by one; the flag says whether one was new.\<close>

definition upsert_all :: "pointer_record list \<Rightarrow> pointer_record list \<Rightarrow> pointer_record list \<times> bool" where
  "upsert_all records index_records =
     fold (\<lambda>r (rs, changed). let (rs, c) = upsert_record rs r in (rs, changed \<or> c)) records
       (index_records, False)"

definition register_file_pointers ::
    "crypto \<Rightarrow> index_codec \<Rightarrow> automaton_builder \<Rightarrow> bool \<Rightarrow> str \<Rightarrow> str \<Rightarrow> u64 \<Rightarrow> str \<Rightarrow> str \<Rightarrow>
     mask_result \<Rightarrow> pointer_store \<Rightarrow> bool \<times> pointer_store" where
  "register_file_pointers cr ic build enabled fresh_key nonce created_at path source result st =
     (if \<not> enabled \<or> sm_masked_count (mr_summary result) = 0 then (False, st)
      else
        let records = records_for_result cr build path source created_at result
        in if records = [] then (False, st)
           else
             let index = load_index cr ic st;
                 (rs, changed) = upsert_all records (ix_records index)
             in case (if changed
                      then save_index cr ic fresh_key nonce (index\<lparr>ix_records := trim_index rs\<rparr>) st
                      else Inr st) of
                  Inl _ \<Rightarrow> (False, st)
                | Inr st \<Rightarrow>
                    (case scan_recovery_views (mr_masked result) of
                       Inl _ \<Rightarrow> (False, st)
                     | Inr handles \<Rightarrow>
                         (handles \<noteq> [] \<and>
                          list_all (\<lambda>h. vt_handle h \<in> fp_handle ` set (ix_records (load_index cr ic st)))
                            handles, st)))"

end
