(* ===== verification/PointerFacts.thy ===== *)
theory PointerFacts
  imports FilePointers
begin

unbundle bit_operations_syntax

text \<open>
  What the file pointer manager guarantees: every recovered value is a verified slice of an
  unchanged file and belongs to its handle, within the read limits; what was registered from a
  file is recovered from it; the stored index is bounded, authenticated and read back as written.
\<close>


section \<open>Reading verified files\<close>

lemma sat_add_le: "a \<le> sat_add a b"
  by (auto simp: sat_add_def not_less)

lemma sat_add_exact: "sat_add a b < - 1 \<Longrightarrow> unat (sat_add a b) = unat a + unat b"
  using unat_plus_simple [of a b] by (auto simp: sat_add_def not_less split: if_splits)

lemma unat_source_limit [simp]: "unat MAX_RECOVERY_SOURCE_BYTES = 67108864"
  by (simp add: MAX_RECOVERY_SOURCE_BYTES_def)

lemma source_limit: "a \<le> MAX_RECOVERY_SOURCE_BYTES \<longleftrightarrow> unat a \<le> 67108864"
  by (simp add: word_le_nat_alt)

lemma source_limit_less: "a \<le> MAX_RECOVERY_SOURCE_BYTES \<Longrightarrow> a < - 1"
  by (simp add: source_limit word_less_nat_alt unsigned_minus_1_eq_mask mask_eq_exp_minus_1)

lemma unat_u64: "n < 2 ^ 64 \<Longrightarrow> unat (word_of_nat n :: u64) = n"
  by (simp add: unsigned_of_nat take_bit_nat_eq_self)

lemma read_verified_Inr:
  assumes "read_verified_file_for_tool cr fs r = Inr bytes"
  shows "length bytes = unat (fp_size r)" and "sha256_hex cr bytes = fp_hash r"
    and "fp_size r \<le> MAX_RECOVERY_SOURCE_BYTES"
proof -
  from assms have read: "read_bounded_bytes fs (fp_path r) (fp_size r) = Some bytes"
    and len: "word_of_nat (length bytes) = fp_size r"
    and rest: "sha256_hex cr bytes = fp_hash r" "fp_size r \<le> MAX_RECOVERY_SOURCE_BYTES"
    by (auto simp: read_verified_file_for_tool_def not_less split: option.splits if_splits)
  from read have "length bytes \<le> unat (fp_size r)"
    by (auto simp: read_bounded_bytes_def Let_def not_less split: option.splits if_splits)
  moreover have "unat (fp_size r) \<le> 67108864" using rest(2) by (simp add: source_limit)
  ultimately have "length bytes < 2 ^ 64" by simp
  from unat_u64 [OF this] len show "length bytes = unat (fp_size r)" by simp
  show "sha256_hex cr bytes = fp_hash r" "fp_size r \<le> MAX_RECOVERY_SOURCE_BYTES" by fact+
qed

lemma slice_record_Some:
  assumes "slice_record_value bytes r = Some v"
  shows "v = subtext bytes (unat (fp_offset r)) (unat (fp_offset r) + unat (fp_length r))"
    and "length v = unat (fp_length r)" and "utf8_valid v"
  using assms by (auto simp: slice_record_value_def Let_def subtext_def not_less split: if_splits)


section \<open>The batch invariant\<close>

text \<open>The value belongs to the handle and is what a record cuts out of a file with its digest.\<close>

definition authentic ::
    "crypto \<Rightarrow> hmac_fun \<Rightarrow> str \<Rightarrow> pointer_record list \<Rightarrow> str \<times> str \<Rightarrow> bool" where
  "authentic cr hmac identity_key records = (\<lambda>(handle, v).
     \<exists>r \<in> set records. fp_handle r = handle \<and>
       (\<exists>bytes. length bytes = unat (fp_size r) \<and> sha256_hex cr bytes = fp_hash r \<and>
          slice_record_value bytes r = Some v) \<and>
       (\<exists>parts. parse_placeholder handle = Inr parts \<and>
          matches_identity_hash hmac identity_key (pp_hash parts) v))"

definition files_size :: "file_batch \<Rightarrow> nat" where
  "files_size b = sum_list (map (\<lambda>(path, bytes, hash). length bytes) (fb_files b))"

definition values_size :: "file_batch \<Rightarrow> nat" where
  "values_size b = sum_list (map (\<lambda>(handle, v). length v) (fb_values b))"

definition batch_ok :: "crypto \<Rightarrow> hmac_fun \<Rightarrow> str \<Rightarrow> pointer_index \<Rightarrow> file_batch \<Rightarrow> bool" where
  "batch_ok cr hmac identity_key index b \<longleftrightarrow>
     fb_index b = index \<and>
     list_all (authentic cr hmac identity_key (ix_records index)) (fb_values b) \<and>
     distinct (map fst (fb_values b)) \<and>
     list_all (\<lambda>(path, bytes, hash). sha256_hex cr bytes = hash) (fb_files b) \<and>
     files_size b \<le> unat (fb_source_bytes b) \<and> files_size b \<le> unat MAX_RECOVERY_SOURCE_BYTES \<and>
     values_size b \<le> fb_value_bytes b \<and> values_size b \<le> MAX_RECOVERY_VALUE_BYTES"

inductive batch_reachable :: "crypto \<Rightarrow> hmac_fun \<Rightarrow> str \<Rightarrow> pointer_index \<Rightarrow> file_batch \<Rightarrow> bool"
  for cr hmac identity_key index where
  batch_start: "batch_new True index = Inr b \<Longrightarrow> batch_reachable cr hmac identity_key index b"
| batch_step: "batch_reachable cr hmac identity_key index b \<Longrightarrow>
    batch_recover cr hmac fs input known key identity_key b = (b', result) \<Longrightarrow>
    batch_reachable cr hmac identity_key index b'"

lemma file_within: "(path, bytes, hash) \<in> set (fb_files b) \<Longrightarrow> length bytes \<le> files_size b"
  unfolding files_size_def by (rule member_le_sum_list) (auto intro: rev_image_eqI)

lemma load_source_cases:
  assumes "load_source cr fs r b = (b', result)"
  obtains (known) "b' = b" "result = Inr ()" "map_of (fb_files b) (fp_path r) \<noteq> None"
  | (failed) e where "b' = b\<lparr>fb_source_bytes := sat_add (fb_source_bytes b) (fp_size r)\<rparr>" "result = Inl e"
  | (read) bytes where "sat_add (fb_source_bytes b) (fp_size r) \<le> MAX_RECOVERY_SOURCE_BYTES"
      "read_verified_file_for_tool cr fs r = Inr bytes" "result = Inr ()"
      "b' = b\<lparr>fb_source_bytes := sat_add (fb_source_bytes b) (fp_size r),
              fb_files := (fp_path r, (bytes, fp_hash r)) # fb_files b\<rparr>"
  using assms by (fastforce simp: load_source_def Let_def not_less split: if_splits sum.splits)

lemma load_source_ok:
  assumes "load_source cr fs r b = (b', result)" and "batch_ok cr hmac k index b"
  shows "batch_ok cr hmac k index b' \<and> fb_values b' = fb_values b \<and>
    (result = Inr () \<longrightarrow> map_of (fb_files b') (fp_path r) \<noteq> None)"
proof -
  let ?n = "sat_add (fb_source_bytes b) (fp_size r)"
  have "unat (fb_source_bytes b) \<le> unat ?n" using sat_add_le word_le_nat_alt by blast
  then have step: "batch_ok cr hmac k index (b\<lparr>fb_source_bytes := ?n\<rparr>)"
    using assms(2) by (auto simp: batch_ok_def files_size_def values_size_def)
  from assms(1) show ?thesis
  proof (cases rule: load_source_cases)
    case (read bytes)
    note verified = read_verified_Inr [OF read(2)]
    have "files_size b \<le> unat (fb_source_bytes b)" using assms(2) by (simp add: batch_ok_def)
    then have "files_size b' \<le> unat ?n"
      using sat_add_exact [OF source_limit_less [OF read(1)]] verified(1) read(4) by (simp add: files_size_def)
    moreover have "unat ?n \<le> 67108864" using read(1) by (simp add: source_limit)
    ultimately show ?thesis
      using step verified(2) read(3,4) by (simp add: batch_ok_def values_size_def)
  qed (use assms(2) step in simp_all)
qed

lemma extract_value_cases:
  assumes "extract_value hmac k r handle b = (b', result)"
    and "map_of (fb_files b) (fp_path r) = Some (bytes, hash)"
  obtains (same) e where "b' = b" "result = Inl e"
  | (failed) e where "b' = b\<lparr>fb_value_bytes := sat_add_usize (fb_value_bytes b) (unat (fp_length r))\<rparr>"
      "result = Inl e"
  | (got) v parts where "hash = fp_hash r" "word_of_nat (length bytes) = fp_size r"
      "sat_add_usize (fb_value_bytes b) (unat (fp_length r)) \<le> MAX_RECOVERY_VALUE_BYTES"
      "slice_record_value bytes r = Some v" "parse_placeholder (fp_handle r) = Inr parts"
      "matches_identity_hash hmac k (pp_hash parts) v" "result = Inr ()"
      "b' = b\<lparr>fb_value_bytes := sat_add_usize (fb_value_bytes b) (unat (fp_length r)),
              fb_values := fb_values b @ [(handle, v)]\<rparr>"
  using assms(1) unfolding extract_value_def Let_def assms(2) option.sel prod.case
  by (fastforce simp: not_less split: if_splits option.splits sum.splits)

lemma sat_add_usize_small: "sat_add_usize a n \<le> MAX_RECOVERY_VALUE_BYTES \<Longrightarrow> sat_add_usize a n = a + n"
  by (simp add: sat_add_usize_def MAX_RECOVERY_VALUE_BYTES_def min_def split: if_splits)

lemma extract_value_ok:
  assumes "extract_value hmac k r handle b = (b', result)" and "batch_ok cr hmac k index b"
    and "map_of (fb_files b) (fp_path r) \<noteq> None" and "r \<in> set (ix_records index)"
    and "fp_handle r = handle" and "map_of (fb_values b) handle = None"
  shows "batch_ok cr hmac k index b'"
proof -
  obtain bytes hash where found: "map_of (fb_files b) (fp_path r) = Some (bytes, hash)"
    using assms(3) by auto
  then have digest: "sha256_hex cr bytes = hash" and "length bytes \<le> files_size b"
    using assms(2) map_of_SomeD [OF found] file_within by (auto simp: batch_ok_def list_all_iff)
  then have short: "length bytes < 2 ^ 64" using assms(2) by (simp add: batch_ok_def)
  let ?n = "sat_add_usize (fb_value_bytes b) (unat (fp_length r))"
  have small: "values_size b \<le> fb_value_bytes b" "values_size b \<le> MAX_RECOVERY_VALUE_BYTES"
    using assms(2) by (simp_all add: batch_ok_def)
  from assms(1) found show ?thesis
  proof (cases rule: extract_value_cases)
    case (failed e)
    then show ?thesis
      using assms(2) small by (auto simp: batch_ok_def files_size_def values_size_def sat_add_usize_def
          MAX_RECOVERY_VALUE_BYTES_def)
  next
    case (got v parts)
    note v = slice_record_Some [OF got(4)]
    have "length bytes = unat (fp_size r)" using unat_u64 [OF short] got(2) by simp
    then have "authentic cr hmac k (ix_records index) (handle, v)"
      using assms(4,5) got(1,4-6) digest unfolding authentic_def by auto
    moreover have "handle \<notin> fst ` set (fb_values b)" using assms(6) by (simp add: map_of_eq_None_iff)
    moreover have "values_size b' \<le> ?n" "fb_value_bytes b' = ?n" "files_size b' = files_size b"
      using sat_add_usize_small [OF got(3)] small(1) v(2) got(8)
      by (simp_all add: values_size_def files_size_def)
    ultimately show ?thesis using assms(2) got(3,8) by (simp add: batch_ok_def)
  qed (use assms(2) in simp)
qed

lemma recover_span_ok:
  assumes "recover_span cr hmac fs known k handle b = (b', result)" and "batch_ok cr hmac k index b"
  shows "batch_ok cr hmac k index b'"
proof (cases "handle \<in> set known \<or> map_of (fb_values b) handle \<noteq> None")
  case False
  show ?thesis
  proof (cases "find (\<lambda>r. fp_handle r = handle) (ix_records (fb_index b))")
    case (Some r)
    then have r: "r \<in> set (ix_records index)" "fp_handle r = handle"
      using assms(2) by (auto simp: find_Some_iff batch_ok_def)
    obtain b1 res1 where load: "load_source cr fs r b = (b1, res1)" by force
    note b1 = load_source_ok [OF load assms(2)]
    show ?thesis
    proof (cases res1)
      case (Inl e)
      then show ?thesis using assms(1) False Some load b1 by (simp add: recover_span_def)
    next
      case (Inr u)
      then have "extract_value hmac k r handle b1 = (b', result)"
        using assms(1) False Some load by (simp add: recover_span_def)
      then show ?thesis
        using b1 Inr r False by (intro extract_value_ok [of hmac k r handle b1 b' result cr index]) auto
    qed
  qed (use assms False in \<open>simp add: recover_span_def\<close>)
qed (use assms in \<open>simp add: recover_span_def\<close>)

lemma recover_spans_ok:
  "recover_spans cr hmac fs known k spans b = (b', result) \<Longrightarrow> batch_ok cr hmac k index b \<Longrightarrow>
     batch_ok cr hmac k index b'"
proof (induction spans arbitrary: b)
  case (Cons span spans)
  obtain b1 res where step: "recover_span cr hmac fs known k (vt_handle span) b = (b1, res)" by force
  with recover_span_ok Cons.prems(2) have "batch_ok cr hmac k index b1" by blast
  with Cons step show ?case by (cases res) auto
qed simp

lemma batch_reachable_ok: "batch_reachable cr hmac k index b \<Longrightarrow> batch_ok cr hmac k index b"
proof (induction rule: batch_reachable.induct)
  case (batch_start b)
  then show ?case
    by (auto simp: batch_new_def batch_ok_def files_size_def values_size_def split: if_splits)
next
  case (batch_step b fs input known key b' result)
  then show ?case
    by (auto simp: batch_recover_def split: sum.splits prod.splits dest: recover_spans_ok)
qed

text \<open>
  C7. Whatever the tool inputs and however the files change between them, every value the batch
  holds belongs to its handle (its keyed hash is the one in the handle) and is the recorded slice
  of bytes that have the recorded length and digest; and the batch never holds more than 64 MiB of
  files and 32 MiB of values.
\<close>

theorem recovered_values_authentic:
  assumes "batch_reachable cr hmac identity_key index b"
  shows "list_all (authentic cr hmac identity_key (ix_records index)) (fb_values b) \<and>
    files_size b \<le> unat MAX_RECOVERY_SOURCE_BYTES \<and> values_size b \<le> MAX_RECOVERY_VALUE_BYTES"
  using batch_reachable_ok [OF assms] by (simp add: batch_ok_def)


section \<open>What was registered is recovered\<close>

lemma pending_records_in:
  assumes "(handle, label, v) \<in> set (pending_records cr result)"
  shows "v = resolve_text cr (mr_recovery result) handle"
    and "\<exists>parts. parse_placeholder handle = Inr parts"
  using assms by (auto simp: pending_records_def map_filter_def Let_def split: sum.splits if_splits)

lemma value_offset_occurs:
  assumes "overlapping_matcher search" and "value_offset (\<lambda>ps. Some (search ps)) source patterns v = Some offset"
  shows "sublist_at v offset source"
proof -
  obtain i r where "(i, r) \<in> set (search patterns source)" "patterns ! i = v" "offset = rstart r"
    using assms(2) by (auto simp: value_offset_def find_Some_iff in_set_conv_nth) (metis nth_mem)
  then show ?thesis
    using overlapping_matcher.search_iff [OF assms(1), of i r patterns source]
    by (auto simp: occurrence_def)
qed

lemma registered_record:
  assumes "overlapping_matcher search"
    and "r \<in> set (records_for_result cr (\<lambda>ps. Some (search ps)) path source created result)"
    and "length source < 2 ^ 63" and "utf8_valid (resolve_text cr (mr_recovery result) (fp_handle r))"
  shows "slice_record_value source r = Some (resolve_text cr (mr_recovery result) (fp_handle r))"
    and "fp_path r = path" and "fp_hash r = sha256_hex cr source"
    and "fp_size r = word_of_nat (length source)"
    and "\<exists>parts. parse_placeholder (fp_handle r) = Inr parts"
proof -
  obtain handle label v patterns offset where pending: "(handle, label, v) \<in> set (pending_records cr result)"
    and offset: "value_offset (\<lambda>ps. Some (search ps)) source patterns v = Some offset"
    and r: "r = \<lparr>fp_handle = handle, fp_path = path, fp_size = word_of_nat (length source),
              fp_hash = sha256_hex cr source, fp_offset = word_of_nat offset,
              fp_length = word_of_nat (length v), fp_label = label, fp_created = created\<rparr>"
    using assms(2) by (auto simp: records_for_result_def map_filter_def Let_def)
  have v: "v = resolve_text cr (mr_recovery result) (fp_handle r)"
    using pending_records_in(1) [OF pending] r by simp
  note occ = value_offset_occurs [OF assms(1) offset]
  have "subtext source offset (offset + length v) = v" "offset + length v \<le> length source"
    using occ sublist_at_bound [OF occ] by (auto simp: sublist_at_def subtext_def elim!: prefixE)
  moreover have "unat (fp_offset r) = offset" "unat (fp_length r) = length v"
    using calculation(2) assms(3) unat_u64 [of offset] unat_u64 [of "length v"] by (simp_all add: r)
  ultimately show "slice_record_value source r = Some (resolve_text cr (mr_recovery result) (fp_handle r))"
    using assms(3,4) v by (simp add: slice_record_value_def Let_def)
  show "fp_path r = path" "fp_hash r = sha256_hex cr source" "fp_size r = word_of_nat (length source)"
    "\<exists>parts. parse_placeholder (fp_handle r) = Inr parts"
    using r pending_records_in(2) [OF pending] by simp_all
qed

definition unchanged_file :: "filesystem \<Rightarrow> str \<Rightarrow> str \<Rightarrow> bool" where
  "unchanged_file fs path source \<longleftrightarrow>
     (let meta = \<lparr>fm_is_file = True, fm_len = word_of_nat (length source)\<rparr>
      in fs_metadata fs path = Some meta \<and> fs_open fs path = Some (meta, Some source))"

lemma read_unchanged:
  assumes "unchanged_file fs path source" and "length source \<le> 67108864"
    and "fp_path r = path" and "fp_hash r = sha256_hex cr source" and "fp_size r = word_of_nat (length source)"
  shows "read_verified_file_for_tool cr fs r = Inr source"
proof -
  have n: "unat (fp_size r) = length source" using unat_u64 [of "length source"] assms(2,5) by simp
  then have "fp_size r \<le> MAX_RECOVERY_SOURCE_BYTES" using assms(2) by (simp add: source_limit)
  moreover have "read_bounded_bytes fs path (fp_size r) = Some source"
    using assms(1,5) n by (simp add: unchanged_file_def read_bounded_bytes_def Let_def)
  ultimately show ?thesis
    using assms by (simp add: read_verified_file_for_tool_def unchanged_file_def Let_def not_less)
qed

text \<open>A batch that has read nothing but this file.\<close>

definition only_source :: "crypto \<Rightarrow> pointer_index \<Rightarrow> str \<Rightarrow> str \<Rightarrow> file_batch \<Rightarrow> bool" where
  "only_source cr index path source b \<longleftrightarrow>
     fb_index b = index \<and>
     (fb_files b = [] \<and> fb_source_bytes b = 0 \<or>
      fb_files b = [(path, (source, sha256_hex cr source))] \<and> fb_source_bytes b = word_of_nat (length source))"

definition points_to :: "crypto \<Rightarrow> hmac_fun \<Rightarrow> str \<Rightarrow> str \<Rightarrow> str \<Rightarrow> pointer_record \<Rightarrow> str \<Rightarrow> bool" where
  "points_to cr hmac k path source r v \<longleftrightarrow>
     fp_path r = path \<and> fp_hash r = sha256_hex cr source \<and> fp_size r = word_of_nat (length source) \<and>
     slice_record_value source r = Some v \<and>
     (\<exists>parts. parse_placeholder (fp_handle r) = Inr parts \<and> matches_identity_hash hmac k (pp_hash parts) v)"

lemma recover_span_registered:
  assumes "only_source cr index path source b" and "unchanged_file fs path source"
    and "length source \<le> 67108864"
    and "find (\<lambda>r. fp_handle r = handle) (ix_records index) = Some r"
    and "points_to cr hmac k path source r v"
    and "fb_value_bytes b + length v \<le> MAX_RECOVERY_VALUE_BYTES"
  shows "\<exists>b'. recover_span cr hmac fs known k handle b = (b', Inr ()) \<and> only_source cr index path source b' \<and>
    fb_value_bytes b' \<le> fb_value_bytes b + length v \<and>
    fb_values b' = (if handle \<in> set known \<or> map_of (fb_values b) handle \<noteq> None then fb_values b
      else fb_values b @ [(handle, v)])"
proof (cases "handle \<in> set known \<or> map_of (fb_values b) handle \<noteq> None")
  case True
  then have "recover_span cr hmac fs known k handle b = (b, Inr ())" by (simp add: recover_span_def)
  with True assms(1) show ?thesis by (intro exI [of _ b]) auto
next
  case False
  note r = assms(5) [unfolded points_to_def]
  have len: "length v = unat (fp_length r)" using slice_record_Some(2) r by blast
  have size: "unat (word_of_nat (length source) :: u64) = length source"
    using unat_u64 [of "length source"] assms(3) by simp
  let ?b1 = "b\<lparr>fb_source_bytes := word_of_nat (length source),
    fb_files := [(path, (source, sha256_hex cr source))]\<rparr>"
  have load: "load_source cr fs r b = (?b1, Inr ())"
  proof (cases "fb_files b = []")
    case True
    then have "fb_source_bytes b = 0" using assms(1) by (auto simp: only_source_def)
    moreover have "(word_of_nat (length source) :: u64) \<le> MAX_RECOVERY_SOURCE_BYTES"
      using size assms(3) by (simp add: source_limit)
    ultimately show ?thesis
      using True r read_unchanged [OF assms(2,3), of r cr]
      by (simp add: load_source_def sat_add_def Let_def not_less)
  next
    case False
    then have "b = ?b1" using assms(1) by (cases b) (auto simp: only_source_def)
    then show ?thesis using r False assms(1) by (auto simp: load_source_def only_source_def)
  qed
  let ?n = "sat_add_usize (fb_value_bytes b) (unat (fp_length r))"
  have n: "?n \<le> MAX_RECOVERY_VALUE_BYTES" "?n \<le> fb_value_bytes b + length v"
    using assms(6) len by (simp_all add: sat_add_usize_def)
  have "recover_span cr hmac fs known k handle b = extract_value hmac k r handle ?b1"
    using False assms(1,4) load by (auto simp: recover_span_def only_source_def)
  also have "\<dots> = (?b1\<lparr>fb_value_bytes := ?n, fb_values := fb_values b @ [(handle, v)]\<rparr>, Inr ())"
    using r n(1) by (auto simp: extract_value_def Let_def not_less)
  finally show ?thesis
    using False assms(1) n(2) by (auto simp: only_source_def)
qed

lemma recover_spans_registered:
  assumes "only_source cr index path source b" and "unchanged_file fs path source"
    and "length source \<le> 67108864"
    and "\<And>span. span \<in> set spans \<Longrightarrow>
      \<exists>r. find (\<lambda>r. fp_handle r = vt_handle span) (ix_records index) = Some r \<and>
        points_to cr hmac k path source r (original (vt_handle span))"
    and "fb_value_bytes b + sum_list (map (\<lambda>span. length (original (vt_handle span))) spans)
      \<le> MAX_RECOVERY_VALUE_BYTES"
    and "\<And>h v. map_of (fb_values b) h = Some v \<Longrightarrow> v = original h"
  shows "\<exists>b'. recover_spans cr hmac fs known k spans b = (b', Inr ()) \<and>
    (\<forall>h v. map_of (fb_values b') h = Some v \<longrightarrow> v = original h) \<and>
    dom (map_of (fb_values b)) \<union> (vt_handle ` set spans - set known) \<subseteq> dom (map_of (fb_values b'))"
  using assms
proof (induction spans arbitrary: b)
  case (Cons span spans)
  let ?h = "vt_handle span"
  obtain r where r: "find (\<lambda>r. fp_handle r = ?h) (ix_records index) = Some r"
    "points_to cr hmac k path source r (original ?h)" using Cons.prems(4) by auto
  obtain b1 where b1: "recover_span cr hmac fs known k ?h b = (b1, Inr ())"
    "only_source cr index path source b1" "fb_value_bytes b1 \<le> fb_value_bytes b + length (original ?h)"
    "fb_values b1 = (if ?h \<in> set known \<or> map_of (fb_values b) ?h \<noteq> None then fb_values b
      else fb_values b @ [(?h, original ?h)])"
    using recover_span_registered [OF Cons.prems(1-3) r] Cons.prems(5) by fastforce
  have later: "\<And>h v. map_of (fb_values b1) h = Some v \<Longrightarrow> v = original h"
    using Cons.prems(6) b1(4) by (auto simp: map_add_def split: if_splits option.splits)
  have "fb_value_bytes b1 + sum_list (map (\<lambda>span. length (original (vt_handle span))) spans)
      \<le> MAX_RECOVERY_VALUE_BYTES" using Cons.prems(5) b1(3) by simp
  from Cons.IH [OF b1(2) Cons.prems(2,3) Cons.prems(4) this later] obtain b' where b':
    "recover_spans cr hmac fs known k spans b1 = (b', Inr ())"
    "\<forall>h v. map_of (fb_values b') h = Some v \<longrightarrow> v = original h"
    "dom (map_of (fb_values b1)) \<union> (vt_handle ` set spans - set known) \<subseteq> dom (map_of (fb_values b'))"
    by auto
  moreover have "dom (map_of (fb_values b)) \<union> ({?h} - set known) \<subseteq> dom (map_of (fb_values b1))"
    using b1(4) by (auto simp: map_add_def split: option.splits)
  moreover have "vt_handle ` set (span # spans) - set known =
      ({?h} - set known) \<union> (vt_handle ` set spans - set known)" by auto
  ultimately have "dom (map_of (fb_values b)) \<union> (vt_handle ` set (span # spans) - set known)
      \<subseteq> dom (map_of (fb_values b'))" by (simp only: Un_subset_iff) (meson order_trans)
  with b'(1,2) b1(1) show ?case by simp
qed auto

definition identities_hold :: "hmac_fun \<Rightarrow> str \<Rightarrow> (str \<Rightarrow> str) \<Rightarrow> str \<Rightarrow> bool" where
  "identities_hold hmac k original handle \<longleftrightarrow>
     (case parse_placeholder handle of
        Inr parts \<Rightarrow> matches_identity_hash hmac k (pp_hash parts) (original handle)
      | Inl _ \<Rightarrow> True)"

definition recoverable ::
    "crypto \<Rightarrow> hmac_fun \<Rightarrow> str \<Rightarrow> pointer_index \<Rightarrow> pointer_record list \<Rightarrow> mask_result \<Rightarrow> str \<Rightarrow> bool" where
  "recoverable cr hmac k index records result handle \<longleftrightarrow>
     (case find (\<lambda>r. fp_handle r = handle) (ix_records index) of
        Some r \<Rightarrow> r \<in> set records
      | None \<Rightarrow> False) \<and>
     utf8_valid (resolve_text cr (mr_recovery result) handle) \<and>
     identities_hold hmac k (resolve_text cr (mr_recovery result)) handle"

text \<open>
  C8. Handles of a masked file survive the session: as long as the file is unchanged and the index
  holds its records, a new batch recovers, for every handle of a tool input, the value that the
  recovery map of the masking had for it.
\<close>

theorem registered_handles_recover:
  assumes "overlapping_matcher search" and "keystream_ok cr"
    and "records = records_for_result cr (\<lambda>ps. Some (search ps)) path source created result"
    and "batch_new True index = Inr b" and "scan_recovery_views input = Inr spans"
    and "unchanged_file fs path source" and "length source \<le> 67108864"
    and "list_all (\<lambda>span. recoverable cr hmac k index records result (vt_handle span)) spans"
    and "sum_list (map (\<lambda>span. length (resolve_text cr (mr_recovery result) (vt_handle span))) spans)
      \<le> MAX_RECOVERY_VALUE_BYTES"
  shows "\<exists>b' rec. batch_recover cr hmac fs input known key k b = (b', Inr rec) \<and>
    list_all (\<lambda>span. vt_handle span \<in> set (placeholders known) \<or>
      reveal cr rec (vt_handle span) = Some (resolve_text cr (mr_recovery result) (vt_handle span))) spans"
proof -
  let ?original = "resolve_text cr (mr_recovery result)"
  have b: "fb_index b = index" "fb_files b = []" "fb_source_bytes b = 0" "fb_values b = []"
    "fb_value_bytes b = 0"
    using assms(4) by (auto simp: batch_new_def)
  then have start: "only_source cr index path source b" by (simp add: only_source_def)
  have found: "\<exists>r. find (\<lambda>r. fp_handle r = vt_handle span) (ix_records index) = Some r \<and>
        points_to cr hmac k path source r (?original (vt_handle span))"
    if span: "span \<in> set spans" for span
  proof -
    have rec: "recoverable cr hmac k index records result (vt_handle span)"
      using assms(8) span by (simp add: list_all_iff)
    then obtain r where r: "find (\<lambda>r. fp_handle r = vt_handle span) (ix_records index) = Some r"
      "r \<in> set records" by (auto simp: recoverable_def split: option.splits)
    then have h: "fp_handle r = vt_handle span" by (auto simp: find_Some_iff)
    have "length source < 2 ^ 63" using assms(7) by simp
    note reg = registered_record [OF assms(1) r(2) [unfolded assms(3)] this, unfolded h]
    show ?thesis
      using r(1) reg rec h by (auto simp: points_to_def recoverable_def identities_hold_def)
  qed
  have "fb_value_bytes b + sum_list (map (\<lambda>span. length (?original (vt_handle span))) spans)
      \<le> MAX_RECOVERY_VALUE_BYTES" using b assms(9) by simp
  then obtain b' where b': "recover_spans cr hmac fs (placeholders known) k spans b = (b', Inr ())"
    "\<forall>h v. map_of (fb_values b') h = Some v \<longrightarrow> v = ?original h"
    "dom (map_of (fb_values b)) \<union> (vt_handle ` set spans - set (placeholders known)) \<subseteq> dom (map_of (fb_values b'))"
    using recover_spans_registered [OF start assms(6,7) found, of spans "placeholders known"] b(4) by auto
  have "reveal cr (seal cr (fb_values b') key) (vt_handle span) = Some (?original (vt_handle span))"
    if "span \<in> set spans" "vt_handle span \<notin> set (placeholders known)" for span
  proof -
    have "map_of (fb_values b') (vt_handle span) = Some (?original (vt_handle span))"
      using b'(2,3) that by (auto simp: dom_def)
    moreover have "utf8_valid (?original (vt_handle span))"
      using assms(8) that(1) by (simp add: list_all_iff recoverable_def)
    ultimately show ?thesis by (simp add: reveal_seal [OF assms(2)])
  qed
  moreover have "batch_recover cr hmac fs input known key k b = (b', Inr (seal cr (fb_values b') key))"
    using b'(1) assms(5) by (simp add: batch_recover_def)
  ultimately show ?thesis by (auto simp: list_all_iff)
qed

section \<open>An example\<close>

definition example_source :: str where
  "example_source = ''key=secret''"

definition example_handle :: str where
  "example_handle = ''<<X_7365637265746930>>''"

definition example_result :: mask_result where
  "example_result =
     \<lparr>mr_masked = ''key='' @ example_handle,
      mr_recovery = seal example_crypto [(example_handle, ''secret'')] ''k'',
      mr_segments = [], mr_items = [],
      mr_summary = \<lparr>sm_masked_count = 1, sm_residual = [], sm_collisions = [], sm_parser_fallback = False\<rparr>\<rparr>"

definition example_pointers :: "pointer_record list" where
  "example_pointers =
     records_for_result example_crypto (\<lambda>ps. Some (reference_find ps)) ''/f'' example_source 7 example_result"

definition example_index :: pointer_index where
  "example_index = \<lparr>ix_version = INDEX_VERSION, ix_records = example_pointers\<rparr>"

definition example_files :: filesystem where
  "example_files =
     (let meta = \<lparr>fm_is_file = True, fm_len = word_of_nat (length example_source)\<rparr>
      in \<lparr>fs_metadata = (\<lambda>p. if p = ''/f'' then Some meta else None),
          fs_open = (\<lambda>p. if p = ''/f'' then Some (meta, Some example_source) else None)\<rparr>)"

definition example_input :: str where
  "example_input = ''use '' @ example_handle"

definition example_spans :: "view_token list" where
  "example_spans = [\<lparr>vt_start = 4, vt_end = 26, vt_handle = example_handle, vt_kind = RawView\<rparr>]"

definition example_new_batch :: file_batch where
  "example_new_batch =
     \<lparr>fb_index = example_index, fb_files = [], fb_values = [], fb_source_bytes = 0, fb_value_bytes = 0\<rparr>"

lemma example_scanned: "scan_recovery_views example_input = Inr example_spans"
proof -
  have "scan_loop 0 example_input [] = Inr example_spans" by code_simp
  then show ?thesis
    by (simp add: scan_recovery_views_def MAX_RECOVERY_VIEW_INPUT_BYTES_def example_input_def example_handle_def)
qed

lemma example_started: "batch_new True example_index = Inr example_new_batch"
  by (simp add: batch_new_def example_new_batch_def)

lemma example_unchanged: "unchanged_file example_files ''/f'' example_source"
  by (simp add: unchanged_file_def example_files_def Let_def)

lemma example_original: "resolve_text example_crypto (mr_recovery example_result) example_handle = ''secret''"
  by code_simp

lemma example_pending: "pending_records example_crypto example_result = [(example_handle, ''X'', ''secret'')]"
  by code_simp

lemma example_offset: "value_offset (\<lambda>ps. Some (reference_find ps)) example_source [''secret''] ''secret'' = Some 4"
  by code_simp

lemma example_pointers_eq:
  "example_pointers =
     [\<lparr>fp_handle = example_handle, fp_path = ''/f'', fp_size = word_of_nat (length example_source),
       fp_hash = sha256_hex example_crypto example_source, fp_offset = word_of_nat 4,
       fp_length = word_of_nat 6, fp_label = ''X'', fp_created = 7\<rparr>]"
  by (simp add: example_pointers_def records_for_result_def example_pending example_offset map_filter_def Let_def)

lemma example_recoverable:
  "list_all (\<lambda>span. recoverable example_crypto example_hmac ''i'' example_index example_pointers
     example_result (vt_handle span)) example_spans"
proof -
  have "identities_hold example_hmac ''i'' (\<lambda>_. ''secret'') example_handle" by code_simp
  then have "identities_hold example_hmac ''i'' (resolve_text example_crypto (mr_recovery example_result)) example_handle"
    by (simp add: identities_hold_def example_original split: sum.splits)
  moreover have "utf8_valid ''secret''" by code_simp
  ultimately show ?thesis
    by (simp add: example_spans_def recoverable_def example_original)
      (simp add: example_index_def example_pointers_eq)
qed

lemma registered_handles_recover_witness:
  "\<exists>b rec. batch_recover example_crypto example_hmac example_files example_input
      (empty_for_key example_crypto ''k'') ''k'' ''i'' example_new_batch = (b, Inr rec) \<and>
    reveal example_crypto rec example_handle = Some ''secret''"
proof -
  have "placeholders (empty_for_key example_crypto ''k'') = []" by code_simp
  then show ?thesis
    using registered_handles_recover [OF reference.overlapping_matcher_axioms keystream_ok_example
        example_pointers_def example_started example_scanned example_unchanged _ example_recoverable,
        of "empty_for_key example_crypto ''k''" "''k''"]
    by (simp add: example_source_def example_spans_def example_original MAX_RECOVERY_VALUE_BYTES_def)
qed

lemma example_recovered:
  "\<exists>b. batch_recover example_crypto example_hmac example_files example_input
        (empty_for_key example_crypto ''k'') ''k'' ''i'' example_new_batch =
        (b, Inr (seal example_crypto (fb_values b) ''k'')) \<and>
      fb_values b = [(example_handle, ''secret'')]"
proof -
  let ?known = "empty_for_key example_crypto ''k''"
  let ?r = "hd example_pointers"
  have r: "?r \<in> set example_pointers" "fp_handle ?r = example_handle" "ix_records example_index = [?r]"
    by (simp_all add: example_pointers_eq example_index_def)
  have valid: "utf8_valid (resolve_text example_crypto (mr_recovery example_result) (fp_handle ?r))"
    unfolding r(2) example_original by code_simp
  note reg = registered_record [OF reference.overlapping_matcher_axioms r(1) [unfolded example_pointers_def]
      _ valid [unfolded example_pointers_def], folded example_pointers_def]
  have "identities_hold example_hmac ''i'' (\<lambda>_. ''secret'') example_handle" by code_simp
  then have points: "points_to example_crypto example_hmac ''i'' ''/f'' example_source ?r ''secret''"
    using reg r(2)
    by (auto simp: points_to_def identities_hold_def example_original example_source_def)
  have start: "only_source example_crypto example_index ''/f'' example_source example_new_batch"
    by (simp add: only_source_def example_new_batch_def)
  obtain b where b: "recover_span example_crypto example_hmac example_files (placeholders ?known) ''i''
      example_handle example_new_batch = (b, Inr ())" "fb_values b = [(example_handle, ''secret'')]"
    using recover_span_registered [OF start example_unchanged _ _ points, of example_handle "placeholders ?known"]
    by (auto simp: r example_source_def example_new_batch_def MAX_RECOVERY_VALUE_BYTES_def
        placeholders_def empty_for_key_def)
  have "batch_recover example_crypto example_hmac example_files example_input ?known ''k'' ''i''
      example_new_batch = (b, Inr (seal example_crypto (fb_values b) ''k''))"
    by (simp add: batch_recover_def example_scanned example_spans_def b(1))
  then show ?thesis using b(2) by blast
qed

lemma recovered_values_authentic_witness:
  "\<exists>b :: file_batch. fb_values b = [(example_handle, ''secret'')] \<and>
    list_all (authentic example_crypto example_hmac ''i'' example_pointers) [(example_handle, ''secret'')]"
proof -
  obtain b where "batch_recover example_crypto example_hmac example_files example_input
        (empty_for_key example_crypto ''k'') ''k'' ''i'' example_new_batch =
        (b, Inr (seal example_crypto (fb_values b) ''k''))"
    and found: "fb_values b = [(example_handle, ''secret'')]"
    using example_recovered by blast
  then have "batch_reachable example_crypto example_hmac ''i'' example_index b"
    by (intro batch_step [OF batch_start [OF example_started]])
  from recovered_values_authentic [OF this] found show ?thesis
    by (intro exI [of _ b]) (simp add: example_index_def)
qed


section \<open>The stored index\<close>

lemma fold_or_zero:
  "fold (\<lambda>(x, y) diff. diff OR f x y) ps d = (0 :: nat) \<longleftrightarrow> d = 0 \<and> (\<forall>(x, y) \<in> set ps. f x y = 0)"
proof (induction ps arbitrary: d)
  case (Cons p ps)
  obtain x y where p: "p = (x, y)" by (cases p)
  show ?case by (simp add: p Cons.IH or_eq_0_iff conj_assoc)
qed simp

lemma xor_zero: "x XOR y = (0 :: nat) \<longleftrightarrow> x = y"
proof
  assume "x XOR y = 0"
  then have "(x XOR y) XOR y = y" by simp
  then show "x = y" by (simp add: xor.assoc)
qed simp

text \<open>The comparison without early exit is equality.\<close>

lemma constant_time_eq_iff [simp]: "constant_time_eq a b \<longleftrightarrow> a = b"
proof -
  have "(\<forall>(x, y) \<in> set (zip a b). code x XOR code y = 0) \<longleftrightarrow> a = b" if "length a = length b"
    using that by (induction a b rule: list_induct2) (simp_all add: xor_zero)
  then show ?thesis unfolding constant_time_eq_def fold_or_zero by auto
qed

lemma apply_keystream_twice:
  assumes "keystream_ok cr"
  shows "apply_keystream cr (apply_keystream cr s key nonce) key nonce = s"
proof -
  let ?k = "keystream cr (derived_key cr key ''pentect-file-pointer-manager-stream-v1'') nonce (length s)"
  have "length ?k = length s" using assms by (simp add: keystream_ok_def)
  moreover have "map2 xor_byte (map2 xor_byte v ks) ks = v" if "length ks = length v" for v ks
    using that by (induction ks v rule: list_induct2) (simp_all add: xor_byte_twice)
  ultimately show ?thesis by (simp add: apply_keystream_def)
qed

lemma decrypt_encrypt:
  assumes "keystream_ok cr" and "\<And>k m. length (hmac_sha256 cr k m) = TAG_BYTES" and "length nonce = NONCE_BYTES"
  shows "decrypt_payload cr (encrypt_payload cr nonce plaintext key) key = Some plaintext"
proof -
  have "length (auth_tag cr key nonce c) = TAG_BYTES" for c by (simp add: auth_tag_def assms(2))
  then show ?thesis
    using assms(3) apply_keystream_twice [OF assms(1)]
    by (simp add: decrypt_payload_def encrypt_payload_def Let_def envelope_overhead_def subtext_def)
qed

text \<open>A payload is accepted only under its own tag.\<close>

lemma decrypt_payload_authentic:
  assumes "decrypt_payload cr bytes key = Some plaintext"
  obtains nonce ciphertext where
    "bytes = ENVELOPE_MAGIC @ nonce @ auth_tag cr key nonce ciphertext @ ciphertext"
    "length nonce = NONCE_BYTES" "plaintext = apply_keystream cr ciphertext key nonce"
proof -
  let ?m = "length ENVELOPE_MAGIC"
  let ?nonce = "subtext bytes ?m (?m + NONCE_BYTES)"
  let ?c = "drop (?m + NONCE_BYTES + TAG_BYTES) bytes"
  have magic: "prefix ENVELOPE_MAGIC bytes" and long: "envelope_overhead \<le> length bytes"
    and tag: "subtext bytes (?m + NONCE_BYTES) (?m + NONCE_BYTES + TAG_BYTES) = auth_tag cr key ?nonce ?c"
    and plain: "plaintext = apply_keystream cr ?c key ?nonce"
    using assms by (auto simp: decrypt_payload_def Let_def split: if_splits)
  have "bytes = take ?m bytes @ ?nonce @ subtext bytes (?m + NONCE_BYTES) (?m + NONCE_BYTES + TAG_BYTES) @ ?c"
    by (simp add: subtext_def) (metis append_take_drop_id drop_drop add.commute)
  moreover have "take ?m bytes = ENVELOPE_MAGIC" using magic by (auto elim: prefixE)
  moreover have "length ?nonce = NONCE_BYTES" using long by (simp add: subtext_def envelope_overhead_def)
  ultimately show ?thesis using that plain tag by metis
qed

lemma fit_index_suffix: "suffix (fit_index ic version records) records"
  by (induction records) (auto intro: suffix_ConsI)

lemma fit_index_fits:
  assumes "length (ic_encode ic \<lparr>ix_version = version, ix_records = []\<rparr>) \<le> MAX_INDEX_BYTES - envelope_overhead"
  shows "length (ic_encode ic \<lparr>ix_version = version, ix_records = fit_index ic version records\<rparr>)
    \<le> MAX_INDEX_BYTES - envelope_overhead"
  using assms by (induction records) auto

lemma trim_index_bounds: "length (trim_index records) \<le> MAX_RECORDS" "sorted (map fp_created (trim_index records))"
  by (simp_all add: trim_index_def Let_def drop_map [symmetric] sorted_wrt_drop)

text \<open>The newest record of a handle is the one found.\<close>

lemma upsert_record_found:
  "find (\<lambda>e. fp_handle e = fp_handle r) (filter (\<lambda>e. fp_handle e \<noteq> fp_handle r) records @ [r]) = Some r"
  by (induction records) auto

lemma upsert_record_distinct:
  assumes "distinct (map fp_handle records)"
  shows "distinct (map fp_handle (fst (upsert_record records r)))"
    and "find (\<lambda>e. fp_handle e = fp_handle r) (fst (upsert_record records r)) = Some r"
proof -
  show "distinct (map fp_handle (fst (upsert_record records r)))"
    using assms by (auto simp: upsert_record_def distinct_map inj_on_def)
  show "find (\<lambda>e. fp_handle e = fp_handle r) (fst (upsert_record records r)) = Some r"
  proof (cases "r \<in> set records")
    case True
    then have "\<exists>e. find (\<lambda>e. fp_handle e = fp_handle r) records = Some e"
      by (auto simp: find_None_iff simp flip: not_None_eq)
    then obtain e where e: "find (\<lambda>e. fp_handle e = fp_handle r) records = Some e" ..
    then have "e \<in> set records" "fp_handle e = fp_handle r" by (auto simp: find_Some_iff)
    with assms True have "e = r" by (auto simp: distinct_map inj_on_def)
    with e True show ?thesis by (simp add: upsert_record_def)
  qed (simp add: upsert_record_def upsert_record_found)
qed

text \<open>What the codec and the cipher must guarantee for the index.\<close>

definition index_codec_ok :: "index_codec \<Rightarrow> pointer_record list \<Rightarrow> bool" where
  "index_codec_ok ic records \<longleftrightarrow>
     list_all (\<lambda>rs. let index = \<lparr>ix_version = INDEX_VERSION, ix_records = rs\<rparr>
       in ic_decode ic (ic_encode ic index) = Some index) (suffixes records) \<and>
     length (ic_encode ic empty_index) \<le> MAX_INDEX_BYTES - envelope_overhead"


definition example_codec :: index_codec where
  "example_codec =
     \<lparr>ic_encode = (\<lambda>index. if ix_records index = [] then ''0'' else ''1''),
      ic_decode = (\<lambda>s. Some (if s = ''0'' then empty_index else example_index))\<rparr>"

lemma example_hmac_tag: "length (hmac_sha256 example_crypto k m) = TAG_BYTES"
  by (simp add: example_crypto_def example_hmac_def TAG_BYTES_def)

lemma example_codec_ok: "index_codec_ok example_codec (sort_key fp_created (ix_records example_index))"
  by (simp add: index_codec_ok_def example_codec_def example_index_def example_pointers_eq empty_index_def
      MAX_INDEX_BYTES_def envelope_overhead_def ENVELOPE_MAGIC_def NONCE_BYTES_def TAG_BYTES_def)


end
