(* ===== verification/EnvRefs.thy ===== *)
theory EnvRefs
  imports ToolInput
begin

text \<open>
  Environment aliases of handles: \<open>crates/pentect-runtime/src/masking.rs\<close> (the aliases a masked
  text offers and their records in a sealed map), \<open>memory_store.rs\<close> (the reserved names) and
  \<open>main.rs\<close> (the bindings of a map, and the references a text makes to them).
\<close>


section \<open>What a handle says about itself\<close>

text \<open>A trailing part of the name is a length hint when digits, and nothing else, follow the marker.\<close>

definition hint_suffix :: "str \<Rightarrow> bool" where
  "hint_suffix suf \<longleftrightarrow>
     (case strip_suffix ''_chars'' suf of Some n \<Rightarrow> list_all is_ascii_digit n | None \<Rightarrow> False)"

definition drop_hint :: "str \<Rightarrow> (str \<Rightarrow> bool) \<Rightarrow> str \<Rightarrow> str" where
  "drop_hint marker ok inner =
     (case rsplit_once marker inner of
        Some (pre, suf) \<Rightarrow> if ok suf then pre else inner
      | None \<Rightarrow> inner)"

definition placeholder_core :: "str \<Rightarrow> str option" where
  "placeholder_core v =
     do {
       inner \<leftarrow> strip_prefix ''<<'' v;
       inner \<leftarrow> strip_suffix ''>>'' inner;
       let inner = drop_hint ''_length_at_least_'' hint_suffix inner;
       let inner = drop_hint ''_length_'' hint_suffix inner;
       let inner = drop_hint ''_len'' (list_all is_ascii_digit) inner;
       if list_all (\<lambda>b. is_ascii_alphanumeric b \<or> b = CHR ''_'') inner then Some inner else None
     }"

definition placeholder_label :: "str \<Rightarrow> str option" where
  "placeholder_label v =
     do {
       inner \<leftarrow> placeholder_core v;
       (label, hash) \<leftarrow> rsplit_once ''_'' inner;
       if length hash = 16 \<and> list_all is_ascii_hexdigit hash then Some label else None
     }"

definition ENV_ALIAS_LABEL :: str where
  "ENV_ALIAS_LABEL = ''PENTECT_ENV_ALIAS''"

definition is_reusable_placeholder :: "str \<Rightarrow> bool" where
  "is_reusable_placeholder v \<longleftrightarrow>
     prefix ''<<'' v \<and> suffix ''>>'' v \<and> str_contains v ''_'' \<and> \<not> str_contains v ''REDACTED_DERIVED'' \<and>
     placeholder_label v \<noteq> Some ENV_ALIAS_LABEL"

definition is_env_alias_placeholder :: "str \<Rightarrow> bool" where
  "is_env_alias_placeholder v \<longleftrightarrow> placeholder_label v = Some ENV_ALIAS_LABEL"

definition is_env_name_byte :: "byte \<Rightarrow> bool" where
  "is_env_name_byte b \<longleftrightarrow> is_ascii_alphanumeric b \<or> b = CHR ''_''"

definition is_env_name :: "str \<Rightarrow> bool" where
  "is_env_name name \<longleftrightarrow> name \<noteq> [] \<and> \<not> is_ascii_digit (hd name) \<and> list_all is_env_name_byte name"


section \<open>The aliases of a masked text\<close>

definition find_from :: "str \<Rightarrow> nat \<Rightarrow> str \<Rightarrow> nat option" where
  "find_from hay start needle =
     (if needle = [] \<or> length hay \<le> start then None
      else find_from_loop hay needle (length hay) start)"

lemma find_from_Some:
  assumes "find_from hay start needle = Some j"
  shows "start \<le> j" and "j + length needle \<le> length hay" and "subtext hay j (j + length needle) = needle"
  using assms find_from_loop_Some [of hay needle "length hay" start j]
  by (auto simp: find_from_def split: if_splits)

text \<open>The two scans of the code share their walk over the candidates.\<close>

function reusable_placeholders_from :: "str \<Rightarrow> nat \<Rightarrow> str list" where
  "reusable_placeholders_from s i =
     (if i + 1 < length s then
        if subtext s i (i + 2) = ''<<'' then
          (case find_from s (i + 2) ''>>'' of
             Some close \<Rightarrow>
               (let handle = subtext s i (close + 2); rest = reusable_placeholders_from s (close + 2)
                in if is_reusable_placeholder handle then handle # rest else rest)
           | None \<Rightarrow> reusable_placeholders_from s (i + 1))
        else reusable_placeholders_from s (i + 1)
      else [])"
  by pat_completeness auto
termination
  by (relation "measure (\<lambda>(s, i). length s - i)") (auto dest: find_from_Some(1))

declare reusable_placeholders_from.simps [simp del]

definition reusable_placeholders :: "str \<Rightarrow> str list" where
  "reusable_placeholders s = reusable_placeholders_from s 0"

function unresolved_from :: "str \<Rightarrow> nat \<Rightarrow> bool" where
  "unresolved_from s i \<longleftrightarrow>
     (if i + 1 < length s then
        if subtext s i (i + 2) = ''<<'' then
          (case find_from s (i + 2) ''>>'' of
             Some close \<Rightarrow>
               is_reusable_placeholder (subtext s i (close + 2)) \<or> unresolved_from s (close + 2)
           | None \<Rightarrow> unresolved_from s (i + 1))
        else unresolved_from s (i + 1)
      else False)"
  by pat_completeness auto
termination
  by (relation "measure (\<lambda>(s, i). length s - i)") (auto dest: find_from_Some(1))

declare unresolved_from.simps [simp del]

definition contains_unresolved_masked_handle :: "str \<Rightarrow> bool" where
  "contains_unresolved_masked_handle s \<longleftrightarrow> unresolved_from s 0"

definition env_name_for_handle :: "str \<Rightarrow> str \<Rightarrow> str option" where
  "env_name_for_handle handle pre = map_option (\<lambda>core. pre @ core) (placeholder_core handle)"

definition reusable_env_aliases :: "str \<Rightarrow> str \<Rightarrow> (str \<times> str) list" where
  "reusable_env_aliases s pre =
     List.map_filter (\<lambda>handle. map_option (\<lambda>name. (name, handle)) (env_name_for_handle handle pre))
       (reusable_placeholders s)"

definition first_reusable_env_name :: "str \<Rightarrow> str \<Rightarrow> str option" where
  "first_reusable_env_name s pre =
     (case reusable_env_aliases s pre of [] \<Rightarrow> None | (name, _) # _ \<Rightarrow> Some name)"

text \<open>An alias is a sealed entry of its own: an opaque handle whose value is the record.\<close>

definition env_alias_placeholder :: "hmac_fun \<Rightarrow> str \<Rightarrow> str \<Rightarrow> str \<Rightarrow> str" where
  "env_alias_placeholder hmac key name handle =
     render_placeholder ENV_ALIAS_LABEL (identity_hash hmac key (''env-alias:'' @ name @ '':'' @ handle)) None"

definition ENV_ALIAS_RECORD_PREFIX :: str where
  "ENV_ALIAS_RECORD_PREFIX = CHR 0x1F # ''pentect-env'' @ [CHR 0x00]"

definition encode_env_alias_record :: "str \<Rightarrow> str \<Rightarrow> str" where
  "encode_env_alias_record name handle = ENV_ALIAS_RECORD_PREFIX @ name @ CHR 0x00 # handle"

definition decode_env_alias_record :: "str \<Rightarrow> (str \<times> str) option" where
  "decode_env_alias_record rec =
     do {
       rest \<leftarrow> strip_prefix ENV_ALIAS_RECORD_PREFIX rec;
       (name, handle) \<leftarrow> split_once [CHR 0x00] rest;
       if is_env_name name \<and> is_reusable_placeholder handle then Some (name, handle) else None
     }"

definition env_alias_recovery :: "crypto \<Rightarrow> hmac_fun \<Rightarrow> str \<Rightarrow> str \<Rightarrow> str \<Rightarrow> recovery" where
  "env_alias_recovery cr hmac masked key pre =
     (let aliases = reusable_env_aliases masked pre
      in if aliases = [] then empty_for_key cr key
         else seal cr
           (fold (\<lambda>(name, handle). AList.update (env_alias_placeholder hmac key name handle)
                (encode_env_alias_record name handle)) aliases []) key)"


section \<open>The bindings of a map\<close>

definition PENTECT_CONTROL_ENV_NAMES :: "str list" where
  "PENTECT_CONTROL_ENV_NAMES =
     [''PENTECT_BIN'', ''PENTECT_AGENT_LAUNCHED'', ''PENTECT_MEMORY_STORE_ADDR'',
      ''PENTECT_MEMORY_STORE_TOKEN'', ''PENTECT_PROCESS_HOST_ROOT'', ''PENTECT_PROCESS_HOST_READ_TOKEN'',
      ''PENTECT_PROCESS_HOST_WRITE_TOKEN'', ''PENTECT_PLUGIN_CONFIGS'', ''PENTECT_PLUGIN_BINARIES'',
      ''PENTECT_GLOBAL_PLUGIN_BINARIES'', ''PENTECT_GLOBAL_PLUGIN_IDS'', ''PENTECT_PLUGIN_NAME'',
      ''PENTECT_PLUGIN_DATA_DIR'', ''PENTECT_PLUGIN_CACHE_DIR'', ''PENTECT_PLUGIN_CONFIG'',
      ''PENTECT_AGENT_CONTRACT'', ''PENTECT_HOME'', ''PENTECT_SESSION'',
      ''PENTECT_FILE_POINTER_MANAGER_DIR'', ''PENTECT_LOG_DIR'', ''PENTECT_CODEX'', ''PENTECT_CLAUDE'',
      ''PENTECT_ANTHROPIC_UPSTREAM'', ''PENTECT_JUNIE_API_KEY'', ''PENTECT_PROXY_URL'',
      ''PENTECT_PROVIDER_MODEL'', ''PENTECT_PROVIDER_API'', ''PENTECT_GATEWAY_API_KEY'',
      ''PENTECT_API_KEY'', ''PENTECT_UPSTREAM_AUTHORIZATION'', ''PENTECT_UPSTREAM_CA_CERT'',
      ''PENTECT_UPSTREAM_IDENTITY'', ''PENTECT_ALLOW_INSECURE_UPSTREAM'']"

definition is_pentect_control_env_name :: "str \<Rightarrow> bool" where
  "is_pentect_control_env_name name \<longleftrightarrow>
     list_ex (\<lambda>reserved. ascii_lower name = ascii_lower reserved) PENTECT_CONTROL_ENV_NAMES"

definition is_reserved_child_env_name :: "str \<Rightarrow> bool" where
  "is_reserved_child_env_name name \<longleftrightarrow>
     (let lower = ascii_lower name
      in is_pentect_control_env_name lower \<or>
         lower \<in> {''path'', ''pathext'', ''systemroot'', ''windir'', ''comspec'', ''temp'', ''tmp'',
           ''userprofile'', ''home'', ''shell'', ''term'', ''lang'', ''lc_all'', ''tmpdir''})"

text \<open>What one entry of the map contributes, and the bindings of all of them; a later entry wins.\<close>

definition env_binding :: "crypto \<Rightarrow> recovery \<Rightarrow> str \<Rightarrow> (str \<times> str) option" where
  "env_binding cr rec ph =
     (if \<not> is_env_alias_placeholder ph then None
      else
        (case decode_env_alias_record (resolve_text cr rec ph) of
           None \<Rightarrow> None
         | Some (name, handle) \<Rightarrow>
             if is_reserved_child_env_name name then None
             else
               (let v = resolve_text cr rec handle
                in if v \<noteq> handle then Some (ascii_lower name, v) else None)))"

definition environment_bindings_from_recovery :: "crypto \<Rightarrow> recovery \<Rightarrow> (str \<times> str) list" where
  "environment_bindings_from_recovery cr rec =
     fold (\<lambda>(name, v). AList.update name v) (List.map_filter (env_binding cr rec) (placeholders rec)) []"


section \<open>References in a text\<close>

text \<open>The loop of \<open>env_name_end\<close> passes over the bytes of a name.\<close>

definition env_name_end :: "str \<Rightarrow> nat \<Rightarrow> nat" where
  "env_name_end s i = i + length (takeWhile is_env_name_byte (drop i s))"

lemma env_name_end_ge: "i \<le> env_name_end s i"
  by (simp add: env_name_end_def)

definition byte_at :: "str \<Rightarrow> nat \<Rightarrow> byte option" where
  "byte_at s i = (if i < length s then Some (s ! i) else None)"

text \<open>A name of at least one byte from \<open>a\<close> on, with the closing byte it needs, if any.\<close>

definition closed_name :: "str \<Rightarrow> nat \<Rightarrow> byte option \<Rightarrow> (nat \<times> str) option" where
  "closed_name s a closing =
     (let e = env_name_end s a
      in if a < e
         then (case closing of
                 None \<Rightarrow> Some (e, subtext s a e)
               | Some c \<Rightarrow> if byte_at s e = Some c then Some (e + 1, subtext s a e) else None)
         else None)"

definition word_at :: "str \<Rightarrow> nat \<Rightarrow> str \<Rightarrow> bool" where
  "word_at s a w \<longleftrightarrow> a + length w \<le> length s \<and> eq_ignore_ascii_case (subtext s a (a + length w)) w"

definition environment_reference_at :: "str \<Rightarrow> nat \<Rightarrow> (nat \<times> str) option" where
  "environment_reference_at s start =
     (if length s \<le> start then None
      else if s ! start = CHR ''$'' then
        if word_at s start ''$env:'' then closed_name s (start + 5) None
        else if byte_at s (start + 1) = Some (CHR ''{'') then
          closed_name s (if word_at s (start + 2) ''env:'' then start + 6 else start + 2) (Some (CHR ''}''))
        else closed_name s (start + 1) None
      else if s ! start = CHR ''%'' then closed_name s (start + 1) (Some (CHR ''%''))
      else None)"

lemma closed_name_advances: "closed_name s a closing = Some (e, name) \<Longrightarrow> a < e"
  by (auto simp: closed_name_def Let_def split: if_splits option.splits)

lemma reference_advances: "environment_reference_at s i = Some (e, name) \<Longrightarrow> i < e"
  by (auto simp: environment_reference_at_def split: if_splits dest!: closed_name_advances)

text \<open>The loop keeps what it has written, the start of what it has not copied, and its position.\<close>

function known_loop ::
    "crypto \<Rightarrow> recovery \<Rightarrow> (str \<times> str) list \<Rightarrow> str \<Rightarrow> str \<Rightarrow> nat \<Rightarrow> nat \<Rightarrow> str \<times> nat" where
  "known_loop cr rec bindings s out cursor i =
     (if length s \<le> i then (out, cursor)
      else if prefix ''<<'' (drop i s) then
        (case str_find ''>>'' (drop (i + 2) s) of
           None \<Rightarrow> (out, cursor)
         | Some close \<Rightarrow>
             (let e = i + 2 + close + 2; reference = subtext s i e; v = resolve_text cr rec reference
              in if v \<noteq> reference
                 then known_loop cr rec bindings s (out @ subtext s cursor i @ v) e e
                 else known_loop cr rec bindings s out cursor e))
      else
        (case environment_reference_at s i of
           None \<Rightarrow> known_loop cr rec bindings s out cursor (i + 1)
         | Some (e, name) \<Rightarrow>
             (case map_of bindings (ascii_lower name) of
                None \<Rightarrow> known_loop cr rec bindings s out cursor e
              | Some v \<Rightarrow> known_loop cr rec bindings s (out @ subtext s cursor i @ v) e e)))"
  by pat_completeness auto
termination
  by (relation "measure (\<lambda>(cr, rec, bindings, s, out, cursor, i). length s - i)")
    (auto dest: reference_advances)

declare known_loop.simps [simp del]

definition resolve_known_references :: "crypto \<Rightarrow> recovery \<Rightarrow> (str \<times> str) list \<Rightarrow> str \<Rightarrow> str" where
  "resolve_known_references cr rec bindings s =
     (let (out, cursor) = known_loop cr rec bindings s [] 0 0
      in if cursor = 0 then s else out @ drop cursor s)"


section \<open>What a text becomes\<close>

text \<open>The text in pieces: what is copied, what the map resolves and what a binding replaces.\<close>

datatype piece = Plain str | HandleRef str | EnvRef str str

function pieces :: "str \<Rightarrow> piece list" where
  "pieces s =
     (if s = [] then []
      else if prefix ''<<'' s then
        (case str_find ''>>'' (drop 2 s) of
           None \<Rightarrow> [Plain s]
         | Some close \<Rightarrow> HandleRef (take (close + 4) s) # pieces (drop (close + 4) s))
      else
        (case environment_reference_at s 0 of
           None \<Rightarrow> Plain [hd s] # pieces (tl s)
         | Some (e, name) \<Rightarrow> EnvRef name (take e s) # pieces (drop e s)))"
  by pat_completeness auto
termination
  by (relation "measure length") (auto dest: reference_advances)

declare pieces.simps [simp del]

fun piece_raw :: "piece \<Rightarrow> str" where
  "piece_raw (Plain t) = t"
| "piece_raw (HandleRef t) = t"
| "piece_raw (EnvRef name t) = t"

fun piece_value :: "crypto \<Rightarrow> recovery \<Rightarrow> (str \<times> str) list \<Rightarrow> piece \<Rightarrow> str" where
  "piece_value cr rec bindings (Plain t) = t"
| "piece_value cr rec bindings (HandleRef t) = resolve_text cr rec t"
| "piece_value cr rec bindings (EnvRef name t) =
     (case map_of bindings (ascii_lower name) of Some v \<Rightarrow> v | None \<Rightarrow> t)"

lemma concat_pieces: "concat (map piece_raw (pieces s)) = s"
proof (induction s rule: pieces.induct)
  case (1 s)
  then show ?case
    by (subst pieces.simps) (auto split: option.splits)
qed

lemma subtext_drop: "subtext (drop i s) a b = subtext s (i + a) (i + b)"
  by (simp add: subtext_def drop_drop add.commute)

lemma subtext_join: "a \<le> b \<Longrightarrow> b \<le> c \<Longrightarrow> subtext s a b @ subtext s b c = subtext s a c"
  by (auto simp: subtext_def le_iff_add take_add drop_drop add.commute)

lemma env_name_end_drop: "env_name_end (drop i s) a = env_name_end s (i + a) - i"
  by (simp add: env_name_end_def drop_drop add.commute)

lemma byte_at_drop: "i \<le> length s \<Longrightarrow> byte_at (drop i s) a = byte_at s (i + a)"
  by (auto simp: byte_at_def)

text \<open>A reference depends only on what follows its first byte.\<close>

lemma closed_name_drop:
  assumes "i \<le> length s"
  shows "closed_name s (i + a) closing = map_option (\<lambda>(e, name). (i + e, name)) (closed_name (drop i s) a closing)"
proof -
  have e: "i + env_name_end (drop i s) a = env_name_end s (i + a)"
    using env_name_end_ge [of "i + a" s] by (simp add: env_name_end_drop)
  then have "subtext (drop i s) a (env_name_end (drop i s) a) = subtext s (i + a) (env_name_end s (i + a))"
    "byte_at (drop i s) (env_name_end (drop i s) a) = byte_at s (env_name_end s (i + a))"
    "a < env_name_end (drop i s) a \<longleftrightarrow> i + a < env_name_end s (i + a)"
    using assms by (simp_all add: subtext_drop byte_at_drop flip: e)
  then show ?thesis using e by (auto simp: closed_name_def Let_def split: option.split)
qed

lemma word_at_drop: "i \<le> length s \<Longrightarrow> word_at (drop i s) a w = word_at s (i + a) w"
  by (auto simp: word_at_def subtext_drop add.assoc)

lemma reference_at_drop:
  assumes "i < length s"
  shows "environment_reference_at s i =
    map_option (\<lambda>(e, name). (i + e, name)) (environment_reference_at (drop i s) 0)"
proof -
  have name: "closed_name s (i + a) closing =
      map_option (\<lambda>(e, name). (i + e, name)) (closed_name (drop i s) a closing)" for a closing
    using assms by (simp add: closed_name_drop)
  have at: "byte_at (drop i s) 1 = byte_at s (i + 1)" "word_at (drop i s) 0 w = word_at s i w"
    "word_at (drop i s) 2 w = word_at s (i + 2) w" for w
    using assms by (simp_all add: byte_at_drop word_at_drop del: One_nat_def)
  show ?thesis
    using assms name [of 5] name [of 1] name [of 2] name [of 6] at
    by (simp add: environment_reference_at_def del: One_nat_def add_2_eq_Suc')
qed

lemma pieces_at:
  assumes "i < length s"
  shows "pieces (drop i s) =
     (if prefix ''<<'' (drop i s) then
        (case str_find ''>>'' (drop (i + 2) s) of
           None \<Rightarrow> [Plain (drop i s)]
         | Some close \<Rightarrow> HandleRef (subtext s i (i + 2 + close + 2)) # pieces (drop (i + 2 + close + 2) s))
      else
        (case environment_reference_at s i of
           None \<Rightarrow> Plain (subtext s i (i + 1)) # pieces (drop (i + 1) s)
         | Some (e, name) \<Rightarrow> EnvRef name (subtext s i e) # pieces (drop e s)))"
proof -
  have "drop i s \<noteq> []" using assms by simp
  moreover have "[hd (drop i s)] = subtext s i (i + 1)"
    using assms by (simp add: subtext_def hd_drop_conv_nth take_Suc)
  moreover have "drop 2 (drop i s) = drop (i + 2) s" "tl (drop i s) = drop (i + 1) s"
    by (simp_all add: add.commute drop_Suc tl_drop)
  moreover have "take (close + 4) (drop i s) = subtext s i (i + 2 + close + 2)"
    "drop (close + 4) (drop i s) = drop (i + 2 + close + 2) s" for close
    by (simp_all add: subtext_def drop_drop add.commute eval_nat_numeral)
  ultimately show ?thesis
    by (subst pieces.simps)
      (auto simp: reference_at_drop [OF assms] subtext_def drop_drop add.commute split: option.split)
qed

text \<open>The bounds of a reference inside the text.\<close>

lemma find_in_rest:
  assumes "str_find pat (drop i s) = Some k"
  shows "i + k + length pat \<le> length s \<or> pat = []"
proof (cases "pat = []")
  case False
  from str_find_Some [OF assms] have "k + length pat \<le> length (drop i s)"
    using sublist_at_bound by blast
  with False show ?thesis by (cases "i \<le> length s") auto
qed simp

lemma closed_name_bound: "a \<le> length s \<Longrightarrow> closed_name s a closing = Some (e, name) \<Longrightarrow> e \<le> length s"
proof -
  assume "a \<le> length s" and some: "closed_name s a closing = Some (e, name)"
  moreover have "length (takeWhile is_env_name_byte (drop a s)) \<le> length (drop a s)"
    by (rule length_takeWhile_le)
  ultimately have "env_name_end s a \<le> length s" by (simp add: env_name_end_def)
  then show "e \<le> length s"
    using some by (auto simp: closed_name_def Let_def byte_at_def split: if_splits option.splits)
qed

lemma closed_name_empty: "length s \<le> a \<Longrightarrow> closed_name s a closing = None"
  by (simp add: closed_name_def env_name_end_def)

lemma reference_closed:
  "environment_reference_at s i = Some r \<Longrightarrow> \<exists>a closing. closed_name s a closing = Some r"
  by (auto simp: environment_reference_at_def split: if_splits)

lemma reference_bound: "environment_reference_at s i = Some (e, name) \<Longrightarrow> e \<le> length s"
  using closed_name_bound closed_name_empty reference_closed by (metis le_cases option.distinct(1))

text \<open>What is written, and what is left to copy.\<close>

lemma known_loop_spec:
  assumes "cursor \<le> i" and "i \<le> length s" and "known_loop cr rec bindings s out cursor i = (out', cursor')"
  shows "out' @ drop cursor' s =
      out @ subtext s cursor i @ concat (map (piece_value cr rec bindings) (pieces (drop i s))) \<and>
    (cursor' = 0 \<longrightarrow> out' = out \<and> cursor = 0)"
  using assms
proof (induction cr rec bindings s out cursor i rule: known_loop.induct)
  case (1 cr rec bindings s out cursor i)
  let ?put = "\<lambda>i. concat (map (piece_value cr rec bindings) (pieces (drop i s)))"
  have rest: "subtext s cursor i @ drop i s = drop cursor s"
    using "1.prems"(1) by (simp add: subtext_def) (metis append_take_drop_id drop_drop le_add_diff_inverse2)
  have step: "subtext s cursor e = subtext s cursor i @ subtext s i e" if "i \<le> e" for e
    using "1.prems"(1) that by (simp add: subtext_join)
  have loop: "known_loop cr rec bindings s out cursor i = (out', cursor')" by (rule "1.prems"(3))
  show ?case
  proof (cases "i < length s")
    case False
    with loop have "out' = out" "cursor' = cursor" by (simp_all add: known_loop.simps [of _ _ _ _ _ _ i])
    with False "1.prems" rest show ?thesis by (simp add: pieces.simps)
  next
    case True
    note here = pieces_at [OF True]
    show ?thesis
    proof (cases "prefix ''<<'' (drop i s)")
      case handle: True
      show ?thesis
      proof (cases "str_find ''>>'' (drop (i + 2) s)")
        case None
        with loop True handle have "out' = out" "cursor' = cursor" by (simp_all add: known_loop.simps [of _ _ _ _ _ _ i])
        with None handle here rest show ?thesis by simp
      next
        case (Some close)
        define e where "e = i + 2 + close + 2"
        have e: "i \<le> e" "e \<le> length s" "0 < e"
          using find_in_rest [OF Some] by (simp_all add: e_def)
        have now: "?put i = resolve_text cr rec (subtext s i e) @ ?put e"
          using here handle Some by (simp add: e_def)
        show ?thesis
        proof (cases "resolve_text cr rec (subtext s i e) = subtext s i e")
          case same: True
          with loop True handle Some have "known_loop cr rec bindings s out cursor e = (out', cursor')"
            by (simp add: known_loop.simps [of _ _ _ _ _ _ i] e_def Let_def)
          with "1.IH"(2) [OF _ handle Some e_def refl refl] True same e "1.prems"(1) now step [OF e(1)]
          show ?thesis by simp
        next
          case False
          with loop True handle Some
          have "known_loop cr rec bindings s (out @ subtext s cursor i @ resolve_text cr rec (subtext s i e)) e e
              = (out', cursor')"
            by (simp add: known_loop.simps [of _ _ _ _ _ _ i] e_def Let_def)
          with "1.IH"(1) [OF _ handle Some e_def refl refl] True False e now
          show ?thesis by (simp add: subtext_def)
        qed
      qed
    next
      case plain: False
      show ?thesis
      proof (cases "environment_reference_at s i")
        case None
        with loop True plain have "known_loop cr rec bindings s out cursor (i + 1) = (out', cursor')"
          by (simp add: known_loop.simps [of _ _ _ _ _ _ i])
        with "1.IH"(3) [OF _ plain None] True "1.prems"(1) here plain None step [of "i + 1"]
        show ?thesis by simp
      next
        case (Some r)
        obtain e name where r: "environment_reference_at s i = Some (e, name)" using Some by (cases r) auto
        have e: "i \<le> e" "e \<le> length s" "0 < e"
          using reference_advances [OF r] reference_bound [OF r] by simp_all
        show ?thesis
        proof (cases "map_of bindings (ascii_lower name)")
          case None
          with loop True plain r have "known_loop cr rec bindings s out cursor e = (out', cursor')"
            by (simp add: known_loop.simps [of _ _ _ _ _ _ i])
          with "1.IH"(4) [OF _ plain r refl None] True "1.prems"(1) e here plain r None step [OF e(1)]
          show ?thesis by simp
        next
          case (Some v)
          with loop True plain r
          have "known_loop cr rec bindings s (out @ subtext s cursor i @ v) e e = (out', cursor')"
            by (simp add: known_loop.simps [of _ _ _ _ _ _ i])
          with "1.IH"(5) [OF _ plain r refl Some] True e here plain r Some
          show ?thesis by (simp add: subtext_def)
        qed
      qed
    qed
  qed
qed

lemma known_references_pieces:
  "resolve_known_references cr rec bindings s = concat (map (piece_value cr rec bindings) (pieces s)) \<and>
   concat (map piece_raw (pieces s)) = s"
proof -
  obtain out cursor where loop: "known_loop cr rec bindings s [] 0 0 = (out, cursor)" by force
  from known_loop_spec [OF _ _ this]
  have "out @ drop cursor s = concat (map (piece_value cr rec bindings) (pieces s))" "cursor = 0 \<longrightarrow> out = []"
    by (simp_all add: subtext_def)
  with loop show ?thesis by (auto simp: resolve_known_references_def concat_pieces)
qed

text \<open>
  C12. Resolving the references of a text is one pass over its pieces: plain text is copied, a
  bracketed piece becomes what the map resolves it to, and a reference to a bound variable becomes
  its value. The pieces make up the text and do not depend on the map or the bindings, so what a
  value contains is never taken for a reference.
\<close>

theorem known_references_one_pass:
  "resolve_known_references cr rec bindings s = concat (map (piece_value cr rec bindings) (pieces s)) \<and>
   concat (map piece_raw (pieces s)) = s"
  by (rule known_references_pieces)+


section \<open>An alias stands for its value\<close>

lemma env_name_bytes: "is_env_name_byte b \<Longrightarrow> b \<noteq> CHR 0x00 \<and> b \<noteq> CHR ''}'' \<and> b \<noteq> CHR ''%'' \<and> is_ascii b"
  by (auto simp: is_env_name_byte_def ascii_class_defs)

lemma handle_char_ascii: "handle_char c \<Longrightarrow> is_ascii c"
  by (auto simp: handle_char_def ascii_class_defs)

lemma decode_encode_alias:
  assumes "is_env_name name" and "is_reusable_placeholder handle"
  shows "decode_env_alias_record (encode_env_alias_record name handle) = Some (name, handle)"
proof -
  have "CHR 0x00 \<notin> set name"
    using assms(1) env_name_bytes by (auto simp: is_env_name_def list_all_iff)
  then have "split_once [CHR 0x00] (name @ CHR 0x00 # handle) = Some (name, handle)"
    using split_once_first [of "CHR 0x00" name "[]" handle] by simp
  with assms show ?thesis
    by (simp add: decode_env_alias_record_def encode_env_alias_record_def)
qed

lemma drop_hint_none: "c \<in> set marker \<Longrightarrow> c \<notin> set s \<Longrightarrow> drop_hint marker ok s = s"
proof -
  assume "c \<in> set marker" and "c \<notin> set s"
  then have "rsplit_once marker s = None" using sublist_at_imp_set by (fastforce simp: rsplit_once_None)
  then show ?thesis by (simp add: drop_hint_def)
qed

text \<open>The opaque handle of an alias is recognised by its label.\<close>

lemma alias_label:
  assumes "hash_ok h" and "length h = 16"
  shows "placeholder_label (render_placeholder ENV_ALIAS_LABEL h None) = Some ENV_ALIAS_LABEL"
proof -
  let ?s = "ENV_ALIAS_LABEL @ ''_'' @ h"
  have lower: "list_all is_lower_hex h" using assms(1) by (simp add: hash_ok_iff)
  have "CHR ''l'' \<notin> set h" by (rule not_in_class [OF lower]) (simp add: is_lower_hex_def ascii_class_defs)
  then have l: "CHR ''l'' \<notin> set ?s" by (simp add: ENV_ALIAS_LABEL_def)
  have letters: "list_all (\<lambda>b. is_ascii_alphanumeric b \<or> b = CHR ''_'') ?s"
    using lower by (auto simp: ENV_ALIAS_LABEL_def is_lower_hex_def ascii_class_defs list_all_iff)
  have "placeholder_core (''<<'' @ ?s @ ''>>'') = Some ?s"
    unfolding placeholder_core_def strip_prefix_append Option.bind.bind_lunit strip_suffix_append
    using drop_hint_none [OF _ l] letters by simp
  moreover have "rsplit_once ''_'' ?s = Some (ENV_ALIAS_LABEL, h)"
    using rsplit_once_single [of "CHR ''_''" h ENV_ALIAS_LABEL] underscore_not_hex [OF lower] by simp
  moreover have "list_all is_ascii_hexdigit h"
    using lower by (auto simp: is_lower_hex_def ascii_class_defs list_all_iff)
  moreover have "render_placeholder ENV_ALIAS_LABEL h None = ''<<'' @ ?s @ ''>>''"
    by (simp add: render_inner handle_inner_def)
  ultimately show ?thesis using assms(2) by (simp only: placeholder_label_def) simp
qed

lemma alias_placeholder:
  assumes "\<And>k m. length (hmac k m) = 32"
  shows "is_env_alias_placeholder (env_alias_placeholder hmac key name handle)"
    and "handle_shaped (env_alias_placeholder hmac key name handle)"
proof -
  define m where "m = ''env-alias:'' @ name @ '':'' @ handle"
  have hash: "hash_ok (identity_hash hmac key m)" "length (identity_hash hmac key m) = 16"
    using assms hash_ok_short [of hmac key]
    by (simp_all add: identity_hash_def hasher_hash_def encode_hash_take length_encode_full_hash)
  have label: "label_ok ENV_ALIAS_LABEL" unfolding ENV_ALIAS_LABEL_def by code_simp
  show "is_env_alias_placeholder (env_alias_placeholder hmac key name handle)"
    unfolding is_env_alias_placeholder_def env_alias_placeholder_def m_def [symmetric]
    by (rule alias_label [OF hash])
  show "handle_shaped (env_alias_placeholder hmac key name handle)"
    unfolding env_alias_placeholder_def m_def [symmetric]
    by (rule rendered_handle_shaped [OF label hash(1)]) (simp add: ENV_ALIAS_LABEL_def)
qed

text \<open>Every way to refer to a name.\<close>

definition references_to :: "str \<Rightarrow> str set" where
  "references_to name =
     {''$env:'' @ name, ''${'' @ name @ ''}'', ''${env:'' @ name @ ''}'', ''$'' @ name, ''%'' @ name @ ''%''}"

lemma env_name_end_at:
  assumes "list_all is_env_name_byte name" and "rest = [] \<or> \<not> is_env_name_byte (hd rest)"
  shows "env_name_end (pre @ name @ rest) (length pre) = length pre + length name"
proof -
  have "takeWhile is_env_name_byte rest = []" using assms(2) by (cases rest) auto
  with assms(1) show ?thesis
    by (simp add: env_name_end_def takeWhile_append2 list_all_iff)
qed

lemma closed_name_at:
  assumes "list_all is_env_name_byte name" and "name \<noteq> []"
  shows "closed_name (pre @ name) (length pre) None = Some (length pre + length name, name)"
    and "\<not> is_env_name_byte c \<Longrightarrow>
      closed_name (pre @ name @ [c]) (length pre) (Some c) = Some (length pre + length name + 1, name)"
  using env_name_end_at [OF assms(1), of "[]" pre] env_name_end_at [OF assms(1), of "[c]" pre] assms(2)
  by (simp_all add: closed_name_def subtext_def byte_at_def nth_append)

lemma lower_colon: "to_ascii_lowercase c = CHR '':'' \<longleftrightarrow> c = CHR '':''"
  by (auto simp: to_ascii_lowercase_def ascii_class_defs code_eq_iff [symmetric])

lemma word_colon:
  assumes "word_at t a (w @ '':'')"
  shows "CHR '':'' \<in> set t"
proof -
  have "map to_ascii_lowercase (subtext t a (a + length (w @ '':''))) = map to_ascii_lowercase (w @ '':'')"
    using assms by (simp add: word_at_def eq_ignore_ascii_case_def ascii_lower_def)
  then have "CHR '':'' \<in> set (map to_ascii_lowercase (subtext t a (a + length (w @ '':''))))"
    using lower_colon [of "CHR '':''"] by simp
  then obtain c where "c \<in> set (subtext t a (a + length (w @ '':'')))" "to_ascii_lowercase c = CHR '':''"
    by auto
  then show ?thesis by (auto simp: lower_colon subtext_def dest!: in_set_takeD in_set_dropD)
qed

lemma reference_recognised:
  assumes "is_env_name name" and "t \<in> references_to name"
  shows "environment_reference_at t 0 = Some (length t, name)" and "\<not> prefix ''<<'' t" and "t \<noteq> []"
proof -
  have name: "list_all is_env_name_byte name" "name \<noteq> []" using assms(1) by (auto simp: is_env_name_def)
  obtain b bs where b: "name = b # bs" "is_env_name_byte b" using name by (cases name) auto
  have brace: "b \<noteq> CHR ''{''" using b(2) by (auto simp: is_env_name_byte_def ascii_class_defs)
  have "CHR '':'' \<notin> set name"
    using name(1) by (auto simp: list_all_iff is_env_name_byte_def ascii_class_defs)
  then have colon: "\<not> word_at (''${'' @ name @ ''}'') a ''env:''" "\<not> word_at (''${'' @ name @ ''}'') a ''$env:''"
    "\<not> word_at (''$'' @ name) a ''$env:''" for a
    using word_colon [of _ a "''env''"] word_colon [of _ a "''$env''"] by fastforce+
  have ends: "\<not> is_env_name_byte (CHR ''}'')" "\<not> is_env_name_byte (CHR ''%'')"
    using env_name_bytes by blast+
  note closed = closed_name_at [OF name]
  have words: "word_at (''$env:'' @ name) 0 ''$env:''" "\<not> word_at (''${env:'' @ name @ ''}'') 0 ''$env:''"
    "word_at (''${env:'' @ name @ ''}'') 2 ''env:''"
    by (simp_all add: word_at_def subtext_def eq_ignore_ascii_case_def ascii_lower_def to_ascii_lowercase_def
        ascii_class_defs numeral_eq_Suc)
  consider "t = ''$env:'' @ name" | "t = ''${'' @ name @ ''}''" | "t = ''${env:'' @ name @ ''}''"
    | "t = ''$'' @ name" | "t = ''%'' @ name @ ''%''"
    using assms(2) by (auto simp: references_to_def)
  then show "environment_reference_at t 0 = Some (length t, name)"
  proof cases
    case 1
    then show ?thesis using closed(1) [of "''$env:''"] words(1)
      by (simp add: environment_reference_at_def eval_nat_numeral)
  next
    case 2
    then show ?thesis using closed(2) [OF ends(1), of "''${''"] colon
      by (simp add: environment_reference_at_def byte_at_def eval_nat_numeral)
  next
    case 3
    then show ?thesis using closed(2) [OF ends(1), of "''${env:''"] words(2,3)
      by (simp add: environment_reference_at_def byte_at_def eval_nat_numeral)
  next
    case 4
    then show ?thesis using closed(1) [of "''$''"] colon brace b(1)
      by (simp add: environment_reference_at_def byte_at_def)
  next
    case 5
    then show ?thesis using closed(2) [OF ends(2), of "''%''"] 
      by (simp add: environment_reference_at_def)
  qed
  show "\<not> prefix ''<<'' t" "t \<noteq> []" using assms(2) by (auto simp: references_to_def)
qed

lemma bound_reference:
  assumes "is_env_name name" and "t \<in> references_to name" and "map_of bindings (ascii_lower name) = Some v"
  shows "resolve_known_references cr rec bindings t = v"
  using known_references_pieces [of cr rec bindings t] reference_recognised [OF assms(1,2)] assms(3)
  by (simp add: pieces.simps [of t] pieces.simps [of "[]"])


lemma map_of_fold_update:
  "map_of (fold (\<lambda>(k, v). AList.update k v) xs m) k =
     (case map_of (rev xs) k of Some v \<Rightarrow> Some v | None \<Rightarrow> map_of m k)"
proof (induction xs arbitrary: m)
  case (Cons x xs)
  obtain a b where x: "x = (a, b)" by (cases x)
  show ?case by (auto simp: x Cons.IH update_conv' map_add_def split: option.split)
qed simp

lemma map_of_agreeing:
  assumes "(k, v) \<in> set xs" and "\<And>w. (k, w) \<in> set xs \<Longrightarrow> w = v"
  shows "map_of xs k = Some v"
  using assms by (metis map_of_SomeD option.exhaust weak_map_of_SomeI option.sel)

lemma distinct_fold_update:
  "distinct (map fst m) \<Longrightarrow> distinct (map fst (fold (\<lambda>(k, v). AList.update k v) xs m))"
  by (induction xs arbitrary: m) (auto simp: distinct_update)

lemma keys_fold_update:
  "fst ` set (fold (\<lambda>(k, v). AList.update k v) xs m) = fst ` set xs \<union> fst ` set m"
proof (induction xs arbitrary: m)
  case (Cons x xs)
  obtain k v where x: "x = (k, v)" by (cases x)
  show ?case by (simp add: x Cons.IH dom_update)
qed simp

lemma mem_map_filter: "y \<in> set (List.map_filter f xs) \<longleftrightarrow> (\<exists>x \<in> set xs. f x = Some y)"
  by (induction xs) (auto simp: map_filter_simps split: option.splits)

text \<open>The sealed aliases: each record under its own handle.\<close>

lemma reveal_extended:
  assumes "rc_memory_key rec = rc_memory_key other" and "distinct (map fst (rc_map other))"
  shows "reveal cr (extend_same_key rec other) ph =
    (if ph \<in> set (placeholders other) then reveal cr other ph else reveal cr rec ph)"
proof -
  have "map_of (rev (rc_map other)) = map_of (rc_map other)" 
    using assms(2) by (subst map_of_inject_set) (simp_all flip: rev_map)
  then show ?thesis
    using assms(1) map_of_eq_None_iff [of "rc_map other" ph]
    by (auto simp: reveal_def extend_same_key_def map_of_fold_update placeholders_def split: option.split)
qed

lemma reusable_placeholders_reusable:
  "handle \<in> set (reusable_placeholders_from s i) \<Longrightarrow> is_reusable_placeholder handle"
proof (induction s i rule: reusable_placeholders_from.induct)
  case (1 s i)
  from "1.prems" show ?case
    using "1.IH"
    by (subst (asm) reusable_placeholders_from.simps) (auto simp: Let_def split: if_splits option.splits)
qed

lemma alias_reusable:
  "(name, handle) \<in> set (reusable_env_aliases s pre) \<Longrightarrow> is_reusable_placeholder handle"
  by (auto simp: reusable_env_aliases_def map_filter_def reusable_placeholders_def
      dest: reusable_placeholders_reusable)

definition alias_entry :: "hmac_fun \<Rightarrow> str \<Rightarrow> str \<times> str \<Rightarrow> str \<times> str" where
  "alias_entry hmac key = (\<lambda>(name, handle).
     (env_alias_placeholder hmac key name handle, encode_env_alias_record name handle))"

lemma alias_map:
  "fold (\<lambda>(name, handle). AList.update (env_alias_placeholder hmac key name handle)
       (encode_env_alias_record name handle)) aliases m =
   fold (\<lambda>(k, v). AList.update k v) (map (alias_entry hmac key) aliases) m"
  by (induction aliases arbitrary: m) (auto simp: alias_entry_def)

lemma alias_recovery_entry:
  assumes "keystream_ok cr" and "(name, handle) \<in> set (reusable_env_aliases masked pre)"
    and "inj_on (fst \<circ> alias_entry hmac key) (set (reusable_env_aliases masked pre))"
    and "utf8_valid (encode_env_alias_record name handle)"
  shows "reveal cr (env_alias_recovery cr hmac masked key pre) (env_alias_placeholder hmac key name handle) =
    Some (encode_env_alias_record name handle)"
proof -
  let ?aliases = "reusable_env_aliases masked pre"
  let ?entries = "map (alias_entry hmac key) ?aliases"
  have "map_of (rev ?entries) (env_alias_placeholder hmac key name handle) = Some (encode_env_alias_record name handle)"
  proof (rule map_of_agreeing)
    show "(env_alias_placeholder hmac key name handle, encode_env_alias_record name handle) \<in> set (rev ?entries)"
      using imageI [OF assms(2), of "alias_entry hmac key"] by (simp add: alias_entry_def)
    fix w assume "(env_alias_placeholder hmac key name handle, w) \<in> set (rev ?entries)"
    then obtain a where a: "a \<in> set ?aliases" "alias_entry hmac key a = (env_alias_placeholder hmac key name handle, w)"
      by auto
    then have "(fst \<circ> alias_entry hmac key) a = (fst \<circ> alias_entry hmac key) (name, handle)"
      by (simp add: alias_entry_def)
    with assms(2,3) a(1) have "a = (name, handle)" by (blast dest: inj_onD)
    with a(2) show "w = encode_env_alias_record name handle" by (simp add: alias_entry_def)
  qed
  moreover have "?aliases \<noteq> []" using assms(2) by auto
  ultimately show ?thesis
    using assms(4) by (simp add: env_alias_recovery_def Let_def alias_map reveal_seal [OF assms(1)] map_of_fold_update)
qed

lemma alias_recovery_shape:
  assumes "\<And>k m. length (hmac k m) = 32"
  shows "rc_memory_key (env_alias_recovery cr hmac masked key pre) = derive_memory_key cr key"
    and "distinct (map fst (rc_map (env_alias_recovery cr hmac masked key pre)))"
    and "\<forall>ph \<in> set (placeholders (env_alias_recovery cr hmac masked key pre)). is_env_alias_placeholder ph"
proof -
  let ?m = "fold (\<lambda>(k, v). AList.update k v) (map (alias_entry hmac key) (reusable_env_aliases masked pre)) []"
  show "rc_memory_key (env_alias_recovery cr hmac masked key pre) = derive_memory_key cr key"
    by (simp add: env_alias_recovery_def seal_def empty_for_key_def Let_def)
  have seal: "map fst (rc_map (seal cr m key)) = map fst m" for m
    by (auto simp: seal_def Let_def)
  then show "distinct (map fst (rc_map (env_alias_recovery cr hmac masked key pre)))"
    using distinct_fold_update [of "[]" "map (alias_entry hmac key) (reusable_env_aliases masked pre)"]
    by (simp add: env_alias_recovery_def Let_def alias_map empty_for_key_def)
  have "placeholders (env_alias_recovery cr hmac masked key pre) = [] \<or>
      placeholders (env_alias_recovery cr hmac masked key pre) = map fst ?m"
    by (simp add: env_alias_recovery_def Let_def alias_map empty_for_key_def placeholders_def seal)
  then show "\<forall>ph \<in> set (placeholders (env_alias_recovery cr hmac masked key pre)). is_env_alias_placeholder ph"
    using keys_fold_update [of "map (alias_entry hmac key) (reusable_env_aliases masked pre)" "[]"]
      alias_placeholder(1) [OF assms]
    by (auto simp: alias_entry_def)
qed

definition alias_offered :: "crypto \<Rightarrow> hmac_fun \<Rightarrow> str \<Rightarrow> str \<Rightarrow> str \<Rightarrow> recovery \<Rightarrow> str \<Rightarrow> str \<Rightarrow> str \<Rightarrow> bool" where
  "alias_offered cr hmac masked key pre base name handle v \<longleftrightarrow>
     rc_memory_key base = derive_memory_key cr key \<and>
     (name, handle) \<in> set (reusable_env_aliases masked pre) \<and>
     inj_on (fst \<circ> alias_entry hmac key) (set (reusable_env_aliases masked pre)) \<and>
     is_env_name name \<and> \<not> is_reserved_child_env_name name \<and>
     handle_shaped handle \<and> reveal cr base handle = Some v \<and> v \<noteq> handle"

lemma alias_binding:
  assumes "keystream_ok cr" and hmac: "\<And>k m. length (hmac k m) = 32"
    and offered: "alias_offered cr hmac masked key pre base name handle v"
    and combined: "rec = extend_same_key base (env_alias_recovery cr hmac masked key pre)"
  shows "env_binding cr rec (env_alias_placeholder hmac key name handle) = Some (ascii_lower name, v)"
    and "env_alias_placeholder hmac key name handle \<in> set (placeholders rec)"
proof -
  let ?aliases = "env_alias_recovery cr hmac masked key pre"
  let ?ph = "env_alias_placeholder hmac key name handle"
  have keys: "rc_memory_key base = derive_memory_key cr key"
    and listed: "(name, handle) \<in> set (reusable_env_aliases masked pre)"
    and inj: "inj_on (fst \<circ> alias_entry hmac key) (set (reusable_env_aliases masked pre))"
    and name: "is_env_name name" "\<not> is_reserved_child_env_name name"
    and handle: "handle_shaped handle" "reveal cr base handle = Some v" "v \<noteq> handle"
    using offered by (auto simp: alias_offered_def)
  note shape = alias_recovery_shape [OF hmac, where cr = cr and masked = masked and key = key and pre = pre]
  have reusable: "is_reusable_placeholder handle" by (rule alias_reusable [OF listed])
  have opaque: "is_env_alias_placeholder ?ph" "handle_shaped ?ph"
    using alias_placeholder [of hmac] hmac by blast+
  have parts: "reveal cr rec ph = (if ph \<in> set (placeholders ?aliases) then reveal cr ?aliases ph else reveal cr base ph)" for ph
    unfolding combined by (rule reveal_extended) (simp_all add: shape keys)
  have "handle \<notin> set (placeholders ?aliases)"
    using shape(3) reusable by (auto simp: is_reusable_placeholder_def is_env_alias_placeholder_def)
  then have "reveal cr rec handle = Some v" using handle by (simp add: parts)
  then have resolved: "resolve_text cr rec handle = v"
    using resolve_handle [OF handle(1), of cr rec v "[]"] by (simp add: resolve_text.simps)
  have "all_ascii name" "all_ascii handle"
    using name(1) handle(1) env_name_bytes handle_char_ascii
    by (auto simp: is_env_name_def handle_shaped_def list_all_iff is_ascii_def [of "CHR ''<''"]
        is_ascii_def [of "CHR ''>''"])
  then have "all_ascii (encode_env_alias_record name handle)"
    by (simp add: encode_env_alias_record_def ENV_ALIAS_RECORD_PREFIX_def is_ascii_def)
  then have stored: "reveal cr ?aliases ?ph = Some (encode_env_alias_record name handle)"
    by (intro alias_recovery_entry [OF assms(1) listed inj] utf8_valid_ascii)
  then have mem: "?ph \<in> set (placeholders ?aliases)"
    by (intro revealed_known [of cr]) simp
  then have "reveal cr rec ?ph = Some (encode_env_alias_record name handle)" using stored by (simp add: parts)
  then have "resolve_text cr rec ?ph = encode_env_alias_record name handle"
    using resolve_handle [OF opaque(2), of cr rec _ "[]"] by (simp add: resolve_text.simps)
  then show "env_binding cr rec ?ph = Some (ascii_lower name, v)"
    using opaque name handle(3) reusable resolved
    by (simp add: env_binding_def decode_encode_alias Let_def)
  show "?ph \<in> set (placeholders rec)"
    using mem by (auto simp: combined placeholders_def extend_same_key_def keys_fold_update)
qed

text \<open>
  C6. An alias works: a masked text offers a variable for each of its reusable handles, and any way
  to refer to that variable is replaced by the value behind the handle, as long as the name is one
  a child process may be given, the opaque handles of the aliases differ, and no other entry of the
  map binds the name to something else.
\<close>

theorem alias_references_resolve:
  assumes "keystream_ok cr" and "\<And>k m. length (hmac k m) = 32"
    and "alias_offered cr hmac masked key pre base name handle v"
    and "rec = extend_same_key base (env_alias_recovery cr hmac masked key pre)"
    and "\<And>ph w. ph \<in> set (placeholders rec) \<Longrightarrow>
      env_binding cr rec ph = Some (ascii_lower name, w) \<Longrightarrow> w = v"
    and "t \<in> references_to name"
  shows "resolve_known_references cr rec (environment_bindings_from_recovery cr rec) t = v"
proof -
  note binding = alias_binding [OF assms(1-4)]
  let ?bindings = "List.map_filter (env_binding cr rec) (placeholders rec)"
  have bound: "(ascii_lower name, v) \<in> set ?bindings"
    using binding by (auto simp: mem_map_filter)
  have unique: "w = v" if "(ascii_lower name, w) \<in> set ?bindings" for w
    using that assms(5) by (auto simp: mem_map_filter)
  have "map_of (rev ?bindings) (ascii_lower name) = Some v"
    by (rule map_of_agreeing) (unfold set_rev, fact bound, rule unique)
  moreover have "is_env_name name" using assms(3) by (simp add: alias_offered_def)
  ultimately show ?thesis
    by (intro bound_reference [OF _ assms(6)])
      (simp_all add: environment_bindings_from_recovery_def map_of_fold_update)
qed

lemma control_name_start:
  assumes "is_pentect_control_env_name name"
  shows "\<exists>t. ascii_lower name = CHR ''p'' # t"
proof -
  have "list_all (\<lambda>r. \<exists>t. r = CHR ''P'' # t) PENTECT_CONTROL_ENV_NAMES"
    by (simp add: PENTECT_CONTROL_ENV_NAMES_def)
  then obtain t where "ascii_lower name = ascii_lower (CHR ''P'' # t)"
    using assms by (fastforce simp: is_pentect_control_env_name_def list_ex_iff list_all_iff)
  moreover have "to_ascii_lowercase (CHR ''P'') = CHR ''p''" by code_simp
  ultimately show ?thesis by (simp add: ascii_lower_def)
qed

definition example_masked :: str where
  "example_masked = ''key=<<X_0123456789abcdef>>''"

definition example_combined :: recovery where
  "example_combined =
     extend_same_key example_store (env_alias_recovery example_crypto example_hmac example_masked ''k'' [])"

lemma example_aliases:
  "reusable_env_aliases example_masked [] = [(''X_0123456789abcdef'', ''<<X_0123456789abcdef>>'')]"
  by code_simp

lemma example_unreserved: "\<not> is_reserved_child_env_name ''X_0123456789abcdef''"
proof -
  have "ascii_lower ''X_0123456789abcdef'' = ''x_0123456789abcdef''" by code_simp
  then show ?thesis
    using control_name_start [of "''x_0123456789abcdef''"]
    by (auto simp: is_reserved_child_env_name_def ascii_lower_def to_ascii_lowercase_def ascii_class_defs)
qed

lemma example_offered:
  "alias_offered example_crypto example_hmac example_masked ''k'' [] example_store ''X_0123456789abcdef''
     ''<<X_0123456789abcdef>>'' ''secret''"
proof -
  have "''<<X_0123456789abcdef>>'' = ''<<'' @ ''X_0123456789abcdef'' @ ''>>'' \<and>
    list_all handle_char ''X_0123456789abcdef'' \<and> length ''X_0123456789abcdef'' \<le> 510" by code_simp
  then have "handle_shaped ''<<X_0123456789abcdef>>''" unfolding handle_shaped_def by blast
  moreover have "is_env_name ''X_0123456789abcdef''" by code_simp
  ultimately show ?thesis
    using example_unreserved example_value
    by (simp add: alias_offered_def example_aliases)
      (simp add: example_store_def seal_def Let_def)
qed

lemma example_keys:
  "placeholders example_combined =
    [''<<X_0123456789abcdef>>'',
     env_alias_placeholder example_hmac ''k'' ''X_0123456789abcdef'' ''<<X_0123456789abcdef>>'']"
  by code_simp

lemma alias_references_resolve_witness:
  "resolve_known_references example_crypto example_combined
     (environment_bindings_from_recovery example_crypto example_combined) ''%X_0123456789abcdef%'' = ''secret''"
proof (rule alias_references_resolve [OF keystream_ok_example _ example_offered example_combined_def])
  show hmac: "length (example_hmac k m) = 32" for k m by (simp add: example_hmac_def)
  fix ph w
  assume ph: "ph \<in> set (placeholders example_combined)"
    and bound: "env_binding example_crypto example_combined ph = Some (ascii_lower ''X_0123456789abcdef'', w)"
  have "\<not> is_env_alias_placeholder ''<<X_0123456789abcdef>>''" by code_simp
  with ph bound show "w = ''secret''"
    using alias_binding(1) [OF keystream_ok_example hmac example_offered example_combined_def]
    by (auto simp: example_keys env_binding_def)
qed (simp add: references_to_def)

end
