(* ===== verification/Transaction.thy ===== *)
theory Transaction
  imports PointerFacts EnvRefs
begin

text \<open>
  \<open>crates/pentect-runtime/src/main.rs\<close>: the resolver of one model response. All tool inputs of the
  response are resolved against one snapshot of the sealed map; values that have to be read from
  files again are staged in a batch and published to the store by the commit, once, and only when
  no input was rejected.
\<close>


section \<open>The resolver and its operations\<close>

datatype txn_state = TxnActive "file_batch option" | TxnFailed | TxnCommitted

record resolver =
  rv_recovery :: "recovery option"
  rv_env_bindings :: "(str \<times> str) list"
  rv_store :: "(str \<times> str) option"
  rv_txn :: txn_state
  rv_revision :: u64

text \<open>
  What a call finds outside: the files, the stored index and its switch, and whether the store
  accepts an addition. The store is its session key and identity key.
\<close>

record surroundings =
  su_fs :: filesystem
  su_enabled :: bool
  su_index :: pointer_index
  su_accepts :: bool

definition resolver_new :: "crypto \<Rightarrow> (recovery \<times> str \<times> str) option \<Rightarrow> resolver" where
  "resolver_new cr snapshot =
     (case snapshot of
        None \<Rightarrow>
          \<lparr>rv_recovery = None, rv_env_bindings = [], rv_store = None, rv_txn = TxnActive None,
           rv_revision = 0\<rparr>
      | Some (rec, key, identity_key) \<Rightarrow>
          \<lparr>rv_recovery = Some rec, rv_env_bindings = environment_bindings_from_recovery cr rec,
           rv_store = Some (key, identity_key), rv_txn = TxnActive None, rv_revision = 0\<rparr>)"

definition from_recovery :: "crypto \<Rightarrow> recovery \<Rightarrow> str \<times> str \<Rightarrow> u64 \<Rightarrow> resolver" where
  "from_recovery cr rec store revision =
     \<lparr>rv_recovery = Some rec, rv_env_bindings = environment_bindings_from_recovery cr rec,
      rv_store = Some store, rv_txn = TxnActive None, rv_revision = revision\<rparr>"

text \<open>Text shown to the user: references become values, nothing is looked for in files.\<close>

definition resolve_known_text :: "crypto \<Rightarrow> str \<Rightarrow> resolver \<Rightarrow> str option" where
  "resolve_known_text cr input rv =
     map_option (\<lambda>rec. resolve_known_references cr rec (rv_env_bindings rv) input) (rv_recovery rv)"

text \<open>No sealed map: an input without handles passes, one with handles is refused.\<close>

definition resolve_without_map :: "str \<Rightarrow> tool_error + str option" where
  "resolve_without_map input =
     (case scan_recovery_views input of
        Inl _ \<Rightarrow> Inl MalformedView
      | Inr spans \<Rightarrow> if spans = [] then Inr None else Inl UnknownHandle)"

definition resolve_passive ::
    "crypto \<Rightarrow> base64_encoder \<Rightarrow> recovery option \<Rightarrow> str \<Rightarrow> tool_error + str option" where
  "resolve_passive cr b64 recovery input =
     (case recovery of
        Some rec \<Rightarrow>
          (case process_recovery_tool_input cr b64 input ToolData rec of
             Inr v \<Rightarrow> Inr (Some (vi_text v))
           | Inl UnknownHandle \<Rightarrow> Inr (Some input)
           | Inl e \<Rightarrow> Inl e)
      | None \<Rightarrow> Inr None)"

text \<open>Unknown handles are looked for in files; the batch is kept for the commit.\<close>

definition recover_and_process ::
    "crypto \<Rightarrow> hmac_fun \<Rightarrow> base64_encoder \<Rightarrow> surroundings \<Rightarrow> (str \<times> str) option \<Rightarrow> recovery \<Rightarrow> str \<Rightarrow>
     tool_kind \<Rightarrow> file_batch option \<Rightarrow> file_batch option \<times> (tool_error + str option)" where
  "recover_and_process cr hmac b64 su store rec input k batch =
     (case store of
        None \<Rightarrow> (batch, Inl RecoveryStoreUnavailable)
      | Some (key, identity_key) \<Rightarrow>
          (case (case batch of Some b \<Rightarrow> Inr b | None \<Rightarrow> batch_new (su_enabled su) (su_index su)) of
             Inl e \<Rightarrow> (batch, Inl e)
           | Inr b \<Rightarrow>
               (case batch_recover cr hmac (su_fs su) input rec key identity_key b of
                  (b, Inl e) \<Rightarrow> (Some b, Inl e)
                | (b, Inr recovered) \<Rightarrow>
                    (Some b,
                     and_then (process_recovery_tool_input cr b64 input k (extend_same_key rec recovered))
                       (\<lambda>v. Inr (Some (vi_text v)))))))"

definition resolve_active ::
    "crypto \<Rightarrow> hmac_fun \<Rightarrow> base64_encoder \<Rightarrow> surroundings \<Rightarrow> resolver \<Rightarrow> str \<Rightarrow> tool_kind \<Rightarrow>
     file_batch option \<Rightarrow> file_batch option \<times> (tool_error + str option)" where
  "resolve_active cr hmac b64 su rv input k batch =
     (case rv_recovery rv of
        None \<Rightarrow> (batch, resolve_without_map input)
      | Some rec \<Rightarrow>
          (case process_recovery_tool_input cr b64 input k rec of
             Inr v \<Rightarrow> (batch, Inr (Some (vi_text v)))
           | Inl UnknownHandle \<Rightarrow> recover_and_process cr hmac b64 su (rv_store rv) rec input k batch
           | Inl e \<Rightarrow> (batch, Inl e)))"

definition settle :: "resolver \<Rightarrow> file_batch option \<times> (tool_error + 'a) \<Rightarrow> resolver \<times> (tool_error + 'a)" where
  "settle rv = (\<lambda>(batch, result).
     (rv\<lparr>rv_txn := (case result of Inl _ \<Rightarrow> TxnFailed | Inr _ \<Rightarrow> TxnActive batch)\<rparr>, result))"

definition resolve_tool_input ::
    "crypto \<Rightarrow> hmac_fun \<Rightarrow> base64_encoder \<Rightarrow> surroundings \<Rightarrow> str \<Rightarrow> tool_kind \<Rightarrow> resolver \<Rightarrow>
     resolver \<times> (tool_error + str option)" where
  "resolve_tool_input cr hmac b64 su input k rv =
     (case rv_txn rv of
        TxnActive batch \<Rightarrow>
          if k = ToolPassiveData
          then settle rv (batch, resolve_passive cr b64 (rv_recovery rv) input)
          else settle rv (resolve_active cr hmac b64 su rv input k batch)
      | _ \<Rightarrow> (rv, Inl RecoveryTransactionFinalized))"

definition resolve_tool_input_snapshot ::
    "crypto \<Rightarrow> base64_encoder \<Rightarrow> str \<Rightarrow> tool_kind \<Rightarrow> resolver \<Rightarrow> tool_error + str option" where
  "resolve_tool_input_snapshot cr b64 input k rv =
     (case rv_recovery rv of
        Some rec \<Rightarrow>
          and_then (process_recovery_tool_input cr b64 input k rec) (\<lambda>v. Inr (Some (vi_text v)))
      | None \<Rightarrow> resolve_without_map input)"

text \<open>The commit with what it adds to the store.\<close>

definition staged_recovery :: "crypto \<Rightarrow> resolver \<Rightarrow> file_batch option \<Rightarrow> recovery option" where
  "staged_recovery cr rv batch =
     (case (rv_store rv, batch) of
        (Some (key, identity_key), Some b) \<Rightarrow> Some (staged cr b key)
      | _ \<Rightarrow> None)"

definition commit_file_recoveries ::
    "crypto \<Rightarrow> surroundings \<Rightarrow> resolver \<Rightarrow> resolver \<times> (str + bool) \<times> recovery list" where
  "commit_file_recoveries cr su rv =
     (case rv_txn rv of
        TxnFailed \<Rightarrow> (rv, Inl ''file recovery transaction was rejected'', [])
      | TxnCommitted \<Rightarrow> (rv, Inr False, [])
      | TxnActive batch \<Rightarrow>
          (case staged_recovery cr rv batch of
             None \<Rightarrow> (rv\<lparr>rv_txn := TxnCommitted\<rparr>, Inr False, [])
           | Some rec \<Rightarrow>
               if recovery_is_empty rec then (rv\<lparr>rv_txn := TxnCommitted\<rparr>, Inr False, [])
               else if \<not> su_accepts su
               then (rv\<lparr>rv_txn := TxnFailed\<rparr>, Inl ''file recovery could not be committed'', [])
               else (rv\<lparr>rv_txn := TxnCommitted, rv_revision := rv_revision rv + 1\<rparr>, Inr True, [rec])))"

text \<open>\<open>ActiveToolInputTransaction::resolve\<close>: an input that needs nothing is returned as it is.\<close>

definition transaction_resolve ::
    "crypto \<Rightarrow> hmac_fun \<Rightarrow> base64_encoder \<Rightarrow> surroundings \<Rightarrow> str \<Rightarrow> tool_kind \<Rightarrow> resolver \<Rightarrow>
     resolver \<times> (str + str)" where
  "transaction_resolve cr hmac b64 su input k rv =
     (case resolve_tool_input cr hmac b64 su input k rv of
        (rv, Inl e) \<Rightarrow> (rv, Inl (tool_error_message e))
      | (rv, Inr None) \<Rightarrow> (rv, Inr input)
      | (rv, Inr (Some out)) \<Rightarrow> (rv, Inr out))"


section \<open>Runs of a transaction\<close>

datatype txn_event = Resolve surroundings str tool_kind | Commit surroundings

text \<open>The outcome of a run: the state, whether every resolution succeeded, and what was published.\<close>

fun txn_step ::
    "crypto \<Rightarrow> hmac_fun \<Rightarrow> base64_encoder \<Rightarrow> txn_event \<Rightarrow> resolver \<times> bool \<times> recovery list \<Rightarrow>
     resolver \<times> bool \<times> recovery list" where
  "txn_step cr hmac b64 (Resolve su input k) (rv, fine, published) =
     (case resolve_tool_input cr hmac b64 su input k rv of
        (rv, Inl _) \<Rightarrow> (rv, False, published)
      | (rv, Inr _) \<Rightarrow> (rv, fine, published))"
| "txn_step cr hmac b64 (Commit su) (rv, fine, published) =
     (case commit_file_recoveries cr su rv of
        (rv, result, added) \<Rightarrow> (rv, fine, published @ added))"

definition txn_run ::
    "crypto \<Rightarrow> hmac_fun \<Rightarrow> base64_encoder \<Rightarrow> txn_event list \<Rightarrow> resolver \<Rightarrow>
     resolver \<times> bool \<times> recovery list" where
  "txn_run cr hmac b64 events rv = fold (txn_step cr hmac b64) events (rv, True, [])"

text \<open>
  What holds between two events: an active transaction has published nothing, has refused nothing
  and holds a batch of authentic values; a failed one has published nothing; a committed one has
  published at most once, the authentic values of its batch.
\<close>

definition values_authentic :: "crypto \<Rightarrow> hmac_fun \<Rightarrow> str \<Rightarrow> (str \<times> str) list \<Rightarrow> bool" where
  "values_authentic cr hmac k vs \<longleftrightarrow> (\<exists>records. list_all (authentic cr hmac k records) vs)"

definition publishes :: "crypto \<Rightarrow> hmac_fun \<Rightarrow> str \<times> str \<Rightarrow> recovery list \<Rightarrow> bool" where
  "publishes cr hmac = (\<lambda>(key, identity_key) published.
     published = [] \<or>
     (\<exists>vs. vs \<noteq> [] \<and> values_authentic cr hmac identity_key vs \<and> published = [seal cr vs key]))"

fun txn_inv :: "crypto \<Rightarrow> hmac_fun \<Rightarrow> str \<times> str \<Rightarrow> u64 \<Rightarrow> resolver \<times> bool \<times> recovery list \<Rightarrow> bool" where
  "txn_inv cr hmac store revision (rv, fine, published) \<longleftrightarrow>
     rv_store rv = Some store \<and>
     rv_revision rv = revision + word_of_nat (length published) \<and>
     (case rv_txn rv of
        TxnActive batch \<Rightarrow>
          fine \<and> published = [] \<and>
          (case batch of None \<Rightarrow> True | Some b \<Rightarrow> \<exists>index. batch_reachable cr hmac (snd store) index b)
      | TxnFailed \<Rightarrow> published = []
      | TxnCommitted \<Rightarrow> publishes cr hmac store published)"

lemma recover_keeps_reachable:
  assumes "recover_and_process cr hmac b64 su (Some store) rec input k batch = (batch', Inr out)"
    and "\<And>b. batch = Some b \<Longrightarrow> \<exists>index. batch_reachable cr hmac (snd store) index b"
    and "batch' = Some b'"
  shows "\<exists>index. batch_reachable cr hmac (snd store) index b'"
proof -
  obtain key identity_key where store: "store = (key, identity_key)" by (cases store)
  obtain b where start: "batch = Some b \<or> (batch = None \<and> batch_new (su_enabled su) (su_index su) = Inr b)"
    and step: "\<exists>r. batch_recover cr hmac (su_fs su) input rec key identity_key b = (b', r)"
    using assms(1,3) store
    by (auto simp: recover_and_process_def split: option.splits sum.splits prod.splits)
  have "\<exists>index. batch_reachable cr hmac (snd store) index b"
    using start
  proof
    assume "batch = None \<and> batch_new (su_enabled su) (su_index su) = Inr b"
    then have "batch_new True (su_index su) = Inr b" by (auto simp: batch_new_def split: if_splits)
    then show ?thesis using batch_start by blast
  qed (use assms(2) in blast)
  with step store show ?thesis using batch_step by fastforce
qed

lemma resolve_keeps_inv:
  assumes "txn_inv cr hmac store revision (rv, fine, published)"
  shows "txn_inv cr hmac store revision (txn_step cr hmac b64 (Resolve su input k) (rv, fine, published))"
proof (cases "rv_txn rv")
  case (TxnActive batch)
  have store: "rv_store rv = Some store" and quiet: "published = []" "rv_revision rv = revision" "fine"
    and reach: "\<And>b. batch = Some b \<Longrightarrow> \<exists>index. batch_reachable cr hmac (snd store) index b"
    using assms TxnActive by auto
  obtain batch' result where step: "resolve_tool_input cr hmac b64 su input k rv = settle rv (batch', result)"
    and moved: "batch' = batch \<or> (\<exists>rec. recover_and_process cr hmac b64 su (Some store) rec input k batch = (batch', result))"
  proof (cases "k = ToolPassiveData")
    case False
    obtain batch' result where r: "resolve_active cr hmac b64 su rv input k batch = (batch', result)" by force
    then have "batch' = batch \<or> (\<exists>rec. recover_and_process cr hmac b64 su (Some store) rec input k batch = (batch', result))"
      using store by (auto simp: resolve_active_def split: option.splits sum.splits tool_error.splits)
    with that r False TxnActive show ?thesis by (simp add: resolve_tool_input_def)
  qed (use that TxnActive in \<open>auto simp: resolve_tool_input_def\<close>)
  show ?thesis
  proof (cases result)
    case (Inl e)
    then show ?thesis using step store quiet by (simp add: settle_def)
  next
    case (Inr out)
    have "\<exists>index. batch_reachable cr hmac (snd store) index b'" if "batch' = Some b'" for b'
      using moved reach recover_keeps_reachable [OF _ reach that] Inr that by blast
    then show ?thesis using step store quiet Inr by (simp add: settle_def split: option.split)
  qed
qed (use assms in \<open>simp_all add: resolve_tool_input_def\<close>)

lemma staged_authentic:
  assumes "batch_reachable cr hmac k index b"
  shows "values_authentic cr hmac k (fb_values b)"
  using batch_reachable_ok [OF assms] by (auto simp: values_authentic_def batch_ok_def)

lemma commit_keeps_inv:
  assumes "txn_inv cr hmac store revision (rv, fine, published)"
  shows "txn_inv cr hmac store revision (txn_step cr hmac b64 (Commit su) (rv, fine, published))"
proof (cases "rv_txn rv")
  case (TxnActive batch)
  obtain key identity_key where store: "store = (key, identity_key)" by (cases store)
  show ?thesis
  proof (cases batch)
    case None
    then show ?thesis
      using assms TxnActive by (auto simp: commit_file_recoveries_def staged_recovery_def publishes_def split: option.splits)
  next
    case (Some b)
    then obtain index where "batch_reachable cr hmac identity_key index b" using assms TxnActive store by auto
    then have auth: "values_authentic cr hmac identity_key (fb_values b)" by (rule staged_authentic)
    have "recovery_is_empty (staged cr b key) \<longleftrightarrow> fb_values b = []"
      by (simp add: staged_def seal_def recovery_is_empty_def Let_def)
    with assms TxnActive Some store auth show ?thesis
      by (auto simp: commit_file_recoveries_def staged_recovery_def publishes_def staged_def)
  qed
qed (use assms in \<open>simp_all add: commit_file_recoveries_def\<close>)

lemma txn_step_inv:
  "txn_inv cr hmac store revision s \<Longrightarrow> txn_inv cr hmac store revision (txn_step cr hmac b64 event s)"
  by (cases s; cases event) (auto intro: resolve_keeps_inv commit_keeps_inv simp del: txn_step.simps txn_inv.simps)

lemma txn_run_inv:
  assumes "txn_inv cr hmac store revision s"
  shows "txn_inv cr hmac store revision (fold (txn_step cr hmac b64) events s)"
  using assms by (induction events arbitrary: s) (simp_all add: txn_step_inv del: txn_inv.simps txn_step.simps)

text \<open>Once something was published or refused, nothing more is published.\<close>

definition txn_closed :: "resolver \<times> bool \<times> recovery list \<Rightarrow> bool" where
  "txn_closed = (\<lambda>(rv, fine, published). rv_txn rv \<in> {TxnFailed, TxnCommitted})"

lemma txn_step_closed:
  "txn_closed (rv, fine, published) \<Longrightarrow>
     \<exists>fine'. txn_step cr hmac b64 event (rv, fine, published) = (rv, fine', published)"
  by (cases event) (auto simp: txn_closed_def resolve_tool_input_def commit_file_recoveries_def)

lemma txn_fold_closed:
  assumes "txn_closed (rv, fine, published)"
  shows "\<exists>fine'. fold (txn_step cr hmac b64) events (rv, fine, published) = (rv, fine', published)"
  using assms
proof (induction events arbitrary: fine)
  case (Cons event events)
  then obtain fine' where "txn_step cr hmac b64 event (rv, fine, published) = (rv, fine', published)"
    using txn_step_closed by blast
  moreover have "txn_closed (rv, fine', published)" using Cons.prems by (simp add: txn_closed_def)
  ultimately show ?case using Cons.IH by simp
qed simp

lemma txn_failed_closed:
  assumes "txn_inv cr hmac store revision (rv, fine, published)" and "\<not> fine"
  shows "txn_closed (rv, fine, published)"
  using assms by (auto simp: txn_closed_def split: txn_state.splits)

text \<open>
  C10. Whatever the inputs of a response, the files and the store do: its transaction publishes at
  most one map; a map it publishes seals, under the session's key, values that verifiably belong to
  their handles; the revision counts the publication; and after a refused input nothing is
  published any more.
\<close>

theorem transaction_publishes_once:
  assumes "txn_run cr hmac b64 (earlier @ events) (from_recovery cr rec store revision) = (rv, fine, published)"
    and "txn_run cr hmac b64 earlier (from_recovery cr rec store revision) = (rv0, fine0, published0)"
  shows "publishes cr hmac store published \<and> rv_revision rv = revision + word_of_nat (length published) \<and>
    (\<not> fine0 \<longrightarrow> published = published0) \<and> (published0 \<noteq> [] \<longrightarrow> published = published0)"
proof -
  let ?start = "(from_recovery cr rec store revision, True, [])"
  have start: "txn_inv cr hmac store revision ?start" by (simp add: from_recovery_def)
  have whole: "txn_inv cr hmac store revision (rv, fine, published)"
    using txn_run_inv [OF start, of b64 "earlier @ events"] assms(1) by (simp add: txn_run_def)
  have first: "txn_inv cr hmac store revision (rv0, fine0, published0)"
    using txn_run_inv [OF start, of b64 earlier] assms(2) by (simp add: txn_run_def)
  have rest: "fold (txn_step cr hmac b64) events (rv0, fine0, published0) = (rv, fine, published)"
    using assms by (simp add: txn_run_def)
  have same: "published = published0" if "txn_closed (rv0, fine0, published0)"
    using txn_fold_closed [OF that, of cr hmac b64 events] rest by auto
  have "publishes cr hmac store published"
    using whole by (auto simp: publishes_def split: txn_state.splits)
  moreover have "published0 \<noteq> [] \<Longrightarrow> txn_closed (rv0, fine0, published0)"
    using first by (auto simp: txn_closed_def split: txn_state.splits)
  ultimately show ?thesis using whole same txn_failed_closed [OF first] by auto
qed

text \<open>A response whose one input names a handle of an earlier session, found again in its file.\<close>

definition example_surroundings :: surroundings where
  "example_surroundings =
     \<lparr>su_fs = example_files, su_enabled = True, su_index = example_index, su_accepts = True\<rparr>"

lemma example_input_processed:
  assumes "reveal example_crypto rec example_handle = Some ''secret''"
  shows "process_recovery_tool_input example_crypto nibble_base64 example_input ToolData rec =
    Inr \<lparr>vi_text = ''use secret'', vi_executed = False\<rparr>"
proof -
  have token: "token_value example_crypto nibble_base64 rec t = ''secret''" if "t \<in> set example_spans" for t
    using that assms by (auto simp: example_spans_def token_value_def)
  have "substituted (token_value example_crypto nibble_base64 rec) example_input 0 example_spans =
      substituted (\<lambda>_. ''secret'') example_input 0 example_spans"
    by (rule substituted_cong) (rule token)
  also have "\<dots> = ''use secret''" by code_simp
  finally show ?thesis
    unfolding process_recovery_iff [OF nibble_base64_ok]
    using assms
    by (intro exI [of _ example_spans])
      (simp add: example_scanned surface_ok_def MAX_RESTORED_TOOL_INPUT_BYTES_def example_spans_def
        resolves_def resolved_map rendered_ok_def)
qed

lemma transaction_publishes_once_witness:
  "\<exists>rv rec. txn_run example_crypto example_hmac nibble_base64
      ([Resolve example_surroundings example_input ToolData] @ [Commit example_surroundings])
      (from_recovery example_crypto (empty_for_key example_crypto ''k'') (''k'', ''i'') 0) = (rv, True, [rec]) \<and>
    publishes example_crypto example_hmac (''k'', ''i'') [rec] \<and> rv_revision rv = 1"
proof -
  let ?known = "empty_for_key example_crypto ''k''"
  let ?sealed = "seal example_crypto [(example_handle, ''secret'')] ''k''"
  let ?start = "from_recovery example_crypto ?known (''k'', ''i'') 0"
  have unknown: "process_recovery_tool_input example_crypto nibble_base64 example_input ToolData ?known =
      Inl UnknownHandle"
    by (simp add: process_recovery_tool_input_def scan_views_def example_scanned example_spans_def
        empty_for_key_def placeholders_def)
  obtain b where b: "batch_recover example_crypto example_hmac example_files example_input ?known ''k'' ''i''
      example_new_batch = (b, Inr ?sealed)" "fb_values b = [(example_handle, ''secret'')]"
    using example_recovered by auto
  have "reveal example_crypto (extend_same_key ?known ?sealed) example_handle = Some ''secret''"
    by code_simp
  note found = example_input_processed [OF this]
  have first: "txn_run example_crypto example_hmac nibble_base64 [Resolve example_surroundings example_input ToolData]
      ?start = (?start\<lparr>rv_txn := TxnActive (Some b)\<rparr>, True, [])"
    by (simp add: txn_run_def from_recovery_def resolve_tool_input_def resolve_active_def unknown
        recover_and_process_def example_surroundings_def example_started b found settle_def)
  then have "txn_run example_crypto example_hmac nibble_base64
      ([Resolve example_surroundings example_input ToolData] @ [Commit example_surroundings]) ?start =
      (?start\<lparr>rv_txn := TxnCommitted, rv_revision := 1\<rparr>, True, [?sealed])"
    by (simp add: txn_run_def from_recovery_def commit_file_recoveries_def staged_recovery_def staged_def b
        example_surroundings_def)
      (simp add: seal_def recovery_is_empty_def Let_def)
  with transaction_publishes_once [OF this first] show ?thesis by auto
qed

end
