(* ===== verification/Store.thy ===== *)
theory Store
  imports Persist EnvRefs PointerFacts Streaming Checksum
begin

text \<open>
  \<open>crates/pentect-runtime/src/memory_store.rs\<close> and \<open>session.rs\<close>: the process that holds the keys
  and the sealed map of a session, its line protocol, the connections it admits, its clients, and
  the activity log with its readers (\<open>activity_log.rs\<close>, the loop of \<open>follow\<close>).
\<close>


section \<open>The state and the protocol\<close>

definition MAX_CLIENT_CONNECTIONS :: nat where
  "MAX_CLIENT_CONNECTIONS = 32"

definition MAX_REQUEST_LINE_BYTES :: nat where
  "MAX_REQUEST_LINE_BYTES = 8 * 1024 * 1024"

definition MAX_ACTIVITY_EVENTS :: nat where
  "MAX_ACTIVITY_EVENTS = 4096"

definition MAX_ACTIVITY_EVENT_BYTES :: nat where
  "MAX_ACTIVITY_EVENT_BYTES = 16 * 1024"

definition MAX_ACTIVITY_POLL_EVENTS :: nat where
  "MAX_ACTIVITY_POLL_EVENTS = 256"

definition TOKEN_BYTES :: nat where
  "TOKEN_BYTES = 32"

text \<open>Base64 and JSON, by the crates the code calls.\<close>

record store_codec =
  sc_encode :: "str \<Rightarrow> str"
  sc_decode :: "str \<Rightarrow> str option"
  sc_json_value :: "str \<Rightarrow> bool"
  sc_events :: "(u64 \<times> str) list \<Rightarrow> str"
  sc_read_events :: "str \<Rightarrow> (u64 \<times> str) list option"

record store_state =
  ms_key :: str
  ms_identity_key :: str
  ms_recovery :: recovery
  ms_masked_count :: u64
  ms_activity :: "(u64 \<times> str) list"
  ms_next_activity_id :: u64

definition new_store :: "crypto \<Rightarrow> str \<Rightarrow> str \<Rightarrow> store_state" where
  "new_store cr key identity_key =
     \<lparr>ms_key = key, ms_identity_key = identity_key, ms_recovery = empty_for_key cr key,
      ms_masked_count = 0, ms_activity = [], ms_next_activity_id = 1\<rparr>"

record tokens =
  tk_primary :: str
  tk_read :: str
  tk_write :: str

datatype request_access = Primary | ProcessRead | ProcessWrite

definition valid_runtime_token :: "str \<Rightarrow> bool" where
  "valid_runtime_token token \<longleftrightarrow> length token = TOKEN_BYTES * 2 \<and> list_all is_ascii_hexdigit token"

definition valid_request_token :: "str \<Rightarrow> bool" where
  "valid_request_token token \<longleftrightarrow> valid_runtime_token token"

text \<open>All bytes are compared, whatever the first difference.\<close>

definition constant_time_token_eq :: "str \<Rightarrow> str \<Rightarrow> bool" where
  "constant_time_token_eq provided expected \<longleftrightarrow>
     length provided = length expected \<and>
     fold (\<lambda>(l, r) difference. difference OR (code l XOR code r)) (zip provided expected) 0 = 0"

definition access_of :: "tokens \<Rightarrow> str \<Rightarrow> request_access option" where
  "access_of tk provided =
     (if \<not> valid_request_token provided then None
      else if constant_time_token_eq provided (tk_primary tk) then Some Primary
      else if constant_time_token_eq provided (tk_read tk) then Some ProcessRead
      else if constant_time_token_eq provided (tk_write tk) then Some ProcessWrite
      else None)"

definition TAB :: byte where
  "TAB = CHR 0x09"

definition trim_line_end :: "str \<Rightarrow> str" where
  "trim_line_end line = rev (dropWhile (\<lambda>c. c = CHR 0x0D \<or> c = CHR 0x0A) (rev line))"

definition request_fields :: "str \<Rightarrow> str list" where
  "request_fields line = split_on TAB (trim_line_end line)"

definition sanitize_field :: "str \<Rightarrow> str" where
  "sanitize_field v = map (\<lambda>c. if c \<in> {CHR 0x0D, CHR 0x0A, TAB} then CHR 0x20 else c) v"


section \<open>The requests\<close>

text \<open>\<open>HEXLOWER\<close>: \<open>encode_full_hash\<close> writes it, this reads it.\<close>

definition hex_value :: "byte \<Rightarrow> nat option" where
  "hex_value c =
     (if is_ascii_digit c then Some (code c - 48)
      else if is_lower_hex c then Some (code c - 87) else None)"

fun hex_decode :: "str \<Rightarrow> str option" where
  "hex_decode [] = Some []"
| "hex_decode [c] = None"
| "hex_decode (c # d # s) =
     do {
       hi \<leftarrow> hex_value c;
       lo \<leftarrow> hex_value d;
       rest \<leftarrow> hex_decode s;
       Some (char_of (16 * hi + lo) # rest)
     }"

definition OK :: str where
  "OK = ''OK''"

definition key_response :: "store_state \<Rightarrow> str" where
  "key_response st = OK @ TAB # encode_full_hash (ms_key st)"

definition keys_response :: "store_state \<Rightarrow> str" where
  "keys_response st =
     OK @ TAB # encode_full_hash (ms_key st) @ TAB # encode_full_hash (ms_identity_key st)"

definition snapshot_response :: "crypto \<Rightarrow> store_codec \<Rightarrow> store_state \<Rightarrow> str" where
  "snapshot_response cr cd st =
     OK @ TAB # encode_full_hash (ms_key st) @ TAB # encode_full_hash (ms_identity_key st) @
     TAB # sc_encode cd (serialize cr (ms_recovery st) (ms_key st))"

definition count_response :: "store_state \<Rightarrow> str" where
  "count_response st = OK @ TAB # show_nat (unat (ms_masked_count st))"

definition add_recovery_request ::
    "crypto \<Rightarrow> store_codec \<Rightarrow> str \<Rightarrow> store_state \<Rightarrow> store_state \<times> (str + str)" where
  "add_recovery_request cr cd payload st =
     (case sc_decode cd payload of
        None \<Rightarrow> (st, Inl ''recovery payload is not valid base64'')
      | Some bytes \<Rightarrow>
          (case load cr bytes (ms_key st) of
             Inl e \<Rightarrow> (st, Inl (''recovery payload is invalid: '' @ recovery_error_message e))
           | Inr rec \<Rightarrow>
               (if recovery_is_empty rec then st
                else st\<lparr>ms_recovery := extend_same_key (ms_recovery st) rec\<rparr>, Inr OK)))"

definition add_masked_count_request :: "str \<Rightarrow> store_state \<Rightarrow> store_state \<times> (str + str)" where
  "add_masked_count_request payload st =
     (case parse_u64_std payload of
        None \<Rightarrow> (st, Inl ''masked count payload is not a number'')
      | Some n \<Rightarrow>
          (st\<lparr>ms_masked_count := sat_add (ms_masked_count st) (word_of_nat n)\<rparr>, Inr OK))"

definition push_activity :: "str \<Rightarrow> store_state \<Rightarrow> store_state" where
  "push_activity event st =
     (let activity = ms_activity st @ [(ms_next_activity_id st, event)]
      in st\<lparr>ms_next_activity_id := sat_add (ms_next_activity_id st) 1,
           ms_activity := drop (length activity - MAX_ACTIVITY_EVENTS) activity\<rparr>)"

definition add_activity_request ::
    "store_codec \<Rightarrow> str \<Rightarrow> store_state \<Rightarrow> store_state \<times> (str + str)" where
  "add_activity_request cd payload st =
     (case sc_decode cd payload of
        None \<Rightarrow> (st, Inl ''activity payload is not valid base64'')
      | Some bytes \<Rightarrow>
          if MAX_ACTIVITY_EVENT_BYTES < length bytes then (st, Inl ''activity payload is too large'')
          else if \<not> utf8_valid bytes then (st, Inl ''activity payload is not UTF-8'')
          else if \<not> sc_json_value cd bytes then (st, Inl ''activity payload is not valid JSON'')
          else (push_activity bytes st, Inr OK))"

definition events_after :: "u64 \<Rightarrow> store_state \<Rightarrow> (u64 \<times> str) list" where
  "events_after cursor st =
     take MAX_ACTIVITY_POLL_EVENTS (filter (\<lambda>(i, _). cursor < i) (ms_activity st))"

definition activity_response :: "store_codec \<Rightarrow> str \<Rightarrow> store_state \<Rightarrow> str + str" where
  "activity_response cd payload st =
     (case parse_u64_std payload of
        None \<Rightarrow> Inl ''activity cursor is not a number''
      | Some cursor \<Rightarrow>
          Inr (OK @ TAB # sc_encode cd (sc_events cd (events_after (word_of_nat cursor) st))))"

text \<open>The dispatch on the parts of a request and the access its token gives.\<close>

definition respond ::
    "crypto \<Rightarrow> store_codec \<Rightarrow> request_access \<Rightarrow> str list \<Rightarrow> store_state \<Rightarrow>
     store_state \<times> (str + str)" where
  "respond cr cd access parts st =
     (case parts of
        [_, command, payload] \<Rightarrow>
          if command = ''KEY'' \<and> payload = [] \<and> access = Primary then (st, Inr (key_response st))
          else if command = ''KEYS'' \<and> payload = [] \<and> access = Primary then (st, Inr (keys_response st))
          else if command = ''COUNT'' \<and> payload = [] \<and> access = Primary then (st, Inr (count_response st))
          else if command = ''SNAPSHOT'' \<and> payload = [] \<and> access = Primary
          then (st, Inr (snapshot_response cr cd st))
          else if command = ''ADD'' \<and> access = Primary then add_recovery_request cr cd payload st
          else if command = ''ADD_COUNT'' \<and> access = Primary then add_masked_count_request payload st
          else if command = ''LEASE'' \<and> payload = [] \<and> access = Primary then (st, Inr OK)
          else if command = ''LOG_ADD'' \<and> access = ProcessWrite then add_activity_request cd payload st
          else if command = ''LOGS'' \<and> access = ProcessRead then (st, activity_response cd payload st)
          else (st, Inl ''malformed request'')
      | _ \<Rightarrow> (st, Inl ''malformed request''))"

text \<open>
  One connection: what it reads (a line is never empty, its last byte may be missing), and what becomes of it. A connection that took the lease ends the
  process when it goes away.
\<close>

datatype connection_read = ReadLine str | ReadEof | ReadFailed

datatype connection = Serving bool | Closed | ProcessExit

fun is_lease :: "str list \<Rightarrow> bool" where
  "is_lease [_, command, payload] \<longleftrightarrow> command = ''LEASE'' \<and> payload = []"
| "is_lease _ \<longleftrightarrow> False"

definition NL :: byte where
  "NL = CHR 0x0A"

definition write_response :: "str + str \<Rightarrow> str" where
  "write_response r =
     (case r of
        Inr line \<Rightarrow> line @ [NL]
      | Inl e \<Rightarrow> ''ERR'' @ TAB # sanitize_field e @ [NL])"

fun handle_read ::
    "crypto \<Rightarrow> store_codec \<Rightarrow> tokens \<Rightarrow> connection_read \<Rightarrow> bool \<Rightarrow> store_state \<Rightarrow>
     store_state \<times> str \<times> connection" where
  "handle_read cr cd tk ReadFailed lease st = (st, [], if lease then ProcessExit else Closed)"
| "handle_read cr cd tk ReadEof lease st = (st, [], if lease then ProcessExit else Closed)"
| "handle_read cr cd tk (ReadLine line) lease st =
     (if MAX_REQUEST_LINE_BYTES < length line then (st, [], Closed)
      else
        let parts = request_fields line
        in (case access_of tk (hd parts) of
              None \<Rightarrow> (st, write_response (Inl ''bad token''), Closed)
            | Some access \<Rightarrow>
                (let (st, r) = respond cr cd access parts st
                 in (st, write_response r, Serving (lease \<or> access = Primary \<and> is_lease parts)))))"

text \<open>A connection answers until it ends; reads after the end are lost.\<close>

fun serve ::
    "crypto \<Rightarrow> store_codec \<Rightarrow> tokens \<Rightarrow> connection_read list \<Rightarrow> bool \<Rightarrow> store_state \<Rightarrow>
     store_state \<times> str \<times> connection" where
  "serve cr cd tk [] lease st = (st, [], Serving lease)"
| "serve cr cd tk (r # rs) lease st =
     (case handle_read cr cd tk r lease st of
        (st, out, Serving lease) \<Rightarrow>
          (case serve cr cd tk rs lease st of (st, rest, c) \<Rightarrow> (st, out @ rest, c))
      | (st, out, c) \<Rightarrow> (st, out, c))"


section \<open>The client\<close>

definition response_fields :: "str \<Rightarrow> str + str list" where
  "response_fields line =
     (let parts = request_fields line
      in if hd parts = ''ERR''
         then Inl (if 1 < length parts then parts ! 1 else ''unknown error'') else Inr parts)"

text \<open>One request over an open connection, and the line the server answers with.\<close>

definition request_line :: "str \<Rightarrow> str \<Rightarrow> str \<Rightarrow> str" where
  "request_line token command payload = token @ TAB # command @ TAB # payload @ [NL]"

definition request_once ::
    "crypto \<Rightarrow> store_codec \<Rightarrow> tokens \<Rightarrow> str \<Rightarrow> str \<Rightarrow> str \<Rightarrow> store_state \<Rightarrow>
     store_state \<times> (str + str)" where
  "request_once cr cd tk token command payload st =
     (case handle_read cr cd tk (ReadLine (request_line token command payload)) False st of
        (st, line, _) \<Rightarrow>
          (st,
           if line = [] then Inl ''memory store closed the connection''
           else
             (case strip_prefix (''ERR'' @ [TAB]) line of
                Some reason \<Rightarrow> Inl (''memory store rejected request: '' @ trim reason)
              | None \<Rightarrow> Inr line)))"

definition decode_key_hex :: "str \<Rightarrow> str + str" where
  "decode_key_hex v =
     (case hex_decode v of
        None \<Rightarrow> Inl ''memory store key is not valid hex''
      | Some bytes \<Rightarrow>
          if length bytes = 32 then Inr bytes else Inl ''memory store key has wrong length'')"

record store_snapshot =
  ss_key :: str
  ss_identity_key :: str
  ss_recovery :: recovery

definition decode_snapshot_response :: "crypto \<Rightarrow> store_codec \<Rightarrow> str \<Rightarrow> str + store_snapshot" where
  "decode_snapshot_response cr cd line =
     and_then (response_fields line) (\<lambda>parts.
       case parts of
         [ok, k, i, payload] \<Rightarrow>
           if ok \<noteq> OK then Inl ''memory store snapshot response is malformed''
           else
             and_then (decode_key_hex k) (\<lambda>key.
             and_then (decode_key_hex i) (\<lambda>identity_key.
               case sc_decode cd payload of
                 None \<Rightarrow> Inl ''memory store snapshot is not valid base64''
               | Some blob \<Rightarrow>
                   (case load cr blob key of
                      Inl e \<Rightarrow> Inl (''memory store snapshot is invalid: '' @ recovery_error_message e)
                    | Inr rec \<Rightarrow>
                        Inr \<lparr>ss_key = key, ss_identity_key = identity_key, ss_recovery = rec\<rparr>)))
       | _ \<Rightarrow> Inl ''memory store snapshot response is malformed'')"

definition decode_masked_count_response :: "str \<Rightarrow> str + u64" where
  "decode_masked_count_response line =
     and_then (response_fields line) (\<lambda>parts.
       case parts of
         [ok, n] \<Rightarrow>
           if ok \<noteq> OK then Inl ''memory store count response is malformed''
           else (case parse_u64_std n of
                   None \<Rightarrow> Inl ''memory store masked count is not a number''
                 | Some n \<Rightarrow> Inr (word_of_nat n))
       | _ \<Rightarrow> Inl ''memory store count response is malformed'')"

definition decode_activity_response :: "store_codec \<Rightarrow> str \<Rightarrow> str + (u64 \<times> str) list" where
  "decode_activity_response cd line =
     and_then (response_fields line) (\<lambda>parts.
       case parts of
         [ok, payload] \<Rightarrow>
           if ok \<noteq> OK then Inl ''memory store activity response is malformed''
           else
             (case sc_decode cd payload of
                None \<Rightarrow> Inl ''memory store activity response is not valid base64''
              | Some bytes \<Rightarrow>
                  (case sc_read_events cd bytes of
                     None \<Rightarrow> Inl ''memory store activity response is not valid JSON''
                   | Some events \<Rightarrow> Inr events))
       | _ \<Rightarrow> Inl ''memory store activity response is malformed'')"

definition expect_ok :: "str \<Rightarrow> str \<Rightarrow> str + unit" where
  "expect_ok message line =
     and_then (response_fields line) (\<lambda>parts. if parts = [OK] then Inr () else Inl message)"

definition client_snapshot ::
    "crypto \<Rightarrow> store_codec \<Rightarrow> tokens \<Rightarrow> str \<Rightarrow> store_state \<Rightarrow> store_state \<times> (str + store_snapshot)" where
  "client_snapshot cr cd tk token st =
     (case request_once cr cd tk token ''SNAPSHOT'' [] st of
        (st, r) \<Rightarrow> (st, and_then r (decode_snapshot_response cr cd)))"

definition client_add_recovery ::
    "crypto \<Rightarrow> store_codec \<Rightarrow> tokens \<Rightarrow> str \<Rightarrow> str \<Rightarrow> recovery \<Rightarrow> store_state \<Rightarrow>
     store_state \<times> (str + unit)" where
  "client_add_recovery cr cd tk token key rec st =
     (case request_once cr cd tk token ''ADD'' (sc_encode cd (serialize cr rec key)) st of
        (st, r) \<Rightarrow> (st, and_then r (expect_ok ''memory store add response is malformed'')))"

definition client_masked_count ::
    "crypto \<Rightarrow> store_codec \<Rightarrow> tokens \<Rightarrow> str \<Rightarrow> store_state \<Rightarrow> store_state \<times> (str + u64)" where
  "client_masked_count cr cd tk token st =
     (case request_once cr cd tk token ''COUNT'' [] st of
        (st, r) \<Rightarrow> (st, and_then r decode_masked_count_response))"

definition client_add_masked_count ::
    "crypto \<Rightarrow> store_codec \<Rightarrow> tokens \<Rightarrow> str \<Rightarrow> u64 \<Rightarrow> store_state \<Rightarrow> store_state \<times> (str + unit)" where
  "client_add_masked_count cr cd tk token n st =
     (if n = 0 then (st, Inr ())
      else
        (case request_once cr cd tk token ''ADD_COUNT'' (show_nat (unat n)) st of
           (st, r) \<Rightarrow> (st, and_then r (expect_ok ''memory store add count response is malformed''))))"

definition client_add_activity ::
    "crypto \<Rightarrow> store_codec \<Rightarrow> tokens \<Rightarrow> str \<Rightarrow> str \<Rightarrow> store_state \<Rightarrow> store_state \<times> (str + unit)" where
  "client_add_activity cr cd tk token event st =
     (if MAX_ACTIVITY_EVENT_BYTES < length event then (st, Inl ''activity event is too large'')
      else
        (case request_once cr cd tk token ''LOG_ADD'' (sc_encode cd event) st of
           (st, r) \<Rightarrow> (st, and_then r (expect_ok ''memory store activity response is malformed''))))"

definition client_poll_activity ::
    "crypto \<Rightarrow> store_codec \<Rightarrow> tokens \<Rightarrow> str \<Rightarrow> u64 \<Rightarrow> store_state \<Rightarrow>
     store_state \<times> (str + (u64 \<times> str) list)" where
  "client_poll_activity cr cd tk token cursor st =
     (case request_once cr cd tk token ''LOGS'' (show_nat (unat cursor)) st of
        (st, r) \<Rightarrow> (st, and_then r (decode_activity_response cd)))"


section \<open>Sessions\<close>

definition char_is_control :: "str \<Rightarrow> bool" where
  "char_is_control c \<longleftrightarrow>
     (case c of
        [a] \<Rightarrow> code a < 32 \<or> code a = 127
      | [a, b] \<Rightarrow> code a = 194 \<and> code b < 160
      | _ \<Rightarrow> False)"

definition checked_session_name :: "str \<Rightarrow> str + str" where
  "checked_session_name name =
     (if name = [] then Inl ''session name must not be empty''
      else if name \<in> {''.'', ''..''} then Inl ''session name must not be a dot path segment''
      else if list_ex (\<lambda>c. char_is_control c \<or> (\<exists>d \<in> set (''/:*?<>|'' @ [CHR 0x5C, CHR 0x22]). c = [d]))
                (utf8_chars name)
      then Inl ''session name must be a simple file-name segment''
      else Inr name)"

record session =
  se_key :: str
  se_identity_key :: str
  se_recoveries :: "recovery list"

definition session_of_snapshot :: "store_snapshot \<Rightarrow> session" where
  "session_of_snapshot snap =
     \<lparr>se_key = ss_key snap, se_identity_key = ss_identity_key snap,
      se_recoveries = (if recovery_is_empty (ss_recovery snap) then [] else [ss_recovery snap])\<rparr>"

definition open_active ::
    "crypto \<Rightarrow> store_codec \<Rightarrow> tokens \<Rightarrow> str \<Rightarrow> store_state \<Rightarrow> store_state \<times> (str + session)" where
  "open_active cr cd tk token st =
     (case client_snapshot cr cd tk token st of
        (st, r) \<Rightarrow> (st, and_then r (\<lambda>snap. Inr (session_of_snapshot snap))))"

text \<open>The session publishes before it remembers.\<close>

definition add_recovery ::
    "crypto \<Rightarrow> store_codec \<Rightarrow> tokens \<Rightarrow> str \<Rightarrow> recovery \<Rightarrow> session \<times> store_state \<Rightarrow>
     (session \<times> store_state) \<times> (str + unit)" where
  "add_recovery cr cd tk token rec = (\<lambda>(se, st).
     if recovery_is_empty rec then ((se, st), Inr ())
     else
       (case client_add_recovery cr cd tk token (se_key se) rec st of
          (st, Inl e) \<Rightarrow> ((se, st), Inl e)
        | (st, Inr _) \<Rightarrow> ((se\<lparr>se_recoveries := se_recoveries se @ [rec]\<rparr>, st), Inr ())))"

definition resolve_with_recoveries :: "crypto \<Rightarrow> recovery list \<Rightarrow> str \<Rightarrow> str" where
  "resolve_with_recoveries cr recoveries input = fold (resolve_text cr) recoveries input"

definition resolve_all ::
    "crypto \<Rightarrow> store_codec \<Rightarrow> tokens \<Rightarrow> str \<Rightarrow> filesystem \<Rightarrow> bool \<Rightarrow> pointer_index \<Rightarrow> str \<Rightarrow>
     session \<times> store_state \<Rightarrow> (session \<times> store_state) \<times> (str + str)" where
  "resolve_all cr cd tk token fs enabled index input = (\<lambda>(se, st).
     let out = resolve_with_recoveries cr (se_recoveries se) input
     in case recover_text cr fs enabled index out (se_key se) of
          None \<Rightarrow> ((se, st), Inr out)
        | Some rec \<Rightarrow>
            (case add_recovery cr cd tk token rec (se, st) of
               (s, Inl e) \<Rightarrow> (s, Inl e)
             | (s, Inr _) \<Rightarrow> (s, Inr (resolve_text cr rec out))))"

text \<open>A remasker over all maps; \<open>None\<close> is a panic of the stream, an invalid output an error.\<close>

definition remask_all :: "crypto \<Rightarrow> base64_encoder \<Rightarrow> session \<Rightarrow> str \<Rightarrow> (str + str) option" where
  "remask_all cr b64 se input =
     Option.bind (push_text (fold (\<lambda>rec r. merge_recovery_with_views cr b64 r rec) (se_recoveries se) empty_remasker) input)
       (\<lambda>(out, r). Option.bind (finish r)
          (\<lambda>(rest, _). Some (if utf8_valid (out @ rest) then Inr (out @ rest)
             else Inl ''recovery remask produced invalid UTF-8'')))"

text \<open>The bindings of all maps of a session: a later map wins.\<close>

definition auto_env_binding :: "crypto \<Rightarrow> recovery list \<Rightarrow> recovery \<Rightarrow> str \<Rightarrow> (str \<times> str \<times> str) option" where
  "auto_env_binding cr recoveries rec ph =
     (if \<not> is_env_alias_placeholder ph then None
      else
        (case decode_env_alias_record (resolve_text cr rec ph) of
           None \<Rightarrow> None
         | Some (name, handle) \<Rightarrow>
             if is_reserved_child_env_name name then None
             else
               (let v = resolve_with_recoveries cr recoveries handle
                in if v \<noteq> handle then Some (ascii_lower name, name, v) else None)))"

definition auto_env_bindings :: "crypto \<Rightarrow> session \<Rightarrow> (str \<times> str) list" where
  "auto_env_bindings cr se =
     map snd (sort_key fst
       (fold (\<lambda>(k, b). AList.update k b)
         (concat (map (\<lambda>rec. List.map_filter (auto_env_binding cr (se_recoveries se) rec) (placeholders rec))
            (se_recoveries se))) []))"


section \<open>Who learns what\<close>

lemma constant_time_token_eq_iff [simp]: "constant_time_token_eq a b \<longleftrightarrow> a = b"
proof -
  have "(\<forall>(x, y) \<in> set (zip a b). code x XOR code y = 0) \<longleftrightarrow> a = b" if "length a = length b"
    using that by (induction a b rule: list_induct2) (simp_all add: xor_zero)
  then show ?thesis unfolding constant_time_token_eq_def fold_or_zero by auto
qed

text \<open>A read without the primary token, and two states with the same activity log.\<close>

fun foreign :: "tokens \<Rightarrow> connection_read \<Rightarrow> bool" where
  "foreign tk (ReadLine line) \<longleftrightarrow> hd (request_fields line) \<noteq> tk_primary tk"
| "foreign tk _ \<longleftrightarrow> True"

definition same_log :: "store_state \<Rightarrow> store_state \<Rightarrow> bool" where
  "same_log st st' \<longleftrightarrow>
     ms_activity st = ms_activity st' \<and> ms_next_activity_id st = ms_next_activity_id st'"

definition secrets :: "store_state \<Rightarrow> str \<times> str \<times> recovery \<times> u64" where
  "secrets st = (ms_key st, ms_identity_key st, ms_recovery st, ms_masked_count st)"

lemma foreign_access: "hd parts \<noteq> tk_primary tk \<Longrightarrow> access_of tk (hd parts) \<noteq> Some Primary"
  by (auto simp: access_of_def)

lemma add_activity_foreign:
  assumes "add_activity_request cd payload st = (st1, r)" and "same_log st st'"
  shows "\<exists>st1'. add_activity_request cd payload st' = (st1', r) \<and> same_log st1 st1' \<and> secrets st1 = secrets st"
  using assms
  by (auto simp: add_activity_request_def same_log_def secrets_def push_activity_def Let_def
      split: option.splits if_splits)

lemma respond_foreign:
  assumes "respond cr cd access parts st = (st1, r)" and "access \<noteq> Primary" and "same_log st st'"
  shows "\<exists>st1'. respond cr' cd access parts st' = (st1', r) \<and> same_log st1 st1' \<and> secrets st1 = secrets st"
proof (cases "\<exists>token command payload. parts = [token, command, payload]")
  case True
  then obtain token command payload where parts: "parts = [token, command, payload]" by blast
  have r: "respond cr cd access parts st =
      (if command = ''LOG_ADD'' \<and> access = ProcessWrite then add_activity_request cd payload st
       else if command = ''LOGS'' \<and> access = ProcessRead then (st, activity_response cd payload st)
       else (st, Inl ''malformed request''))" for cr st
    using assms(2) by (simp add: parts respond_def)
  have "activity_response cd payload st = activity_response cd payload st'"
    using assms(3) by (simp add: activity_response_def events_after_def same_log_def split: option.split)
  with assms(1,3) show ?thesis
    unfolding r using add_activity_foreign by (auto split: if_splits)
next
  case False
  then have "respond cr cd access parts st = (st, Inl ''malformed request'')" for cr st
    by (auto simp: respond_def split: list.split)
  with assms show ?thesis by auto
qed

lemma handle_foreign:
  assumes "handle_read cr cd tk r False st = (st1, out, c)" and "foreign tk r" and "same_log st st'"
  shows "\<exists>st1'. handle_read cr' cd tk r False st' = (st1', out, c) \<and> same_log st1 st1' \<and>
    secrets st1 = secrets st \<and> c \<in> {Serving False, Closed}"
proof (cases r)
  case (ReadLine line)
  let ?parts = "request_fields line"
  show ?thesis
  proof (cases "MAX_REQUEST_LINE_BYTES < length line")
    case False
    have access: "access_of tk (hd ?parts) \<noteq> Some Primary"
      using assms(2) ReadLine by (intro foreign_access) simp
    show ?thesis
    proof (cases "access_of tk (hd ?parts)")
      case None
      with assms False ReadLine show ?thesis by (auto simp: Let_def)
    next
      case (Some access)
      obtain st1 res where res: "respond cr cd access ?parts st = (st1, res)" by force
      with access Some obtain st1' where
        "respond cr' cd access ?parts st' = (st1', res)" "same_log st1 st1'" "secrets st1 = secrets st"
        using respond_foreign [OF res _ assms(3)] by auto
      with assms(1) False ReadLine Some res access show ?thesis by (auto simp: Let_def)
    qed
  qed (use assms ReadLine in auto)
qed (use assms in auto)

text \<open>
  C38. A connection that never sends the primary token learns nothing of the keys, the sealed map
  or the count, and changes none of them: whatever it sends, the store answers as one with any
  other secrets and the same activity log would, and it can never end the process.
\<close>

theorem foreign_connection_learns_nothing:
  assumes "serve cr cd tk rs False st = (st1, out, c)" and "list_all (foreign tk) rs" and "same_log st st'"
  shows "\<exists>st1'. serve cr' cd tk rs False st' = (st1', out, c) \<and> secrets st1 = secrets st \<and>
    secrets st1' = secrets st' \<and> c \<noteq> ProcessExit"
proof -
  have "\<exists>st1'. serve cr' cd tk rs False st' = (st1', out, c) \<and> secrets st1 = secrets st \<and>
      secrets st1' = secrets st' \<and> c \<noteq> ProcessExit"
    if "serve cr cd tk rs False st = (st1, out, c)" "list_all (foreign tk) rs" "same_log st st'"
    for rs st st' st1 out c
    using that
  proof (induction rs arbitrary: st st' st1 out c)
    case (Cons r rs)
    obtain st2 out2 c2 where first: "handle_read cr cd tk r False st = (st2, out2, c2)" by (metis prod_cases3)
    have other: "foreign tk r" "same_log st' st" using Cons.prems by (auto simp: same_log_def)
    obtain st2' where first': "handle_read cr' cd tk r False st' = (st2', out2, c2)" "same_log st2 st2'"
      "secrets st2 = secrets st" "c2 \<in> {Serving False, Closed}"
      using handle_foreign [OF first other(1) Cons.prems(3)] by blast
    have keep: "secrets st2' = secrets st'" using handle_foreign [OF first'(1) other] by auto
    show ?case
    proof (cases c2)
      case (Serving lease)
      with first'(4) have lease: "lease = False" by simp
      obtain st3 out3 c3 where rest: "serve cr cd tk rs False st2 = (st3, out3, c3)" by (metis prod_cases3)
      with Cons.IH [OF rest _ first'(2)] Cons.prems obtain st3' where
        "serve cr' cd tk rs False st2' = (st3', out3, c3)" "secrets st3 = secrets st2"
        "secrets st3' = secrets st2'" "c3 \<noteq> ProcessExit" by auto
      with Cons.prems first first' rest keep Serving lease show ?thesis by auto
    qed (use Cons.prems first first' keep in auto)
  qed auto
  with assms show ?thesis by blast
qed


section \<open>What is added comes back\<close>

definition plain_field :: "str \<Rightarrow> bool" where
  "plain_field s \<longleftrightarrow> TAB \<notin> set s \<and> NL \<notin> set s \<and> CHR 0x0D \<notin> set s"

definition codec_ok :: "store_codec \<Rightarrow> bool" where
  "codec_ok cd \<longleftrightarrow>
     (\<forall>s. sc_decode cd (sc_encode cd s) = Some s \<and> plain_field (sc_encode cd s)) \<and>
     (\<forall>events. sc_read_events cd (sc_events cd events) = Some events)"

lemma trim_line_end_nl:
  assumes "NL \<notin> set s" and "CHR 0x0D \<notin> set s"
  shows "trim_line_end (s @ [NL]) = s"
proof (cases s rule: rev_cases)
  case (snoc t c)
  with assms show ?thesis by (auto simp: trim_line_end_def NL_def)
qed (simp add: trim_line_end_def NL_def)

lemma split_fields:
  "plain_field s \<Longrightarrow> split_on TAB (s @ TAB # t) = s # split_on TAB t"
  "plain_field s \<Longrightarrow> split_on TAB s = [s]"
  by (simp_all add: plain_field_def split_on_first split_on_none)

lemma fields_joined:
  assumes "plain_field a" and "plain_field b" and "plain_field c"
  shows "request_fields (a @ TAB # b @ TAB # c @ [NL]) = [a, b, c]"
proof -
  have "trim_line_end ((a @ TAB # b @ TAB # c) @ [NL]) = a @ TAB # b @ TAB # c"
    using assms by (intro trim_line_end_nl) (auto simp: plain_field_def TAB_def NL_def)
  with assms show ?thesis by (simp add: request_fields_def split_fields)
qed

lemma fields_of_response:
  assumes "list_all plain_field (p # ps)"
  shows "request_fields (join_on TAB (p # ps) @ [NL]) = p # ps"
proof -
  have "NL \<notin> set (join_on TAB qs) \<and> CHR 0x0D \<notin> set (join_on TAB qs)" if "list_all plain_field qs" for qs
    using that by (induction TAB qs rule: join_on.induct) (auto simp: plain_field_def TAB_def NL_def)
  moreover have "split_on TAB (join_on TAB (q # qs)) = q # qs" if "list_all plain_field (q # qs)" for q qs
    using that by (induction qs arbitrary: q) (auto simp: split_fields)
  ultimately show ?thesis using assms by (simp add: request_fields_def trim_line_end_nl)
qed

lemma hexdigit_plain: "list_all is_ascii_hexdigit s \<Longrightarrow> plain_field s"
  by (auto simp: plain_field_def list_all_iff TAB_def NL_def ascii_class_defs)

lemma lower_hex_plain: "list_all is_lower_hex s \<Longrightarrow> plain_field s"
  by (auto simp: plain_field_def list_all_iff TAB_def NL_def is_lower_hex_def ascii_class_defs)

lemma hex_value_digit: "n < 16 \<Longrightarrow> hex_value (hex_digit_char n) = Some n"
proof -
  have "list_all (\<lambda>n. hex_value (hex_digit_char n) = Some n) [0..<16]" by code_simp
  then show "n < 16 \<Longrightarrow> hex_value (hex_digit_char n) = Some n" by (simp add: list_all_iff)
qed

lemma nibbles_join: "16 * drop_bit 4 n + (n AND 15) = (n :: nat)"
proof -
  have "n AND 15 = n mod 16" using take_bit_eq_mask [of 4 n] by (simp add: take_bit_eq_mod mask_eq_exp_minus_1)
  then show ?thesis by (simp add: drop_bit_eq_div)
qed

lemma hex_decode_encode: "hex_decode (encode_full_hash bytes) = Some bytes"
  using nibble_bounds nibbles_join
  by (induction bytes) (simp_all add: encode_full_hash_def hex_value_digit)

lemma decode_key: "length key = 32 \<Longrightarrow> decode_key_hex (encode_full_hash key) = Inr key"
  by (simp add: decode_key_hex_def hex_decode_encode)

lemma key_plain: "plain_field (encode_full_hash key)"
  by (rule lower_hex_plain [OF encode_full_hash_lower])

lemma ok_plain: "plain_field OK" "OK \<noteq> ''ERR''"
  by (simp_all add: plain_field_def OK_def TAB_def NL_def)

text \<open>A request with a token of the store reaches its handler.\<close>

lemma request_served:
  assumes "access_of tk token = Some access" and "plain_field command" and "plain_field payload"
    and "length (request_line token command payload) \<le> MAX_REQUEST_LINE_BYTES"
    and "respond cr cd access [token, command, payload] st = (st', Inr line)" and "strip_prefix (''ERR'' @ [TAB]) (line @ [NL]) = None"
  shows "request_once cr cd tk token command payload st = (st', Inr (line @ [NL]))"
proof -
  have "plain_field token"
    using assms(1) hexdigit_plain
    by (auto simp: access_of_def valid_request_token_def valid_runtime_token_def split: if_splits)
  then have parts: "request_fields (request_line token command payload) = [token, command, payload]"
    using assms(2,3) by (simp add: request_line_def fields_joined)
  have "handle_read cr cd tk (ReadLine (request_line token command payload)) False st =
      (st', line @ [NL], Serving (access = Primary \<and> is_lease [token, command, payload]))"
    using assms(1,4,5) parts by (simp add: Let_def write_response_def)
  with assms(6) show ?thesis by (simp add: request_once_def)
qed

lemma response_of_parts:
  assumes "list_all plain_field ps"
  shows "response_fields (join_on TAB (OK # ps) @ [NL]) = Inr (OK # ps)"
    and "strip_prefix (''ERR'' @ [TAB]) (join_on TAB (OK # ps) @ [NL]) = None"
proof -
  show "response_fields (join_on TAB (OK # ps) @ [NL]) = Inr (OK # ps)"
    using fields_of_response [of OK ps] assms ok_plain by (simp add: response_fields_def)
  show "strip_prefix (''ERR'' @ [TAB]) (join_on TAB (OK # ps) @ [NL]) = None"
    by (cases ps) (simp_all add: strip_prefix_def OK_def)
qed

definition store_ok :: "crypto \<Rightarrow> store_state \<Rightarrow> bool" where
  "store_ok cr st \<longleftrightarrow>
     length (ms_key st) = 32 \<and> length (ms_identity_key st) = 32 \<and>
     rc_memory_key (ms_recovery st) = derive_memory_key cr (ms_key st) \<and> map_fits (rc_map (ms_recovery st))"

lemma client_snapshot_exact:
  assumes "codec_ok cd" and "valid_request_token (tk_primary tk)" and "store_ok cr st"
    and "\<And>k v. length (hmac_sha256 cr k v) = 32"
  shows "client_snapshot cr cd tk (tk_primary tk) st =
    (st, Inr \<lparr>ss_key = ms_key st, ss_identity_key = ms_identity_key st, ss_recovery = ms_recovery st\<rparr>)"
proof -
  let ?blob = "serialize cr (ms_recovery st) (ms_key st)"
  let ?ps = "[encode_full_hash (ms_key st), encode_full_hash (ms_identity_key st), sc_encode cd ?blob]"
  have codec: "sc_decode cd (sc_encode cd ?blob) = Some ?blob" "plain_field (sc_encode cd ?blob)"
    using assms(1) by (simp_all add: codec_ok_def)
  have plain: "list_all plain_field ?ps" using codec(2) by (simp add: key_plain)
  have line: "snapshot_response cr cd st = join_on TAB (OK # ?ps)"
    by (simp add: snapshot_response_def)
  have access: "access_of tk (tk_primary tk) = Some Primary"
    using assms(2) by (simp add: access_of_def)
  have len: "length (tk_primary tk) = 64"
    using assms(2) by (simp add: valid_request_token_def valid_runtime_token_def TOKEN_BYTES_def)
  have "request_once cr cd tk (tk_primary tk) ''SNAPSHOT'' [] st = (st, Inr (join_on TAB (OK # ?ps) @ [NL]))"
  proof (rule request_served [OF access])
    show "plain_field ''SNAPSHOT''" "plain_field []" by (simp_all add: plain_field_def TAB_def NL_def)
    show "length (request_line (tk_primary tk) ''SNAPSHOT'' []) \<le> MAX_REQUEST_LINE_BYTES"
      by (simp add: request_line_def len MAX_REQUEST_LINE_BYTES_def)
    show "respond cr cd Primary [tk_primary tk, ''SNAPSHOT'', []] st = (st, Inr (join_on TAB (OK # ?ps)))"
      unfolding line [symmetric] by (simp add: respond_def)
  qed (rule response_of_parts(2) [OF plain])
  moreover have "load cr ?blob (ms_key st) = Inr (ms_recovery st)"
    using assms(3) by (intro load_written assms(4)) (simp_all add: store_ok_def)
  ultimately show ?thesis
    using response_of_parts(1) [OF plain] codec(1) assms(3)
    by (simp add: client_snapshot_def decode_snapshot_response_def decode_key store_ok_def
        del: join_on.simps)
qed


lemma client_add_recovery_exact:
  assumes "codec_ok cd" and "valid_request_token (tk_primary tk)"
    and "rc_memory_key rec = derive_memory_key cr (ms_key st)" and "map_fits (rc_map rec)"
    and "\<And>k v. length (hmac_sha256 cr k v) = 32"
    and "length (request_line (tk_primary tk) ''ADD'' (sc_encode cd (serialize cr rec (ms_key st))))
      \<le> MAX_REQUEST_LINE_BYTES"
  shows "client_add_recovery cr cd tk (tk_primary tk) (ms_key st) rec st =
    (st\<lparr>ms_recovery := extend_same_key (ms_recovery st) rec\<rparr>, Inr ())"
proof -
  let ?blob = "serialize cr rec (ms_key st)"
  let ?st = "st\<lparr>ms_recovery := extend_same_key (ms_recovery st) rec\<rparr>"
  have codec: "sc_decode cd (sc_encode cd ?blob) = Some ?blob" "plain_field (sc_encode cd ?blob)"
    using assms(1) by (simp_all add: codec_ok_def)
  have access: "access_of tk (tk_primary tk) = Some Primary"
    using assms(2) by (simp add: access_of_def)
  have loaded: "load cr ?blob (ms_key st) = Inr rec"
    using assms(3,4) by (intro load_written assms(5)) simp_all
  have empty: "extend_same_key r rec = r" if "recovery_is_empty rec" for r
    using that by (simp add: extend_same_key_def recovery_is_empty_def)
  have "request_once cr cd tk (tk_primary tk) ''ADD'' (sc_encode cd ?blob) st = (?st, Inr (OK @ [NL]))"
  proof (rule request_served [OF access _ codec(2) assms(6)])
    show "plain_field ''ADD''" by (simp add: plain_field_def TAB_def NL_def)
    show "respond cr cd Primary [tk_primary tk, ''ADD'', sc_encode cd ?blob] st = (?st, Inr OK)"
      using empty by (simp add: respond_def add_recovery_request_def codec(1) loaded)
  qed (use response_of_parts(2) [of "[]"] in simp)
  then show ?thesis
    using response_of_parts(1) [of "[]"] by (simp add: client_add_recovery_def expect_ok_def)
qed

text \<open>
  C25. What one client adds another finds: after an addition, a snapshot returns the keys of the
  session and a map in which every handle of the added map stands for its value, and every other
  handle for what it stood for before.
\<close>

theorem snapshot_after_add:
  assumes "codec_ok cd" and "valid_request_token (tk_primary tk)" and "store_ok cr st"
    and "\<And>k v. length (hmac_sha256 cr k v) = 32"
    and "rc_memory_key rec = derive_memory_key cr (ms_key st)" and "map_fits (rc_map rec)"
    and "map_fits (rc_map (extend_same_key (ms_recovery st) rec))"
    and "length (request_line (tk_primary tk) ''ADD'' (sc_encode cd (serialize cr rec (ms_key st))))
      \<le> MAX_REQUEST_LINE_BYTES"
  shows "\<exists>st' snap. client_add_recovery cr cd tk (tk_primary tk) (ms_key st) rec st = (st', Inr ()) \<and>
    client_snapshot cr cd tk (tk_primary tk) st' = (st', Inr snap) \<and>
    ss_key snap = ms_key st \<and> ss_identity_key snap = ms_identity_key st \<and>
    (\<forall>ph. reveal cr (ss_recovery snap) ph =
       (if ph \<in> set (placeholders rec) then reveal cr rec ph else reveal cr (ms_recovery st) ph))"
proof -
  let ?st = "st\<lparr>ms_recovery := extend_same_key (ms_recovery st) rec\<rparr>"
  have add: "client_add_recovery cr cd tk (tk_primary tk) (ms_key st) rec st = (?st, Inr ())"
    using assms by (intro client_add_recovery_exact)
  have "store_ok cr ?st" using assms(3,7) by (simp add: store_ok_def extend_same_key_def)
  note snap = client_snapshot_exact [OF assms(1,2) this assms(4)]
  have "reveal cr (extend_same_key (ms_recovery st) rec) ph =
      (if ph \<in> set (placeholders rec) then reveal cr rec ph else reveal cr (ms_recovery st) ph)" for ph
    using assms(3,5,6) by (intro reveal_extended) (simp_all add: store_ok_def map_fits_def)
  with add snap show ?thesis by (intro exI conjI) (assumption | simp)+
qed


section \<open>The activity log and its readers\<close>

text \<open>
  What a reader does with the events it is given: it keeps the largest identifier as its cursor
  and asks again. The log is an interface: what a feed owes its readers is stated once.
\<close>

definition advance_cursor :: "(u64 \<times> str) list \<Rightarrow> u64 \<Rightarrow> u64" where
  "advance_cursor events cursor = fold (\<lambda>(i, _) c. max c i) events cursor"

fun follow_polls :: "nat \<Rightarrow> (u64 \<Rightarrow> (u64 \<times> str) list) \<Rightarrow> u64 \<Rightarrow> (u64 \<times> str) list" where
  "follow_polls 0 feed cursor = []"
| "follow_polls (Suc n) feed cursor =
     (let events = feed cursor in events @ follow_polls n feed (advance_cursor events cursor))"

lemma advance_cursor_sorted:
  assumes "sorted_wrt (<) (map fst events)" and "\<And>i. i \<in> fst ` set events \<Longrightarrow> cursor < i"
  shows "advance_cursor events cursor = (if events = [] then cursor else fst (last events))"
  using assms
proof (induction events arbitrary: cursor)
  case (Cons e es)
  obtain i t where e: "e = (i, t)" by (cases e)
  have "advance_cursor (e # es) cursor = advance_cursor es i"
    using Cons.prems(2) [of i] by (simp add: advance_cursor_def e max_def less_imp_le)
  also have "\<dots> = (if es = [] then i else fst (last es))"
    using Cons.prems by (intro Cons.IH) (auto simp: e)
  finally show ?case by (simp add: e)
qed (simp add: advance_cursor_def)

locale event_log =
  fixes ok :: "'s \<Rightarrow> bool"
    and entries :: "'s \<Rightarrow> (u64 \<times> str) list"
    and feed :: "'s \<Rightarrow> u64 \<Rightarrow> (u64 \<times> str) list"
    and limit :: nat
  assumes increasing: "ok s \<Longrightarrow> sorted_wrt (<) (map fst (entries s))"
    and feeds: "ok s \<Longrightarrow> feed s cursor = take limit (filter (\<lambda>(i, _). cursor < i) (entries s))"
begin

lemma rest_after:
  assumes "ok s"
  shows "filter (\<lambda>(i, _). advance_cursor (feed s cursor) cursor < i) (entries s) =
    drop limit (filter (\<lambda>(i, _). cursor < i) (entries s))"
proof -
  let ?xs = "filter (\<lambda>(i, _). cursor < i) (entries s)"
  have sorted: "sorted_wrt (\<lambda>x y. fst x < fst y) (entries s)"
    using increasing [OF assms] by (simp add: sorted_wrt_map)
  then have xs: "sorted_wrt (\<lambda>x y. fst x < fst y) ?xs" by (rule sorted_wrt_filter)
  let ?c = "advance_cursor (feed s cursor) cursor"
  have c: "?c = (if take limit ?xs = [] then cursor else fst (last (take limit ?xs)))"
    unfolding feeds [OF assms]
    by (rule advance_cursor_sorted) (use xs in \<open>auto simp: sorted_wrt_map sorted_wrt_take dest!: in_set_takeD\<close>)
  have low: "cursor \<le> ?c"
  proof (cases "take limit ?xs = []")
    case False
    then have "last (take limit ?xs) \<in> set ?xs" by (meson in_set_takeD last_in_set)
    with False c show ?thesis by (auto simp: less_imp_le)
  qed (simp add: c)
  have "filter (\<lambda>(i, _). ?c < i) (entries s) = filter (\<lambda>(i, _). ?c < i) ?xs"
    using low by (auto intro!: filter_cong)
  also have "\<dots> = filter (\<lambda>(i, _). ?c < i) (take limit ?xs) @ filter (\<lambda>(i, _). ?c < i) (drop limit ?xs)"
    by (simp flip: filter_append)
  also have "filter (\<lambda>(i, _). ?c < i) (take limit ?xs) = []"
  proof (cases "take limit ?xs = []")
    case False
    then obtain ys y where y: "take limit ?xs = ys @ [y]" by (metis rev_exhaust)
    have "sorted_wrt (\<lambda>x y. fst x < fst y) (ys @ [y])" using sorted_wrt_take [OF xs, of limit] y by simp
    then show ?thesis using c y by (auto simp: sorted_wrt_append filter_empty_conv)
  qed auto
  also have "filter (\<lambda>(i, _). ?c < i) (drop limit ?xs) = drop limit ?xs"
  proof (cases "take limit ?xs = []")
    case True
    then show ?thesis using c by (auto simp: filter_id_conv dest!: in_set_dropD)
  next
    case False
    have "sorted_wrt (\<lambda>x y. fst x < fst y) (take limit ?xs @ drop limit ?xs)" using xs by simp
    then have "\<forall>x \<in> set (drop limit ?xs). fst (last (take limit ?xs)) < fst x"
      using last_in_set [OF False] by (auto simp only: sorted_wrt_append)
    then show ?thesis using c False by (auto simp: filter_id_conv)
  qed
  finally show ?thesis by simp
qed

lemma follow_delivers:
  assumes "ok s"
  shows "follow_polls n (feed s) cursor = take (n * limit) (filter (\<lambda>(i, _). cursor < i) (entries s))"
proof (induction n arbitrary: cursor)
  case (Suc n)
  show ?case
    unfolding follow_polls.simps Let_def Suc.IH rest_after [OF assms]
    unfolding feeds [OF assms] by (simp add: take_add)
qed simp

end


text \<open>The store's log: identifiers grow, and only the newest events are kept.\<close>

definition activity_ok :: "store_state \<Rightarrow> bool" where
  "activity_ok st \<longleftrightarrow>
     sorted_wrt (<) (map fst (ms_activity st)) \<and>
     list_all (\<lambda>(i, _). i < ms_next_activity_id st) (ms_activity st) \<and>
     length (ms_activity st) \<le> MAX_ACTIVITY_EVENTS"

definition polled :: "crypto \<Rightarrow> store_codec \<Rightarrow> tokens \<Rightarrow> store_state \<Rightarrow> u64 \<Rightarrow> (u64 \<times> str) list" where
  "polled cr cd tk st cursor =
     (case client_poll_activity cr cd tk (tk_read tk) cursor st of (_, Inr events) \<Rightarrow> events | _ \<Rightarrow> [])"

definition reader_ok :: "store_codec \<Rightarrow> tokens \<Rightarrow> bool" where
  "reader_ok cd tk \<longleftrightarrow> codec_ok cd \<and> access_of tk (tk_read tk) = Some ProcessRead"

lemma show_nat_plain: "plain_field (show_nat n)"
  using show_nat_class [of n] by (auto simp: plain_field_def list_all_iff TAB_def NL_def ascii_class_defs)

lemma parse_u64_show: "n < 2 ^ 64 \<Longrightarrow> parse_u64_std (show_nat n) = Some n"
proof -
  assume n: "n < 2 ^ 64"
  have "CHR ''+'' \<notin> set (show_nat n)" by (rule show_nat_not_in) (simp add: ascii_class_defs)
  then have "(case show_nat n of c # r \<Rightarrow> if c = CHR ''+'' then r else show_nat n | [] \<Rightarrow> []) = show_nat n"
    by (cases "show_nat n") auto
  with n show ?thesis by (simp add: parse_u64_std_def read_digits_show_nat)
qed

lemma client_poll_exact:
  assumes "reader_ok cd tk"
  shows "client_poll_activity cr cd tk (tk_read tk) cursor st = (st, Inr (events_after cursor st))"
proof -
  let ?events = "sc_encode cd (sc_events cd (events_after cursor st))"
  have codec: "sc_decode cd ?events = Some (sc_events cd (events_after cursor st))" "plain_field ?events"
    "sc_read_events cd (sc_events cd (events_after cursor st)) = Some (events_after cursor st)"
    using assms by (simp_all add: reader_ok_def codec_ok_def)
  have plain: "list_all plain_field [?events]" using codec(2) by simp
  have access: "access_of tk (tk_read tk) = Some ProcessRead" using assms by (simp add: reader_ok_def)
  then have len: "length (tk_read tk) = 64"
    by (auto simp: access_of_def valid_request_token_def valid_runtime_token_def TOKEN_BYTES_def split: if_splits)
  have small: "unat cursor < 2 ^ 64" using unsigned_less [of cursor] by simp
  then have "length (show_nat (unat cursor)) \<le> 20" by (intro length_show_nat) simp_all
  then have short: "length (request_line (tk_read tk) ''LOGS'' (show_nat (unat cursor))) \<le> MAX_REQUEST_LINE_BYTES"
    by (simp add: request_line_def len MAX_REQUEST_LINE_BYTES_def)
  have "request_once cr cd tk (tk_read tk) ''LOGS'' (show_nat (unat cursor)) st =
      (st, Inr (join_on TAB [OK, ?events] @ [NL]))"
  proof (rule request_served [OF access _ show_nat_plain short])
    show "plain_field ''LOGS''" by (simp add: plain_field_def TAB_def NL_def)
    show "respond cr cd ProcessRead [tk_read tk, ''LOGS'', show_nat (unat cursor)] st =
        (st, Inr (join_on TAB [OK, ?events]))"
      using parse_u64_show [OF small] by (simp add: respond_def activity_response_def)
  qed (rule response_of_parts(2) [OF plain])
  then show ?thesis
    using response_of_parts(1) [OF plain] codec
    by (simp add: client_poll_activity_def decode_activity_response_def del: join_on.simps)
qed

interpretation store_log: event_log
  "\<lambda>st. activity_ok st \<and> reader_ok cd tk" ms_activity "polled cr cd tk" MAX_ACTIVITY_POLL_EVENTS
  for cr cd tk
  by unfold_locales (auto simp: activity_ok_def polled_def client_poll_exact events_after_def)

text \<open>Any interleaving of the requests of any connections.\<close>

definition run_reads ::
    "crypto \<Rightarrow> store_codec \<Rightarrow> tokens \<Rightarrow> (bool \<times> connection_read) list \<Rightarrow> store_state \<Rightarrow> store_state" where
  "run_reads cr cd tk rs = fold (\<lambda>(lease, r) st. fst (handle_read cr cd tk r lease st)) rs"

lemma push_activity_ok:
  assumes "activity_ok st" and "ms_next_activity_id st \<noteq> -1"
  shows "activity_ok (push_activity event st)"
    and "ms_next_activity_id (push_activity event st) = ms_next_activity_id st + 1"
proof -
  let ?n = "ms_next_activity_id st"
  have "1 + ?n \<noteq> 0" using assms(2) by (metis add.commute eq_neg_iff_add_eq_0)
  then have up: "?n < ?n + 1" using unatSuc [of ?n] by (simp add: word_less_nat_alt add.commute)
  then show more: "ms_next_activity_id (push_activity event st) = ?n + 1"
    using less_not_sym [OF up] by (simp only: push_activity_def sat_add_def Let_def) simp
  define log where "log = ms_activity st @ [(?n, event)]"
  have sorted: "sorted_wrt (<) (map fst log)" and low: "list_all (\<lambda>(i, _). i < ?n + 1) log"
    using assms(1) up by (auto simp: log_def activity_ok_def sorted_wrt_append list_all_iff intro: less_trans)
  have "sorted_wrt (<) (map fst (drop k log))" for k using sorted_wrt_drop [OF sorted] by (simp add: drop_map)
  moreover have "list_all (\<lambda>(i, _). i < ?n + 1) (drop k log)" for k
    using low by (auto simp: list_all_iff dest!: in_set_dropD)
  moreover have "ms_activity (push_activity event st) = drop (length log - MAX_ACTIVITY_EVENTS) log"
    by (simp add: push_activity_def log_def Let_def)
  ultimately show "activity_ok (push_activity event st)" by (simp add: activity_ok_def more)
qed

definition log_grows :: "store_state \<Rightarrow> store_state \<Rightarrow> bool" where
  "log_grows st st' \<longleftrightarrow> same_log st' st \<or> (\<exists>event. st' = push_activity event st)"

lemma log_grows_same [simp]: "same_log st' st \<Longrightarrow> log_grows st st'" "log_grows st st"
  by (simp_all add: log_grows_def same_log_def)

lemma requests_grow [simp]:
  "log_grows st (fst (add_recovery_request cr cd payload st))"
  "log_grows st (fst (add_masked_count_request payload st))"
  "log_grows st (fst (add_activity_request cd payload st))"
proof -
  show "log_grows st (fst (add_recovery_request cr cd payload st))"
    by (rule log_grows_same) (simp add: add_recovery_request_def same_log_def split: option.split sum.split)
  show "log_grows st (fst (add_masked_count_request payload st))"
    by (rule log_grows_same) (simp add: add_masked_count_request_def same_log_def split: option.split)
  have "log_grows st (push_activity event st)" for event by (auto simp: log_grows_def)
  then show "log_grows st (fst (add_activity_request cd payload st))"
    by (simp add: add_activity_request_def split: option.split)
qed

lemma respond_activity: "log_grows st (fst (respond cr cd access parts st))"
proof (cases "\<exists>token command payload. parts = [token, command, payload]")
  case True
  then obtain token command payload where "parts = [token, command, payload]" by blast
  then show ?thesis by (simp add: respond_def)
next
  case False
  then have "respond cr cd access parts st = (st, Inl ''malformed request'')"
    by (auto simp: respond_def split: list.split)
  then show ?thesis by simp
qed

lemma handle_activity:
  assumes "activity_ok st" and "ms_next_activity_id st \<noteq> -1"
  shows "activity_ok (fst (handle_read cr cd tk r lease st)) \<and>
    ms_next_activity_id (fst (handle_read cr cd tk r lease st)) \<in> {ms_next_activity_id st, ms_next_activity_id st + 1}"
proof -
  let ?st = "fst (handle_read cr cd tk r lease st)"
  have "log_grows st ?st"
  proof (cases r)
    case (ReadLine line)
    then show ?thesis
      using respond_activity [of st cr cd _ "request_fields line"]
      by (auto simp: Let_def case_prod_beta split: option.split)
  qed simp_all
  then show ?thesis
    using push_activity_ok [OF assms] assms(1) by (auto simp: log_grows_def same_log_def activity_ok_def)
qed

lemma run_reads_ok:
  assumes "activity_ok st" and "unat (ms_next_activity_id st) + length rs < 2 ^ 64"
  shows "activity_ok (run_reads cr cd tk rs st)"
  using assms
proof (induction rs arbitrary: st)
  case (Cons r rs)
  obtain lease c where r: "r = (lease, c)" by (cases r)
  let ?st = "fst (handle_read cr cd tk c lease st)"
  have "ms_next_activity_id st \<noteq> -1"
    using Cons.prems(2) by (auto simp: unsigned_minus_1_eq_mask mask_eq_exp_minus_1)
  note step = handle_activity [OF Cons.prems(1) this, of cr cd tk c lease]
  have "unat (ms_next_activity_id st + 1) \<le> unat (ms_next_activity_id st) + 1"
    using unat_plus_if' [of "ms_next_activity_id st" 1] by (simp split: if_splits)
  with step Cons.prems(2) have "unat (ms_next_activity_id ?st) + length rs < 2 ^ 64" by auto
  with step Cons.IH show ?case by (auto simp: run_reads_def r)
qed (simp add: run_reads_def)

text \<open>
  C22. Readers of the activity log miss nothing and see nothing twice: after any interleaving of
  requests the identifiers grow along the log, the log holds at most 4096 events, and a reader that
  keeps polling from its cursor is given exactly the events after it, in their order, 256 at a time.
\<close>

theorem activity_log_followed:
  assumes "reader_ok cd tk" and "length rs < 2 ^ 64 - 1"
    and "st = run_reads cr cd tk rs (new_store cr key identity_key)"
  shows "sorted_wrt (<) (map fst (ms_activity st)) \<and> length (ms_activity st) \<le> MAX_ACTIVITY_EVENTS \<and>
    follow_polls n (polled cr cd tk st) cursor =
      take (n * MAX_ACTIVITY_POLL_EVENTS) (filter (\<lambda>(i, _). cursor < i) (ms_activity st))"
proof -
  have "activity_ok (new_store cr key identity_key)" by (simp add: activity_ok_def new_store_def)
  then have ok: "activity_ok st"
    using assms(2) unfolding assms(3) by (intro run_reads_ok) (simp_all add: new_store_def)
  then show ?thesis
    using store_log.follow_delivers [where s = st and cd = cd and tk = tk] assms(1) by (simp add: activity_ok_def)
qed


section \<open>Admitting connections\<close>

text \<open>
  The counter of \<open>ConnectionPermit\<close>, the connections that hold a permit, and whether the accept
  loop, which is one thread, is about to take a refused increment back. Permits are released by
  other threads at any time.
\<close>

record permits =
  pm_active :: u64
  pm_holders :: nat
  pm_refusing :: bool

inductive permit_step :: "permits \<Rightarrow> permits \<Rightarrow> bool" where
  admit: "\<not> pm_refusing p \<Longrightarrow> pm_active p < word_of_nat MAX_CLIENT_CONNECTIONS \<Longrightarrow>
    permit_step p (p\<lparr>pm_active := pm_active p + 1, pm_holders := pm_holders p + 1\<rparr>)"
| refuse: "\<not> pm_refusing p \<Longrightarrow> \<not> pm_active p < word_of_nat MAX_CLIENT_CONNECTIONS \<Longrightarrow>
    permit_step p (p\<lparr>pm_active := pm_active p + 1, pm_refusing := True\<rparr>)"
| undo: "pm_refusing p \<Longrightarrow>
    permit_step p (p\<lparr>pm_active := pm_active p - 1, pm_refusing := False\<rparr>)"
| release: "0 < pm_holders p \<Longrightarrow>
    permit_step p (p\<lparr>pm_active := pm_active p - 1, pm_holders := pm_holders p - 1\<rparr>)"

definition no_permits :: permits where
  "no_permits = \<lparr>pm_active = 0, pm_holders = 0, pm_refusing = False\<rparr>"

definition permits_ok :: "permits \<Rightarrow> bool" where
  "permits_ok p \<longleftrightarrow>
     pm_holders p \<le> MAX_CLIENT_CONNECTIONS \<and>
     unat (pm_active p) = pm_holders p + (if pm_refusing p then 1 else 0)"

lemma unat_bump:
  fixes w :: u64
  shows "unat w \<le> 64 \<Longrightarrow> unat (w + 1) = unat w + 1" and "0 < unat w \<Longrightarrow> unat (w - 1) = unat w - 1"
proof -
  show "unat w \<le> 64 \<Longrightarrow> unat (w + 1) = unat w + 1" using unat_plus_if' [of w 1] by simp
  show "0 < unat w \<Longrightarrow> unat (w - 1) = unat w - 1" by (rule unat_minus_one) auto
qed

lemma permit_step_ok: "permit_step p q \<Longrightarrow> permits_ok p \<Longrightarrow> permits_ok q"
proof (induction rule: permit_step.induct)
  case (admit p)
  then show ?case
    using unat_bump(1) [of "pm_active p"]
    by (simp add: permits_ok_def MAX_CLIENT_CONNECTIONS_def word_less_nat_alt)
next
  case (refuse p)
  then show ?case
    using unat_bump(1) [of "pm_active p"]
    by (simp add: permits_ok_def MAX_CLIENT_CONNECTIONS_def word_less_nat_alt)
next
  case (undo p)
  then show ?case using unat_bump(2) [of "pm_active p"] by (simp add: permits_ok_def)
next
  case (release p)
  then show ?case using unat_bump(2) [of "pm_active p"] by (auto simp: permits_ok_def)
qed

text \<open>
  C17. However accepting and closing interleave, at most 32 connections are served at a time, the
  counter never wraps, and a connection is refused only while 32 are being served.
\<close>

theorem permits_exact:
  assumes "permit_step\<^sup>*\<^sup>* no_permits p"
  shows "pm_holders p \<le> MAX_CLIENT_CONNECTIONS \<and>
    unat (pm_active p) = pm_holders p + (if pm_refusing p then 1 else 0) \<and>
    (\<forall>q. permit_step p q \<and> pm_refusing q \<and> \<not> pm_refusing p \<longrightarrow> pm_holders p = MAX_CLIENT_CONNECTIONS)"
proof -
  have ok: "permits_ok p"
    using assms 
  proof (induction rule: rtranclp_induct)
    case base
    show ?case by (simp add: permits_ok_def no_permits_def)
  qed (rule permit_step_ok)
  have "pm_holders p = MAX_CLIENT_CONNECTIONS" if "permit_step p q" "pm_refusing q" "\<not> pm_refusing p" for q
    using that ok
    by (cases rule: permit_step.cases) (auto simp: permits_ok_def MAX_CLIENT_CONNECTIONS_def word_less_nat_alt)
  with ok show ?thesis unfolding permits_ok_def by blast
qed



section \<open>Examples\<close>

definition example_encode_events :: "(u64 \<times> str) list \<Rightarrow> str" where
  "example_encode_events events =
     concat (map (\<lambda>(i, s). show_nat (unat i) @ TAB # encode_full_hash s @ [NL]) events)"

definition example_decode_event :: "str \<Rightarrow> u64 \<times> str" where
  "example_decode_event s =
     (case split_on TAB s of
        [i, t] \<Rightarrow> (word_of_nat (the (parse_u64_std i)), the (hex_decode t)) | _ \<Rightarrow> (0, []))"

definition example_store_codec :: store_codec where
  "example_store_codec =
     \<lparr>sc_encode = encode_full_hash, sc_decode = hex_decode, sc_json_value = (\<lambda>s. True),
      sc_events = example_encode_events,
      sc_read_events = (\<lambda>s. Some (map example_decode_event (butlast (split_on NL s))))\<rparr>"

lemma example_event_decoded: "example_decode_event (show_nat (unat i) @ TAB # encode_full_hash s) = (i, s)"
  using parse_u64_show [of "unat i"] unsigned_less [of i, where ?'a = nat]
  by (simp add: example_decode_event_def split_fields show_nat_plain key_plain hex_decode_encode)

lemma example_events_decoded:
  "map example_decode_event (butlast (split_on NL (example_encode_events events))) = events"
proof (induction events)
  case (Cons e events)
  obtain i s where e: "e = (i, s)" by (cases e)
  have "NL \<notin> set (show_nat (unat i) @ TAB # encode_full_hash s)"
    using show_nat_plain [of "unat i"] key_plain [of s] by (auto simp: plain_field_def TAB_def NL_def)
  from split_on_first [OF this, of "example_encode_events events"]
  have "split_on NL (example_encode_events (e # events)) =
      (show_nat (unat i) @ TAB # encode_full_hash s) # split_on NL (example_encode_events events)"
    by (simp add: example_encode_events_def e)
  then show ?case using Cons split_on_not_Nil example_event_decoded by (simp add: e)
qed (simp add: example_encode_events_def)

lemma example_store_codec_ok: "codec_ok example_store_codec"
  by (simp add: codec_ok_def example_store_codec_def hex_decode_encode key_plain example_events_decoded)

definition example_tokens :: tokens where
  "example_tokens =
     \<lparr>tk_primary = replicate 64 (CHR ''a''), tk_read = replicate 64 (CHR ''b''),
      tk_write = replicate 64 (CHR ''c'')\<rparr>"

lemma example_tokens_ok:
  "valid_request_token (tk_primary example_tokens)" "reader_ok example_store_codec example_tokens"
  using example_store_codec_ok
  by (simp_all add: valid_request_token_def valid_runtime_token_def TOKEN_BYTES_def example_tokens_def
      ascii_class_defs reader_ok_def access_of_def list_all_iff)

definition example_key :: str where
  "example_key = replicate 32 (CHR ''k'')"

definition example_recovery :: recovery where
  "example_recovery = seal example_crypto [(''<<X_0123456789abcdef>>'', ''secret'')] example_key"

lemma snapshot_after_add_witness:
  "\<exists>st snap. client_add_recovery example_crypto example_store_codec example_tokens (tk_primary example_tokens)
      example_key example_recovery (new_store example_crypto example_key example_key) = (st, Inr ()) \<and>
    client_snapshot example_crypto example_store_codec example_tokens (tk_primary example_tokens) st = (st, Inr snap) \<and>
    reveal example_crypto (ss_recovery snap) ''<<X_0123456789abcdef>>'' = Some ''secret''"
proof -
  let ?st = "new_store example_crypto example_key example_key"
  have valid: "utf8_valid ''<<X_0123456789abcdef>>''" by code_simp
  have fits: "map_fits (rc_map example_recovery)"
    using valid by (simp add: map_fits_def example_recovery_def seal_def Let_def serialize_body_def
        length_prefixed_def to_le_bytes_def length_crypt [OF keystream_ok_example])
  have state: "ms_key ?st = example_key" "ms_recovery ?st = empty_for_key example_crypto example_key"
    by (simp_all add: new_store_def)
  have ok: "store_ok example_crypto ?st"
    by (simp add: store_ok_def new_store_def example_key_def empty_for_key_def map_fits_def serialize_body_def
        to_le_bytes_def)
  have hmac: "length (hmac_sha256 example_crypto k v) = 32" for k v
    by (simp add: example_crypto_def example_hmac_def)
  have same: "rc_memory_key example_recovery = derive_memory_key example_crypto (ms_key ?st)"
    by (simp add: example_recovery_def seal_def state Let_def)
  have combined: "map_fits (rc_map (extend_same_key (ms_recovery ?st) example_recovery))"
    using fits by (simp add: state extend_same_key_def empty_for_key_def example_recovery_def seal_def Let_def)
  have short: "length (request_line (tk_primary example_tokens) ''ADD''
      (sc_encode example_store_codec (serialize example_crypto example_recovery (ms_key ?st)))) \<le> MAX_REQUEST_LINE_BYTES"
    by (simp add: request_line_def example_tokens_def example_store_codec_def length_encode_full_hash serialize_def
        mac_def Let_def example_crypto_def example_hmac_def MAGIC_def example_recovery_def seal_def serialize_body_def length_prefixed_def
        to_le_bytes_def crypt_memory_value_def MAX_REQUEST_LINE_BYTES_def)
  have key: "placeholders example_recovery = [''<<X_0123456789abcdef>>'']"
    "reveal example_crypto example_recovery ''<<X_0123456789abcdef>>'' = Some ''secret''"
  proof -
    have "utf8_valid ''secret''" by code_simp
    then show "reveal example_crypto example_recovery ''<<X_0123456789abcdef>>'' = Some ''secret''"
      by (simp add: example_recovery_def reveal_seal [OF keystream_ok_example])
  qed (simp add: example_recovery_def placeholders_def seal_def Let_def)
  from snapshot_after_add [OF example_store_codec_ok example_tokens_ok(1) ok hmac same fits combined short]
  show ?thesis unfolding state key(1) by (auto simp: key(2))
qed

lemma foreign_connection_learns_nothing_witness:
  "\<exists>st1 st2 out c. serve example_crypto example_store_codec example_tokens
      [ReadLine (replicate 64 (CHR ''b'') @ TAB # ''KEY'' @ [TAB, NL])] False
      (new_store example_crypto example_key example_key) = (st1, out, c) \<and>
    serve example_crypto example_store_codec example_tokens
      [ReadLine (replicate 64 (CHR ''b'') @ TAB # ''KEY'' @ [TAB, NL])] False
      (new_store example_crypto [] []) = (st2, out, c) \<and> c \<noteq> ProcessExit"
proof -
  let ?rs = "[ReadLine (replicate 64 (CHR ''b'') @ TAB # ''KEY'' @ [TAB, NL])]"
  have "request_fields (replicate 64 (CHR ''b'') @ TAB # ''KEY'' @ TAB # [] @ [NL]) = [replicate 64 (CHR ''b''), ''KEY'', []]"
    by (rule fields_joined) (auto simp: plain_field_def TAB_def NL_def)
  then have "list_all (foreign example_tokens) ?rs" by (simp add: example_tokens_def)
  moreover have "same_log (new_store example_crypto example_key example_key) (new_store example_crypto [] [])"
    by (simp add: same_log_def new_store_def)
  moreover obtain st1 out c where "serve example_crypto example_store_codec example_tokens ?rs False
      (new_store example_crypto example_key example_key) = (st1, out, c)" by (metis prod_cases3)
  ultimately show ?thesis
    using foreign_connection_learns_nothing [of example_crypto example_store_codec example_tokens ?rs _ st1 out c]
    by blast
qed

definition example_log_request :: connection_read where
  "example_log_request = ReadLine (request_line (tk_write example_tokens) ''LOG_ADD'' (encode_full_hash ''{}''))"

lemma example_logged:
  "run_reads example_crypto example_store_codec example_tokens [(False, example_log_request)] st =
     push_activity ''{}'' st"
proof -
  let ?w = "tk_write example_tokens"
  have access: "access_of example_tokens ?w = Some ProcessWrite"
    by (simp add: access_of_def valid_request_token_def valid_runtime_token_def TOKEN_BYTES_def
        example_tokens_def ascii_class_defs list_all_iff)
  have "plain_field ?w" "plain_field ''LOG_ADD''"
    by (auto simp: plain_field_def example_tokens_def TAB_def NL_def)
  then have parts: "request_fields (request_line ?w ''LOG_ADD'' (encode_full_hash ''{}'')) =
      [?w, ''LOG_ADD'', encode_full_hash ''{}'']"
    unfolding request_line_def by (intro fields_joined key_plain)
  have "length (request_line ?w ''LOG_ADD'' (encode_full_hash ''{}'')) \<le> MAX_REQUEST_LINE_BYTES"
    by (simp add: request_line_def example_tokens_def length_encode_full_hash MAX_REQUEST_LINE_BYTES_def)
  moreover have "utf8_valid ''{}''" by code_simp
  moreover have "sc_decode example_store_codec (encode_full_hash ''{}'') = Some ''{}''"
    "sc_json_value example_store_codec ''{}''"
    by (simp_all add: example_store_codec_def hex_decode_encode)
  ultimately show ?thesis
    using access parts
    by (simp add: run_reads_def example_log_request_def Let_def respond_def add_activity_request_def
        MAX_ACTIVITY_EVENT_BYTES_def)
qed

lemma activity_log_followed_witness:
  "follow_polls 1 (polled example_crypto example_store_codec example_tokens
      (run_reads example_crypto example_store_codec example_tokens [(False, example_log_request)]
        (new_store example_crypto example_key example_key))) 0 = [(1, ''{}'')]"
  using activity_log_followed [OF example_tokens_ok(2), of "[(False, example_log_request)]" _ example_crypto
      example_key example_key 1 0]
  by (simp add: example_logged push_activity_def new_store_def MAX_ACTIVITY_EVENTS_def MAX_ACTIVITY_POLL_EVENTS_def
      del: follow_polls.simps)

lemma permits_exact_witness:
  "unat (pm_active (no_permits\<lparr>pm_active := 1, pm_holders := 1\<rparr>)) = 1"
proof -
  have "permit_step no_permits (no_permits\<lparr>pm_active := pm_active no_permits + 1, pm_holders := pm_holders no_permits + 1\<rparr>)"
    by (rule permit_step.admit) (simp_all add: no_permits_def MAX_CLIENT_CONNECTIONS_def)
  then have "permit_step\<^sup>*\<^sup>* no_permits (no_permits\<lparr>pm_active := 1, pm_holders := 1\<rparr>)"
    by (simp add: no_permits_def r_into_rtranclp)
  from permits_exact [OF this] show ?thesis by (simp add: no_permits_def)
qed

end
