(* ===== verification/Terminal.thy ===== *)
theory Terminal
  imports Store
begin

text \<open>
  \<open>crates/pentect-runtime/src/output_remask.rs\<close>: re-masking of terminal output. A parser splits the
  bytes of a program into text, styling and other control sequences, and hands them to the stream
  re-masker; control strings are searched too, and the keyboard modes of a full-screen program are
  kept in a frame of their own.
\<close>


section \<open>Control sequences\<close>

definition ESC :: byte where
  "ESC = CHR 0x1B"

definition MAX_PENDING_CONTROL_BYTES :: nat where
  "MAX_PENDING_CONTROL_BYTES = 1024 * 1024"

definition utf8_sequence_width :: "byte \<Rightarrow> nat option" where
  "utf8_sequence_width b =
     (if byte_between 194 223 b then Some 2
      else if byte_between 224 239 b then Some 3
      else if byte_between 240 244 b then Some 4
      else None)"

definition is_terminal_control :: "byte \<Rightarrow> bool" where
  "is_terminal_control b \<longleftrightarrow>
     code b < 32 \<and> b \<notin> {CHR 0x0D, CHR 0x0A, CHR 0x09} \<or> code b = 127 \<or> byte_between 128 159 b"

definition csi_final :: "byte \<Rightarrow> bool" where
  "csi_final b \<longleftrightarrow> byte_between 64 126 b"

text \<open>The functions that search from an offset work on what is left from there.\<close>

definition csi_end :: "str \<Rightarrow> nat option" where
  "csi_end s = (let n = length (takeWhile (\<lambda>b. \<not> csi_final b) s) in if n < length s then Some n else None)"

definition csi_body :: "str \<Rightarrow> str option" where
  "csi_body sequence =
     (case strip_prefix [ESC, CHR ''[''] sequence of
        Some body \<Rightarrow> Some body
      | None \<Rightarrow> strip_prefix [CHR 0x9B] sequence)"

definition is_sgr :: "str \<Rightarrow> bool" where
  "is_sgr sequence \<longleftrightarrow>
     (case Option.bind (csi_body sequence) (strip_suffix ''m'') of
        None \<Rightarrow> False
      | Some body \<Rightarrow> list_all (\<lambda>b. is_ascii_digit b \<or> b = CHR '';'' \<or> b = CHR '':'') body)"

definition alternate_screen_change :: "str \<Rightarrow> bool option" where
  "alternate_screen_change sequence =
     do {
       body \<leftarrow> csi_body sequence;
       (parameters, enabled) \<leftarrow>
         (if body = [] then None
          else if last body = CHR ''h'' then Some (butlast body, True)
          else if last body = CHR ''l'' then Some (butlast body, False)
          else None);
       parameters \<leftarrow> strip_prefix ''?'' parameters;
       if list_ex (\<lambda>p. p = ''47'' \<or> p = ''1047'' \<or> p = ''1049'') (split_on (CHR '';'') parameters)
       then Some enabled else None
     }"

fun decimal_loop :: "nat \<Rightarrow> str \<Rightarrow> nat option" where
  "decimal_loop v [] = Some v"
| "decimal_loop v (b # bs) =
     (if is_ascii_digit b
      then decimal_loop (sat_add_usize (min (v * 10) (2 ^ 64 - 1)) (code b - 48)) bs else None)"

definition parse_decimal :: "str \<Rightarrow> nat option" where
  "parse_decimal s = (if s = [] then None else decimal_loop 0 s)"

datatype kitty_stack_change = KittyPush | KittyPop nat

definition kitty_change :: "str \<Rightarrow> kitty_stack_change option" where
  "kitty_change sequence =
     do {
       body \<leftarrow> csi_body sequence;
       body \<leftarrow> strip_suffix ''u'' body;
       if body = [] then None
       else if hd body = CHR ''>'' then Some KittyPush
       else if hd body = CHR ''<''
       then Some (KittyPop (max (case parse_decimal (tl body) of Some n \<Rightarrow> n | None \<Rightarrow> 1) 1))
       else None
     }"

definition kitty_pop :: "nat \<Rightarrow> str" where
  "kitty_pop depth =
     (if depth = 1 then ESC # ''[<u'' else ESC # ''[<'' @ show_nat depth @ ''u'')"

definition continuations :: "str \<Rightarrow> bool" where
  "continuations s \<longleftrightarrow> list_all is_continuation s"

text \<open>What the searches see at a byte: a whole character, one that is cut off, or neither.\<close>

datatype lead = Stray | CutOff | Whole nat

definition lead_of :: "str \<Rightarrow> lead" where
  "lead_of s =
     (case utf8_sequence_width (hd s) of
        None \<Rightarrow> Stray
      | Some width \<Rightarrow>
          if length s < width then CutOff
          else if continuations (subtext s 1 width) then Whole width else Stray)"

lemma lead_width: "lead_of s = Whole w \<Longrightarrow> 2 \<le> w \<and> w \<le> length s"
  by (auto simp: lead_of_def utf8_sequence_width_def split: if_splits option.splits)

text \<open>
  The end of the payload and of the terminator of a control string; a character that is cut off
  ends the search.
\<close>

function control_end :: "(byte \<Rightarrow> bool) \<Rightarrow> str \<Rightarrow> nat \<Rightarrow> (nat \<times> nat) option" where
  "control_end ends s i =
     (if s = [] then None
      else
        (case lead_of s of
           CutOff \<Rightarrow> None
         | Whole w \<Rightarrow> control_end ends (drop w s) (i + w)
         | Stray \<Rightarrow>
             if ends (hd s) then Some (i, i + 1)
             else if hd s = ESC \<and> byte_at s 1 = Some (CHR 0x5C) then Some (i, i + 2)
             else control_end ends (tl s) (i + 1)))"
  by pat_completeness auto
termination
  by (relation "measure (\<lambda>(ends, s, i). length s)") (auto dest: lead_width)

declare control_end.simps [simp del]

definition osc_end :: "str \<Rightarrow> (nat \<times> nat) option" where
  "osc_end s = control_end (\<lambda>b. b = CHR 0x07 \<or> b = CHR 0x9C) s 0"

definition string_control_end :: "str \<Rightarrow> (nat \<times> nat) option" where
  "string_control_end s = control_end (\<lambda>b. b = CHR 0x9C) s 0"

text \<open>The candidates for a cut-off character are tried from the last byte on, three at most.\<close>

definition cut_char :: "str \<Rightarrow> nat \<Rightarrow> bool" where
  "cut_char s i \<longleftrightarrow>
     (case utf8_sequence_width (s ! i) of
        None \<Rightarrow> False
      | Some width \<Rightarrow> length s - i < width \<and> continuations (drop (i + 1) s))"

definition incomplete_utf8_suffix_len :: "str \<Rightarrow> nat" where
  "incomplete_utf8_suffix_len s =
     (case find (cut_char s) (rev [length s - 3..<length s]) of
        Some i \<Rightarrow> length s - i
      | None \<Rightarrow> 0)"

definition streamable_control_payload_len :: "str \<Rightarrow> nat" where
  "streamable_control_payload_len s =
     length s - max (incomplete_utf8_suffix_len s) (if s \<noteq> [] \<and> last s = ESC then 1 else 0)"

function text_run_end :: "str \<Rightarrow> nat" where
  "text_run_end s =
     (if s = [] then 0
      else if hd s = ESC \<or> is_terminal_control (hd s) then 0
      else
        (case lead_of s of
           CutOff \<Rightarrow> 0
         | Whole w \<Rightarrow> w + text_run_end (drop w s)
         | Stray \<Rightarrow> Suc (text_run_end (tl s))))"
  by pat_completeness auto
termination
  by (relation "measure length") (auto dest: lead_width)

declare text_run_end.simps [simp del]


section \<open>The parser\<close>

datatype string_control = Osc | OtherString

text \<open>
  The state of the parser, apart from the bytes it keeps and the re-masker. One round of the loop
  of \<open>push\<close> gives the calls of the re-masker it makes, the next state and the bytes left; nothing
  when it has to wait for more.
\<close>

record parser_state =
  tp_string :: "string_control option"
  tp_alternate :: bool
  tp_depth :: nat

definition push_csi :: "str \<Rightarrow> parser_state \<Rightarrow> stream_event list \<times> parser_state" where
  "push_csi sequence p =
     (let (events, p) =
            (case alternate_screen_change sequence of
               Some True \<Rightarrow>
                 if tp_alternate p then ([Boundary sequence], p)
                 else ([Boundary sequence, Boundary (ESC # ''[>0u'')], p\<lparr>tp_alternate := True, tp_depth := 1\<rparr>)
             | Some False \<Rightarrow>
                 ((if tp_alternate p \<and> 0 < tp_depth p then [Boundary (kitty_pop (tp_depth p))] else []) @
                  [Boundary sequence],
                  p\<lparr>tp_alternate := False, tp_depth := 0\<rparr>)
             | None \<Rightarrow> ([if is_sgr sequence then Control sequence else Boundary sequence], p))
      in (events,
          if tp_alternate p
          then (case kitty_change sequence of
                  Some KittyPush \<Rightarrow> p\<lparr>tp_depth := sat_add_usize (tp_depth p) 1\<rparr>
                | Some (KittyPop n) \<Rightarrow> p\<lparr>tp_depth := tp_depth p - n\<rparr>
                | None \<Rightarrow> p)
          else p))"

definition csi_step :: "nat \<Rightarrow> str \<Rightarrow> parser_state \<Rightarrow> (stream_event list \<times> parser_state \<times> str) option" where
  "csi_step introducer s p =
     (case csi_end (drop introducer s) of
        None \<Rightarrow> None
      | Some n \<Rightarrow>
          (let e = introducer + n + 1; (events, p) = push_csi (take e s) p
           in Some (events, p, drop e s)))"

definition open_string :: "nat \<Rightarrow> string_control \<Rightarrow> str \<Rightarrow> parser_state \<Rightarrow>
    (stream_event list \<times> parser_state \<times> str) option" where
  "open_string n kind s p = Some ([Boundary (take n s)], p\<lparr>tp_string := Some kind\<rparr>, drop n s)"

definition string_step :: "string_control \<Rightarrow> str \<Rightarrow> parser_state \<Rightarrow>
    (stream_event list \<times> parser_state \<times> str) option" where
  "string_step kind s p =
     (case (case kind of Osc \<Rightarrow> osc_end s | OtherString \<Rightarrow> string_control_end s) of
        Some (payload_end, sequence_end) \<Rightarrow>
          Some ([Text (take payload_end s), Boundary (subtext s payload_end sequence_end)],
            p\<lparr>tp_string := None\<rparr>, drop sequence_end s)
      | None \<Rightarrow>
          (let safe_end = streamable_control_payload_len s
           in if safe_end = 0 then None
              else Some ([Text (take safe_end s)], p, drop safe_end s)))"

definition parser_step :: "str \<Rightarrow> parser_state \<Rightarrow> (stream_event list \<times> parser_state \<times> str) option" where
  "parser_step s p =
     (case tp_string p of
        Some kind \<Rightarrow> string_step kind s p
      | None \<Rightarrow>
          let b = hd s
          in if b = ESC then
               (case byte_at s 1 of
                  None \<Rightarrow> None
                | Some c \<Rightarrow>
                    if c = CHR ''['' then csi_step 2 s p
                    else if c = CHR '']'' then open_string 2 Osc s p
                    else if c \<in> {CHR ''P'', CHR ''X'', CHR ''^'', CHR ''_''} then open_string 2 OtherString s p
                    else Some ([Boundary (take 2 s)], p, drop 2 s))
             else if b = CHR 0x9B then csi_step 1 s p
             else if b = CHR 0x9D then open_string 1 Osc s p
             else if b \<in> {CHR 0x90, CHR 0x98, CHR 0x9E, CHR 0x9F} then open_string 1 OtherString s p
             else if is_terminal_control b then Some ([Boundary (take 1 s)], p, drop 1 s)
             else
               (let e = text_run_end s
                in if e = 0 then None else Some ([Text (take e s)], p, drop e s)))"

lemma control_end_bound:
  "control_end ends s i = Some (a, b) \<Longrightarrow> i \<le> a \<and> a < b \<and> b \<le> i + length s"
proof (induction ends s i rule: control_end.induct)
  case (1 ends s i)
  from "1.prems" have s: "s \<noteq> []" by (subst (asm) control_end.simps) (auto split: if_splits)
  show ?case
  proof (cases "lead_of s")
    case Stray
    show ?thesis
    proof (cases "ends (hd s) \<or> hd s = ESC \<and> byte_at s 1 = Some (CHR 0x5C)")
      case True
      with "1.prems" s Stray show ?thesis
        by (subst (asm) control_end.simps) (auto simp: byte_at_def Suc_leI split: if_splits)
    next
      case False
      with "1.prems" s Stray have "control_end ends (tl s) (i + 1) = Some (a, b)"
        by (subst (asm) control_end.simps) auto
      with "1.IH"(1) False s Stray have "i + 1 \<le> a \<and> a < b \<and> b \<le> i + 1 + length (tl s)" by auto
      with s show ?thesis by (cases s) auto
    qed
  next
    case CutOff
    with "1.prems" s show ?thesis by (subst (asm) control_end.simps) simp
  next
    case (Whole w)
    with "1.prems" s have "control_end ends (drop w s) (i + w) = Some (a, b)"
      by (subst (asm) control_end.simps) simp
    with "1.IH"(2) [OF s Whole] lead_width [OF Whole] show ?thesis by auto
  qed
qed

lemma text_run_end_le: "text_run_end s \<le> length s"
proof (induction s rule: text_run_end.induct)
  case (1 s)
  then show ?case
    using lead_width [of s] by (cases s) (subst text_run_end.simps, auto split: lead.split)+
qed

lemma control_end_start: "control_end ends s 0 = Some (a, b) \<Longrightarrow> 0 < b \<and> a \<le> b \<and> b \<le> length s"
  using control_end_bound [of ends s 0 a b] by simp

lemma parser_step_consumes:
  assumes "parser_step s p = Some (events, p', s')" and "s \<noteq> []"
  shows "length s' < length s"
  using assms
  by (auto simp: parser_step_def string_step_def csi_step_def open_string_def osc_end_def string_control_end_def
      Let_def case_prod_beta split: option.splits if_splits string_control.splits dest!: control_end_start)

function parser_loop :: "str \<Rightarrow> parser_state \<Rightarrow> stream_event list \<times> parser_state \<times> str" where
  "parser_loop s p =
     (if s = [] then ([], p, [])
      else
        (case parser_step s p of
           None \<Rightarrow> ([], p, s)
         | Some (events, p', s') \<Rightarrow>
             (case parser_loop s' p' of (events2, r) \<Rightarrow> (events @ events2, r))))"
  by pat_completeness auto
termination
  by (relation "measure (\<lambda>(s, p). length s)") (auto dest: parser_step_consumes)

declare parser_loop.simps [simp del]


section \<open>The re-masker of terminal output\<close>

record terminal =
  tm_matcher :: remasker
  tm_pending :: str
  tm_parser :: parser_state

definition initial_parser :: parser_state where
  "initial_parser = \<lparr>tp_string = None, tp_alternate = False, tp_depth = 0\<rparr>"

definition terminal_new :: "crypto \<Rightarrow> base64_encoder \<Rightarrow> recovery \<Rightarrow> terminal" where
  "terminal_new cr b64 rec =
     \<lparr>tm_matcher = stream_remasker_with_views cr b64 rec, tm_pending = [], tm_parser = initial_parser\<rparr>"

definition terminal_default :: terminal where
  "terminal_default = \<lparr>tm_matcher = empty_remasker, tm_pending = [], tm_parser = initial_parser\<rparr>"

definition terminal_merge :: "crypto \<Rightarrow> base64_encoder \<Rightarrow> recovery \<Rightarrow> terminal \<Rightarrow> terminal" where
  "terminal_merge cr b64 rec t = t\<lparr>tm_matcher := merge_recovery_with_views cr b64 (tm_matcher t) rec\<rparr>"

text \<open>The calls of the re-masker, in order; \<open>None\<close> where it panics.\<close>

fun stream_steps :: "remasker \<Rightarrow> stream_event list \<Rightarrow> (str \<times> remasker) option" where
  "stream_steps rm [] = Some ([], rm)"
| "stream_steps rm (e # es) =
     (case stream_step rm e of
        Some (out, rm') \<Rightarrow> prepend out (stream_steps rm' es)
      | None \<Rightarrow> None)"

definition terminal_push :: "terminal \<Rightarrow> str \<Rightarrow> ((str + str) \<times> terminal) option" where
  "terminal_push t bytes =
     (case parser_loop (tm_pending t @ bytes) (tm_parser t) of
        (events, p, rest) \<Rightarrow>
          map_option (\<lambda>(out, rm).
             if tp_string p = None \<and> MAX_PENDING_CONTROL_BYTES < length rest
             then (Inl ''terminal output control sequence exceeds 1 MiB'',
                   \<lparr>tm_matcher = rm, tm_pending = [], tm_parser = p\<rparr>)
             else (Inr out, \<lparr>tm_matcher = rm, tm_pending = rest, tm_parser = p\<rparr>))
            (stream_steps (tm_matcher t) events))"

text \<open>At the end an open control string is closed, so that nothing later is taken for its payload.\<close>

definition closing_events :: "parser_state \<Rightarrow> str \<Rightarrow> stream_event list" where
  "closing_events p pending =
     (if tp_string p = None then []
      else (if pending = [] then [] else [Text pending]) @ [Boundary [ESC, CHR 0x5C]])"

definition terminal_finish :: "terminal \<Rightarrow> (str \<times> terminal) option" where
  "terminal_finish t =
     (case stream_steps (tm_matcher t) (closing_events (tm_parser t) (tm_pending t)) of
        None \<Rightarrow> None
      | Some (out, rm) \<Rightarrow>
          prepend out (map_option (\<lambda>(rest, rm).
            (rest, \<lparr>tm_matcher = rm, tm_pending = [], tm_parser = (tm_parser t)\<lparr>tp_string := None\<rparr>\<rparr>))
            (finish rm)))"

text \<open>All output of a program, chunk by chunk, up to an error.\<close>

fun terminal_run :: "terminal \<Rightarrow> str list \<Rightarrow> ((str + str) \<times> terminal) option" where
  "terminal_run t [] = map_option (\<lambda>(out, t). (Inr out, t)) (terminal_finish t)"
| "terminal_run t (c # cs) =
     (case terminal_push t c of
        None \<Rightarrow> None
      | Some (Inl e, t) \<Rightarrow> Some (Inl e, t)
      | Some (Inr out, t) \<Rightarrow>
          map_option (\<lambda>(r, t). (case r of Inl e \<Rightarrow> Inl e | Inr rest \<Rightarrow> Inr (out @ rest), t))
            (terminal_run t cs))"


section \<open>Following the store\<close>

record active_terminal =
  at_client :: "(tokens \<times> str) option"
  at_observed :: u64
  at_terminal :: terminal

definition active_refresh ::
    "crypto \<Rightarrow> base64_encoder \<Rightarrow> store_codec \<Rightarrow> store_state \<Rightarrow> active_terminal \<Rightarrow> str + active_terminal" where
  "active_refresh cr b64 cd st a =
     (case at_client a of
        None \<Rightarrow> Inr a
      | Some (tk, token) \<Rightarrow>
          and_then (snd (client_masked_count cr cd tk token st)) (\<lambda>n.
            if n = at_observed a then Inr a
            else
              and_then (snd (client_snapshot cr cd tk token st)) (\<lambda>snap.
                Inr (a\<lparr>at_terminal := terminal_merge cr b64 (ss_recovery snap) (at_terminal a),
                       at_observed := n\<rparr>))))"

definition active_new ::
    "crypto \<Rightarrow> base64_encoder \<Rightarrow> store_codec \<Rightarrow> (tokens \<times> str) option \<Rightarrow> store_state \<Rightarrow>
     str + active_terminal" where
  "active_new cr b64 cd client st =
     (case client of
        None \<Rightarrow> Inr \<lparr>at_client = None, at_observed = 0, at_terminal = terminal_default\<rparr>
      | Some (tk, token) \<Rightarrow>
          and_then (snd (client_masked_count cr cd tk token st)) (\<lambda>n.
          and_then (snd (client_snapshot cr cd tk token st)) (\<lambda>snap.
            Inr \<lparr>at_client = Some (tk, token), at_observed = n,
                 at_terminal = terminal_new cr b64 (ss_recovery snap)\<rparr>)))"

definition active_push ::
    "crypto \<Rightarrow> base64_encoder \<Rightarrow> store_codec \<Rightarrow> store_state \<Rightarrow> str \<Rightarrow> active_terminal \<Rightarrow>
     ((str + str) \<times> active_terminal) option" where
  "active_push cr b64 cd st bytes a =
     (case active_refresh cr b64 cd st a of
        Inl e \<Rightarrow> Some (Inl e, a)
      | Inr a \<Rightarrow> map_option (\<lambda>(r, t). (r, a\<lparr>at_terminal := t\<rparr>)) (terminal_push (at_terminal a) bytes))"

definition active_finish ::
    "crypto \<Rightarrow> base64_encoder \<Rightarrow> store_codec \<Rightarrow> store_state \<Rightarrow> active_terminal \<Rightarrow>
     ((str + str) \<times> active_terminal) option" where
  "active_finish cr b64 cd st a =
     (case active_refresh cr b64 cd st a of
        Inl e \<Rightarrow> Some (Inl e, a)
      | Inr a \<Rightarrow> map_option (\<lambda>(out, t). (Inr out, a\<lparr>at_terminal := t\<rparr>)) (terminal_finish (at_terminal a)))"

definition active_finish_after_error :: "active_terminal \<Rightarrow> (str \<times> active_terminal) option" where
  "active_finish_after_error a =
     map_option (\<lambda>(out, t). (out, a\<lparr>at_terminal := t\<rparr>)) (terminal_finish (at_terminal a))"

end
