(* ===== verification/TerminalFacts.thy ===== *)
theory TerminalFacts
  imports Terminal
begin

text \<open>
  What the terminal re-masker does with a stream of chunks: the calls of the re-masker depend only
  on the bytes, not on how they were cut, and the keyboard frame of a full-screen program is closed
  with it.
\<close>


section \<open>Looking further ahead changes nothing\<close>

lemma lead_of_append: "s \<noteq> [] \<Longrightarrow> lead_of s \<noteq> CutOff \<Longrightarrow> lead_of (s @ t) = lead_of s"
  by (auto simp: lead_of_def subtext_def split: option.splits if_splits)

lemma byte_at_append: "byte_at s i = Some b \<Longrightarrow> byte_at (s @ t) i = Some b"
  by (auto simp: byte_at_def nth_append split: if_splits)

lemma control_end_append:
  "control_end ends s i = Some r \<Longrightarrow> control_end ends (s @ t) i = Some r"
proof (induction ends s i rule: control_end.induct)
  case (1 ends s i)
  from "1.prems" have s: "s \<noteq> []" by (subst (asm) control_end.simps) (auto split: if_splits)
  show ?case
  proof (cases "lead_of s")
    case Stray
    with lead_of_append [OF s, of t] have lead: "lead_of (s @ t) = Stray" by simp
    show ?thesis
    proof (cases "ends (hd s) \<or> hd s = ESC \<and> byte_at s 1 = Some (CHR 0x5C)")
      case True
      with "1.prems" s Stray lead byte_at_append [of s 1 _ t] show ?thesis
        by (subst control_end.simps, subst (asm) control_end.simps) (auto split: if_splits)
    next
      case False
      with "1.prems" s Stray have rest: "control_end ends (tl s) (i + 1) = Some r"
        by (subst (asm) control_end.simps) auto
      then have "tl s \<noteq> []" by (subst (asm) control_end.simps) (auto split: if_splits)
      then have "byte_at (s @ t) 1 = byte_at s 1" using s by (cases s) (auto simp: byte_at_def nth_append)
      moreover have "control_end ends (tl s @ t) (i + 1) = Some r"
        using "1.IH"(1) [OF s Stray] False rest by blast
      ultimately show ?thesis using s lead False by (subst control_end.simps) auto
    qed
  next
    case CutOff
    with "1.prems" s show ?thesis by (subst (asm) control_end.simps) simp
  next
    case (Whole w)
    with lead_of_append [OF s, of t] have lead: "lead_of (s @ t) = Whole w" by simp
    from Whole "1.prems" s have "control_end ends (drop w s) (i + w) = Some r"
      by (subst (asm) control_end.simps) simp
    then have "control_end ends (drop w s @ t) (i + w) = Some r" using "1.IH"(2) [OF s Whole] by simp
    with lead s lead_width [OF Whole] show ?thesis by (subst control_end.simps) simp
  qed
qed

lemma csi_end_append:
  assumes "csi_end s = Some n"
  shows "csi_end (s @ t) = Some n"
proof -
  have n: "n = length (takeWhile (\<lambda>b. \<not> csi_final b) s)" "n < length s"
    using assms by (auto simp: csi_end_def Let_def split: if_splits)
  then have "takeWhile (\<lambda>b. \<not> csi_final b) s \<noteq> s" by (metis nat_neq_iff)
  then obtain b where "b \<in> set s" "csi_final b" by (auto simp: takeWhile_eq_all_conv)
  then have "takeWhile (\<lambda>b. \<not> csi_final b) (s @ t) = takeWhile (\<lambda>b. \<not> csi_final b) s"
    by (intro takeWhile_append1) auto
  with n show ?thesis by (simp add: csi_end_def)
qed

text \<open>A run of text goes on where it stopped.\<close>

lemma text_run_end_append: "text_run_end (s @ t) = text_run_end s + text_run_end (drop (text_run_end s) s @ t)"
proof (induction s rule: text_run_end.induct)
  case (1 s)
  show ?case
  proof (cases "s = [] \<or> hd s = ESC \<or> is_terminal_control (hd s) \<or> lead_of s = CutOff")
    case True
    then have "text_run_end s = 0" by (subst text_run_end.simps) auto
    then show ?thesis by simp
  next
    case False
    then have s: "s \<noteq> []" "hd s \<noteq> ESC" "\<not> is_terminal_control (hd s)" "lead_of s \<noteq> CutOff" by auto
    have lead: "lead_of (s @ t) = lead_of s" by (rule lead_of_append [OF s(1,4)])
    show ?thesis
    proof (cases "lead_of s")
      case Stray
      then have run: "text_run_end s = Suc (text_run_end (tl s))"
        "text_run_end (s @ t) = Suc (text_run_end (tl s @ t))"
        using s lead by (simp_all add: text_run_end.simps [of s] text_run_end.simps [of "s @ t"])
      have "text_run_end (tl s @ t) = text_run_end (tl s) + text_run_end (drop (text_run_end (tl s)) (tl s) @ t)"
        using "1.IH"(1) s Stray by blast
      with run show ?thesis by (simp add: drop_Suc)
    next
      case (Whole w)
      then have run: "text_run_end s = w + text_run_end (drop w s)"
        "text_run_end (s @ t) = w + text_run_end (drop w s @ t)"
        using s lead lead_width [OF Whole]
        by (simp_all add: text_run_end.simps [of s] text_run_end.simps [of "s @ t"])
      have "text_run_end (drop w s @ t) = text_run_end (drop w s) + text_run_end (drop (text_run_end (drop w s)) (drop w s) @ t)"
        using "1.IH"(2) s Whole by blast
      with run show ?thesis by (simp add: add.commute)
    qed (use s in simp)
  qed
qed


section \<open>Cut characters\<close>

text \<open>
  Every byte that begins a character is followed by its continuation bytes, as far as the text
  goes: so it is in valid UTF-8, and in every suffix of it.
\<close>

definition led :: "str \<Rightarrow> bool" where
  "led s \<longleftrightarrow> (\<forall>i w j. i < length s \<longrightarrow> utf8_sequence_width (s ! i) = Some w \<longrightarrow>
     0 < j \<longrightarrow> j < w \<longrightarrow> i + j < length s \<longrightarrow> is_continuation (s ! (i + j)))"

lemma ledD:
  "led s \<Longrightarrow> i < length s \<Longrightarrow> utf8_sequence_width (s ! i) = Some w \<Longrightarrow> 0 < j \<Longrightarrow> j < w \<Longrightarrow>
     i + j < length s \<Longrightarrow> is_continuation (s ! (i + j))"
  by (simp add: led_def)

lemma led_drop: "led s \<Longrightarrow> led (drop k s)"
  unfolding led_def by (auto simp: less_diff_conv ac_simps)

lemma led_appendD:
  assumes "led (s @ t)"
  shows "led s"
  unfolding led_def
proof (intro allI impI)
  fix i w j
  assume "i < length s" "utf8_sequence_width (s ! i) = Some w" "0 < j" "j < w" "i + j < length s"
  with ledD [OF assms, of i w j] show "is_continuation (s ! (i + j))" by (simp add: nth_append)
qed

lemma led_no_stray:
  assumes "led s" and "s \<noteq> []" and "lead_of s = Stray"
  shows "utf8_sequence_width (hd s) = None"
proof (rule ccontr)
  assume "utf8_sequence_width (hd s) \<noteq> None"
  then obtain w where w: "utf8_sequence_width (hd s) = Some w" by blast
  with assms have "w \<le> length s" "\<not> continuations (subtext s 1 w)" by (auto simp: lead_of_def split: if_splits)
  then obtain b where "b \<in> set (take (w - 1) (drop 1 s))" "\<not> is_continuation b"
    by (auto simp: continuations_def list_all_iff subtext_def)
  then obtain j where "j < w - 1" and j: "Suc j < length s" "\<not> is_continuation (s ! Suc j)"
    by (auto simp: in_set_conv_nth)
  then have "Suc j < w" by simp
  with j ledD [OF assms(1), of 0 w "Suc j"] assms(2) w show False by (simp add: hd_conv_nth)
qed

lemma continuation_no_width: "is_continuation b \<Longrightarrow> utf8_sequence_width b = None"
  by (auto simp: is_continuation_def utf8_sequence_width_def byte_between_def)

lemma width_bounds: "utf8_sequence_width b = Some w \<Longrightarrow> 2 \<le> w \<and> w \<le> 4"
  by (auto simp: utf8_sequence_width_def split: if_splits)

lemma cut_char_shift: "cut_char (u @ v) (length u + i) = cut_char v i"
  by (simp add: cut_char_def nth_append split: option.split)

lemma find_append: "find P (xs @ ys) = (case find P xs of Some x \<Rightarrow> Some x | None \<Rightarrow> find P ys)"
  by (induction xs) auto

lemma upt_shift: "map (\<lambda>i. i + k) [a..<b] = [a + k..<b + k]"
  by (induction b) auto

lemma find_map_option: "find P (map f xs) = map_option f (find (P \<circ> f) xs)"
  by (induction xs) auto

text \<open>Text in front, with no cut character in it, is all streamed.\<close>

lemma incomplete_suffix_prepend:
  assumes "\<And>i. i < length u \<Longrightarrow> \<not> cut_char (u @ v) i"
  shows "incomplete_utf8_suffix_len (u @ v) = incomplete_utf8_suffix_len v"
proof -
  let ?n = "length u + length v"
  have shift: "find (cut_char (u @ v)) (rev (map (\<lambda>i. i + length u) is)) = map_option (\<lambda>i. i + length u) (find (cut_char v) (rev is))"
    for "is" by (simp add: rev_map find_map_option comp_def add.commute [of _ "length u"] cut_char_shift)
  have "find (cut_char (u @ v)) (rev [?n - 3..<?n]) = map_option (\<lambda>i. i + length u) (find (cut_char v) (rev [length v - 3..<length v]))"
  proof (cases "length v < 3")
    case True
    have front: "find (cut_char (u @ v)) (rev [?n - 3..<length u]) = None"
      using assms by (auto simp: find_None_iff)
    have "[?n - 3..<?n] = [?n - 3..<length u] @ [length u..<?n]"
      using True by (intro upt_add_eq_append) simp
    moreover have "[length u..<?n] = map (\<lambda>i. i + length u) [0..<length v]" by (simp add: map_add_upt add.commute)
    ultimately show ?thesis using True front shift [of "[0..<length v]"]
      by (simp add: find_append split: option.split)
  next
    case False
    then have "[?n - 3..<?n] = map (\<lambda>i. i + length u) [length v - 3..<length v]"
      by (simp add: upt_shift add.commute)
    then show ?thesis using shift [of "[length v - 3..<length v]"] by simp
  qed
  then show ?thesis by (simp add: incomplete_utf8_suffix_len_def split: option.split)
qed


lemma streamable_prepend:
  assumes "\<And>i. i < length u \<Longrightarrow> \<not> cut_char (u @ v) i" and "v = [] \<Longrightarrow> u \<noteq> [] \<Longrightarrow> last u \<noteq> ESC"
  shows "streamable_control_payload_len (u @ v) = length u + streamable_control_payload_len v"
proof -
  have "incomplete_utf8_suffix_len v \<le> length v"
    by (auto simp: incomplete_utf8_suffix_len_def split: option.split)
  moreover have "incomplete_utf8_suffix_len (u @ v) = incomplete_utf8_suffix_len v"
    using assms(1) by (rule incomplete_suffix_prepend)
  ultimately show ?thesis
    using assms(2) by (cases v) (auto simp: streamable_control_payload_len_def max_def)
qed

lemma streamable_le: "streamable_control_payload_len s \<le> length s"
  by (simp add: streamable_control_payload_len_def)

lemma streamable_Nil [simp]: "streamable_control_payload_len [] = 0"
  by (simp add: streamable_control_payload_len_def)

text \<open>A whole character, or a byte that begins none, is not cut.\<close>

lemma not_cut_whole:
  assumes "lead_of s = Whole w" and "s \<noteq> []" and "i < w"
  shows "\<not> cut_char s i"
proof (cases i)
  case 0
  have "utf8_sequence_width (s ! 0) = Some w" "w \<le> length s"
    using assms by (auto simp: lead_of_def hd_conv_nth split: option.splits if_splits)
  with 0 show ?thesis by (simp add: cut_char_def)
next
  case (Suc j)
  have "continuations (subtext s 1 w)" "w \<le> length s"
    using assms by (auto simp: lead_of_def split: option.splits if_splits)
  then have "is_continuation (s ! i)"
    using Suc assms(3) by (auto simp: continuations_def list_all_length subtext_def dest!: spec [of _ j])
  then show ?thesis by (simp add: cut_char_def continuation_no_width)
qed

lemma streamable_whole:
  assumes "lead_of s = Whole w" and "s \<noteq> []"
  shows "streamable_control_payload_len s = w + streamable_control_payload_len (drop w s)"
proof -
  note w = lead_width [OF assms(1)]
  have "is_continuation (last (take w s))"
  proof -
    have "continuations (subtext s 1 w)" using assms by (auto simp: lead_of_def split: option.splits if_splits)
    moreover obtain k where "w = Suc (Suc k)" using w by (metis Suc_le_D numeral_2_eq_2 Suc_le_mono)
    then have "last (take w s) = last (subtext s 1 w)" "subtext s 1 w \<noteq> []"
      using w by (auto simp: subtext_def take_Suc_conv_app_nth)
    ultimately show ?thesis by (metis continuations_def last_in_set list_all_iff)
  qed
  then have "last (take w s) \<noteq> ESC" by (auto simp: ESC_def is_continuation_def byte_between_def)
  moreover have "\<not> cut_char (take w s @ drop w s) i" if "i < length (take w s)" for i
    using not_cut_whole [OF assms] that by simp
  ultimately have "streamable_control_payload_len (take w s @ drop w s) = length (take w s) + streamable_control_payload_len (drop w s)"
    by (intro streamable_prepend) simp_all
  with w show ?thesis by simp
qed

lemma streamable_single:
  assumes "utf8_sequence_width b = None" and "s \<noteq> [] \<or> b \<noteq> ESC"
  shows "streamable_control_payload_len (b # s) = Suc (streamable_control_payload_len s)"
  using streamable_prepend [of "[b]" s] assms by (auto simp: cut_char_def)

lemma streamable_cut:
  assumes "led s" and "s \<noteq> []" and "lead_of s = CutOff"
  shows "streamable_control_payload_len s = 0"
proof -
  obtain w where w: "utf8_sequence_width (s ! 0) = Some w" "length s < w"
    using assms by (auto simp: lead_of_def hd_conv_nth split: option.splits if_splits)
  have "w \<le> 4" using width_bounds [OF w(1)] by simp
  with w have small: "length s \<le> 3" by simp
  have cont: "is_continuation (s ! j)" if "0 < j" "j < length s" for j
    using ledD [OF assms(1), of 0 w j] w that assms(2) by simp
  have "cut_char s 0"
    using w cont by (auto simp: cut_char_def continuations_def list_all_length)
  moreover have "\<not> cut_char s j" if "0 < j" "j < length s" for j
    using cont [OF that] by (simp add: cut_char_def continuation_no_width)
  moreover have "rev [length s - 3..<length s] = rev [1..<length s] @ [0]"
    using small assms(2) by (simp add: upt_rec [of 0])
  moreover from calculation(2) have "find (cut_char s) (rev [1..<length s]) = None"
    by (auto simp: find_None_iff)
  ultimately have "find (cut_char s) (rev [length s - 3..<length s]) = Some 0"
    by (simp add: find_append)
  then show ?thesis by (simp add: streamable_control_payload_len_def incomplete_utf8_suffix_len_def)
qed

text \<open>The search for the end of a control string may start where the streamed part ends.\<close>

lemma control_end_resumes:
  assumes "led (s @ t)" and "control_end ends s i = None"
  shows "control_end ends (s @ t) i =
    control_end ends (drop (streamable_control_payload_len s) s @ t) (i + streamable_control_payload_len s)"
  using assms
proof (induction ends s i rule: control_end.induct)
  case (1 ends s i)
  show ?case
  proof (cases "s = []")
    case False
    note led = led_appendD [OF "1.prems"(1)]
    show ?thesis
    proof (cases "lead_of s")
      case CutOff
      with streamable_cut [OF led False] show ?thesis by simp
    next
      case (Whole w)
      note w = lead_width [OF Whole]
      have "led (drop w s @ t)" using led_drop [OF "1.prems"(1), of w] w by simp
      moreover have "control_end ends (drop w s) (i + w) = None"
        using "1.prems"(2) False Whole by (subst (asm) control_end.simps) simp
      ultimately have "control_end ends (drop w s @ t) (i + w) = control_end ends
          (drop (streamable_control_payload_len (drop w s)) (drop w s) @ t)
          (i + w + streamable_control_payload_len (drop w s))"
        using "1.IH"(2) [OF False Whole] by blast
      moreover have "control_end ends (s @ t) i = control_end ends (drop w s @ t) (i + w)"
        using lead_of_append [OF False, of t] Whole False w by (subst control_end.simps) simp
      ultimately show ?thesis
        using streamable_whole [OF Whole False] by (simp add: ac_simps)
    next
      case Stray
      obtain b r where s: "s = b # r" using False by (cases s) auto
      have none: "utf8_sequence_width b = None" using led_no_stray [OF led False Stray] by (simp add: s)
      have skip: "\<not> ends b" "\<not> (b = ESC \<and> byte_at s 1 = Some (CHR 0x5C))" "control_end ends r (i + 1) = None"
        using "1.prems"(2) Stray by (subst (asm) control_end.simps, auto simp: s split: if_splits)+
      show ?thesis
      proof (cases "r = [] \<and> b = ESC")
        case True
        then have "streamable_control_payload_len s = 0" by (simp add: s streamable_control_payload_len_def)
        then show ?thesis by simp
      next
        case rest: False
        then have stream: "streamable_control_payload_len s = Suc (streamable_control_payload_len r)"
          using streamable_single [OF none, of r] by (auto simp: s)
        have "\<not> (b = ESC \<and> byte_at (s @ t) 1 = Some (CHR 0x5C))"
          using skip(2) rest by (cases r) (auto simp: s byte_at_def)
        then have "control_end ends (s @ t) i = control_end ends (r @ t) (i + 1)"
          using lead_of_append [OF False, of t] Stray skip(1) by (subst control_end.simps) (auto simp: s)
        moreover have "led (r @ t)" using led_drop [OF "1.prems"(1), of 1] by (simp add: s)
        then have "control_end ends (r @ t) (i + 1) = control_end ends
            (drop (streamable_control_payload_len r) r @ t) (i + 1 + streamable_control_payload_len r)"
          using "1.IH"(1) [OF False Stray] skip by (auto simp: s)
        ultimately show ?thesis by (simp only: stream) (simp add: s)
      qed
    qed
  qed simp
qed



section \<open>Chunks do not matter\<close>

text \<open>The calls of the re-masker, with each text taken apart into its bytes.\<close>

datatype atom = TextByte byte | ControlAtom str | BoundaryAtom str

fun atoms_of :: "stream_event \<Rightarrow> atom list" where
  "atoms_of (Text s) = map TextByte s"
| "atoms_of (Control s) = [ControlAtom s]"
| "atoms_of (Boundary s) = [BoundaryAtom s]"

definition flatten :: "stream_event list \<Rightarrow> atom list" where
  "flatten es = concat (map atoms_of es)"

lemma flatten_simps [simp]:
  "flatten [] = []" "flatten (e # es) = atoms_of e @ flatten es" "flatten (es @ fs) = flatten es @ flatten fs"
  by (simp_all add: flatten_def)

text \<open>What a round of the loop does first, apart from how its text is cut.\<close>

definition loops_to :: "str \<Rightarrow> parser_state \<Rightarrow> atom list \<Rightarrow> str \<Rightarrow> parser_state \<Rightarrow> bool" where
  "loops_to s p as s' p' \<longleftrightarrow>
     flatten (fst (parser_loop s p)) = as @ flatten (fst (parser_loop s' p')) \<and>
     snd (parser_loop s p) = snd (parser_loop s' p')"

lemma loops_to_refl: "loops_to s p [] s p"
  by (simp add: loops_to_def)

lemma loops_to_trans: "loops_to s p as s' p' \<Longrightarrow> loops_to s' p' bs t q \<Longrightarrow> loops_to s p (as @ bs) t q"
  by (simp add: loops_to_def)

lemma loops_to_back: "loops_to s p as t q \<Longrightarrow> loops_to s' p' bs t q \<Longrightarrow> as = cs @ bs \<Longrightarrow> loops_to s p cs s' p'"
  by (simp add: loops_to_def)

lemma loop_step:
  assumes "s \<noteq> []" and "parser_step s p = Some (es, p', s')"
  shows "loops_to s p (flatten es) s' p'"
  using assms by (simp add: loops_to_def parser_loop.simps [of s] case_prod_beta)

text \<open>A run of text, and the streamed part of a control string, are handed over at once.\<close>

lemma loop_text:
  assumes "tp_string p = None"
  shows "loops_to s p (map TextByte (take (text_run_end s) s)) (drop (text_run_end s) s) p"
proof (cases "text_run_end s = 0")
  case False
  then have s: "s \<noteq> []" "hd s \<noteq> ESC" "\<not> is_terminal_control (hd s)"
    by (auto simp: text_run_end.simps [of s] split: if_splits)
  have "hd s \<notin> {CHR 0x9B, CHR 0x9D, CHR 0x90, CHR 0x98, CHR 0x9E, CHR 0x9F}"
    using s(3) by (auto simp: is_terminal_control_def byte_between_def)
  then have "parser_step s p = Some ([Text (take (text_run_end s) s)], p, drop (text_run_end s) s)"
    using assms s False by (simp add: parser_step_def Let_def)
  from loop_step [OF s(1) this] show ?thesis by simp
qed (simp add: loops_to_refl)

definition string_end :: "string_control \<Rightarrow> str \<Rightarrow> (nat \<times> nat) option" where
  "string_end kind s = (case kind of Osc \<Rightarrow> osc_end s | OtherString \<Rightarrow> string_control_end s)"

lemma loop_string:
  assumes "tp_string p = Some kind"
  shows "string_end kind s = Some (a, b) \<Longrightarrow>
      loops_to s p (map TextByte (take a s) @ [BoundaryAtom (subtext s a b)]) (drop b s) (p\<lparr>tp_string := None\<rparr>)"
    and "string_end kind s = None \<Longrightarrow>
      loops_to s p (map TextByte (take (streamable_control_payload_len s) s))
        (drop (streamable_control_payload_len s) s) p"
proof -
  assume e: "string_end kind s = Some (a, b)"
  then have "s \<noteq> []"
    by (cases kind) (auto simp: string_end_def osc_end_def string_control_end_def control_end.simps)
  moreover have "parser_step s p =
      Some ([Text (take a s), Boundary (subtext s a b)], p\<lparr>tp_string := None\<rparr>, drop b s)"
    using e assms by (simp add: parser_step_def string_step_def string_end_def)
  ultimately show "loops_to s p (map TextByte (take a s) @ [BoundaryAtom (subtext s a b)]) (drop b s) (p\<lparr>tp_string := None\<rparr>)"
    using loop_step by fastforce
next
  let ?n = "streamable_control_payload_len s"
  assume e: "string_end kind s = None"
  show "loops_to s p (map TextByte (take ?n s)) (drop ?n s) p"
  proof (cases "?n = 0")
    case False
    then have "s \<noteq> []" by auto
    moreover have "parser_step s p = Some ([Text (take ?n s)], p, drop ?n s)"
      using e assms False by (simp add: parser_step_def string_step_def string_end_def Let_def)
    ultimately show ?thesis using loop_step by fastforce
  qed (simp add: loops_to_refl)
qed

lemma string_end_append: "string_end kind s = Some r \<Longrightarrow> string_end kind (s @ t) = Some r"
  by (cases kind) (auto simp: string_end_def osc_end_def string_control_end_def control_end_append)

lemma control_end_offset:
  "control_end ends s (i + k) = map_option (\<lambda>(a, b). (a + k, b + k)) (control_end ends s i)"
proof (induction ends s i rule: control_end.induct)
  case (1 ends s i)
  show ?case
  proof (cases "s = []")
    case False
    show ?thesis
    proof (cases "lead_of s")
      case Stray
      with "1.IH"(1) [OF False Stray] False show ?thesis
        by (subst (1 2) control_end.simps) (auto simp: ac_simps)
    next
      case CutOff
      with False show ?thesis by (subst (1 2) control_end.simps) simp
    next
      case (Whole w)
      with "1.IH"(2) [OF False Whole] False show ?thesis
        by (subst (1 2) control_end.simps) (simp add: ac_simps)
    qed
  qed (simp add: control_end.simps)
qed

lemma string_end_resumes:
  assumes "led (s @ t)" and "string_end kind s = None"
  shows "string_end kind (s @ t) =
    map_option (\<lambda>(a, b). (a + streamable_control_payload_len s, b + streamable_control_payload_len s))
      (string_end kind (drop (streamable_control_payload_len s) s @ t))"
  using assms control_end_resumes [of s t _ 0] control_end_offset [of _ _ 0 "streamable_control_payload_len s"]
  by (cases kind) (simp_all add: string_end_def osc_end_def string_control_end_def)

text \<open>What was streamed holds no cut character, even with more text behind it.\<close>

lemma cut_char_last:
  assumes "led s" and "cut_char s i" and "i < length s"
  shows "length s - i \<le> incomplete_utf8_suffix_len s"
proof -
  obtain w where w: "utf8_sequence_width (s ! i) = Some w" "length s - i < w"
    using assms(2) by (auto simp: cut_char_def split: option.splits)
  have other: "\<not> cut_char s j" if "i < j" "j < length s" for j
    using ledD [OF assms(1,3) w(1), of "j - i"] that w(2) by (simp add: cut_char_def continuation_no_width)
  have "w \<le> 4" using width_bounds [OF w(1)] by simp
  with w assms(3) have range: "length s - 3 \<le> i" by simp
  have "[length s - 3..<length s] = [length s - 3..<i] @ i # [Suc i..<length s]"
    using range assms(3) by (metis le_add_diff_inverse less_imp_le upt_add_eq_append upt_conv_Cons)
  moreover have "find (cut_char s) (rev [Suc i..<length s]) = None"
    using other by (auto simp: find_None_iff)
  ultimately have "find (cut_char s) (rev [length s - 3..<length s]) = Some i"
    using assms(2) by (simp add: find_append)
  then show ?thesis by (simp add: incomplete_utf8_suffix_len_def)
qed

lemma streamed_not_cut:
  assumes "led (s @ t)" and "i < streamable_control_payload_len s"
  shows "\<not> cut_char (s @ t) i"
proof
  assume cut: "cut_char (s @ t) i"
  have i: "i < length s" using assms(2) streamable_le [of s] by simp
  obtain w where w: "utf8_sequence_width (s ! i) = Some w" "length (s @ t) - i < w"
    using cut i by (auto simp: cut_char_def nth_append split: option.splits)
  have led: "led s" by (rule led_appendD [OF assms(1)])
  have "cut_char s i"
  proof -
    have "is_continuation (drop (i + 1) s ! j)" if "j < length (drop (i + 1) s)" for j
      using ledD [OF led i w(1), of "Suc j"] w(2) that by (simp add: ac_simps)
    with w show ?thesis by (simp add: cut_char_def continuations_def list_all_length)
  qed
  from cut_char_last [OF led this i] assms(2) i show False
    by (simp add: streamable_control_payload_len_def)
qed

lemma streamable_resumes:
  assumes "led (s @ t)" and "n = streamable_control_payload_len s" 
  shows "streamable_control_payload_len (s @ t) = n + streamable_control_payload_len (drop n s @ t)"
proof -
  have n: "n \<le> length s" using streamable_le assms(2) by simp
  have "streamable_control_payload_len (take n s @ (drop n s @ t)) =
      length (take n s) + streamable_control_payload_len (drop n s @ t)"
  proof (rule streamable_prepend)
    fix i assume "i < length (take n s)"
    then show "\<not> cut_char (take n s @ drop n s @ t) i"
      using streamed_not_cut [OF assms(1), of i] assms(2) n by (metis append.assoc append_take_drop_id length_take min.absorb2)
  next
    assume "drop n s @ t = []" and "take n s \<noteq> []"
    then have "n = length s" "s \<noteq> []" using n by auto
    then show "last (take n s) \<noteq> ESC"
      using assms(2) by (cases s) (auto simp: streamable_control_payload_len_def max_def split: if_splits)
  qed
  moreover have "take n s @ (drop n s @ t) = s @ t" by (metis append.assoc append_take_drop_id)
  ultimately show ?thesis using n by simp
qed

lemma loop_string_resumes:
  assumes "led (s @ t)" and "tp_string p = Some kind" and "string_end kind s = None"
    and n: "n = streamable_control_payload_len s"
  shows "loops_to (s @ t) p (map TextByte (take n s)) (drop n s @ t) p"
proof -
  have n_le: "n \<le> length s" using streamable_le n by simp
  then have whole: "s @ t = take n s @ (drop n s @ t)" by simp
  show ?thesis
  proof (cases "string_end kind (drop n s @ t)")
    case (Some r)
    obtain a b where r: "string_end kind (drop n s @ t) = Some (a, b)" using Some by (cases r) auto
    then have "string_end kind (s @ t) = Some (a + n, b + n)"
      using string_end_resumes [OF assms(1,3)] n by simp
    note left = loop_string(1) [OF assms(2) this] and right = loop_string(1) [OF assms(2) r]
    have parts: "drop (b + n) (s @ t) = drop b (drop n s @ t)" "subtext (s @ t) (a + n) (b + n) = subtext (drop n s @ t) a b"
      "take (a + n) (s @ t) = take n s @ take a (drop n s @ t)"
      using n_le by (subst whole, simp add: subtext_def drop_drop add.commute)+
    show ?thesis by (rule loops_to_back [OF left [unfolded parts] right]) simp
  next
    case None
    then have none: "string_end kind (s @ t) = None" using string_end_resumes [OF assms(1,3)] n by simp
    let ?k = "streamable_control_payload_len (drop n s @ t)"
    have k: "streamable_control_payload_len (s @ t) = n + ?k" by (rule streamable_resumes [OF assms(1) n])
    note left = loop_string(2) [OF assms(2) none] and right = loop_string(2) [OF assms(2) None]
    have parts: "drop (n + ?k) (s @ t) = drop ?k (drop n s @ t)" "take (n + ?k) (s @ t) = take n s @ take ?k (drop n s @ t)"
      using n_le by (subst whole, simp add: drop_drop add.commute del: append_take_drop_id)+
    show ?thesis by (rule loops_to_back [OF left [unfolded k parts] right]) simp
  qed
qed


text \<open>One round on a part of the text is what the loop does on all of it.\<close>

lemma csi_step_append:
  assumes "csi_step k s p = Some (es, p', s')" and "k \<le> length s"
  shows "csi_step k (s @ t) p = Some (es, p', s' @ t)"
proof -
  obtain n where n: "csi_end (drop k s) = Some n" using assms(1) by (auto simp: csi_step_def split: option.splits)
  then have "k + n + 1 \<le> length s" using assms(2) by (auto simp: csi_end_def Let_def split: if_splits)
  with n assms csi_end_append [OF n, of t] show ?thesis
    by (auto simp: csi_step_def Let_def case_prod_beta split: option.splits)
qed

lemma parser_step_append:
  assumes "led (s @ t)" and "s \<noteq> []" and "parser_step s p = Some (es, p', s')"
  shows "loops_to (s @ t) p (flatten es) (s' @ t) p'"
proof (cases "tp_string p")
  case (Some kind)
  show ?thesis
  proof (cases "string_end kind s")
    case None
    then have "es = [Text (take (streamable_control_payload_len s) s)]" "p' = p"
      "s' = drop (streamable_control_payload_len s) s"
      using assms(3) Some by (auto simp: parser_step_def string_step_def string_end_def Let_def split: if_splits)
    then show ?thesis using loop_string_resumes [OF assms(1) Some None refl] by simp
  next
    case (Some r)
    obtain a b where r: "string_end kind s = Some (a, b)" using Some by (cases r) auto
    then have b: "a \<le> b" "b \<le> length s"
      by (cases kind; auto simp: string_end_def osc_end_def string_control_end_def dest!: control_end_start)+
    from r have "es = [Text (take a s), Boundary (subtext s a b)]" "p' = p\<lparr>tp_string := None\<rparr>" "s' = drop b s"
      using assms(3) \<open>tp_string p = Some kind\<close> by (auto simp: parser_step_def string_step_def string_end_def)
    then show ?thesis
      using loop_string(1) [OF \<open>tp_string p = Some kind\<close> string_end_append [OF r, of t]] b
      by (simp add: subtext_def)
  qed
next
  case None
  have hd: "hd (s @ t) = hd s" using assms(2) by simp
  have exact: "loops_to (s @ t) p (flatten es) (s' @ t) p'" if "parser_step (s @ t) p = Some (es, p', s' @ t)"
    using loop_step [OF _ that] assms(2) by simp
  consider (esc) "hd s = ESC" | (control) "hd s \<noteq> ESC" "is_terminal_control (hd s)"
    | (plain) "hd s \<noteq> ESC" "\<not> is_terminal_control (hd s)" by blast
  then show ?thesis
  proof cases
    case esc
    obtain c where c: "byte_at s 1 = Some c" using assms(3) None esc by (auto simp: parser_step_def split: option.splits)
    then have len: "2 \<le> length s" by (auto simp: byte_at_def split: if_splits)
    have "parser_step (s @ t) p = Some (es, p', s' @ t)"
      using assms(3) None esc hd c byte_at_append [OF c, of t] len csi_step_append [of 2 s p es p' s' t]
      by (auto simp: parser_step_def open_string_def split: if_splits)
    then show ?thesis by (rule exact)
  next
    case control
    have "1 \<le> length s" using assms(2) by (cases s) auto
    then have "parser_step (s @ t) p = Some (es, p', s' @ t)"
      using assms(3) None control hd csi_step_append [of 1 s p es p' s' t]
      by (auto simp: parser_step_def open_string_def Let_def split: if_splits)
    then show ?thesis by (rule exact)
  next
    case plain
    then have "hd s \<notin> {CHR 0x9B, CHR 0x9D, CHR 0x90, CHR 0x98, CHR 0x9E, CHR 0x9F}"
      by (auto simp: is_terminal_control_def byte_between_def)
    then have es: "es = [Text (take (text_run_end s) s)]" "p' = p" "s' = drop (text_run_end s) s"
      using assms(3) None plain by (auto simp: parser_step_def Let_def split: if_splits)
    let ?n = "text_run_end s" and ?k = "text_run_end (drop (text_run_end s) s @ t)"
    have n: "?n \<le> length s" by (rule text_run_end_le)
    have parts: "drop (?n + ?k) (s @ t) = drop ?k (drop ?n s @ t)" "take (?n + ?k) (s @ t) = take ?n s @ take ?k (drop ?n s @ t)"
      using n by (simp_all add: take_add drop_drop add.commute) 
    note left = loop_text [OF None, of "s @ t", unfolded text_run_end_append [of s t] parts]
    from loops_to_back [OF left loop_text [OF None, of "drop ?n s @ t"]] es show ?thesis by simp
  qed
qed

lemma parser_step_suffix: "parser_step s p = Some (es, p', s') \<Longrightarrow> suffix s' s"
  by (auto simp: parser_step_def string_step_def csi_step_def open_string_def Let_def case_prod_beta suffix_drop
      split: option.splits if_splits string_control.splits)

lemma parser_loop_append:
  assumes "led (s @ t)"
  shows "loops_to (s @ t) p (flatten (fst (parser_loop s p))) (snd (snd (parser_loop s p)) @ t)
    (fst (snd (parser_loop s p)))"
  using assms
proof (induction s p rule: parser_loop.induct)
  case (1 s p)
  show ?case
  proof (cases "s = [] \<or> parser_step s p = None")
    case True
    then have "parser_loop s p = ([], p, s)" by (auto simp: parser_loop.simps [of s])
    then show ?thesis by (simp add: loops_to_refl)
  next
    case False
    then obtain es p' s' where step: "parser_step s p = Some (es, p', s')" and s: "s \<noteq> []" by auto
    have "suffix s' s" by (rule parser_step_suffix [OF step])
    then obtain u where u: "s = u @ s'" by (auto simp: suffix_def)
    have "led (s' @ t)" using led_drop [OF "1.prems", of "length u"] by (simp add: u)
    note rest = "1.IH" [OF s step refl refl this]
    have "parser_loop s p = (es @ fst (parser_loop s' p'), snd (parser_loop s' p'))"
      using step s by (simp add: parser_loop.simps [of s] case_prod_beta)
    with loops_to_trans [OF parser_step_append [OF "1.prems" s step] rest] show ?thesis by simp
  qed
qed


lemma parser_loop_suffix: "suffix (snd (snd (parser_loop s p))) s"
proof (induction s p rule: parser_loop.induct)
  case (1 s p)
  show ?case
  proof (cases "s = [] \<or> parser_step s p = None")
    case False
    then obtain es p' s' where step: "parser_step s p = Some (es, p', s')" and s: "s \<noteq> []" by auto
    have "snd (snd (parser_loop s p)) = snd (snd (parser_loop s' p'))"
      using step s by (simp add: parser_loop.simps [of s] case_prod_beta)
    with suffix_order.trans [OF "1.IH" [OF s step refl refl] parser_step_suffix [OF step]] show ?thesis by simp
  qed (auto simp: parser_loop.simps [of s])
qed

text \<open>The parser over chunks.\<close>

fun parse_chunks :: "str \<Rightarrow> parser_state \<Rightarrow> str list \<Rightarrow> stream_event list \<times> parser_state \<times> str" where
  "parse_chunks pending p [] = ([], p, pending)"
| "parse_chunks pending p (c # cs) =
     (case parser_loop (pending @ c) p of
        (events, p, rest) \<Rightarrow> (case parse_chunks rest p cs of (events2, r) \<Rightarrow> (events @ events2, r)))"

lemma parser_loop_idle:
  "parser_loop (snd (snd (parser_loop s p))) (fst (snd (parser_loop s p))) =
     ([], fst (snd (parser_loop s p)), snd (snd (parser_loop s p)))"
proof (induction s p rule: parser_loop.induct)
  case (1 s p)
  show ?case
  proof (cases "s = [] \<or> parser_step s p = None")
    case True
    then have "parser_loop s p = ([], p, s)" by (auto simp: parser_loop.simps [of s])
    then show ?thesis by simp
  next
    case False
    then obtain es p' s' where step: "parser_step s p = Some (es, p', s')" and s: "s \<noteq> []" by auto
    with "1.IH" [OF s step refl refl] show ?thesis
      by (simp add: parser_loop.simps [of s] case_prod_beta)
  qed
qed

lemma parse_chunks_whole:
  assumes "led (pending @ concat cs)" and "parser_loop pending p = ([], p, pending)"
  shows "flatten (fst (parse_chunks pending p cs)) = flatten (fst (parser_loop (pending @ concat cs) p)) \<and>
    snd (parse_chunks pending p cs) = snd (parser_loop (pending @ concat cs) p)"
  using assms
proof (induction cs arbitrary: pending p)
  case (Cons c cs)
  obtain es p1 r where loop: "parser_loop (pending @ c) p = (es, p1, r)" by (metis prod_cases3)
  have led: "led ((pending @ c) @ concat cs)" using Cons.prems(1) by simp
  have "suffix r (pending @ c)" using parser_loop_suffix [of "pending @ c" p] by (simp add: loop)
  then obtain u where "pending @ c = u @ r" by (auto simp: suffix_def)
  then have "led (r @ concat cs)" using led_drop [OF led, of "length u"] by simp
  moreover have "parser_loop r p1 = ([], p1, r)" using parser_loop_idle [of "pending @ c" p] by (simp add: loop)
  ultimately have "flatten (fst (parse_chunks r p1 cs)) = flatten (fst (parser_loop (r @ concat cs) p1)) \<and>
      snd (parse_chunks r p1 cs) = snd (parser_loop (r @ concat cs) p1)"
    by (rule Cons.IH)
  with parser_loop_append [OF led, of p] show ?case
    by (simp add: loop loops_to_def case_prod_beta)
qed simp

text \<open>The specification of the re-masker sees atoms only.\<close>

fun atoms_spec :: "remask_pattern list \<Rightarrow> byte option \<Rightarrow> item list \<Rightarrow> atom list \<Rightarrow> str \<Rightarrow> bool" where
  "atoms_spec ps left xs [] out = remasked True ps left xs out"
| "atoms_spec ps left xs (TextByte b # as) out = atoms_spec ps left (xs @ [Vis b]) as out"
| "atoms_spec ps left xs (ControlAtom s # as) out = atoms_spec ps left (xs @ map Ctl s) as out"
| "atoms_spec ps left xs (BoundaryAtom s # as) out =
     (\<exists>o1 o2. out = o1 @ s @ o2 \<and> remasked True ps left xs o1 \<and> atoms_spec ps None [] as o2)"

lemma atoms_spec_text: "atoms_spec ps left xs (map TextByte s @ as) out = atoms_spec ps left (xs @ map Vis s) as out"
  by (induction s arbitrary: xs) auto

lemma stream_spec_atoms: "stream_spec ps left xs es out = atoms_spec ps left xs (flatten es) out"
proof (induction es arbitrary: left xs out)
  case (Cons e es)
  then show ?case by (cases e) (simp_all add: atoms_spec_text)
qed simp

lemma stream_steps_run:
  "stream_steps rm es = Some (out, rm') \<Longrightarrow> stream_run rm (es @ fs) = prepend out (stream_run rm' fs)"
proof (induction es arbitrary: rm out)
  case Nil
  then show ?case by (cases "stream_run rm fs") (auto simp: prepend_def)
next
  case (Cons e es)
  from Cons.prems obtain o1 rm1 o2 where step: "stream_step rm e = Some (o1, rm1)"
    "stream_steps rm1 es = Some (o2, rm')" "out = o1 @ o2"
    by (auto simp: prepend_def split: option.splits)
  with Cons.IH [OF step(2)] show ?case by (cases "stream_run rm' fs") (auto simp: prepend_def)
qed

lemma terminal_run_events:
  assumes "terminal_run t cs = Some (Inr out, t')"
  shows "\<exists>rm. stream_run (tm_matcher t)
      (fst (parse_chunks (tm_pending t) (tm_parser t) cs) @
       closing_events (fst (snd (parse_chunks (tm_pending t) (tm_parser t) cs)))
         (snd (snd (parse_chunks (tm_pending t) (tm_parser t) cs)))) = Some (out, rm)"
  using assms
proof (induction cs arbitrary: t out)
  case Nil
  then obtain t1 where fin: "terminal_finish t = Some (out, t1)" by auto
  let ?c = "closing_events (tm_parser t) (tm_pending t)"
  obtain o1 rm1 where steps: "stream_steps (tm_matcher t) ?c = Some (o1, rm1)"
    using fin by (auto simp: terminal_finish_def split: option.splits)
  obtain o2 rm2 where last: "finish rm1 = Some (o2, rm2)" "out = o1 @ o2"
    using fin steps by (auto simp: terminal_finish_def prepend_def)
  have "stream_run (tm_matcher t) (?c @ []) = Some (out, rm2)"
    using stream_steps_run [OF steps, of "[]"] last by (simp add: prepend_def)
  then show ?case by auto
next
  case (Cons c cs)
  obtain r t1 where push: "terminal_push t c = Some (r, t1)" using Cons.prems by (auto split: option.splits)
  with Cons.prems obtain o1 where r: "r = Inr o1" by (cases r) auto
  obtain o2 where rest: "terminal_run t1 cs = Some (Inr o2, t')" "out = o1 @ o2"
  proof (cases "terminal_run t1 cs")
    case (Some q)
    then show thesis using that Cons.prems push r by (cases "fst q"; cases q) auto
  qed (use Cons.prems push r in auto)
  obtain es p1 pending where loop: "parser_loop (tm_pending t @ c) (tm_parser t) = (es, p1, pending)"
    by (metis prod_cases3)
  obtain rm1 where steps: "stream_steps (tm_matcher t) es = Some (o1, rm1)"
    and t1: "t1 = \<lparr>tm_matcher = rm1, tm_pending = pending, tm_parser = p1\<rparr>"
    using push r loop by (auto simp: terminal_push_def split: if_splits)
  from Cons.IH [OF rest(1)] obtain rm where "stream_run rm1 (fst (parse_chunks pending p1 cs) @
      closing_events (fst (snd (parse_chunks pending p1 cs))) (snd (snd (parse_chunks pending p1 cs)))) = Some (o2, rm)"
    by (auto simp: t1)
  with stream_steps_run [OF steps] rest(2) show ?case
    by (auto simp: loop case_prod_beta prepend_def)
qed


lemma utf8_valid_led: "utf8_valid s \<Longrightarrow> led s"
proof (induction s rule: utf8_valid.induct)
  case (1 s)
  show ?case
  proof (cases "s = []")
    case False
    then obtain n where n: "utf8_next s = Some n" "utf8_valid (drop n s)"
      using utf8_valid_step [OF "1.prems"] by metis
    note rest = "1.IH" [OF n]
    have width: "w = n" if "utf8_sequence_width (s ! 0) = Some w" for w
      using n(1) that by (cases s; auto simp: utf8_next.simps utf8_sequence_width_def byte_between_def
          split: if_splits list.splits)
    have inner: "utf8_sequence_width b = None" if "is_continuation b" for b
      using that by (auto simp: utf8_sequence_width_def is_continuation_def byte_between_def)
    show ?thesis
      unfolding led_def
    proof (intro allI impI)
      fix i w j
      assume i: "i < length s" "utf8_sequence_width (s ! i) = Some w" "0 < j" "j < w" "i + j < length s"
      consider "i = 0" | "0 < i" "i < n" | "n \<le> i" by linarith
      then show "is_continuation (s ! (i + j))"
      proof cases
        case 1
        with i width have "w = n" by simp
        with i 1 utf8_next_bytes(2) [OF n(1), of j] show ?thesis by simp
      next
        case 2
        with utf8_next_bytes(2) [OF n(1)] inner i(2) show ?thesis by simp
      next
        case 3
        with ledD [OF rest, of "i - n" w j] i show ?thesis by (simp add: le_diff_conv less_diff_conv2)
      qed
    qed
  qed (simp add: led_def)
qed

lemma stream_steps_prefix: "stream_run rm (es @ fs) = Some r \<Longrightarrow>
    \<exists>out rm' r'. stream_steps rm es = Some (out, rm') \<and> stream_run rm' fs = Some r'"
proof (induction es arbitrary: rm r)
  case (Cons e es)
  then obtain o1 rm1 r1 where step: "stream_step rm e = Some (o1, rm1)" "stream_run rm1 (es @ fs) = Some r1"
    by (auto simp: prepend_def split: option.splits)
  with Cons.IH [OF step(2)] show ?case by (auto simp: prepend_def)
qed auto

definition all_events :: "str \<Rightarrow> parser_state \<Rightarrow> str list \<Rightarrow> stream_event list" where
  "all_events pending p cs =
     (case parse_chunks pending p cs of (events, p', rest) \<Rightarrow> events @ closing_events p' rest)"

lemma all_events_Cons: "parser_loop (pending @ c) p = (es, p1, rest) \<Longrightarrow>
    all_events pending p (c # cs) = es @ all_events rest p1 cs"
  by (simp add: all_events_def case_prod_beta)

lemma terminal_run_total:
  "stream_run (tm_matcher t) (all_events (tm_pending t) (tm_parser t) cs) = Some r \<Longrightarrow> \<exists>q. terminal_run t cs = Some q"
proof (induction cs arbitrary: t r)
  case Nil
  then have "stream_run (tm_matcher t) (closing_events (tm_parser t) (tm_pending t) @ []) = Some r"
    by (simp add: all_events_def)
  from stream_steps_prefix [OF this] show ?case
    by (auto simp: terminal_finish_def prepend_def)
next
  case (Cons c cs)
  obtain es p1 pending where loop: "parser_loop (tm_pending t @ c) (tm_parser t) = (es, p1, pending)"
    by (metis prod_cases3)
  from Cons.prems stream_steps_prefix [of "tm_matcher t" es "all_events pending p1 cs" r]
  obtain o1 rm1 r1 where steps: "stream_steps (tm_matcher t) es = Some (o1, rm1)"
    and rest: "stream_run rm1 (all_events pending p1 cs) = Some r1"
    by (auto simp: all_events_Cons [OF loop])
  from Cons.IH [of "\<lparr>tm_matcher = rm1, tm_pending = pending, tm_parser = p1\<rparr>"] rest
  have "\<exists>q. terminal_run \<lparr>tm_matcher = rm1, tm_pending = pending, tm_parser = p1\<rparr> cs = Some q" by auto
  then show ?case using steps loop by (auto simp: terminal_push_def)
qed

text \<open>The only error is a control sequence that does not end within a mebibyte.\<close>

lemma terminal_run_error:
  "terminal_run t cs = Some (Inl e, t') \<Longrightarrow> MAX_PENDING_CONTROL_BYTES < length (tm_pending t) + length (concat cs)"
proof (induction cs arbitrary: t)
  case (Cons c cs)
  obtain es p1 pending where loop: "parser_loop (tm_pending t @ c) (tm_parser t) = (es, p1, pending)"
    by (metis prod_cases3)
  have len: "length pending \<le> length (tm_pending t) + length c"
    using suffix_length_le [OF parser_loop_suffix [of "tm_pending t @ c" "tm_parser t"]] by (simp add: loop)
  obtain r t1 where push: "terminal_push t c = Some (r, t1)" using Cons.prems by (auto split: option.splits)
  show ?case
  proof (cases r)
    case (Inl e1)
    with push loop len show ?thesis by (auto simp: terminal_push_def split: if_splits)
  next
    case (Inr o1)
    then have t1: "tm_pending t1 = pending" using push loop by (auto simp: terminal_push_def split: if_splits)
    have "terminal_run t1 cs = Some (Inl e, t')"
      using Cons.prems push Inr by (cases "terminal_run t1 cs"; auto split: sum.splits)
    from Cons.IH [OF this] t1 len show ?thesis by simp
  qed
qed auto

definition terminal_events :: "str \<Rightarrow> stream_event list" where
  "terminal_events s = (case parser_loop s initial_parser of (events, p, rest) \<Rightarrow> events @ closing_events p rest)"

lemma all_events_whole:
  assumes "led (concat cs)"
  shows "flatten (all_events [] initial_parser cs) = flatten (terminal_events (concat cs))"
proof -
  have "parser_loop [] initial_parser = ([], initial_parser, [])" by (simp add: parser_loop.simps)
  from parse_chunks_whole [of "[]", OF _ this] assms show ?thesis
    by (simp add: all_events_def terminal_events_def case_prod_beta)
qed





section \<open>The keyboard frame of a full-screen program\<close>

text \<open>
  What the terminal does with the sequences it receives: it keeps the keyboard modes of the
  alternate screen on a stack, which programs push to and pop from.
\<close>

record screen =
  sc_alternate :: bool
  sc_modes :: nat

definition screen_event :: "screen \<Rightarrow> stream_event \<Rightarrow> screen" where
  "screen_event sc e =
     (case e of
        Boundary s \<Rightarrow>
          (let sc = (case alternate_screen_change s of Some on \<Rightarrow> sc\<lparr>sc_alternate := on\<rparr> | None \<Rightarrow> sc)
           in if sc_alternate sc
              then (case kitty_change s of
                      Some KittyPush \<Rightarrow> sc\<lparr>sc_modes := Suc (sc_modes sc)\<rparr>
                    | Some (KittyPop n) \<Rightarrow> sc\<lparr>sc_modes := sc_modes sc - n\<rparr>
                    | None \<Rightarrow> sc)
              else sc)
      | _ \<Rightarrow> sc)"

definition screen_of :: "parser_state \<Rightarrow> screen" where
  "screen_of p = \<lparr>sc_alternate = tp_alternate p, sc_modes = tp_depth p\<rparr>"

definition framed :: "parser_state \<Rightarrow> bool" where
  "framed p \<longleftrightarrow> (tp_alternate p \<or> tp_depth p = 0)"

lemma decimal_loop_append:
  "decimal_loop v (s @ t) = Option.bind (decimal_loop v s) (\<lambda>v. decimal_loop v t)"
  by (induction s arbitrary: v) auto

lemma decimal_loop_show: "n < 2 ^ 64 \<Longrightarrow> decimal_loop 0 (show_nat n) = Some n"
proof (induction n rule: show_nat.induct)
  case (1 n)
  have digit: "is_ascii_digit (char_of (48 + k))" "code (char_of (48 + k) :: char) = 48 + k" if "k < 10" for k :: nat
    using that by (simp_all add: is_ascii_digit_def byte_between_def)
  show ?case
  proof (cases "n < 10")
    case True
    then show ?thesis using digit [OF True] by (subst show_nat.simps) (simp add: sat_add_usize_def)
  next
    case False
    have "n mod 10 < 10" by simp
    note d = digit [OF this]
    have "decimal_loop 0 (show_nat (n div 10)) = Some (n div 10)" using "1.IH" [OF False] "1.prems" by simp
    moreover have "n div 10 * 10 + n mod 10 = n" by simp
    moreover have "min (n div 10 * 10) (2 ^ 64 - 1) = n div 10 * 10" "min n (2 ^ 64 - 1) = n"
      using "1.prems" by (simp_all add: min_def)
    ultimately show ?thesis
      using False d by (subst show_nat.simps) (simp add: decimal_loop_append sat_add_usize_def)
  qed
qed

lemma csi_body_esc: "csi_body (ESC # CHR ''['' # body) = Some body"
  by (simp add: csi_body_def strip_prefix_def)

lemma kitty_pop_change:
  assumes "0 < n" and "n < 2 ^ 64"
  shows "kitty_change (kitty_pop n) = Some (KittyPop n)" and "alternate_screen_change (kitty_pop n) = None"
proof -
  have body: "csi_body (kitty_pop n) = Some (CHR ''<'' # (if n = 1 then [] else show_nat n) @ ''u'')"
    using csi_body_esc by (simp add: kitty_pop_def)
  have "parse_decimal (show_nat n) = Some n" using decimal_loop_show [OF assms(2)] by (simp add: parse_decimal_def)
  with assms(1) show "kitty_change (kitty_pop n) = Some (KittyPop n)"
    by (simp add: kitty_change_def body strip_suffix_def suffix_def parse_decimal_def)
  show "alternate_screen_change (kitty_pop n) = None"
    by (simp add: alternate_screen_change_def body)
qed

lemma kitty_push_change: "kitty_change (ESC # ''[>0u'') = Some KittyPush" "alternate_screen_change (ESC # ''[>0u'') = None"
  by (simp_all add: kitty_change_def alternate_screen_change_def csi_body_esc strip_suffix_def suffix_def)

lemma last_of_suffix: "strip_suffix [c] body = Some rest \<Longrightarrow> body \<noteq> [] \<and> last body = c"
  by (auto simp: strip_suffix_def suffix_def split: if_splits)

lemma kitty_no_screen_change:
  assumes "alternate_screen_change s = Some on"
  shows "kitty_change s = None"
proof -
  obtain body where body: "csi_body s = Some body" "last body = CHR ''h'' \<or> last body = CHR ''l''"
    using assms by (auto simp: alternate_screen_change_def bind_eq_Some_conv split: if_splits)
  then show ?thesis using last_of_suffix [of "CHR ''u''" body]
    by (cases "strip_suffix ''u'' body") (auto simp: kitty_change_def)
qed

lemma sgr_changes_nothing:
  assumes "is_sgr s"
  shows "kitty_change s = None" and "alternate_screen_change s = None"
proof -
  obtain body rest where body: "csi_body s = Some body" "strip_suffix ''m'' body = Some rest"
    using assms by (auto simp: is_sgr_def bind_eq_Some_conv split: option.splits)
  note l = last_of_suffix [OF body(2)]
  with body show "kitty_change s = None" using last_of_suffix [of "CHR ''u''" body]
    by (cases "strip_suffix ''u'' body") (auto simp: kitty_change_def)
  from l body show "alternate_screen_change s = None" by (auto simp: alternate_screen_change_def)
qed

lemma not_csi_changes_nothing: "csi_body s = None \<Longrightarrow> screen_event sc (Boundary s) = sc"
  by (simp add: screen_event_def kitty_change_def alternate_screen_change_def)

lemma push_csi_screen:
  assumes "framed p" and "tp_depth p < 2 ^ 64 - 1" and "push_csi s p = (es, p')"
  shows "fold (\<lambda>e sc. screen_event sc e) es (screen_of p) = screen_of p'" and "framed p'"
    and "tp_depth p' \<le> Suc (tp_depth p)"
proof -
  have all: "fold (\<lambda>e sc. screen_event sc e) es (screen_of p) = screen_of p' \<and> framed p' \<and> tp_depth p' \<le> Suc (tp_depth p)"
  proof (cases "alternate_screen_change s")
    case None
    show ?thesis
    proof (cases "is_sgr s")
      case True
      with assms sgr_changes_nothing [OF True] show ?thesis
        by (auto simp: push_csi_def screen_event_def)
    next
      case False
      with assms None show ?thesis
        by (auto simp: push_csi_def screen_event_def screen_of_def framed_def sat_add_usize_def
            split: option.splits kitty_stack_change.splits if_splits)
    qed
  next
    case (Some on)
    note kitty = kitty_no_screen_change [OF Some]
    show ?thesis
    proof (cases on)
      case True
      with assms Some kitty kitty_push_change show ?thesis
        by (auto simp: push_csi_def screen_event_def screen_of_def framed_def split: if_splits)
    next
      case False
      with assms Some kitty kitty_pop_change [of "tp_depth p"] show ?thesis
        by (auto simp: push_csi_def screen_event_def screen_of_def framed_def split: if_splits)
    qed
  qed
  then show "fold (\<lambda>e sc. screen_event sc e) es (screen_of p) = screen_of p'" "framed p'"
    "tp_depth p' \<le> Suc (tp_depth p)" by auto
qed

lemma control_end_terminator:
  "control_end ends s i = Some (a, b) \<Longrightarrow> i \<le> a \<and> (ends (s ! (a - i)) \<and> b = a + 1 \<or>
     s ! (a - i) = ESC \<and> s ! Suc (a - i) = CHR 0x5C \<and> b = a + 2)"
proof (induction ends s i rule: control_end.induct)
  case (1 ends s i)
  from "1.prems" have s: "s \<noteq> []" by (subst (asm) control_end.simps) (auto split: if_splits)
  show ?case
  proof (cases "lead_of s")
    case Stray
    show ?thesis
    proof (cases "ends (hd s) \<or> hd s = ESC \<and> byte_at s 1 = Some (CHR 0x5C)")
      case True
      with "1.prems" s Stray show ?thesis
        by (subst (asm) control_end.simps) (auto simp: byte_at_def hd_conv_nth split: if_splits)
    next
      case False
      with "1.prems" s Stray have "control_end ends (tl s) (i + 1) = Some (a, b)"
        by (subst (asm) control_end.simps) auto
      with "1.IH"(1) [OF s Stray] False have *: "i + 1 \<le> a \<and> (ends (tl s ! (a - (i + 1))) \<and> b = a + 1 \<or>
          tl s ! (a - (i + 1)) = ESC \<and> tl s ! Suc (a - (i + 1)) = CHR 0x5C \<and> b = a + 2)" by blast
      then obtain k where "a = i + 1 + k" using le_Suc_ex by blast
      with * s show ?thesis by (cases s) auto
    qed
  next
    case CutOff
    with "1.prems" s show ?thesis by (subst (asm) control_end.simps) simp
  next
    case (Whole w)
    with "1.prems" s have "control_end ends (drop w s) (i + w) = Some (a, b)"
      by (subst (asm) control_end.simps) simp
    from "1.IH"(2) [OF s Whole this] lead_width [OF Whole] show ?thesis by (auto simp: algebra_simps)
  qed
qed

abbreviation screen_run :: "stream_event list \<Rightarrow> screen \<Rightarrow> screen" where
  "screen_run \<equiv> fold (\<lambda>e sc. screen_event sc e)"

lemma screen_text [simp]: "screen_event sc (Text s) = sc"
  by (simp add: screen_event_def)

lemma csi_body_other: "c \<noteq> CHR ''['' \<Longrightarrow> csi_body [ESC, c] = None" "c \<noteq> CHR 0x9B \<Longrightarrow> csi_body [c] = None"
  by (simp_all add: csi_body_def strip_prefix_def ESC_def)

lemma string_end_screen:
  assumes "string_end kind s = Some (a, b)"
  shows "screen_event sc (Boundary (subtext s a b)) = sc"
proof -
  from assms obtain ends where ends: "control_end ends s 0 = Some (a, b)" "\<And>c. ends c \<Longrightarrow> c \<noteq> CHR 0x9B"
    by (cases kind) (auto simp: string_end_def osc_end_def string_control_end_def)
  note b = control_end_start [OF ends(1)]
  from control_end_terminator [OF ends(1)] show ?thesis
  proof (elim conjE disjE)
    assume e: "ends (s ! (a - 0))" "b = a + 1"
    then have "subtext s a b = [s ! a]" using b by (simp add: subtext_def take_Suc_conv_app_nth)
    with e ends(2) [of "s ! a"] csi_body_other(2) not_csi_changes_nothing show ?thesis by simp
  next
    assume e: "s ! (a - 0) = ESC" "s ! Suc (a - 0) = CHR 0x5C" "b = a + 2"
    then have "subtext s a b = [ESC, CHR 0x5C]"
      using b
      by (simp add: subtext_def numeral_2_eq_2 flip: Cons_nth_drop_Suc)
    with csi_body_other(1) [of "CHR 0x5C"] not_csi_changes_nothing show ?thesis by simp
  qed
qed

lemma parser_step_screen:
  assumes step: "parser_step s p = Some (es, p', s')" and "s \<noteq> []"
    and "framed p" and "tp_depth p + length s < 2 ^ 64"
  shows "screen_run es (screen_of p) = screen_of p' \<and> framed p' \<and> tp_depth p' + length s' \<le> tp_depth p + length s"
proof -
  have shorter: "length s' < length s" by (rule parser_step_consumes [OF step assms(2)])
  have same: ?thesis if "screen_run es (screen_of p) = screen_of p" "tp_alternate p' = tp_alternate p" "tp_depth p' = tp_depth p"
    using that assms(3) shorter by (simp add: screen_of_def framed_def)
  have csi: ?thesis if "csi_step k s p = Some (es, p', s')" for k
  proof -
    obtain sq where "push_csi sq p = (es, p')"
      using \<open>csi_step k s p = Some (es, p', s')\<close> by (auto simp: csi_step_def Let_def case_prod_beta split: option.splits)
    from push_csi_screen [OF assms(3) _ this] assms(2,4) shorter show ?thesis by (cases s) auto
  qed
  have opened: ?thesis if "open_string n kind s p = Some (es, p', s')" "csi_body (take n s) = None" for n kind
    using that not_csi_changes_nothing by (intro same) (auto simp: open_string_def)
  show ?thesis
  proof (cases "tp_string p")
    case (Some kind)
    show ?thesis
    proof (cases "string_end kind s")
      case None
      with step Some show ?thesis
        by (intro same) (auto simp: parser_step_def string_step_def string_end_def Let_def split: if_splits)
    next
      case (Some r)
      then obtain a b where r: "string_end kind s = Some (a, b)" by (cases r) auto
      with step \<open>tp_string p = Some kind\<close> string_end_screen [OF r] show ?thesis
        by (intro same) (auto simp: parser_step_def string_step_def string_end_def)
    qed
  next
    case None
    obtain b r where s: "s = b # r" using assms(2) by (cases s) auto
    show ?thesis
    proof (cases "b = ESC")
      case True
      then obtain c r' where r: "r = c # r'"
        using step None s by (cases r) (auto simp: parser_step_def byte_at_def)
      have two: "csi_body (take 2 s) = None" if "c \<noteq> CHR ''[''" using that s r True csi_body_other(1) by simp
      from None s r True have "parser_step s p =
          (if c = CHR ''['' then csi_step 2 s p
           else if c = CHR '']'' then open_string 2 Osc s p
           else if c \<in> {CHR ''P'', CHR ''X'', CHR ''^'', CHR ''_''} then open_string 2 OtherString s p
           else Some ([Boundary (take 2 s)], p, drop 2 s))"
        by (simp add: parser_step_def byte_at_def)
      with step have cases: "(if c = CHR ''['' then csi_step 2 s p
           else if c = CHR '']'' then open_string 2 Osc s p
           else if c \<in> {CHR ''P'', CHR ''X'', CHR ''^'', CHR ''_''} then open_string 2 OtherString s p
           else Some ([Boundary (take 2 s)], p, drop 2 s)) = Some (es, p', s')" by simp
      then consider "csi_step 2 s p = Some (es, p', s')"
        | kind where "open_string 2 kind s p = Some (es, p', s')" "c \<noteq> CHR ''[''"
        | "es = [Boundary (take 2 s)]" "p' = p" "c \<noteq> CHR ''[''"
        by (auto split: if_splits)
      then show ?thesis
      proof cases
        case 3
        then show ?thesis using two not_csi_changes_nothing by (intro same) auto
      qed (use csi opened two in blast)+
    next
      case False
      have one: "csi_body (take 1 s) = None" if "b \<noteq> CHR 0x9B" using that s csi_body_other(2) by simp
      from step None s False consider "csi_step 1 s p = Some (es, p', s')"
        | kind where "open_string 1 kind s p = Some (es, p', s')" "b \<noteq> CHR 0x9B"
        | "es = [Boundary (take 1 s)]" "p' = p" "b \<noteq> CHR 0x9B"
        | t where "es = [Text t]" "p' = p"
        by (auto simp: parser_step_def Let_def split: if_splits)
      then show ?thesis
      proof cases
        case 3
        then show ?thesis using one not_csi_changes_nothing by (intro same) auto
      next
        case 4
        then show ?thesis by (intro same) auto
      qed (use csi opened one in blast)+
    qed
  qed
qed

lemma parser_loop_screen:
  assumes "framed p" and "tp_depth p + length s < 2 ^ 64"
  shows "screen_run (fst (parser_loop s p)) (screen_of p) = screen_of (fst (snd (parser_loop s p))) \<and>
    framed (fst (snd (parser_loop s p)))"
  using assms
proof (induction s p rule: parser_loop.induct)
  case (1 s p)
  show ?case
  proof (cases "s = [] \<or> parser_step s p = None")
    case True
    then have "parser_loop s p = ([], p, s)" by (auto simp: parser_loop.simps [of s])
    then show ?thesis using "1.prems" by simp
  next
    case False
    then obtain es p' s' where step: "parser_step s p = Some (es, p', s')" and s: "s \<noteq> []" by auto
    note here = parser_step_screen [OF step s "1.prems"]
    then have "screen_run (fst (parser_loop s' p')) (screen_of p') = screen_of (fst (snd (parser_loop s' p'))) \<and>
        framed (fst (snd (parser_loop s' p')))"
      using "1.IH" [OF s step refl refl] "1.prems"(2) by simp
    with here show ?thesis using step s by (simp add: parser_loop.simps [of s] case_prod_beta)
  qed
qed

text \<open>
  C14. The keyboard frame of a full-screen program is closed with its screen: whatever a program
  writes, the terminal that receives the calls made for it shows the alternate screen exactly when
  the parser says so, has exactly as many keyboard modes on its stack there as the parser counts,
  and has none of them left whenever it is back on the main screen: what the program pushed and did
  not pop is popped before it leaves.
\<close>

theorem keyboard_frame_closed:
  assumes "length s < 2 ^ 64"
  shows "(case parser_loop s initial_parser of (events, p, rest) \<Rightarrow>
      screen_run (terminal_events s) \<lparr>sc_alternate = False, sc_modes = 0\<rparr> =
        \<lparr>sc_alternate = tp_alternate p, sc_modes = tp_depth p\<rparr> \<and>
      (tp_alternate p \<or> tp_depth p = 0))"
proof -
  have start: "screen_of initial_parser = \<lparr>sc_alternate = False, sc_modes = 0\<rparr>" "framed initial_parser"
    by (simp_all add: screen_of_def framed_def initial_parser_def)
  have closing: "screen_run (closing_events p rest) sc = sc" for p rest sc
    using not_csi_changes_nothing [of "[ESC, CHR 0x5C]"] csi_body_other(1) by (simp add: closing_events_def)
  from parser_loop_screen [OF start(2), of s] assms closing show ?thesis
    unfolding start(1) [symmetric]
    by (simp add: terminal_events_def case_prod_beta screen_of_def framed_def initial_parser_def)
qed

lemma keyboard_frame_closed_witness:
  "(case parser_loop (ESC # ''[?1049h'' @ ESC # ''[>1u'') initial_parser of (events, p, rest) \<Rightarrow>
      screen_run (terminal_events (ESC # ''[?1049h'' @ ESC # ''[>1u'')) \<lparr>sc_alternate = False, sc_modes = 0\<rparr> =
        \<lparr>sc_alternate = tp_alternate p, sc_modes = tp_depth p\<rparr> \<and>
      (tp_alternate p \<or> tp_depth p = 0))"
  by (rule keyboard_frame_closed) simp


text \<open>
  Outside UTF-8 the cut matters: a terminator that follows a stray lead byte is not seen when the
  chunk ends before the character could be complete, and the text after it stays in the payload.
\<close>

lemma terminator_missed:
  "osc_end (''0;'' @ [CHR 0xE9, CHR 0x07]) = None"
  "streamable_control_payload_len (''0;'' @ [CHR 0xE9, CHR 0x07]) = 4"
  "osc_end (''0;'' @ [CHR 0xE9, CHR 0x07] @ ''x'') = Some (3, 4)"
  by code_simp+

end
