(* ===== verification/Shell.thy ===== *)
theory Shell
  imports Utf8
begin

text \<open>
  \<open>crates/pentect-core/src/detect/shell.rs\<close>: the words of a command line with the offsets their
  bytes came from, the commands between control operators, and PowerShell parameters. The lemmas
  show that a word consists of bytes of the line, in order.
\<close>


section \<open>Words\<close>

text \<open>\<open>str::char_indices\<close>.\<close>

fun index_chars :: "nat \<Rightarrow> str list \<Rightarrow> (nat \<times> str) list" where
  "index_chars i [] = []"
| "index_chars i (c # cs) = (i, c) # index_chars (i + length c) cs"

definition char_indices :: "str \<Rightarrow> (nat \<times> str) list" where
  "char_indices s = index_chars 0 (utf8_chars s)"

record token =
  tk_value :: str
  tk_raw :: "nat list"

definition delimits_token :: "str \<Rightarrow> bool" where
  "delimits_token ch \<longleftrightarrow> (case ch of [b] \<Rightarrow> is_ascii_whitespace b | _ \<Rightarrow> False)"

definition is_control :: "str \<Rightarrow> bool" where
  "is_control ch \<longleftrightarrow> ch \<in> {'';'', ''|'', ''<'', ''>''}"

definition is_quote :: "str \<Rightarrow> bool" where
  "is_quote ch \<longleftrightarrow> ch \<in> {[CHR 0x27], [CHR 0x22]}"

definition escapes_quote :: "str \<Rightarrow> str option \<Rightarrow> (nat \<times> str) list \<Rightarrow> bool" where
  "escapes_quote ch quote cs \<longleftrightarrow> ch = [CHR 0x5C] \<and> quote \<noteq> None \<and> cs \<noteq> [] \<and> Some (snd (hd cs)) = quote"

definition char_offsets :: "nat \<Rightarrow> str \<Rightarrow> nat list" where
  "char_offsets i ch = map (\<lambda>k. i + k) [0..<length ch]"

text \<open>One word, from its first character: what it says, where its bytes are, and what is left.\<close>

fun token_run ::
    "nat \<Rightarrow> (nat \<times> str) list \<Rightarrow> str option \<Rightarrow> str \<Rightarrow> nat list \<Rightarrow>
     str \<times> nat list \<times> (nat \<times> str) list" where
  "token_run base [] quote v m = (v, m, [])"
| "token_run base ((i, ch) # cs) quote v m =
     (if quote = None \<and> (delimits_token ch \<or> is_control ch) then (v, m, (i, ch) # cs)
      else if escapes_quote ch quote cs
      then token_run base (tl cs) quote (v @ snd (hd cs)) (m @ char_offsets (base + fst (hd cs)) (snd (hd cs)))
      else if is_quote ch \<and> quote = Some ch then token_run base cs None v m
      else if is_quote ch \<and> quote = None then token_run base cs (Some ch) v m
      else token_run base cs quote (v @ ch) (m @ char_offsets (base + i) ch))"

lemma token_run_length: "length (snd (snd (token_run base cs quote v m))) \<le> length cs"
proof (induction base cs quote v m rule: token_run.induct)
  case (2 base i ch cs quote v m)
  then show ?case by (cases cs) (auto intro: le_SucI)
qed simp

lemma token_run_consumes:
  assumes "cs \<noteq> []" and "\<not> delimits_token (snd (hd cs))" and "\<not> is_control (snd (hd cs))"
  shows "length (snd (snd (token_run base cs None v m))) < length cs"
proof -
  obtain i ch cs' where "cs = (i, ch) # cs'" using assms(1) by (cases cs) auto
  with assms(2,3) show ?thesis
    using token_run_length [of base cs'] by (auto simp: le_imp_less_Suc escapes_quote_def)
qed

abbreviation skip_delimiters :: "(nat \<times> str) list \<Rightarrow> (nat \<times> str) list" where
  "skip_delimiters \<equiv> dropWhile (\<lambda>c. delimits_token (snd c))"

abbreviation skip_controls :: "(nat \<times> str) list \<Rightarrow> (nat \<times> str) list" where
  "skip_controls \<equiv> dropWhile (\<lambda>c. \<not> delimits_token (snd c) \<and> is_control (snd c))"

lemma tokens_shrink:
  assumes "skip_delimiters cs \<noteq> []" and "token_run base (skip_delimiters cs) None v m = (v', m', rest)"
  shows "length (skip_controls rest) < length cs"
proof -
  let ?cs = "skip_delimiters cs"
  have start: "\<not> delimits_token (snd (hd ?cs))" using assms(1) by (rule hd_dropWhile)
  have "length (skip_controls rest) < length ?cs"
  proof (cases "is_control (snd (hd ?cs))")
    case True
    then obtain i ch cs2 where cs: "?cs = (i, ch) # cs2" "is_control ch" using assms(1) by (cases ?cs) auto
    with assms(2) have "rest = ?cs" by simp
    then have "skip_controls rest = skip_controls cs2" using cs start by simp
    then show ?thesis using cs by (simp add: le_imp_less_Suc length_dropWhile_le)
  next
    case False
    have "length rest < length ?cs"
      using token_run_consumes [OF assms(1) start False, of base v m] assms(2) by simp
    then show ?thesis using length_dropWhile_le by (rule le_less_trans [rotated])
  qed
  then show ?thesis using length_dropWhile_le by (rule less_le_trans)
qed

function tokens_from :: "nat \<Rightarrow> (nat \<times> str) list \<Rightarrow> token list" where
  "tokens_from base cs =
     (if skip_delimiters cs = [] then []
      else
        (case token_run base (skip_delimiters cs) None [] [] of
           (v, m, rest) \<Rightarrow>
             (if v \<noteq> [] then [\<lparr>tk_value = v, tk_raw = m\<rparr>] else []) @
             tokens_from base (skip_controls rest)))"
  by pat_completeness auto
termination
  by (relation "measure (\<lambda>(base, cs). length cs)") (auto simp del: dropWhile_eq_Nil_conv intro: tokens_shrink [OF _ sym])

declare tokens_from.simps [simp del]

definition shell_tokens :: "str \<Rightarrow> nat \<Rightarrow> token list" where
  "shell_tokens line base = tokens_from base (char_indices line)"


section \<open>Commands\<close>

definition control_between :: "str \<Rightarrow> token \<Rightarrow> token \<Rightarrow> bool" where
  "control_between s t u \<longleftrightarrow>
     (if tk_raw t = [] \<or> tk_raw u = [] then False
      else
        (case str_slice s (last (tk_raw t) + 1) (hd (tk_raw u)) of
           None \<Rightarrow> False
         | Some gap \<Rightarrow> list_ex is_control (utf8_chars gap)))"

fun command_slices_from :: "str \<Rightarrow> token list \<Rightarrow> token list \<Rightarrow> token list list" where
  "command_slices_from s cur [] = [cur]"
| "command_slices_from s cur [t] = [cur @ [t]]"
| "command_slices_from s cur (t # u # ts) =
     (if control_between s t u then (cur @ [t]) # command_slices_from s [] (u # ts)
      else command_slices_from s (cur @ [t]) (u # ts))"

definition command_slices :: "token list \<Rightarrow> str \<Rightarrow> token list list" where
  "command_slices ts s = (if ts = [] then [] else command_slices_from s [] ts)"

text \<open>\<open>rsplit\<close> at a slash or a backslash, then the extension.\<close>

definition last_component :: "str \<Rightarrow> str" where
  "last_component s = rev (takeWhile (\<lambda>b. b \<noteq> CHR ''/'' \<and> b \<noteq> CHR 0x5C) (rev s))"

definition shell_basename :: "str \<Rightarrow> str" where
  "shell_basename s =
     (let base = last_component s
      in if 4 < length base
         then
           (case str_slice base (length base - 4) (length base) of
              None \<Rightarrow> base
            | Some ext \<Rightarrow>
                if eq_ignore_ascii_case ext ''.exe''
                then (case str_slice base 0 (length base - 4) of Some s \<Rightarrow> s | None \<Rightarrow> base)
                else base)
         else base)"

definition contains_ascii_ci :: "str \<Rightarrow> str \<Rightarrow> bool" where
  "contains_ascii_ci s needle \<longleftrightarrow> list_ex (\<lambda>w. eq_ignore_ascii_case w needle) (windows (length needle) s)"


section \<open>PowerShell parameters\<close>

datatype parameter_form = Separate | Bound nat

definition powershell_parameter_form :: "str \<Rightarrow> str \<Rightarrow> parameter_form option" where
  "powershell_parameter_form v name =
     (if eq_ignore_ascii_case v name then Some Separate
      else
        (case str_slice v 0 (length name) of
           None \<Rightarrow> None
         | Some start \<Rightarrow>
             if \<not> eq_ignore_ascii_case start name then None
             else if length name < length v \<and> v ! length name \<in> {CHR '':'', CHR ''=''}
             then Some (Bound (length name + 1))
             else None))"

fun parameter_value_from :: "nat \<Rightarrow> token list \<Rightarrow> str \<Rightarrow> (nat \<times> nat) option" where
  "parameter_value_from i [] name = None"
| "parameter_value_from i (t # ts) name =
     (case (case powershell_parameter_form (tk_value t) name of
              None \<Rightarrow> None
            | Some Separate \<Rightarrow> if ts = [] then None else Some (i + 1, 0)
            | Some (Bound start) \<Rightarrow>
                if start < length (tk_value t) then Some (i, start)
                else if ts = [] then None else Some (i + 1, 0)) of
        Some r \<Rightarrow> Some r
      | None \<Rightarrow> parameter_value_from (i + 1) ts name)"

definition powershell_parameter_value :: "token list \<Rightarrow> str \<Rightarrow> (nat \<times> nat) option" where
  "powershell_parameter_value ts name = parameter_value_from 0 ts name"

definition has_powershell_parameter :: "token list \<Rightarrow> str \<Rightarrow> bool" where
  "has_powershell_parameter ts name \<longleftrightarrow>
     list_ex (\<lambda>t. powershell_parameter_form (tk_value t) name \<noteq> None) ts"


section \<open>What a word is made of\<close>

text \<open>The offsets of the bytes of a word: as many as bytes, increasing, each holding its byte.\<close>

definition traced :: "str \<Rightarrow> nat \<Rightarrow> str \<Rightarrow> nat list \<Rightarrow> bool" where
  "traced line base v m \<longleftrightarrow>
     length m = length v \<and> sorted_wrt (<) m \<and>
     (\<forall>k < length v. base \<le> m ! k \<and> m ! k < base + length line \<and> line ! (m ! k - base) = v ! k)"

definition placed :: "str \<Rightarrow> (nat \<times> str) list \<Rightarrow> bool" where
  "placed line cs \<longleftrightarrow>
     (\<forall>(i, c) \<in> set cs. i + length c \<le> length line \<and> subtext line i (i + length c) = c) \<and>
     sorted_wrt (\<lambda>p q. fst p + length (snd p) \<le> fst q) cs"

definition ahead :: "nat \<Rightarrow> nat list \<Rightarrow> (nat \<times> str) list \<Rightarrow> bool" where
  "ahead base m cs \<longleftrightarrow> (\<forall>x \<in> set m. \<forall>p \<in> set cs. x < base + fst p)"

lemma placed_tl: "placed line (p # cs) \<Longrightarrow> placed line cs"
  by (simp add: placed_def)

lemma placed_index: "placed (pre @ concat cs) (index_chars (length pre) cs) \<and>
    (\<forall>p \<in> set (index_chars (length pre) cs). length pre \<le> fst p)"
proof (induction cs arbitrary: pre)
  case (Cons c cs)
  from Cons.IH [of "pre @ c"] show ?case
    by (auto simp: placed_def subtext_def)
qed (simp add: placed_def)

lemma placed_char_indices: "placed line (char_indices line)"
  using placed_index [of "[]" "utf8_chars line"] by (simp add: char_indices_def)

lemma traced_append:
  assumes "traced line base v m" and "placed line (p # cs)" and "ahead base m (p # cs)"
  shows "traced line base (v @ snd p) (m @ char_offsets (base + fst p) (snd p))"
    and "ahead base (m @ char_offsets (base + fst p) (snd p)) cs"
proof -
  obtain i c where p: "p = (i, c)" by (cases p)
  have c: "i + length c \<le> length line" "subtext line i (i + length c) = c"
    using assms(2) by (auto simp: placed_def p)
  have at: "line ! (i + k) = c ! k" if "k < length c" for k
  proof -
    have "subtext line i (i + length c) ! k = line ! (i + k)" using c(1) that by (simp add: subtext_def)
    then show ?thesis by (simp add: c(2))
  qed
  have le: "\<forall>x \<in> set m. x < base + i" using assms(3) by (simp add: ahead_def p)
  with assms(1) at c(1) show "traced line base (v @ snd p) (m @ char_offsets (base + fst p) (snd p))"
    by (auto simp: traced_def p char_offsets_def nth_append sorted_wrt_append sorted_wrt_map trans_less_add1
        sorted_wrt_upt add.assoc)
  show "ahead base (m @ char_offsets (base + fst p) (snd p)) cs"
  proof -
    have "\<forall>q \<in> set cs. i + length c \<le> fst q" using assms(2) by (auto simp: placed_def p)
    with assms(3) show ?thesis by (force simp: ahead_def p char_offsets_def)
  qed
qed

lemma token_run_traced:
  assumes "traced line base v m" and "placed line cs" and "ahead base m cs"
    and "token_run base cs quote v m = (v', m', rest)"
  shows "traced line base v' m' \<and> suffix rest cs"
  using assms
proof (induction base cs quote v m rule: token_run.induct)
  case (2 base i ch cs quote v m)
  note tail = placed_tl [OF "2.prems"(2)] and ahead = "2.prems"(3)
  have ahead_tl: "ahead base m cs" using ahead by (simp add: ahead_def)
  note ext = traced_append [OF "2.prems"(1,2,3)]
  consider (stop) "quote = None \<and> (delimits_token ch \<or> is_control ch)"
    | (esc) "\<not> (quote = None \<and> (delimits_token ch \<or> is_control ch))" "escapes_quote ch quote cs"
    | (close) "\<not> (quote = None \<and> (delimits_token ch \<or> is_control ch))" "\<not> escapes_quote ch quote cs"
        "is_quote ch \<and> quote = Some ch"
    | (open_q) "\<not> (quote = None \<and> (delimits_token ch \<or> is_control ch))" "\<not> escapes_quote ch quote cs"
        "\<not> (is_quote ch \<and> quote = Some ch)" "is_quote ch \<and> quote = None"
    | (take_c) "\<not> (quote = None \<and> (delimits_token ch \<or> is_control ch))" "\<not> escapes_quote ch quote cs"
        "\<not> (is_quote ch \<and> quote = Some ch)" "\<not> (is_quote ch \<and> quote = None)" by blast
  then show ?case
  proof cases
    case stop
    with "2.prems" show ?thesis by auto
  next
    case esc
    then obtain q cs2 where cs: "cs = q # cs2" by (cases cs) (auto simp: escapes_quote_def)
    note ext2 = traced_append [OF "2.prems"(1) tail [unfolded cs] ahead_tl [unfolded cs]]
    have run: "token_run base (tl cs) quote (v @ snd (hd cs)) (m @ char_offsets (base + fst (hd cs)) (snd (hd cs))) = (v', m', rest)"
      using "2.prems"(4) esc by simp
    have "placed line (tl cs)" "ahead base (m @ char_offsets (base + fst (hd cs)) (snd (hd cs))) (tl cs)"
      "traced line base (v @ snd (hd cs)) (m @ char_offsets (base + fst (hd cs)) (snd (hd cs)))"
      using ext2 placed_tl [OF tail [unfolded cs]] by (simp_all add: cs)
    from "2.IH"(1) [OF esc this(3,1,2) run] show ?thesis using cs by (simp add: suffix_ConsI)
  next
    case close
    with "2.prems"(4) have "token_run base cs None v m = (v', m', rest)" by simp
    from "2.IH"(2) [OF close "2.prems"(1) tail ahead_tl this] show ?thesis by (simp add: suffix_ConsI)
  next
    case open_q
    with "2.prems"(4) have "token_run base cs (Some ch) v m = (v', m', rest)" by simp
    from "2.IH"(3) [OF open_q "2.prems"(1) tail ahead_tl this] show ?thesis by (simp add: suffix_ConsI)
  next
    case take_c
    with "2.prems"(4) have run: "token_run base cs quote (v @ ch) (m @ char_offsets (base + i) ch) = (v', m', rest)" by auto
    from "2.IH"(4) [OF take_c ext(1) [simplified] tail ext(2) [simplified] run] show ?thesis by (simp add: suffix_ConsI)
  qed
qed auto

definition token_of :: "str \<Rightarrow> nat \<Rightarrow> token \<Rightarrow> bool" where
  "token_of line base t \<longleftrightarrow> tk_value t \<noteq> [] \<and> traced line base (tk_value t) (tk_raw t)"

lemma tokens_from_traced:
  "placed line cs \<Longrightarrow> t \<in> set (tokens_from base cs) \<Longrightarrow> token_of line base t"
proof (induction base cs rule: tokens_from.induct)
  case (1 base cs)
  let ?cs = "skip_delimiters cs"
  have ne: "?cs \<noteq> []" using "1.prems"(2) by (subst (asm) tokens_from.simps) (auto split: if_splits)
  obtain v m rest where run: "token_run base ?cs None [] [] = (v, m, rest)" by (metis prod_cases3)
  have sub: "placed line cs'" if "suffix cs' cs" for cs'
    using "1.prems"(1) that by (auto simp: placed_def suffix_def sorted_wrt_append)
  have placed: "placed line ?cs" by (rule sub) (simp add: suffix_dropWhile)
  have "traced line base [] []" "ahead base [] ?cs" by (simp_all add: traced_def ahead_def)
  from token_run_traced [OF this(1) placed this(2) run] have t: "traced line base v m" "suffix rest ?cs" by auto
  have "suffix (skip_controls rest) cs"
    using suffix_dropWhile t(2) suffix_dropWhile by (meson suffix_order.trans)
  note IH = "1.IH" [OF ne run [symmetric] refl sub [OF this]]
  have "tokens_from base cs = (if v \<noteq> [] then [\<lparr>tk_value = v, tk_raw = m\<rparr>] else []) @
      tokens_from base (skip_controls rest)"
    using ne run by (subst tokens_from.simps) (simp del: dropWhile_eq_Nil_conv)
  with "1.prems"(2) IH t(1) show ?case by (auto simp: token_of_def split: if_splits)
qed

lemma shell_tokens_traced: "t \<in> set (shell_tokens line base) \<Longrightarrow> token_of line base t"
  unfolding shell_tokens_def by (rule tokens_from_traced [OF placed_char_indices])

lemma concat_command_slices: "concat (command_slices ts s) = ts"
proof -
  have "concat (command_slices_from s cur ts) = cur @ ts" for cur
    by (induction s cur ts rule: command_slices_from.induct) auto
  then show ?thesis by (simp add: command_slices_def)
qed

lemma command_slices_words: "c \<in> set (command_slices ts s) \<Longrightarrow> t \<in> set c \<Longrightarrow> t \<in> set ts"
  using concat_command_slices [of ts s] by (metis UN_iff set_concat)

end
