(* ===== verification/Detectors.thy ===== *)
theory Detectors
  imports Guarantees
begin

text \<open>
  What the engine relies on from its built-in detectors, as an interface, and the first of them,
  the detector of explicit markers (\<open>crates/pentect-core/src/detect/explicit.rs\<close>): a value written
  as \<open>pentect(value)\<close> or \<open>mask(value)\<close>, with balanced parentheses, is always reported.
\<close>


section \<open>The interface\<close>

text \<open>A detector reports ranges of the normalized text, mapped to the raw text by its view.\<close>

locale located_detector =
  fixes detect :: detector
  assumes located: "s \<in> set (detect v) \<Longrightarrow>
    \<exists>r. sp_range s = to_raw v r \<and> rstart r < rend r \<and> rend r \<le> length (nv_norm v)"
begin

lemma reported_in_text:
  assumes "view_build nfkc region raw = Some v" and "utf8_valid raw" and "s \<in> set (detect v)"
  shows "in_text raw s \<and> \<not> range_is_empty (sp_range s) \<and> range_contains (region_span region) (sp_range s)"
proof -
  obtain r where r: "sp_range s = to_raw v r" "rstart r < rend r" "rend r \<le> length (nv_norm v)"
    using located [OF assms(3)] by blast
  from to_raw_covers [OF assms(1,2) r(2,3)]
  have *: "\<not> range_is_empty (to_raw v r)" "range_contains (region_span region) (to_raw v r)"
    "is_char_boundary raw (rstart (to_raw v r))" "is_char_boundary raw (rend (to_raw v r))" by auto
  obtain piece where "str_slice raw (rstart (region_span region)) (rend (region_span region)) = Some piece"
    using assms(1) by (auto simp: view_build_def)
  then have "rend (region_span region) \<le> length raw" by (auto simp: str_slice_Some)
  with * show ?thesis by (auto simp: r(1) in_text_def range_contains_def range_is_empty_def)
qed

end


section \<open>Matching parentheses\<close>

fun close_loop :: "nat \<Rightarrow> str \<Rightarrow> nat list \<Rightarrow> nat option list \<Rightarrow> nat option list" where
  "close_loop i [] opens closes = closes"
| "close_loop i (b # bs) opens closes =
     (if b = CHR ''('' then close_loop (i + 1) bs (i # opens) closes
      else if b = CHR '')''
      then (case opens of
              [] \<Rightarrow> close_loop (i + 1) bs [] closes
            | j # opens \<Rightarrow> close_loop (i + 1) bs opens (closes[j := Some i]))
      else close_loop (i + 1) bs opens closes)"

definition matching_parentheses :: "str \<Rightarrow> nat option list" where
  "matching_parentheses s = close_loop 0 s [] (replicate (length s) None)"

text \<open>
  The specification: the depth of nesting after a text, none when it closes more than it opened;
  two parentheses match when the text between them is balanced.
\<close>

fun nesting :: "str \<Rightarrow> nat \<Rightarrow> nat option" where
  "nesting [] d = Some d"
| "nesting (b # bs) d =
     (if b = CHR ''('' then nesting bs (d + 1)
      else if b = CHR '')'' then (if d = 0 then None else nesting bs (d - 1))
      else nesting bs d)"

definition matches :: "str \<Rightarrow> nat \<Rightarrow> nat \<Rightarrow> bool" where
  "matches s i j \<longleftrightarrow>
     i < j \<and> j < length s \<and> s ! i = CHR ''('' \<and> s ! j = CHR '')'' \<and> nesting (subtext s (i + 1) j) 0 = Some 0"

lemma nesting_append: "nesting (s @ t) d = Option.bind (nesting s d) (nesting t)"
  by (induction s arbitrary: d) auto

lemma nesting_shift: "nesting s d = Some e \<Longrightarrow> nesting s (d + k) = Some (e + k)"
proof (induction s arbitrary: d)
  case (Cons b s)
  from Cons.prems Cons.IH [of "d + 1"] Cons.IH [of "d - 1"] Cons.IH [of d] show ?case
    by (auto split: if_splits)
qed simp

lemma nesting_snoc: "i \<le> j \<Longrightarrow> j < length s \<Longrightarrow>
    nesting (subtext s i (Suc j)) d = Option.bind (nesting (subtext s i j) d) (nesting [s ! j])"
  by (simp add: subtext_def Suc_diff_le take_Suc_conv_app_nth nesting_append)

lemma matched_is_closed:
  assumes "matches s j e" and "e < i" and "i \<le> length s"
  shows "nesting (subtext s (j + 1) i) 0 = None"
proof -
  have "subtext s (j + 1) i = subtext s (j + 1) e @ subtext s e i"
    using assms by (intro subtext_append [symmetric]) (auto simp: matches_def)
  moreover have "subtext s e i = CHR '')'' # subtext s (e + 1) i"
    using assms by (simp add: subtext_def matches_def flip: Cons_nth_drop_Suc) (metis Suc_diff_Suc take_Suc_Cons)
  ultimately show ?thesis using assms(1) by (simp add: matches_def nesting_append)
qed

definition open_state :: "str \<Rightarrow> nat \<Rightarrow> nat list \<Rightarrow> nat option list \<Rightarrow> bool" where
  "open_state s i opens closes \<longleftrightarrow> length closes = length s \<and> i \<le> length s \<and>
     (\<forall>k < length opens. opens ! k < i \<and> s ! (opens ! k) = CHR ''('' \<and>
        nesting (subtext s (opens ! k + 1) i) 0 = Some k) \<and>
     (\<forall>j < i. s ! j = CHR ''('' \<longrightarrow> j \<notin> set opens \<longrightarrow> nesting (subtext s (j + 1) i) 0 = None) \<and>
     (\<forall>j < length s. \<forall>c. closes ! j = Some c \<longleftrightarrow> c < i \<and> matches s j c)"

lemma open_state_step:
  assumes st: "open_state s i opens closes" and i: "i < length s"
  shows "s ! i = CHR ''('' \<Longrightarrow> open_state s (Suc i) (i # opens) closes"
    and "s ! i = CHR '')'' \<Longrightarrow> opens = [] \<Longrightarrow> open_state s (Suc i) [] closes"
    and "s ! i = CHR '')'' \<Longrightarrow> opens = j # rest \<Longrightarrow> open_state s (Suc i) rest (closes[j := Some i])"
    and "s ! i \<noteq> CHR ''('' \<Longrightarrow> s ! i \<noteq> CHR '')'' \<Longrightarrow> open_state s (Suc i) opens closes"
proof -
  from st have len: "length closes = length s"
    and opens: "\<And>k. k < length opens \<Longrightarrow> opens ! k < i \<and> s ! (opens ! k) = CHR ''('' \<and>
        nesting (subtext s (opens ! k + 1) i) 0 = Some k"
    and closed: "\<And>j. j < i \<Longrightarrow> s ! j = CHR ''('' \<Longrightarrow> j \<notin> set opens \<Longrightarrow> nesting (subtext s (j + 1) i) 0 = None"
    and pairs: "\<And>j c. j < length s \<Longrightarrow> closes ! j = Some c \<longleftrightarrow> c < i \<and> matches s j c"
    by (simp_all add: open_state_def)
  have snoc: "nesting (subtext s (j + 1) (Suc i)) 0 = Option.bind (nesting (subtext s (j + 1) i) 0) (nesting [s ! i])"
    if "j < i" for j using nesting_snoc [of "j + 1" i s 0] i that by simp
  have same: "(c < Suc i \<and> matches s j c) = (c < i \<and> matches s j c)" if "s ! i \<noteq> CHR '')''" for j c
    using that by (auto simp: matches_def less_Suc_eq)
  show "open_state s (Suc i) (i # opens) closes" if c: "s ! i = CHR ''(''"
    using opens closed pairs same c i len snoc
    by (auto simp: open_state_def nth_Cons' less_Suc_eq)
  show "open_state s (Suc i) opens closes" if c: "s ! i \<noteq> CHR ''(''" "s ! i \<noteq> CHR '')''"
    using opens closed pairs same c i len snoc by (auto simp: open_state_def less_Suc_eq)
  show "open_state s (Suc i) [] closes" if c: "s ! i = CHR '')''" "opens = []"
  proof -
    have "\<not> matches s j i" for j using closed [of j] c by (auto simp: matches_def)
    then show ?thesis using closed pairs c i len snoc by (auto simp: open_state_def less_Suc_eq)
  qed
  show "open_state s (Suc i) rest (closes[j := Some i])" if c: "s ! i = CHR '')''" "opens = j # rest"
  proof -
    have j: "j < i" "s ! j = CHR ''(''" "nesting (subtext s (j + 1) i) 0 = Some 0"
      using opens [of 0] c(2) by auto
    have "matches s l i \<longleftrightarrow> l = j" for l
    proof
      assume m: "matches s l i"
      then have "l \<in> set opens" using closed [of l] by (auto simp: matches_def)
      then obtain k where "k < length opens" "opens ! k = l" by (auto simp: in_set_conv_nth)
      with opens [of k] m c(2) show "l = j" by (auto simp: matches_def)
    qed (use j i c in \<open>simp add: matches_def\<close>)
    note only = this
    have early: "\<not> matches s j e" if "e < i" for e
      using matched_is_closed [OF _ that, of s j] j(3) i by auto
    have "\<forall>l < length s. \<forall>e. (closes[j := Some i]) ! l = Some e \<longleftrightarrow> e < Suc i \<and> matches s l e"
    proof (intro allI impI)
      fix l e assume "l < length s"
      then show "(closes[j := Some i]) ! l = Some e \<longleftrightarrow> e < Suc i \<and> matches s l e"
        using pairs [of l e] only [of l] early [of e] len by (cases "l = j"; cases "e = i") (auto simp: less_Suc_eq)
    qed
    moreover have "nesting (subtext s (rest ! k + 1) (Suc i)) 0 = Some k" if "k < length rest" for k
      using opens [of "Suc k"] snoc [of "rest ! k"] c that by simp
    moreover have "nesting (subtext s (l + 1) (Suc i)) 0 = None" if "l < Suc i" "s ! l = CHR ''(''" "l \<notin> set rest" for l
      using closed [of l] snoc [of l] snoc [of j] j c that by (cases "l = j") (auto simp: less_Suc_eq)
    moreover have "rest ! k < Suc i \<and> s ! (rest ! k) = CHR ''(''" if "k < length rest" for k
      using opens [of "Suc k"] c(2) that by simp
    ultimately show ?thesis using i len unfolding open_state_def by simp
  qed
qed

lemma close_loop_state:
  assumes "open_state s i opens closes" and "bs = drop i s"
  shows "\<exists>opens'. open_state s (length s) opens' (close_loop i bs opens closes)"
  using assms
proof (induction i bs opens closes rule: close_loop.induct)
  case (1 i opens closes)
  then have "i = length s" by (simp add: open_state_def)
  with 1 show ?case by auto
next
  case (2 i b bs opens closes)
  then have i: "i < length s" "s ! i = b" "bs = drop (i + 1) s"
    by (metis Cons_nth_drop_Suc drop_eq_Nil list.distinct(1) list.inject not_less add.commute plus_1_eq_Suc)+
  note step = open_state_step [OF "2.prems"(1) i(1)]
  show ?case
  proof (cases opens)
    case Nil
    with "2.IH" i(2,3) step(1,2,4) show ?thesis by auto
  next
    case (Cons j rest)
    with "2.IH" i(2,3) step(1,4) step(3) [OF _ Cons] show ?thesis by auto
  qed
qed

lemma matching_parentheses_iff:
  assumes "i < length s"
  shows "matching_parentheses s ! i = Some j \<longleftrightarrow> matches s i j"
proof -
  have "open_state s 0 [] (replicate (length s) None)" by (simp add: open_state_def)
  from close_loop_state [OF this] obtain opens where "open_state s (length s) opens (matching_parentheses s)"
    by (auto simp: matching_parentheses_def)
  with assms show ?thesis by (auto simp: open_state_def matches_def)
qed

lemma length_close_loop [simp]: "length (close_loop i bs opens closes) = length closes"
  by (induction i bs opens closes rule: close_loop.induct) (auto split: list.splits)

text \<open>Matching pairs are nested.\<close>

lemma matches_nested:
  assumes "matches s i c" and "matches s k j" and "i < k" and "k < c"
  shows "j < c"
proof (rule ccontr)
  assume "\<not> j < c"
  then have le: "c \<le> j" by simp
  let ?y = "subtext s (k + 1) c"
  have len: "c < length s" "j < length s" using assms by (auto simp: matches_def)
  have "subtext s (i + 1) c = subtext s (i + 1) k @ CHR ''('' # ?y"
  proof -
    have "subtext s (i + 1) c = subtext s (i + 1) k @ subtext s k c"
      using assms(3,4) len by (intro subtext_append [symmetric]) auto
    also have "subtext s k c = subtext s k (k + 1) @ ?y"
      using assms(4) len by (intro subtext_append [symmetric]) auto
    also have "subtext s k (k + 1) = [CHR ''('']"
      using assms(2,4) len by (simp add: subtext_def matches_def take_Suc_conv_app_nth)
    finally show ?thesis by simp
  qed
  with assms(1) obtain d where d: "nesting ?y (d + 1) = Some 0"
    by (auto simp: matches_def nesting_append bind_eq_Some_conv)
  have "nesting ?y 0 = None"
  proof (cases "nesting ?y 0")
    case (Some f)
    from nesting_shift [OF this, of "d + 1"] d show ?thesis by simp
  qed
  moreover have "subtext s (k + 1) j = ?y @ subtext s c j"
    using assms(3,4) le len by (intro subtext_append [symmetric]) auto
  ultimately show False using assms(2) by (simp add: matches_def nesting_append)
qed


section \<open>Explicit markers\<close>

definition marker_at :: "str \<Rightarrow> str \<Rightarrow> nat \<Rightarrow> bool" where
  "marker_at s p i \<longleftrightarrow>
     prefix p (drop i s) \<and> (i = 0 \<or> \<not> is_ascii_alphanumeric (s ! (i - 1)) \<and> s ! (i - 1) \<noteq> CHR ''_'')"

text \<open>Two occurrences of one prefix never overlap, so that \<open>match_indices\<close> finds all of them.\<close>

definition next_marker_of :: "str \<Rightarrow> nat \<Rightarrow> str \<Rightarrow> (nat \<times> str) option" where
  "next_marker_of s cursor p = map_option (\<lambda>i. (i, p)) (find (marker_at s p) [cursor..<length s])"

text \<open>\<open>min_by_key\<close>: the first of the least.\<close>

fun first_least :: "(nat \<times> 'a) list \<Rightarrow> (nat \<times> 'a) option" where
  "first_least [] = None"
| "first_least (x # xs) =
     (case first_least xs of
        Some y \<Rightarrow> if fst y < fst x then Some y else Some x
      | None \<Rightarrow> Some x)"

definition next_explicit_marker :: "str \<Rightarrow> nat \<Rightarrow> (nat \<times> str) option" where
  "next_explicit_marker s cursor =
     first_least (List.map_filter (next_marker_of s cursor) EXPLICIT_SECRET_PREFIXES)"

definition explicit_span :: "byte_range \<Rightarrow> span" where
  "explicit_span r =
     \<lparr>sp_range = r, sp_category = Secret, sp_label = lbl_KEYED_SECRET, sp_confidence = High,
      sp_source = Explicit\<rparr>"

text \<open>The value between a marker and its closing parenthesis, if it is kept as it is in the raw text.\<close>

definition explicit_value :: "normalized_view \<Rightarrow> nat \<Rightarrow> str \<Rightarrow> nat \<Rightarrow> span list" where
  "explicit_value v marker p close =
     (let start = marker + length p
      in if start < close \<and>
            range_len (to_raw v (range_new marker start)) = length p \<and>
            range_len (to_raw v (range_new close (close + 1))) = 1 \<and>
            \<not> range_is_empty (to_raw v (range_new start close))
         then [explicit_span (to_raw v (range_new start close))] else [])"

lemma first_least_in: "first_least xs = Some x \<Longrightarrow> x \<in> set xs \<and> (\<forall>y \<in> set xs. fst x \<le> fst y)"
proof (induction xs arbitrary: x)
  case (Cons a xs)
  show ?case
  proof (cases "first_least xs")
    case None
    then have "xs = []" by (cases xs) (auto split: option.splits if_splits)
    with Cons.prems show ?thesis by simp
  next
    case (Some y)
    with Cons show ?thesis by (fastforce split: if_splits)
  qed
qed simp

lemma next_marker_ofD:
  assumes "next_marker_of s cursor p = Some (i, q)"
  shows "q = p \<and> marker_at s p i \<and> cursor \<le> i \<and> i < length s \<and> (\<forall>k. cursor \<le> k \<longrightarrow> k < i \<longrightarrow> \<not> marker_at s p k)"
proof -
  from assms have f: "find (marker_at s p) [cursor..<length s] = Some i" "q = p"
    by (auto simp: next_marker_of_def)
  from f(1) obtain n where n: "n < length [cursor..<length s]" "marker_at s p ([cursor..<length s] ! n)"
    "i = [cursor..<length s] ! n" "\<forall>j < n. \<not> marker_at s p ([cursor..<length s] ! j)"
    by (auto simp: find_Some_iff)
  then have i: "i = cursor + n" "i < length s" by auto
  have "\<not> marker_at s p k" if "cursor \<le> k" "k < i" for k
    using n(4) [rule_format, of "k - cursor"] n(1) i that by simp
  with f n i show ?thesis by auto
qed

lemma next_marker_of_none: "next_marker_of s cursor p = None \<Longrightarrow> cursor \<le> k \<Longrightarrow> k < length s \<Longrightarrow> \<not> marker_at s p k"
  by (auto simp: next_marker_of_def find_None_iff)

lemma next_explicit_markerD:
  assumes "next_explicit_marker s cursor = Some (i, p)"
  shows "p \<in> set EXPLICIT_SECRET_PREFIXES \<and> marker_at s p i \<and> cursor \<le> i \<and> i < length s"
    and "q \<in> set EXPLICIT_SECRET_PREFIXES \<Longrightarrow> cursor \<le> k \<Longrightarrow> k < i \<Longrightarrow> \<not> marker_at s q k"
proof -
  let ?cs = "List.map_filter (next_marker_of s cursor) EXPLICIT_SECRET_PREFIXES"
  have least: "(i, p) \<in> set ?cs" "\<And>y. y \<in> set ?cs \<Longrightarrow> i \<le> fst y"
    using first_least_in [OF assms [unfolded next_explicit_marker_def]] by auto
  obtain p' where "p' \<in> set EXPLICIT_SECRET_PREFIXES" "next_marker_of s cursor p' = Some (i, p)"
    using least(1) by (auto simp: map_filter_def)
  with next_marker_ofD [OF this(2)]
  show "p \<in> set EXPLICIT_SECRET_PREFIXES \<and> marker_at s p i \<and> cursor \<le> i \<and> i < length s" by auto
  assume q: "q \<in> set EXPLICIT_SECRET_PREFIXES" "cursor \<le> k" "k < i"
  have "i < length s" using \<open>p \<in> _ \<and> _\<close> by simp
  show "\<not> marker_at s q k"
  proof (cases "next_marker_of s cursor q")
    case None
    then show ?thesis using next_marker_of_none q(2,3) \<open>i < length s\<close> by simp
  next
    case (Some m)
    obtain j q' where m: "m = (j, q')" by (cases m)
    have "m \<in> set ?cs" using q(1) Some by (auto simp: map_filter_def intro!: image_eqI [where x = q])
    then have "i \<le> j" using least(2) m by fastforce
    with next_marker_ofD [OF Some [unfolded m]] q show ?thesis by auto
  qed
qed

lemma prefix_pos: "p \<in> set EXPLICIT_SECRET_PREFIXES \<Longrightarrow> 0 < length p"
  by (auto simp: EXPLICIT_SECRET_PREFIXES_def)

lemma marker_close:
  assumes "p \<in> set EXPLICIT_SECRET_PREFIXES" and "marker_at s p i"
  shows "i + length p \<le> length s" and "s ! (i + length p - 1) = CHR ''(''"
proof -
  from assms(2) obtain t where t: "drop i s = p @ t" by (auto simp: marker_at_def prefix_def)
  with assms(1) have ne: "drop i s \<noteq> []" by (auto simp: EXPLICIT_SECRET_PREFIXES_def)
  then have i: "i < length s" by auto
  have "length (drop i s) = length p + length t" by (simp add: t)
  with i show "i + length p \<le> length s" by simp
  have "s ! (i + (length p - 1)) = p ! (length p - 1)"
    using t i assms(1) prefix_pos by (metis diff_less less_imp_le_nat less_numeral_extra(1) nth_append nth_drop)
  with assms(1) show "s ! (i + length p - 1) = CHR ''(''"
    by (auto simp: EXPLICIT_SECRET_PREFIXES_def)
qed

lemma marker_progress:
  assumes "next_explicit_marker s cursor = Some (i, p)"
  shows "cursor < i + length p" and "i < length s"
    and "matching_parentheses s ! (i + length p - 1) = Some c \<Longrightarrow> i + length p \<le> c"
proof -
  note m = next_explicit_markerD(1) [OF assms]
  have pos: "0 < length p" using m prefix_pos by blast
  from m pos show "cursor < i + length p" "i < length s" by linarith+
  assume "matching_parentheses s ! (i + length p - 1) = Some c"
  moreover have "i + length p - 1 < length s" using marker_close(1) [of p s i] m pos by linarith
  ultimately show "i + length p \<le> c" using matching_parentheses_iff pos by (fastforce simp: matches_def)
qed

lemma marker_shrinks:
  assumes "cursor < length s" and "next_explicit_marker s cursor = Some (i, p)"
    and "matching_parentheses s ! (i + length p - Suc 0) = Some c"
  shows "length s - Suc c < length s - cursor"
  using marker_progress(1) [OF assms(2)] marker_progress(3) [OF assms(2), of c] assms(1,3) by simp

text \<open>The table of parentheses is a function of the text; the code computes it once.\<close>

function explicit_loop :: "normalized_view \<Rightarrow> nat \<Rightarrow> span list" where
  "explicit_loop v cursor =
     (if cursor < length (nv_norm v) then
        (case next_explicit_marker (nv_norm v) cursor of
           None \<Rightarrow> []
         | Some (marker, p) \<Rightarrow>
             (case matching_parentheses (nv_norm v) ! (marker + length p - 1) of
                None \<Rightarrow> explicit_loop v (marker + length p)
              | Some close \<Rightarrow> explicit_value v marker p close @ explicit_loop v (close + 1)))
      else [])"
  by pat_completeness auto
termination
  by (relation "measure (\<lambda>(v, cursor). length (nv_norm v) - cursor)")
    (auto dest: marker_progress intro: marker_shrinks)

declare explicit_loop.simps [simp del]

definition explicit_detect :: detector where
  "explicit_detect v = explicit_loop v 0"


lemma explicit_loop_reports:
  "x \<in> set (explicit_loop v cursor) \<Longrightarrow>
     \<exists>r. x = explicit_span (to_raw v r) \<and> rstart r < rend r \<and> rend r \<le> length (nv_norm v)"
proof (induction v cursor rule: explicit_loop.induct)
  case (1 v cursor)
  have cur: "cursor < length (nv_norm v)"
  proof (rule ccontr)
    assume "\<not> cursor < length (nv_norm v)"
    then have "explicit_loop v cursor = []" by (simp add: explicit_loop.simps [of v cursor])
    with "1.prems" show False by simp
  qed
  obtain m where m: "next_explicit_marker (nv_norm v) cursor = Some m"
    using "1.prems" cur by (cases "next_explicit_marker (nv_norm v) cursor") (simp_all add: explicit_loop.simps [of v cursor])
  obtain i p where "m = (i, p)" by (cases m)
  with m cur have step: "cursor < length (nv_norm v)" "next_explicit_marker (nv_norm v) cursor = Some (i, p)" by simp_all
  show ?case
  proof (cases "matching_parentheses (nv_norm v) ! (i + length p - 1)")
    case None
    with "1.IH"(1) [OF step refl None] "1.prems" step show ?thesis
      by (simp add: explicit_loop.simps [of v cursor])
  next
    case (Some c)
    with "1.prems" step consider "x \<in> set (explicit_value v i p c)" | "x \<in> set (explicit_loop v (c + 1))"
      by (auto simp: explicit_loop.simps [of v cursor])
    then show ?thesis
    proof cases
      case 1
      have "i + length p - 1 < length (nv_norm v)"
        using marker_close(1) [of p "nv_norm v" i] next_explicit_markerD(1) [OF step(2)] step(1) by linarith
      then have "c < length (nv_norm v)" using Some matching_parentheses_iff by (auto simp: matches_def)
      with 1 show ?thesis
        by (intro exI [of _ "range_new (i + length p) c"])
          (auto simp: explicit_value_def explicit_span_def Let_def range_new_def split: if_splits)
    qed (use "1.IH"(2) [OF step refl Some] in blast)
  qed
qed

interpretation explicit_located: located_detector explicit_detect
  by unfold_locales (auto simp: explicit_detect_def explicit_span_def dest!: explicit_loop_reports)


section \<open>Every marked value is reported\<close>

text \<open>A view of ASCII text without escapes maps ranges one to one.\<close>

definition plain_view :: "normalized_view \<Rightarrow> bool" where
  "plain_view v \<longleftrightarrow> nv_identity v \<and>
     length (nv_norm v) = rend (region_span (nv_region v)) - rstart (region_span (nv_region v)) \<and>
     rstart (region_span (nv_region v)) \<le> rend (region_span (nv_region v))"

lemma plain_view_raw:
  assumes "plain_view v" and "a \<le> b" and "b \<le> length (nv_norm v)"
  shows "to_raw v (range_new a b) = range_new (rstart (region_span (nv_region v)) + a) (rstart (region_span (nv_region v)) + b)"
  using assms by (auto simp: plain_view_def to_raw_def Let_def range_new_def min_def)

text \<open>No marker begins inside another marker's prefix.\<close>

lemma markers_apart:
  assumes "p \<in> set EXPLICIT_SECRET_PREFIXES" and "q \<in> set EXPLICIT_SECRET_PREFIXES"
    and "marker_at s p i" and "marker_at s q k" and "i < k"
  shows "i + length p \<le> k"
proof (rule ccontr)
  assume "\<not> i + length p \<le> k"
  then have k: "k < i + length p" by simp
  obtain t where t: "drop i s = p @ t" using assms(3) by (auto simp: marker_at_def prefix_def)
  have "drop k s = drop (k - i) (drop i s)" using assms(5) by simp
  also have "\<dots> = drop (k - i) p @ t" using k assms(5) by (simp add: t)
  finally have "prefix q (drop (k - i) p @ t)" using assms(4) by (simp add: marker_at_def)
  then have "hd q = hd (drop (k - i) p @ t)"
    using assms(2) by (auto simp: EXPLICIT_SECRET_PREFIXES_def prefix_def)
  also have "\<dots> = p ! (k - i)" using k assms(5) by (auto simp: hd_append hd_drop_conv_nth)
  finally have "hd q = p ! (k - i)" .
  moreover have "k - i < length p" "0 < k - i" using k assms(5) by auto
  ultimately show False
    using assms(1,2)
    by (auto simp: EXPLICIT_SECRET_PREFIXES_def nth_Cons' split: if_splits)
qed

lemma marker_prefix_unique:
  assumes "p \<in> set EXPLICIT_SECRET_PREFIXES" and "q \<in> set EXPLICIT_SECRET_PREFIXES"
    and "marker_at s p i" and "marker_at s q i"
  shows "p = q"
  using assms by (auto simp: EXPLICIT_SECRET_PREFIXES_def marker_at_def prefix_def)

lemma explicit_loop_covers:
  assumes "plain_view v" and "q \<in> set EXPLICIT_SECRET_PREFIXES" and "marker_at (nv_norm v) q k" and "cursor \<le> k"
    and "matches (nv_norm v) (k + length q - 1) j" and "k + length q < j"
  shows "\<exists>x \<in> set (explicit_loop v cursor). sp_source x = Explicit \<and>
    range_contains (sp_range x) (to_raw v (range_new (k + length q) j))"
  using assms
proof (induction v cursor rule: explicit_loop.induct)
  case (1 v cursor)
  let ?s = "nv_norm v"
  note plain = "1.prems"(1) and q = "1.prems"(2,3) and m = "1.prems"(5,6)
  have k: "k + length q \<le> length ?s" "0 < length q" "j < length ?s"
    using marker_close(1) [OF q] prefix_pos [OF q(1)] m(1) by (auto simp: matches_def)
  then have cur: "cursor < length ?s" using "1.prems"(4) by linarith
  obtain i p where next_m: "next_explicit_marker ?s cursor = Some (i, p)"
  proof (cases "next_explicit_marker ?s cursor")
    case None
    then have "List.map_filter (next_marker_of ?s cursor) EXPLICIT_SECRET_PREFIXES = []"
      by (cases "List.map_filter (next_marker_of ?s cursor) EXPLICIT_SECRET_PREFIXES")
        (auto simp: next_explicit_marker_def split: option.splits if_splits)
    then have "next_marker_of ?s cursor q = None"
      using q(1) by (cases "next_marker_of ?s cursor q") (auto simp: map_filter_def filter_empty_conv)
    then show ?thesis using next_marker_of_none [of ?s cursor q k] q(2) "1.prems"(4) k by simp
  qed (use that in \<open>cases "the (next_explicit_marker ?s cursor)"; auto\<close>)
  note p = next_explicit_markerD(1) [OF next_m]
  have "i \<le> k" using next_explicit_markerD(2) [OF next_m q(1) "1.prems"(4)] q(2) by (meson not_le)
  have pos: "0 < length p" "i + length p \<le> length ?s" using p prefix_pos marker_close(1) by auto
  show ?case
  proof (cases "matching_parentheses ?s ! (i + length p - 1)")
    case None
    have "i \<noteq> k"
    proof
      assume "i = k"
      with marker_prefix_unique [OF q(1) _ q(2), of p] p have "p = q" by simp
      moreover have "k + length q - 1 < length ?s" using k by linarith
      ultimately show False using None \<open>i = k\<close> m(1) matching_parentheses_iff [of "k + length q - 1" ?s j] by simp
    qed
    with \<open>i \<le> k\<close> have "i + length p \<le> k" using markers_apart [OF _ q(1) _ q(2), of p i] p by simp
    with "1.IH"(1) [OF cur next_m refl None plain q _ m] None show ?thesis
      by (simp add: explicit_loop.simps [of v cursor] cur next_m)
  next
    case (Some c)
    then have c: "matches ?s (i + length p - 1) c" using matching_parentheses_iff pos by simp
    have loop: "explicit_loop v cursor = explicit_value v i p c @ explicit_loop v (c + 1)"
      using Some by (subst explicit_loop.simps) (simp add: cur next_m)
    show ?thesis
    proof (cases "c + 1 \<le> k")
      case True
      with "1.IH"(2) [OF cur next_m refl Some plain q True m] loop show ?thesis by auto
    next
      case False
      have inside: "i + length p \<le> k + length q \<and> j \<le> c"
      proof (cases "i = k")
        case True
        with marker_prefix_unique [OF q(1) _ q(2), of p] p have "p = q" by simp
        moreover have "k + length q - 1 < length ?s" using k by linarith
        ultimately have "c = j"
          using True c m(1) matching_parentheses_iff [of "k + length q - 1" ?s] by (metis option.inject)
        with True \<open>p = q\<close> show ?thesis by simp
      next
        case apart: False
        with \<open>i \<le> k\<close> have "i + length p \<le> k" using markers_apart [OF _ q(1) _ q(2), of p i] p by simp
        have "k + length q - 1 < c"
        proof (rule ccontr)
          assume "\<not> k + length q - 1 < c"
          then have "c < k + length q" "k \<le> c" using False k(2) by linarith+
          obtain t where t: "drop k ?s = q @ t" using q(2) by (auto simp: marker_at_def prefix_def)
          have kc: "k \<le> c" "c - k < length q" using \<open>c < k + length q\<close> \<open>k \<le> c\<close> by linarith+
          have "?s ! c = drop k ?s ! (c - k)" using kc k(1) by simp
          then have "?s ! c = q ! (c - k)" using kc by (simp add: t nth_append)
          with kc c have "CHR '')'' \<in> set q" by (auto simp: matches_def in_set_conv_nth)
          then show False using q(1) by (auto simp: EXPLICIT_SECRET_PREFIXES_def)
        qed
        moreover have "i + length p - 1 < k + length q - 1" using \<open>i + length p \<le> k\<close> k(2) pos(1) by linarith
        ultimately have "j < c" using matches_nested [OF c m(1)] by simp
        with \<open>i + length p \<le> k\<close> show ?thesis by simp
      qed
      have lens: "c < length ?s" "i + length p < c" using c m inside by (auto simp: matches_def)
      have raw: "to_raw v (range_new a b) = range_new (rstart (region_span (nv_region v)) + a) (rstart (region_span (nv_region v)) + b)"
        if "a \<le> b" "b \<le> length ?s" for a b by (rule plain_view_raw [OF plain that])
      have "explicit_value v i p c = [explicit_span (to_raw v (range_new (i + length p) c))]"
        using lens pos by (simp add: explicit_value_def Let_def raw) (simp add: range_len_def range_is_empty_def range_new_def)
      moreover have "range_contains (to_raw v (range_new (i + length p) c)) (to_raw v (range_new (k + length q) j))"
        using inside lens m k by (simp add: raw) (simp add: range_contains_def range_new_def)
      ultimately show ?thesis by (simp add: loop explicit_span_def)
    qed
  qed
qed


section \<open>Properties\<close>

lemma detect_regions_some:
  assumes "detect_regions ex en regions raw = Some all" and "region \<in> set regions"
    and "view_build (ex_nfkc ex) region raw = Some v" and "d \<in> set (en_detectors en)" and "s \<in> set (d v)"
  shows "s \<in> set all"
proof -
  have "concat_options xs = Some ys \<Longrightarrow> Some zs \<in> set xs \<Longrightarrow> set zs \<subseteq> set ys" for xs :: "span list option list" and ys zs
    by (induction xs arbitrary: ys) (auto simp: bind_eq_Some_conv)
  from this [OF assms(1) [unfolded detect_regions_def], of "concat (map (\<lambda>d. d v) (en_detectors en))"] assms(2-5)
  show ?thesis by (force intro!: image_eqI [where x = region])
qed

text \<open>
  C15. What a user marks is masked: in a region of plain text, the value of every marker
  \<open>pentect(...)\<close> or \<open>mask(...)\<close> that does not follow a word character and whose parentheses are
  balanced lies inside the spans the engine masks, also when markers are nested in each other or
  follow a marker that is never closed. The policy must mask what the detector of markers reports,
  and the text must not hold handles already.
\<close>

theorem marked_values_masked:
  assumes "overlapping_matcher (ex_search ex)" and "utf8_valid raw" and "scan_placeholders raw = []"
    and "masked_spans ex en (make_ir raw regions []) = Some (spans, residual)"
    and "detect_regions ex en regions raw = Some all"
    and "explicit_detect \<in> set (en_detectors en)" and "lbl_KEYED_SECRET \<notin> set (en_disabled en)"
    and "\<forall>r. en_policy en (explicit_span r) = Mask"
    and "region \<in> set regions" and "view_build (ex_nfkc ex) region raw = Some v" and "nv_identity v"
    and "q \<in> set EXPLICIT_SECRET_PREFIXES" and "marker_at (nv_norm v) q k"
    and "matches (nv_norm v) (k + length q - 1) j" and "k + length q < j"
  shows "bytes_of (to_raw v (range_new (k + length q) j)) \<subseteq> bytes_of_spans spans"
proof -
  from view_cases [OF assms(10,2)] obtain piece where
    "str_slice raw (rstart (region_span region)) (rend (region_span region)) = Some piece"
    "nv_region v = region" "nv_norm v = piece" using assms(11) by (auto simp: folded_ok_def)
  then have plain: "plain_view v" using assms(11) by (auto simp: plain_view_def str_slice_Some)
  from explicit_loop_covers [OF plain assms(12,13) _ assms(14,15), of 0] obtain x where
    x: "x \<in> set (explicit_detect v)" "sp_source x = Explicit"
      "range_contains (sp_range x) (to_raw v (range_new (k + length q) j))"
    by (auto simp: explicit_detect_def)
  have shape: "\<exists>r. x = explicit_span r"
    using x(1) explicit_loop_reports [of x v 0] by (auto simp: explicit_detect_def)
  note placed = explicit_located.reported_in_text [OF assms(10,2) x(1)]
  have "bytes_of (sp_range x) \<subseteq> bytes_of_spans spans"
  proof (rule explicit_finding_masked [OF assms(1)])
    show "masked_spans ex en (make_ir raw regions (scan_placeholders raw)) = Some (spans, residual)"
      using assms(3,4) by simp
    show "detect_regions ex en regions raw = Some all" by (rule assms(5))
    show "x \<in> set all" by (rule detect_regions_some [OF assms(5,9,10,6) x(1)])
    show "sp_label x \<notin> set (en_disabled en)" "en_policy en x = Mask" "spared en raw x = Some False"
      using shape assms(7,8) by (auto simp: explicit_span_def spared_def is_context_free_def)
  qed (use placed x(2) assms(3) in simp_all)
  moreover have "bytes_of (to_raw v (range_new (k + length q) j)) \<subseteq> bytes_of (sp_range x)"
    using x(3) by (auto simp: bytes_of_def range_contains_def)
  ultimately show ?thesis by blast
qed

text \<open>An engine with the detector of markers alone, on a marker inside another.\<close>

definition example_marked :: str where
  "example_marked = ''a=mask(x(mask(s)))''"

definition marker_engine :: engine where
  "marker_engine = example_engine\<lparr>en_detectors := [explicit_detect]\<rparr>"

definition marked_region :: region where
  "marked_region = example_region 18"

lemma marked_values_masked_witness:
  "bytes_of (to_raw (identity_view marked_region example_marked example_marked) (range_new 14 15)) \<subseteq>
     bytes_of_spans [explicit_span (range_new 7 17)]"
proof -
  let ?v = "identity_view marked_region example_marked example_marked"
  have valid: "utf8_valid example_marked" and none: "scan_placeholders example_marked = []" by code_simp+
  have run: "masked_spans example_externals marker_engine (make_ir example_marked [marked_region] []) =
      Some ([explicit_span (range_new 7 17)], [])" by code_simp
  have found: "detect_regions example_externals marker_engine [marked_region] example_marked =
      Some [explicit_span (range_new 7 17)]" by code_simp
  have view: "view_build (ex_nfkc example_externals) marked_region example_marked = Some ?v" by code_simp
  have marker: "marker_at (nv_norm ?v) ''mask('' 9" "matches (nv_norm ?v) (9 + length ''mask('' - 1) 15"
    by code_simp+
  show ?thesis
    using marked_values_masked [OF example_matcher valid none run found _ _ _ _ view _ _ marker]
    by (simp add: marker_engine_def example_engine_def mask_all_def identity_view_def EXPLICIT_SECRET_PREFIXES_def)
qed

end

