(* ===== verification/CliDetector.thy ===== *)
theory CliDetector
  imports Shell Benign Detectors
begin

text \<open>
  \<open>crates/pentect-core/src/detect/cli.rs\<close>: secrets in command lines. Each line is split into words
  and commands, and the options of each command are searched; the lemmas show that every report is
  the text of a word, and that the values of secret options are found wherever they stand.
\<close>


section \<open>Names of options\<close>

text \<open>\<open>str::split_inclusive\<close> at line feeds.\<close>

fun split_inclusive :: "str \<Rightarrow> str list" where
  "split_inclusive [] = []"
| "split_inclusive (b # bs) =
     (if b = CHR 0x0A then [b] # split_inclusive bs
      else (case split_inclusive bs of [] \<Rightarrow> [[b]] | l # ls \<Rightarrow> (b # l) # ls))"

definition trim_line_breaks :: "str \<Rightarrow> str" where
  "trim_line_breaks s = rev (dropWhile (\<lambda>b. b = CHR 0x0D \<or> b = CHR 0x0A) (rev s))"

definition may_contain_cli_credential_boundary :: "str \<Rightarrow> bool" where
  "may_contain_cli_credential_boundary s \<longleftrightarrow>
     str_contains s ''--'' \<or>
     list_ex (contains_ascii_ci s)
       [''-password'', ''-passwd'', ''-pwd'', '' -p'', ''convertto-securestring'', ''configure'', ''vault'']"

definition option_names_non_value_source :: "str \<Rightarrow> bool" where
  "option_names_non_value_source name \<longleftrightarrow>
     list_ex (\<lambda>s. suffix s name)
       [''_file'', ''_path'', ''_stdin'', ''_fd'', ''_command'', ''_env'', ''_variable'', ''_name'', ''_type'',
        ''_format'', ''_algorithm'']"

definition replace_bytes :: "byte set \<Rightarrow> str \<Rightarrow> str" where
  "replace_bytes cs s = map (\<lambda>b. if b \<in> cs then CHR ''_'' else b) s"

definition is_separator :: "byte \<Rightarrow> bool" where
  "is_separator b \<longleftrightarrow> b = CHR ''='' \<or> b = CHR '':''"

definition find_separator :: "str \<Rightarrow> nat option" where
  "find_separator s =
     (let n = length (takeWhile (\<lambda>b. \<not> is_separator b) s) in if n < length s then Some n else None)"

text \<open>\<open>Some None\<close> is an option without an inline value.\<close>

definition long_secret_option :: "str \<Rightarrow> nat option option" where
  "long_secret_option v =
     (case strip_prefix ''--'' v of
        None \<Rightarrow> None
      | Some opt \<Rightarrow>
          let separator = find_separator opt;
              name = (case separator of None \<Rightarrow> opt | Some at \<Rightarrow> take at opt)
          in if name = [] then None
             else
               (let normalized = replace_bytes {CHR ''-''} (ascii_lower name)
                in if \<not> is_sensitive_key_name normalized \<or> option_names_non_value_source normalized then None
                   else Some (map_option (\<lambda>at. 2 + at + 1) separator)))"

definition looks_like_option :: "str \<Rightarrow> bool" where
  "looks_like_option v \<longleftrightarrow> prefix ''-'' v \<and> 1 < length v"

definition normalized_option_name :: "str \<Rightarrow> str option" where
  "normalized_option_name v =
     (let name = dropWhile (\<lambda>b. b = CHR ''-'') v in if name = [] then None else Some (ascii_lower name))"

definition is_password_option :: "str \<Rightarrow> bool" where
  "is_password_option v \<longleftrightarrow>
     (case normalized_option_name v of
        None \<Rightarrow> False
      | Some name \<Rightarrow> name \<in> {''password'', ''passwd'', ''pwd''})"

definition password_option_inline_value_start :: "str \<Rightarrow> nat option" where
  "password_option_inline_value_start v =
     (case find_separator v of
        None \<Rightarrow> None
      | Some pos \<Rightarrow> if is_password_option (take pos v) then Some (pos + 1) else None)"

definition is_powershell_command_name :: "str \<Rightarrow> bool" where
  "is_powershell_command_name v \<longleftrightarrow>
     (case split_once ''-'' (shell_basename v) of
        None \<Rightarrow> False
      | Some (verb, noun) \<Rightarrow>
          2 \<le> length verb \<and> length verb \<le> 32 \<and> 2 \<le> length noun \<and> length noun \<le> 64 \<and>
          list_all is_ascii_alphabetic verb \<and>
          list_all (\<lambda>b. is_ascii_alphanumeric b \<or> b = CHR ''-'' \<or> b = CHR ''_'') noun)"


section \<open>Material\<close>

definition normalize_password_word :: "str \<Rightarrow> str" where
  "normalize_password_word v = ascii_lower (filter is_ascii_alphanumeric v)"

definition cli_secret_is_material :: "str \<Rightarrow> bool" where
  "cli_secret_is_material v \<longleftrightarrow>
     (let v = trim v
      in if v = [] \<or> 256 < length v \<or> v = ''-'' then False
         else if list_ex (\<lambda>b. List.member ''<>{}*'' b) v then False
         else if List.member [''password'', ''passwd'', ''pwd'', ''secret'', ''token'', ''example'', ''sample'',
                   ''value'', ''string'', ''bearer'', ''basic'', ''digest'', ''ntlm'', ''negotiate'', ''oauth'',
                   ''oauth2''] (normalize_password_word v) then False
         else \<not> (prefix ''$'' v \<or> prefix ''%'' v))"

definition rule_span :: "byte_range \<Rightarrow> str \<Rightarrow> span" where
  "rule_span r label =
     \<lparr>sp_range = r, sp_category = Secret, sp_label = label, sp_confidence = High, sp_source = Rule\<rparr>"

text \<open>The value of a word from an offset on: the raw bytes of its trimmed text.\<close>

definition push_cli_secret :: "normalized_view \<Rightarrow> token \<Rightarrow> nat \<Rightarrow> str \<Rightarrow> span list" where
  "push_cli_secret v t value_start label =
     (if length (tk_value t) \<le> value_start \<or> length (tk_raw t) \<le> value_start then []
      else
        (let rest = drop value_start (tk_value t); trimmed = trim rest
         in if \<not> cli_secret_is_material trimmed then []
            else
              (let start = value_start + (length rest - length (trim_start rest));
                   e = start + length trimmed
               in if e \<le> start then []
                  else [rule_span (to_raw v (range_new (tk_raw t ! start) (tk_raw t ! (e - 1) + 1))) label])))"

definition push_cli_password :: "normalized_view \<Rightarrow> token \<Rightarrow> nat \<Rightarrow> span list" where
  "push_cli_password v t value_start = push_cli_secret v t value_start lbl_CMD_PASSWORD"

definition push_cli_keyed_secret :: "normalized_view \<Rightarrow> token \<Rightarrow> nat \<Rightarrow> span list" where
  "push_cli_keyed_secret v t value_start = push_cli_secret v t value_start lbl_KEYED_SECRET"


section \<open>The checks of a command\<close>

fun inspect_named_secret_options :: "normalized_view \<Rightarrow> token list \<Rightarrow> span list" where
  "inspect_named_secret_options v [] = []"
| "inspect_named_secret_options v (t # ts) =
     (case long_secret_option (tk_value t) of
        None \<Rightarrow> inspect_named_secret_options v ts
      | Some (Some value_start) \<Rightarrow>
          push_cli_keyed_secret v t value_start @ inspect_named_secret_options v ts
      | Some None \<Rightarrow>
          (case ts of
             [] \<Rightarrow> []
           | u # us \<Rightarrow>
               if \<not> looks_like_option (tk_value u)
               then push_cli_keyed_secret v u 0 @ inspect_named_secret_options v us
               else inspect_named_secret_options v ts))"

definition names_user :: "token \<Rightarrow> bool" where
  "names_user t \<longleftrightarrow>
     tk_value t = ''-u'' \<or> prefix ''-u='' (tk_value t) \<or> prefix ''-u:'' (tk_value t) \<or>
     eq_ignore_ascii_case (tk_value t) ''--username'' \<or>
     prefix ''--username='' (ascii_lower (tk_value t)) \<or> prefix ''--username:'' (ascii_lower (tk_value t))"

definition value_after :: "token list \<Rightarrow> nat \<Rightarrow> token option" where
  "value_after ts i =
     (if i < length ts \<and> \<not> looks_like_option (tk_value (ts ! i)) then Some (ts ! i) else None)"

definition inspect_login_short_password :: "normalized_view \<Rightarrow> token list \<Rightarrow> span list" where
  "inspect_login_short_password v ts =
     (if \<not> list_ex (\<lambda>t. eq_ignore_ascii_case (tk_value t) ''login'') ts \<or> \<not> list_ex names_user ts then []
      else concat (map (\<lambda>i.
        if tk_value (ts ! i) = ''-p''
        then (case value_after ts (i + 1) of Some t \<Rightarrow> push_cli_password v t 0 | None \<Rightarrow> []) else [])
        [0..<length ts]))"

definition inspect_configure_set :: "normalized_view \<Rightarrow> token list \<Rightarrow> span list" where
  "inspect_configure_set v ts =
     concat (map (\<lambda>w.
       if eq_ignore_ascii_case (tk_value (w ! 0)) ''configure'' \<and> eq_ignore_ascii_case (tk_value (w ! 1)) ''set'' \<and>
          is_sensitive_key_name (replace_bytes {CHR ''-'', CHR ''.''} (tk_value (w ! 2))) \<and>
          \<not> looks_like_option (tk_value (w ! 3))
       then push_cli_keyed_secret v (w ! 3) 0 else []) (windows 4 ts))"

definition POSITIONAL_SECRET_COMMANDS :: "(str \<times> str) list" where
  "POSITIONAL_SECRET_COMMANDS = [(''vault'', ''login'')]"

definition inspect_positional_secret_commands :: "normalized_view \<Rightarrow> token list \<Rightarrow> span list" where
  "inspect_positional_secret_commands v ts =
     concat (map (\<lambda>i. concat (map (\<lambda>(command, subcommand).
       if eq_ignore_ascii_case (shell_basename (tk_value (ts ! i))) command \<and> i + 1 < length ts \<and>
          eq_ignore_ascii_case (tk_value (ts ! (i + 1))) subcommand
       then (case value_after ts (i + 2) of Some t \<Rightarrow> push_cli_keyed_secret v t 0 | None \<Rightarrow> [])
       else []) POSITIONAL_SECRET_COMMANDS)) [0..<length ts])"

fun password_parameters :: "normalized_view \<Rightarrow> token list \<Rightarrow> span list" where
  "password_parameters v [] = []"
| "password_parameters v (t # ts) =
     (if is_password_option (tk_value t)
      then (case ts of [] \<Rightarrow> [] | u # us \<Rightarrow> push_cli_password v u 0 @ password_parameters v us)
      else (case password_option_inline_value_start (tk_value t) of
              Some value_start \<Rightarrow> push_cli_password v t value_start | None \<Rightarrow> []) @
           password_parameters v ts)"

definition inspect_powershell_password_parameter :: "normalized_view \<Rightarrow> token list \<Rightarrow> span list" where
  "inspect_powershell_password_parameter v ts =
     password_parameters v (tl (dropWhile (\<lambda>t. \<not> is_powershell_command_name (tk_value t)) ts))"

fun position :: "('a \<Rightarrow> bool) \<Rightarrow> 'a list \<Rightarrow> nat option" where
  "position P [] = None"
| "position P (x # xs) = (if P x then Some 0 else map_option Suc (position P xs))"

definition inspect_convert_to_secure_string :: "normalized_view \<Rightarrow> token list \<Rightarrow> span list" where
  "inspect_convert_to_secure_string v ts =
     (case position (\<lambda>t. eq_ignore_ascii_case (shell_basename (tk_value t)) ''ConvertTo-SecureString'') ts of
        None \<Rightarrow> []
      | Some i \<Rightarrow>
          let arguments = drop (i + 1) ts
          in if \<not> has_powershell_parameter arguments ''-AsPlainText'' then []
             else
               (case (case powershell_parameter_value arguments ''-String'' of
                        Some r \<Rightarrow> Some r
                      | None \<Rightarrow>
                          map_option (\<lambda>j. (j, 0))
                            (position (\<lambda>t. tk_value t \<noteq> [] \<and> \<not> prefix ''-'' (tk_value t)) arguments)) of
                  None \<Rightarrow> []
                | Some (j, value_start) \<Rightarrow> push_cli_password v (arguments ! j) value_start))"

definition inspect_command :: "normalized_view \<Rightarrow> token list \<Rightarrow> span list" where
  "inspect_command v ts =
     inspect_powershell_password_parameter v ts @ inspect_convert_to_secure_string v ts @
     inspect_named_secret_options v ts @ inspect_login_short_password v ts @
     inspect_configure_set v ts @ inspect_positional_secret_commands v ts"

definition inspect_line :: "normalized_view \<Rightarrow> nat \<Rightarrow> str \<Rightarrow> span list" where
  "inspect_line v line_start line =
     (if \<not> may_contain_cli_credential_boundary line then []
      else concat (map (inspect_command v) (command_slices (shell_tokens line line_start) (nv_norm v))))"

fun inspect_lines :: "normalized_view \<Rightarrow> nat \<Rightarrow> str list \<Rightarrow> span list \<times> nat" where
  "inspect_lines v line_start [] = ([], line_start)"
| "inspect_lines v line_start (l # ls) =
     (case inspect_lines v (line_start + length l) ls of
        (out, e) \<Rightarrow> (inspect_line v line_start (trim_line_breaks l) @ out, e))"

definition cli_detect :: detector where
  "cli_detect v =
     (let s = nv_norm v
      in if \<not> may_contain_cli_credential_boundary s then []
         else
           (case inspect_lines v 0 (split_inclusive s) of
              (out, line_start) \<Rightarrow>
                out @ (if \<not> suffix [CHR 0x0A] s \<and> line_start < length s
                       then inspect_line v line_start (drop line_start s) else [])))"


section \<open>Reports are words\<close>

text \<open>What one word can be reported as.\<close>

definition word_reports :: "normalized_view \<Rightarrow> token \<Rightarrow> span set" where
  "word_reports v t = (\<Union>start label. set (push_cli_secret v t start label))"

lemma push_word_reports [intro]:
  "x \<in> set (push_cli_password v t start) \<Longrightarrow> x \<in> word_reports v t"
  "x \<in> set (push_cli_keyed_secret v t start) \<Longrightarrow> x \<in> word_reports v t"
  by (auto simp: word_reports_def push_cli_password_def push_cli_keyed_secret_def)

lemma named_words: "x \<in> set (inspect_named_secret_options v ts) \<Longrightarrow> \<exists>t \<in> set ts. x \<in> word_reports v t"
proof (induction ts rule: length_induct)
  case (1 ts)
  show ?case
  proof (cases ts)
    case Nil
    with 1 show ?thesis by simp
  next
    case (Cons t us)
    have IH: "\<exists>t \<in> set ts. x \<in> word_reports v t"
      if "suffix ys us" "x \<in> set (inspect_named_secret_options v ys)" for ys
    proof -
      have "length ys < length ts" "set ys \<subseteq> set ts"
        using that(1) set_mono_suffix [OF that(1)] by (auto simp: Cons suffix_def)
      with 1(1) that(2) show ?thesis by blast
    qed
    consider "long_secret_option (tk_value t) = None" | start where "long_secret_option (tk_value t) = Some (Some start)"
      | "long_secret_option (tk_value t) = Some None" by (metis option.exhaust)
    then show ?thesis
    proof cases
      case 1
      with "1.prems" Cons IH [of us] show ?thesis by simp
    next
      case 2
      with "1.prems" Cons IH [of us] show ?thesis by auto
    next
      case 3
      show ?thesis
      proof (cases us)
        case Nil
        with 3 "1.prems" Cons show ?thesis by simp
      next
        case (Cons u vs)
        with 3 "1.prems" \<open>ts = t # us\<close> IH [of vs] IH [of us] show ?thesis
          by (auto simp: suffix_Cons split: if_splits)
      qed
    qed
  qed
qed

lemma password_words: "x \<in> set (password_parameters v ts) \<Longrightarrow> \<exists>t \<in> set ts. x \<in> word_reports v t"
proof (induction v ts rule: password_parameters.induct)
  case (2 v t ts)
  show ?case
  proof (cases "is_password_option (tk_value t)")
    case True
    with 2 show ?thesis by (cases ts) auto
  next
    case False
    with 2 show ?thesis by (cases "password_option_inline_value_start (tk_value t)") auto
  qed
qed simp

lemma value_after_in: "Some t = value_after ts i \<Longrightarrow> t \<in> set ts"
  by (auto simp: value_after_def split: if_splits)

lemma windows_in: "w \<in> set (windows n xs) \<Longrightarrow> length w = n \<and> set w \<subseteq> set xs"
  by (induction n xs rule: windows.induct) (auto split: if_splits dest: in_set_takeD simp: min_def)

lemma position_less: "position P xs = Some i \<Longrightarrow> i < length xs"
  by (induction xs arbitrary: i) (auto split: if_splits)

lemma parameter_value_less: "parameter_value_from i ts name = Some (j, start) \<Longrightarrow> i \<le> j \<and> j < i + length ts"
  by (induction i ts name rule: parameter_value_from.induct)
    (auto split: option.splits parameter_form.splits if_splits simp: length_greater_0_conv [symmetric] simp del: length_greater_0_conv)

lemma in_concat_map: "x \<in> set (concat (map f xs)) \<Longrightarrow> \<exists>y \<in> set xs. x \<in> set (f y)"
  by auto

lemma in_optional:
  assumes "x \<in> set (if b then (case m of Some t \<Rightarrow> f t | None \<Rightarrow> []) else [])"
  shows "\<exists>t. Some t = m \<and> x \<in> set (f t)"
proof (cases m)
  case None
  have "(if b then (case m of Some t \<Rightarrow> f t | None \<Rightarrow> []) else []) = []" by (simp add: None)
  with assms show ?thesis by simp
next
  case (Some t)
  with assms show ?thesis by (cases b) auto
qed

lemma command_words:
  assumes "x \<in> set (inspect_command v ts)"
  shows "\<exists>t \<in> set ts. x \<in> word_reports v t"
proof -
  from assms consider "x \<in> set (inspect_powershell_password_parameter v ts)"
    | "x \<in> set (inspect_convert_to_secure_string v ts)" | "x \<in> set (inspect_named_secret_options v ts)"
    | "x \<in> set (inspect_login_short_password v ts)" | "x \<in> set (inspect_configure_set v ts)"
    | "x \<in> set (inspect_positional_secret_commands v ts)"
    by (auto simp: inspect_command_def)
  then show ?thesis
  proof cases
    case 1
    then obtain t where "t \<in> set (tl (dropWhile (\<lambda>t. \<not> is_powershell_command_name (tk_value t)) ts))" "x \<in> word_reports v t"
      using password_words by (fastforce simp: inspect_powershell_password_parameter_def)
    then show ?thesis by (metis list.sel(2) list.set_sel(2) set_dropWhileD)
  next
    case 2
    then obtain i where i: "position (\<lambda>t. eq_ignore_ascii_case (shell_basename (tk_value t)) ''ConvertTo-SecureString'') ts = Some i"
      by (cases "position (\<lambda>t. eq_ignore_ascii_case (shell_basename (tk_value t)) ''ConvertTo-SecureString'') ts")
        (simp_all add: inspect_convert_to_secure_string_def)
    let ?a = "drop (i + 1) ts"
    obtain j start where j: "powershell_parameter_value ?a ''-String'' = Some (j, start) \<or>
        position (\<lambda>t. tk_value t \<noteq> [] \<and> \<not> prefix ''-'' (tk_value t)) ?a = Some j"
      and x: "x \<in> set (push_cli_password v (?a ! j) start)"
      using 2 i by (auto simp: inspect_convert_to_secure_string_def Let_def split: option.splits if_splits)
    from j have "j < length ?a"
      using position_less parameter_value_less by (fastforce simp: powershell_parameter_value_def)
    then have "?a ! j \<in> set ts" by (meson in_set_dropD nth_mem)
    with x show ?thesis by blast
  next
    case 3
    then show ?thesis by (rule named_words)
  next
    case 4
    then show ?thesis
      by (auto simp: inspect_login_short_password_def split: if_splits option.splits dest!: value_after_in)
  next
    case 5
    then obtain w where w: "w \<in> set (windows 4 ts)" "x \<in> set (push_cli_keyed_secret v (w ! 3) 0)"
      by (auto simp: inspect_configure_set_def split: if_splits)
    from windows_in [OF w(1)] have "w ! 3 \<in> set ts" by (auto intro: nth_mem)
    with w(2) show ?thesis by blast
  next
    case 6
    note each = in_concat_map [OF 6 [unfolded inspect_positional_secret_commands_def case_prod_beta]]
    then obtain i where i: "x \<in> set (concat (map (\<lambda>c. if eq_ignore_ascii_case (shell_basename (tk_value (ts ! i))) (fst c) \<and>
          i + 1 < length ts \<and> eq_ignore_ascii_case (tk_value (ts ! (i + 1))) (snd c)
        then (case value_after ts (i + 2) of Some t \<Rightarrow> push_cli_keyed_secret v t 0 | None \<Rightarrow> []) else [])
        POSITIONAL_SECRET_COMMANDS))" by (rule bexE)
    from in_concat_map [OF this] obtain c where "x \<in> set (if eq_ignore_ascii_case (shell_basename (tk_value (ts ! i))) (fst c) \<and>
          i + 1 < length ts \<and> eq_ignore_ascii_case (tk_value (ts ! (i + 1))) (snd c)
        then (case value_after ts (i + 2) of Some t \<Rightarrow> push_cli_keyed_secret v t 0 | None \<Rightarrow> []) else [])"
      by (rule bexE)
    from in_optional [OF this] show ?thesis using value_after_in by blast
  qed
qed


section \<open>Words lie in the text\<close>

lemma prefix_rev_dropWhile: "prefix (rev (dropWhile P (rev xs))) xs"
  using suffix_dropWhile [of P "rev xs"] by (simp add: suffix_to_prefix)

lemma trim_start_split: "\<exists>a. s = a @ trim_start s"
proof -
  have "concat (utf8_chars s) = concat (takeWhile is_whitespace_char (utf8_chars s)) @ trim_start s"
    unfolding trim_start_def concat_append [symmetric] by simp
  then show ?thesis by (metis concat_utf8_chars)
qed

lemma trim_prefix: "prefix (trim s) (trim_start s)"
proof -
  obtain r where "dropWhile is_whitespace_char (utf8_chars s) =
      rev (dropWhile is_whitespace_char (rev (dropWhile is_whitespace_char (utf8_chars s)))) @ r"
    using prefix_rev_dropWhile by (metis prefixE)
  then show ?thesis unfolding trim_def trim_start_def by (metis concat_append prefixI)
qed

lemma trim_le: "length s - length (trim_start s) + length (trim s) \<le> length s"
proof -
  obtain a where "s = a @ trim_start s" using trim_start_split by blast
  then have "length s = length a + length (trim_start s)" by (metis length_append)
  with prefix_length_le [OF trim_prefix [of s]] show ?thesis by simp
qed

lemma token_offsets:
  assumes "token_of line base t" and "a < e" and "e \<le> length (tk_value t)"
  shows "tk_raw t ! a \<le> tk_raw t ! (e - 1)" and "tk_raw t ! (e - 1) < base + length line"
    and "a \<le> k \<Longrightarrow> k < e \<Longrightarrow> tk_raw t ! a \<le> tk_raw t ! k \<and> tk_raw t ! k \<le> tk_raw t ! (e - 1)"
proof -
  have t: "sorted_wrt (<) (tk_raw t)" "length (tk_raw t) = length (tk_value t)"
    using assms(1) by (simp_all add: token_of_def traced_def)
  have le: "tk_raw t ! k \<le> tk_raw t ! l" if "k \<le> l" "l < length (tk_value t)" for k l
    using sorted_wrt_nth_less [OF t(1), of k l] that t(2) by (cases "k = l") auto
  show "tk_raw t ! a \<le> tk_raw t ! (e - 1)" using le [of a "e - 1"] assms(2,3) by simp
  have "e - 1 < length (tk_value t)" using assms(2,3) by simp
  then show "tk_raw t ! (e - 1) < base + length line" using assms(1) by (simp add: token_of_def traced_def)
  show "tk_raw t ! a \<le> tk_raw t ! k \<and> tk_raw t ! k \<le> tk_raw t ! (e - 1)" if "a \<le> k" "k < e"
    using le [of a k] le [of k "e - 1"] that assms(3) by simp
qed

lemma word_located:
  assumes "token_of line base t" and "base + length line \<le> length (nv_norm v)" and "x \<in> word_reports v t"
  shows "\<exists>r. sp_range x = to_raw v r \<and> rstart r < rend r \<and> rend r \<le> length (nv_norm v)"
proof -
  from assms(3) obtain start label where x: "x \<in> set (push_cli_secret v t start label)"
    by (auto simp: word_reports_def)
  let ?rest = "drop start (tk_value t)"
  let ?a = "start + (length ?rest - length (trim_start ?rest))"
  let ?e = "?a + length (trim ?rest)"
  have lens: "start < length (tk_value t)" "?a < ?e"
    and range: "sp_range x = to_raw v (range_new (tk_raw t ! ?a) (tk_raw t ! (?e - 1) + 1))"
    using x by (auto simp: push_cli_secret_def Let_def rule_span_def split: if_splits)
  have e: "?e \<le> length (tk_value t)" using trim_le [of ?rest] lens(1) by simp
  note offsets = token_offsets(1,2) [OF assms(1) lens(2) e]
  then show ?thesis
    using range assms(2) by (intro exI [of _ "range_new (tk_raw t ! ?a) (tk_raw t ! (?e - 1) + 1)"]) (simp add: range_new_def)
qed

lemma line_located:
  assumes "x \<in> set (inspect_line v base line)" and "base + length line \<le> length (nv_norm v)"
  shows "\<exists>r. sp_range x = to_raw v r \<and> rstart r < rend r \<and> rend r \<le> length (nv_norm v)"
proof -
  from assms(1) obtain c where c: "c \<in> set (command_slices (shell_tokens line base) (nv_norm v))"
    "x \<in> set (inspect_command v c)"
    by (auto simp: inspect_line_def split: if_splits)
  from command_words [OF c(2)] obtain t where t: "t \<in> set c" "x \<in> word_reports v t" by blast
  have "t \<in> set (shell_tokens line base)"
    by (rule command_slices_words [OF c(1) t(1)])
  from word_located [OF shell_tokens_traced [OF this] assms(2) t(2)] show ?thesis .
qed

lemma concat_split_inclusive: "concat (split_inclusive s) = s"
  by (induction s rule: split_inclusive.induct) (auto split: list.splits)

lemma trim_line_breaks_prefix: "prefix (trim_line_breaks l) l"
  unfolding trim_line_breaks_def by (rule prefix_rev_dropWhile)

lemma inspect_lines_located:
  assumes "x \<in> set (fst (inspect_lines v base ls))" and "base + length (concat ls) \<le> length (nv_norm v)"
  shows "\<exists>r. sp_range x = to_raw v r \<and> rstart r < rend r \<and> rend r \<le> length (nv_norm v)"
  using assms
proof (induction v base ls rule: inspect_lines.induct)
  case (2 v base l ls)
  from "2.prems"(1) consider "x \<in> set (inspect_line v base (trim_line_breaks l))"
    | "x \<in> set (fst (inspect_lines v (base + length l) ls))" by (auto split: prod.splits)
  then show ?case
  proof cases
    case 1
    then show ?thesis
      using line_located "2.prems"(2) prefix_length_le [OF trim_line_breaks_prefix [of l]] by fastforce
  next
    case 2
    with "2.IH" "2.prems"(2) show ?thesis by simp
  qed
qed simp

lemma inspect_lines_end: "snd (inspect_lines v base ls) = base + length (concat ls)"
  by (induction v base ls rule: inspect_lines.induct) (auto split: prod.splits)

text \<open>The last line is one of the lines, so that the final check of the code never applies.\<close>

lemma cli_detect_lines:
  "cli_detect v = (if \<not> may_contain_cli_credential_boundary (nv_norm v) then []
     else fst (inspect_lines v 0 (split_inclusive (nv_norm v))))"
  using inspect_lines_end [of v 0 "split_inclusive (nv_norm v)"]
  by (auto simp: cli_detect_def Let_def concat_split_inclusive split: prod.splits)

interpretation cli_located: located_detector cli_detect
  using inspect_lines_located
  by unfold_locales (fastforce simp: cli_detect_lines concat_split_inclusive split: if_splits)


section \<open>Secret options are found\<close>

lemma option_is_option: "long_secret_option v \<noteq> None \<Longrightarrow> looks_like_option v"
  by (auto simp: long_secret_option_def looks_like_option_def strip_prefix_def prefix_def split: if_splits)

lemma named_option_found:
  assumes "i + 1 < length ts" and "long_secret_option (tk_value (ts ! i)) = Some None"
    and "\<not> looks_like_option (tk_value (ts ! (i + 1)))"
  shows "set (push_cli_keyed_secret v (ts ! (i + 1)) 0) \<subseteq> set (inspect_named_secret_options v ts)"
  using assms
proof (induction ts arbitrary: i rule: length_induct)
  case (1 ts)
  then obtain t u us where ts: "ts = t # u # us" by (cases ts; cases "tl ts") auto
  have IH: "set (push_cli_keyed_secret v (ys ! (k + 1)) 0) \<subseteq> set (inspect_named_secret_options v ys)"
    if "length ys < length ts" "k + 1 < length ys" "long_secret_option (tk_value (ys ! k)) = Some None"
      "\<not> looks_like_option (tk_value (ys ! (k + 1)))" for ys k
    using "1.IH" that by blast
  show ?case
  proof (cases i)
    case 0
    with "1.prems" ts show ?thesis by simp
  next
    case (Suc k)
    have tl: "set (push_cli_keyed_secret v (ts ! (i + 1)) 0) \<subseteq> set (inspect_named_secret_options v (u # us))"
      using IH [of "u # us" k] "1.prems" ts Suc by simp
    consider "long_secret_option (tk_value t) = None" | start where "long_secret_option (tk_value t) = Some (Some start)"
      | "long_secret_option (tk_value t) = Some None" by (metis option.exhaust)
    then show ?thesis
    proof cases
      case 3
      show ?thesis
      proof (cases "looks_like_option (tk_value u)")
        case True
        with 3 tl ts show ?thesis by simp
      next
        case False
        have "k \<noteq> 0"
        proof
          assume "k = 0"
          with "1.prems"(2) ts Suc have "long_secret_option (tk_value u) = Some None" by simp
          with option_is_option [of "tk_value u"] False show False by simp
        qed
        then obtain m where "k = Suc m" by (cases k) auto
        with IH [of us m] "1.prems" ts Suc 3 False show ?thesis by auto
      qed
    qed (use tl ts in auto)
  qed
qed

lemma inspect_lines_line:
  "n < length ls \<Longrightarrow> set (inspect_line v (base + length (concat (take n ls))) (trim_line_breaks (ls ! n)))
     \<subseteq> set (fst (inspect_lines v base ls))"
proof (induction v base ls arbitrary: n rule: inspect_lines.induct)
  case (2 v base l ls)
  show ?case
  proof (cases n)
    case (Suc m)
    with "2.IH" [of m] "2.prems" show ?thesis by (auto simp: add.assoc split: prod.splits)
  qed (auto split: prod.splits)
qed simp

lemma boundary_in_text:
  assumes "str_contains line ''--''" and "s = a @ line @ b"
  shows "may_contain_cli_credential_boundary line" and "may_contain_cli_credential_boundary s"
proof -
  from assms(1) obtain i where i: "sublist_at ''--'' i line" by (auto simp: str_contains_iff)
  then have "sublist_at ''--'' (length a + i) s"
    using assms(2) by (auto simp: sublist_at_def prefix_def)
  then show "may_contain_cli_credential_boundary s"
    by (auto simp: may_contain_cli_credential_boundary_def str_contains_iff)
  from assms(1) show "may_contain_cli_credential_boundary line"
    by (simp add: may_contain_cli_credential_boundary_def)
qed


section \<open>Properties\<close>

lemma option_values_found:
  assumes "n < length (split_inclusive (nv_norm v))"
    and "line = trim_line_breaks (split_inclusive (nv_norm v) ! n)" and "str_contains line ''--''"
    and "c \<in> set (command_slices (shell_tokens line (length (concat (take n (split_inclusive (nv_norm v)))))) (nv_norm v))"
    and "i + 1 < length c" and "long_secret_option (tk_value (c ! i)) = Some None"
    and "\<not> looks_like_option (tk_value (c ! (i + 1)))"
  shows "set (push_cli_keyed_secret v (c ! (i + 1)) 0) \<subseteq> set (cli_detect v)"
proof -
  let ?ls = "split_inclusive (nv_norm v)" and ?base = "length (concat (take n (split_inclusive (nv_norm v))))"
  obtain r where r: "?ls ! n = line @ r" using trim_line_breaks_prefix [of "?ls ! n"] assms(2) by (auto simp: prefix_def)
  have "nv_norm v = concat (take n ?ls) @ ?ls ! n @ concat (drop (Suc n) ?ls)"
    by (metis assms(1) concat.simps(2) concat_append concat_split_inclusive id_take_nth_drop)
  then have gates: "may_contain_cli_credential_boundary line" "may_contain_cli_credential_boundary (nv_norm v)"
    using boundary_in_text [OF assms(3), of "nv_norm v" "concat (take n ?ls)" "r @ concat (drop (Suc n) ?ls)"]
    by (simp_all add: r)
  have "set (push_cli_keyed_secret v (c ! (i + 1)) 0) \<subseteq> set (inspect_command v c)"
    using named_option_found [OF assms(5-7), of v] by (auto simp: inspect_command_def)
  also have "\<dots> \<subseteq> set (inspect_line v ?base line)"
    using gates(1) assms(4) by (auto simp: inspect_line_def)
  also have "\<dots> \<subseteq> set (cli_detect v)"
    using inspect_lines_line [OF assms(1), of v 0] gates(2) assms(2) by (simp add: cli_detect_lines)
  finally show ?thesis .
qed

text \<open>
  C16. The value of a secret option is reported wherever it stands on a command line: when a word of
  a command names a sensitive long option without an inline value and the next word is not an option
  and is material, then a finding covers every byte of that word's trimmed text, whatever quotes,
  escapes, other options and earlier values the command has.
\<close>

theorem option_values_reported:
  assumes "n < length (split_inclusive (nv_norm v))"
    and "line = trim_line_breaks (split_inclusive (nv_norm v) ! n)" and "str_contains line ''--''"
    and "c \<in> set (command_slices (shell_tokens line (length (concat (take n (split_inclusive (nv_norm v)))))) (nv_norm v))"
    and "i + 1 < length c" and "long_secret_option (tk_value (c ! i)) = Some None"
    and "\<not> looks_like_option (tk_value (c ! (i + 1)))"
    and "t = c ! (i + 1)" and "trim (tk_value t) \<noteq> []" and "cli_secret_is_material (trim (tk_value t))"
  shows "\<exists>x \<in> set (cli_detect v). \<exists>r. sp_range x = to_raw v r \<and>
    (\<forall>k < length (trim (tk_value t)).
       let at = tk_raw t ! (length (tk_value t) - length (trim_start (tk_value t)) + k)
       in rstart r \<le> at \<and> at < rend r)"
proof -
  let ?base = "length (concat (take n (split_inclusive (nv_norm v))))"
  let ?a = "length (tk_value t) - length (trim_start (tk_value t))"
  let ?e = "?a + length (trim (tk_value t))"
  have "t \<in> set c" using assms(5,8) by simp
  then have "t \<in> set (shell_tokens line ?base)" by (rule command_slices_words [OF assms(4)])
  then have t: "token_of line ?base t" by (rule shell_tokens_traced)
  then have len: "length (tk_raw t) = length (tk_value t)" "tk_value t \<noteq> []"
    by (simp_all add: token_of_def traced_def)
  have e: "?a < ?e" "?e \<le> length (tk_value t)" using assms(9) trim_le [of "tk_value t"] by simp_all
  define r where "r = range_new (tk_raw t ! ?a) (tk_raw t ! (?e - 1) + 1)"
  define x where "x = rule_span (to_raw v r) lbl_KEYED_SECRET"
  have "push_cli_keyed_secret v t 0 = [x]"
    using assms(9,10) len by (simp add: push_cli_keyed_secret_def push_cli_secret_def Let_def x_def r_def)
  then have "x \<in> set (cli_detect v)" using option_values_found [OF assms(1-7)] assms(8) by simp
  moreover have "sp_range x = to_raw v r" by (simp add: x_def rule_span_def)
  moreover have "rstart r \<le> tk_raw t ! (?a + k) \<and> tk_raw t ! (?a + k) < rend r"
    if "k < length (trim (tk_value t))" for k
    using token_offsets(3) [OF t e, of "?a + k"] that by (simp add: range_new_def r_def)
  ultimately show ?thesis unfolding Let_def by blast
qed

definition example_command :: str where
  "example_command = ''x --api-token 'a b' y''"

lemma option_values_reported_witness:
  "\<exists>x \<in> set (cli_detect (identity_view (example_region 22) example_command example_command)). \<exists>r.
     sp_range x = to_raw (identity_view (example_region 22) example_command example_command) r \<and>
     rstart r \<le> 15 \<and> 17 < rend r"
proof -
  let ?v = "identity_view (example_region 22) example_command example_command"
  let ?c = "[\<lparr>tk_value = ''x'', tk_raw = [0]\<rparr>,
     \<lparr>tk_value = ''--api-token'', tk_raw = [2, 3, 4, 5, 6, 7, 8, 9, 10, 11, 12]\<rparr>,
     \<lparr>tk_value = ''a b'', tk_raw = [15, 16, 17]\<rparr>, \<lparr>tk_value = ''y'', tk_raw = [20]\<rparr>]"
  have split: "split_inclusive (nv_norm ?v) = [example_command]"
    and line: "example_command = trim_line_breaks (split_inclusive (nv_norm ?v) ! 0)"
    and dashes: "str_contains example_command ''--''" by code_simp+
  have cut: "command_slices (shell_tokens example_command 0) (nv_norm ?v) = [?c]" by code_simp
  have words: "long_secret_option ''--api-token'' = Some None" "\<not> looks_like_option ''a b''"
    "trim ''a b'' = ''a b''" "cli_secret_is_material ''a b''" by code_simp+
  then have opt: "long_secret_option (tk_value (?c ! 1)) = Some None" "\<not> looks_like_option (tk_value (?c ! (1 + 1)))"
    and material: "trim (tk_value (?c ! (1 + 1))) \<noteq> []" "cli_secret_is_material (trim (tk_value (?c ! (1 + 1))))"
    by simp_all
  have at: "length (trim ''a b'') = 3" "length (trim_start ''a b'') = 3" by code_simp+
  have n: "0 < length (split_inclusive (nv_norm ?v))" unfolding split by simp
  have c: "?c \<in> set (command_slices (shell_tokens example_command
      (length (concat (take 0 (split_inclusive (nv_norm ?v)))))) (nv_norm ?v))"
    unfolding take_0 concat.simps list.size cut by simp
  have i: "1 + 1 < length ?c" by simp
  from option_values_reported [OF n line dashes c i opt refl material] obtain x r where
    x: "x \<in> set (cli_detect ?v)" "sp_range x = to_raw ?v r"
    "\<forall>k < length (trim (tk_value (?c ! (1 + 1)))).
       let at = tk_raw (?c ! (1 + 1)) ! (length (tk_value (?c ! (1 + 1))) - length (trim_start (tk_value (?c ! (1 + 1)))) + k)
       in rstart r \<le> at \<and> at < rend r" by (elim bexE exE conjE)
  have "rstart r \<le> 15" using x(3) [rule_format, of 0] by (simp add: at Let_def)
  moreover have "17 < rend r" using x(3) [rule_format, of 2] by (simp add: at Let_def)
  ultimately show ?thesis using x(1,2) by blast
qed

end
