(* ===== verification/Spec2Isabelle.thy ===== *)
theory Spec2Isabelle
  imports Codec Merge Sweep Render Recovery Persist Views Streaming Normalize Engine Frozen
    Guarantees Builder Checksum Address Validate JsonGrammar ParserFacts Transaction Store TerminalFacts CliDetector
begin

text \<open>
  A verification development for \<open>pentect\<close>: the masking kernel under \<open>crates/pentect-core/src\<close>, and
  the parts of the runtime under \<open>crates/pentect-runtime/src\<close> that decide what leaves the kernel's
  hands: the restoring of handles in the inputs of tools, the store that shares the map between
  processes, and the re-masking of terminal output.

  What the program does. \<open>Engine::mask\<close> parses a document into value regions, normalizes each for
  detection, runs the detectors to a bounded fixpoint, lets a policy and a guard decide which
  findings to mask, merges the overlapping ones, sweeps the text for further copies of the masked
  values and renders: every finding is replaced by a handle \<open><<LABEL_hash>>\<close> made from a keyed hash
  of the value. A recovery map, sealed under a key, turns handles back into values
  (\<open>resolve\<close>), hides echoed values again (\<open>remask\<close>), also in a stream, and is stored as an
  authenticated blob.

  Conventions. A string is its list of UTF-8 bytes (\<open>str\<close>), a byte range a record of two offsets,
  a panic the result \<open>None\<close>, an error a value of the code's error type on the left of a sum.
  Offsets and counts are natural numbers where the code's \<open>usize\<close> cannot overflow on a text that
  fits in memory; the words the code computes with (checksums, hash prefixes, lengths in the blob
  format, Bech32) keep their width. Third-party code is a parameter: Unicode normalization, the
  multi-pattern search, SHA-256, HMAC, ChaCha20, Base64, Base58, Keccak, BIP-39 and \<open>serde_json\<close>.
  What a theorem needs of one of them is a hypothesis, and a witness instantiates it.

  The theories, in the order of their imports:

  \<^item> \<open>Prelude\<close>, \<open>Utf8\<close>: searching and splitting of byte lists, ordered maps, UTF-8 validity,
    character boundaries, slices, white space and decimal numbers of the standard library.
  \<^item> \<open>Model\<close> (\<open>model.rs\<close>): ranges, regions, findings and their strength order.
  \<^item> \<open>Placeholder\<close> (\<open>placeholder.rs\<close>), \<open>Frozen\<close> (\<open>PLACEHOLDER_RE\<close> of \<open>pipeline/mod.rs\<close>): the syntax of
    handles, their rendering, parsing and recognition in an input.
  \<^item> \<open>Codec\<close> (\<open>codec.rs\<close>): the decoders; the chunked ones share one locale.
  \<^item> \<open>Policy\<close> (\<open>policy/\<close>): policies, profiles and the guard against over-masking.
  \<^item> \<open>Interval\<close>, \<open>Merge\<close>, \<open>Sweep\<close>, \<open>Render\<close> (\<open>pipeline/\<close>): the interval index, the resolution of
    overlaps, the sweep for copies and the renderer.
  \<^item> \<open>Normalize\<close> (\<open>normalize.rs\<close>): the detection view and the maps between its offsets and the raw
    ones.
  \<^item> \<open>Engine\<close>, \<open>Builder\<close>, \<open>Guarantees\<close> (\<open>pipeline/mod.rs\<close>): the engine, its constructors and what it
    guarantees as a whole.
  \<^item> \<open>Json\<close>, \<open>JsonFacts\<close>, \<open>JsonGrammar\<close> (\<open>parse/json.rs\<close>), \<open>Parsers\<close>, \<open>ParserFacts\<close> (\<open>parse/mod.rs\<close>): the region
    parsers. \<open>JsonFacts\<close> shows that twice the length of a text is enough fuel for the recursive
    descent and that every region is the inside of a string literal; \<open>JsonGrammar\<close> relates documents
    to their texts by an inductive grammar and shows which regions the parser reports for a
    document; \<open>ParserFacts\<close> that all parsers
    report regions in order and inside the text, so that the engines built from them return.
  \<^item> \<open>Benign\<close> (\<open>detect/benign.rs\<close>, \<open>detect/structural.rs\<close>): identifiers and sensitive key names.
  \<^item> \<open>Detectors\<close> (\<open>detect/explicit.rs\<close>), \<open>Shell\<close> (\<open>detect/shell.rs\<close>), \<open>CliDetector\<close> (\<open>detect/cli.rs\<close>): what
    the engine relies on from a detector, as an interface (\<open>located_detector\<close>), and two detectors
    that provide it: that of explicit markers and that of command lines.
  \<^item> \<open>Checksum\<close>, \<open>Address\<close>, \<open>Validate\<close> (\<open>detect/validate.rs\<close>): the validators a rule can apply to a
    match: national and financial numbers, crypto and network addresses, credential shapes. The
    lemmas show which errors the check digits detect, and on which texts a validator panics.
  \<^item> \<open>Recovery\<close>, \<open>Persist\<close>, \<open>Views\<close>, \<open>Masking\<close>, \<open>Remask\<close>, \<open>Streaming\<close> (\<open>recovery.rs\<close>): the sealed
    map, its blob format, derived views of handles, re-masking of whole texts and of streams. The
    stream re-masker is shown to refine a specification that does not see the chunks.
  \<^item> \<open>ToolInput\<close> (\<open>handle_views.rs\<close> and \<open>masking.rs\<close> of the runtime): which handles of a tool call are
    replaced, in which contexts, and when a call is refused.
  \<^item> \<open>FilePointers\<close>, \<open>PointerFacts\<close> (\<open>file_pointer_manager.rs\<close>, \<open>secure_io.rs\<close>): handles whose values are
    read back from the files they were found in, with the limits, the digests and the encrypted index.
    The batch is an invariant: what it holds are verified slices of unchanged files.
  \<^item> \<open>EnvRefs\<close> (\<open>main.rs\<close>, \<open>masking.rs\<close>): environment variables that stand for handles in a shell, and
    the pass that resolves references to them.
  \<^item> \<open>Transaction\<close> (\<open>main.rs\<close>): the resolver of one response, a state machine that publishes what it
    recovered once or not at all.
  \<^item> \<open>Store\<close> (\<open>memory_store.rs\<close>, \<open>session.rs\<close>): the store process, its line protocol, its two levels of
    access, the activity log and the connection permits. The log is an interface (\<open>event_log\<close>), which the
    requests of the store implement.
  \<^item> \<open>Terminal\<close>, \<open>TerminalFacts\<close> (\<open>output_remask.rs\<close>): the parser of terminal output in front of the
    stream re-masker. Its state machine is shown not to see the cuts between chunks, and to keep the
    keyboard modes of a full-screen program in a frame of their own.

  Bounds. The detection loop makes four passes, as in the code. Resolution looks at most
  \<open>MAX_PLACEHOLDER_BYTES\<close> ahead for the end of a handle; the round trips therefore ask for labels
  that fit. The whole-text re-masker runs on one more than the bytes of the text as fuel, and its theorem
  shows that it never runs out.

  Not modelled: the other detectors, which are regular expressions, tables and a neural
  network (\<open>credsweeper.rs\<close>, \<open>key_value.rs\<close>, \<open>url.rs\<close>, \<open>rule.rs\<close> and the smaller ones); they are
  parameters of the engine, whose theorems hold whatever they report. Of the runtime, the file system,
  sockets, locks, clocks and processes are parameters or left out, as are the plugin host and the
  image reader; the command line crate is servers, process supervision and installation around the
  modelled parts. Zeroization
  of memory and random key generation have no counterpart in the logic.
\<close>

end
